(* ===== verification/Prelude.thy ===== *)
theory Prelude
  imports Main "HOL-Library.Word"
begin

text \<open>
  Shared vocabulary of the development: how the C data of \<^verbatim>\<open>src/cli\<close> is represented, the
  collections of simplification rules the component theories use, and the generic lemmas on
  lists, options and machine words that several components need.

  A C string is the HOL string of the bytes before its terminating NUL, so \<open>length\<close> is
  \<^verbatim>\<open>strlen\<close>; a pointer that may be NULL is an \<open>option\<close>. \<open>char_at s i\<close> reads byte \<open>i\<close> and
  gives NUL at the terminator. Plain \<^verbatim>\<open>char\<close> is signed, as it is on the gcc targets the
  repository builds for; \<open>schar\<close> is the value of a byte after the integer promotions.
  Functions that step through a string with \<^verbatim>\<open>ADVANCE_CHAR\<close> or \<^verbatim>\<open>COPY_CHAR_P\<close> are modelled in
  a single-byte locale, where both advance by one byte.
\<close>

unbundle bit_operations_syntax

subsection \<open>Rule collections\<close>

named_theorems cdefs \<open>definitions of C-level helpers that proofs unfold\<close>
named_theorems inv_simps \<open>rewrite rules for the component invariants\<close>

subsection \<open>Bytes and strings\<close>

abbreviation NUL :: char where
  "NUL \<equiv> CHR 0x00"

definition char_at :: "string \<Rightarrow> nat \<Rightarrow> char" where
  "char_at s i = (if i < length s then s ! i else NUL)"

definition c_string :: "string \<Rightarrow> bool" where
  "c_string s \<longleftrightarrow> NUL \<notin> set s"

definition uchar :: "char \<Rightarrow> int" where
  "uchar c = int (of_char c :: nat)"

definition schar :: "char \<Rightarrow> int" where
  "schar c = (if uchar c < 128 then uchar c else uchar c - 256)"

lemma char_at_Nil [simp]: "char_at [] i = NUL"
  by (simp add: char_at_def)

lemma char_at_Cons_0 [simp]: "char_at (c # s) 0 = c"
  by (simp add: char_at_def)

lemma char_at_Cons_Suc [simp]: "char_at (c # s) (Suc i) = char_at s i"
  by (simp add: char_at_def)

lemma c_string_Nil [simp]: "c_string []"
  by (simp add: c_string_def)

lemma c_string_Cons [simp]: "c_string (c # s) \<longleftrightarrow> c \<noteq> NUL \<and> c_string s"
  by (auto simp: c_string_def)

lemma c_string_append [simp]: "c_string (s @ t) \<longleftrightarrow> c_string s \<and> c_string t"
  by (auto simp: c_string_def)

subsection \<open>Text at a place of a buffer\<close>

definition text_at :: "string \<Rightarrow> nat \<Rightarrow> string \<Rightarrow> bool" where
  "text_at b p s \<longleftrightarrow> p + length s \<le> length b \<and> take (length s) (drop p b) = s"

lemma text_at_le: "text_at b p s \<Longrightarrow> p + length s \<le> length b"
  by (simp add: text_at_def)

lemma text_at_Nil [simp]: "text_at b p [] \<longleftrightarrow> p \<le> length b"
  by (simp add: text_at_def)

lemma text_at_Cons [simp]: "text_at b p (c # s) \<longleftrightarrow> p < length b \<and> b ! p = c \<and> text_at b (Suc p) s"
proof (cases "p < length b")
  case True
  then have "drop p b = b ! p # drop (Suc p) b" by (rule Cons_nth_drop_Suc [symmetric])
  with True show ?thesis by (auto simp: text_at_def)
qed (auto simp: text_at_def)

lemma text_at_append [simp]: "text_at b p (s @ t) \<longleftrightarrow> text_at b p s \<and> text_at b (p + length s) t"
  by (induction s arbitrary: p) (auto dest: text_at_le)

lemma text_at_drop: "text_at b p s \<Longrightarrow> drop p b = s @ drop (p + length s) b"
  unfolding text_at_def by (metis add.commute append_take_drop_id drop_drop)

lemma char_at_nth: "i < length b \<Longrightarrow> char_at b i = b ! i"
  by (simp add: char_at_def)

lemma char_at_inside: "char_at b i \<noteq> NUL \<Longrightarrow> i < length b"
  by (auto simp: char_at_def split: if_splits)

subsection \<open>Machine integers\<close>

text \<open>\<^verbatim>\<open>int\<close> is 32 bits and \<^verbatim>\<open>intmax_t\<close> (with \<^verbatim>\<open>long\<close> and \<^verbatim>\<open>arrayind_t\<close>) is 64 bits wide.\<close>

definition INT_MAX :: int where
  "INT_MAX = 2 ^ 31 - 1"

definition INT_MIN :: int where
  "INT_MIN = - (2 ^ 31)"

definition INTMAX_MAX :: int where
  "INTMAX_MAX = 2 ^ 63 - 1"

definition INTMAX_MIN :: int where
  "INTMAX_MIN = - (2 ^ 63)"

declare INT_MAX_def [cdefs] INT_MIN_def [cdefs] INTMAX_MAX_def [cdefs] INTMAX_MIN_def [cdefs]

text \<open>Masking a 32-bit value with \<open>n - 1\<close> never reaches \<open>n\<close>, whatever the positive \<open>n\<close> is.\<close>

lemma unat_and_mask_less:
  assumes "0 < n" and "n \<le> INT_MAX"
  shows "unat (h AND word_of_int (n - 1) :: 32 word) < nat n"
proof -
  have "unat (h AND word_of_int (n - 1) :: 32 word) \<le> unat (word_of_int (n - 1) :: 32 word)"
    by (rule word_and_le1 [THEN word_le_nat_alt [THEN iffD1]])
  also have "unat (word_of_int (n - 1) :: 32 word) = nat (n - 1)"
  proof -
    have "uint (word_of_int (n - 1) :: 32 word) = n - 1"
      unfolding uint_word_of_int using assms by (simp add: INT_MAX_def)
    then show ?thesis by (metis nat_uint_eq)
  qed
  finally show ?thesis using assms by linarith
qed

text \<open>A shift right that does not reach zero makes the value smaller.\<close>

lemma unat_drop_bit_div: "unat (drop_bit k w) = unat w div 2 ^ k" for w :: "'a::len word"
  unfolding unat_drop_bit_eq by (simp add: drop_bit_eq_div)

lemma unat_drop_bit_less:
  fixes w :: "'a::len word"
  assumes "drop_bit k w \<noteq> 0" and "0 < k"
  shows "unat (drop_bit k w) < unat w"
proof -
  have "w \<noteq> 0" using assms(1) by auto
  then have "0 < unat w" by (simp add: unat_gt_0)
  moreover have "1 < (2::nat) ^ k" using assms(2) by (intro one_less_power) simp_all
  ultimately show ?thesis by (simp only: unat_drop_bit_div div_less_dividend)
qed

lemma unat64_le: "unat (w :: 64 word) \<le> 2 ^ 64 - 1"
proof -
  have "(unsigned w :: nat) < 2 ^ LENGTH(64)" by (rule unsigned_less)
  then show ?thesis by simp
qed

lemma unat64_minus_1: "unat (- 1 :: 64 word) = 2 ^ 64 - 1"
  by (simp add: unsigned_minus_1_eq_mask mask_eq_exp_minus_1)

lemma sint64_shift: "sint (w :: 64 word) = (uint w + 2 ^ 63) mod 2 ^ 64 - 2 ^ 63"
proof -
  have "sint w = signed_take_bit 63 (uint w)" by (simp add: sint_uint)
  also have "\<dots> = (uint w + 2 ^ 63) mod 2 ^ 64 - 2 ^ 63"
    by (simp add: signed_take_bit_eq_take_bit_shift take_bit_eq_mod)
  finally show ?thesis .
qed

lemma uint_less_unat: "unat w < n \<Longrightarrow> uint w < int n"
  by (metis of_nat_less_iff uint_nat)

lemma uint_le_unat: "unat w \<le> n \<Longrightarrow> uint w \<le> int n"
  by (metis of_nat_le_iff uint_nat)

lemma sint64_pos: "unat (w :: 64 word) < 2 ^ 63 \<Longrightarrow> sint w = int (unat w)"
  unfolding sint64_shift using uint_less_unat [of w "2 ^ 63"] by (subst mod_pos_pos_trivial) simp_all

lemma sint64_neg:
  assumes "unat (w :: 64 word) \<le> 2 ^ 63" shows "sint (- w) = - int (unat w)"
proof -
  have "sint (- w) = (- uint w + 2 ^ 63) mod 2 ^ 64 - 2 ^ 63"
    unfolding sint64_shift using uint_word_ariths(4) [of w] by (simp add: mod_add_left_eq)
  moreover have "(- uint w + 2 ^ 63) mod 2 ^ 64 = - uint w + 2 ^ 63"
  proof (rule mod_pos_pos_trivial)
    show "0 \<le> - uint w + 2 ^ 63" using uint_le_unat [OF assms] by simp
    have "- uint w + 2 ^ 63 \<le> 0 + 2 ^ 63" by (rule add_right_mono) simp
    also have "(0 :: int) + 2 ^ 63 < 2 ^ 64" by simp
    finally show "- uint w + 2 ^ 63 < 2 ^ 64" .
  qed
  ultimately show ?thesis by simp
qed

lemma unat64_of_int:
  assumes "0 \<le> i" and "i < 2 ^ 64" shows "unat (word_of_int i :: 64 word) = nat i"
proof -
  have "uint (word_of_int i :: 64 word) = i" unfolding uint_word_of_int using assms by simp
  then show ?thesis by (metis nat_uint_eq)
qed

subsection \<open>Lists\<close>

lemma map_of_map_key_None:
  "map_of (map (\<lambda>x. (f x, g x)) xs) k = None \<longleftrightarrow> (\<forall>x \<in> set xs. f x \<noteq> k)"
  by (induction xs) auto

lemma map_of_map_append_skip:
  "(\<And>x. x \<in> set xs \<Longrightarrow> f x \<noteq> k) \<Longrightarrow>
   map_of (map (\<lambda>x. (f x, g x)) xs @ ys) k = map_of ys k"
  by (induction xs) auto

lemma concat_update_split:
  "b < length xss \<Longrightarrow>
   concat (xss[b := ys]) = concat (take b xss) @ ys @ concat (drop (Suc b) xss)"
  by (simp add: upd_conv_take_nth_drop)

lemma concat_nth_split:
  "b < length xss \<Longrightarrow>
   concat xss = concat (take b xss) @ xss ! b @ concat (drop (Suc b) xss)"
  by (metis concat.simps(2) concat_append id_take_nth_drop)

lemma set_take_nth: "x \<in> set (take b xs) \<Longrightarrow> \<exists>i < b. i < length xs \<and> x = xs ! i"
  by (auto simp: in_set_conv_nth)

lemma set_drop_nth: "x \<in> set (drop b xs) \<Longrightarrow> \<exists>i \<ge> b. i < length xs \<and> x = xs ! i"
  by (auto simp: in_set_conv_nth) (metis le_add1 less_diff_conv add.commute)

lemma take_Suc_update: "n < length b \<Longrightarrow> take (Suc n) (b[n := x]) = take n b @ [x]"
  by (simp add: take_Suc_conv_app_nth)

lemma sum_list_length_concat: "sum_list (map length xss) = length (concat xss)"
  by (simp add: length_concat)

end
