(* ===== verification/WordList.thy ===== *)
theory WordList
  imports Prelude
begin

text \<open>
  Words, word lists and string vectors: the generic singly linked lists of \<^verbatim>\<open>list.c\<close>, the word
  constructors of \<^verbatim>\<open>make_cmd.c\<close> and the NULL-terminated string vectors of
  \<^verbatim>\<open>lib/sh/stringvec.c\<close>. A linked list is the HOL list of its cells. A string vector is the
  memory block that holds it, a list of slots; a slot may be uninitialised, hold a null
  pointer, a string, or a string that was freed. Functions that would read an uninitialised
  slot, use a freed string or run past the block return \<open>None\<close>. The \<^verbatim>\<open>alloc\<close> argument of the
  conversions chooses between sharing and copying the strings; the values are the same.
\<close>

subsection \<open>Generic lists\<close>

fun list_reverse_loop :: "'a list \<Rightarrow> 'a list \<Rightarrow> 'a list" where
  "list_reverse_loop prev [] = prev"
| "list_reverse_loop prev (x # list) = list_reverse_loop (x # prev) list"

definition list_reverse :: "'a list \<Rightarrow> 'a list" where
  "list_reverse list = list_reverse_loop [] list"

fun list_length_loop :: "'a list \<Rightarrow> int \<Rightarrow> int" where
  "list_length_loop [] i = i"
| "list_length_loop (x # list) i = list_length_loop list (i + 1)"

definition list_length :: "'a list \<Rightarrow> int" where
  "list_length list = list_length_loop list 0"

fun list_append :: "'a list \<Rightarrow> 'a list \<Rightarrow> 'a list" where
  "list_append [] tail = tail"
| "list_append [t_head] tail = t_head # tail"
| "list_append (t_head # u # rest) tail = t_head # list_append (u # rest) tail"

lemma list_reverse_loop_rev: "list_reverse_loop prev xs = rev xs @ prev"
  by (induction xs arbitrary: prev) simp_all

lemma list_reverse_rev [simp]: "list_reverse = rev"
  by (simp add: fun_eq_iff list_reverse_def list_reverse_loop_rev)

lemma list_length_loop_eq: "list_length_loop xs i = i + int (length xs)"
  by (induction xs arbitrary: i) simp_all

lemma list_length_eq [simp]: "list_length xs = int (length xs)"
  by (simp add: list_length_def list_length_loop_eq)

lemma list_append_eq [simp]: "list_append xs ys = xs @ ys"
  by (induction xs ys rule: list_append.induct) simp_all

subsection \<open>Words\<close>

record word_desc =
  word :: string
  wflags :: int

type_synonym word_list = "word_desc list"

definition W_HASDOLLAR :: int where "W_HASDOLLAR = 0x000001"
definition W_QUOTED :: int where "W_QUOTED = 0x000002"
definition W_HASQUOTEDNULL :: int where "W_HASQUOTEDNULL = 0x040000"

declare W_HASDOLLAR_def [cdefs] W_QUOTED_def [cdefs] W_HASQUOTEDNULL_def [cdefs]

definition make_bare_word :: "string \<Rightarrow> word_desc" where
  "make_bare_word string = \<lparr>word = string, wflags = 0\<rparr>"

fun make_word_flags :: "word_desc \<Rightarrow> string \<Rightarrow> word_desc" where
  "make_word_flags w [] = w"
| "make_word_flags w (c # string) =
     make_word_flags
       (if c = CHR ''$'' then w\<lparr>wflags := wflags w OR W_HASDOLLAR\<rparr>
        else if c = CHR 0x5C then w
        else if c = CHR 0x27 \<or> c = CHR 0x60 \<or> c = CHR 0x22 then w\<lparr>wflags := wflags w OR W_QUOTED\<rparr>
        else w) string"

definition make_word :: "string \<Rightarrow> word_desc" where
  "make_word string = make_word_flags (make_bare_word string) string"

definition make_word_list :: "word_desc \<Rightarrow> word_list \<Rightarrow> word_list" where
  "make_word_list w wlink = w # wlink"

lemma word_make_bare_word [simp]: "word (make_bare_word s) = s" "wflags (make_bare_word s) = 0"
  by (simp_all add: make_bare_word_def)

lemma word_make_word_flags [simp]: "word (make_word_flags w s) = word w"
  by (induction w s rule: make_word_flags.induct) simp_all

subsection \<open>String vectors\<close>

datatype slot = Undef | Null | Ptr string | Freed

type_synonym strvec = "slot list"

fun strvec_len :: "strvec \<Rightarrow> nat option" where
  "strvec_len (Null # array) = Some 0"
| "strvec_len (Ptr s # array) = map_option Suc (strvec_len array)"
| "strvec_len array = None"

fun strvec_flush :: "strvec \<Rightarrow> strvec option" where
  "strvec_flush (Null # array) = Some (Null # array)"
| "strvec_flush (Ptr s # array) = map_option ((#) Freed) (strvec_flush array)"
| "strvec_flush array = None"

fun strvec_shift_down :: "strvec \<Rightarrow> strvec option" where
  "strvec_shift_down (Null # array) = Some (Null # array)"
| "strvec_shift_down (Ptr s # x # array) = map_option ((#) x) (strvec_shift_down (x # array))"
| "strvec_shift_down array = None"

fun strvec_remove :: "strvec \<Rightarrow> string \<Rightarrow> (strvec \<times> int) option" where
  "strvec_remove (Null # array) name = Some (Null # array, 0)"
| "strvec_remove (Ptr s # array) name =
     (if name = s then map_option (\<lambda>a. (a, 1)) (strvec_shift_down (Ptr s # array))
      else map_option (\<lambda>(a, r). (Ptr s # a, r)) (strvec_remove array name))"
| "strvec_remove array name = None"

fun strvec_copy :: "strvec \<Rightarrow> strvec option" where
  "strvec_copy (Null # array) = Some [Null]"
| "strvec_copy (Ptr s # array) = map_option ((#) (Ptr s)) (strvec_copy array)"
| "strvec_copy array = None"

definition strvec_from_word_list :: "word_list \<Rightarrow> nat \<Rightarrow> strvec \<times> int" where
  "strvec_from_word_list list starting_index =
     (replicate starting_index Null @ map (\<lambda>w. Ptr (word w)) list @ [Null],
      int starting_index + list_length list)"

fun strvec_words :: "strvec \<Rightarrow> nat \<Rightarrow> nat \<Rightarrow> word_list \<Rightarrow> word_list option" where
  "strvec_words array i 0 list = Some list"
| "strvec_words array i (Suc n) list =
     (case array ! i of
        Ptr s \<Rightarrow> strvec_words array (Suc i) n (make_word_list (make_bare_word s) list)
      | _ \<Rightarrow> None)"

definition strvec_to_word_list :: "strvec option \<Rightarrow> nat \<Rightarrow> word_list option" where
  "strvec_to_word_list array starting_index =
     (case array of
        None \<Rightarrow> Some []
      | Some a \<Rightarrow>
          if a \<noteq> [] \<and> hd a = Null then Some []
          else case strvec_len a of
                 None \<Rightarrow> None
               | Some count \<Rightarrow>
                   map_option list_reverse
                     (strvec_words a starting_index (count - starting_index) []))"

text \<open>A vector that holds the strings \<open>xs\<close>: their slots, a null slot, and any further slots.\<close>

definition holds :: "strvec \<Rightarrow> string list \<Rightarrow> bool" where
  "holds a xs \<longleftrightarrow> (\<exists>rest. a = map Ptr xs @ Null # rest)"

lemma holds_Nil [simp]: "holds a [] \<longleftrightarrow> (\<exists>rest. a = Null # rest)"
  by (simp add: holds_def)

lemma holds_Cons: "holds a (x # xs) \<longleftrightarrow> (\<exists>a'. a = Ptr x # a' \<and> holds a' xs)"
  by (auto simp: holds_def)

lemma strvec_len_holds: "holds a xs \<Longrightarrow> strvec_len a = Some (length xs)"
  by (induction xs arbitrary: a) (auto simp: holds_Cons)

lemma strvec_shift_down_holds:
  "holds a (x # xs) \<Longrightarrow> \<exists>a'. strvec_shift_down a = Some a' \<and> holds a' xs \<and> length a' = length a"
proof (induction xs arbitrary: a x)
  case Nil
  then show ?case by (auto simp: holds_Cons)
next
  case (Cons y ys)
  then obtain b where a: "a = Ptr x # b" and b: "holds b (y # ys)" by (auto simp: holds_Cons)
  from Cons.IH [OF b] obtain b' where "strvec_shift_down b = Some b'" "holds b' ys" "length b' = length b"
    by blast
  moreover from b obtain c where "b = Ptr y # c" by (auto simp: holds_Cons)
  ultimately show ?case using a by (auto simp: holds_Cons)
qed

lemma strvec_shift_down_set: "strvec_shift_down a = Some a' \<Longrightarrow> set a' \<subseteq> set a"
  by (induction a arbitrary: a' rule: strvec_shift_down.induct) auto

lemma strvec_remove_set: "strvec_remove a name = Some (a', r) \<Longrightarrow> set a' \<subseteq> set a"
  by (induction a name arbitrary: a' r rule: strvec_remove.induct)
    (fastforce split: if_splits dest: strvec_shift_down_set)+

lemma strvec_remove_holds:
  "holds a xs \<Longrightarrow> \<exists>a'. strvec_remove a name = Some (a', if name \<in> set xs then 1 else 0) \<and>
     holds a' (remove1 name xs) \<and> length a' = length a"
proof (induction xs arbitrary: a)
  case (Cons x xs)
  show ?case
  proof (cases "name = x")
    case True
    with strvec_shift_down_holds [OF Cons.prems] Cons.prems show ?thesis by (auto simp: holds_Cons)
  next
    case False
    with Cons show ?thesis by (fastforce simp: holds_Cons)
  qed
qed auto

lemma strvec_copy_holds: "holds a xs \<Longrightarrow> strvec_copy a = Some (map Ptr xs @ [Null])"
  by (induction xs arbitrary: a) (auto simp: holds_Cons)

lemma strvec_flush_holds:
  "holds a xs \<Longrightarrow> \<exists>rest. strvec_flush a = Some (replicate (length xs) Freed @ Null # rest)"
  by (induction xs arbitrary: a) (fastforce simp: holds_Cons)+

lemma strvec_words_holds:
  "holds a xs \<Longrightarrow> i + n \<le> length xs \<Longrightarrow>
   strvec_words a i n acc = Some (rev (map make_bare_word (take n (drop i xs))) @ acc)"
proof (induction n arbitrary: i acc)
  case (Suc n)
  then have "a ! i = Ptr (xs ! i)" by (auto simp: holds_def nth_append)
  moreover have "take (Suc n) (drop i xs) = xs ! i # take n (drop (Suc i) xs)"
    using Suc.prems by (metis Cons_nth_drop_Suc Suc_le_lessD add_Suc_right le_add1 le_trans not_less_eq_eq take_Suc_Cons)
  ultimately show ?case using Suc by (simp add: make_word_list_def)
qed simp

lemma strvec_to_word_list_holds:
  assumes "holds a xs"
  shows "strvec_to_word_list (Some a) i = Some (map make_bare_word (drop i xs))"
proof (cases xs)
  case Nil
  with assms show ?thesis by (auto simp: strvec_to_word_list_def)
next
  case (Cons y ys)
  with assms have "hd a \<noteq> Null" "a \<noteq> []" by (auto simp: holds_Cons)
  then have eq: "strvec_to_word_list (Some a) i = map_option rev (strvec_words a i (length xs - i) [])"
    using assms by (simp add: strvec_to_word_list_def strvec_len_holds)
  show ?thesis
  proof (cases "i \<le> length xs")
    case True
    with assms show ?thesis by (simp add: eq strvec_words_holds rev_map)
  next
    case False
    then show ?thesis by (simp add: eq)
  qed
qed

lemma strvec_from_word_list_holds: "holds (fst (strvec_from_word_list l 0)) (map word l)"
  by (auto simp: strvec_from_word_list_def holds_def)

end
