(* ===== verification/Stringlist.thy ===== *)
theory Stringlist
  imports WordList
begin

text \<open>
  The growable string lists of \<^verbatim>\<open>lib/sh/stringlist.c\<close>, which the programmable completion code
  collects its candidates in. The vector is a memory block of \<^verbatim>\<open>list_size + 1\<close> slots, so slots
  that an operation leaves uninitialised stay visible; an operation that would read one, use
  a freed string or write outside the block returns \<open>None\<close>.
\<close>

record stringlist =
  slist :: "strvec option"
  list_size :: int
  list_len :: int

definition put :: "strvec \<Rightarrow> int \<Rightarrow> slot \<Rightarrow> strvec option" where
  "put a i x = (if 0 \<le> i \<and> i < int (length a) then Some (a[nat i := x]) else None)"

definition strlist_create :: "int \<Rightarrow> stringlist" where
  "strlist_create n =
     (if n \<noteq> 0 then \<lparr>slist = Some (replicate (nat n) Null @ [Undef]), list_size = n, list_len = 0\<rparr>
      else \<lparr>slist = None, list_size = 0, list_len = 0\<rparr>)"

definition strlist_resize :: "stringlist option \<Rightarrow> int \<Rightarrow> stringlist" where
  "strlist_resize sl n =
     (case sl of
        None \<Rightarrow> strlist_create n
      | Some l \<Rightarrow>
          if n > list_size l then
            let old = (case slist l of None \<Rightarrow> [] | Some a \<Rightarrow> a)
            in l\<lparr>slist := Some (take (nat (list_size l)) old @ replicate (nat (n + 1 - list_size l)) Null),
                 list_size := n\<rparr>
          else l)"

definition strlist_flush :: "stringlist option \<Rightarrow> stringlist option option" where
  "strlist_flush sl =
     (case sl of
        None \<Rightarrow> Some None
      | Some l \<Rightarrow>
          (case slist l of
             None \<Rightarrow> Some (Some l)
           | Some a \<Rightarrow> map_option (\<lambda>a'. Some (l\<lparr>slist := Some a', list_len := 0\<rparr>)) (strvec_flush a)))"

definition strlist_dispose :: "stringlist option \<Rightarrow> unit option" where
  "strlist_dispose sl =
     (case sl of
        None \<Rightarrow> Some ()
      | Some l \<Rightarrow>
          (case slist l of
             None \<Rightarrow> Some ()
           | Some a \<Rightarrow> map_option (\<lambda>_. ()) (strvec_flush a)))"

definition strlist_remove :: "stringlist option \<Rightarrow> string \<Rightarrow> (stringlist option \<times> int) option" where
  "strlist_remove sl s =
     (case sl of
        None \<Rightarrow> Some (None, 0)
      | Some l \<Rightarrow>
          (case slist l of
             None \<Rightarrow> Some (Some l, 0)
           | Some a \<Rightarrow>
               if list_len l = 0 then Some (Some l, 0)
               else map_option
                      (\<lambda>(a', r). (Some (l\<lparr>slist := Some a',
                                         list_len := (if r \<noteq> 0 then list_len l - 1 else list_len l)\<rparr>), r))
                      (strvec_remove a s)))"

text \<open>\<^verbatim>\<open>STRDUP\<close> copies a string and passes a null pointer on; it cannot be applied to other slots.\<close>

fun STRDUP :: "slot \<Rightarrow> slot option" where
  "STRDUP Null = Some Null"
| "STRDUP (Ptr s) = Some (Ptr s)"
| "STRDUP x = None"

fun dup_into :: "slot list \<Rightarrow> strvec \<Rightarrow> int \<Rightarrow> strvec option" where
  "dup_into [] dst n = Some dst"
| "dup_into (x # src) dst n =
     (case STRDUP x of
        None \<Rightarrow> None
      | Some y \<Rightarrow> (case put dst n y of None \<Rightarrow> None | Some dst' \<Rightarrow> dup_into src dst' (n + 1)))"

definition strlist_copy :: "stringlist option \<Rightarrow> stringlist option option" where
  "strlist_copy sl =
     (case sl of
        None \<Rightarrow> Some None
      | Some l \<Rightarrow>
          let new = strlist_create (list_size l);
              filled = (case slist l of
                          None \<Rightarrow> Some (slist new)
                        | Some a \<Rightarrow>
                            (case slist new of
                               None \<Rightarrow> Some None
                             | Some b \<Rightarrow> map_option Some (dup_into (take (nat (list_size l)) a) b 0)))
          in case filled of
               None \<Rightarrow> None
             | Some None \<Rightarrow> Some (Some \<lparr>slist = None, list_size = list_size l, list_len = list_len l\<rparr>)
             | Some (Some b) \<Rightarrow>
                 map_option (\<lambda>b'. Some \<lparr>slist = Some b', list_size = list_size l, list_len = list_len l\<rparr>)
                   (put b (list_len l) Null))"

definition used_slots :: "stringlist option \<Rightarrow> slot list" where
  "used_slots m =
     (case m of
        None \<Rightarrow> []
      | Some l \<Rightarrow> (case slist l of None \<Rightarrow> [] | Some a \<Rightarrow> take (nat (list_len l)) a))"

definition len_of :: "stringlist option \<Rightarrow> int" where
  "len_of m = (case m of None \<Rightarrow> 0 | Some l \<Rightarrow> list_len l)"

definition strlist_merge :: "stringlist option \<Rightarrow> stringlist option \<Rightarrow> stringlist option" where
  "strlist_merge m1 m2 =
     (let l1 = len_of m1; l2 = len_of m2; sl = strlist_create (l1 + l2 + 1)
      in case dup_into (used_slots m1) (the (slist sl)) 0 of
           None \<Rightarrow> None
         | Some a \<Rightarrow>
             (case dup_into (used_slots m2) a l1 of
                None \<Rightarrow> None
              | Some b \<Rightarrow>
                  map_option (\<lambda>b'. sl\<lparr>slist := Some b', list_len := l1 + l2\<rparr>) (put b (l1 + l2) Null)))"

definition strlist_append :: "stringlist option \<Rightarrow> stringlist option \<Rightarrow> stringlist option option" where
  "strlist_append m1 m2 =
     (case m1 of
        None \<Rightarrow> (case m2 of None \<Rightarrow> Some None | Some _ \<Rightarrow> strlist_copy m2)
      | Some l \<Rightarrow>
          let len1 = list_len l; len2 = len_of m2
          in if len2 \<noteq> 0 then
               let r = strlist_resize (Some l) (len1 + len2 + 1)
               in (case dup_into (used_slots m2) (case slist r of None \<Rightarrow> [] | Some a \<Rightarrow> a) len1 of
                     None \<Rightarrow> None
                   | Some a \<Rightarrow>
                       map_option (\<lambda>a'. Some (r\<lparr>slist := Some a', list_len := len1 + len2\<rparr>))
                         (put a (len1 + len2) Null))
             else Some (Some l))"

fun affix_slots :: "string \<Rightarrow> string \<Rightarrow> slot list \<Rightarrow> slot list option" where
  "affix_slots prefix suffix [] = Some []"
| "affix_slots prefix suffix (Ptr s # xs) =
     map_option ((#) (Ptr (prefix @ s @ suffix))) (affix_slots prefix suffix xs)"
| "affix_slots prefix suffix (x # xs) = None"

definition strlist_prefix_suffix :: "stringlist option \<Rightarrow> string \<Rightarrow> string \<Rightarrow> stringlist option option" where
  "strlist_prefix_suffix sl prefix suffix =
     (case sl of
        None \<Rightarrow> Some None
      | Some l \<Rightarrow>
          (case slist l of
             None \<Rightarrow> Some (Some l)
           | Some a \<Rightarrow>
               if list_len l = 0 \<or> (prefix = [] \<and> suffix = []) then Some (Some l)
               else map_option
                      (\<lambda>ys. Some (l\<lparr>slist := Some (ys @ drop (nat (list_len l)) a)\<rparr>))
                      (affix_slots prefix suffix (take (nat (list_len l)) a))))"

definition strlist_from_word_list :: "word_list \<Rightarrow> nat \<Rightarrow> stringlist option \<times> int" where
  "strlist_from_word_list list starting_index =
     (if list = [] then (None, 0)
      else let (v, len) = strvec_from_word_list list starting_index
           in (Some \<lparr>slist = Some v, list_size = list_length list + int starting_index, list_len = len\<rparr>, len))"

definition strlist_to_word_list :: "stringlist option \<Rightarrow> nat \<Rightarrow> word_list option" where
  "strlist_to_word_list sl starting_index =
     (case sl of
        None \<Rightarrow> Some []
      | Some l \<Rightarrow>
          (case slist l of None \<Rightarrow> Some [] | Some a \<Rightarrow> strvec_to_word_list (Some a) starting_index))"

subsection \<open>Contents and well-formedness\<close>

text \<open>A list stores the strings \<open>xs\<close>: its first slots hold them and the next slot is null.\<close>

definition stores :: "stringlist \<Rightarrow> string list \<Rightarrow> bool" where
  "stores l xs \<longleftrightarrow>
     list_len l = int (length xs) \<and> list_len l \<le> list_size l \<and>
     (case slist l of
        None \<Rightarrow> list_size l = 0
      | Some a \<Rightarrow> 0 < list_size l \<and> int (length a) = list_size l + 1 \<and> holds a xs \<and>
                  (\<forall>i < nat (list_size l). a ! i \<in> {Null} \<union> range Ptr))"

definition contents :: "stringlist option \<Rightarrow> string list \<Rightarrow> bool" where
  "contents m xs \<longleftrightarrow> (case m of None \<Rightarrow> xs = [] | Some l \<Rightarrow> stores l xs)"

lemma put_in_range [simp]: "0 \<le> i \<Longrightarrow> i < int (length a) \<Longrightarrow> put a i x = Some (a[nat i := x])"
  by (simp add: put_def)

lemma dup_into_init:
  "set src \<subseteq> {Null} \<union> range Ptr \<Longrightarrow> n + length src \<le> length dst \<Longrightarrow>
   dup_into src dst (int n) = Some (take n dst @ src @ drop (n + length src) dst)"
proof (induction src arbitrary: dst n)
  case (Cons x src)
  let ?dst = "dst[n := x]"
  have "STRDUP x = Some x" using Cons.prems(1) by auto
  then have "dup_into (x # src) dst (int n) = dup_into src ?dst (int (Suc n))"
    using Cons.prems by (simp add: add.commute)
  also have "\<dots> = Some (take (Suc n) ?dst @ src @ drop (Suc n + length src) ?dst)"
    using Cons.prems by (intro Cons.IH) auto
  also have "take (Suc n) ?dst = take n dst @ [x]"
    using Cons.prems by (simp add: take_Suc_conv_app_nth)
  finally show ?case by simp
qed simp

lemma dup_into_Ptrs:
  "n + length zs \<le> length dst \<Longrightarrow>
   dup_into (map Ptr zs) dst (int n) = Some (take n dst @ map Ptr zs @ drop (n + length zs) dst)"
  using dup_into_init [of "map Ptr zs" n dst] by auto

lemma stores_used: "stores l xs \<Longrightarrow> used_slots (Some l) = map Ptr xs"
  by (auto simp: stores_def used_slots_def holds_def split: option.splits)

lemma contents_used: "contents m xs \<Longrightarrow> used_slots m = map Ptr xs"
  by (cases m) (auto simp: contents_def used_slots_def [of None] stores_used)

lemma contents_len: "contents m xs \<Longrightarrow> len_of m = int (length xs)"
  by (cases m) (auto simp: contents_def len_of_def stores_def)

text \<open>A block whose first slots are the strings, then a null slot, then initialised slots.\<close>

lemma stores_intro:
  assumes "int (length a) = n + 1" and "int (length xs) \<le> n" and "0 < n"
    and "take (Suc (length xs)) a = map Ptr xs @ [Null]"
    and "\<And>i. length xs < i \<Longrightarrow> i < nat n \<Longrightarrow> a ! i \<in> {Null} \<union> range Ptr"
  shows "stores \<lparr>slist = Some a, list_size = n, list_len = int (length xs)\<rparr> xs"
proof -
  have a: "a = map Ptr xs @ Null # drop (Suc (length xs)) a"
    using assms(4) append_take_drop_id [of "Suc (length xs)" a] by simp
  have "a ! i \<in> {Null} \<union> range Ptr" if "i < nat n" for i
  proof (cases "i \<le> length xs")
    case True
    then show ?thesis by (subst a) (auto simp: nth_append)
  next
    case False
    with that assms(5) show ?thesis by simp
  qed
  moreover have "holds a xs" using a unfolding holds_def by blast
  ultimately show ?thesis using assms(1-3) by (simp add: stores_def)
qed

lemma strlist_merge_contents:
  assumes "contents m1 xs" and "contents m2 ys"
  shows "\<exists>l. strlist_merge m1 m2 = Some l \<and> stores l (xs @ ys)"
proof -
  let ?n = "length xs + length ys"
  let ?blk = "replicate (Suc ?n) Null @ [Undef]"
  let ?blk2 = "map Ptr (xs @ ys) @ [Null, Undef]"
  have len: "len_of m1 + len_of m2 + 1 = int (Suc ?n)"
    using assms by (simp add: contents_len)
  have cr: "strlist_create (int (Suc ?n)) = \<lparr>slist = Some ?blk, list_size = int (Suc ?n), list_len = 0\<rparr>"
    by (simp add: strlist_create_def nat_add_distrib)
  have d1: "dup_into (map Ptr xs) ?blk 0 = Some (map Ptr xs @ replicate (Suc (length ys)) Null @ [Undef])"
  proof -
    have "drop (length xs) ?blk = replicate (Suc (length ys)) Null @ [Undef]"
      by (simp del: replicate.simps add: Suc_diff_le)
    then show ?thesis using dup_into_Ptrs [of 0 xs ?blk] by simp
  qed
  have d2: "dup_into (map Ptr ys) (map Ptr xs @ replicate (Suc (length ys)) Null @ [Undef]) (int (length xs))
      = Some ?blk2"
  proof -
    have "drop (length ys) (replicate (Suc (length ys)) Null @ [Undef]) = [Null, Undef]"
      by (simp del: replicate.simps add: Suc_diff_le) simp
    then show ?thesis
      using dup_into_Ptrs [of "length xs" ys "map Ptr xs @ replicate (Suc (length ys)) Null @ [Undef]"]
      by (simp del: replicate.simps)
  qed
  have "strlist_merge m1 m2 = Some \<lparr>slist = Some (?blk2[?n := Null]), list_size = int (Suc ?n), list_len = int ?n\<rparr>"
    using assms len cr d1 d2
    by (simp add: strlist_merge_def contents_used contents_len Let_def nat_add_distrib ac_simps)
  moreover have "stores \<lparr>slist = Some (?blk2[?n := Null]), list_size = int (Suc ?n), list_len = int ?n\<rparr> (xs @ ys)"
    using stores_intro [of "?blk2[?n := Null]" "int (Suc ?n)" "xs @ ys"] by (simp add: list_update_append)
  ultimately show ?thesis by blast
qed

lemma strlist_resize_block:
  assumes "stores l xs" and "length xs < n"
  shows "\<exists>b. slist (strlist_resize (Some l) (int n)) = Some b \<and>
    list_size (strlist_resize (Some l) (int n)) = int (length b) - 1 \<and>
    list_len (strlist_resize (Some l) (int n)) = list_len l \<and>
    n < length b \<and> take (length xs) b = map Ptr xs \<and> (\<forall>i < length b - 1. b ! i \<in> {Null} \<union> range Ptr)"
proof (cases "slist l")
  case None
  let ?b = "replicate (Suc n) Null"
  from None assms have "strlist_resize (Some l) (int n) = l\<lparr>slist := Some ?b, list_size := int n\<rparr>"
    by (simp add: strlist_resize_def stores_def nat_add_distrib)
  moreover have "\<forall>i < length ?b - 1. ?b ! i \<in> {Null} \<union> range Ptr" by (simp del: replicate.simps)
  moreover have "xs = []" using None assms by (auto simp: stores_def)
  ultimately show ?thesis using None assms by (intro exI [of _ ?b]) (simp add: stores_def)
next
  case (Some a)
  let ?s = "nat (list_size l)"
  from assms Some have a: "0 < list_size l" "length a = Suc ?s" "take (length xs) a = map Ptr xs" "length xs \<le> ?s"
    and init: "\<forall>i < ?s. a ! i \<in> {Null} \<union> range Ptr"
    by (auto simp: stores_def holds_def)
  show ?thesis
  proof (cases "int n > list_size l")
    case True
    let ?b = "take ?s a @ replicate (nat (int n + 1 - list_size l)) Null"
    have "?b ! i \<in> {Null} \<union> range Ptr" if "i < length ?b - 1" for i
      using that init a(2) by (auto simp: nth_append)
    with True Some a show ?thesis
      by (intro exI [of _ ?b]) (auto simp: strlist_resize_def Let_def min_absorb1)
  next
    case False
    with Some a init show ?thesis by (auto simp: strlist_resize_def)
  qed
qed

lemma strvec_shift_down_init:
  "strvec_shift_down a = Some a' \<Longrightarrow> a' ! i = a ! i \<or> a' ! i \<in> {Null} \<union> range Ptr"
proof (induction a arbitrary: a' i rule: strvec_shift_down.induct)
  case (2 s x array)
  then obtain b where b: "strvec_shift_down (x # array) = Some b" "a' = x # b" by auto
  then have "x \<in> {Null} \<union> range Ptr" by (cases x) auto
  with "2.IH" [OF b(1)] b(2) show ?case by (cases i) auto
qed auto

lemma strvec_remove_init:
  "strvec_remove a s = Some (a', r) \<Longrightarrow> a' ! i = a ! i \<or> a' ! i \<in> {Null} \<union> range Ptr"
proof (induction a s arbitrary: a' r i rule: strvec_remove.induct)
  case (2 s array name)
  show ?case
  proof (cases "name = s")
    case True
    with "2.prems" show ?thesis using strvec_shift_down_init [of "Ptr s # array" a' i] by auto
  next
    case False
    with "2.prems" obtain b where "strvec_remove array name = Some (b, r)" "a' = Ptr s # b" by auto
    with "2.IH" [OF False] show ?thesis by (cases i) auto
  qed
qed auto

lemma strlist_copy_stores:
  assumes "stores l xs"
  shows "\<exists>l'. strlist_copy (Some l) = Some (Some l') \<and> stores l' xs"
proof (cases "slist l")
  case None
  with assms show ?thesis
    by (auto simp: strlist_copy_def strlist_create_def stores_def Let_def)
next
  case (Some a)
  let ?n = "nat (list_size l)"
  from assms Some have a: "0 < list_size l" "int (length a) = list_size l + 1" "holds a xs"
    "list_len l = int (length xs)" "length xs \<le> ?n"
    and init: "\<forall>i < ?n. a ! i \<in> {Null} \<union> range Ptr"
    by (auto simp: stores_def)
  have "set (take ?n a) \<subseteq> {Null} \<union> range Ptr"
    using set_take_nth [of _ ?n a] init by blast
  moreover have "length (take ?n a) = ?n" using a(2) by simp
  ultimately have dup: "dup_into (take ?n a) b 0 = Some (take ?n a @ drop ?n b)" if "?n \<le> length b" for b
    using dup_into_init [of "take ?n a" 0 b] that by simp
  let ?b = "take ?n a @ [Undef]"
  have "strlist_copy (Some l) = Some (Some \<lparr>slist = Some (?b[length xs := Null]),
      list_size = list_size l, list_len = int (length xs)\<rparr>)"
    using a Some dup [of "replicate ?n Null @ [Undef]"]
    by (simp add: strlist_copy_def strlist_create_def Let_def)
  moreover have "stores \<lparr>slist = Some (?b[length xs := Null]), list_size = list_size l,
      list_len = int (length xs)\<rparr> xs"
  proof (rule stores_intro)
    show "int (length (?b[length xs := Null])) = list_size l + 1" using a by (simp add: min_def)
    show "take (Suc (length xs)) (?b[length xs := Null]) = map Ptr xs @ [Null]"
    proof -
      have "take (length xs) a = map Ptr xs" using a(3) by (auto simp: holds_def)
      moreover have "length xs < length ?b" using a by simp
      ultimately show ?thesis using a(2,5) by (simp add: take_Suc_update min_absorb1)
    qed
    show "?b[length xs := Null] ! i \<in> {Null} \<union> range Ptr" if "length xs < i" "i < ?n" for i
      using that init a(2) by (simp add: nth_append)
  qed (use a in simp_all)
  ultimately show ?thesis by blast
qed

lemma strlist_append_contents:
  assumes "contents m1 xs" and "contents m2 ys"
  shows "\<exists>m. strlist_append m1 m2 = Some m \<and> contents m (xs @ ys)"
proof (cases m1)
  case None
  with assms strlist_copy_stores [of _ ys] show ?thesis
    by (cases m2) (fastforce simp: strlist_append_def contents_def)+
next
  case (Some l)
  with assms have l: "stores l xs" by (simp add: contents_def)
  show ?thesis
  proof (cases "ys = []")
    case True
    with Some assms l show ?thesis by (auto simp: strlist_append_def contents_len contents_def)
  next
    case False
    let ?n = "int (length xs) + int (length ys) + 1"
    let ?r = "strlist_resize (Some l) ?n"
    obtain b where b: "slist ?r = Some b" "list_size ?r = int (length b) - 1"
      "length xs + length ys + 1 < length b" "take (length xs) b = map Ptr xs"
      "\<forall>i < length b - 1. b ! i \<in> {Null} \<union> range Ptr"
      using strlist_resize_block [OF l, of "length xs + length ys + 1"] by (auto simp: ac_simps)
    have d: "dup_into (map Ptr ys) b (int (length xs)) =
        Some (map Ptr xs @ map Ptr ys @ drop (length xs + length ys) b)"
      using dup_into_Ptrs [of "length xs" ys b] b(3,4) by simp
    let ?c = "map Ptr xs @ map Ptr ys @ drop (length xs + length ys) b"
    let ?c' = "?c[length xs + length ys := Null]"
    have app: "strlist_append m1 m2 = Some (Some \<lparr>slist = Some ?c', list_size = int (length b) - 1,
        list_len = int (length (xs @ ys))\<rparr>)"
      using Some False l b d assms
      by (simp add: strlist_append_def contents_used contents_len stores_def Let_def nat_add_distrib)
    have "stores \<lparr>slist = Some ?c', list_size = int (length b) - 1, list_len = int (length (xs @ ys))\<rparr> (xs @ ys)"
    proof (rule stores_intro)
      show "?c' ! i \<in> {Null} \<union> range Ptr" if "length (xs @ ys) < i" "i < nat (int (length b) - 1)" for i
        using that b(3,5) by (auto simp: nth_append)
      show "take (Suc (length (xs @ ys))) ?c' = map Ptr (xs @ ys) @ [Null]"
        using take_Suc_update [of "length xs + length ys" ?c Null] b(3) by simp
    qed (use b(3) in simp_all)
    with app show ?thesis by (auto simp: contents_def)
  qed
qed

lemma strlist_remove_stores:
  assumes "stores l xs"
  shows "\<exists>l'. strlist_remove (Some l) s = Some (Some l', if s \<in> set xs then 1 else 0) \<and>
    stores l' (remove1 s xs)"
proof (cases "slist l = None \<or> xs = []")
  case True
  with assms show ?thesis by (auto simp: strlist_remove_def stores_def split: option.splits)
next
  case False
  with assms obtain a where a: "slist l = Some a" "holds a xs" "int (length a) = list_size l + 1"
    "0 < list_size l" "list_len l = int (length xs)" "int (length xs) \<le> list_size l"
    and init: "\<forall>i < nat (list_size l). a ! i \<in> {Null} \<union> range Ptr"
    by (auto simp: stores_def)
  from strvec_remove_holds [OF a(2), of s] obtain a' where
    a': "strvec_remove a s = Some (a', if s \<in> set xs then 1 else 0)" "holds a' (remove1 s xs)" "length a' = length a"
    by blast
  from strvec_remove_init [OF a'(1)] init
  have "\<forall>i < nat (list_size l). a' ! i \<in> {Null} \<union> range Ptr" by metis
  moreover have "int (length (remove1 s xs)) = int (length xs) - (if s \<in> set xs then 1 else 0)"
    using length_pos_if_in_set [of s xs] by (simp add: length_remove1 int_ops(6))
  ultimately show ?thesis using a a' False
    by (auto simp: strlist_remove_def stores_def)
qed

lemma affix_slots_Ptrs:
  "affix_slots p q (map Ptr xs) = Some (map (\<lambda>s. Ptr (p @ s @ q)) xs)"
  by (induction xs) auto

lemma strlist_prefix_suffix_stores:
  assumes "stores l xs"
  shows "\<exists>l'. strlist_prefix_suffix (Some l) p q = Some (Some l') \<and> stores l' (map (\<lambda>s. p @ s @ q) xs)"
proof (cases "slist l = None \<or> xs = [] \<or> (p = [] \<and> q = [])")
  case True
  with assms show ?thesis by (auto simp: strlist_prefix_suffix_def stores_def split: option.splits)
next
  case False
  with assms obtain a rest where a: "slist l = Some a" "a = map Ptr xs @ Null # rest"
    "int (length a) = list_size l + 1" "0 < list_size l" "list_len l = int (length xs)"
    and init: "\<forall>i < nat (list_size l). a ! i \<in> {Null} \<union> range Ptr"
    by (auto simp: stores_def holds_def)
  let ?a' = "map (\<lambda>s. Ptr (p @ s @ q)) xs @ Null # rest"
  have "?a' ! i \<in> {Null} \<union> range Ptr" if "i < nat (list_size l)" for i
  proof (cases "i < length xs")
    case False
    then have "?a' ! i = a ! i" by (simp add: a(2) nth_append)
    with init that show ?thesis by simp
  qed (simp add: nth_append)
  moreover have "holds ?a' (map (\<lambda>s. p @ s @ q) xs)" by (simp add: holds_def)
  moreover have "strlist_prefix_suffix (Some l) p q = Some (Some (l\<lparr>slist := Some ?a'\<rparr>))"
    using False a by (auto simp: strlist_prefix_suffix_def affix_slots_Ptrs)
  ultimately show ?thesis using a False assms by (auto simp: stores_def)
qed

subsection \<open>Properties\<close>

text \<open>
  C24. String lists behave as lists of strings: merging and appending concatenate, copying
  preserves, removing deletes the first occurrence and reports whether there was one, adding
  affixes maps over the strings; none of these reads an uninitialised slot or leaves the block,
  and each keeps the invariant, with the vector null-terminated after the last string.
\<close>

theorem strlist_operations_refine:
  assumes "contents m1 xs" and "contents m2 ys" and "stores l zs"
  shows "(\<exists>r. strlist_merge m1 m2 = Some r \<and> stores r (xs @ ys)) \<and>
    (\<exists>r. strlist_append m1 m2 = Some r \<and> contents r (xs @ ys)) \<and>
    (\<exists>r. strlist_copy (Some l) = Some (Some r) \<and> stores r zs) \<and>
    (\<exists>r. strlist_remove (Some l) s = Some (Some r, if s \<in> set zs then 1 else 0) \<and> stores r (remove1 s zs)) \<and>
    (\<exists>r. strlist_prefix_suffix (Some l) p q = Some (Some r) \<and> stores r (map (\<lambda>s. p @ s @ q) zs))"
  using strlist_merge_contents [OF assms(1,2)] strlist_append_contents [OF assms(1,2)]
    strlist_copy_stores [OF assms(3)] strlist_remove_stores [OF assms(3)]
    strlist_prefix_suffix_stores [OF assms(3)]
  by simp

lemma from_word_list_stores:
  assumes "l \<noteq> []"
  shows "stores (the (fst (strlist_from_word_list l 0))) (map word l)"
proof -
  have "(map (\<lambda>w. Ptr (word w)) l @ [Null]) ! i \<in> {Null} \<union> range Ptr" if "i < length l" for i
    using that by (simp add: nth_append)
  with assms show ?thesis
    using strvec_from_word_list_holds [of l]
    by (auto simp: strlist_from_word_list_def strvec_from_word_list_def stores_def holds_def)
qed

theorem strlist_operations_refine_witness:
  "\<exists>r. strlist_append (Some (the (fst (strlist_from_word_list [make_bare_word ''a'', make_bare_word ''b''] 0)))) None
     = Some r \<and> contents r [''a'', ''b'']"
proof -
  let ?l = "the (fst (strlist_from_word_list [make_bare_word ''a'', make_bare_word ''b''] 0))"
  have l: "stores ?l [''a'', ''b'']" using from_word_list_stores [of "[make_bare_word ''a'', make_bare_word ''b'']"] by simp
  then have "contents (Some ?l) [''a'', ''b'']" by (simp add: contents_def)
  moreover have "contents None []" by (simp add: contents_def)
  ultimately show ?thesis
    using strlist_operations_refine [of "Some ?l" "[''a'', ''b'']" None "[]" ?l "[''a'', ''b'']"] l by simp
qed

text \<open>
  C25. Flushing a non-empty list frees its strings but leaves the freed pointers in the vector
  (only the length is reset): disposing of the flushed list then frees them again.
\<close>

theorem strlist_flush_then_dispose:
  assumes "stores l (x # xs)"
  shows "\<exists>l'. strlist_flush (Some l) = Some (Some l') \<and> list_len l' = 0 \<and>
    strlist_dispose (Some l) = Some () \<and> strlist_dispose (Some l') = None"
proof -
  from assms obtain a where a: "slist l = Some a" "holds a (x # xs)"
    by (auto simp: stores_def split: option.splits)
  from strvec_flush_holds [OF a(2)] obtain rest where
    "strvec_flush a = Some (Freed # replicate (length xs) Freed @ Null # rest)" by auto
  with a(1) show ?thesis by (simp add: strlist_flush_def strlist_dispose_def)
qed

theorem strlist_flush_then_dispose_witness:
  "\<exists>l'. strlist_flush (fst (strlist_from_word_list [make_bare_word ''a''] 0)) = Some (Some l') \<and>
     strlist_dispose (Some l') = None"
proof -
  have eq: "fst (strlist_from_word_list [make_bare_word ''a''] 0)
      = Some (the (fst (strlist_from_word_list [make_bare_word ''a''] 0)))"
    by (simp add: strlist_from_word_list_def strvec_from_word_list_def)
  have "stores (the (fst (strlist_from_word_list [make_bare_word ''a''] 0))) [''a'']"
    using from_word_list_stores [of "[make_bare_word ''a'']"] by simp
  from strlist_flush_then_dispose [OF this] show ?thesis by (subst eq) auto
qed

text \<open>
  C26. Converting a word list to a string list and back gives the words again, without their
  flags, when no slots were reserved at the front; with reserved (null) slots the vector reads as
  empty and the conversion back gives no words at all.
\<close>

theorem word_list_roundtrip:
  "strlist_to_word_list (fst (strlist_from_word_list l n)) n =
     Some (if n = 0 then map (\<lambda>w. make_bare_word (word w)) l else [])"
proof (cases "l = []")
  case True
  then show ?thesis by (simp add: strlist_from_word_list_def strlist_to_word_list_def)
next
  case False
  show ?thesis
  proof (cases n)
    case 0
    with False strvec_to_word_list_holds [OF strvec_from_word_list_holds, of l 0] show ?thesis
      by (simp add: strlist_from_word_list_def strlist_to_word_list_def strvec_from_word_list_def)
  next
    case (Suc k)
    with False show ?thesis
      by (simp add: strlist_from_word_list_def strlist_to_word_list_def strvec_from_word_list_def
          strvec_to_word_list_def)
  qed
qed

end
