(* ===== verification/Numconv.thy ===== *)
theory Numconv
  imports Prelude
begin

text \<open>
  Conversions between integers and text: \<^verbatim>\<open>lib/sh/fmtulong.c\<close> and \<^verbatim>\<open>lib/sh/itos.c\<close> one way,
  \<^verbatim>\<open>lib/sh/strtol.c\<close> and the validators of \<^verbatim>\<open>general.c\<close> the other. Unsigned longs are 64-bit
  words. \<^verbatim>\<open>fmtulong\<close> fills a buffer of a given length from its end and has the value \<open>None\<close> when it
  would write before the buffer. Character classes are those of the C locale.
\<close>

subsection \<open>Character classes\<close>

definition DIGIT :: "char \<Rightarrow> bool" where
  "DIGIT c \<longleftrightarrow> 48 \<le> uchar c \<and> uchar c \<le> 57"

definition TODIGIT :: "char \<Rightarrow> int" where
  "TODIGIT c = uchar c - 48"

definition TOCHAR :: "nat \<Rightarrow> char" where
  "TOCHAR n = char_of (n + 48)"

definition ISSPACE :: "char \<Rightarrow> bool" where
  "ISSPACE c \<longleftrightarrow> uchar c = 32 \<or> (9 \<le> uchar c \<and> uchar c \<le> 13)"

definition whitespace :: "char \<Rightarrow> bool" where
  "whitespace c \<longleftrightarrow> c = CHR '' '' \<or> c = CHR 0x09"

definition ISUPPER :: "char \<Rightarrow> bool" where
  "ISUPPER c \<longleftrightarrow> 65 \<le> uchar c \<and> uchar c \<le> 90"

definition ISLOWER :: "char \<Rightarrow> bool" where
  "ISLOWER c \<longleftrightarrow> 97 \<le> uchar c \<and> uchar c \<le> 122"

definition ISALPHA :: "char \<Rightarrow> bool" where
  "ISALPHA c \<longleftrightarrow> ISUPPER c \<or> ISLOWER c"

definition TOUPPER :: "char \<Rightarrow> char" where
  "TOUPPER c = (if ISLOWER c then char_of (nat (uchar c - 32)) else c)"

definition legal_variable_starter :: "char \<Rightarrow> bool" where
  "legal_variable_starter c \<longleftrightarrow> ISALPHA c \<or> c = CHR ''_''"

definition legal_variable_char :: "char \<Rightarrow> bool" where
  "legal_variable_char c \<longleftrightarrow> ISALPHA c \<or> DIGIT c \<or> c = CHR ''_''"

subsection \<open>Formatting\<close>

definition FL_PREFIX :: int where "FL_PREFIX = 1"
definition FL_ADDBASE :: int where "FL_ADDBASE = 2"
definition FL_HEXUPPER :: int where "FL_HEXUPPER = 4"
definition FL_UNSIGNED :: int where "FL_UNSIGNED = 8"

declare FL_PREFIX_def [cdefs] FL_ADDBASE_def [cdefs] FL_HEXUPPER_def [cdefs] FL_UNSIGNED_def [cdefs]

definition x_digs :: string where "x_digs = ''0123456789abcdef''"
definition X_digs :: string where "X_digs = ''0123456789ABCDEF''"

definition FMTCHAR :: "nat \<Rightarrow> char" where
  "FMTCHAR x =
     (if x < 10 then char_of (x + 48)
      else if x < 36 then char_of (x - 10 + 97)
      else if x < 62 then char_of (x - 36 + 65)
      else if x = 62 then CHR ''@'' else CHR ''_'')"

text \<open>The division loop \<^verbatim>\<open>do *p-- = digit (n % b); while (n /= b);\<close> on a value that is not negative.\<close>

function fmt_div :: "nat \<Rightarrow> (nat \<Rightarrow> char) \<Rightarrow> nat \<Rightarrow> string \<Rightarrow> string" where
  "fmt_div b digit n p =
     (let p = digit (n mod b) # p
      in if n div b \<noteq> 0 \<and> 1 < b then fmt_div b digit (n div b) p else p)"
  by pat_completeness auto
termination
  by (relation "measure (\<lambda>(b, digit, n, p). n)") (auto simp: div_greater_zero_iff intro: div_less_dividend)

text \<open>The shift loop \<^verbatim>\<open>do *p-- = digit (ui & mask); while (ui >>= k);\<close> for \<open>0 < k\<close>.\<close>

function fmt_shift :: "nat \<Rightarrow> (64 word \<Rightarrow> char) \<Rightarrow> 64 word \<Rightarrow> string \<Rightarrow> string" where
  "fmt_shift k digit ui p =
     (let p = digit (ui AND mask k) # p
      in if drop_bit k ui \<noteq> 0 \<and> 0 < k then fmt_shift k digit (drop_bit k ui) p else p)"
  by pat_completeness auto
termination
  by (relation "measure (\<lambda>(k, digit, ui, p). unat ui)") (auto intro: unat_drop_bit_less)

declare fmt_div.simps [simp del] fmt_shift.simps [simp del]

text \<open>The text that \<open>fmtulong\<close> writes for a base from 2 to 64, the first character last.\<close>

definition fmt_text :: "64 word \<Rightarrow> int \<Rightarrow> int \<Rightarrow> string" where
  "fmt_text ui base flags =
     (let sign = (flags AND FL_UNSIGNED = 0 \<and> sint ui < 0);
          ui = (if sign then - ui else ui);
          p = (if base = 10 then
                 (if ui < 10 then [TOCHAR (unat ui)]
                  else if sint ui < 0 then fmt_div 10 TOCHAR (unat (ui div 10)) [TOCHAR (unat (ui mod 10))]
                  else fmt_div 10 TOCHAR (unat ui) [])
               else if base = 8 then fmt_shift 3 (\<lambda>d. TOCHAR (unat d)) ui []
               else if base = 16 then
                 fmt_shift 4 (\<lambda>d. if flags AND FL_HEXUPPER \<noteq> 0 then X_digs ! unat d else x_digs ! unat d) ui []
               else if base = 2 then fmt_shift 1 (\<lambda>d. TOCHAR (unat d)) ui []
               else fmt_div (nat base) FMTCHAR (unat ui) []);
          p = (if flags AND FL_PREFIX \<noteq> 0 \<and> (base = 8 \<or> base = 16) then
                 (if base = 16 then
                    CHR ''0'' # (if flags AND FL_HEXUPPER \<noteq> 0 then CHR ''X'' else CHR ''x'') # p
                  else if char_at p 0 \<noteq> CHR ''0'' then CHR ''0'' # p else p)
               else if flags AND FL_ADDBASE \<noteq> 0 \<and> base \<noteq> 10 then
                 (if base > 10 then [TOCHAR (nat base div 10)] else [])
                   @ TOCHAR (nat base mod 10) # CHR ''#'' # p
               else p)
      in if sign then CHR ''-'' # p else p)"

text \<open>
  The buffer has \<open>len\<close> bytes. The terminating NUL goes to its last byte and the characters before
  it, downwards from \<^verbatim>\<open>buf + len - 2\<close> and without a check; a text that needs more is written before
  the buffer. For an invalid base the message is cut to the buffer, which must have a byte.
\<close>

definition fmtulong :: "64 word \<Rightarrow> int \<Rightarrow> nat \<Rightarrow> int \<Rightarrow> string option" where
  "fmtulong ui base len flags =
     (let base = (if base = 0 then 10 else base)
      in if base < 2 \<or> base > 64 then (if len = 0 then None else Some (take (len - 1) ''invalid base''))
         else
           let p = fmt_text ui base flags
           in if length p < len then Some p else None)"

text \<open>
  \<^verbatim>\<open>INT_STRLEN_BOUND\<close> of a 64-bit type, signed or not; the local buffers of \<^verbatim>\<open>itos\<close> and \<^verbatim>\<open>uitos\<close> have
  one byte more.
\<close>

definition INT_STRLEN_BOUND :: "bool \<Rightarrow> nat" where
  "INT_STRLEN_BOUND is_signed =
     (64 - (if is_signed then 1 else 0)) * 302 div 1000 + 1 + (if is_signed then 1 else 0)"

definition inttostr :: "int \<Rightarrow> nat \<Rightarrow> string option" where
  "inttostr i len = fmtulong (word_of_int i) 10 len 0"

text \<open>
  The text in a local buffer. The lemma \<open>local_buffers\<close> below shows that the buffers are large
  enough, so that the first case does not occur.
\<close>

definition buf_text :: "string option \<Rightarrow> string" where
  "buf_text p = (case p of None \<Rightarrow> [] | Some p \<Rightarrow> p)"

definition itos :: "int \<Rightarrow> string" where
  "itos i = buf_text (fmtulong (word_of_int i) 10 (INT_STRLEN_BOUND True + 1) 0)"

definition uitos :: "64 word \<Rightarrow> string" where
  "uitos i = buf_text (fmtulong i 10 (INT_STRLEN_BOUND False + 1) FL_UNSIGNED)"

subsection \<open>Parsing\<close>

datatype errno = NoErr | EINVAL | ERANGE

definition digit_of :: "char \<Rightarrow> nat option" where
  "digit_of c =
     (if DIGIT c then Some (nat (uchar c - 48))
      else if ISALPHA c then Some (nat (uchar (TOUPPER c) - 65 + 10))
      else None)"

fun strtol_loop :: "nat \<Rightarrow> string \<Rightarrow> 64 word \<Rightarrow> bool \<Rightarrow> nat \<Rightarrow> 64 word \<times> bool \<times> nat" where
  "strtol_loop base [] i overflow n = (i, overflow, n)"
| "strtol_loop base (c # s) i overflow n =
     (case digit_of c of
        None \<Rightarrow> (i, overflow, n)
      | Some d \<Rightarrow>
          if d \<ge> base then (i, overflow, n)
          else
            let cutoff = (- 1) div of_nat base; cutlim = (- 1) mod of_nat base
            in if i > cutoff \<or> (i = cutoff \<and> (of_nat d :: 64 word) > cutlim) then strtol_loop base s i True (Suc n)
               else strtol_loop base s (i * of_nat base + of_nat d) overflow (Suc n))"

text \<open>
  \<open>strtol\<close> returns the value, the position stored in \<^verbatim>\<open>*endptr\<close> (none is stored for an invalid
  base) and the error.
\<close>

definition strtol_noconv :: "string \<Rightarrow> nat \<Rightarrow> int \<times> nat option \<times> errno" where
  "strtol_noconv nptr save =
     (if save \<ge> 2 \<and> TOUPPER (char_at nptr (save - 1)) = CHR ''X'' \<and> char_at nptr (save - 2) = CHR ''0''
      then (0, Some (save - 1), NoErr)
      else (0, Some 0, NoErr))"

definition strtol :: "string \<Rightarrow> int \<Rightarrow> int \<times> nat option \<times> errno" where
  "strtol nptr base =
     (if base < 0 \<or> base = 1 \<or> base > 36 then (0, None, EINVAL)
      else
        let s = length (takeWhile ISSPACE nptr)
        in if char_at nptr s = NUL then strtol_noconv nptr 0
           else
             let negative = (char_at nptr s = CHR ''-'');
                 s = (if char_at nptr s = CHR ''-'' \<or> char_at nptr s = CHR ''+'' then Suc s else s);
                 (s, base) =
                   (if char_at nptr s = CHR ''0'' then
                      (if (base = 0 \<or> base = 16) \<and> TOUPPER (char_at nptr (Suc s)) = CHR ''X'' then (s + 2, 16)
                       else if base = 0 then (s, 8) else (s, base))
                    else if base = 0 then (s, 10) else (s, base));
                 (i, overflow, n) = strtol_loop (nat base) (drop s nptr) 0 False 0
             in if n = 0 then strtol_noconv nptr s
                else
                  let overflow = (overflow \<or>
                        i > (if negative then - word_of_int (INTMAX_MIN + 1) + 1 else word_of_int INTMAX_MAX))
                  in if overflow then (if negative then INTMAX_MIN else INTMAX_MAX, Some (s + n), ERANGE)
                     else (if negative then sint (- i) else sint i, Some (s + n), NoErr))"

definition strtoimax :: "string \<Rightarrow> int \<Rightarrow> int \<times> nat option \<times> errno" where
  "strtoimax ptr base = strtol ptr base"

definition all_digits :: "string \<Rightarrow> bool" where
  "all_digits string \<longleftrightarrow> list_all DIGIT string"

text \<open>\<open>None\<close> is the return value 0; \<open>Some v\<close> is 1 with \<open>v\<close> stored in the result.\<close>

definition legal_number :: "string option \<Rightarrow> int option" where
  "legal_number string =
     (case string of
        None \<Rightarrow> None
      | Some s \<Rightarrow>
          (case strtoimax s 10 of
             (value, ep, err) \<Rightarrow>
               if err \<noteq> NoErr \<or> ep = Some 0 then None
               else
                 let rest = dropWhile whitespace (drop (the ep) s)
                 in if s \<noteq> [] \<and> rest = [] then Some value else None))"

definition legal_identifier :: "string \<Rightarrow> bool" where
  "legal_identifier name \<longleftrightarrow>
     (case name of [] \<Rightarrow> False | c # s \<Rightarrow> legal_variable_starter c \<and> list_all legal_variable_char s)"

subsection \<open>Digits\<close>

definition digits_val :: "nat \<Rightarrow> string \<Rightarrow> nat" where
  "digits_val b s = foldl (\<lambda>n c. n * b + the (digit_of c)) 0 s"

definition is_digit_in :: "nat \<Rightarrow> char \<Rightarrow> bool" where
  "is_digit_in b c \<longleftrightarrow> (\<exists>d. digit_of c = Some d \<and> d < b)"

lemma digits_val_snoc [simp]: "digits_val b (s @ [c]) = digits_val b s * b + the (digit_of c)"
  by (simp add: digits_val_def)

lemma digits_val_Nil [simp]: "digits_val b [] = 0"
  by (simp add: digits_val_def)

lemma uchar_char_of [simp]: "n < 256 \<Longrightarrow> uchar (char_of n) = int n"
  by (simp add: uchar_def of_char_of)

lemma digit_of_FMTCHAR: "x < 36 \<Longrightarrow> digit_of (FMTCHAR x) = Some x"
  by (auto simp: digit_of_def FMTCHAR_def DIGIT_def ISALPHA_def ISUPPER_def ISLOWER_def TOUPPER_def
      nat_diff_distrib' of_nat_diff)

lemma fmt_div_rec:
  "1 < b \<Longrightarrow> fmt_div b digit n p =
     (if n < b then digit n # p else fmt_div b digit (n div b) (digit (n mod b) # p))"
  by (subst fmt_div.simps) (auto simp: Let_def div_eq_0_iff)

lemma fmt_div_append: "1 < b \<Longrightarrow> fmt_div b digit n (p @ q) = fmt_div b digit n p @ q"
proof (induction n arbitrary: p rule: less_induct)
  case (less n)
  show ?case
  proof (cases "n < b")
    case True
    with less.prems show ?thesis by (simp add: fmt_div_rec)
  next
    case False
    with less.prems have "n div b < n" by (intro div_less_dividend) simp_all
    from less.IH [OF this less.prems, of "digit (n mod b) # p"] False less.prems show ?thesis
      by (simp add: fmt_div_rec [of b digit n])
  qed
qed

lemma fmt_div_snoc:
  "1 < b \<Longrightarrow> \<not> n < b \<Longrightarrow> fmt_div b digit n [] = fmt_div b digit (n div b) [] @ [digit (n mod b)]"
  using fmt_div_append [of b digit "n div b" "[]" "[digit (n mod b)]"] by (simp add: fmt_div_rec [of b digit n])

lemma fmt_div_induct [consumes 1, case_names small large]:
  assumes "1 < b" and "\<And>n. n < b \<Longrightarrow> P n" and "\<And>n. \<not> n < b \<Longrightarrow> P (n div b) \<Longrightarrow> P n"
  shows "P (n::nat)"
proof (induction n rule: less_induct)
  case (less n)
  show ?case
  proof (cases "n < b")
    case False
    with assms(1) have "n div b < n" by (intro div_less_dividend) simp_all
    with False less assms(3) show ?thesis by blast
  qed (rule assms(2))
qed

lemma fmt_div_val:
  assumes "1 < b" and "\<And>x. x < b \<Longrightarrow> digit_of (digit x) = Some x"
  shows "digits_val b (fmt_div b digit n []) = n"
  using assms(1)
proof (induction n rule: fmt_div_induct)
  case (small n)
  with assms show ?case by (simp add: fmt_div_rec digits_val_def)
next
  case (large n)
  have "n mod b < b" using assms(1) by simp
  with large assms show ?case by (simp add: fmt_div_snoc)
qed

lemma fmt_div_digits:
  assumes "1 < b" and "\<And>x. x < b \<Longrightarrow> digit_of (digit x) = Some x"
  shows "list_all (is_digit_in b) (fmt_div b digit n []) \<and> fmt_div b digit n [] \<noteq> []"
  using assms(1)
proof (induction n rule: fmt_div_induct)
  case (small n)
  with assms show ?case by (simp add: fmt_div_rec is_digit_in_def)
next
  case (large n)
  have "n mod b < b" using assms(1) by simp
  with large assms show ?case by (simp add: fmt_div_snoc is_digit_in_def)
qed

lemma fmt_div_length:
  assumes "1 < b"
  shows "n < b ^ k \<Longrightarrow> 0 < k \<Longrightarrow> length (fmt_div b digit n []) \<le> k"
  using assms
proof (induction n arbitrary: k rule: fmt_div_induct)
  case (small n)
  then show ?case using assms by (simp add: fmt_div_rec)
next
  case (large n)
  show ?case
  proof (cases "k = 1")
    case False
    with large.prems have k: "0 < k - 1" by simp
    have "n div b < b ^ (k - 1)"
      using large.prems(1) k assms by (metis Suc_diff_1 large.prems(2) less_mult_imp_div_less power_Suc2)
    with large.IH [OF this k] large.hyps assms k show ?thesis by (simp add: fmt_div_snoc)
  qed (use large in simp)
qed

lemma fmt_div_cong:
  assumes "1 < b" and "\<And>x. x < b \<Longrightarrow> d x = d' x"
  shows "fmt_div b d n p = fmt_div b d' n p"
  using assms(1)
proof (induction n arbitrary: p rule: fmt_div_induct)
  case (small n)
  with assms show ?case by (simp add: fmt_div_rec)
next
  case (large n)
  with assms show ?case by (simp add: fmt_div_rec [of b _ n])
qed

text \<open>Shifting is dividing: the loops for bases 2, 8 and 16 agree with the general one.\<close>

lemma fmt_shift_div:
  assumes "0 < k" and "k < 64"
  shows "fmt_shift k digit ui p = fmt_div (2 ^ k) (\<lambda>n. digit (of_nat n)) (unat ui) p"
proof (induction "unat ui" arbitrary: ui p rule: less_induct)
  case less
  have b: "1 < (2::nat) ^ k" using assms(1) by (intro one_less_power) simp_all
  have dr: "unat (drop_bit k ui) = unat ui div 2 ^ k" by (rule unat_drop_bit_div)
  have ma: "ui AND mask k = of_nat (unat ui mod 2 ^ k)"
  proof -
    have "unat (ui AND mask k) = unat ui mod 2 ^ k"
      by (simp only: take_bit_eq_mask [symmetric] unsigned_take_bit_eq) (simp add: take_bit_eq_mod)
    moreover have "ui AND mask k = of_nat (unat (ui AND mask k))" by (simp only: of_nat_unat ucast_id)
    ultimately show ?thesis by simp
  qed
  show ?case
  proof (cases "drop_bit k ui = 0")
    case True
    then have "unat ui < 2 ^ k" using dr by (metis div_eq_0_iff unat_0 power_not_zero zero_neq_numeral)
    with True b ma show ?thesis by (simp add: fmt_shift.simps [of k] fmt_div_rec Let_def)
  next
    case False
    then have nz: "unat ui div 2 ^ k \<noteq> 0" using dr by (metis unat_eq_0)
    then have "\<not> unat ui < 2 ^ k" by (simp add: div_eq_0_iff)
    moreover have "unat (drop_bit k ui) < unat ui"
      using nz b by (metis dr div_less_dividend div_0 gr0I)
    ultimately show ?thesis
      using False assms(1) less [of "drop_bit k ui"] b ma dr
      by (simp add: fmt_shift.simps [of k _ ui] fmt_div_rec [of _ _ "unat ui"] Let_def)
  qed
qed

text \<open>
  With no flags and a base the parser understands, the text is the optional sign and the digits
  of the absolute value, whichever loop of \<open>fmtulong\<close> produced them.
\<close>

lemma FMTCHAR_TOCHAR: "x < 10 \<Longrightarrow> FMTCHAR x = TOCHAR x"
  by (simp add: FMTCHAR_def TOCHAR_def)

lemma FMTCHAR_x_digs:
  assumes "x < 16" shows "x_digs ! x = FMTCHAR x"
proof -
  have "list_all (\<lambda>x. x_digs ! x = FMTCHAR x) [0..<16]" by code_simp
  with assms show ?thesis by (simp add: list_all_iff)
qed

lemma fmt_base10:
  "(if ui < 10 then [TOCHAR (unat ui)]
    else if sint ui < 0 then fmt_div 10 TOCHAR (unat (ui div 10)) [TOCHAR (unat (ui mod 10))]
    else fmt_div 10 TOCHAR (unat ui) []) = fmt_div 10 TOCHAR (unat ui) []" for ui :: "64 word"
proof -
  have "ui < 10 \<longleftrightarrow> unat ui < 10" by (simp add: word_less_nat_alt)
  then show ?thesis
    by (auto simp: fmt_div_rec [of 10 TOCHAR "unat ui"] unat_div unat_mod)
qed

lemma fmt_text_digits:
  assumes "2 \<le> base" and "base \<le> 36"
  shows "fmt_text ui base 0 =
    (if sint ui < 0 then ''-'' else []) @ fmt_div (nat base) FMTCHAR (unat (if sint ui < 0 then - ui else ui)) []"
proof -
  have sh: "fmt_shift 3 (\<lambda>d. TOCHAR (unat d)) w [] = fmt_div 8 FMTCHAR (unat w) []"
    "fmt_shift 4 (\<lambda>d. x_digs ! unat d) w [] = fmt_div 16 FMTCHAR (unat w) []"
    "fmt_shift 1 (\<lambda>d. TOCHAR (unat d)) w [] = fmt_div 2 FMTCHAR (unat w) []" for w :: "64 word"
    by (simp_all add: fmt_shift_div) (rule fmt_div_cong; simp add: FMTCHAR_TOCHAR FMTCHAR_x_digs unat_of_nat)+
  have ten: "fmt_div 10 TOCHAR n [] = fmt_div 10 FMTCHAR n []" for n
    by (rule fmt_div_cong) (simp_all add: FMTCHAR_TOCHAR)
  show ?thesis
    unfolding fmt_text_def Let_def fmt_base10 using assms by (simp add: ten sh sh(3) [unfolded One_nat_def])
qed

lemma fmtulong_fits: "2 \<le> base \<Longrightarrow> base \<le> 64 \<Longrightarrow>
    fmtulong ui base len flags = (if length (fmt_text ui base flags) < len then Some (fmt_text ui base flags) else None)"
  by (simp add: fmtulong_def Let_def)

lemma decimal_length: "length (fmt_div 10 D (unat w) []) \<le> 20" for w :: "64 word"
  using unat64_le [of w] by (intro fmt_div_length) simp_all

text \<open>
  The local buffers are large enough: the text that \<open>itos\<close> and \<open>uitos\<close> write, with its terminating
  NUL, fits \<^verbatim>\<open>INT_STRLEN_BOUND + 1\<close> bytes for every value, so the loop of \<open>fmtulong\<close> never runs below
  the buffer in these callers.
\<close>

lemma local_buffers:
  "fmtulong (word_of_int i) 10 (INT_STRLEN_BOUND True + 1) 0 = Some (fmt_text (word_of_int i) 10 0)"
  "fmtulong u 10 (INT_STRLEN_BOUND False + 1) FL_UNSIGNED = Some (fmt_text u 10 FL_UNSIGNED)"
  "itos i = fmt_text (word_of_int i) 10 0" "length (itos i) \<le> 21"
proof -
  let ?w = "word_of_int i :: 64 word"
  have l: "length (fmt_text ?w 10 0) \<le> 21"
    using decimal_length [of FMTCHAR "- ?w"] decimal_length [of FMTCHAR ?w] by (simp add: fmt_text_digits)
  have "fmt_text u 10 FL_UNSIGNED = fmt_div 10 TOCHAR (unat u) []"
    unfolding fmt_text_def Let_def fmt_base10 by (simp add: cdefs)
  then have u: "length (fmt_text u 10 FL_UNSIGNED) \<le> 20" using decimal_length [of TOCHAR u] by simp
  show "fmtulong u 10 (INT_STRLEN_BOUND False + 1) FL_UNSIGNED = Some (fmt_text u 10 FL_UNSIGNED)"
    using u by (simp add: fmtulong_fits INT_STRLEN_BOUND_def)
  show t: "fmtulong ?w 10 (INT_STRLEN_BOUND True + 1) 0 = Some (fmt_text ?w 10 0)"
    using l by (simp add: fmtulong_fits INT_STRLEN_BOUND_def)
  then show it: "itos i = fmt_text ?w 10 0" by (simp add: itos_def buf_text_def)
  show "length (itos i) \<le> 21" unfolding it by (rule l)
qed

lemmas itos_length = local_buffers(4)

subsection \<open>The digit loop of strtol\<close>

lemma cutoff_iff:
  fixes i :: "64 word"
  assumes "1 < b" and "b \<le> 36" and "d < b"
  shows "(i > (- 1) div of_nat b \<or> (i = (- 1) div of_nat b \<and> (of_nat d :: 64 word) > (- 1) mod of_nat b))
     \<longleftrightarrow> unat i * b + d > 2 ^ 64 - 1"
proof -
  have ub: "unat (of_nat b :: 64 word) = b" "unat (of_nat d :: 64 word) = d"
    using assms by (simp_all add: unat_of_nat)
  let ?M = "18446744073709551615 :: nat"
  have m: "unat (- 1 :: 64 word) = ?M" by (simp add: unat64_minus_1)
  have c: "unat ((- 1 :: 64 word) div of_nat b) = ?M div b" "unat ((- 1 :: 64 word) mod of_nat b) = ?M mod b"
    by (simp_all only: unat_div unat_mod m ub)
  have "(?M div b < n \<or> (n = ?M div b \<and> ?M mod b < d)) \<longleftrightarrow> ?M < n * b + d" for n
  proof (cases "n \<le> ?M div b")
    case True
    show ?thesis
    proof (cases "n = ?M div b")
      case True
      have "?M = n * b + ?M mod b" unfolding True by simp
      with True show ?thesis by linarith
    next
      case False
      with True have "Suc n \<le> ?M div b" by simp
      then have "Suc n * b \<le> ?M div b * b" by (rule mult_le_mono1)
      also have "\<dots> \<le> ?M" by simp
      finally have "n * b + b \<le> ?M" by simp
      with False True assms(3) show ?thesis by linarith
    qed
  next
    case False
    then have "Suc (?M div b) \<le> n" by simp
    then have "Suc (?M div b) * b \<le> n * b" by (rule mult_le_mono1)
    moreover have "?M < Suc (?M div b) * b"
      using dividend_less_times_div [of b ?M] assms(1) by (simp add: mult.commute)
    ultimately show ?thesis using False by linarith
  qed
  from this [of "unat i"] show ?thesis
    unfolding word_less_nat_alt word_unat_eq_iff c ub by simp
qed

lemma digits_step:
  "foldl (\<lambda>n c. n * b + the (digit_of c)) n s = n * b ^ length s + digits_val b s"
proof (induction s rule: rev_induct)
  case (snoc c s)
  then show ?case by (simp add: algebra_simps)
qed (simp add: digits_val_def)

text \<open>
  The loop reads the longest run of digits of the base; it reports overflow exactly when their
  value does not fit 64 bits, and otherwise returns that value.
\<close>

lemma strtol_loop_correct:
  fixes b :: nat
  assumes b: "1 < b" "b \<le> 36"
    and "overflow \<longrightarrow> 2 ^ 64 - 1 < v" and "\<not> overflow \<longrightarrow> unat i = v"
  shows "case strtol_loop b s i overflow n of
    (i', ov', n') \<Rightarrow> n' = n + length (takeWhile (is_digit_in b) s) \<and>
      (ov' \<longleftrightarrow> 2 ^ 64 - 1 < foldl (\<lambda>n c. n * b + the (digit_of c)) v (takeWhile (is_digit_in b) s)) \<and>
      (\<not> ov' \<longrightarrow> unat i' = foldl (\<lambda>n c. n * b + the (digit_of c)) v (takeWhile (is_digit_in b) s))"
  using assms(3,4)
proof (induction s arbitrary: i overflow n v)
  case Nil
  have "v \<le> 2 ^ 64 - 1" if "unat i = v" using unat64_le [of i] that by simp
  with Nil show ?case by auto
next
  case (Cons c s)
  have small: "v \<le> 2 ^ 64 - 1" if "unat i = v" using unat64_le [of i] that by simp
  show ?case
  proof (cases "is_digit_in b c")
    case False
    with Cons.prems small show ?thesis
      by (auto simp: is_digit_in_def split: option.splits)
  next
    case True
    then obtain d where d: "digit_of c = Some d" "d < b" by (auto simp: is_digit_in_def)
    let ?ovf = "unat i * b + d > 2 ^ 64 - 1"
    have un: "strtol_loop b (c # s) i overflow n =
      (if ?ovf then strtol_loop b s i True (Suc n)
       else strtol_loop b s (i * of_nat b + of_nat d) overflow (Suc n))"
      using d cutoff_iff [OF b d(2), of i] by (simp add: Let_def)
    have big: "2 ^ 64 - 1 < v * b + d" if "2 ^ 64 - 1 < v"
    proof -
      have "v \<le> v * b" using b(1) by simp
      with that show ?thesis by linarith
    qed
    show ?thesis
    proof (cases ?ovf)
      case ovf: True
      have "2 ^ 64 - 1 < v * b + d" using ovf Cons.prems big by auto
      with Cons.IH [of True "v * b + d" i "Suc n"] un ovf True d show ?thesis by simp
    next
      case False
      have "unat (i * of_nat b + of_nat d) = unat i * b + d"
        using False b d(2) by (simp add: unat_word_ariths unat_of_nat mod_less)
      with Cons.IH [of overflow "v * b + d" "i * of_nat b + of_nat d" "Suc n"] Cons.prems un False True d big
      show ?thesis by auto
    qed
  qed
qed

subsection \<open>What strtol returns\<close>

lemma digit_chars:
  assumes "is_digit_in b c"
  shows "\<not> ISSPACE c" and "c \<noteq> NUL" and "c \<noteq> CHR ''-''" and "c \<noteq> CHR ''+''"
  using assms
  by (auto simp: is_digit_in_def digit_of_def DIGIT_def ISALPHA_def ISUPPER_def ISLOWER_def ISSPACE_def
      uchar_def split: if_splits)

lemma char_at_append: "char_at (s @ t) i = (if i < length s then s ! i else char_at t (i - length s))"
  by (auto simp: char_at_def nth_append)

definition strtol_result :: "bool \<Rightarrow> nat \<Rightarrow> nat \<Rightarrow> int \<times> nat option \<times> errno" where
  "strtol_result negative v end =
     (if negative then (if 2 ^ 63 < v then (INTMAX_MIN, Some end, ERANGE) else (- int v, Some end, NoErr))
      else (if 2 ^ 63 - 1 < v then (INTMAX_MAX, Some end, ERANGE) else (int v, Some end, NoErr)))"

lemma strtol_sign_range:
  assumes "overflow \<longleftrightarrow> 2 ^ 64 - 1 < v" and "\<not> overflow \<longrightarrow> unat i = v"
  shows "(let overflow = (overflow \<or>
            (i :: 64 word) > (if negative then - word_of_int (INTMAX_MIN + 1) + 1 else word_of_int INTMAX_MAX))
          in if overflow then (if negative then INTMAX_MIN else INTMAX_MAX, Some end, ERANGE)
             else (if negative then sint (- i) else sint i, Some end, NoErr)) = strtol_result negative v end"
proof -
  have lim: "unat (- word_of_int (INTMAX_MIN + 1) + 1 :: 64 word) = 2 ^ 63"
    "unat (- word_of_int INTMAX_MIN :: 64 word) = 2 ^ 63"
    "unat (word_of_int INTMAX_MAX :: 64 word) = 2 ^ 63 - 1"
    by (simp_all add: INTMAX_MIN_def INTMAX_MAX_def)
  show ?thesis
  proof (cases overflow)
    case True
    with assms show ?thesis by (auto simp: strtol_result_def)
  next
    case False
    with assms have "unat i = v" by simp
    with False show ?thesis
      using sint64_pos [of i] sint64_neg [of i]
      by (auto simp: strtol_result_def word_less_nat_alt lim Let_def)
  qed
qed

lemma strtol_reads:
  assumes "2 \<le> b" and "b \<le> 36"
    and "list_all ISSPACE ws" and "sg \<in> {[], ''-'', ''+''}"
    and "list_all (is_digit_in b) ds" and "ds \<noteq> []" and "rest = [] \<or> \<not> is_digit_in b (hd rest)"
    and "b = 16 \<longrightarrow> \<not> (hd ds = CHR ''0'' \<and> TOUPPER (char_at (tl ds @ rest) 0) = CHR ''X'')"
  shows "strtol (ws @ sg @ ds @ rest) (int b) =
    strtol_result (sg = ''-'') (digits_val b ds) (length ws + length sg + length ds)"
proof -
  let ?s = "ws @ sg @ ds @ rest"
  from assms(6) obtain d ds' where ds: "ds = d # ds'" by (cases ds) auto
  with assms(5) have d: "is_digit_in b d" by simp
  note dc = digit_chars [OF d]
  have skip: "takeWhile ISSPACE ?s = ws"
  proof -
    have "\<not> ISSPACE (hd (sg @ ds @ rest))"
      using assms(4) dc(1) ds by (auto simp: ISSPACE_def uchar_def)
    moreover have "sg @ ds @ rest \<noteq> []" using ds by simp
    ultimately have "takeWhile ISSPACE (sg @ ds @ rest) = []" by (cases "sg @ ds @ rest") auto
    with assms(3) show ?thesis by (simp add: takeWhile_append2 list_all_iff)
  qed
  have at: "char_at ?s (length ws) = (if sg = [] then d else hd sg)"
    using assms(4) ds by (auto simp: char_at_append)
  have signs: "(if char_at ?s (length ws) = CHR ''-'' \<or> char_at ?s (length ws) = CHR ''+'' then Suc (length ws)
      else length ws) = length ws + length sg"
    "char_at ?s (length ws) = CHR ''-'' \<longleftrightarrow> sg = ''-''" "char_at ?s (length ws) \<noteq> NUL"
    using assms(4) dc by (auto simp: at)
  let ?p = "length ws + length sg"
  have at2: "char_at ?s ?p = d" "char_at ?s (Suc ?p) = char_at (ds' @ rest) 0" "drop ?p ?s = ds @ rest"
    using ds by (auto simp: char_at_append char_at_def nth_append)
  have tw: "takeWhile (is_digit_in b) (ds @ rest) = ds"
    using assms(5,7) by (cases rest) (auto simp: takeWhile_append2 list_all_iff)
  obtain i ov n where lp: "strtol_loop b (ds @ rest) 0 False 0 = (i, ov, n)" by (metis prod_cases3)
  with strtol_loop_correct [of b False 0 0, where s = "ds @ rest" and n = 0] assms(1,2) tw
  have r: "n = length ds" "ov \<longleftrightarrow> 2 ^ 64 - 1 < digits_val b ds" "\<not> ov \<longrightarrow> unat i = digits_val b ds"
    by (simp_all add: digits_val_def)
  have base: "(if char_at ?s ?p = CHR ''0'' then
       (if (int b = 0 \<or> int b = 16) \<and> TOUPPER (char_at ?s (Suc ?p)) = CHR ''X'' then (?p + 2, 16)
        else if int b = 0 then (?p, 8) else (?p, int b))
     else if int b = 0 then (?p, 10) else (?p, int b)) = (?p, int b)"
    unfolding at2 using assms(1,8) ds by auto
  have lp': "strtol_loop b (ds @ rest) 0 False 0 = (i, ov, length ds)" using lp r(1) by simp
  have bs: "(int b < 0 \<or> int b = 1 \<or> int b > 36) = False" "length ds \<noteq> 0" using assms(1,2,6) by auto
  show ?thesis
    unfolding strtol_sign_range [OF r(2,3), symmetric] strtol_def skip signs(1) Let_def base bs(1) prod.case
      at2(3) nat_int lp' if_False if_not_P [OF signs(3)] if_not_P [OF bs(2)]
    by (simp only: signs(2))
qed

subsection \<open>Properties\<close>

text \<open>
  C27. \<open>strtol\<close> in a base from 2 to 36: for text made of white space, an optional sign, a non-empty
  run of digits of the base and a rest that does not continue it, the value is that of the digits
  with the sign, clipped to the 64-bit range with \<open>ERANGE\<close> exactly when it lies outside, and the
  end position is the first character after the digits.
\<close>

theorem strtol_correct:
  assumes "2 \<le> b" and "b \<le> 36"
    and "list_all ISSPACE ws" and "sg \<in> {[], ''-'', ''+''}"
    and "list_all (is_digit_in b) ds" and "ds \<noteq> []" and "rest = [] \<or> \<not> is_digit_in b (hd rest)"
    and "b = 16 \<longrightarrow> \<not> (hd ds = CHR ''0'' \<and> TOUPPER (char_at (tl ds @ rest) 0) = CHR ''X'')"
  shows "strtol (ws @ sg @ ds @ rest) (int b) =
    (let v = (if sg = ''-'' then - int (digits_val b ds) else int (digits_val b ds));
         end = Some (length ws + length sg + length ds)
     in if v < INTMAX_MIN then (INTMAX_MIN, end, ERANGE)
        else if v > INTMAX_MAX then (INTMAX_MAX, end, ERANGE)
        else (v, end, NoErr))"
proof -
  have "(2 ^ 63 < n) = (- int n < - (2 ^ 63))" "(2 ^ 63 - 1 < n) = (int n > 2 ^ 63 - 1)" for n :: nat
    by simp_all
  then show ?thesis
    unfolding strtol_reads [OF assms] strtol_result_def Let_def INTMAX_MIN_def INTMAX_MAX_def by simp
qed

theorem strtol_correct_witness:
  "strtol ''  -42;'' 10 = (- 42, Some 5, NoErr)"
proof -
  have d: "digits_val 10 ''42'' = 42" by code_simp
  have i: "list_all (is_digit_in 10) ''42''" "\<not> is_digit_in 10 CHR '';''"
    by (simp_all add: is_digit_in_def digit_of_def DIGIT_def ISALPHA_def ISUPPER_def ISLOWER_def uchar_def)
  have w: "list_all ISSPACE ''  ''" by (simp add: ISSPACE_def uchar_def)
  from strtol_correct [OF _ _ w, of 10 "''-''" "''42''" "'';''"] i d show ?thesis
    by (simp add: Let_def INTMAX_MIN_def INTMAX_MAX_def)
qed

lemma X_not_hex_digit: "TOUPPER c = CHR ''X'' \<Longrightarrow> \<not> is_digit_in 16 c"
proof -
  assume X: "TOUPPER c = CHR ''X''"
  then have "uchar (TOUPPER c) = 88" by (simp add: uchar_def)
  then show ?thesis
    using X by (auto simp: is_digit_in_def digit_of_def DIGIT_def TOUPPER_def ISLOWER_def split: if_splits)
qed

lemma fmt_text_sign_digits:
  assumes "INTMAX_MIN \<le> i" and "i \<le> INTMAX_MAX" and "2 \<le> base" and "base \<le> 36"
  shows "fmt_text (word_of_int i) base 0 =
    (if i < 0 then ''-'' else []) @ fmt_div (nat base) FMTCHAR (nat \<bar>i\<bar>) []"
proof -
  let ?w = "word_of_int i :: 64 word"
  have s: "sint ?w = i"
    using assms(1,2) by (simp add: signed_of_int signed_take_bit_int_eq_self INTMAX_MIN_def INTMAX_MAX_def)
  have "unat (- ?w) = nat (- i)" if "i < 0"
    using unat64_of_int [of "- i"] that assms(1) by (simp add: INTMAX_MIN_def)
  moreover have "unat ?w = nat i" if "\<not> i < 0"
    using unat64_of_int [of i] that assms(2) by (simp add: INTMAX_MAX_def)
  ultimately show ?thesis
    unfolding fmt_text_digits [OF assms(3,4)] s by auto
qed

lemma itos_eq:
  "INTMAX_MIN \<le> i \<Longrightarrow> i \<le> INTMAX_MAX \<Longrightarrow> itos i = (if i < 0 then ''-'' else []) @ fmt_div 10 FMTCHAR (nat \<bar>i\<bar>) []"
  using fmt_text_sign_digits [of i 10] by (simp add: local_buffers(3))

lemma decimal_digits:
  "list_all (is_digit_in 10) (fmt_div 10 FMTCHAR n []) \<and> fmt_div 10 FMTCHAR n [] \<noteq> []" "digits_val 10 (fmt_div 10 FMTCHAR n []) = n"
  using fmt_div_digits [of 10 FMTCHAR n] fmt_div_val [of 10 FMTCHAR n] by (simp_all add: digit_of_FMTCHAR)

lemma strtol_itos:
  assumes "INTMAX_MIN \<le> i" and "i \<le> INTMAX_MAX" and "rest = [] \<or> \<not> is_digit_in 10 (hd rest)"
  shows "strtol (itos i @ rest) 10 = (i, Some (length (itos i)), NoErr)"
proof -
  let ?ds = "fmt_div 10 FMTCHAR (nat \<bar>i\<bar>) []" and ?sg = "if i < 0 then ''-'' else []"
  have "strtol ([] @ ?sg @ ?ds @ rest) (int 10) =
      strtol_result (?sg = ''-'') (digits_val 10 ?ds) (length ([]::string) + length ?sg + length ?ds)"
    using assms(3) decimal_digits by (intro strtol_reads) auto
  moreover have "strtol_result (?sg = ''-'') (nat \<bar>i\<bar>) n = (i, Some n, NoErr)" for n
    using assms(1,2) by (auto simp: strtol_result_def INTMAX_MIN_def INTMAX_MAX_def)
  ultimately show ?thesis by (simp add: itos_eq [OF assms(1,2)] decimal_digits)
qed

lemma decimal_no_leading_zero: "0 < n \<longrightarrow> hd (fmt_div 10 FMTCHAR n []) \<noteq> CHR ''0''"
proof -
  have "1 < (10::nat)" by simp
  then show ?thesis
  proof (induction n rule: fmt_div_induct)
    case (small n)
    have "digit_of (CHR ''0'') = Some 0" by (simp add: digit_of_def DIGIT_def uchar_def)
    moreover have "digit_of (FMTCHAR n) = Some n" using small by (intro digit_of_FMTCHAR) simp
    ultimately have "0 < n \<longrightarrow> FMTCHAR n \<noteq> CHR ''0''" by auto
    then show ?case using small by (auto simp: fmt_div_rec)
  next
    case (large n)
    then have "0 < n div 10" by simp
    then show ?case using large decimal_digits [of "n div 10"] by (simp add: fmt_div_snoc hd_append)
  qed
qed

lemma strtol_fmt_text:
  assumes "INTMAX_MIN \<le> i" and "i \<le> INTMAX_MAX" and b: "2 \<le> b" "b \<le> 36"
  shows "strtol (fmt_text (word_of_int i) (int b) 0) (int b) = (i, Some (length (fmt_text (word_of_int i) (int b) 0)), NoErr)"
proof -
  let ?ds = "fmt_div b FMTCHAR (nat \<bar>i\<bar>) []" and ?sg = "if i < 0 then ''-'' else []"
  have dg: "\<And>x. x < b \<Longrightarrow> digit_of (FMTCHAR x) = Some x" using b by (simp add: digit_of_FMTCHAR)
  have fd: "list_all (is_digit_in b) ?ds" "?ds \<noteq> []" using fmt_div_digits [of b FMTCHAR "nat \<bar>i\<bar>"] dg b by auto
  have v: "digits_val b ?ds = nat \<bar>i\<bar>" using fmt_div_val [OF _ dg] b by simp
  have nox: "b = 16 \<longrightarrow> \<not> (hd ?ds = CHR ''0'' \<and> TOUPPER (char_at (tl ?ds @ []) 0) = CHR ''X'')"
  proof (intro impI notI)
    assume h: "b = 16" "hd ?ds = CHR ''0'' \<and> TOUPPER (char_at (tl ?ds @ []) 0) = CHR ''X''"
    then have "tl ?ds \<noteq> []" by (auto simp: TOUPPER_def ISLOWER_def uchar_def)
    then have "hd (tl ?ds) \<in> set ?ds" by (cases ?ds; cases "tl ?ds") auto
    with fd have "is_digit_in 16 (hd (tl ?ds))" using h(1) by (auto simp: list_all_iff)
    moreover have "TOUPPER (hd (tl ?ds)) = CHR ''X''"
      using h \<open>tl ?ds \<noteq> []\<close> by (cases "tl ?ds") auto
    ultimately show False by (simp add: X_not_hex_digit)
  qed
  have "strtol ([] @ ?sg @ ?ds @ []) (int b) =
      strtol_result (?sg = ''-'') (digits_val b ?ds) (length ([]::string) + length ?sg + length ?ds)"
    using b fd nox by (intro strtol_reads) auto
  moreover have "strtol_result (?sg = ''-'') (nat \<bar>i\<bar>) n = (i, Some n, NoErr)" for n
    using assms(1,2) by (auto simp: strtol_result_def INTMAX_MIN_def INTMAX_MAX_def)
  ultimately show ?thesis
    using fmt_text_sign_digits [OF assms(1,2), of "int b"] b v by simp
qed

lemma fmt_text_length:
  assumes "2 \<le> b" and "b \<le> 36" shows "length (fmt_text w (int b) 0) \<le> 65"
proof -
  have "unat v < b ^ 64" for v :: "64 word"
  proof -
    have "(2 :: nat) ^ 64 \<le> b ^ 64" using assms(1) by (rule power_mono) simp
    then show ?thesis using unat64_le [of v] by simp
  qed
  then have "length (fmt_div b FMTCHAR (unat v) []) \<le> 64" for v :: "64 word"
    using assms by (intro fmt_div_length) simp_all
  from this [of w] this [of "- w"] show ?thesis using assms by (simp add: fmt_text_digits)
qed

text \<open>
  C28. Printing then parsing is the identity. For every 64-bit integer and every base from 2 to 36
  there is a text of at most 65 characters that \<open>fmtulong\<close> (with no flags) produces exactly when the
  buffer has room for it and its NUL (a shorter buffer is written before its start), and
  \<open>strtoimax\<close> reads it back in that base, completely and without error. The buffer of \<open>itos\<close> has the
  room, and \<open>legal_number\<close> accepts what \<open>itos\<close> prints, with the same value.
\<close>

theorem number_roundtrip:
  assumes "INTMAX_MIN \<le> i" and "i \<le> INTMAX_MAX" and "2 \<le> b" and "b \<le> 36"
  shows "(\<exists>t. (\<forall>len. fmtulong (word_of_int i) (int b) len 0 = (if length t < len then Some t else None)) \<and>
      length t \<le> 65 \<and> strtoimax t (int b) = (i, Some (length t), NoErr)) \<and>
    fmtulong (word_of_int i) 10 (INT_STRLEN_BOUND True + 1) 0 = Some (itos i) \<and>
    legal_number (Some (itos i)) = Some i"
proof (intro conjI exI [of _ "fmt_text (word_of_int i) (int b) 0"] allI)
  show "fmtulong (word_of_int i) (int b) len 0 =
      (if length (fmt_text (word_of_int i) (int b) 0) < len then Some (fmt_text (word_of_int i) (int b) 0) else None)" for len
    using assms(3,4) by (intro fmtulong_fits) simp_all
  show "length (fmt_text (word_of_int i) (int b) 0) \<le> 65" using assms(3,4) by (rule fmt_text_length)
  show "strtoimax (fmt_text (word_of_int i) (int b) 0) (int b) = (i, Some (length (fmt_text (word_of_int i) (int b) 0)), NoErr)"
    unfolding strtoimax_def using assms by (rule strtol_fmt_text)
  show "fmtulong (word_of_int i) 10 (INT_STRLEN_BOUND True + 1) 0 = Some (itos i)"
    unfolding local_buffers(3) by (rule local_buffers(1))
  have "itos i \<noteq> []" using decimal_digits(1) [of "nat \<bar>i\<bar>"] by (simp add: itos_eq [OF assms(1,2)])
  then show "legal_number (Some (itos i)) = Some i"
    using strtol_fmt_text [OF assms(1,2), of 10]
    by (simp add: legal_number_def strtoimax_def local_buffers(3) Let_def)
qed

theorem number_roundtrip_witness:
  "legal_number (Some (itos (- 9223372036854775808))) = Some (- 9223372036854775808) \<and>
   (\<exists>t. fmtulong (word_of_int (- 9223372036854775808)) 2 66 0 = Some t \<and>
     strtoimax t 2 = (- 9223372036854775808, Some (length t), NoErr))"
proof -
  have i: "INTMAX_MIN \<le> - 9223372036854775808" "- 9223372036854775808 \<le> INTMAX_MAX" by (simp_all add: INTMAX_MIN_def INTMAX_MAX_def)
  from number_roundtrip [OF i, of 2] obtain t where
    "\<And>len. fmtulong (word_of_int (- 9223372036854775808)) 2 len 0 = (if length t < len then Some t else None)"
    "length t \<le> 65" "strtoimax t 2 = (- 9223372036854775808, Some (length t), NoErr)" by auto
  then show ?thesis using number_roundtrip [OF i, of 2] by auto
qed

end
