(* ===== verification/Dictionary.thy ===== *)
theory Dictionary
  imports Prelude
begin

text \<open>
  The contract between the shell's lookup structures and their clients. Associative arrays
  (\<^verbatim>\<open>assoc.c\<close>), aliases (\<^verbatim>\<open>alias.c\<close>), the command hash table (\<^verbatim>\<open>hashcmd.c\<close>) and indexed
  arrays (\<^verbatim>\<open>array.c\<close>) all promise their callers the same four operations on a finite map;
  \<open>dictionary\<close> states the promise once and proves from it what a whole sequence of operations
  does. Each component interprets it on its own operations.
\<close>

datatype ('k, 'v) dict_op = DUpdate 'k 'v | DDelete 'k | DClear

fun map_step :: "('k, 'v) dict_op \<Rightarrow> ('k \<rightharpoonup> 'v) \<Rightarrow> ('k \<rightharpoonup> 'v)" where
  "map_step (DUpdate k v) m = m(k \<mapsto> v)"
| "map_step (DDelete k) m = m(k := None)"
| "map_step DClear m = Map.empty"

fun dict_step ::
  "('k \<Rightarrow> 'v \<Rightarrow> 'm \<Rightarrow> 'm) \<Rightarrow> ('k \<Rightarrow> 'm \<Rightarrow> 'm) \<Rightarrow> ('m \<Rightarrow> 'm) \<Rightarrow> ('k, 'v) dict_op \<Rightarrow> 'm \<Rightarrow> 'm" where
  "dict_step upd del clr (DUpdate k v) m = upd k v m"
| "dict_step upd del clr (DDelete k) m = del k m"
| "dict_step upd del clr DClear m = clr m"

fun op_ok :: "('k \<Rightarrow> bool) \<Rightarrow> ('k, 'v) dict_op \<Rightarrow> bool" where
  "op_ok ok (DUpdate k v) \<longleftrightarrow> ok k"
| "op_ok ok (DDelete k) \<longleftrightarrow> ok k"
| "op_ok ok DClear \<longleftrightarrow> True"

locale dictionary =
  fixes ok :: "'k \<Rightarrow> bool"
    and invar :: "'m \<Rightarrow> bool"
    and lookup :: "'m \<Rightarrow> 'k \<Rightarrow> 'v option"
    and update :: "'k \<Rightarrow> 'v \<Rightarrow> 'm \<Rightarrow> 'm"
    and delete :: "'k \<Rightarrow> 'm \<Rightarrow> 'm"
    and clear :: "'m \<Rightarrow> 'm"
  assumes lookup_update: "invar m \<Longrightarrow> ok k \<Longrightarrow> lookup (update k v m) k' = (if k' = k then Some v else lookup m k')"
    and lookup_delete: "invar m \<Longrightarrow> ok k \<Longrightarrow> lookup (delete k m) k' = (if k' = k then None else lookup m k')"
    and lookup_clear: "invar m \<Longrightarrow> lookup (clear m) k = None"
    and invar_update: "invar m \<Longrightarrow> ok k \<Longrightarrow> invar (update k v m)"
    and invar_delete: "invar m \<Longrightarrow> ok k \<Longrightarrow> invar (delete k m)"
    and invar_clear: "invar m \<Longrightarrow> invar (clear m)"
begin

lemma step_refines:
  assumes "invar m" and "op_ok ok p"
  shows "invar (dict_step update delete clear p m) \<and>
         lookup (dict_step update delete clear p m) = map_step p (lookup m)"
  using assms
  by (cases p) (auto simp: fun_eq_iff lookup_update lookup_delete lookup_clear
      invar_update invar_delete invar_clear)

lemma run_refines:
  assumes "invar m" and "list_all (op_ok ok) ops"
  shows "invar (fold (dict_step update delete clear) ops m) \<and>
         lookup (fold (dict_step update delete clear) ops m) = fold map_step ops (lookup m)"
  using assms
proof (induction ops arbitrary: m)
  case (Cons p ops)
  with step_refines [of m p] show ?case by simp
qed simp

lemma update_same: "invar m \<Longrightarrow> ok k \<Longrightarrow> lookup (update k v (update k w m)) = lookup (update k v m)"
  by (auto simp: fun_eq_iff lookup_update invar_update)

lemma update_commute:
  "invar m \<Longrightarrow> ok k \<Longrightarrow> ok l \<Longrightarrow> k \<noteq> l \<Longrightarrow>
   lookup (update k v (update l w m)) = lookup (update l w (update k v m))"
  by (auto simp: fun_eq_iff lookup_update invar_update)

lemma delete_update: "invar m \<Longrightarrow> ok k \<Longrightarrow> lookup (delete k (update k v m)) = lookup (delete k m)"
  by (auto simp: fun_eq_iff lookup_update lookup_delete invar_update)

end

end
