(* ===== verification/Hashlib.thy ===== *)
theory Hashlib
  imports Prelude
begin

text \<open>
  The chained hash table of \<^verbatim>\<open>src/cli/hashlib.c\<close>. A chain of \<^verbatim>\<open>BUCKET_CONTENTS\<close> is the list
  of its items in link order, the bucket array a list of chains. Operations that return a
  pointer into the table return the item's location, the pair of bucket index and position
  in the chain; a null table or a null result is \<open>None\<close>. The data of an item is a value of
  an arbitrary type \<open>'d\<close>, or \<open>None\<close> for a null data pointer. \<open>hash_flush\<close> also returns the
  items it freed, in order. The count of hits of an item is the C \<^verbatim>\<open>int\<close>, a word that wraps.
\<close>

subsection \<open>Data\<close>

record 'd bucket_contents =
  bkey :: string
  bdata :: "'d option"
  khash :: "32 word"
  times_found :: "32 word"

record 'd hash_table =
  bucket_array :: "'d bucket_contents list list"
  nbuckets :: int
  nentries :: int

type_synonym item_loc = "nat \<times> nat"

definition DEFAULT_HASH_BUCKETS :: int where
  "DEFAULT_HASH_BUCKETS = 64"

definition HASH_NOSRCH :: int where
  "HASH_NOSRCH = 1"

definition HASH_CREATE :: int where
  "HASH_CREATE = 2"

declare DEFAULT_HASH_BUCKETS_def [cdefs] HASH_NOSRCH_def [cdefs] HASH_CREATE_def [cdefs]

subsection \<open>Operations\<close>

definition hash_create :: "int \<Rightarrow> 'd hash_table" where
  "hash_create buckets =
     (let buckets = (if buckets = 0 then DEFAULT_HASH_BUCKETS else buckets)
      in \<lparr>bucket_array = replicate (nat buckets) [], nbuckets = buckets, nentries = 0\<rparr>)"

definition HASH_ENTRIES :: "'d hash_table option \<Rightarrow> int" where
  "HASH_ENTRIES table = (case table of None \<Rightarrow> 0 | Some t \<Rightarrow> nentries t)"

definition hash_size :: "'d hash_table option \<Rightarrow> int" where
  "hash_size table = HASH_ENTRIES table"

fun copy_bucket_array :: "'d bucket_contents list \<Rightarrow> ('d \<Rightarrow> 'd) option \<Rightarrow> 'd bucket_contents list" where
  "copy_bucket_array [] cpdata = []"
| "copy_bucket_array (e # es) cpdata =
     \<lparr>bkey = bkey e,
      bdata = (case bdata e of
                 None \<Rightarrow> None
               | Some d \<Rightarrow> (case cpdata of Some cp \<Rightarrow> Some (cp d) | None \<Rightarrow> Some d)),
      khash = khash e,
      times_found = times_found e\<rparr> # copy_bucket_array es cpdata"

definition hash_copy :: "'d hash_table option \<Rightarrow> ('d \<Rightarrow> 'd) option \<Rightarrow> 'd hash_table option" where
  "hash_copy table cpdata =
     (case table of
        None \<Rightarrow> None
      | Some t \<Rightarrow>
          Some ((hash_create (nbuckets t))
                  \<lparr>bucket_array := map (\<lambda>ba. copy_bucket_array ba cpdata) (bucket_array t),
                   nentries := nentries t\<rparr>))"

fun hash_string_loop :: "32 word \<Rightarrow> string \<Rightarrow> 32 word" where
  "hash_string_loop i [] = i"
| "hash_string_loop i (c # s) = hash_string_loop ((i * 16777619) XOR word_of_int (schar c)) s"

definition hash_string :: "string \<Rightarrow> 32 word" where
  "hash_string s = hash_string_loop 0 s"

definition hash_bucket :: "string \<Rightarrow> 'd hash_table \<Rightarrow> nat" where
  "hash_bucket string table = unat (hash_string string AND word_of_int (nbuckets table - 1))"

fun chain_find :: "32 word \<Rightarrow> string \<Rightarrow> 'd bucket_contents list \<Rightarrow> nat option" where
  "chain_find hv string [] = None"
| "chain_find hv string (list # rest) =
     (if hv = khash list \<and> bkey list = string then Some 0
      else map_option Suc (chain_find hv string rest))"

definition new_item :: "string \<Rightarrow> 32 word \<Rightarrow> 'd bucket_contents" where
  "new_item string hv = \<lparr>bkey = string, bdata = None, khash = hv, times_found = 0\<rparr>"

definition push_item :: "string \<Rightarrow> 'd hash_table \<Rightarrow> 'd hash_table" where
  "push_item string t =
     (let b = hash_bucket string t
      in t\<lparr>bucket_array := (bucket_array t)[b := new_item string (hash_string string) # bucket_array t ! b],
           nentries := nentries t + 1\<rparr>)"

definition upd_item :: "item_loc \<Rightarrow> ('d bucket_contents \<Rightarrow> 'd bucket_contents) \<Rightarrow> 'd hash_table \<Rightarrow> 'd hash_table" where
  "upd_item loc f t =
     (let ch = bucket_array t ! fst loc
      in t\<lparr>bucket_array := (bucket_array t)[fst loc := ch[snd loc := f (ch ! snd loc)]]\<rparr>)"

definition item_at :: "'d hash_table \<Rightarrow> item_loc \<Rightarrow> 'd bucket_contents" where
  "item_at t loc = bucket_array t ! fst loc ! snd loc"

definition hash_search ::
  "string \<Rightarrow> 'd hash_table option \<Rightarrow> int \<Rightarrow> 'd hash_table option \<times> item_loc option" where
  "hash_search string table flags =
     (case table of
        None \<Rightarrow> (None, None)
      | Some t \<Rightarrow>
          if flags AND HASH_CREATE = 0 \<and> HASH_ENTRIES table = 0 then (Some t, None)
          else
            let bucket = hash_bucket string t
            in case chain_find (hash_string string) string (bucket_array t ! bucket) of
                 Some j \<Rightarrow>
                   (Some (upd_item (bucket, j) (\<lambda>b. b\<lparr>times_found := times_found b + 1\<rparr>) t),
                    Some (bucket, j))
               | None \<Rightarrow>
                   if flags AND HASH_CREATE \<noteq> 0 then (Some (push_item string t), Some (bucket, 0))
                   else (Some t, None))"

fun chain_unlink ::
  "32 word \<Rightarrow> string \<Rightarrow> 'd bucket_contents list \<Rightarrow> ('d bucket_contents \<times> 'd bucket_contents list) option" where
  "chain_unlink hv string [] = None"
| "chain_unlink hv string (temp # rest) =
     (if hv = khash temp \<and> bkey temp = string then Some (temp, rest)
      else map_option (\<lambda>(r, rest'). (r, temp # rest')) (chain_unlink hv string rest))"

definition hash_remove ::
  "string \<Rightarrow> 'd hash_table option \<Rightarrow> int \<Rightarrow> 'd hash_table option \<times> 'd bucket_contents option" where
  "hash_remove string table flags =
     (case table of
        None \<Rightarrow> (None, None)
      | Some t \<Rightarrow>
          if HASH_ENTRIES table = 0 then (Some t, None)
          else
            let bucket = hash_bucket string t
            in case chain_unlink (hash_string string) string (bucket_array t ! bucket) of
                 Some (temp, ch) \<Rightarrow>
                   (Some (t\<lparr>bucket_array := (bucket_array t)[bucket := ch],
                            nentries := nentries t - 1\<rparr>), Some temp)
               | None \<Rightarrow> (Some t, None))"

text \<open>
  On a null table \<open>hash_insert\<close> creates one of its own; the model returns the table the item
  was put in, which the caller of the C function does not see in that case.
\<close>

definition hash_insert ::
  "string \<Rightarrow> 'd hash_table option \<Rightarrow> int \<Rightarrow> 'd hash_table \<times> item_loc" where
  "hash_insert string table flags =
     (let t = (case table of None \<Rightarrow> hash_create 0 | Some t \<Rightarrow> t);
          (t', item) = (if flags AND HASH_NOSRCH \<noteq> 0 then (Some t, None)
                        else hash_search string (Some t) 0)
      in case item of
           Some loc \<Rightarrow> (the t', loc)
         | None \<Rightarrow> (push_item string (the t'), (hash_bucket string (the t'), 0)))"

definition hash_flush :: "'d hash_table option \<Rightarrow> 'd hash_table option \<times> 'd bucket_contents list" where
  "hash_flush table =
     (case table of
        None \<Rightarrow> (None, [])
      | Some t \<Rightarrow>
          if HASH_ENTRIES table = 0 then (Some t, [])
          else (Some (t\<lparr>bucket_array := map (\<lambda>_. []) (bucket_array t), nentries := 0\<rparr>),
                concat (bucket_array t)))"

text \<open>
  \<open>hash_walk\<close> calls the callback on each item of each bucket and stops when it returns a
  negative value. The callback's effect is a state it is passed and returns.
\<close>

definition hash_items :: "nat \<Rightarrow> 'd hash_table \<Rightarrow> 'd bucket_contents list" where
  "hash_items bucket table =
     (if int bucket < nbuckets table then bucket_array table ! bucket else [])"

fun walk_chain ::
  "('s \<Rightarrow> 'd bucket_contents \<Rightarrow> 's \<times> int) \<Rightarrow> 'd bucket_contents list \<Rightarrow> 's \<Rightarrow> 's \<times> bool" where
  "walk_chain func [] s = (s, False)"
| "walk_chain func (item # rest) s =
     (case func s item of (s', r) \<Rightarrow> if r < 0 then (s', True) else walk_chain func rest s')"

fun walk_buckets ::
  "('s \<Rightarrow> 'd bucket_contents \<Rightarrow> 's \<times> int) \<Rightarrow> 'd hash_table \<Rightarrow> nat list \<Rightarrow> 's \<Rightarrow> 's" where
  "walk_buckets func t [] s = s"
| "walk_buckets func t (i # is) s =
     (case walk_chain func (hash_items i t) s of
        (s', stop) \<Rightarrow> if stop then s' else walk_buckets func t is s')"

definition hash_walk ::
  "'d hash_table option \<Rightarrow> ('s \<Rightarrow> 'd bucket_contents \<Rightarrow> 's \<times> int) \<Rightarrow> 's \<Rightarrow> 's" where
  "hash_walk table func s =
     (case table of
        None \<Rightarrow> s
      | Some t \<Rightarrow> if HASH_ENTRIES table = 0 then s
                  else walk_buckets func t [0..<nat (nbuckets t)] s)"

subsection \<open>Invariant and abstraction\<close>

text \<open>
  A table is well formed when it has a positive number of buckets that fits an \<^verbatim>\<open>int\<close>, every
  item sits in the bucket its key hashes to and carries that hash, no chain has a key twice,
  and the entry count is the number of items.
\<close>

definition chain_wf :: "'d hash_table \<Rightarrow> nat \<Rightarrow> 'd bucket_contents list \<Rightarrow> bool" where
  "chain_wf t b ch \<longleftrightarrow>
     (\<forall>e \<in> set ch. khash e = hash_string (bkey e) \<and> hash_bucket (bkey e) t = b) \<and>
     distinct (map bkey ch)"

definition hash_wf :: "'d hash_table \<Rightarrow> bool" where
  "hash_wf t \<longleftrightarrow>
     0 < nbuckets t \<and> nbuckets t \<le> INT_MAX \<and>
     length (bucket_array t) = nat (nbuckets t) \<and>
     (\<forall>b < length (bucket_array t). chain_wf t b (bucket_array t ! b)) \<and>
     nentries t = int (length (concat (bucket_array t)))"

definition chain_map :: "'d bucket_contents list \<Rightarrow> string \<rightharpoonup> 'd option" where
  "chain_map ch = map_of (map (\<lambda>e. (bkey e, bdata e)) ch)"

definition hash_abs :: "'d hash_table \<Rightarrow> string \<rightharpoonup> 'd option" where
  "hash_abs t = chain_map (concat (bucket_array t))"

lemma chain_map_simps [simp]:
  "chain_map [] = Map.empty"
  "chain_map (e # ch) = (chain_map ch)(bkey e \<mapsto> bdata e)"
  by (simp_all add: chain_map_def)

lemma chain_map_None: "chain_map ch k = None \<longleftrightarrow> k \<notin> set (map bkey ch)"
  by (auto simp: chain_map_def map_of_map_key_None)

lemma chain_map_append: "chain_map (xs @ ys) = chain_map ys ++ chain_map xs"
  by (simp add: chain_map_def)

lemma hash_bucket_less:
  assumes "0 < nbuckets t" and "nbuckets t \<le> INT_MAX"
  shows "hash_bucket s t < nat (nbuckets t)"
  unfolding hash_bucket_def using assms by (rule unat_and_mask_less)

lemma hash_wf_bucket: "hash_wf t \<Longrightarrow> hash_bucket s t < length (bucket_array t)"
  by (simp add: hash_wf_def hash_bucket_less)

lemma hash_wf_chain: "hash_wf t \<Longrightarrow> b < length (bucket_array t) \<Longrightarrow> chain_wf t b (bucket_array t ! b)"
  by (simp add: hash_wf_def)

text \<open>A key can only be found in its own chain, so the table's map at a key is that chain's.\<close>

lemma other_chain_key:
  assumes "hash_wf t" and "ch \<in> set (take b (bucket_array t)) \<or> ch \<in> set (drop (Suc b) (bucket_array t))"
    and "e \<in> set ch" and "hash_bucket s t = b"
  shows "bkey e \<noteq> s"
proof -
  from assms(2) obtain i where i: "i \<noteq> b" "i < length (bucket_array t)" "ch = bucket_array t ! i"
    by (metis Suc_n_not_le_n less_irrefl set_drop_nth set_take_nth)
  with assms(1,3) have "hash_bucket (bkey e) t = i"
    by (auto dest: hash_wf_chain simp: chain_wf_def)
  with i(1) assms(4) show ?thesis by auto
qed

lemma chain_map_other_None:
  assumes "hash_wf t" and "hash_bucket s t = b"
  shows "chain_map (concat (take b (bucket_array t))) s = None"
    and "chain_map (concat (drop (Suc b) (bucket_array t))) s = None"
  using other_chain_key [OF assms(1) _ _ assms(2)] by (auto simp: chain_map_None)

lemma hash_abs_chain:
  assumes "hash_wf t"
  shows "hash_abs t s = chain_map (bucket_array t ! hash_bucket s t) s"
proof -
  let ?b = "hash_bucket s t"
  have "hash_abs t = chain_map (concat (take ?b (bucket_array t)) @ bucket_array t ! ?b
          @ concat (drop (Suc ?b) (bucket_array t)))"
    unfolding hash_abs_def by (rule arg_cong [OF concat_nth_split [OF hash_wf_bucket [OF assms]]])
  then show ?thesis
    using chain_map_other_None [OF assms refl, of s]
    by (simp add: chain_map_append map_add_def split: option.splits)
qed

subsection \<open>Replacing one chain\<close>

lemma hash_bucket_update [simp]:
  "hash_bucket s (t\<lparr>bucket_array := ba, nentries := n\<rparr>) = hash_bucket s t"
  "hash_bucket s (t\<lparr>bucket_array := ba\<rparr>) = hash_bucket s t"
  by (simp_all add: hash_bucket_def)

lemma chain_wf_update [simp]:
  "chain_wf (t\<lparr>bucket_array := ba, nentries := n\<rparr>) b ch = chain_wf t b ch"
  "chain_wf (t\<lparr>bucket_array := ba\<rparr>) b ch = chain_wf t b ch"
  by (simp_all add: chain_wf_def)

lemma hash_wf_set_chain:
  assumes "hash_wf t" and "b < length (bucket_array t)" and "chain_wf t b ch"
    and "n = nentries t - int (length (bucket_array t ! b)) + int (length ch)"
  shows "hash_wf (t\<lparr>bucket_array := (bucket_array t)[b := ch], nentries := n\<rparr>)"
proof -
  have old: "length (concat (bucket_array t)) = length (concat (take b (bucket_array t)))
      + length (bucket_array t ! b) + length (concat (drop (Suc b) (bucket_array t)))"
    by (subst concat_nth_split [OF assms(2)]) simp
  have new: "length (concat ((bucket_array t)[b := ch])) = length (concat (take b (bucket_array t)))
      + length ch + length (concat (drop (Suc b) (bucket_array t)))"
    by (simp add: concat_update_split [OF assms(2)])
  from assms(1,2,3) have "chain_wf t i ((bucket_array t)[b := ch] ! i)"
    if "i < length (bucket_array t)" for i
    using that by (cases "i = b") (simp_all add: hash_wf_def)
  with assms(1,4) old new show ?thesis by (simp add: hash_wf_def)
qed

lemma hash_abs_set_chain:
  assumes "hash_wf t" and "b < length (bucket_array t)"
    and "hash_wf (t\<lparr>bucket_array := (bucket_array t)[b := ch], nentries := n\<rparr>)"
  shows "hash_abs (t\<lparr>bucket_array := (bucket_array t)[b := ch], nentries := n\<rparr>) k =
         (if hash_bucket k t = b then chain_map ch k else hash_abs t k)"
  using assms hash_abs_chain [OF assms(3), of k] hash_abs_chain [OF assms(1), of k]
  by simp

lemma hash_abs_chain_keys:
  assumes "hash_wf t"
  shows "hash_abs t s = None \<longleftrightarrow> s \<notin> set (map bkey (bucket_array t ! hash_bucket s t))"
  unfolding hash_abs_chain [OF assms] by (rule chain_map_None)

subsection \<open>Chains\<close>

abbreviation hashed :: "'d bucket_contents list \<Rightarrow> bool" where
  "hashed ch \<equiv> \<forall>e \<in> set ch. khash e = hash_string (bkey e)"

lemma chain_find_None:
  "hashed ch \<Longrightarrow> chain_find (hash_string s) s ch = None \<longleftrightarrow> s \<notin> set (map bkey ch)"
  by (induction ch) auto

lemma chain_find_Some:
  "hashed ch \<Longrightarrow> chain_find (hash_string s) s ch = Some j \<Longrightarrow>
   j < length ch \<and> bkey (ch ! j) = s \<and> chain_map ch s = Some (bdata (ch ! j))"
proof (induction ch arbitrary: j)
  case (Cons e ch)
  show ?case
  proof (cases "bkey e = s")
    case False
    with Cons.prems obtain i where "chain_find (hash_string s) s ch = Some i" "j = Suc i" by auto
    with Cons False show ?thesis by simp
  qed (use Cons.prems in simp)
qed simp

lemma chain_unlink_None:
  "hashed ch \<Longrightarrow> chain_unlink (hash_string s) s ch = None \<longleftrightarrow> s \<notin> set (map bkey ch)"
  by (induction ch) auto

lemma chain_unlink_Some:
  assumes "chain_unlink (hash_string s) s ch = Some (r, ch')" and "hashed ch" and "distinct (map bkey ch)"
  shows "bkey r = s \<and> chain_map ch s = Some (bdata r) \<and> length ch = Suc (length ch')
    \<and> set ch' \<subseteq> set ch \<and> distinct (map bkey ch') \<and> chain_map ch' = (chain_map ch)(s := None)"
  using assms
proof (induction ch arbitrary: ch')
  case (Cons e ch)
  show ?case
  proof (cases "bkey e = s")
    case True
    then have "r = e" "ch' = ch" using Cons.prems by auto
    moreover have "chain_map ch s = None" using True Cons.prems by (simp add: chain_map_None)
    ultimately show ?thesis using True Cons.prems by (auto simp: fun_eq_iff)
  next
    case False
    with Cons.prems obtain ch'' where
      ch'': "chain_unlink (hash_string s) s ch = Some (r, ch'')" "ch' = e # ch''"
      by auto
    from Cons.IH [OF ch''(1)] Cons.prems ch''(2) False show ?thesis by (auto simp: fun_upd_twist)
  qed
qed simp

lemma chain_map_update_data:
  assumes "distinct (map bkey ch)" and "j < length ch" and "bkey (f (ch ! j)) = bkey (ch ! j)"
  shows "chain_map (ch[j := f (ch ! j)]) = (chain_map ch)(bkey (ch ! j) \<mapsto> bdata (f (ch ! j)))"
  using assms
proof (induction ch arbitrary: j)
  case (Cons e ch)
  show ?case
  proof (cases j)
    case (Suc i)
    with Cons.prems have i: "i < length ch" "distinct (map bkey ch)" "bkey (f (ch ! i)) = bkey (ch ! i)"
      by auto
    from i(1) have "ch ! i \<in> set ch" by simp
    then have "bkey (ch ! i) \<in> bkey ` set ch" by (rule imageI)
    with Cons.prems(1) have "bkey (ch ! i) \<noteq> bkey e" by fastforce
    with Cons.IH [OF i(2,1,3)] Suc show ?thesis by (auto simp: fun_eq_iff)
  qed (use Cons in \<open>auto simp: fun_eq_iff\<close>)
qed simp

lemma keys_update_data:
  "j < length ch \<Longrightarrow> bkey e = bkey (ch ! j) \<Longrightarrow> map bkey (ch[j := e]) = map bkey ch"
  by (simp add: map_update list_update_same_conv)

subsection \<open>Updating an item in place\<close>

definition valid_loc :: "'d hash_table \<Rightarrow> item_loc \<Rightarrow> bool" where
  "valid_loc t loc \<longleftrightarrow>
     fst loc < length (bucket_array t) \<and> snd loc < length (bucket_array t ! fst loc)"

lemma upd_item_set_chain:
  "upd_item loc f t =
     t\<lparr>bucket_array := (bucket_array t)[fst loc := (bucket_array t ! fst loc)
          [snd loc := f (bucket_array t ! fst loc ! snd loc)]], nentries := nentries t\<rparr>"
  by (simp add: upd_item_def Let_def)

lemma hash_wf_upd_item:
  assumes "hash_wf t" and "valid_loc t loc"
    and "bkey (f (item_at t loc)) = bkey (item_at t loc)"
    and "khash (f (item_at t loc)) = khash (item_at t loc)"
  shows "hash_wf (upd_item loc f t)"
proof -
  let ?b = "fst loc" and ?j = "snd loc"
  let ?ch = "bucket_array t ! ?b"
  have wf: "chain_wf t ?b ?ch" using assms(1,2) by (simp add: hash_wf_chain valid_loc_def)
  have "?ch ! ?j \<in> set ?ch" using assms(2) by (simp add: valid_loc_def)
  with wf have it: "khash (?ch ! ?j) = hash_string (bkey (?ch ! ?j))" "hash_bucket (bkey (?ch ! ?j)) t = ?b"
    by (auto simp: chain_wf_def)
  have "chain_wf t ?b (?ch[?j := f (?ch ! ?j)])"
    using wf it assms(2-4)
    by (auto simp: chain_wf_def item_at_def valid_loc_def keys_update_data
        dest: set_update_subset_insert [THEN subsetD])
  then show ?thesis
    unfolding upd_item_set_chain
    using assms(1,2) by (intro hash_wf_set_chain) (simp_all add: valid_loc_def)
qed

lemma hash_abs_upd_item:
  assumes "hash_wf t" and "valid_loc t loc"
    and "bkey (f (item_at t loc)) = bkey (item_at t loc)"
    and "khash (f (item_at t loc)) = khash (item_at t loc)"
  shows "hash_abs (upd_item loc f t) = (hash_abs t)(bkey (item_at t loc) \<mapsto> bdata (f (item_at t loc)))"
proof
  fix k
  let ?b = "fst loc" and ?j = "snd loc"
  let ?ch = "bucket_array t ! ?b"
  have wf: "chain_wf t ?b ?ch" and b: "?b < length (bucket_array t)" and j: "?j < length ?ch"
    using assms(1,2) by (simp_all add: hash_wf_chain valid_loc_def)
  then have hb: "hash_bucket (bkey (?ch ! ?j)) t = ?b" by (simp add: chain_wf_def)
  have cm: "chain_map (?ch[?j := f (?ch ! ?j)]) = (chain_map ?ch)(bkey (?ch ! ?j) \<mapsto> bdata (f (?ch ! ?j)))"
    using wf j assms(3) by (intro chain_map_update_data) (simp_all add: chain_wf_def item_at_def)
  have "hash_abs (upd_item loc f t) k =
      (if hash_bucket k t = ?b then chain_map (?ch[?j := f (?ch ! ?j)]) k else hash_abs t k)"
    using hash_abs_set_chain [OF assms(1) b, where ch = "?ch[?j := f (?ch ! ?j)]" and n = "nentries t" and k = k]
      hash_wf_upd_item [where f = f, OF assms] by (simp add: upd_item_set_chain)
  then show "hash_abs (upd_item loc f t) k =
      ((hash_abs t)(bkey (item_at t loc) \<mapsto> bdata (f (item_at t loc)))) k"
    using hb by (auto simp: cm item_at_def hash_abs_chain [OF assms(1)])
qed

lemma item_at_abs:
  assumes "hash_wf t" and "valid_loc t loc"
  shows "hash_abs t (bkey (item_at t loc)) = Some (bdata (item_at t loc))"
proof -
  have "hash_abs (upd_item loc id t) = hash_abs t" by (simp add: upd_item_def Let_def)
  with hash_abs_upd_item [OF assms, of id] show ?thesis by (metis fun_upd_same id_apply)
qed

lemma upd_item_valid_loc [simp]: "valid_loc (upd_item loc f t) loc' = valid_loc t loc'"
  by (cases "fst loc' = fst loc"; cases "fst loc < length (bucket_array t)")
    (simp_all add: valid_loc_def upd_item_def Let_def)

lemma item_at_upd_item [simp]: "valid_loc t loc \<Longrightarrow> item_at (upd_item loc f t) loc = f (item_at t loc)"
  by (simp add: item_at_def upd_item_def valid_loc_def Let_def)

lemma nbuckets_upd_item [simp]: "nbuckets (upd_item loc f t) = nbuckets t" "nentries (upd_item loc f t) = nentries t"
  by (simp_all add: upd_item_def Let_def)

lemma push_item_correct:
  assumes "hash_wf t" and "hash_abs t s = None"
  shows "hash_wf (push_item s t)" and "hash_abs (push_item s t) = (hash_abs t)(s \<mapsto> None)"
    and "valid_loc (push_item s t) (hash_bucket s t, 0)"
    and "item_at (push_item s t) (hash_bucket s t, 0) = new_item s (hash_string s)"
proof -
  let ?b = "hash_bucket s t"
  let ?ch = "bucket_array t ! ?b"
  let ?ch' = "new_item s (hash_string s) # ?ch"
  have b: "?b < length (bucket_array t)" using assms(1) by (rule hash_wf_bucket)
  have wf: "chain_wf t ?b ?ch'"
    using hash_wf_chain [OF assms(1) b] assms(2) hash_abs_chain_keys [OF assms(1)]
    by (auto simp: chain_wf_def new_item_def)
  have eq: "push_item s t = t\<lparr>bucket_array := (bucket_array t)[?b := ?ch'], nentries := nentries t + 1\<rparr>"
    by (simp add: push_item_def Let_def)
  show w: "hash_wf (push_item s t)" unfolding eq
    using hash_wf_set_chain [OF assms(1) b wf] by simp
  show "hash_abs (push_item s t) = (hash_abs t)(s \<mapsto> None)"
  proof
    fix k
    show "hash_abs (push_item s t) k = ((hash_abs t)(s \<mapsto> None)) k"
      using w hash_abs_set_chain [OF assms(1) b, where ch = ?ch' and n = "nentries t + 1" and k = k]
      by (auto simp: eq new_item_def hash_abs_chain [OF assms(1)])
  qed
  show "valid_loc (push_item s t) (?b, 0)" using b by (simp add: eq valid_loc_def)
  show "item_at (push_item s t) (?b, 0) = new_item s (hash_string s)"
    using b by (simp add: eq item_at_def)
qed

subsection \<open>Counts of hits\<close>

text \<open>
  The second thing a table stores with a key, the number of searches that found it. The lemmas on
  the data of a table carry over by looking at the table in which the counts are the data.
\<close>

definition hash_hits :: "'d hash_table \<Rightarrow> string \<rightharpoonup> 32 word" where
  "hash_hits t = map_of (map (\<lambda>e. (bkey e, times_found e)) (concat (bucket_array t)))"

definition counted :: "'d bucket_contents \<Rightarrow> 32 word bucket_contents" where
  "counted e = \<lparr>bkey = bkey e, bdata = Some (times_found e), khash = khash e, times_found = times_found e\<rparr>"

definition counted_table :: "'d hash_table \<Rightarrow> 32 word hash_table" where
  "counted_table t = \<lparr>bucket_array = map (map counted) (bucket_array t), nbuckets = nbuckets t, nentries = nentries t\<rparr>"

lemma counted_simps [simp]:
  "bkey (counted e) = bkey e" "bdata (counted e) = Some (times_found e)" "khash (counted e) = khash e"
  "times_found (counted e) = times_found e"
  "nbuckets (counted_table t) = nbuckets t" "nentries (counted_table t) = nentries t"
  "bucket_array (counted_table t) = map (map counted) (bucket_array t)"
  "hash_bucket s (counted_table t) = hash_bucket s t"
  by (simp_all add: counted_def counted_table_def hash_bucket_def)

lemma counted_wf: "hash_wf t \<Longrightarrow> hash_wf (counted_table t)"
  by (auto simp: hash_wf_def chain_wf_def length_concat comp_def)

lemma counted_chain: "chain_map (map counted es) k = map_option Some (map_of (map (\<lambda>e. (bkey e, times_found e)) es) k)"
  by (induction es) auto

lemma counted_abs: "hash_abs (counted_table t) k = map_option Some (hash_hits t k)"
  by (simp add: hash_abs_def hash_hits_def map_concat [symmetric] counted_chain)

lemma hits_eqI: "(\<And>k. hash_abs (counted_table t) k = map_option Some (m k)) \<Longrightarrow> hash_hits t = m"
  using counted_abs [of t] by (metis ext option.inj_map_strong option.inject)

lemma counted_loc: "valid_loc (counted_table t) loc \<longleftrightarrow> valid_loc t loc"
  and counted_item: "valid_loc t loc \<Longrightarrow> item_at (counted_table t) loc = counted (item_at t loc)"
  by (auto simp: valid_loc_def item_at_def)

lemma hits_none: "hash_hits t k = None \<longleftrightarrow> hash_abs t k = None"
  by (auto simp: hash_hits_def hash_abs_def chain_map_def map_of_map_key_None)

lemma hits_hit:
  assumes "hash_wf t" and "valid_loc t loc"
  shows "hash_hits (upd_item loc (\<lambda>b. b\<lparr>times_found := times_found b + 1\<rparr>) t) =
    (hash_hits t)(bkey (item_at t loc) \<mapsto> the (hash_hits t (bkey (item_at t loc))) + 1)"
proof (rule hits_eqI)
  fix k
  let ?f = "\<lambda>b :: 'a bucket_contents. b\<lparr>times_found := times_found b + 1\<rparr>"
  let ?g = "\<lambda>b :: 32 word bucket_contents. b\<lparr>bdata := Some (times_found b + 1), times_found := times_found b + 1\<rparr>"
  note wf = counted_wf [OF assms(1)] and loc = counted_loc [THEN iffD2, OF assms(2)]
  have "counted_table (upd_item loc ?f t) = upd_item loc ?g (counted_table t)"
    using assms(2) by (simp add: upd_item_def Let_def counted_table_def valid_loc_def map_update counted_def)
  then show "hash_abs (counted_table (upd_item loc ?f t)) k =
      map_option Some (((hash_hits t)(bkey (item_at t loc) \<mapsto> the (hash_hits t (bkey (item_at t loc))) + 1)) k)"
    using hash_abs_upd_item [OF wf loc, of ?g] item_at_abs [OF wf loc] counted_item [OF assms(2)]
    by (auto simp: counted_abs)
qed

lemma hits_push:
  assumes "hash_wf t" and "hash_abs t s = None"
  shows "hash_hits (push_item s t) = (hash_hits t)(s \<mapsto> 0)"
proof (rule hits_eqI)
  fix k
  let ?g = "\<lambda>b :: 32 word bucket_contents. b\<lparr>bdata := Some 0\<rparr>" and ?b = "hash_bucket s t"
  have b: "?b < length (bucket_array t)" using assms(1) by (rule hash_wf_bucket)
  have "hash_abs (counted_table t) s = None" using assms(2) by (simp add: counted_abs hits_none)
  note p = push_item_correct [OF counted_wf [OF assms(1)] this]
  have "counted_table (push_item s t) = upd_item (?b, 0) ?g (push_item s (counted_table t))"
    using b by (simp add: push_item_def upd_item_def Let_def counted_table_def map_update new_item_def counted_def hash_bucket_def)
  then show "hash_abs (counted_table (push_item s t)) k = map_option Some (((hash_hits t)(s \<mapsto> 0)) k)"
    using hash_abs_upd_item [OF p(1) p(3) [simplified], of ?g] p(2,4) by (auto simp: counted_abs new_item_def)
qed

subsection \<open>Searching, inserting, removing, flushing\<close>

lemma hash_wf_nentries:
  assumes "hash_wf t" and "nentries t = 0"
  shows "hash_abs t = Map.empty" and "bucket_array t = map (\<lambda>_. []) (bucket_array t)"
proof -
  have "concat (bucket_array t) = []" using assms by (simp add: hash_wf_def)
  then show "hash_abs t = Map.empty" by (simp only: hash_abs_def chain_map_simps)
  from \<open>concat (bucket_array t) = []\<close> show "bucket_array t = map (\<lambda>_. []) (bucket_array t)"
    by (intro map_idI [symmetric]) auto
qed

lemma chain_find_abs:
  assumes "hash_wf t"
  shows "chain_find (hash_string s) s (bucket_array t ! hash_bucket s t) = None \<longleftrightarrow> hash_abs t s = None"
  unfolding hash_abs_chain_keys [OF assms]
  using hash_wf_chain [OF assms hash_wf_bucket [OF assms]] by (intro chain_find_None) (simp add: chain_wf_def)

lemma chain_find_loc:
  assumes "hash_wf t" and "chain_find (hash_string s) s (bucket_array t ! hash_bucket s t) = Some j"
  shows "valid_loc t (hash_bucket s t, j)" and "bkey (item_at t (hash_bucket s t, j)) = s"
  using chain_find_Some [OF _ assms(2)] hash_wf_chain [OF assms(1) hash_wf_bucket [OF assms(1)]]
    hash_wf_bucket [OF assms(1)]
  by (simp_all add: chain_wf_def valid_loc_def item_at_def)

text \<open>
  What a search does to the table and what its result points at: a found entry is returned
  with its count of uses raised; a missing one is created, with null data, exactly when the
  caller asked for it.
\<close>

lemma hash_search_found:
  assumes "hash_wf t" and "hash_abs t s = Some d"
  obtains t' loc where "hash_search s (Some t) flags = (Some t', Some loc)"
    and "hash_wf t'" and "hash_abs t' = hash_abs t" and "valid_loc t' loc"
    and "bkey (item_at t' loc) = s" and "bdata (item_at t' loc) = d"
    and "hash_hits t' = (hash_hits t)(s \<mapsto> the (hash_hits t s) + 1)"
proof -
  let ?b = "hash_bucket s t"
  let ?inc = "\<lambda>b :: 'a bucket_contents. b\<lparr>times_found := times_found b + 1\<rparr>"
  from assms chain_find_abs [OF assms(1), of s] obtain j where
    j: "chain_find (hash_string s) s (bucket_array t ! ?b) = Some j" by auto
  note loc = chain_find_loc [OF assms(1) j]
  have "nentries t \<noteq> 0" using assms hash_wf_nentries(1) [OF assms(1)] by auto
  then have eq: "hash_search s (Some t) flags = (Some (upd_item (?b, j) ?inc t), Some (?b, j))"
    using j by (simp add: hash_search_def HASH_ENTRIES_def Let_def)
  have abs: "hash_abs (upd_item (?b, j) ?inc t) = (hash_abs t)(s \<mapsto> bdata (item_at t (?b, j)))"
    using hash_abs_upd_item [OF assms(1) loc(1), of ?inc] loc(2) by simp
  have d: "bdata (item_at t (?b, j)) = d"
    using item_at_abs [OF assms(1) loc(1)] loc(2) assms(2) by simp
  show ?thesis
    by (rule that [OF eq]) (use assms loc d abs hash_wf_upd_item [OF assms(1) loc(1), of ?inc] hits_hit [OF assms(1) loc(1)]
        in \<open>simp_all add: fun_upd_idem\<close>)
qed

lemma hash_search_absent:
  assumes "hash_wf t" and "hash_abs t s = None"
  shows "hash_search s (Some t) flags =
    (if flags AND HASH_CREATE \<noteq> 0 then (Some (push_item s t), Some (hash_bucket s t, 0))
     else (Some t, None))"
  using chain_find_abs [OF assms(1), of s] assms(2) by (simp add: hash_search_def)

lemma hash_remove_correct:
  assumes "hash_wf t"
  obtains t' where "hash_remove s (Some t) flags =
      (Some t', map_option (\<lambda>d. the (snd (hash_remove s (Some t) flags))) (hash_abs t s))"
    and "hash_wf t'" and "hash_abs t' = (hash_abs t)(s := None)"
    and "nentries t' = nentries t - (if hash_abs t s = None then 0 else 1)"
proof (cases "hash_abs t s")
  case None
  then have "chain_unlink (hash_string s) s (bucket_array t ! hash_bucket s t) = None"
    using hash_abs_chain_keys [OF assms, of s] hash_wf_chain [OF assms hash_wf_bucket [OF assms]]
    by (simp add: chain_unlink_None chain_wf_def)
  then have "hash_remove s (Some t) flags = (Some t, None)" by (simp add: hash_remove_def)
  then show ?thesis using None assms by (intro that [of t]) (simp_all add: fun_upd_idem)
next
  case (Some d)
  let ?b = "hash_bucket s t"
  let ?ch = "bucket_array t ! ?b"
  have b: "?b < length (bucket_array t)" using assms by (rule hash_wf_bucket)
  have wf: "chain_wf t ?b ?ch" using assms b by (rule hash_wf_chain)
  then have h: "hashed ?ch" "distinct (map bkey ?ch)" by (simp_all add: chain_wf_def)
  with Some hash_abs_chain_keys [OF assms, of s] obtain r ch' where
    u: "chain_unlink (hash_string s) s ?ch = Some (r, ch')"
    by (metis chain_unlink_None not_None_eq option.exhaust surj_pair)
  note cu = chain_unlink_Some [OF u h]
  let ?t' = "t\<lparr>bucket_array := (bucket_array t)[?b := ch'], nentries := nentries t - 1\<rparr>"
  have wf': "hash_wf ?t'"
    using cu wf by (intro hash_wf_set_chain [OF assms b]) (auto simp: chain_wf_def)
  have "nentries t \<noteq> 0" using Some hash_wf_nentries(1) [OF assms] by auto
  then have eq: "hash_remove s (Some t) flags = (Some ?t', Some r)"
    using u by (simp add: hash_remove_def HASH_ENTRIES_def)
  have "hash_abs ?t' k = ((hash_abs t)(s := None)) k" for k
    using hash_abs_set_chain [OF assms b wf', of k] cu by (auto simp: hash_abs_chain [OF assms])
  then show ?thesis using eq wf' Some by (intro that [of ?t']) auto
qed

lemma hash_remove_item:
  assumes "hash_wf t" and "snd (hash_remove s (Some t) flags) = Some b"
  shows "bkey b = s" and "hash_abs t s = Some (bdata b)"
proof -
  let ?ch = "bucket_array t ! hash_bucket s t"
  have h: "hashed ?ch" "distinct (map bkey ?ch)"
    using hash_wf_chain [OF assms(1) hash_wf_bucket [OF assms(1)], of s] by (simp_all add: chain_wf_def)
  from assms(2) obtain ch' where "chain_unlink (hash_string s) s ?ch = Some (b, ch')"
    by (auto simp: hash_remove_def Let_def split: if_splits option.splits)
  from chain_unlink_Some [OF this h] show "bkey b = s" "hash_abs t s = Some (bdata b)"
    by (simp_all add: hash_abs_chain [OF assms(1)])
qed

lemma hash_create_wf:
  assumes "0 \<le> n" and "n \<le> INT_MAX"
  shows "hash_wf (hash_create n)" and "hash_abs (hash_create n) = Map.empty"
proof -
  show "hash_wf (hash_create n)"
    using assms by (auto simp: hash_wf_def hash_create_def chain_wf_def cdefs Let_def)
  then show "hash_abs (hash_create n) = Map.empty"
    by (intro hash_wf_nentries(1)) (simp_all add: hash_create_def Let_def)
qed

lemma hash_flush_correct:
  assumes "hash_wf t"
  obtains t' where "fst (hash_flush (Some t)) = Some t'"
    and "hash_wf t'" and "hash_abs t' = Map.empty" and "nentries t' = 0"
    and "snd (hash_flush (Some t)) = concat (bucket_array t)"
proof -
  let ?t' = "t\<lparr>bucket_array := map (\<lambda>_. []) (bucket_array t), nentries := 0\<rparr>"
  have "hash_wf ?t'" using assms by (auto simp: hash_wf_def chain_wf_def)
  moreover have "hash_abs ?t' = Map.empty" using \<open>hash_wf ?t'\<close> by (simp add: hash_wf_nentries(1))
  moreover have "nentries t = 0 \<Longrightarrow> ?t' = t" using hash_wf_nentries(2) [OF assms] by simp
  moreover have "nentries t = 0 \<Longrightarrow> concat (bucket_array t) = []" using assms by (simp add: hash_wf_def)
  ultimately show ?thesis
    by (cases "nentries t = 0") (auto intro!: that [of ?t'] simp: hash_flush_def HASH_ENTRIES_def)
qed

lemma copy_bucket_array_map:
  "copy_bucket_array ch cp = map (\<lambda>e. e\<lparr>bdata := map_option (case cp of None \<Rightarrow> id | Some f \<Rightarrow> f) (bdata e)\<rparr>) ch"
  by (induction ch) (auto split: option.splits)

lemma hash_copy_wf:
  assumes "hash_wf t"
  obtains t' where "hash_copy (Some t) cp = Some t'" and "hash_wf t'"
    and "hash_abs t' = map_option (map_option (case cp of None \<Rightarrow> id | Some f \<Rightarrow> f)) \<circ> hash_abs t"
proof -
  let ?f = "\<lambda>e. e\<lparr>bdata := map_option (case cp of None \<Rightarrow> id | Some f \<Rightarrow> f) (bdata e)\<rparr>"
  let ?t' = "t\<lparr>bucket_array := map (map ?f) (bucket_array t), nentries := nentries t\<rparr>"
  have eq: "hash_copy (Some t) cp = Some ?t'"
    using assms by (simp add: hash_copy_def hash_create_def copy_bucket_array_map hash_wf_def Let_def)
  have "chain_wf t b (map ?f ch)" if "chain_wf t b ch" for b ch
    using that by (auto simp: chain_wf_def comp_def)
  with assms have wf: "hash_wf ?t'" by (simp add: hash_wf_def length_concat comp_def)
  have "chain_map (map ?f ch) k = map_option (map_option (case cp of None \<Rightarrow> id | Some f \<Rightarrow> f)) (chain_map ch k)" for ch k
    by (induction ch) auto
  then have "hash_abs ?t' = map_option (map_option (case cp of None \<Rightarrow> id | Some f \<Rightarrow> f)) \<circ> hash_abs t"
    by (auto simp: hash_abs_def map_concat [symmetric] comp_def fun_eq_iff)
  with eq wf show ?thesis by (rule that)
qed

lemma walk_buckets_concat:
  "walk_buckets f t is s = fst (walk_chain f (concat (map (\<lambda>i. hash_items i t) is)) s)"
proof (induction "is" arbitrary: s)
  case (Cons i "is")
  have "walk_chain f (xs @ ys) s =
      (case walk_chain f xs s of (s', stop) \<Rightarrow> if stop then (s', True) else walk_chain f ys s')" for xs ys s
    by (induction xs arbitrary: s) (auto split: prod.splits)
  with Cons show ?case by (auto split: prod.splits)
qed simp

lemma hash_walk_concat:
  assumes "hash_wf t"
  shows "hash_walk (Some t) f s = fst (walk_chain f (concat (bucket_array t)) s)"
proof -
  have "map (\<lambda>i. hash_items i t) [0..<nat (nbuckets t)] = bucket_array t"
    using assms by (intro nth_equalityI) (auto simp: hash_wf_def hash_items_def)
  then have "hash_walk (Some t) f s = (if nentries t = 0 then s else fst (walk_chain f (concat (bucket_array t)) s))"
    by (simp add: hash_walk_def HASH_ENTRIES_def walk_buckets_concat)
  moreover have "walk_chain f (concat (bucket_array t)) s = (s, False)" if "nentries t = 0"
  proof -
    have "concat (bucket_array t) = []" using that assms by (simp add: hash_wf_def)
    then show ?thesis by (simp only: walk_chain.simps)
  qed
  ultimately show ?thesis by simp
qed

lemma hash_search_spec:
  assumes "hash_wf t"
  shows "\<exists>t'. fst (hash_search s (Some t) flags) = Some t' \<and> hash_wf t' \<and>
    hash_abs t' = (if flags AND HASH_CREATE \<noteq> 0 \<and> hash_abs t s = None
                   then (hash_abs t)(s \<mapsto> None) else hash_abs t) \<and>
    (case snd (hash_search s (Some t) flags) of
       None \<Rightarrow> flags AND HASH_CREATE = 0 \<and> hash_abs t s = None
     | Some loc \<Rightarrow> valid_loc t' loc \<and> bkey (item_at t' loc) = s \<and>
                   hash_abs t' s = Some (bdata (item_at t' loc))) \<and>
    hash_hits t' = (case hash_hits t s of
       Some n \<Rightarrow> (hash_hits t)(s \<mapsto> n + 1)
     | None \<Rightarrow> if flags AND HASH_CREATE \<noteq> 0 then (hash_hits t)(s \<mapsto> 0) else hash_hits t)"
proof (cases "hash_abs t s")
  case None
  show ?thesis
  proof (cases "flags AND HASH_CREATE = 0")
    case True
    with None assms show ?thesis by (simp add: hash_search_absent hits_none [THEN iffD2])
  next
    case False
    with None assms push_item_correct [OF assms None] show ?thesis
      by (simp add: hash_search_absent new_item_def hits_none [THEN iffD2] hits_push)
  qed
next
  case (Some d)
  obtain n where n: "hash_hits t s = Some n" using hits_none [of t s] Some by auto
  show ?thesis
    by (rule hash_search_found [OF assms Some, where flags = flags]) (use Some n in auto)
qed

text \<open>Entering a key and storing its data, as the clients of the tables do.\<close>

lemma hash_search_store:
  assumes "hash_wf t"
  obtains t' loc where "hash_search s (Some t) HASH_CREATE = (Some t', Some loc)"
    and "hash_wf (upd_item loc (\<lambda>b. b\<lparr>bdata := d\<rparr>) t')"
    and "hash_abs (upd_item loc (\<lambda>b. b\<lparr>bdata := d\<rparr>) t') = (hash_abs t)(s \<mapsto> d)"
    and "bdata (item_at t' loc) = (case hash_abs t s of None \<Rightarrow> None | Some x \<Rightarrow> x)"
proof -
  let ?r = "hash_search s (Some t) HASH_CREATE"
  have c: "HASH_CREATE AND HASH_CREATE \<noteq> 0" by (simp add: HASH_CREATE_def)
  from hash_search_spec [OF assms, of s HASH_CREATE] obtain t' where t': "fst ?r = Some t'" "hash_wf t'"
    and ab: "hash_abs t' = (if hash_abs t s = None then (hash_abs t)(s \<mapsto> None) else hash_abs t)"
    and cs: "case snd ?r of None \<Rightarrow> False
     | Some loc \<Rightarrow> valid_loc t' loc \<and> bkey (item_at t' loc) = s \<and> hash_abs t' s = Some (bdata (item_at t' loc))"
    using c by (auto split: option.splits)
  from cs obtain loc where loc: "snd ?r = Some loc" "valid_loc t' loc" "bkey (item_at t' loc) = s"
    "hash_abs t' s = Some (bdata (item_at t' loc))" by (auto split: option.splits)
  have "hash_abs (upd_item loc (\<lambda>b. b\<lparr>bdata := d\<rparr>) t') = (hash_abs t)(s \<mapsto> d)"
    using hash_abs_upd_item [OF t'(2) loc(2), of "\<lambda>b. b\<lparr>bdata := d\<rparr>"] loc(3) ab by (auto split: if_splits)
  moreover have "hash_wf (upd_item loc (\<lambda>b. b\<lparr>bdata := d\<rparr>) t')"
    by (rule hash_wf_upd_item [OF t'(2) loc(2)]) simp_all
  moreover have "bdata (item_at t' loc) = (case hash_abs t s of None \<Rightarrow> None | Some x \<Rightarrow> x)"
    using loc(4) ab by (auto split: if_splits option.splits)
  moreover have "?r = (Some t', Some loc)" using t'(1) loc(1) by (simp add: prod_eq_iff)
  ultimately show ?thesis using that by blast
qed

subsection \<open>Properties\<close>

text \<open>
  C9. Searching refines the map: on a well-formed table \<open>hash_search\<close> returns a well-formed
  table; without \<open>HASH_CREATE\<close> the map is unchanged, with it a missing key is entered with null
  data; the result is null exactly when the key is missing and was not to be created, and
  otherwise points at the item that holds the key and the data the new map gives for it. The
  counts of hits: that of a key that is found goes up by one (in an \<^verbatim>\<open>int\<close> that wraps), a created
  entry starts with zero, and all others stay.
\<close>

theorem hash_search_refines:
  assumes "hash_wf t"
  shows "\<exists>t'. fst (hash_search s (Some t) flags) = Some t' \<and> hash_wf t' \<and>
    hash_abs t' = (if flags AND HASH_CREATE \<noteq> 0 \<and> hash_abs t s = None
                   then (hash_abs t)(s \<mapsto> None) else hash_abs t) \<and>
    (case snd (hash_search s (Some t) flags) of
       None \<Rightarrow> flags AND HASH_CREATE = 0 \<and> hash_abs t s = None
     | Some loc \<Rightarrow> valid_loc t' loc \<and> bkey (item_at t' loc) = s \<and>
                   hash_abs t' s = Some (bdata (item_at t' loc))) \<and>
    hash_hits t' = (case hash_hits t s of
       Some n \<Rightarrow> (hash_hits t)(s \<mapsto> n + 1)
     | None \<Rightarrow> if flags AND HASH_CREATE \<noteq> 0 then (hash_hits t)(s \<mapsto> 0) else hash_hits t)"
  by (rule hash_search_spec [OF assms])

theorem hash_search_refines_witness:
  "hash_wf (hash_create 4 :: string hash_table) \<and>
   (\<exists>t'. fst (hash_search ''PATH'' (Some (hash_create 4 :: string hash_table)) HASH_CREATE) = Some t' \<and>
     hash_wf t' \<and> hash_abs t' ''PATH'' = Some None \<and> hash_hits t' ''PATH'' = Some 0 \<and>
     (\<exists>t''. fst (hash_search ''PATH'' (Some t') 0) = Some t'' \<and> hash_hits t'' ''PATH'' = Some 1))"
proof -
  let ?t = "hash_create 4 :: string hash_table"
  have wf: "hash_wf ?t" and ab: "hash_abs ?t = Map.empty" by (rule hash_create_wf; simp add: INT_MAX_def)+
  then have none: "hash_hits ?t ''PATH'' = None" by (simp add: hits_none)
  from hash_search_refines [OF wf, of "''PATH''" HASH_CREATE] obtain t' where
    t': "fst (hash_search ''PATH'' (Some ?t) HASH_CREATE) = Some t'" "hash_wf t'" "hash_abs t' ''PATH'' = Some None"
      "hash_hits t' ''PATH'' = Some 0" by (auto simp: ab none HASH_CREATE_def)
  from hash_search_refines [OF t'(2), of "''PATH''" 0] obtain t'' where
    "fst (hash_search ''PATH'' (Some t') 0) = Some t''" "hash_hits t'' ''PATH'' = Some 1" by (auto simp: t'(4))
  with t' wf show ?thesis by blast
qed

text \<open>
  C10. Removing refines deletion: \<open>hash_remove\<close> leaves a well-formed table whose map lacks the key
  and is otherwise unchanged, lowers the entry count exactly when the key was present, and
  returns the removed item, with the key and its data, exactly in that case.
\<close>

theorem hash_remove_refines:
  assumes "hash_wf t"
  shows "\<exists>t'. fst (hash_remove s (Some t) flags) = Some t' \<and> hash_wf t' \<and>
    hash_abs t' = (hash_abs t)(s := None) \<and>
    nentries t' = nentries t - (if hash_abs t s = None then 0 else 1) \<and>
    (case snd (hash_remove s (Some t) flags) of
       None \<Rightarrow> hash_abs t s = None
     | Some b \<Rightarrow> bkey b = s \<and> hash_abs t s = Some (bdata b))"
  by (rule hash_remove_correct [OF assms, of s flags])
    (auto split: option.splits dest: hash_remove_item [OF assms])

theorem hash_remove_refines_witness:
  "\<exists>t'. fst (hash_remove ''x'' (Some (push_item ''x'' (hash_create 2 :: string hash_table))) 0) = Some t' \<and>
     hash_wf t' \<and> hash_abs t' ''x'' = None \<and> nentries t' = 0"
proof -
  let ?t = "hash_create 2 :: string hash_table"
  have e: "hash_wf ?t" "hash_abs ?t = Map.empty" by (rule hash_create_wf; simp add: INT_MAX_def)+
  then have "hash_abs ?t ''x'' = None" by simp
  note p = push_item_correct [OF e(1) this]
  have "nentries (push_item ''x'' ?t) = 1" by (simp add: push_item_def hash_create_def Let_def)
  with hash_remove_refines [OF p(1), of "''x''" 0] p(2) show ?thesis by auto
qed

text \<open>
  The bucket index never leaves the bucket array, for every positive number of buckets, and
  when that number is a power of two (as the header requires) it is the hash value modulo the
  number of buckets, so every bucket can be reached.
\<close>

lemma hash_bucket_index:
  assumes "0 < nbuckets t" and "nbuckets t \<le> INT_MAX"
  shows "hash_bucket s t < nat (nbuckets t) \<and>
    (\<forall>k. nbuckets t = 2 ^ k \<longrightarrow> hash_bucket s t = unat (hash_string s) mod 2 ^ k)"
proof (intro conjI allI impI)
  show "hash_bucket s t < nat (nbuckets t)" using assms by (rule hash_bucket_less)
next
  fix k :: nat assume k: "nbuckets t = 2 ^ k"
  have "word_of_int (2 ^ k - 1) = (mask k :: 32 word)"
    by (simp add: mask_eq_exp_minus_1)
  then show "hash_bucket s t = unat (hash_string s) mod 2 ^ k"
    unfolding hash_bucket_def k
    by (simp only: take_bit_eq_mask [symmetric] unsigned_take_bit_eq) (simp add: take_bit_eq_mod)
qed

lemma hash_bucket_index_at:
  "hash_bucket ''ls'' (hash_create 0 :: string hash_table) < 64 \<and>
   hash_bucket ''ls'' (hash_create 0 :: string hash_table) = unat (hash_string ''ls'') mod 2 ^ 6"
proof -
  have n: "nbuckets (hash_create 0 :: string hash_table) = 2 ^ 6"
    by (simp add: hash_create_def cdefs Let_def)
  then have pos: "0 < nbuckets (hash_create 0 :: string hash_table)"
    "nbuckets (hash_create 0 :: string hash_table) \<le> INT_MAX" by (simp_all add: INT_MAX_def)
  note i = hash_bucket_index [OF pos, of "''ls''"]
  from i [THEN conjunct2, THEN spec [of _ 6], rule_format, OF n] i n show ?thesis by simp
qed

text \<open>
  The state of a walk when it comes to the \<open>i\<close>-th of the entries, if it has not been stopped, and
  what the callback returns there.
\<close>

definition before_entry :: "('s \<Rightarrow> 'd bucket_contents \<Rightarrow> 's \<times> int) \<Rightarrow> 'd bucket_contents list \<Rightarrow> 's \<Rightarrow> nat \<Rightarrow> 's" where
  "before_entry f es s i = foldl (\<lambda>s e. fst (f s e)) s (take i es)"

definition result_at :: "('s \<Rightarrow> 'd bucket_contents \<Rightarrow> 's \<times> int) \<Rightarrow> 'd bucket_contents list \<Rightarrow> 's \<Rightarrow> nat \<Rightarrow> int" where
  "result_at f es s i = snd (f (before_entry f es s i) (es ! i))"

lemma before_entry_Cons: "before_entry f (e # es) s (Suc i) = before_entry f es (fst (f s e)) i"
  "result_at f (e # es) s (Suc i) = result_at f es (fst (f s e)) i" "result_at f (e # es) s 0 = snd (f s e)"
  by (simp_all add: before_entry_def result_at_def)

lemma walk_chain_stops:
  "\<exists>k \<le> length es. fst (walk_chain f es s) = before_entry f es s k \<and>
     (\<forall>i. Suc i < k \<longrightarrow> 0 \<le> result_at f es s i) \<and>
     (k < length es \<longrightarrow> 0 < k \<and> result_at f es s (k - 1) < 0)"
proof (induction es arbitrary: s)
  case (Cons e es)
  show ?case
  proof (cases "snd (f s e) < 0")
    case True
    then show ?thesis
      by (intro exI [of _ 1]) (auto simp: before_entry_Cons before_entry_def result_at_def split: prod.splits)
  next
    case False
    from Cons.IH [of "fst (f s e)"] obtain k where k: "k \<le> length es"
      "fst (walk_chain f es (fst (f s e))) = before_entry f es (fst (f s e)) k"
      "\<forall>i. Suc i < k \<longrightarrow> 0 \<le> result_at f es (fst (f s e)) i"
      "k < length es \<longrightarrow> 0 < k \<and> result_at f es (fst (f s e)) (k - 1) < 0" by blast
    have "0 \<le> result_at f (e # es) s i" if "Suc i < Suc k" for i
      using that k(3) False by (cases i) (auto simp: before_entry_Cons)
    moreover have "result_at f (e # es) s (Suc k - 1) < 0" if "Suc k < length (e # es)"
      using that k(4) by (cases k) (auto simp: before_entry_Cons)
    ultimately show ?thesis
      using k(1,2) False by (intro exI [of _ "Suc k"]) (auto simp: before_entry_Cons split: prod.splits)
  qed
qed (simp add: before_entry_def)

lemma distinct_chains:
  assumes "\<And>b. b < length cs \<Longrightarrow> distinct (cs ! b) \<and> (\<forall>e \<in> set (cs ! b). g e = n + b)"
  shows "distinct (concat cs)"
  using assms
proof (induction cs arbitrary: n)
  case (Cons c cs)
  have "distinct (cs ! b) \<and> (\<forall>e \<in> set (cs ! b). g e = Suc n + b)" if "b < length cs" for b
    using Cons.prems [of "Suc b"] that by simp
  from Cons.IH [OF this] this have "distinct (concat cs)" "\<And>e. e \<in> set (concat cs) \<Longrightarrow> n < g e"
    by (auto simp: in_set_conv_nth) fastforce
  with Cons.prems [of 0] show ?case by fastforce
qed simp

lemma hash_wf_distinct:
  assumes "hash_wf t" shows "distinct (concat (bucket_array t))"
  using hash_wf_chain [OF assms] by (intro distinct_chains [of _ "\<lambda>e. hash_bucket (bkey e) t" 0]) (simp add: chain_wf_def distinct_map)

text \<open>
  C23. A walk visits the entries one after the other, each once and in bucket order and chain
  order, and stops behind the first for which the callback returns a negative value: its result
  is that of the callback applied in turn to a prefix of the entries, the callback returned no
  negative value on any entry of the prefix but the last, and it did on the last one if the prefix
  is not the whole list. The list has the \<open>nentries\<close> different entries of the table, and a callback
  that never returns a negative value sees all of them.
\<close>

theorem hash_walk_visits:
  fixes t :: "'d hash_table"
  assumes "hash_wf t"
  defines "es \<equiv> concat (bucket_array t)"
  shows "(\<exists>k \<le> length es. hash_walk (Some t) f s = before_entry f es s k \<and>
      (\<forall>i. Suc i < k \<longrightarrow> 0 \<le> result_at f es s i) \<and>
      (k < length es \<longrightarrow> 0 < k \<and> result_at f es s (k - 1) < 0)) \<and>
    hash_walk (Some t) (\<lambda>xs e. (xs @ [e], 0)) [] = es \<and>
    distinct es \<and> nentries t = int (length es)"
proof -
  have "walk_chain (\<lambda>xs e. (xs @ [e], 0)) ys xs = (xs @ ys, False)" for ys xs :: "'d bucket_contents list"
    by (induction ys arbitrary: xs) auto
  with assms(1) show ?thesis
    unfolding es_def hash_walk_concat [OF assms(1)]
    by (intro conjI walk_chain_stops hash_wf_distinct) (simp_all add: hash_wf_def)
qed

theorem hash_walk_visits_witness:
  "hash_walk (Some (push_item ''y'' (push_item ''x'' (hash_create 1 :: string hash_table)))) (\<lambda>xs e. (xs @ [bkey e], - 1)) []
     = [''y''] \<and>
   hash_walk (Some (push_item ''y'' (push_item ''x'' (hash_create 1 :: string hash_table)))) (\<lambda>xs e. (xs @ [e], 0)) []
     = [new_item ''y'' (hash_string ''y''), new_item ''x'' (hash_string ''x'')]"
proof -
  let ?t = "hash_create 1 :: string hash_table" and ?f = "\<lambda>(xs :: string list) (e :: string bucket_contents). (xs @ [bkey e], - 1 :: int)"
  let ?u = "push_item ''y'' (push_item ''x'' ?t)"
  have e: "hash_wf ?t" "hash_abs ?t = Map.empty" by (rule hash_create_wf; simp add: INT_MAX_def)+
  note px = push_item_correct [OF e(1), of "''x''"]
  have wx: "hash_wf (push_item ''x'' ?t)" "hash_abs (push_item ''x'' ?t) ''y'' = None" using px e(2) by simp_all
  have wf: "hash_wf ?u" by (rule push_item_correct [OF wx])
  have b: "hash_bucket k t = 0" if "nbuckets t = 1" for k and t :: "string hash_table" using that by (simp add: hash_bucket_def)
  have es: "concat (bucket_array ?u) = [new_item ''y'' (hash_string ''y''), new_item ''x'' (hash_string ''x'')]" (is "_ = ?es")
    by (simp add: push_item_def hash_create_def Let_def b)
  note v = hash_walk_visits [OF wf, unfolded es]
  from v [THEN conjunct1, of ?f "[]"] obtain k where k: "k \<le> 2" "hash_walk (Some ?u) ?f [] = before_entry ?f ?es [] k"
    "\<forall>i. Suc i < k \<longrightarrow> 0 \<le> result_at ?f ?es [] i" "k < 2 \<longrightarrow> 0 < k"
    unfolding length_Cons length_0_conv list.size numeral_2_eq_2 One_nat_def by blast
  have "k = 1" using k(1,4) k(3) [rule_format, of 0] by (cases "k = 2") (auto simp: result_at_def)
  then have "hash_walk (Some ?u) ?f [] = [''y'']" using k(2) by (simp add: before_entry_def new_item_def)
  then show ?thesis using v [THEN conjunct2, THEN conjunct1] by blast
qed

end
