(* ===== verification/Syntaxtab.thy ===== *)
theory Syntaxtab
  imports Prelude
begin

unbundle bit_operations_syntax

text \<open>
  The shell's character classes: the constants of \<^verbatim>\<open>syntax.h\<close> and the table that \<^verbatim>\<open>mksyntax.c\<close> builds
  and writes out as \<^verbatim>\<open>sh_syntaxtab\<close>. The table is a function on characters, since its 256 entries are
  indexed by \<^verbatim>\<open>unsigned char\<close> only. The optional parts are as the default configuration has them:
  \<^verbatim>\<open>PROCESS_SUBSTITUTION\<close> and \<^verbatim>\<open>EXTENDED_GLOB\<close> are defined.
\<close>

abbreviation BSLASH :: char where "BSLASH \<equiv> CHR 0x5C"
abbreviation SQUOTE :: char where "SQUOTE \<equiv> CHR 0x27"
abbreviation DQUOTE :: char where "DQUOTE \<equiv> CHR 0x22"
abbreviation BQUOTE :: char where "BQUOTE \<equiv> CHR 0x60"
abbreviation NEWLINE :: char where "NEWLINE \<equiv> CHR 0x0A"
abbreviation TAB :: char where "TAB \<equiv> CHR 0x09"

definition slashify_in_quotes :: string where
  "slashify_in_quotes = [BSLASH, BQUOTE, CHR ''$'', DQUOTE, NEWLINE]"

definition slashify_in_here_document :: string where
  "slashify_in_here_document = [BSLASH, BQUOTE, CHR ''$'']"

definition shell_meta_chars :: string where
  "shell_meta_chars = ''()<>;&|''"

definition shell_break_chars :: string where
  "shell_break_chars = ''()<>;&| '' @ [TAB, NEWLINE]"

definition shell_quote_chars :: string where
  "shell_quote_chars = [DQUOTE, BQUOTE, SQUOTE]"

definition shell_exp_chars :: string where
  "shell_exp_chars = ''$<>''"

definition ext_glob_chars :: string where
  "ext_glob_chars = ''@*+?!''"

definition shell_glob_chars :: string where
  "shell_glob_chars = ''*?[]^''"

definition CWORD :: int where [cdefs]: "CWORD = 0x0000"
definition CSHMETA :: int where [cdefs]: "CSHMETA = 0x0001"
definition CSHBRK :: int where [cdefs]: "CSHBRK = 0x0002"
definition CBACKQ :: int where [cdefs]: "CBACKQ = 0x0004"
definition CQUOTE :: int where [cdefs]: "CQUOTE = 0x0008"
definition CSPECL :: int where [cdefs]: "CSPECL = 0x0010"
definition CEXP :: int where [cdefs]: "CEXP = 0x0020"
definition CBSDQUOTE :: int where [cdefs]: "CBSDQUOTE = 0x0040"
definition CBSHDOC :: int where [cdefs]: "CBSHDOC = 0x0080"
definition CGLOB :: int where [cdefs]: "CGLOB = 0x0100"
definition CXGLOB :: int where [cdefs]: "CXGLOB = 0x0200"
definition CXQUOTE :: int where [cdefs]: "CXQUOTE = 0x0400"
definition CSPECVAR :: int where [cdefs]: "CSPECVAR = 0x0800"
definition CSUBSTOP :: int where [cdefs]: "CSUBSTOP = 0x1000"
definition CBLANK :: int where [cdefs]: "CBLANK = 0x2000"

definition CTLESC :: char where "CTLESC = CHR 0x01"
definition CTLNUL :: char where "CTLNUL = CHR 0x7F"

text \<open>The flags of \<^verbatim>\<open>subst.h\<close> that say how a string is quoted.\<close>

definition Q_DOUBLE_QUOTES :: int where [cdefs]: "Q_DOUBLE_QUOTES = 0x01"
definition Q_HERE_DOCUMENT :: int where [cdefs]: "Q_HERE_DOCUMENT = 0x02"
definition Q_PATQUOTE :: int where [cdefs]: "Q_PATQUOTE = 0x08"

type_synonym syntab = "char \<Rightarrow> int"

fun addcstr :: "string \<Rightarrow> int \<Rightarrow> syntab \<Rightarrow> syntab" where
  "addcstr [] flag tab = tab"
| "addcstr (uc # s) flag tab = addcstr s flag (tab(uc := tab uc OR flag))"

definition addcchar :: "char \<Rightarrow> int \<Rightarrow> syntab \<Rightarrow> syntab" where
  "addcchar c flag tab = tab(c := tab c OR flag)"

definition addblanks :: "syntab \<Rightarrow> syntab" where
  "addblanks tab = (\<lambda>uc. if uc = CHR '' '' \<or> uc = TAB then tab uc OR CBLANK else tab uc)"

definition load_lsyntax :: "syntab \<Rightarrow> syntab" where
  "load_lsyntax tab =
     (let tab = addcstr shell_meta_chars CSHMETA tab;
          tab = addcstr shell_break_chars CSHBRK tab;
          tab = addcchar BQUOTE CBACKQ tab;
          tab = addcstr shell_quote_chars CQUOTE tab;
          tab = addcchar CTLESC CSPECL tab;
          tab = addcchar CTLNUL CSPECL tab;
          tab = addcstr shell_exp_chars CEXP tab;
          tab = addcstr slashify_in_quotes CBSDQUOTE tab;
          tab = addcstr slashify_in_here_document CBSHDOC tab;
          tab = addcstr shell_glob_chars CGLOB tab;
          tab = addcstr ext_glob_chars CXGLOB tab;
          tab = addcstr shell_quote_chars CXQUOTE tab;
          tab = addcchar BSLASH CXQUOTE tab;
          tab = addcstr ''@*#?-$!'' CSPECVAR tab;
          tab = addcstr ''-=?+'' CSUBSTOP tab
      in addblanks tab)"

definition sh_syntaxtab :: syntab where
  "sh_syntaxtab = load_lsyntax (\<lambda>c. CWORD)"

definition issyntype :: "char \<Rightarrow> int \<Rightarrow> bool" where
  "issyntype c t \<longleftrightarrow> sh_syntaxtab c AND t \<noteq> 0"

definition PATTERN_CHAR :: "char \<Rightarrow> bool" where
  "PATTERN_CHAR c \<longleftrightarrow> c = CHR ''@'' \<or> c = CHR ''*'' \<or> c = CHR ''+'' \<or> c = CHR ''?'' \<or> c = CHR ''!''"

definition GLOB_CHAR :: "char \<Rightarrow> bool" where
  "GLOB_CHAR c \<longleftrightarrow> c = CHR ''*'' \<or> c = CHR ''?'' \<or> c = CHR ''['' \<or> c = CHR '']'' \<or> c = CHR ''^''"

subsection \<open>Reading the table\<close>

text \<open>Each call adds one flag to the characters of its string and leaves the other flags alone.\<close>

lemma addcchar_and:
  "addcchar c f tab d AND m = (tab d AND m) OR (if d = c then f AND m else 0)"
  by (simp add: addcchar_def bit.conj_disj_distrib2)

lemma addcstr_and:
  "addcstr s f tab d AND m = (tab d AND m) OR (if d \<in> set s then f AND m else 0)"
proof (induction s arbitrary: tab)
  case (Cons c s)
  then show ?case by (auto simp: bit.conj_disj_distrib2 or.assoc)
qed simp

lemma addblanks_and:
  "addblanks tab d AND m = (tab d AND m) OR (if d = CHR '' '' \<or> d = TAB then CBLANK AND m else 0)"
  by (simp add: addblanks_def bit.conj_disj_distrib2)

lemma syntaxtab_and:
  "sh_syntaxtab c AND m =
     (CWORD AND m) OR (if c \<in> set shell_meta_chars then CSHMETA AND m else 0)
     OR (if c \<in> set shell_break_chars then CSHBRK AND m else 0)
     OR (if c = BQUOTE then CBACKQ AND m else 0)
     OR (if c \<in> set shell_quote_chars then CQUOTE AND m else 0)
     OR (if c = CTLESC then CSPECL AND m else 0)
     OR (if c = CTLNUL then CSPECL AND m else 0)
     OR (if c \<in> set shell_exp_chars then CEXP AND m else 0)
     OR (if c \<in> set slashify_in_quotes then CBSDQUOTE AND m else 0)
     OR (if c \<in> set slashify_in_here_document then CBSHDOC AND m else 0)
     OR (if c \<in> set shell_glob_chars then CGLOB AND m else 0)
     OR (if c \<in> set ext_glob_chars then CXGLOB AND m else 0)
     OR (if c \<in> set shell_quote_chars then CXQUOTE AND m else 0)
     OR (if c = BSLASH then CXQUOTE AND m else 0)
     OR (if c \<in> set ''@*#?-$!'' then CSPECVAR AND m else 0)
     OR (if c \<in> set ''-=?+'' then CSUBSTOP AND m else 0)
     OR (if c = CHR '' '' \<or> c = TAB then CBLANK AND m else 0)"
  unfolding sh_syntaxtab_def load_lsyntax_def Let_def addblanks_and addcstr_and addcchar_and
  by (simp only: or.assoc)

lemma issyntype_CBSDQUOTE: "issyntype c CBSDQUOTE \<longleftrightarrow> c \<in> set slashify_in_quotes"
  unfolding issyntype_def syntaxtab_and cdefs by (simp cong: if_cong)

lemma issyntype_CGLOB: "issyntype c CGLOB \<longleftrightarrow> GLOB_CHAR c"
  unfolding issyntype_def syntaxtab_and cdefs
  by (simp cong: if_cong) (simp add: shell_glob_chars_def GLOB_CHAR_def)

lemma issyntype_CXGLOB: "issyntype c CXGLOB \<longleftrightarrow> PATTERN_CHAR c"
  unfolding issyntype_def syntaxtab_and cdefs
  by (simp cong: if_cong) (simp add: ext_glob_chars_def PATTERN_CHAR_def)

lemma issyntype_CXQUOTE: "issyntype c CXQUOTE \<longleftrightarrow> issyntype c CQUOTE \<or> c = BSLASH"
  unfolding issyntype_def syntaxtab_and cdefs by (simp cong: if_cong)

end
