(* ===== verification/Quoting.thy ===== *)
theory Quoting
  imports Syntaxtab
begin

text \<open>
  Quoting strings so that the shell reads them back: \<^verbatim>\<open>lib/sh/shquote.c\<close>, together with the quote
  removal of \<^verbatim>\<open>subst.c\<close> that undoes it. The functions write into a block they allocate first; the
  model returns the text, and the sizes are compared with the blocks in the bounds lemmas, except
  for \<open>sh_mkdoublequoted\<close>, whose caller supplies the length the block is computed from: there a
  write past the block is the value \<open>None\<close>. A table lookup with a negative index is \<open>None\<close> as well.
  Loops walk the rest of the string, that is, the bytes from the current position on.
\<close>

subsection \<open>Quoting\<close>

definition bstab :: "int list" where
  "bstab =
    [0, 0, 0, 0, 0, 0, 0, 0,
     0, 1, 1, 0, 0, 0, 0, 0,
     0, 0, 0, 0, 0, 0, 0, 0,
     0, 0, 0, 0, 0, 0, 0, 0,

     1, 1, 1, 0, 1, 0, 1, 1,
     1, 1, 1, 0, 1, 0, 0, 0,
     0, 0, 0, 0, 0, 0, 0, 0,
     0, 0, 0, 1, 1, 0, 1, 1,

     0, 0, 0, 0, 0, 0, 0, 0,
     0, 0, 0, 0, 0, 0, 0, 0,
     0, 0, 0, 0, 0, 0, 0, 0,
     0, 0, 0, 1, 1, 1, 1, 0,

     1, 0, 0, 0, 0, 0, 0, 0,
     0, 0, 0, 0, 0, 0, 0, 0,
     0, 0, 0, 0, 0, 0, 0, 0,
     0, 0, 0, 1, 1, 1, 0, 0] @ replicate 128 0"

fun single_quote_loop :: "string \<Rightarrow> string" where
  "single_quote_loop [] = []"
| "single_quote_loop (c # s) =
     (if c = SQUOTE then [c, BSLASH, SQUOTE, SQUOTE] else [c]) @ single_quote_loop s"

definition sh_single_quote :: "string \<Rightarrow> string" where
  "sh_single_quote string =
     (if string = [SQUOTE] then [BSLASH, SQUOTE]
      else SQUOTE # single_quote_loop string @ [SQUOTE])"

fun double_quote_loop :: "string \<Rightarrow> string" where
  "double_quote_loop [] = []"
| "double_quote_loop (c # s) =
     (if issyntype c CBSDQUOTE \<and> c \<noteq> NEWLINE then [BSLASH]
      else if c = CTLESC \<or> c = CTLNUL then [CTLESC] else []) @ c # double_quote_loop s"

definition sh_double_quote :: "string \<Rightarrow> string" where
  "sh_double_quote string = DQUOTE # double_quote_loop string @ [DQUOTE]"

fun mkdoublequoted_loop :: "int \<Rightarrow> string \<Rightarrow> string" where
  "mkdoublequoted_loop flags [] = []"
| "mkdoublequoted_loop flags (c # s) =
     (if flags \<noteq> 0 \<and> c = DQUOTE then [BSLASH] else []) @ c # mkdoublequoted_loop flags s"

definition sh_mkdoublequoted :: "string \<Rightarrow> int \<Rightarrow> int \<Rightarrow> string option" where
  "sh_mkdoublequoted s slen flags =
     (let rlen = (if flags = 0 then slen + 3 else 2 * slen + 1);
          ret = DQUOTE # mkdoublequoted_loop flags s @ [DQUOTE]
      in if int (length ret) + 1 \<le> rlen then Some ret else None)"

fun un_double_quote_loop :: "bool \<Rightarrow> string \<Rightarrow> string" where
  "un_double_quote_loop pass_next [] = []"
| "un_double_quote_loop pass_next (c # s) =
     (if pass_next then c # un_double_quote_loop False s
      else if c = BSLASH \<and> issyntype (char_at s 0) CBSDQUOTE then un_double_quote_loop True s
      else c # un_double_quote_loop False s)"

definition sh_un_double_quote :: "string \<Rightarrow> string" where
  "sh_un_double_quote string = un_double_quote_loop False string"

text \<open>
  \<^verbatim>\<open>backslash_table[c]\<close>, where \<^verbatim>\<open>c\<close> is a plain \<^verbatim>\<open>char\<close> promoted to \<^verbatim>\<open>int\<close>. The loop keeps the preceding
  character, none at the start of the string.
\<close>

definition table_at :: "int list \<Rightarrow> char \<Rightarrow> int option" where
  "table_at table c = (if 0 \<le> schar c \<and> nat (schar c) < length table then Some (table ! nat (schar c)) else None)"

fun backslash_quote_loop :: "int list \<Rightarrow> int \<Rightarrow> char option \<Rightarrow> string \<Rightarrow> string option" where
  "backslash_quote_loop table flags prev [] = Some []"
| "backslash_quote_loop table flags prev (c # s) =
     (case table_at table c of
        None \<Rightarrow> None
      | Some v \<Rightarrow>
          map_option
            (\<lambda>r. (if v = 1 then [BSLASH]
                  else if c = CHR ''#'' \<and> prev = None then [BSLASH]
                  else if flags AND 1 \<noteq> 0 \<and> c = CHR ''~''
                    \<and> (prev = None \<or> prev = Some (CHR '':'') \<or> prev = Some (CHR ''='')) then [BSLASH]
                  else []) @ c # r)
            (backslash_quote_loop table flags (Some c) s))"

definition sh_backslash_quote :: "string \<Rightarrow> int list option \<Rightarrow> int \<Rightarrow> string option" where
  "sh_backslash_quote string table flags =
     backslash_quote_loop (case table of None \<Rightarrow> bstab | Some t \<Rightarrow> t) flags None string"

fun sh_backslash_quote_for_double_quotes :: "string \<Rightarrow> string" where
  "sh_backslash_quote_for_double_quotes [] = []"
| "sh_backslash_quote_for_double_quotes (c # s) =
     (if issyntype c CBSDQUOTE then [BSLASH]
      else if c = CTLESC \<or> c = CTLNUL then [CTLESC] else []) @ c # sh_backslash_quote_for_double_quotes s"

definition shell_metas :: string where
  "shell_metas = [CHR '' '', TAB, NEWLINE, SQUOTE, DQUOTE, BSLASH] @ ''|&;()<>!{}*[?]^$'' @ [BQUOTE]"

fun contains_metas_loop :: "char option \<Rightarrow> string \<Rightarrow> bool" where
  "contains_metas_loop prev [] = False"
| "contains_metas_loop prev (c # s) =
     (if c \<in> set shell_metas then True
      else if c = CHR ''~'' \<and> (prev = None \<or> prev = Some (CHR ''='') \<or> prev = Some (CHR '':'')) then True
      else if c = CHR ''#'' \<and> prev = None then True
      else contains_metas_loop (Some c) s)"

definition sh_contains_shell_metas :: "string \<Rightarrow> bool" where
  "sh_contains_shell_metas string = contains_metas_loop None string"

fun sh_contains_quotes :: "string \<Rightarrow> bool" where
  "sh_contains_quotes [] = False"
| "sh_contains_quotes (c # s) =
     (if c = SQUOTE \<or> c = DQUOTE \<or> c = BSLASH then True else sh_contains_quotes s)"

subsection \<open>Quote removal\<close>

text \<open>
  \<open>string_extract_single_quoted\<close> returns the text before the next single quote and the rest after
  it; \<open>string_quote_removal\<close> undoes backslashes and both kinds of quotes.
\<close>


definition string_extract_single_quoted :: "string \<Rightarrow> string \<times> string" where
  "string_extract_single_quoted s =
     (takeWhile (\<lambda>c. c \<noteq> SQUOTE) s, drop 1 (dropWhile (\<lambda>c. c \<noteq> SQUOTE) s))"

lemma extract_shorter: "length (snd (string_extract_single_quoted s)) \<le> length s"
  by (simp add: string_extract_single_quoted_def) (metis diff_le_self le_trans length_dropWhile_le)

function quote_removal_loop :: "int \<Rightarrow> bool \<Rightarrow> string \<Rightarrow> string" where
  "quote_removal_loop quoted dquote [] = []"
| "quote_removal_loop quoted dquote (c # s) =
     (let inq = (quoted AND (Q_HERE_DOCUMENT OR Q_DOUBLE_QUOTES) \<noteq> 0 \<or> dquote) in
      if c = BSLASH then
        (case s of
           [] \<Rightarrow> [BSLASH]
         | d # s' \<Rightarrow> (if inq \<and> \<not> issyntype d CBSDQUOTE then [BSLASH] else [])
                      @ d # quote_removal_loop quoted dquote s')
      else if c = SQUOTE then
        (if inq then c # quote_removal_loop quoted dquote s
         else fst (string_extract_single_quoted s)
                @ quote_removal_loop quoted dquote (snd (string_extract_single_quoted s)))
      else if c = DQUOTE then quote_removal_loop quoted (\<not> dquote) s
      else c # quote_removal_loop quoted dquote s)"
  by pat_completeness auto
termination
  by (relation "measure (\<lambda>(quoted, dquote, s). length s)") (auto simp: extract_shorter less_Suc_eq_le)

definition string_quote_removal :: "string \<Rightarrow> int \<Rightarrow> string" where
  "string_quote_removal string quoted = quote_removal_loop quoted False string"

subsection \<open>The backslash table\<close>

definition is_ascii :: "char \<Rightarrow> bool" where
  "is_ascii c \<longleftrightarrow> (of_char c :: nat) < 128"

text \<open>The table marks exactly the characters \<open>sh_contains_shell_metas\<close> looks for, and the comma.\<close>

definition marked :: "nat list" where
  "marked = [9, 10, 32, 33, 34, 36, 38, 39, 40, 41, 42, 44, 59, 60, 62, 63, 91, 92, 93, 94, 96, 123, 124, 125]"

lemma bstab_marked: "bstab = map (\<lambda>n. if n \<in> set marked then 1 else 0) [0..<128] @ replicate 128 0"
  unfolding bstab_def marked_def by (simp add: upt_rec del: replicate.simps)

lemma char_eq_code: "c = d \<longleftrightarrow> (of_char c :: nat) = of_char d"
  by (metis char_of_char)

lemma metas_marked: "c \<in> set shell_metas \<or> c = CHR '','' \<longleftrightarrow> of_char c \<in> set marked"
  unfolding shell_metas_def marked_def set_append list.set Un_insert_left insert_iff empty_iff Un_empty_left
    append.simps char_eq_code [of c]
  by simp argo

lemma bstab_metas:
  "table_at bstab c =
     (if is_ascii c then Some (if c \<in> set shell_metas \<or> c = CHR '','' then 1 else 0) else None)"
proof (cases "is_ascii c")
  case True
  then have "schar c = int (of_char c)" by (simp add: schar_def uchar_def is_ascii_def)
  with True show ?thesis
    unfolding metas_marked by (simp add: table_at_def is_ascii_def bstab_marked nth_append)
next
  case False
  then have "\<not> uchar c < 128" by (simp add: uchar_def is_ascii_def)
  moreover have "uchar c < 256" using nat_of_char_less_256 [of c] unfolding uchar_def by linarith
  ultimately have "schar c < 0" by (simp add: schar_def)
  with False show ?thesis by (simp add: table_at_def)
qed

lemma not_meta_plain: "c \<notin> set shell_metas \<Longrightarrow> c \<noteq> BSLASH \<and> c \<noteq> SQUOTE \<and> c \<noteq> DQUOTE"
  by (auto simp: shell_metas_def)

lemma backslash_quote_ascii:
  "list_all is_ascii s \<longleftrightarrow> backslash_quote_loop bstab flags prev s \<noteq> None"
  by (induction s arbitrary: prev) (auto simp: bstab_metas split: option.splits)

subsection \<open>Quote removal undoes quoting\<close>

lemma removal_plain:
  "c \<noteq> BSLASH \<Longrightarrow> c \<noteq> SQUOTE \<Longrightarrow> c \<noteq> DQUOTE \<Longrightarrow>
   quote_removal_loop quoted dq (c # s) = c # quote_removal_loop quoted dq s"
  by (simp add: Let_def)

lemma removal_backslash:
  "quote_removal_loop 0 False (BSLASH # c # s) = c # quote_removal_loop 0 False s"
  by (simp add: Let_def)

lemma removal_backslash_dq:
  "issyntype c CBSDQUOTE \<Longrightarrow> quote_removal_loop 0 True (BSLASH # c # s) = c # quote_removal_loop 0 True s"
  by (simp add: Let_def)

lemma removal_dquote: "quote_removal_loop q dq (DQUOTE # s) = quote_removal_loop q (\<not> dq) s"
  by (simp add: Let_def)

lemma removal_sq_in_dq: "quote_removal_loop 0 True (SQUOTE # s) = SQUOTE # quote_removal_loop 0 True s"
  by (simp add: Let_def)

lemma removal_squote:
  "quote_removal_loop 0 False (SQUOTE # s) = takeWhile (\<lambda>c. c \<noteq> SQUOTE) s
     @ quote_removal_loop 0 False (drop 1 (dropWhile (\<lambda>c. c \<noteq> SQUOTE) s))"
  by (simp add: Let_def string_extract_single_quoted_def)

lemmas removal_simps = removal_plain removal_backslash removal_backslash_dq removal_dquote
  removal_sq_in_dq removal_squote

lemma removal_single_loop:
  "takeWhile (\<lambda>c. c \<noteq> SQUOTE) (single_quote_loop s @ SQUOTE # rest)
     @ quote_removal_loop 0 False (drop 1 (dropWhile (\<lambda>c. c \<noteq> SQUOTE) (single_quote_loop s @ SQUOTE # rest)))
   = s @ quote_removal_loop 0 False rest"
proof (induction s)
  case (Cons c s)
  then show ?case
    by (cases "c = SQUOTE") (simp_all del: quote_removal_loop.simps(2) add: removal_simps)
qed simp

lemma removal_single_quote: "string_quote_removal (sh_single_quote s) 0 = s"
  using removal_single_loop [of s "[]"]
  by (simp del: quote_removal_loop.simps(2) add: string_quote_removal_def sh_single_quote_def removal_simps)

fun protect_ctl :: "string \<Rightarrow> string" where
  "protect_ctl [] = []"
| "protect_ctl (c # s) = (if c = CTLESC \<or> c = CTLNUL then [CTLESC, c] else [c]) @ protect_ctl s"

lemma protect_ctl_id: "CTLESC \<notin> set s \<Longrightarrow> CTLNUL \<notin> set s \<Longrightarrow> protect_ctl s = s"
  by (induction s) auto

lemma CTL_plain:
  "CTLESC \<noteq> BSLASH" "CTLESC \<noteq> SQUOTE" "CTLESC \<noteq> DQUOTE" "CTLNUL \<noteq> BSLASH" "CTLNUL \<noteq> SQUOTE" "CTLNUL \<noteq> DQUOTE"
  "\<not> issyntype CTLESC CBSDQUOTE" "\<not> issyntype CTLNUL CBSDQUOTE"
  by (simp_all add: CTLESC_def CTLNUL_def issyntype_CBSDQUOTE slashify_in_quotes_def)

lemma removal_double_loop:
  "quote_removal_loop 0 True (double_quote_loop s @ rest) = protect_ctl s @ quote_removal_loop 0 True rest"
proof (induction s)
  case (Cons c s)
  consider "issyntype c CBSDQUOTE" "c \<noteq> NEWLINE" | "c = NEWLINE" | "c = CTLESC \<or> c = CTLNUL"
    | "\<not> issyntype c CBSDQUOTE" "c \<noteq> CTLESC" "c \<noteq> CTLNUL" by blast
  then show ?case
  proof cases
    case 1
    with Cons CTL_plain show ?thesis by (auto simp del: quote_removal_loop.simps(2) simp: removal_simps)
  next
    case 2
    with Cons show ?thesis
      by (simp del: quote_removal_loop.simps(2) add: removal_simps CTLESC_def CTLNUL_def)
  next
    case 3
    with Cons CTL_plain show ?thesis by (auto simp del: quote_removal_loop.simps(2) simp: removal_plain)
  next
    case 4
    then have "c \<noteq> BSLASH" "c \<noteq> DQUOTE" by (auto simp: issyntype_CBSDQUOTE slashify_in_quotes_def)
    with Cons 4 show ?thesis
      by (cases "c = SQUOTE") (simp_all del: quote_removal_loop.simps(2) add: removal_simps)
  qed
qed simp

lemma removal_double_quote: "string_quote_removal (sh_double_quote s) 0 = protect_ctl s"
  using removal_double_loop [of s "[DQUOTE]"]
  by (simp del: quote_removal_loop.simps(2) add: string_quote_removal_def sh_double_quote_def removal_simps)

lemma removal_backslash_loop:
  "backslash_quote_loop bstab flags prev s = Some r \<Longrightarrow> quote_removal_loop 0 False r = s"
proof (induction s arbitrary: prev r)
  case (Cons c s)
  then obtain r' where r': "backslash_quote_loop bstab flags (Some c) s = Some r'" "is_ascii c"
    by (auto simp: bstab_metas split: if_splits)
  from Cons.IH [OF r'(1)] have ih: "quote_removal_loop 0 False r' = s" .
  from Cons.prems r' consider "r = BSLASH # c # r'" | "r = c # r'" "c \<notin> set shell_metas"
    by (auto simp: bstab_metas split: if_splits)
  then show ?case
    using ih by cases (simp_all del: quote_removal_loop.simps(2) add: removal_simps not_meta_plain)
qed simp

lemma un_double_quote_backslash:
  "un_double_quote_loop False (sh_backslash_quote_for_double_quotes s) = protect_ctl s"
proof (induction s)
  case (Cons c s)
  have "\<not> (c = BSLASH \<and> \<not> issyntype c CBSDQUOTE)" by (auto simp: issyntype_CBSDQUOTE slashify_in_quotes_def)
  with Cons CTL_plain show ?case by (auto simp: char_at_def)
qed simp

subsection \<open>Sizes\<close>

lemma single_quote_loop_length: "length (single_quote_loop s) \<le> 4 * length s"
  by (induction s) auto

lemma double_quote_loop_length: "length (double_quote_loop s) \<le> 2 * length s"
  by (induction s) auto

lemma un_double_quote_length: "length (un_double_quote_loop p s) \<le> length s"
  by (induction s arbitrary: p) (auto simp: le_SucI)

lemma backslash_quote_length: "backslash_quote_loop t f p s = Some r \<Longrightarrow> length r \<le> 2 * length s"
proof (induction s arbitrary: p r)
  case (Cons c s)
  then obtain v r' where "table_at t c = Some v" "backslash_quote_loop t f (Some c) s = Some r'"
    by (auto split: option.splits)
  with Cons.IH [OF this(2)] Cons.prems show ?case by (auto split: if_splits)
qed simp

lemma backslash_dq_length: "length (sh_backslash_quote_for_double_quotes s) \<le> 2 * length s"
  by (induction s) auto

lemma quote_removal_length: "length (quote_removal_loop q dq s) \<le> length s"
proof (induction q dq s rule: quote_removal_loop.induct)
  case (2 q dq c s)
  have e: "length (fst (string_extract_single_quoted s)) + length (snd (string_extract_single_quoted s)) \<le> length s"
    by (simp add: string_extract_single_quoted_def)
      (metis diff_le_self le_trans length_append nat_add_left_cancel_le takeWhile_dropWhile_id)
  let ?inq = "q AND (Q_HERE_DOCUMENT OR Q_DOUBLE_QUOTES) \<noteq> 0 \<or> dq"
  consider "c = BSLASH" | "c = SQUOTE" "?inq" | "c = SQUOTE" "\<not> ?inq" | "c = DQUOTE"
    | "c \<noteq> BSLASH" "c \<noteq> SQUOTE" "c \<noteq> DQUOTE" by blast
  then show ?case
  proof cases
    case 1
    with 2(1) show ?thesis by (auto simp: Let_def le_SucI split: list.splits)
  next
    case 3
    with 2(3) [of False] e show ?thesis by (simp add: Let_def)
  qed (use 2 in \<open>simp_all add: Let_def\<close>)
qed simp

lemma mkdoublequoted_length:
  "length (mkdoublequoted_loop flags s) = length s + (if flags = 0 then 0 else count_list s DQUOTE)"
  by (induction s) auto

lemma metas_loop_iff:
  "list_all is_ascii s \<Longrightarrow>
   contains_metas_loop prev s \<or> CHR '','' \<in> set s \<longleftrightarrow> backslash_quote_loop bstab 1 prev s \<noteq> Some s"
proof (induction s arbitrary: prev)
  case (Cons c s)
  from Cons.prems backslash_quote_ascii [of s 1 "Some c"] obtain r where
    r: "backslash_quote_loop bstab 1 (Some c) s = Some r" by auto
  have "length s \<le> length r"
    using r
  proof (induction s arbitrary: c r)
    case (Cons d s)
    then obtain v r' where "table_at bstab d = Some v" "backslash_quote_loop bstab 1 (Some d) s = Some r'"
      by (auto split: option.splits)
    with Cons.IH [OF this(2)] Cons.prems show ?case by auto
  qed simp
  then have "BSLASH # c # r \<noteq> c # s" by (metis Suc_n_not_le_n length_Cons nat_le_linear not_less_eq_eq)
  with Cons.IH [of "Some c"] Cons.prems r show ?case by (auto simp: bstab_metas)
qed simp

subsection \<open>Properties\<close>

text \<open>
  C21. Quote removal undoes each way of quoting. A single-quoted string gives the string back,
  whatever it holds; a double-quoted one gives it back with the shell's internal markers
  \<open>CTLESC\<close> and \<open>CTLNUL\<close> protected by a \<open>CTLESC\<close>, hence unchanged when it has none; backslash
  quoting with the default table reads outside the table exactly for strings with a byte of 128
  or more, and is undone otherwise;
  and removing the backslashes that are special in double quotes undoes
  \<open>sh_backslash_quote_for_double_quotes\<close> in the same sense.
\<close>

theorem quoting_roundtrip:
  "string_quote_removal (sh_single_quote s) 0 = s \<and>
   string_quote_removal (sh_double_quote s) 0 = protect_ctl s \<and>
   sh_un_double_quote (sh_backslash_quote_for_double_quotes s) = protect_ctl s \<and>
   (CTLESC \<notin> set s \<and> CTLNUL \<notin> set s \<longrightarrow> protect_ctl s = s) \<and>
   (sh_backslash_quote s None flags = None \<longleftrightarrow> \<not> list_all is_ascii s) \<and>
   (\<forall>r. sh_backslash_quote s None flags = Some r \<longrightarrow> string_quote_removal r 0 = s)"
proof -
  have "(sh_backslash_quote s None flags = None \<longleftrightarrow> \<not> list_all is_ascii s) \<and>
      (\<forall>r. sh_backslash_quote s None flags = Some r \<longrightarrow> string_quote_removal r 0 = s)"
    using backslash_quote_ascii [of s flags None] removal_backslash_loop [of flags None s]
    by (auto simp: sh_backslash_quote_def string_quote_removal_def)
  then show ?thesis
    by (simp add: removal_single_quote removal_double_quote un_double_quote_backslash protect_ctl_id
        sh_un_double_quote_def)
qed

theorem quoting_roundtrip_witness:
  "string_quote_removal (sh_double_quote [CHR ''a'', DQUOTE, SQUOTE, CHR ''$'']) 0 = [CHR ''a'', DQUOTE, SQUOTE, CHR ''$''] \<and>
   (\<exists>r. sh_backslash_quote ''~ #'' None 1 = Some r \<and> string_quote_removal r 0 = ''~ #'')"
  using quoting_roundtrip [of "[CHR ''a'', DQUOTE, SQUOTE, CHR ''$'']"] quoting_roundtrip [of "''~ #''" 1]
  by (auto simp: CTLESC_def CTLNUL_def is_ascii_def)

text \<open>
  C29. \<open>sh_contains_shell_metas\<close> agrees with what backslash quoting changes: an ASCII string is
  changed by \<open>sh_backslash_quote\<close> (with tildes quoted) exactly when it contains a shell
  metacharacter in that function's sense or a comma.
\<close>

theorem metas_iff_quoting_changes:
  assumes "list_all is_ascii s"
  shows "sh_backslash_quote s None 1 \<noteq> Some s \<longleftrightarrow> sh_contains_shell_metas s \<or> CHR '','' \<in> set s"
  using metas_loop_iff [OF assms, of None] by (simp add: sh_backslash_quote_def sh_contains_shell_metas_def)

theorem metas_iff_quoting_changes_witness:
  "sh_backslash_quote ''a~b#c'' None 1 = Some ''a~b#c''"
  using metas_iff_quoting_changes [of "''a~b#c''"]
  by (simp add: is_ascii_def sh_contains_shell_metas_def shell_metas_def)

text \<open>
  C30. Every quoting function stays inside the block it allocates, the terminating NUL included:
  the sizes are those passed to \<^verbatim>\<open>xmalloc\<close>. The exception is \<open>sh_mkdoublequoted\<close> with a non-zero
  flag: called with the length of the string, it writes past its block exactly when the string
  has fewer than two characters that are not double quotes.
\<close>

theorem quoting_blocks:
  "length (sh_single_quote s) + 1 \<le> 3 + 4 * length s \<and>
   length (sh_double_quote s) + 1 \<le> 3 + 2 * length s \<and>
   length (sh_un_double_quote s) + 1 \<le> length s + 1 \<and>
   length (sh_backslash_quote_for_double_quotes s) + 1 \<le> 2 * length s + 1 \<and>
   length (string_quote_removal s quoted) + 1 \<le> length s + 1 \<and>
   pred_option (\<lambda>r. length r + 1 \<le> 2 * length s + 1) (sh_backslash_quote s table flags) \<and>
   (sh_mkdoublequoted s (int (length s)) flags = None \<longleftrightarrow>
      flags \<noteq> 0 \<and> length s < count_list s DQUOTE + 2)"
  using single_quote_loop_length [of s] double_quote_loop_length [of s] un_double_quote_length [of False s]
    backslash_dq_length [of s] quote_removal_length [of quoted False s] mkdoublequoted_length [of flags s]
    backslash_quote_length [of _ flags None s]
  by (auto simp: sh_single_quote_def sh_double_quote_def sh_un_double_quote_def string_quote_removal_def
      sh_mkdoublequoted_def sh_backslash_quote_def Let_def option.pred_set split: option.splits)

end
