(* ===== verification/CtlQuote.thy ===== *)
theory CtlQuote
  imports Syntaxtab WordList
begin

text \<open>
  The shell's internal quoting (\<^verbatim>\<open>subst.c\<close>, "Functions to handle quoting chars"): during word expansion
  a character preceded by \<open>CTLESC\<close> is quoted, and the one-character string \<open>CTLNUL\<close> stands for a quoted
  empty string. The functions that join words with a separator follow, since they decide which of
  the two encodings a list of words gets.

  The variables that hold what is known about \<^verbatim>\<open>IFS\<close> form the state \<open>ifs_state\<close>; \<open>setifs\<close> computes them
  from the shell variable, \<open>None\<close> when it is unset, \<open>Some None\<close> when it has no value. Strings are
  handled byte by byte, as in a single-byte locale.
\<close>

subsection \<open>The state kept about IFS\<close>

record ifs_state =
  ifs_var :: "string option option"
  ifs_value :: "string option"
  ifs_is_set :: bool
  ifs_is_null :: bool
  ifs_cmap :: "char \<Rightarrow> bool"
  ifs_firstc :: char

fun set_cmap :: "string \<Rightarrow> (char \<Rightarrow> bool) \<Rightarrow> char \<Rightarrow> bool" where
  "set_cmap [] m = m"
| "set_cmap (uc # t) m = set_cmap t (m(uc := True))"

definition setifs :: "string option option \<Rightarrow> ifs_state" where
  "setifs v =
     (let value = (case v of Some (Some s) \<Rightarrow> s | _ \<Rightarrow> [CHR '' '', TAB, NEWLINE]) in
      \<lparr> ifs_var = v, ifs_value = Some value,
        ifs_is_set = (v \<noteq> None), ifs_is_null = (v \<noteq> None \<and> value = []),
        ifs_cmap = set_cmap value (\<lambda>c. False),
        ifs_firstc = char_at value 0 \<rparr>)"

definition isifs :: "ifs_state \<Rightarrow> char \<Rightarrow> bool" where
  "isifs st c = ifs_cmap st c"

definition spctabnl :: "char \<Rightarrow> bool" where
  "spctabnl c \<longleftrightarrow> c = CHR '' '' \<or> c = TAB \<or> c = NEWLINE"

subsection \<open>Quoting characters\<close>

definition QUOTED_NULL :: "string \<Rightarrow> bool" where
  "QUOTED_NULL string \<longleftrightarrow> char_at string 0 = CTLNUL \<and> char_at string 1 = NUL"

definition ifs_has :: "ifs_state \<Rightarrow> char \<Rightarrow> bool" where
  "ifs_has st c \<longleftrightarrow> (case ifs_value st of None \<Rightarrow> False | Some s \<Rightarrow> c \<in> set s)"

fun quote_escapes_loop :: "bool \<Rightarrow> bool \<Rightarrow> bool \<Rightarrow> string \<Rightarrow> string" where
  "quote_escapes_loop quote_spaces skip_ctlesc skip_ctlnul [] = []"
| "quote_escapes_loop quote_spaces skip_ctlesc skip_ctlnul (c # s) =
     (if (\<not> skip_ctlesc \<and> c = CTLESC) \<or> (\<not> skip_ctlnul \<and> c = CTLNUL) \<or> (quote_spaces \<and> c = CHR '' '')
      then [CTLESC, c] else [c]) @ quote_escapes_loop quote_spaces skip_ctlesc skip_ctlnul s"

definition quote_escapes :: "ifs_state \<Rightarrow> string \<Rightarrow> string" where
  "quote_escapes st string =
     quote_escapes_loop (ifs_value st = Some []) (ifs_has st CTLESC) (ifs_has st CTLNUL) string"

fun dequote_escapes_loop :: "bool \<Rightarrow> string \<Rightarrow> string" where
  "dequote_escapes_loop quote_spaces [] = []"
| "dequote_escapes_loop quote_spaces [c] = [c]"
| "dequote_escapes_loop quote_spaces (c # d # s) =
     (if c = CTLESC \<and> (d = CTLESC \<or> d = CTLNUL \<or> (quote_spaces \<and> d = CHR '' ''))
      then d # dequote_escapes_loop quote_spaces s
      else c # dequote_escapes_loop quote_spaces (d # s))"

definition dequote_escapes :: "ifs_state \<Rightarrow> string option \<Rightarrow> string option" where
  "dequote_escapes st string =
     map_option (\<lambda>s. if CTLESC \<notin> set s then s else dequote_escapes_loop (ifs_value st = Some []) s) string"

definition list_quote_escapes :: "ifs_state \<Rightarrow> word_list \<Rightarrow> word_list" where
  "list_quote_escapes st list = map (\<lambda>w. w\<lparr>word := quote_escapes st (word w)\<rparr>) list"

definition list_dequote_escapes :: "ifs_state \<Rightarrow> word_list \<Rightarrow> word_list" where
  "list_dequote_escapes st list = map (\<lambda>w. w\<lparr>word := the (dequote_escapes st (Some (word w)))\<rparr>) list"

definition make_quoted_char :: "char \<Rightarrow> string" where
  "make_quoted_char c = (if c = NUL then [CTLNUL] else [CTLESC, c])"

fun quote_string_loop :: "string \<Rightarrow> string" where
  "quote_string_loop [] = []"
| "quote_string_loop (c # s) = CTLESC # c # quote_string_loop s"

definition quote_string :: "string \<Rightarrow> string" where
  "quote_string string = (if string = [] then [CTLNUL] else quote_string_loop string)"

fun dequote_string_loop :: "string \<Rightarrow> string" where
  "dequote_string_loop [] = []"
| "dequote_string_loop (c # s) =
     (if c = CTLESC then (case s of [] \<Rightarrow> [] | d # s' \<Rightarrow> d # dequote_string_loop s')
      else c # dequote_string_loop s)"

definition dequote_string :: "string \<Rightarrow> string" where
  "dequote_string string =
     (if QUOTED_NULL string then []
      else if CTLESC \<notin> set string then string
      else dequote_string_loop string)"

definition quote_list :: "word_list \<Rightarrow> word_list" where
  "quote_list list =
     map (\<lambda>w. w\<lparr>word := quote_string (word w),
                wflags := (if word w = [] then wflags w OR W_HASQUOTEDNULL else wflags w) OR W_QUOTED\<rparr>) list"

definition dequote_list :: "word_list \<Rightarrow> word_list" where
  "dequote_list list =
     map (\<lambda>w. w\<lparr>word := dequote_string (word w),
                wflags := (if QUOTED_NULL (word w) then wflags w AND NOT W_HASQUOTEDNULL else wflags w)\<rparr>) list"

definition remove_quoted_escapes :: "ifs_state \<Rightarrow> string option \<Rightarrow> string option" where
  "remove_quoted_escapes st string = dequote_escapes st string"

text \<open>
  \<open>remove_quoted_nulls\<close> works in place: \<open>i\<close> reads, \<open>j\<close> writes, and the text ends at \<open>j\<close>.
\<close>

function remove_nulls_loop :: "nat \<Rightarrow> string \<Rightarrow> nat \<Rightarrow> nat \<Rightarrow> string \<times> nat" where
  "remove_nulls_loop slen string i j =
     (if i < slen then
        (if string ! i = CTLESC then
           (let i = Suc i; string = string[j := CTLESC]; j = Suc j in
            if i = slen then (string, j)
            else if j < i then remove_nulls_loop slen (string[j := string ! i]) (Suc i) (Suc j)
            else remove_nulls_loop slen string (Suc i) (Suc i))
         else if string ! i = CTLNUL then remove_nulls_loop slen string (Suc i) j
         else if j < i then remove_nulls_loop slen (string[j := string ! i]) (Suc i) (Suc j)
         else remove_nulls_loop slen string (Suc i) (Suc i))
      else (string, j))"
  by pat_completeness auto
termination
  by (relation "measure (\<lambda>(slen, string, i, j). slen - i)") auto

definition remove_quoted_nulls :: "string \<Rightarrow> string" where
  "remove_quoted_nulls string =
     (if CTLNUL \<notin> set string then string
      else (case remove_nulls_loop (length string) string 0 0 of (s, j) \<Rightarrow> take j s))"

definition word_list_remove_quoted_nulls :: "word_list \<Rightarrow> word_list" where
  "word_list_remove_quoted_nulls list =
     map (\<lambda>w. w\<lparr>word := remove_quoted_nulls (word w), wflags := wflags w AND NOT W_HASQUOTEDNULL\<rparr>) list"

subsection \<open>Joining words\<close>

fun join_loop :: "string \<Rightarrow> word_list \<Rightarrow> string" where
  "join_loop sep [] = []"
| "join_loop sep (w # l) = sep @ word w @ join_loop sep l"

definition string_list_internal :: "word_list \<Rightarrow> string \<Rightarrow> string option" where
  "string_list_internal list sep =
     (case list of
        [] \<Rightarrow> None
      | [w] \<Rightarrow> Some (word w)
      | w # l \<Rightarrow> Some (word w @ join_loop sep l))"

definition string_list :: "word_list \<Rightarrow> string option" where
  "string_list list = string_list_internal list '' ''"

definition ifs_firstchar :: "ifs_state \<Rightarrow> string \<times> int" where
  "ifs_firstchar st = (if ifs_firstc st = NUL then ([], 0) else ([ifs_firstc st], 1))"

definition string_list_dollar_star :: "ifs_state \<Rightarrow> word_list \<Rightarrow> string option" where
  "string_list_dollar_star st list =
     string_list_internal list (if ifs_firstc st = NUL then [] else [ifs_firstc st])"


definition string_list_dollar_at :: "ifs_state \<Rightarrow> word_list \<Rightarrow> int \<Rightarrow> string option" where
  "string_list_dollar_at st list quoted =
     (let ifs = (case ifs_var st of Some v \<Rightarrow> v | None \<Rightarrow> None);
          sep = (if ifs \<noteq> None \<and> ifs \<noteq> Some [] then (if ifs_firstc st = NUL then [] else [ifs_firstc st]) else '' '');
          tlist = (if quoted AND (Q_HERE_DOCUMENT OR Q_DOUBLE_QUOTES OR Q_PATQUOTE) \<noteq> 0
                   then quote_list list else list_quote_escapes st list)
      in string_list_internal tlist sep)"

definition string_list_pos_params :: "ifs_state \<Rightarrow> char \<Rightarrow> word_list \<Rightarrow> int \<Rightarrow> string option" where
  "string_list_pos_params st pchar list quoted =
     (if pchar = CHR ''*'' \<and> quoted AND Q_DOUBLE_QUOTES \<noteq> 0 then
        string_list_dollar_star st (word_list_remove_quoted_nulls (quote_list list))
      else if pchar = CHR ''*'' \<and> quoted AND Q_HERE_DOCUMENT \<noteq> 0 then
        string_list (word_list_remove_quoted_nulls (quote_list list))
      else if pchar = CHR ''*'' then string_list_dollar_star st list
      else if pchar = CHR ''@'' \<and> quoted AND (Q_HERE_DOCUMENT OR Q_DOUBLE_QUOTES) \<noteq> 0 then
        string_list_dollar_at st list quoted
      else if pchar = CHR ''@'' then string_list_dollar_star st list
      else string_list (if quoted AND (Q_HERE_DOCUMENT OR Q_DOUBLE_QUOTES) \<noteq> 0 then quote_list list else list))"

subsection \<open>Lemmas\<close>

lemma CTL_distinct [simp]:
  "CTLESC \<noteq> CTLNUL" "CTLNUL \<noteq> CTLESC" "CTLESC \<noteq> NUL" "CTLNUL \<noteq> NUL" "NUL \<noteq> CTLESC" "NUL \<noteq> CTLNUL" "CTLESC \<noteq> CHR '' ''" "CTLNUL \<noteq> CHR '' ''"
  by (simp_all add: CTLESC_def CTLNUL_def)

lemma set_cmap_iff: "set_cmap s m c \<longleftrightarrow> c \<in> set s \<or> m c"
  by (induction s arbitrary: m) auto

lemma isifs_setifs: "isifs (setifs v) c \<longleftrightarrow> c \<in> set (the (ifs_value (setifs v)))"
  by (simp add: isifs_def setifs_def set_cmap_iff Let_def)

lemma QUOTED_NULL_iff: "c_string s \<Longrightarrow> QUOTED_NULL s \<longleftrightarrow> s = [CTLNUL]"
  by (cases s; cases "tl s") (auto simp: QUOTED_NULL_def char_at_def c_string_def)

lemma dequote_quote_loop: "dequote_string_loop (quote_string_loop s) = s"
  by (induction s) auto

lemma dequote_quote_string: "dequote_string (quote_string s) = s"
proof (cases s)
  case Nil
  then show ?thesis by (simp add: quote_string_def dequote_string_def QUOTED_NULL_def char_at_def)
next
  case (Cons c t)
  then show ?thesis
    using dequote_quote_loop [of s]
    by (simp add: quote_string_def dequote_string_def QUOTED_NULL_def char_at_def)
qed

lemma dequote_quote_escapes_loop:
  "dequote_escapes_loop q (quote_escapes_loop q False n s) = s"
proof (induction s)
  case (Cons c s)
  show ?case
  proof (cases "quote_escapes_loop q False n s")
    case Nil
    with Cons show ?thesis by (cases "c = CTLESC") auto
  next
    case (Cons d t)
    with Cons.IH show ?thesis by auto
  qed
qed simp

lemma quote_escapes_loop_id: "CTLESC \<notin> set (quote_escapes_loop q False n s) \<Longrightarrow> quote_escapes_loop q False n s = s"
  by (induction s) (auto split: if_splits)

lemma dequote_quote_escapes:
  "\<not> ifs_has st CTLESC \<Longrightarrow> dequote_escapes st (Some (quote_escapes st s)) = Some s"
  using dequote_quote_escapes_loop quote_escapes_loop_id
  by (auto simp: dequote_escapes_def quote_escapes_def)

text \<open>What the in-place removal computes: unquoted \<open>CTLNUL\<close>s disappear, quoted ones stay.\<close>

fun drop_nulls :: "string \<Rightarrow> string" where
  "drop_nulls [] = []"
| "drop_nulls [c] = (if c = CTLNUL then [] else [c])"
| "drop_nulls (c # d # s) =
     (if c = CTLESC then c # d # drop_nulls s
      else if c = CTLNUL then drop_nulls (d # s)
      else c # drop_nulls (d # s))"

lemma drop_nulls_Cons:
  "c \<noteq> CTLESC \<Longrightarrow> drop_nulls (c # s) = (if c = CTLNUL then drop_nulls s else c # drop_nulls s)"
  by (cases s) auto

lemma drop_nulls_no_null: "CTLNUL \<notin> set s \<Longrightarrow> drop_nulls s = s"
  by (induction s rule: drop_nulls.induct) auto

lemma take_Suc_overwrite:
  "j \<le> i \<Longrightarrow> i < length b \<Longrightarrow> take (Suc j) (if j < i then b[j := b ! i] else b) = take j b @ [b ! i]"
  by (auto simp: take_Suc_conv_app_nth)

lemma remove_nulls_loop_spec:
  assumes "length b = slen" and "j \<le> i" and "i \<le> slen"
  shows "(case remove_nulls_loop slen b i j of (s, k) \<Rightarrow> take k s) = take j b @ drop_nulls (drop i b)"
  using assms
proof (induction slen b i j rule: remove_nulls_loop.induct)
  case (1 slen b i j)
  note IH = "1.IH" and prems = "1.prems"
  show ?case
  proof (cases "i < slen")
    case False
    with prems show ?thesis by simp
  next
    case lt: True
    have di: "drop i b = b ! i # drop (Suc i) b" using lt prems by (simp add: Cons_nth_drop_Suc)
    have step: "(if j < i then b[j := b ! i] else b) = b[j := b ! i]" if "j \<le> i"
      using that by (cases "j = i") auto
    consider (esc) "b ! i = CTLESC" | (nul) "b ! i = CTLNUL" | (other) "b ! i \<noteq> CTLESC" "b ! i \<noteq> CTLNUL" by blast
    then show ?thesis
    proof cases
      case nul
      with IH(3) lt prems di show ?thesis
        by (subst remove_nulls_loop.simps) (simp add: drop_nulls_Cons)
    next
      case other
      have "(if j < i then remove_nulls_loop slen (b[j := b ! i]) (Suc i) (Suc j)
             else remove_nulls_loop slen b (Suc i) (Suc i)) = remove_nulls_loop slen b i j"
        using other lt by (subst (3) remove_nulls_loop.simps) simp
      with IH(4,5) other lt prems di show ?thesis
        by (cases "j < i") (auto simp: drop_nulls_Cons take_Suc_conv_app_nth)
    next
      case esc
      let ?b = "b[j := CTLESC]"
      have tb: "take (Suc j) ?b = take j b @ [CTLESC]"
        using prems lt by (simp add: take_Suc_conv_app_nth)
      show ?thesis
      proof (cases "Suc i = slen")
        case True
        with esc lt prems di tb show ?thesis by (subst remove_nulls_loop.simps) (simp add: Let_def)
      next
        case False
        then have l2: "Suc i < slen" using lt by simp
        have d2: "drop (Suc i) b = b ! Suc i # drop (Suc (Suc i)) b"
          using l2 prems by (simp add: Cons_nth_drop_Suc)
        have same: "?b ! Suc i = b ! Suc i" "drop (Suc (Suc i)) ?b = drop (Suc (Suc i)) b"
          using prems by simp_all
        have eq: "remove_nulls_loop slen b i j =
           (if Suc j < Suc i then remove_nulls_loop slen (?b[Suc j := ?b ! Suc i]) (Suc (Suc i)) (Suc (Suc j))
            else remove_nulls_loop slen ?b (Suc (Suc i)) (Suc (Suc i)))"
          using esc lt False by (subst remove_nulls_loop.simps) (simp add: Let_def)
        show ?thesis
        proof (cases "j < i")
          case True
          with IH(1) [OF lt esc refl refl refl] l2 False prems eq tb d2 di esc same show ?thesis
            by (simp add: take_Suc_conv_app_nth)
        next
          case False
          with prems have "j = i" by simp
          with IH(2) [OF lt esc refl refl refl] l2 prems eq tb d2 di esc same show ?thesis
            by (simp add: take_Suc_conv_app_nth)
        qed
      qed
    qed
  qed
qed

lemma remove_quoted_nulls_eq: "remove_quoted_nulls s = drop_nulls s"
  using remove_nulls_loop_spec [of s "length s" 0 0] by (simp add: remove_quoted_nulls_def drop_nulls_no_null)

lemma drop_nulls_quote_loop: "drop_nulls (quote_string_loop s) = quote_string_loop s"
  by (induction s) auto

lemma join_loop_concat: "join_loop sep l = concat (map (\<lambda>w. sep @ word w) l)"
  by (induction l) auto

lemma join_loop_map: "(\<And>w. word (f w) = g (word w)) \<Longrightarrow> join_loop sep (map f l) = concat (map (\<lambda>w. sep @ g (word w)) l)"
  by (induction l) auto

lemma string_list_internal_Cons:
  "string_list_internal (w # l) sep = Some (word w @ concat (map (\<lambda>w. sep @ word w) l))"
  by (cases l) (simp_all add: string_list_internal_def join_loop_concat)

subsection \<open>Properties\<close>

text \<open>
  C22. The internal quoting loses nothing. Dequoting a quoted string gives the string back, the
  empty one included, and so for whole word lists; removing the escapes put in front of the
  markers gives the string back whenever \<open>CTLESC\<close> itself is not an \<^verbatim>\<open>IFS\<close> character; the removal of
  quoted nulls, whose loop reads and writes one buffer through two indices, computes the one-pass
  definition \<open>drop_nulls\<close>, and so leaves every quoted character alone and empties only the quoted
  empty string.
\<close>

theorem internal_quoting_roundtrip:
  "dequote_string (quote_string s) = s \<and>
   map word (dequote_list (quote_list l)) = map word l \<and>
   (\<not> ifs_has st CTLESC \<longrightarrow> dequote_escapes st (Some (quote_escapes st s)) = Some s) \<and>
   remove_quoted_nulls t = drop_nulls t \<and>
   remove_quoted_nulls (quote_string s) = (if s = [] then [] else quote_string s)"
proof -
  have "map word (dequote_list (quote_list l)) = map word l"
    by (simp add: dequote_list_def quote_list_def dequote_quote_string)
  then show ?thesis
    by (simp add: dequote_quote_string dequote_quote_escapes)
       (simp add: remove_quoted_nulls_eq quote_string_def drop_nulls_quote_loop)
qed

theorem internal_quoting_roundtrip_witness:
  "dequote_escapes (setifs None) (Some (quote_escapes (setifs None) [CTLESC, CTLNUL, CHR ''x''])) =
     Some [CTLESC, CTLNUL, CHR ''x'']"
proof -
  have "\<not> ifs_has (setifs None) CTLESC" by (simp add: ifs_has_def setifs_def CTLESC_def)
  then show ?thesis
    using internal_quoting_roundtrip [of "[CTLESC, CTLNUL, CHR ''x'']" "[]" "setifs None"] by blast
qed

end
