(* ===== verification/Assoc.thy ===== *)
theory Assoc
  imports Dictionary Hashlib Quoting CtlQuote
begin

text \<open>
  Associative arrays (\<^verbatim>\<open>assoc.c\<close>): hash tables whose data are strings. A table pointer is an option;
  the operations return the table after the call, since even a lookup changes it (the counts of
  \<^verbatim>\<open>hash_search\<close>). Where the source hands an element's data to a function that reads it, null data
  would be a null pointer dereference: there the model returns \<open>None\<close>.
\<close>

type_synonym assoc = "string hash_table"

definition assoc_empty :: "assoc \<Rightarrow> bool" where
  "assoc_empty h \<longleftrightarrow> nentries h = 0"

definition assoc_num_elements :: "assoc \<Rightarrow> int" where
  "assoc_num_elements h = nentries h"

definition assoc_create :: "int \<Rightarrow> assoc" where
  "assoc_create n = hash_create n"

definition assoc_flush :: "assoc option \<Rightarrow> assoc option" where
  "assoc_flush hash = fst (hash_flush hash)"

definition assoc_insert :: "assoc option \<Rightarrow> string \<Rightarrow> string option \<Rightarrow> assoc option \<times> int" where
  "assoc_insert hash key value =
     (case hash_search key hash HASH_CREATE of
        (h, None) \<Rightarrow> (h, -1)
      | (h, Some b) \<Rightarrow> (map_option (upd_item b (\<lambda>e. e\<lparr>bdata := value\<rparr>)) h, 0))"

definition assoc_replace :: "assoc option \<Rightarrow> string \<Rightarrow> string option \<Rightarrow> assoc option \<times> string option" where
  "assoc_replace hash key value =
     (case hash_search key hash HASH_CREATE of
        (Some h, Some b) \<Rightarrow> (Some (upd_item b (\<lambda>e. e\<lparr>bdata := value\<rparr>) h), bdata (item_at h b))
      | (h, _) \<Rightarrow> (h, None))"

definition assoc_remove :: "assoc option \<Rightarrow> string \<Rightarrow> assoc option" where
  "assoc_remove hash string = fst (hash_remove string hash 0)"

definition assoc_reference :: "assoc option \<Rightarrow> string \<Rightarrow> assoc option \<times> string option" where
  "assoc_reference hash string =
     (case hash of
        None \<Rightarrow> (None, None)
      | Some _ \<Rightarrow>
          (case hash_search string hash 0 of
             (Some h, Some b) \<Rightarrow> (Some h, bdata (item_at h b))
           | (h, _) \<Rightarrow> (h, None)))"

subsection \<open>Operations on all elements\<close>

definition table_items :: "'d hash_table \<Rightarrow> 'd bucket_contents list" where
  "table_items h = concat (map (\<lambda>i. hash_items i h) [0..<nat (nbuckets h)])"

fun apply_chain :: "(string \<Rightarrow> string) \<Rightarrow> string bucket_contents list \<Rightarrow> string bucket_contents list option" where
  "apply_chain f [] = Some []"
| "apply_chain f (tlist # rest) =
     (case bdata tlist of
        None \<Rightarrow> None
      | Some d \<Rightarrow> map_option ((#) (tlist\<lparr>bdata := Some (f d)\<rparr>)) (apply_chain f rest))"

fun apply_buckets :: "(string \<Rightarrow> string) \<Rightarrow> string bucket_contents list list \<Rightarrow> string bucket_contents list list option" where
  "apply_buckets f [] = Some []"
| "apply_buckets f (ch # chs) =
     (case apply_chain f ch of
        None \<Rightarrow> None
      | Some ch' \<Rightarrow> map_option ((#) ch') (apply_buckets f chs))"

text \<open>The value returned: null for a missing or empty table, otherwise the table changed in place.\<close>

definition apply_table :: "(string \<Rightarrow> string) \<Rightarrow> assoc option \<Rightarrow> assoc option option" where
  "apply_table f h =
     (case h of
        None \<Rightarrow> Some None
      | Some t \<Rightarrow>
          if assoc_empty t then Some None
          else map_option (\<lambda>ba. Some (t\<lparr>bucket_array := ba\<rparr>)) (apply_buckets f (bucket_array t)))"

definition assoc_quote :: "assoc option \<Rightarrow> assoc option option" where
  "assoc_quote h = apply_table quote_string h"

definition assoc_quote_escapes :: "ifs_state \<Rightarrow> assoc option \<Rightarrow> assoc option option" where
  "assoc_quote_escapes st h = apply_table (quote_escapes st) h"

definition assoc_dequote :: "assoc option \<Rightarrow> assoc option option" where
  "assoc_dequote h = apply_table dequote_string h"

definition assoc_dequote_escapes :: "ifs_state \<Rightarrow> assoc option \<Rightarrow> assoc option" where
  "assoc_dequote_escapes st h =
     (case h of
        None \<Rightarrow> None
      | Some t \<Rightarrow>
          if assoc_empty t then None
          else Some (t\<lparr>bucket_array := map (map (\<lambda>e. e\<lparr>bdata := dequote_escapes st (bdata e)\<rparr>)) (bucket_array t)\<rparr>))"

definition assoc_remove_quoted_nulls :: "assoc option \<Rightarrow> assoc option option" where
  "assoc_remove_quoted_nulls h = apply_table remove_quoted_nulls h"

fun items_to_words :: "bool \<Rightarrow> string bucket_contents list \<Rightarrow> word_list \<Rightarrow> word_list option" where
  "items_to_words keys [] list = Some list"
| "items_to_words keys (tlist # rest) list =
     (case (if keys then Some (bkey tlist) else bdata tlist) of
        None \<Rightarrow> None
      | Some w \<Rightarrow> items_to_words keys rest (make_word_list (make_bare_word w) list))"

definition assoc_to_word_list_internal :: "assoc option \<Rightarrow> bool \<Rightarrow> word_list option" where
  "assoc_to_word_list_internal h t =
     (case h of
        None \<Rightarrow> Some []
      | Some tab \<Rightarrow>
          if assoc_empty tab then Some []
          else map_option list_reverse (items_to_words t (table_items tab) []))"

definition assoc_to_word_list :: "assoc option \<Rightarrow> word_list option" where
  "assoc_to_word_list h = assoc_to_word_list_internal h False"

definition assoc_keys_to_word_list :: "assoc option \<Rightarrow> word_list option" where
  "assoc_keys_to_word_list h = assoc_to_word_list_internal h True"

text \<open>
  The two loops of \<open>assoc_subrange\<close>: skip to the start, then move \<^verbatim>\<open>t\<close> over the elements wanted. The
  list handed on is cut after \<^verbatim>\<open>t\<close>, which is the first element when no element is wanted.
\<close>

fun skip_words :: "int \<Rightarrow> int \<Rightarrow> word_list \<Rightarrow> word_list" where
  "skip_words i start [] = []"
| "skip_words i start (w # l) = (if i < start then skip_words (i + 1) start l else w # l)"

fun take_words :: "int \<Rightarrow> int \<Rightarrow> word_list \<Rightarrow> word_list" where
  "take_words j nelem [] = []"
| "take_words j nelem (w # l) = (if j < nelem then w # take_words (j + 1) nelem l else [])"

definition assoc_subrange ::
  "ifs_state \<Rightarrow> assoc \<Rightarrow> int \<Rightarrow> int \<Rightarrow> bool \<Rightarrow> int \<Rightarrow> string option option" where
  "assoc_subrange st hash start nelem starsub quoted =
     (if assoc_empty hash then Some None
      else
        (case assoc_to_word_list (Some hash) of
           None \<Rightarrow> None
         | Some save \<Rightarrow>
             let l = skip_words 1 start save
             in if l = [] then Some None
                else
                  let h = (if nelem \<le> 0 then [hd l] else take_words 0 nelem l)
                  in Some (string_list_pos_params st (if starsub then CHR ''*'' else CHR ''@'') h quoted)))"

fun assign_items :: "string bucket_contents list \<Rightarrow> string" where
  "assign_items [] = []"
| "assign_items (tlist # rest) =
     (let istr = (if sh_contains_shell_metas (bkey tlist) then sh_double_quote (bkey tlist) else bkey tlist);
          vstr = (case bdata tlist of None \<Rightarrow> [] | Some d \<Rightarrow> sh_double_quote d)
      in ''['' @ istr @ '']='' @ vstr @ '' '' @ assign_items rest)"

definition assoc_to_assign :: "assoc option \<Rightarrow> bool \<Rightarrow> string option" where
  "assoc_to_assign hash quoted =
     (case hash of
        None \<Rightarrow> None
      | Some t \<Rightarrow>
          if assoc_empty t then None
          else
            let ret = ''('' @ assign_items (table_items t) @ '')''
            in Some (if quoted then sh_single_quote ret else ret))"

fun string_words :: "bool \<Rightarrow> string bucket_contents list \<Rightarrow> word_list \<Rightarrow> word_list" where
  "string_words quoted [] list = list"
| "string_words quoted (tlist # rest) list =
     (case bdata tlist of
        None \<Rightarrow> string_words quoted rest list
      | Some w \<Rightarrow> string_words quoted rest
          (make_word_list (make_bare_word (if quoted then quote_string w else w)) list))"

definition assoc_to_string :: "assoc option \<Rightarrow> string \<Rightarrow> bool \<Rightarrow> string option" where
  "assoc_to_string h sep quoted =
     (case h of
        None \<Rightarrow> None
      | Some t \<Rightarrow>
          if assoc_empty t then Some []
          else
            let l = list_reverse (string_words quoted (table_items t) [])
            in if l \<noteq> [] then string_list_internal l sep else Some [])"

subsection \<open>The dictionary contract\<close>

definition assoc_ok :: "assoc \<Rightarrow> bool" where
  "assoc_ok t \<longleftrightarrow> hash_wf t \<and> (\<forall>k. hash_abs t k \<noteq> Some None)"

lemma assoc_reference_abs:
  assumes "hash_wf t"
  shows "snd (assoc_reference (Some t) k) = (case hash_abs t k of None \<Rightarrow> None | Some d \<Rightarrow> d)"
    and "\<exists>t'. fst (assoc_reference (Some t) k) = Some t' \<and> hash_wf t' \<and> hash_abs t' = hash_abs t"
proof -
  obtain t' r where s: "hash_search k (Some t) 0 = (Some t', r)" and wf: "hash_wf t'" "hash_abs t' = hash_abs t"
    and c: "case r of None \<Rightarrow> hash_abs t k = None
       | Some loc \<Rightarrow> hash_abs t' k = Some (bdata (item_at t' loc))"
    using hash_search_spec [OF assms, of k 0]
    by (cases "hash_search k (Some t) 0") (auto split: option.splits)
  show "snd (assoc_reference (Some t) k) = (case hash_abs t k of None \<Rightarrow> None | Some d \<Rightarrow> d)"
    using s wf c by (auto simp: assoc_reference_def split: option.splits)
  show "\<exists>t'. fst (assoc_reference (Some t) k) = Some t' \<and> hash_wf t' \<and> hash_abs t' = hash_abs t"
    using s wf by (auto simp: assoc_reference_def split: option.splits)
qed

lemma assoc_insert_abs:
  assumes "hash_wf t"
  obtains t' where "assoc_insert (Some t) k v = (Some t', 0)" and "hash_wf t'" and "hash_abs t' = (hash_abs t)(k \<mapsto> v)"
proof (rule hash_search_store [OF assms, of k v])
  fix t' loc
  assume "hash_search k (Some t) HASH_CREATE = (Some t', Some loc)"
    "hash_wf (upd_item loc (\<lambda>b. b\<lparr>bdata := v\<rparr>) t')" "hash_abs (upd_item loc (\<lambda>b. b\<lparr>bdata := v\<rparr>) t') = (hash_abs t)(k \<mapsto> v)"
  then show ?thesis by (intro that [of "upd_item loc (\<lambda>b. b\<lparr>bdata := v\<rparr>) t'"]) (simp_all add: assoc_insert_def)
qed

lemma assoc_remove_abs:
  assumes "hash_wf t"
  obtains t' where "assoc_remove (Some t) k = Some t'" and "hash_wf t'" and "hash_abs t' = (hash_abs t)(k := None)"
  using hash_remove_correct [OF assms, of k 0] by (metis assoc_remove_def fst_conv)

lemma assoc_flush_abs:
  assumes "hash_wf t"
  obtains t' where "assoc_flush (Some t) = Some t'" and "hash_wf t'" and "hash_abs t' = Map.empty"
  using hash_flush_correct [OF assms] by (metis assoc_flush_def)

lemma assoc_reference_non_null:
  "assoc_ok t \<Longrightarrow> snd (assoc_reference (Some t) k) = map_option the (hash_abs t k)"
  by (auto simp: assoc_ok_def assoc_reference_abs split: option.splits) (metis option.exhaust_sel)

interpretation adict: dictionary "\<lambda>_. True" assoc_ok "\<lambda>t k. snd (assoc_reference (Some t) k)"
  "\<lambda>k v t. the (fst (assoc_insert (Some t) k (Some v)))" "\<lambda>k t. the (assoc_remove (Some t) k)"
  "\<lambda>t. the (assoc_flush (Some t))"
proof unfold_locales
  fix m :: assoc and k k' :: string and v :: string
  assume ok: "assoc_ok m"
  then have wf: "hash_wf m" by (simp add: assoc_ok_def)
  obtain t where t: "assoc_insert (Some m) k (Some v) = (Some t, 0)" "hash_wf t" "hash_abs t = (hash_abs m)(k \<mapsto> Some v)"
    by (rule assoc_insert_abs [OF wf])
  then have okt: "assoc_ok t" using ok by (simp add: assoc_ok_def)
  then show "assoc_ok (the (fst (assoc_insert (Some m) k (Some v))))" using t by simp
  show "snd (assoc_reference (Some (the (fst (assoc_insert (Some m) k (Some v))))) k') =
      (if k' = k then Some v else snd (assoc_reference (Some m) k'))"
    using t ok okt by (simp add: assoc_reference_non_null)
  obtain r where r: "assoc_remove (Some m) k = Some r" "hash_wf r" "hash_abs r = (hash_abs m)(k := None)"
    by (rule assoc_remove_abs [OF wf])
  then have okr: "assoc_ok r" using ok by (simp add: assoc_ok_def)
  then show "assoc_ok (the (assoc_remove (Some m) k))" using r by simp
  show "snd (assoc_reference (Some (the (assoc_remove (Some m) k))) k') =
      (if k' = k then None else snd (assoc_reference (Some m) k'))"
    using r ok okr by (simp add: assoc_reference_non_null)
  obtain f where f: "assoc_flush (Some m) = Some f" "hash_wf f" "hash_abs f = Map.empty"
    by (rule assoc_flush_abs [OF wf])
  then have okf: "assoc_ok f" by (simp add: assoc_ok_def)
  then show "assoc_ok (the (assoc_flush (Some m)))" using f by simp
  show "snd (assoc_reference (Some (the (assoc_flush (Some m)))) k) = None"
    using f okf by (simp add: assoc_reference_non_null)
qed

subsection \<open>Enumerating the elements\<close>

lemma table_items_concat: "hash_wf t \<Longrightarrow> table_items t = concat (bucket_array t)"
proof -
  assume "hash_wf t"
  then have "map (\<lambda>i. hash_items i t) [0..<nat (nbuckets t)] = bucket_array t"
    by (intro nth_equalityI) (auto simp: hash_wf_def hash_items_def)
  then show ?thesis by (simp add: table_items_def)
qed

lemma hash_abs_items: "hash_wf t \<Longrightarrow> hash_abs t = map_of (map (\<lambda>e. (bkey e, bdata e)) (table_items t))"
  by (simp add: hash_abs_def chain_map_def table_items_concat)

lemma items_distinct:
  assumes "hash_wf t" shows "distinct (map bkey (table_items t))"
proof -
  have "distinct (map bkey (concat cs))"
    if "\<And>b. b < length cs \<Longrightarrow> distinct (map bkey (cs ! b))"
      and "\<And>b e. b < length cs \<Longrightarrow> e \<in> set (cs ! b) \<Longrightarrow> f (bkey e) = n + b" for cs :: "'a bucket_contents list list" and f n
    using that
  proof (induction cs arbitrary: n)
    case (Cons c cs)
    have "distinct (map bkey (concat cs))"
      using Cons.prems [of "Suc _"] by (intro Cons.IH [of "Suc n"]) force+
    moreover have "distinct (map bkey c)" using Cons.prems(1) [of 0] by simp
    moreover have "f (bkey e) = n" if "e \<in> set c" for e using Cons.prems(2) [of 0] that by simp
    moreover have "f (bkey e) > n" if "e \<in> set (concat cs)" for e
    proof -
      from that obtain c' where "c' \<in> set cs" "e \<in> set c'" by auto
      then obtain b where "b < length cs" "e \<in> set (cs ! b)" by (metis in_set_conv_nth)
      with Cons.prems(2) [of "Suc b" e] show ?thesis by simp
    qed
    ultimately show ?case by (auto simp: distinct_append) (metis less_irrefl)
  qed simp
  from this [of "bucket_array t" "\<lambda>s. hash_bucket s t" 0] assms show ?thesis
    by (simp add: table_items_concat hash_wf_def chain_wf_def)
qed

lemma items_to_words_eq:
  "keys \<or> list_all (\<lambda>e. bdata e \<noteq> None) es \<Longrightarrow>
   items_to_words keys es l = Some (rev (map (\<lambda>e. make_bare_word (if keys then bkey e else the (bdata e))) es) @ l)"
  by (induction es arbitrary: l) (auto simp: make_word_list_def)

lemma assoc_ok_items: "assoc_ok t \<Longrightarrow> list_all (\<lambda>e. bdata e \<noteq> None) (table_items t)"
proof -
  assume ok: "assoc_ok t"
  have "bdata e \<noteq> None" if "e \<in> set (table_items t)" for e
  proof -
    have "hash_abs t (bkey e) = Some (bdata e)"
      using that ok items_distinct [of t] by (auto simp: assoc_ok_def hash_abs_items comp_def intro!: map_of_is_SomeI)
    with ok show ?thesis by (metis assoc_ok_def)
  qed
  then show ?thesis by (simp add: list_all_iff)
qed

lemma assoc_words:
  assumes "assoc_ok t"
  shows "assoc_keys_to_word_list (Some t) = Some (map (\<lambda>e. make_bare_word (bkey e)) (table_items t))"
    and "assoc_to_word_list (Some t) = Some (map (\<lambda>e. make_bare_word (the (bdata e))) (table_items t))"
proof -
  have "table_items t = []" if "assoc_empty t"
    using assms that by (simp add: table_items_concat assoc_empty_def assoc_ok_def hash_wf_def)
  then show "assoc_keys_to_word_list (Some t) = Some (map (\<lambda>e. make_bare_word (bkey e)) (table_items t))"
    "assoc_to_word_list (Some t) = Some (map (\<lambda>e. make_bare_word (the (bdata e))) (table_items t))"
    using assoc_ok_items [OF assms]
    by (simp_all add: assoc_keys_to_word_list_def assoc_to_word_list_def assoc_to_word_list_internal_def
        items_to_words_eq rev_map)
qed

lemma skip_words_drop: "skip_words i start l = drop (nat (start - i)) l"
proof (induction i start l rule: skip_words.induct)
  case (2 i start w l)
  have "nat (start - i) = Suc (nat (start - (i + 1)))" if "i < start" using that by simp
  with 2 show ?case by (cases "i < start") simp_all
qed simp

lemma take_words_take: "take_words j nelem l = take (nat (nelem - j)) l"
proof (induction j nelem l rule: take_words.induct)
  case (2 j nelem w l)
  have "nat (nelem - j) = Suc (nat (nelem - (j + 1)))" if "j < nelem" using that by simp
  with 2 show ?case by (cases "j < nelem") simp_all
qed simp

subsection \<open>Properties\<close>

text \<open>
  C20. Associative arrays are maps: after any sequence of insertions, removals and flushes of a
  well-formed table with non-null data, the table is still well formed and every reference gives
  what the same sequence of map operations gives.
\<close>

theorem assoc_run_refines:
  assumes "assoc_ok t"
  shows "let step = dict_step (\<lambda>k v t. the (fst (assoc_insert (Some t) k (Some v))))
           (\<lambda>k t. the (assoc_remove (Some t) k)) (\<lambda>t. the (assoc_flush (Some t)))
    in assoc_ok (fold step ops t) \<and>
       (\<lambda>k. snd (assoc_reference (Some (fold step ops t)) k)) =
         fold map_step ops (\<lambda>k. snd (assoc_reference (Some t) k))"
proof -
  have "list_all (op_ok (\<lambda>_. True)) ops"
    unfolding list_all_iff by (metis op_ok.elims(3))
  with adict.run_refines [OF assms, of ops] show ?thesis by (simp add: Let_def)
qed

theorem assoc_run_refines_witness:
  "let step = dict_step (\<lambda>k v t. the (fst (assoc_insert (Some t) k (Some v))))
         (\<lambda>k t. the (assoc_remove (Some t) k)) (\<lambda>t. the (assoc_flush (Some t)));
       t = fold step [DUpdate ''a'' ''1'', DUpdate ''b'' ''2'', DDelete ''a''] (assoc_create 4)
   in snd (assoc_reference (Some t) ''a'') = None \<and> snd (assoc_reference (Some t) ''b'') = Some ''2''"
proof -
  have "hash_wf (hash_create 4 :: assoc)" "hash_abs (hash_create 4 :: assoc) = Map.empty"
    by (rule hash_create_wf; simp add: INT_MAX_def)+
  then have "assoc_ok (assoc_create 4)" by (simp add: assoc_ok_def assoc_create_def)
  from assoc_run_refines [OF this, of "[DUpdate ''a'' ''1'', DUpdate ''b'' ''2'', DDelete ''a'']"]
  show ?thesis by (simp add: Let_def fun_eq_iff)
qed

text \<open>
  The lists of keys and of values enumerate the array: they have equal lengths and pair up,
  no key occurs twice, and looking a key up in the paired list is \<open>assoc_reference\<close>.
\<close>

lemma assoc_lists_enumerate:
  assumes "assoc_ok t"
  shows "\<exists>ks vs. assoc_keys_to_word_list (Some t) = Some ks \<and> assoc_to_word_list (Some t) = Some vs \<and>
    length ks = length vs \<and> int (length ks) = assoc_num_elements t \<and> distinct (map word ks) \<and>
    map_of (zip (map word ks) (map word vs)) = (\<lambda>k. snd (assoc_reference (Some t) k))"
proof -
  let ?es = "table_items t"
  have wf: "hash_wf t" using assms by (simp add: assoc_ok_def)
  have mo: "map_of (zip (map bkey es) (map (\<lambda>e. the (bdata e)) es)) k =
      map_option the (map_of (map (\<lambda>e. (bkey e, bdata e)) es) k)" for es :: "string bucket_contents list" and k
    by (induction es) auto
  then have "map_of (zip (map bkey ?es) (map (\<lambda>e. the (bdata e)) ?es)) = (\<lambda>k. map_option the (hash_abs t k))"
    by (simp add: hash_abs_items [OF wf] fun_eq_iff)
  moreover have "int (length ?es) = nentries t" using wf by (simp add: table_items_concat hash_wf_def)
  ultimately show ?thesis
    using assoc_words [OF assms] items_distinct [OF wf] assoc_reference_non_null [OF assms]
    by (simp add: comp_def assoc_num_elements_def)
qed

lemma assoc_lists_enumerate_at:
  "\<exists>ks vs. assoc_keys_to_word_list (Some (assoc_create 8)) = Some ks \<and>
    assoc_to_word_list (Some (assoc_create 8)) = Some vs \<and> length ks = length vs"
proof -
  have "hash_wf (hash_create 8 :: assoc)" "hash_abs (hash_create 8 :: assoc) = Map.empty"
    by (rule hash_create_wf; simp add: INT_MAX_def)+
  then have "assoc_ok (assoc_create 8)" by (simp add: assoc_ok_def assoc_create_def)
  from assoc_lists_enumerate [OF this] show ?thesis by blast
qed

text \<open>
  C33. \<open>assoc_subrange\<close> joins the slice of the value list that starts at element \<^verbatim>\<open>start\<close> (elements
  count from one, and zero means one) and has \<^verbatim>\<open>nelem\<close> elements, or fewer at the end; but a length
  of zero is treated as a length of one, so that an empty slice yields the first element.
\<close>

theorem assoc_subrange_slice:
  assumes "assoc_ok t" and "\<not> assoc_empty t" and "assoc_to_word_list (Some t) = Some l" and "0 \<le> nelem"
  shows "assoc_subrange st t start nelem starsub quoted =
    Some (let slice = take (nat (if nelem = 0 then 1 else nelem)) (drop (nat (start - 1)) l)
          in if slice = [] then None
             else string_list_pos_params st (if starsub then CHR ''*'' else CHR ''@'') slice quoted)"
proof -
  have "take (nat (if nelem = 0 then 1 else nelem)) xs =
      (if xs = [] then [] else if nelem \<le> 0 then [hd xs] else take (nat nelem) xs)" for xs :: word_list
    using assms(4) by (cases xs) auto
  then show ?thesis
    using assms by (simp add: assoc_subrange_def skip_words_drop take_words_take Let_def)
qed

theorem assoc_subrange_slice_witness:
  "\<exists>t v. assoc_insert (Some (assoc_create 4)) ''k'' (Some ''v'') = (Some t, v) \<and>
     assoc_subrange (setifs None) t 1 0 True 0 = Some (Some ''v'')"
proof -
  have "hash_wf (hash_create 4 :: assoc)" "hash_abs (hash_create 4 :: assoc) = Map.empty"
    by (rule hash_create_wf; simp add: INT_MAX_def)+
  then obtain t where t: "assoc_insert (Some (assoc_create 4)) ''k'' (Some ''v'') = (Some t, 0)"
    "hash_wf t" "hash_abs t = [''k'' \<mapsto> Some ''v'']"
    using assoc_insert_abs [of "assoc_create 4" "''k''" "Some ''v''"] by (auto simp: assoc_create_def)
  then have ok: "assoc_ok t" by (auto simp: assoc_ok_def split: if_splits)
  have ne: "\<not> assoc_empty t"
    using hash_wf_nentries(1) [OF t(2)] t(3) by (auto simp: assoc_empty_def)
  from ne have "table_items t \<noteq> []" using t(2) by (auto simp: table_items_concat assoc_empty_def hash_wf_def)
  then obtain e es where es: "table_items t = e # es" by (cases "table_items t") auto
  have "hash_abs t (bkey e) = Some (bdata e)" by (simp add: hash_abs_items [OF t(2)] es)
  with t(3) have e: "bdata e = Some ''v''" by (simp split: if_splits)
  have w: "assoc_to_word_list (Some t) = Some (make_bare_word ''v'' # map (\<lambda>e. make_bare_word (the (bdata e))) es)"
    using assoc_words(2) [OF ok] es e by simp
  from assoc_subrange_slice [OF ok ne w, of 0 "setifs None" 1 True 0] t(1) show ?thesis
    by (simp add: string_list_pos_params_def string_list_dollar_star_def string_list_internal_def cdefs Let_def)
qed

end
