(* ===== verification/Cint.thy ===== *)
theory Cint
  imports Numconv
begin

text \<open>
  The arithmetic of \<^verbatim>\<open>intmax_t\<close> and \<^verbatim>\<open>int\<close> on integers: wrap-around, division that truncates towards
  zero, shifts, and the range of the results. Brace expansion and arithmetic evaluation share it.
\<close>

definition to_intmax :: "int \<Rightarrow> int" where
  "to_intmax x = (x + 2 ^ 63) mod 2 ^ 64 - 2 ^ 63"

definition to_int :: "int \<Rightarrow> int" where
  "to_int x = (x + 2 ^ 31) mod 2 ^ 32 - 2 ^ 31"

text \<open>Division truncates towards zero.\<close>

definition c_div :: "int \<Rightarrow> int \<Rightarrow> int" where
  "c_div a b = sgn a * sgn b * (\<bar>a\<bar> div \<bar>b\<bar>)"

definition c_mod :: "int \<Rightarrow> int \<Rightarrow> int" where
  "c_mod a b = a - c_div a b * b"

text \<open>
  Shift counts: the processors the shell is built for take the count modulo 64, C leaves counts
  outside 0 to 63 undefined.
\<close>

definition shift_left :: "int \<Rightarrow> int \<Rightarrow> int" where
  "shift_left a b = to_intmax (push_bit (nat (b mod 64)) a)"

definition shift_right :: "int \<Rightarrow> int \<Rightarrow> int" where
  "shift_right a b = drop_bit (nat (b mod 64)) a"

definition intmax :: "int \<Rightarrow> bool" where
  "intmax x \<longleftrightarrow> INTMAX_MIN \<le> x \<and> x \<le> INTMAX_MAX"

lemma intmax_iff: "intmax x \<longleftrightarrow> - (2 ^ 63) \<le> x \<and> x < 2 ^ 63"
  by (auto simp: intmax_def INTMAX_MIN_def INTMAX_MAX_def)

lemma to_intmax_id: "intmax x \<Longrightarrow> to_intmax x = x"
  by (simp add: to_intmax_def intmax_def INTMAX_MIN_def INTMAX_MAX_def)

lemma intmax_to_intmax [simp]: "intmax (to_intmax x)"
proof -
  have "0 \<le> (x + 2 ^ 63) mod 2 ^ 64" "(x + 2 ^ 63) mod 2 ^ 64 < (2 ^ 64 :: int)" by simp_all
  then show ?thesis unfolding intmax_iff to_intmax_def by simp
qed

lemma intmax_small [simp]: "intmax 0" "intmax 1" "intmax (- 1)" "intmax (of_bool P)" "intmax INTMAX_MIN"
  by (auto simp: intmax_iff INTMAX_MIN_def)

lemma intmax_signed: "intmax x \<longleftrightarrow> signed_take_bit 63 x = x"
  unfolding intmax_iff signed_take_bit_int_eq_self_iff by simp

lemma intmax_bits: "intmax x \<longleftrightarrow> (\<forall>n. bit x n \<longleftrightarrow> bit x (min 63 n))"
  unfolding intmax_signed by (auto simp: bit_eq_iff bit_signed_take_bit_iff)

lemma intmax_bitwise [simp]:
  "intmax a \<Longrightarrow> intmax b \<Longrightarrow> intmax (a AND b)" "intmax a \<Longrightarrow> intmax b \<Longrightarrow> intmax (a OR b)"
  "intmax a \<Longrightarrow> intmax b \<Longrightarrow> intmax (a XOR b)" "intmax a \<Longrightarrow> intmax (NOT a)"
  unfolding intmax_bits bit_and_iff bit_or_iff bit_xor_iff bit_not_iff by simp_all

lemma intmax_shift [simp]: "intmax (shift_left a b)" "intmax a \<Longrightarrow> intmax (shift_right a b)"
proof -
  show "intmax (shift_left a b)" by (simp add: shift_left_def)
  show "intmax (shift_right a b)" if "intmax a"
  proof -
    let ?k = "nat (b mod 64)"
    have k: "1 \<le> (2 :: int) ^ ?k" by simp
    have "a div 2 ^ ?k \<le> 2 ^ 63 - 1"
    proof (cases "0 \<le> a")
      case True
      then have "a div 2 ^ ?k \<le> a" using k zdiv_mono2 [of a 1 "2 ^ ?k"] by simp
      then show ?thesis using that by (simp add: intmax_iff)
    next
      case False
      then have "a div 2 ^ ?k < 0" using k by (simp add: div_neg_pos_less0)
      then show ?thesis by simp
    qed
    moreover have "- (2 ^ 63) \<le> a div 2 ^ ?k"
    proof (cases "0 \<le> a")
      case True
      then have "0 \<le> a div 2 ^ ?k" using k by (simp add: pos_imp_zdiv_nonneg_iff)
      then show ?thesis by (smt (verit) zero_less_power)
    next
      case False
      have "a * 2 ^ ?k \<le> a" using False k by (simp add: mult_le_cancel_left1)
      then have "a * 2 ^ ?k div 2 ^ ?k \<le> a div 2 ^ ?k" using k by (intro zdiv_mono1) simp_all
      then show ?thesis using that by (simp add: intmax_iff)
    qed
    ultimately show ?thesis by (simp add: shift_right_def drop_bit_eq_div intmax_iff)
  qed
qed

lemma c_div_pos: "0 \<le> x \<Longrightarrow> 0 < y \<Longrightarrow> c_div x y = x div y"
  by (cases "x = 0") (auto simp: c_div_def)

lemma c_div_abs: "\<bar>c_div a b\<bar> = (if b = 0 then 0 else \<bar>a\<bar> div \<bar>b\<bar>)"
  by (auto simp: c_div_def abs_mult abs_sgn_eq intro!: abs_of_nonneg pos_imp_zdiv_nonneg_iff [THEN iffD2])

lemma c_div_1 [simp]: "c_div a 1 = a"
  by (simp add: c_div_def abs_mult_sgn mult.commute)

lemma c_div_0 [simp]: "c_div a 0 = 0"
  by (simp add: c_div_def)

text \<open>The remainder has the sign of the dividend and is smaller than the divisor.\<close>

lemma c_mod_eq: "c_mod a b = sgn a * (\<bar>a\<bar> mod \<bar>b\<bar>)"
proof (cases "b = 0")
  case True
  then show ?thesis by (simp add: c_mod_def mult.commute abs_mult_sgn)
next
  case False
  have "c_div a b * b = sgn a * (\<bar>a\<bar> div \<bar>b\<bar> * \<bar>b\<bar>)"
    unfolding c_div_def by (simp add: abs_sgn [of b] algebra_simps)
  moreover have "\<bar>a\<bar> div \<bar>b\<bar> * \<bar>b\<bar> = \<bar>a\<bar> - \<bar>a\<bar> mod \<bar>b\<bar>"
    by (simp add: minus_mod_eq_div_mult)
  ultimately have "c_mod a b = a - sgn a * \<bar>a\<bar> + sgn a * (\<bar>a\<bar> mod \<bar>b\<bar>)"
    unfolding c_mod_def by (simp add: right_diff_distrib)
  then show ?thesis by (simp add: abs_mult_sgn mult.commute)
qed

lemma intmax_c_mod [simp]: assumes "intmax a" shows "intmax (c_mod a b)"
proof -
  let ?r = "\<bar>a\<bar> mod \<bar>b\<bar>"
  have r: "0 \<le> ?r" "?r \<le> \<bar>a\<bar>" by (cases "b = 0", simp_all add: zmod_le_nonneg_dividend)
  show ?thesis unfolding c_mod_eq using assms r by (auto simp: intmax_iff sgn_if)
qed

lemma intmax_c_div:
  assumes "intmax a" and "\<not> (a = INTMAX_MIN \<and> b = - 1)" shows "intmax (c_div a b)"
proof (cases "\<bar>b\<bar> \<le> 1")
  case True
  then consider "b = 0" | "b = 1" | "b = - 1" by linarith
  then show ?thesis
    by cases (use assms in \<open>auto simp: c_div_def intmax_iff INTMAX_MIN_def abs_if sgn_if\<close>)
next
  case False
  have "\<bar>a\<bar> div \<bar>b\<bar> \<le> \<bar>a\<bar> div 2" using False by (intro zdiv_mono2) simp_all
  then have "\<bar>c_div a b\<bar> \<le> \<bar>a\<bar> div 2" using False by (auto simp: c_div_abs)
  then show ?thesis using assms(1) unfolding intmax_iff by linarith
qed

end
