(* ===== verification/Array.thy ===== *)
theory Array
  imports Dictionary Cint Quoting CtlQuote
begin

text \<open>
  Indexed arrays (\<^verbatim>\<open>array.c\<close>). The source keeps the elements in a doubly linked ring around a dummy head,
  ordered by index, and remembers the element touched last (\<^verbatim>\<open>lastarray\<close>, \<^verbatim>\<open>lastref\<close>) so that the next
  search of the same array can start there instead of at the front.

  Here the ring is the list of its elements, each with the address it was allocated at, and an array
  has an identity that stands for its own address. The two static variables form the state
  \<open>acache\<close>, together with the next free address. \<open>LASTREF_START\<close> looks the remembered address up in the
  array's own elements: an address that is not there is a dangling pointer, and the operation that
  would follow it has the value \<open>None\<close>. Indices are integers; where the code computes with them, in
  shifting, the result is that of \<^verbatim>\<open>intmax_t\<close> with its wrap-around.
\<close>

record array_element =
  addr :: nat
  ind :: int
  evalue :: "string option"

datatype atype = array_indexed | array_assoc

record array =
  aid :: nat
  atype :: atype
  max_index :: int
  num_elements :: int
  elems :: "array_element list"

record acache =
  lastarray :: "nat option"
  lastref :: nat
  next_addr :: nat

definition array_empty :: "array \<Rightarrow> bool" where
  "array_empty a \<longleftrightarrow> num_elements a = 0"

definition IS_LASTREF :: "acache \<Rightarrow> array \<Rightarrow> bool" where
  "IS_LASTREF st a \<longleftrightarrow> lastarray st = Some (aid a)"

fun position_of :: "nat \<Rightarrow> array_element list \<Rightarrow> nat option" where
  "position_of p [] = None"
| "position_of p (e # es) = (if addr e = p then Some 0 else map_option Suc (position_of p es))"

definition LASTREF_START :: "acache \<Rightarrow> array \<Rightarrow> int \<Rightarrow> nat option" where
  "LASTREF_START st a i =
     (if IS_LASTREF st a then
        (case position_of (lastref st) (elems a) of
           None \<Rightarrow> None
         | Some p \<Rightarrow> Some (if i \<ge> ind (elems a ! p) then p else 0))
      else Some 0)"

definition INVALIDATE_LASTREF :: "acache \<Rightarrow> array \<Rightarrow> acache" where
  "INVALIDATE_LASTREF st a = (if lastarray st = Some (aid a) then st\<lparr>lastarray := None, lastref := 0\<rparr> else st)"

definition SET_LASTREF :: "acache \<Rightarrow> array \<Rightarrow> array_element \<Rightarrow> acache" where
  "SET_LASTREF st a e = st\<lparr>lastarray := Some (aid a), lastref := addr e\<rparr>"

definition UNSET_LASTREF :: "acache \<Rightarrow> acache" where
  "UNSET_LASTREF st = st\<lparr>lastarray := None, lastref := 0\<rparr>"

definition array_create_element :: "acache \<Rightarrow> int \<Rightarrow> string option \<Rightarrow> acache \<times> array_element" where
  "array_create_element st indx value =
     (st\<lparr>next_addr := Suc (next_addr st)\<rparr>, \<lparr>addr = next_addr st, ind = indx, evalue = value\<rparr>)"

definition array_create :: "acache \<Rightarrow> acache \<times> array" where
  "array_create st =
     (st\<lparr>next_addr := Suc (next_addr st)\<rparr>,
      \<lparr>aid = next_addr st, atype = array_indexed, max_index = -1, num_elements = 0, elems = []\<rparr>)"

definition array_flush :: "acache \<Rightarrow> array \<Rightarrow> acache \<times> array" where
  "array_flush st a =
     (INVALIDATE_LASTREF st a, a\<lparr>elems := [], max_index := -1, num_elements := 0\<rparr>)"

fun copy_elements :: "acache \<Rightarrow> array_element list \<Rightarrow> acache \<times> array_element list" where
  "copy_elements st [] = (st, [])"
| "copy_elements st (ae # es) =
     (case array_create_element st (ind ae) (evalue ae) of
        (st1, new) \<Rightarrow> (case copy_elements st1 es of (st2, news) \<Rightarrow> (st2, new # news)))"

definition array_copy :: "acache \<Rightarrow> array option \<Rightarrow> acache \<times> array option" where
  "array_copy st a =
     (case a of
        None \<Rightarrow> (st, None)
      | Some a \<Rightarrow>
          (case array_create st of
             (st1, a1) \<Rightarrow>
               (case copy_elements st1 (elems a) of
                  (st2, es) \<Rightarrow>
                    (st2, Some (a1\<lparr>atype := atype a, max_index := max_index a,
                                   num_elements := num_elements a, elems := es\<rparr>)))))"

text \<open>\<open>array_slice\<close> copies the elements from position \<open>s\<close> up to, not including, position \<open>e\<close>.\<close>

definition array_slice :: "acache \<Rightarrow> array \<Rightarrow> nat \<Rightarrow> nat \<Rightarrow> acache \<times> array" where
  "array_slice st array s e =
     (case array_create st of
        (st1, a) \<Rightarrow>
          (case copy_elements st1 (take (e - s) (drop s (elems array))) of
             (st2, es) \<Rightarrow>
               (st2, a\<lparr>atype := atype array, elems := es, num_elements := int (length es),
                       max_index := (if es = [] then 0 else ind (last es))\<rparr>)))"

fun walk_elements :: "('s \<Rightarrow> array_element \<Rightarrow> 's \<times> int) \<Rightarrow> array_element list \<Rightarrow> 's \<Rightarrow> 's" where
  "walk_elements func [] s = s"
| "walk_elements func (ae # es) s = (case func s ae of (s', r) \<Rightarrow> if r < 0 then s' else walk_elements func es s')"

definition array_walk :: "array option \<Rightarrow> ('s \<Rightarrow> array_element \<Rightarrow> 's \<times> int) \<Rightarrow> 's \<Rightarrow> 's" where
  "array_walk a func udata =
     (case a of None \<Rightarrow> udata | Some a \<Rightarrow> if array_empty a then udata else walk_elements func (elems a) udata)"

definition AS_DISPOSE :: int where [cdefs]: "AS_DISPOSE = 0x01"

text \<open>\<open>array_shift\<close> returns the elements taken out, none when it disposes of them itself.\<close>

definition array_shift :: "acache \<Rightarrow> array \<Rightarrow> int \<Rightarrow> int \<Rightarrow> acache \<times> array \<times> array_element list" where
  "array_shift st a n flags =
     (if array_empty a \<or> n \<le> 0 then (st, a, [])
      else
        let st = INVALIDATE_LASTREF st a;
            ret = (if flags AND AS_DISPOSE \<noteq> 0 then [] else take (nat n) (elems a))
        in if length (elems a) \<le> nat n then
             (st, a\<lparr>elems := [], max_index := -1, num_elements := 0\<rparr>, ret)
           else
             let es = map (\<lambda>ae. ae\<lparr>ind := to_intmax (ind ae - n)\<rparr>) (drop (nat n) (elems a))
             in (st, a\<lparr>elems := es, num_elements := num_elements a - n, max_index := ind (last es)\<rparr>, ret))"

definition array_rshift :: "acache \<Rightarrow> array \<Rightarrow> int \<Rightarrow> string option \<Rightarrow> acache \<times> array \<times> int" where
  "array_rshift st a n s =
     (if array_empty a \<and> s = None then (st, a, 0)
      else if n \<le> 0 then (st, a, num_elements a)
      else
        let (st1, new) = (case s of
              None \<Rightarrow> (st, [])
            | Some v \<Rightarrow> (case array_create_element st 0 s of (st1, e) \<Rightarrow> (st1, [e])));
            num = num_elements a + int (length new)
        in if new \<noteq> [] \<and> num = 1 then
             (st1, a\<lparr>elems := new @ elems a, num_elements := num, max_index := 0\<rparr>, 1)
           else
             let es = new @ map (\<lambda>ae. ae\<lparr>ind := to_intmax (ind ae + n)\<rparr>) (elems a)
             in (INVALIDATE_LASTREF st1 a,
                 a\<lparr>elems := es, num_elements := num, max_index := ind (last es)\<rparr>, num))"

definition array_unshift_element :: "acache \<Rightarrow> array \<Rightarrow> acache \<times> array \<times> array_element list" where
  "array_unshift_element st a = array_shift st a 1 0"

definition array_shift_element :: "acache \<Rightarrow> array \<Rightarrow> string option \<Rightarrow> acache \<times> array \<times> int" where
  "array_shift_element st a v = array_rshift st a 1 v"

subsection \<open>Elements\<close>

datatype found = Replace nat | Before nat | Problem

fun insert_loop :: "int \<Rightarrow> array_element list \<Rightarrow> nat \<Rightarrow> found" where
  "insert_loop i [] k = Problem"
| "insert_loop i (ae # es) k =
     (if ind ae = i then Replace k
      else if ind ae > i then Before k
      else insert_loop i es (Suc k))"

definition array_insert :: "acache \<Rightarrow> array option \<Rightarrow> int \<Rightarrow> string option \<Rightarrow> (acache \<times> array option \<times> int) option" where
  "array_insert st a i v =
     (case a of
        None \<Rightarrow> Some (st, None, -1)
      | Some a \<Rightarrow>
          (case array_create_element st i v of
             (st, new) \<Rightarrow>
               if i > max_index a then
                 (let a' = a\<lparr>elems := elems a @ [new], max_index := i, num_elements := num_elements a + 1\<rparr>
                  in Some (SET_LASTREF st a' new, Some a', 0))
               else
                 (case LASTREF_START st a i of
                    None \<Rightarrow> None
                  | Some start \<Rightarrow>
                      (case insert_loop i (drop start (elems a)) start of
                         Replace k \<Rightarrow>
                           (let a' = a\<lparr>elems := (elems a)[k := (elems a ! k)\<lparr>evalue := v\<rparr>]\<rparr>
                            in Some (SET_LASTREF st a' (elems a' ! k), Some a', 0))
                       | Before k \<Rightarrow>
                           (let a' = a\<lparr>elems := take k (elems a) @ new # drop k (elems a),
                                       num_elements := num_elements a + 1\<rparr>
                            in Some (SET_LASTREF st a' new, Some a', 0))
                       | Problem \<Rightarrow> Some (INVALIDATE_LASTREF st a, Some a, -1)))))"

fun search_loop :: "int \<Rightarrow> array_element list \<Rightarrow> nat \<Rightarrow> nat option" where
  "search_loop i [] k = None"
| "search_loop i (ae # es) k = (if ind ae = i then Some k else search_loop i es (Suc k))"

definition array_remove :: "acache \<Rightarrow> array option \<Rightarrow> int \<Rightarrow> (acache \<times> array option \<times> array_element option) option" where
  "array_remove st a i =
     (case a of
        None \<Rightarrow> Some (st, None, None)
      | Some a \<Rightarrow>
          if array_empty a then Some (st, Some a, None)
          else
            (case LASTREF_START st a i of
               None \<Rightarrow> None
             | Some start \<Rightarrow>
                 (case search_loop i (drop start (elems a)) start of
                    None \<Rightarrow> Some (st, Some a, None)
                  | Some k \<Rightarrow>
                      let es = elems a;
                          a' = a\<lparr>elems := take k es @ drop (Suc k) es, num_elements := num_elements a - 1,
                                 max_index := (if i = max_index a then (if k = 0 then -1 else ind (es ! (k - 1)))
                                               else max_index a)\<rparr>;
                          st' = (if Suc k < length es then SET_LASTREF st a (es ! Suc k)
                                 else if 0 < k then SET_LASTREF st a (es ! (k - 1))
                                 else INVALIDATE_LASTREF st a)
                      in Some (st', Some a', Some (es ! k)))))"

definition array_reference :: "acache \<Rightarrow> array option \<Rightarrow> int \<Rightarrow> (acache \<times> string option) option" where
  "array_reference st a i =
     (case a of
        None \<Rightarrow> Some (st, None)
      | Some a \<Rightarrow>
          if array_empty a then Some (st, None)
          else if i > max_index a then Some (st, None)
          else
            (case LASTREF_START st a i of
               None \<Rightarrow> None
             | Some start \<Rightarrow>
                 (case search_loop i (drop start (elems a)) start of
                    Some k \<Rightarrow> Some (SET_LASTREF st a (elems a ! k), evalue (elems a ! k))
                  | None \<Rightarrow> Some (UNSET_LASTREF st, None))))"

subsection \<open>Quoting and conversion\<close>

text \<open>
  As for associative arrays, an operation that reads a null value through a string function has
  the value \<open>None\<close>; a null pointer returned is the inner \<open>None\<close>.
\<close>

fun apply_elements :: "(string \<Rightarrow> string) \<Rightarrow> array_element list \<Rightarrow> array_element list option" where
  "apply_elements f [] = Some []"
| "apply_elements f (a # es) =
     (case evalue a of
        None \<Rightarrow> None
      | Some v \<Rightarrow> map_option ((#) (a\<lparr>evalue := Some (f v)\<rparr>)) (apply_elements f es))"

definition apply_array :: "(string \<Rightarrow> string) \<Rightarrow> array option \<Rightarrow> array option option" where
  "apply_array f array =
     (case array of
        None \<Rightarrow> Some None
      | Some a \<Rightarrow> if array_empty a then Some None else map_option (\<lambda>es. Some (a\<lparr>elems := es\<rparr>)) (apply_elements f (elems a)))"

definition array_quote :: "array option \<Rightarrow> array option option" where
  "array_quote array = apply_array quote_string array"

definition array_quote_escapes :: "ifs_state \<Rightarrow> array option \<Rightarrow> array option option" where
  "array_quote_escapes ifs array = apply_array (quote_escapes ifs) array"

definition array_dequote :: "array option \<Rightarrow> array option option" where
  "array_dequote array = apply_array dequote_string array"

definition array_dequote_escapes :: "ifs_state \<Rightarrow> array option \<Rightarrow> array option" where
  "array_dequote_escapes ifs array =
     (case array of
        None \<Rightarrow> None
      | Some a \<Rightarrow>
          if array_empty a then None
          else Some (a\<lparr>elems := map (\<lambda>e. e\<lparr>evalue := dequote_escapes ifs (evalue e)\<rparr>) (elems a)\<rparr>))"

definition array_remove_quoted_nulls :: "array option \<Rightarrow> array option option" where
  "array_remove_quoted_nulls array = apply_array remove_quoted_nulls array"

fun element_words :: "array_element list \<Rightarrow> word_list \<Rightarrow> word_list option" where
  "element_words [] list = Some list"
| "element_words (ae # es) list =
     (case evalue ae of
        None \<Rightarrow> None
      | Some v \<Rightarrow> element_words es (make_word_list (make_bare_word v) list))"

definition array_to_word_list :: "array option \<Rightarrow> word_list option" where
  "array_to_word_list a =
     (case a of
        None \<Rightarrow> Some []
      | Some a \<Rightarrow> if array_empty a then Some [] else map_option list_reverse (element_words (elems a) []))"

fun key_words :: "array_element list \<Rightarrow> word_list \<Rightarrow> word_list" where
  "key_words [] list = list"
| "key_words (ae # es) list = key_words es (make_word_list (make_bare_word (itos (ind ae))) list)"

definition array_keys_to_word_list :: "array option \<Rightarrow> word_list" where
  "array_keys_to_word_list a =
     (case a of
        None \<Rightarrow> []
      | Some a \<Rightarrow> if array_empty a then [] else list_reverse (key_words (elems a) []))"

fun assign_loop :: "acache \<Rightarrow> array option \<Rightarrow> word_list \<Rightarrow> int \<Rightarrow> (acache \<times> array option) option" where
  "assign_loop st array [] i = Some (st, array)"
| "assign_loop st array (l # list) i =
     (case array_insert st array i (Some (word l)) of
        None \<Rightarrow> None
      | Some (st', array', r) \<Rightarrow> assign_loop st' array' list (i + 1))"

definition array_assign_list :: "acache \<Rightarrow> array option \<Rightarrow> word_list \<Rightarrow> (acache \<times> array option) option" where
  "array_assign_list st array list = assign_loop st array list 0"

definition array_from_word_list :: "acache \<Rightarrow> word_list \<Rightarrow> (acache \<times> array option) option" where
  "array_from_word_list st list =
     (if list = [] then Some (st, None)
      else case array_create st of (st', a) \<Rightarrow> array_assign_list st' (Some a) list)"

definition array_to_argv :: "array option \<Rightarrow> strvec option" where
  "array_to_argv a =
     (case a of
        None \<Rightarrow> None
      | Some a \<Rightarrow>
          if array_empty a then None
          else Some (map (\<lambda>ae. case evalue ae of None \<Rightarrow> Null | Some t \<Rightarrow> Ptr t) (elems a) @ [Null]))"

fun to_string_loop :: "array_element list \<Rightarrow> string \<Rightarrow> bool \<Rightarrow> string" where
  "to_string_loop [] sep quoted = []"
| "to_string_loop (ae # es) sep quoted =
     (case evalue ae of
        None \<Rightarrow> to_string_loop es sep quoted
      | Some v \<Rightarrow> (if quoted then quote_string v else v) @ (if es \<noteq> [] then sep else []) @ to_string_loop es sep quoted)"

definition array_to_string_internal :: "array_element list \<Rightarrow> string \<Rightarrow> bool \<Rightarrow> string option" where
  "array_to_string_internal es sep quoted = (if es = [] then None else Some (to_string_loop es sep quoted))"

definition array_to_string :: "array option \<Rightarrow> string \<Rightarrow> bool \<Rightarrow> string option" where
  "array_to_string a sep quoted =
     (case a of
        None \<Rightarrow> None
      | Some a \<Rightarrow> if array_empty a then Some [] else array_to_string_internal (elems a) sep quoted)"

fun to_assign_loop :: "array_element list \<Rightarrow> string" where
  "to_assign_loop [] = []"
| "to_assign_loop (ae # es) =
     (let is = buf_text (inttostr (ind ae) (INT_STRLEN_BOUND True + 1));
          valstr = (case evalue ae of None \<Rightarrow> [] | Some v \<Rightarrow> sh_double_quote v)
      in ''['' @ is @ '']='' @ valstr @ (if es \<noteq> [] then '' '' else []) @ to_assign_loop es)"

definition array_to_assign :: "array option \<Rightarrow> bool \<Rightarrow> string option" where
  "array_to_assign a quoted =
     (case a of
        None \<Rightarrow> None
      | Some a \<Rightarrow>
          if array_empty a then None
          else
            let result = ''('' @ to_assign_loop (elems a) @ '')''
            in Some (if quoted then sh_single_quote result else result))"

text \<open>
  \<open>array_subrange\<close> copies the elements wanted into a new array, quotes them and joins them. Quoting
  an empty copy returns a null pointer, which the source ignores: the copy stays as it is.
\<close>

fun skip_below :: "int \<Rightarrow> array_element list \<Rightarrow> nat \<Rightarrow> nat" where
  "skip_below start [] k = k"
| "skip_below start (p # es) k = (if start > ind p then skip_below start es (Suc k) else k)"

fun take_elements :: "int \<Rightarrow> int \<Rightarrow> array_element list \<Rightarrow> nat \<Rightarrow> nat" where
  "take_elements i nelem [] k = k"
| "take_elements i nelem (p # es) k = (if i < nelem then take_elements (i + 1) nelem es (Suc k) else k)"

definition in_place :: "array \<Rightarrow> array option option \<Rightarrow> array option" where
  "in_place a r = map_option (\<lambda>x. case x of None \<Rightarrow> a | Some b \<Rightarrow> b) r"

definition at_separator :: "ifs_state \<Rightarrow> string" where
  "at_separator ifs =
     (if ifs_value ifs = None \<or> ifs_value ifs = Some [] then '' '' else fst (ifs_firstchar ifs))"

definition array_subrange ::
  "acache \<Rightarrow> ifs_state \<Rightarrow> array option \<Rightarrow> int \<Rightarrow> int \<Rightarrow> bool \<Rightarrow> int \<Rightarrow> string option option" where
  "array_subrange st ifs a start nelem starsub quoted =
     (case a of
        None \<Rightarrow> Some None
      | Some a \<Rightarrow>
          if array_empty a \<or> start > max_index a then Some None
          else
            let h = skip_below start (elems a) 0
            in if h = length (elems a) then Some None
               else
                 let p = take_elements 0 nelem (drop h (elems a)) h;
                     a2 = snd (array_slice st a h p);
                     inq = (quoted AND (Q_DOUBLE_QUOTES OR Q_HERE_DOCUMENT) \<noteq> 0)
                 in case in_place a2 (if inq then array_quote (Some a2) else array_quote_escapes ifs (Some a2)) of
                      None \<Rightarrow> None
                    | Some a2 \<Rightarrow>
                        if starsub \<and> inq then
                          map_option (\<lambda>a2. array_to_string (Some a2) (fst (ifs_firstchar ifs)) False)
                            (in_place a2 (array_remove_quoted_nulls (Some a2)))
                        else if inq then Some (array_to_string (Some a2) (at_separator ifs) False)
                        else Some (array_to_string (Some a2) '' '' False))"

subsection \<open>Invariant and abstraction\<close>

definition array_wf :: "array \<Rightarrow> bool" where
  "array_wf a \<longleftrightarrow>
     sorted_wrt (<) (map ind (elems a)) \<and> (\<forall>e \<in> set (elems a). 0 \<le> ind e) \<and>
     num_elements a = int (length (elems a)) \<and>
     max_index a = (if elems a = [] then -1 else ind (last (elems a))) \<and>
     distinct (map addr (elems a))"

text \<open>The remembered element belongs to the array it is remembered for, and addresses are fresh.\<close>

definition cache_ok :: "acache \<Rightarrow> array \<Rightarrow> bool" where
  "cache_ok st a \<longleftrightarrow>
     (lastarray st = Some (aid a) \<longrightarrow> lastref st \<in> addr ` set (elems a)) \<and>
     (\<forall>e \<in> set (elems a). addr e < next_addr st)"

definition array_abs :: "array \<Rightarrow> int \<rightharpoonup> string option" where
  "array_abs a = map_of (map (\<lambda>e. (ind e, evalue e)) (elems a))"

lemma position_of_Some:
  "p \<in> addr ` set es \<Longrightarrow> \<exists>k. position_of p es = Some k \<and> k < length es \<and> addr (es ! k) = p"
  by (induction es) auto

lemma inds_mono:
  assumes "sorted_wrt (<) (map ind es)" and "j < k" and "k < length es"
  shows "ind (es ! j) < ind (es ! k)"
  using sorted_wrt_nth_less [OF assms(1,2)] assms(2,3) by simp

text \<open>Wherever the search starts, no element in front of the start has an index of \<open>i\<close> or more.\<close>

lemma LASTREF_START_ok:
  assumes "array_wf a" and "cache_ok st a"
  obtains p where "LASTREF_START st a i = Some p" and "p \<le> length (elems a)"
    and "\<forall>j < p. ind (elems a ! j) < i"
proof (cases "IS_LASTREF st a")
  case True
  with assms(2) position_of_Some [of "lastref st" "elems a"] obtain k where
    k: "position_of (lastref st) (elems a) = Some k" "k < length (elems a)"
    by (auto simp: cache_ok_def IS_LASTREF_def)
  have "\<forall>j < k. ind (elems a ! j) < i" if "i \<ge> ind (elems a ! k)"
    using inds_mono [of "elems a" _ k] assms(1) k(2) that by (fastforce simp: array_wf_def)
  then show ?thesis
    using True k by (intro that [of "if i \<ge> ind (elems a ! k) then k else 0"]) (auto simp: LASTREF_START_def)
next
  case False
  then show ?thesis by (intro that [of 0]) (simp_all add: LASTREF_START_def)
qed

lemma search_loop_bounds:
  "search_loop i es k = Some j \<Longrightarrow> k \<le> j \<and> j < k + length es \<and> ind (es ! (j - k)) = i"
proof (induction es arbitrary: k)
  case (Cons e es)
  show ?case
  proof (cases "ind e = i")
    case False
    with Cons have "search_loop i es (Suc k) = Some j" by simp
    from Cons.IH [OF this] show ?thesis by (auto simp: nth_Cons' Suc_diff_le)
  qed (use Cons.prems in simp)
qed simp

lemma search_loop_None: "search_loop i es k = None \<longleftrightarrow> (\<forall>e \<in> set es. ind e \<noteq> i)"
  by (induction es arbitrary: k) auto

lemma search_from_start:
  assumes "p \<le> length es" and "\<forall>j < p. ind (es ! j) < i"
  shows "search_loop i (drop p es) p = None \<longleftrightarrow> (\<forall>e \<in> set es. ind e \<noteq> i)"
    and "search_loop i (drop p es) p = Some k \<Longrightarrow> k < length es \<and> ind (es ! k) = i"
proof -
  have "set es = set (take p es) \<union> set (drop p es)" by (metis append_take_drop_id set_append)
  moreover have "\<forall>e \<in> set (take p es). ind e \<noteq> i"
    using assms by (fastforce simp: in_set_conv_nth)
  ultimately show "search_loop i (drop p es) p = None \<longleftrightarrow> (\<forall>e \<in> set es. ind e \<noteq> i)"
    by (auto simp: search_loop_None)
  show "search_loop i (drop p es) p = Some k \<Longrightarrow> k < length es \<and> ind (es ! k) = i"
    using search_loop_bounds [of i "drop p es" p k] assms(1) by auto
qed

lemma insert_loop_result:
  assumes "p \<le> length es" and "\<forall>j < p. ind (es ! j) < i"
  shows "case insert_loop i (drop p es) p of
      Replace k \<Rightarrow> k < length es \<and> ind (es ! k) = i
    | Before k \<Rightarrow> k < length es \<and> i < ind (es ! k) \<and> (\<forall>j < k. ind (es ! j) < i)
    | Problem \<Rightarrow> \<forall>e \<in> set es. ind e < i"
  using assms
proof (induction "length es - p" arbitrary: p)
  case 0
  then have "p = length es" by simp
  with 0 show ?case by (auto simp: in_set_conv_nth)
next
  case (Suc n)
  then have p: "p < length es" by simp
  then have d: "drop p es = es ! p # drop (Suc p) es" by (simp add: Cons_nth_drop_Suc)
  show ?case
  proof (cases "ind (es ! p) \<ge> i")
    case True
    with d p Suc.prems show ?thesis by auto
  next
    case False
    then have "\<forall>j < Suc p. ind (es ! j) < i" using Suc.prems by (auto simp: less_Suc_eq)
    with Suc.hyps(1) [of "Suc p"] Suc.hyps(2) p False d show ?thesis by auto
  qed
qed

lemma array_abs_nth:
  assumes "array_wf a" and "k < length (elems a)"
  shows "array_abs a (ind (elems a ! k)) = Some (evalue (elems a ! k))"
proof -
  have "distinct (map ind (elems a))"
    using assms(1) by (simp add: array_wf_def strict_sorted_iff)
  then show ?thesis
    using assms(2) by (auto simp: array_abs_def comp_def intro!: map_of_is_SomeI)
qed

lemma array_abs_None: "array_abs a i = None \<longleftrightarrow> (\<forall>e \<in> set (elems a). ind e \<noteq> i)"
  by (auto simp: array_abs_def map_of_eq_None_iff image_image)


lemma array_max_bound: "array_wf a \<Longrightarrow> e \<in> set (elems a) \<Longrightarrow> ind e \<le> max_index a"
proof -
  assume a: "array_wf a" "e \<in> set (elems a)"
  then obtain k where k: "k < length (elems a)" "elems a ! k = e" by (auto simp: in_set_conv_nth)
  show ?thesis
  proof (cases "Suc k = length (elems a)")
    case True
    then have "k = length (elems a) - 1" by simp
    with a k show ?thesis by (auto simp: array_wf_def last_conv_nth)
  next
    case False
    with k have "k < length (elems a) - 1" by simp
    with inds_mono [of "elems a" k "length (elems a) - 1"] a k show ?thesis
      by (auto simp: array_wf_def last_conv_nth)
  qed
qed

lemma array_empty_iff: "array_wf a \<Longrightarrow> array_empty a \<longleftrightarrow> elems a = []"
  by (simp add: array_empty_def array_wf_def)

text \<open>The lookup with the remembered start finds what a lookup from the front would.\<close>

lemma array_reference_abs:
  assumes "array_wf a" and "cache_ok st a"
  obtains st' where "array_reference st (Some a) i = Some (st', Option.bind (array_abs a i) id)"
    and "cache_ok st' a" and "next_addr st' = next_addr st" and "lastarray st' \<in> {lastarray st, None, Some (aid a)}"
proof (cases "array_empty a \<or> i > max_index a")
  case True
  then have "array_abs a i = None"
    using assms(1) array_max_bound [OF assms(1)] by (force simp: array_abs_None array_empty_iff)
  with True assms(2) show ?thesis by (intro that [of st]) (auto simp: array_reference_def)
next
  case False
  from LASTREF_START_ok [OF assms, of i] obtain p where p: "LASTREF_START st a i = Some p" "p \<le> length (elems a)"
    "\<forall>j < p. ind (elems a ! j) < i" by blast
  show ?thesis
  proof (cases "search_loop i (drop p (elems a)) p")
    case None
    then have "array_abs a i = None" using search_from_start(1) [OF p(2,3)] by (simp add: array_abs_None)
    with None False p assms(2) show ?thesis
      by (intro that [of "UNSET_LASTREF st"]) (auto simp: array_reference_def UNSET_LASTREF_def cache_ok_def)
  next
    case (Some k)
    from search_from_start(2) [OF p(2,3) Some] have k: "k < length (elems a)" "ind (elems a ! k) = i" by auto
    with array_abs_nth [OF assms(1) k(1)] Some False p assms(2) show ?thesis
      by (intro that [of "SET_LASTREF st a (elems a ! k)"])
        (auto simp: array_reference_def SET_LASTREF_def cache_ok_def)
  qed
qed

lemma abs_split:
  "\<forall>x \<in> set xs. ind x \<noteq> ind e \<Longrightarrow>
   map_of (map (\<lambda>e. (ind e, evalue e)) (xs @ e # ys)) =
     (map_of (map (\<lambda>e. (ind e, evalue e)) (xs @ ys)))(ind e \<mapsto> evalue e)"
  by (induction xs) auto

lemma sorted_wrt_insert:
  assumes "sorted_wrt (<) (map ind es)" and "\<forall>j < k. ind (es ! j) < i" and "\<forall>j. k \<le> j \<and> j < length es \<longrightarrow> i < ind (es ! j)"
    and "ind new = i"
  shows "sorted_wrt (<) (map ind (take k es @ new # drop k es))"
proof -
  have "sorted_wrt (<) (map ind (take k es))" "sorted_wrt (<) (map ind (drop k es))"
    using assms(1) by (simp_all add: take_map [symmetric] drop_map [symmetric] sorted_wrt_take sorted_wrt_drop)
  moreover have "\<forall>x \<in> set (take k es). ind x < i" "\<forall>x \<in> set (drop k es). i < ind x"
    using assms(2,3) by (auto simp: in_set_conv_nth)
  ultimately show ?thesis using assms(4) by (force simp: sorted_wrt_append)
qed

lemma array_insert_before:
  assumes "array_wf a" and "k < length (elems a)" and "i < ind (elems a ! k)" and "\<forall>j < k. ind (elems a ! j) < i"
    and "0 \<le> i" and "ind new = i" and "addr new \<notin> addr ` set (elems a)"
    and a': "a' = a\<lparr>elems := take k (elems a) @ new # drop k (elems a), num_elements := num_elements a + 1\<rparr>"
  shows "array_wf a'" and "array_abs a' = (array_abs a)(i \<mapsto> evalue new)"
proof -
  let ?es = "elems a"
  have s: "sorted_wrt (<) (map ind ?es)" using assms(1) by (simp add: array_wf_def)
  have after: "\<forall>j. k \<le> j \<and> j < length ?es \<longrightarrow> i < ind (?es ! j)"
    using inds_mono [OF s, of k] assms(3) by (metis le_neq_implies_less less_trans)
  have dist: "distinct (map addr (take k ?es @ new # drop k ?es))"
  proof -
    have "distinct (map addr (take k ?es) @ map addr (drop k ?es))"
      using assms(1) by (simp add: array_wf_def flip: map_append)
    moreover have "set ?es = set (take k ?es) \<union> set (drop k ?es)" by (metis append_take_drop_id set_append)
    ultimately show ?thesis using assms(7) unfolding distinct_append map_append list.map by auto
  qed
  show "array_wf a'"
    using sorted_wrt_insert [OF s assms(4) after assms(6)] dist assms(1,2,5,6)
    by (auto simp: array_wf_def a' last_append dest: in_set_takeD in_set_dropD)
  have "\<forall>x \<in> set (take k ?es). ind x \<noteq> i" using assms(2,4) by (fastforce simp: in_set_conv_nth)
  with assms(6) have "\<forall>x \<in> set (take k ?es). ind x \<noteq> ind new" by simp
  from abs_split [OF this, of "drop k ?es"] show "array_abs a' = (array_abs a)(i \<mapsto> evalue new)"
    unfolding append_take_drop_id by (simp add: array_abs_def a' assms(6))
qed

lemma array_replace_value:
  assumes "array_wf a" and "k < length (elems a)"
    and a': "a' = a\<lparr>elems := (elems a)[k := (elems a ! k)\<lparr>evalue := v\<rparr>]\<rparr>"
  shows "array_wf a'" and "array_abs a' = (array_abs a)(ind (elems a ! k) \<mapsto> v)"
    and "map addr (elems a') = map addr (elems a)"
proof -
  let ?es = "elems a" and ?es' = "(elems a)[k := (elems a ! k)\<lparr>evalue := v\<rparr>]"
  have i: "map ind ?es' = map ind ?es" using assms(2) by (intro nth_equalityI) (auto simp: nth_list_update)
  show ad: "map addr (elems a') = map addr ?es" unfolding a' using assms(2) by (intro nth_equalityI) (auto simp: nth_list_update)
  have l: "?es \<noteq> [] \<Longrightarrow> ind (last ?es') = ind (last ?es)"
    using i assms(2) by (metis last_map list.map_disc_iff map_is_Nil_conv)
  have "(\<forall>e \<in> set ?es'. 0 \<le> ind e) = (\<forall>x \<in> set (map ind ?es'). 0 \<le> x)" by simp
  also have "\<dots> = (\<forall>e \<in> set ?es. 0 \<le> ind e)" unfolding i by simp
  finally show "array_wf a'" using assms(1) i l ad by (auto simp: array_wf_def a')
  have u: "?es' = take k ?es @ (?es ! k)\<lparr>evalue := v\<rparr> # drop (Suc k) ?es" using assms(2) by (rule upd_conv_take_nth_drop)
  have e: "?es = take k ?es @ ?es ! k # drop (Suc k) ?es" using assms(2) by (rule id_take_nth_drop)
  have nin: "\<forall>x \<in> set (take k ?es). ind x \<noteq> ind (?es ! k)"
    using inds_mono [of ?es _ k] assms(1,2) by (fastforce simp: array_wf_def in_set_conv_nth)
  let ?m = "map_of (map (\<lambda>e. (ind e, evalue e)) (take k ?es @ drop (Suc k) ?es))"
  have "array_abs a = ?m(ind (?es ! k) \<mapsto> evalue (?es ! k))"
    using abs_split [OF nin, of "drop (Suc k) ?es"] unfolding array_abs_def e [symmetric] .
  moreover have "array_abs a' = ?m(ind (?es ! k) \<mapsto> v)"
    using abs_split [of "take k ?es" "(?es ! k)\<lparr>evalue := v\<rparr>" "drop (Suc k) ?es"] nin
    by (simp add: array_abs_def a' u)
  ultimately show "array_abs a' = (array_abs a)(ind (?es ! k) \<mapsto> v)" by simp
qed

text \<open>What an operation on one array does to the cache as seen from the others.\<close>

definition cache_frame :: "acache \<Rightarrow> acache \<Rightarrow> array \<Rightarrow> bool" where
  "cache_frame st st' a \<longleftrightarrow>
     next_addr st \<le> next_addr st' \<and>
     (lastarray st' = None \<or> lastarray st' = Some (aid a) \<or>
      (lastarray st' = lastarray st \<and> lastref st' = lastref st))"

lemma cache_ok_other: "cache_ok st b \<Longrightarrow> aid b \<noteq> aid a \<Longrightarrow> cache_frame st st' a \<Longrightarrow> cache_ok st' b"
  by (auto simp: cache_ok_def cache_frame_def dest: order.strict_trans2)

lemmas cache_defs = cache_ok_def cache_frame_def SET_LASTREF_def INVALIDATE_LASTREF_def UNSET_LASTREF_def

lemma array_append_last:
  assumes "array_wf a" and "i > max_index a" and "0 \<le> i" and "ind new = i" and "addr new \<notin> addr ` set (elems a)"
    and a': "a' = a\<lparr>elems := elems a @ [new], max_index := i, num_elements := num_elements a + 1\<rparr>"
  shows "array_wf a'" and "array_abs a' = (array_abs a)(i \<mapsto> evalue new)"
proof -
  have lt: "ind e < i" if "e \<in> set (elems a)" for e using array_max_bound [OF assms(1) that] assms(2) by simp
  with assms show "array_wf a'" by (auto simp: array_wf_def sorted_wrt_append)
  from lt have "\<forall>x \<in> set (elems a). ind x \<noteq> ind new" using assms(4) by fastforce
  from abs_split [OF this, of "[]"] show "array_abs a' = (array_abs a)(i \<mapsto> evalue new)"
    by (simp add: array_abs_def a' assms(4))
qed

lemma array_insert_abs:
  assumes "array_wf a" and "cache_ok st a" and "0 \<le> i"
  obtains st' a' where "array_insert st (Some a) i v = Some (st', Some a', 0)"
    and "array_wf a'" and "cache_ok st' a'" and "array_abs a' = (array_abs a)(i \<mapsto> v)"
    and "aid a' = aid a" and "cache_frame st st' a"
proof -
  define st1 where "st1 = st\<lparr>next_addr := Suc (next_addr st)\<rparr>"
  define new where "new = \<lparr>addr = next_addr st, ind = i, evalue = v\<rparr>"
  have cr: "array_create_element st i v = (st1, new)" by (simp add: array_create_element_def st1_def new_def)
  have fresh: "addr new \<notin> addr ` set (elems a)" using assms(2) by (auto simp: cache_ok_def new_def)
  have lt: "e \<in> set (elems a) \<Longrightarrow> addr e < Suc (next_addr st)" for e using assms(2) by (auto simp: cache_ok_def less_SucI)
  have new: "ind new = i" "evalue new = v" by (simp_all add: new_def)
  show ?thesis
  proof (cases "i > max_index a")
    case True
    let ?a = "a\<lparr>elems := elems a @ [new], max_index := i, num_elements := num_elements a + 1\<rparr>"
    from array_append_last [OF assms(1) True assms(3) new(1) fresh refl] new show ?thesis
      by (intro that [of "SET_LASTREF st1 ?a new" ?a])
        (use True cr lt in \<open>auto simp: array_insert_def cache_defs st1_def new_def Let_def\<close>)
  next
    case False
    have "cache_ok st1 a" using assms(2) by (auto simp: cache_ok_def st1_def less_SucI)
    from LASTREF_START_ok [OF assms(1) this, of i] obtain p where p: "LASTREF_START st1 a i = Some p"
      "p \<le> length (elems a)" "\<forall>j < p. ind (elems a ! j) < i" by blast
    note res = insert_loop_result [OF p(2,3)]
    show ?thesis
    proof (cases "insert_loop i (drop p (elems a)) p")
      case (Replace k)
      with res have k: "k < length (elems a)" "ind (elems a ! k) = i" by auto
      let ?a = "a\<lparr>elems := (elems a)[k := (elems a ! k)\<lparr>evalue := v\<rparr>]\<rparr>"
      note rv = array_replace_value [OF assms(1) k(1) refl, of v]
      have "\<forall>e \<in> set (elems ?a). addr e < Suc (next_addr st)"
        using lt k(1) by (auto dest!: set_update_subset_insert [THEN subsetD])
      with rv k False p Replace cr show ?thesis
        by (intro that [of "SET_LASTREF st1 ?a (elems ?a ! k)" ?a])
          (auto simp: array_insert_def cache_defs st1_def Let_def image_iff set_update_memI
            intro!: bexI [of _ "(elems a ! k)\<lparr>evalue := v\<rparr>"])
    next
      case (Before k)
      with res have k: "k < length (elems a)" "i < ind (elems a ! k)" "\<forall>j < k. ind (elems a ! j) < i" by auto
      let ?a = "a\<lparr>elems := take k (elems a) @ new # drop k (elems a), num_elements := num_elements a + 1\<rparr>"
      from array_insert_before [OF assms(1) k assms(3) new(1) fresh refl] new show ?thesis
        by (intro that [of "SET_LASTREF st1 ?a new" ?a])
          (use False p Before cr lt in \<open>auto simp: array_insert_def cache_defs st1_def new_def Let_def
            dest!: in_set_takeD in_set_dropD\<close>)
    next
      case Problem
      with res have "\<forall>e \<in> set (elems a). ind e < i" by simp
      with False assms(1,3) show ?thesis by (auto simp: array_wf_def split: if_splits)
    qed
  qed
qed

lemma remove_nth_parts:
  assumes "k < length es"
  shows "set (take k es @ drop (Suc k) es) \<subseteq> set es"
    and "Suc k < length es \<Longrightarrow> es ! Suc k \<in> set (take k es @ drop (Suc k) es)"
    and "0 < k \<Longrightarrow> es ! (k - 1) \<in> set (take k es @ drop (Suc k) es)"
    and "take k es @ drop (Suc k) es \<noteq> [] \<Longrightarrow>
      last (take k es @ drop (Suc k) es) = (if Suc k < length es then last es else es ! (k - 1))"
proof -
  show "set (take k es @ drop (Suc k) es) \<subseteq> set es" by (auto dest: in_set_takeD in_set_dropD)
  show "es ! Suc k \<in> set (take k es @ drop (Suc k) es)" if "Suc k < length es"
    using that by (auto simp: Cons_nth_drop_Suc [symmetric])
  show "es ! (k - 1) \<in> set (take k es @ drop (Suc k) es)" if "0 < k"
    using that assms by (auto simp: in_set_conv_nth intro!: exI [of _ "k - 1"])
  show "last (take k es @ drop (Suc k) es) = (if Suc k < length es then last es else es ! (k - 1))"
    if "take k es @ drop (Suc k) es \<noteq> []"
  proof (cases "Suc k < length es")
    case True
    then have "drop (Suc k) es \<noteq> []" by simp
    with True show ?thesis by (simp add: last_append last_drop)
  next
    case False
    with that assms have "take k es \<noteq> []" "drop (Suc k) es = []" by auto
    with False assms show ?thesis by (simp add: last_conv_nth min_def)
  qed
qed

lemma array_remove_at:
  assumes "array_wf a" and "k < length (elems a)" and "ind (elems a ! k) = i"
    and a': "a' = a\<lparr>elems := take k (elems a) @ drop (Suc k) (elems a), num_elements := num_elements a - 1,
       max_index := (if i = max_index a then (if k = 0 then -1 else ind (elems a ! (k - 1))) else max_index a)\<rparr>"
  shows "array_wf a'" and "array_abs a' = (array_abs a)(i := None)"
proof -
  let ?es = "elems a" and ?es' = "take k (elems a) @ drop (Suc k) (elems a)"
  have s: "sorted_wrt (<) (map ind ?es)" using assms(1) by (simp add: array_wf_def)
  have e: "?es = take k ?es @ ?es ! k # drop (Suc k) ?es" using assms(2) by (rule id_take_nth_drop)
  have others: "\<forall>x \<in> set ?es'. ind x \<noteq> i"
  proof -
    have "distinct (map ind ?es)" using s by (simp add: strict_sorted_iff)
    then have "distinct (map ind (take k ?es @ ?es ! k # drop (Suc k) ?es))" using e by simp
    then have "ind (?es ! k) \<notin> ind ` set ?es'" by (simp add: image_Un)
    then show ?thesis using assms(3) by (metis imageI)
  qed
  have srt: "sorted_wrt (<) (map ind ?es')" "distinct (map addr ?es')"
  proof -
    have "sorted_wrt (<) (map ind (take k ?es @ ?es ! k # drop (Suc k) ?es))" using s e by simp
    then show "sorted_wrt (<) (map ind ?es')" by (auto simp: sorted_wrt_append)
    have "distinct (map addr (take k ?es @ ?es ! k # drop (Suc k) ?es))" using assms(1) e by (simp add: array_wf_def)
    then show "distinct (map addr ?es')" by auto
  qed
  have mx: "i = max_index a \<longleftrightarrow> Suc k = length ?es"
  proof
    assume "Suc k = length ?es"
    then have "k = length ?es - 1" by simp
    with assms show "i = max_index a" by (auto simp: array_wf_def last_conv_nth)
  next
    assume "i = max_index a"
    then have "\<not> ind (?es ! k) < ind (?es ! (length ?es - 1))"
      using assms(1-3) by (auto simp: array_wf_def last_conv_nth split: if_splits)
    moreover have "length ?es - 1 < length ?es" using assms(2) by simp
    ultimately have "\<not> k < length ?es - 1" using inds_mono [OF s] by blast
    then show "Suc k = length ?es" using assms(2) by simp
  qed
  have len: "int (length ?es') = num_elements a - 1" using assms(1,2) by (simp add: array_wf_def)
  have mi: "max_index a' = (if ?es' = [] then -1 else ind (last ?es'))"
  proof (cases "Suc k = length ?es")
    case True
    then show ?thesis using mx remove_nth_parts(4) [OF assms(2)] by (auto simp: a')
  next
    case False
    then have "Suc k < length ?es" using assms(2) by simp
    then show ?thesis using mx remove_nth_parts(4) [OF assms(2)] assms(1) by (auto simp: a' array_wf_def)
  qed
  show "array_wf a'"
    using srt mi len assms(1) remove_nth_parts(1) [OF assms(2)] unfolding array_wf_def by (auto simp: a')
  have "array_abs a = (array_abs a')(i \<mapsto> evalue (?es ! k))"
    using abs_split [of "take k ?es" "?es ! k" "drop (Suc k) ?es"] others assms(3) e
    by (simp add: array_abs_def a')
  moreover have "array_abs a' i = None" using others by (simp add: array_abs_None a')
  ultimately show "array_abs a' = (array_abs a)(i := None)" by (simp add: fun_upd_idem)
qed

lemma array_remove_abs:
  assumes "array_wf a" and "cache_ok st a"
  obtains st' a' r where "array_remove st (Some a) i = Some (st', Some a', r)"
    and "array_wf a'" and "cache_ok st' a'" and "array_abs a' = (array_abs a)(i := None)"
    and "map_option evalue r = array_abs a i" and "aid a' = aid a" and "cache_frame st st' a"
proof (cases "array_empty a")
  case True
  then have "array_abs a = Map.empty" using assms(1) by (simp add: array_empty_iff array_abs_def)
  with True assms show ?thesis by (intro that [of st a None]) (auto simp: array_remove_def cache_frame_def)
next
  case False
  from LASTREF_START_ok [OF assms, of i] obtain p where p: "LASTREF_START st a i = Some p" "p \<le> length (elems a)"
    "\<forall>j < p. ind (elems a ! j) < i" by blast
  show ?thesis
  proof (cases "search_loop i (drop p (elems a)) p")
    case None
    then have "array_abs a i = None" using search_from_start(1) [OF p(2,3)] by (simp add: array_abs_None)
    with None False p assms show ?thesis
      by (intro that [of st a None]) (auto simp: array_remove_def cache_frame_def fun_upd_idem)
  next
    case (Some k)
    from search_from_start(2) [OF p(2,3) Some] have k: "k < length (elems a)" "ind (elems a ! k) = i" by auto
    let ?es = "elems a"
    define a' where "a' = a\<lparr>elems := take k ?es @ drop (Suc k) ?es, num_elements := num_elements a - 1,
       max_index := (if i = max_index a then (if k = 0 then -1 else ind (?es ! (k - 1))) else max_index a)\<rparr>"
    define st' where "st' = (if Suc k < length ?es then SET_LASTREF st a (?es ! Suc k)
       else if 0 < k then SET_LASTREF st a (?es ! (k - 1)) else INVALIDATE_LASTREF st a)"
    have eq: "array_remove st (Some a) i = Some (st', Some a', Some (?es ! k))"
      using False p Some by (simp add: array_remove_def a'_def st'_def Let_def)
    have "cache_ok st' a'"
      using remove_nth_parts [OF k(1)] assms(2) unfolding cache_ok_def st'_def a'_def
      by (auto simp: SET_LASTREF_def INVALIDATE_LASTREF_def dest: in_set_takeD in_set_dropD)
    moreover have "cache_frame st st' a" by (auto simp: st'_def cache_defs)
    ultimately show ?thesis
      using array_remove_at [OF assms(1) k a'_def] array_abs_nth [OF assms(1) k(1)] k(2) eq
      by (intro that [of st' a' "Some (?es ! k)"]) (simp_all add: a'_def)
  qed
qed

definition values_ok :: "acache \<times> array \<Rightarrow> bool" where
  "values_ok m \<longleftrightarrow> array_wf (snd m) \<and> cache_ok (fst m) (snd m) \<and> (\<forall>i. array_abs (snd m) i \<noteq> Some None)"

definition array_lookup :: "acache \<times> array \<Rightarrow> int \<Rightarrow> string option" where
  "array_lookup m i = snd (the (array_reference (fst m) (Some (snd m)) i))"

definition array_update :: "int \<Rightarrow> string \<Rightarrow> acache \<times> array \<Rightarrow> acache \<times> array" where
  "array_update i v m =
     (case the (array_insert (fst m) (Some (snd m)) i (Some v)) of (st, a, r) \<Rightarrow> (st, the a))"

definition array_unset :: "int \<Rightarrow> acache \<times> array \<Rightarrow> acache \<times> array" where
  "array_unset i m = (case the (array_remove (fst m) (Some (snd m)) i) of (st, a, r) \<Rightarrow> (st, the a))"

definition array_clear :: "acache \<times> array \<Rightarrow> acache \<times> array" where
  "array_clear m = array_flush (fst m) (snd m)"

lemma array_lookup_abs: "values_ok m \<Longrightarrow> array_lookup m i = map_option the (array_abs (snd m) i)"
proof -
  assume ok: "values_ok m"
  then obtain st' where "array_reference (fst m) (Some (snd m)) i = Some (st', Option.bind (array_abs (snd m) i) id)"
    by (auto simp: values_ok_def elim: array_reference_abs)
  moreover have "array_abs (snd m) i \<noteq> Some None" using ok by (simp add: values_ok_def)
  ultimately show ?thesis by (cases "array_abs (snd m) i"; cases "the (array_abs (snd m) i)") (auto simp: array_lookup_def)
qed

interpretation xdict: dictionary "\<lambda>i. 0 \<le> i" values_ok array_lookup array_update array_unset array_clear
proof unfold_locales
  fix m :: "acache \<times> array" and k k' :: int and v :: string
  assume ok: "values_ok m"
  then have wf: "array_wf (snd m)" "cache_ok (fst m) (snd m)" by (simp_all add: values_ok_def)
  show "array_lookup (array_clear m) k = None" and "values_ok (array_clear m)"
  proof -
    show *: "values_ok (array_clear m)"
      using wf by (auto simp: values_ok_def array_clear_def array_flush_def array_wf_def cache_defs array_abs_def)
    then show "array_lookup (array_clear m) k = None"
      by (simp add: array_lookup_abs) (simp add: array_clear_def array_flush_def array_abs_def)
  qed
  assume k: "0 \<le> k"
  obtain st' a' where i: "array_insert (fst m) (Some (snd m)) k (Some v) = Some (st', Some a', 0)" "array_wf a'"
    "cache_ok st' a'" "array_abs a' = (array_abs (snd m))(k \<mapsto> Some v)"
    by (rule array_insert_abs [OF wf k, of "Some v"])
  then have u: "array_update k v m = (st', a')" by (simp add: array_update_def)
  from i ok show "values_ok (array_update k v m)" by (simp add: u values_ok_def)
  with i ok show "array_lookup (array_update k v m) k' = (if k' = k then Some v else array_lookup m k')"
    by (simp add: array_lookup_abs) (simp add: u)
  obtain st'' a'' r where d: "array_remove (fst m) (Some (snd m)) k = Some (st'', Some a'', r)" "array_wf a''"
    "cache_ok st'' a''" "array_abs a'' = (array_abs (snd m))(k := None)"
    by (rule array_remove_abs [OF wf])
  then have x: "array_unset k m = (st'', a'')" by (simp add: array_unset_def)
  from d ok show "values_ok (array_unset k m)" by (simp add: x values_ok_def)
  with d ok show "array_lookup (array_unset k m) k' = (if k' = k then None else array_lookup m k')"
    by (simp add: array_lookup_abs) (simp add: x)
qed

subsection \<open>Shifting\<close>

lemma sorted_ind_ge:
  assumes "sorted_wrt (<) (map ind es)" and "\<forall>e \<in> set es. 0 \<le> ind e" and "k < length es"
  shows "int k \<le> ind (es ! k)"
  using assms(3)
proof (induction k)
  case (Suc k)
  then have "ind (es ! k) < ind (es ! Suc k)" using inds_mono [OF assms(1), of k "Suc k"] by simp
  with Suc show ?case by simp
qed (use assms(2) in simp)

lemma sorted_wrt_shifted:
  "sorted_wrt (<) (map ind es) \<Longrightarrow> sorted_wrt (<) (map ind (map (\<lambda>e. e\<lparr>ind := ind e + d\<rparr>) es))"
  by (simp add: sorted_wrt_map)

text \<open>Indices of which the largest fits stay as they are in \<^verbatim>\<open>intmax_t\<close>.\<close>

lemma shifted_in_range:
  assumes "array_wf a" and "0 \<le> d" and "max_index a + d \<le> INTMAX_MAX" and "e \<in> set (elems a)"
  shows "to_intmax (ind e + d) = ind e + d" and "ind e \<le> max_index a"
proof -
  obtain k where k: "k < length (elems a)" "e = elems a ! k" using assms(4) by (auto simp: in_set_conv_nth)
  have s: "sorted_wrt (<) (map ind (elems a))" "max_index a = ind (last (elems a))" "0 \<le> ind e"
    using assms(1,4) by (auto simp: array_wf_def split: if_splits)
  have "elems a \<noteq> []" using assms(4) by auto
  note last = last_conv_nth [OF this]
  show le: "ind e \<le> max_index a"
  proof (cases "k = length (elems a) - 1")
    case True
    then show ?thesis using k s(2) last by simp
  next
    case False
    then have "k < length (elems a) - 1" "length (elems a) - 1 < length (elems a)" using k(1) by simp_all
    from inds_mono [OF s(1) this] show ?thesis using k(2) s(2) last by simp
  qed
  show "to_intmax (ind e + d) = ind e + d"
    using le s(3) assms(2,3) by (intro to_intmax_id) (simp add: intmax_def INTMAX_MIN_def)
qed

lemma array_shift_wf:
  assumes "array_wf a" and "cache_ok st a" and "0 < n" and "\<not> array_empty a" and "max_index a \<le> INTMAX_MAX"
    and "array_shift st a n flags = (st', a', ret)"
  shows "array_wf a' \<and> cache_ok st' a' \<and> cache_frame st st' a \<and>
    elems a' = map (\<lambda>e. e\<lparr>ind := ind e - n\<rparr>) (drop (nat n) (elems a)) \<and>
    ret = (if flags AND AS_DISPOSE \<noteq> 0 then [] else take (nat n) (elems a))"
proof -
  let ?es = "map (\<lambda>e. e\<lparr>ind := ind e - n\<rparr>) (drop (nat n) (elems a))"
  have s: "sorted_wrt (<) (map ind (elems a))" "\<forall>e \<in> set (elems a). 0 \<le> ind e" "distinct (map addr (elems a))"
    and num: "num_elements a = int (length (elems a))" using assms(1) by (simp_all add: array_wf_def)
  have nonneg: "0 \<le> ind e" if e: "e \<in> set ?es" for e
  proof -
    from e obtain k where k: "k < length (elems a)" "nat n \<le> k" "ind e = ind (elems a ! k) - n"
      by (auto simp: in_set_conv_nth) (metis le_add1 less_diff_conv add.commute nth_drop)
    with sorted_ind_ge [OF s(1,2) k(1)] show ?thesis by simp
  qed
  moreover have im: "map (\<lambda>e. e\<lparr>ind := to_intmax (ind e - n)\<rparr>) (drop (nat n) (elems a)) = ?es"
  proof (rule map_cong [OF refl])
    fix e assume e: "e \<in> set (drop (nat n) (elems a))"
    then have "e\<lparr>ind := ind e - n\<rparr> \<in> set ?es" by simp
    then have "0 \<le> ind e - n" using nonneg [of "e\<lparr>ind := ind e - n\<rparr>"] by simp
    moreover have "ind e \<le> INTMAX_MAX" using shifted_in_range(2) [OF assms(1), of 0 e] assms(5) in_set_dropD [OF e] by simp
    ultimately have "0 \<le> ind e - n" "ind e \<le> INTMAX_MAX" by simp_all
    then show "e\<lparr>ind := to_intmax (ind e - n)\<rparr> = e\<lparr>ind := ind e - n\<rparr>"
      using assms(3) by (subst to_intmax_id) (simp_all add: intmax_def INTMAX_MIN_def)
  qed
  moreover have "sorted_wrt (<) (map ind ?es)"
    using s(1) sorted_wrt_shifted [of "drop (nat n) (elems a)" "- n"]
    by (simp add: drop_map [symmetric] sorted_wrt_drop)
  moreover have "distinct (map addr ?es)" using s(3) by (simp add: comp_def drop_map [symmetric])
  moreover have "num_elements a - n = int (length ?es)" if "\<not> length (elems a) \<le> nat n" using that num assms(3) by simp
  moreover have "cache_ok (INVALIDATE_LASTREF st a) a'" if "elems a' = ?es" "aid a' = aid a"
    using that assms(2) by (auto simp: cache_defs dest: in_set_dropD)
  ultimately show ?thesis
    using assms(3,4,6) unfolding array_shift_def im by (auto simp: Let_def array_wf_def cache_defs split: if_splits)
qed

lemma array_rshift_wf:
  assumes "array_wf a" and "cache_ok st a" and "0 < n" and "max_index a + n \<le> INTMAX_MAX"
    and "array_rshift st a n s = (st', a', r)"
  shows "array_wf a' \<and> cache_ok st' a' \<and> cache_frame st st' a \<and> r = num_elements a' \<and>
    map (\<lambda>e. (ind e, evalue e)) (elems a') =
      (case s of None \<Rightarrow> [] | Some v \<Rightarrow> [(0, s)]) @ map (\<lambda>e. (ind e + n, evalue e)) (elems a)"
proof (cases "elems a = []")
  case True
  then have "array_empty a" "num_elements a = 0" using assms(1) by (simp_all add: array_empty_iff) (simp add: array_wf_def)
  with True assms show ?thesis
    by (cases s) (auto simp: array_rshift_def array_create_element_def array_wf_def cache_defs Let_def)
next
  case False
  let ?es = "map (\<lambda>e. e\<lparr>ind := ind e + n\<rparr>) (elems a)"
  have s: "sorted_wrt (<) (map ind (elems a))" "\<forall>e \<in> set (elems a). 0 \<le> ind e" "distinct (map addr (elems a))"
    and num: "num_elements a = int (length (elems a))" using assms(1) by (simp_all add: array_wf_def)
  have im: "map (\<lambda>e. e\<lparr>ind := to_intmax (ind e + n)\<rparr>) (elems a) = ?es"
    using shifted_in_range(1) [OF assms(1) _ assms(4)] assms(3) by (intro map_cong) simp_all
  note sh = sorted_wrt_shifted [OF s(1), of n]
  have ne: "\<not> array_empty a" "num_elements a + 1 \<noteq> 1" using False assms(1) num by (simp_all add: array_empty_iff)
  have fr: "addr e \<noteq> next_addr st" if "e \<in> set (elems a)" for e using that assms(2) by (auto simp: cache_ok_def)
  show ?thesis
  proof (cases s)
    case None
    with assms(3,5) ne(1) have "a' = a\<lparr>elems := ?es, num_elements := num_elements a, max_index := ind (last ?es)\<rparr>"
      "st' = INVALIDATE_LASTREF st a" "r = num_elements a" unfolding array_rshift_def im by (auto simp: Let_def)
    with None sh s num False assms(2,3) show ?thesis
      by (auto simp: array_wf_def cache_defs comp_def)
  next
    case (Some v)
    let ?new = "\<lparr>addr = next_addr st, ind = 0, evalue = Some v\<rparr>"
    from Some assms(3,5) ne have
      a': "a' = a\<lparr>elems := ?new # ?es, num_elements := num_elements a + 1, max_index := ind (last (?new # ?es))\<rparr>"
      "st' = INVALIDATE_LASTREF (st\<lparr>next_addr := Suc (next_addr st)\<rparr>) a" "r = num_elements a + 1"
      unfolding array_rshift_def im by (auto simp: array_create_element_def Let_def)
    have "array_wf a'" using sh s num False assms(3) fr
      by (auto simp: a' array_wf_def comp_def) (metis add_nonneg_pos)+
    moreover have "cache_ok st' a'" using assms(2) by (auto simp: a' cache_defs less_SucI)
    ultimately show ?thesis using Some by (auto simp: a' cache_defs)
  qed
qed

subsection \<open>Arrays from word lists\<close>

lemma assign_loop_appends:
  assumes "max_index a < i"
  shows "\<exists>st' a'. assign_loop st (Some a) l i = Some (st', Some a') \<and>
    map ind (elems a') = map ind (elems a) @ map (\<lambda>j. i + int j) [0..<length l] \<and>
    map evalue (elems a') = map evalue (elems a) @ map (\<lambda>w. Some (word w)) l \<and>
    num_elements a' = num_elements a + int (length l)"
  using assms
proof (induction l arbitrary: st a i)
  case (Cons w l)
  obtain st1 new where cr: "array_create_element st i (Some (word w)) = (st1, new)" "ind new = i" "evalue new = Some (word w)"
    by (simp add: array_create_element_def)
  let ?a = "a\<lparr>elems := elems a @ [new], max_index := i, num_elements := num_elements a + 1\<rparr>"
  have "array_insert st (Some a) i (Some (word w)) = Some (SET_LASTREF st1 ?a new, Some ?a, 0)"
    using Cons.prems cr by (simp add: array_insert_def Let_def)
  moreover from Cons.IH [of ?a "i + 1" "SET_LASTREF st1 ?a new"] obtain st' a' where
    "assign_loop (SET_LASTREF st1 ?a new) (Some ?a) l (i + 1) = Some (st', Some a')"
    "map ind (elems a') = map ind (elems ?a) @ map (\<lambda>j. i + 1 + int j) [0..<length l]"
    "map evalue (elems a') = map evalue (elems ?a) @ map (\<lambda>w. Some (word w)) l"
    "num_elements a' = num_elements ?a + int (length l)" by auto
  moreover have "map (\<lambda>j. i + int j) [0..<length (w # l)] = i # map (\<lambda>j. i + 1 + int j) [0..<length l]"
    by (simp add: upt_conv_Cons map_Suc_upt [symmetric] comp_def add.assoc del: upt_Suc)
  ultimately show ?case using cr by simp
qed simp

lemma element_words_eq:
  "map evalue es = map Some vs \<Longrightarrow> element_words es l = Some (rev (map make_bare_word vs) @ l)"
proof (induction es arbitrary: vs l)
  case (Cons e es)
  then obtain v vs' where "vs = v # vs'" by (cases vs) auto
  with Cons show ?case by (simp add: make_word_list_def)
qed simp

lemma key_words_eq: "key_words es l = rev (map (\<lambda>e. make_bare_word (itos (ind e))) es) @ l"
  by (induction es arbitrary: l) (simp_all add: make_word_list_def)

subsection \<open>Properties\<close>

text \<open>
  C7. Indexed arrays are maps from indices: any sequence of assignments, unsets and flushes at
  non-negative indices keeps the array ordered, its counters exact and the remembered element
  valid, and afterwards every reference gives what the same sequence of map operations gives.
\<close>

theorem array_run_refines:
  assumes "values_ok m" and "list_all (op_ok (\<lambda>i. 0 \<le> i)) ops"
  shows "values_ok (fold (dict_step array_update array_unset array_clear) ops m) \<and>
    array_lookup (fold (dict_step array_update array_unset array_clear) ops m) = fold map_step ops (array_lookup m)"
  by (rule xdict.run_refines [OF assms])

theorem array_run_refines_witness:
  "let m = fold (dict_step array_update array_unset array_clear)
     [DUpdate 7 ''x'', DUpdate 2 ''y'', DUpdate 7 ''z'', DDelete 2]
     (array_create \<lparr>lastarray = None, lastref = 0, next_addr = 0\<rparr>)
   in array_lookup m 7 = Some ''z'' \<and> array_lookup m 2 = None"
proof -
  have "values_ok (array_create \<lparr>lastarray = None, lastref = 0, next_addr = 0\<rparr>)"
    by (auto simp: values_ok_def array_create_def array_wf_def cache_ok_def array_abs_def)
  from array_run_refines [OF this, of "[DUpdate 7 ''x'', DUpdate 2 ''y'', DUpdate 7 ''z'', DDelete 2]"]
  show ?thesis by (simp add: Let_def)
qed

text \<open>
  C34. The remembered element is only a shortcut: a reference started from it never follows a
  dangling pointer and returns the value that a search from the front returns; it leaves the
  cache valid for this array and for every other one.
\<close>

theorem array_reference_cache_transparent:
  assumes "array_wf a" and "cache_ok st a"
  shows "\<exists>st'. array_reference st (Some a) i = Some (st', Option.bind (array_abs a i) id) \<and>
    map_option snd (array_reference (UNSET_LASTREF st) (Some a) i) = Some (Option.bind (array_abs a i) id) \<and>
    cache_ok st' a \<and> (\<forall>b. aid b \<noteq> aid a \<and> cache_ok st b \<longrightarrow> cache_ok st' b)"
proof -
  have "cache_ok (UNSET_LASTREF st) a" using assms(2) by (auto simp: cache_defs)
  then obtain st0 where "array_reference (UNSET_LASTREF st) (Some a) i = Some (st0, Option.bind (array_abs a i) id)"
    by (rule array_reference_abs [OF assms(1)])
  then have "map_option snd (array_reference (UNSET_LASTREF st) (Some a) i) = Some (Option.bind (array_abs a i) id)"
    by simp
  moreover have "cache_frame st st' a" if "array_reference st (Some a) i = Some (st', v)" for st' v
    using that by (auto simp: array_reference_def cache_defs split: if_splits option.splits)
  moreover obtain st' where "array_reference st (Some a) i = Some (st', Option.bind (array_abs a i) id)" "cache_ok st' a"
    by (rule array_reference_abs [OF assms])
  ultimately show ?thesis using cache_ok_other [of st _ a st'] by blast
qed

theorem array_reference_cache_transparent_witness:
  "\<exists>st'. array_reference \<lparr>lastarray = Some 0, lastref = 2, next_addr = 3\<rparr>
     (Some \<lparr>aid = 0, atype = array_indexed, max_index = 9, num_elements = 2,
        elems = [\<lparr>addr = 1, ind = 4, evalue = Some ''p''\<rparr>, \<lparr>addr = 2, ind = 9, evalue = Some ''q''\<rparr>]\<rparr>) 4 =
     Some (st', Some ''p'')"
proof -
  let ?a = "\<lparr>aid = 0, atype = array_indexed, max_index = 9, num_elements = 2,
    elems = [\<lparr>addr = 1, ind = 4, evalue = Some ''p''\<rparr>, \<lparr>addr = 2, ind = 9, evalue = Some ''q''\<rparr>]\<rparr>"
  let ?st = "\<lparr>lastarray = Some 0, lastref = 2, next_addr = 3\<rparr>"
  have "array_wf ?a" "cache_ok ?st ?a" by (simp_all add: array_wf_def cache_ok_def)
  from array_reference_cache_transparent [OF this, of 4] show ?thesis by (auto simp: array_abs_def)
qed

text \<open>
  C35. Shifting keeps the invariant of an array that is not empty, for a positive \<open>n\<close>. \<open>array_shift\<close>
  takes the first \<open>n\<close> elements out and lowers the remaining indices by \<open>n\<close>, which never makes one
  negative, even in a sparse array; its indices are taken to be \<^verbatim>\<open>intmax_t\<close> values. \<open>array_rshift\<close>, as
  long as the largest index raised by \<open>n\<close> is still an \<^verbatim>\<open>intmax_t\<close> value, raises the indices by \<open>n\<close>, puts
  the new value, if there is one, at index zero and returns the new number of elements. Both leave
  the array ordered with exact counters and a valid cache.
\<close>

theorem array_shift_keeps_invariant:
  assumes "array_wf a" and "cache_ok st a" and "0 < n" and "\<not> array_empty a" and "max_index a \<le> INTMAX_MAX"
  shows "(case array_shift st a n flags of (st', a', ret) \<Rightarrow>
      array_wf a' \<and> cache_ok st' a' \<and>
      elems a' = map (\<lambda>e. e\<lparr>ind := ind e - n\<rparr>) (drop (nat n) (elems a)) \<and>
      ret = (if flags AND AS_DISPOSE \<noteq> 0 then [] else take (nat n) (elems a))) \<and>
    (max_index a + n \<le> INTMAX_MAX \<longrightarrow>
     (case array_rshift st a n s of (st', a', r) \<Rightarrow>
      array_wf a' \<and> cache_ok st' a' \<and> r = num_elements a' \<and>
      map (\<lambda>e. (ind e, evalue e)) (elems a') =
        (case s of None \<Rightarrow> [] | Some v \<Rightarrow> [(0, s)]) @ map (\<lambda>e. (ind e + n, evalue e)) (elems a)))"
proof -
  obtain st1 a1 r1 where 1: "array_shift st a n flags = (st1, a1, r1)" by (metis prod_cases3)
  obtain st2 a2 r2 where 2: "array_rshift st a n s = (st2, a2, r2)" by (metis prod_cases3)
  from array_shift_wf [OF assms 1] array_rshift_wf [OF assms(1-3) _ 2] show ?thesis by (simp add: 1 2)
qed

theorem array_shift_keeps_invariant_witness:
  "(case array_shift \<lparr>lastarray = Some 0, lastref = 2, next_addr = 3\<rparr>
     \<lparr>aid = 0, atype = array_indexed, max_index = 9, num_elements = 2,
        elems = [\<lparr>addr = 1, ind = 4, evalue = Some ''p''\<rparr>, \<lparr>addr = 2, ind = 9, evalue = Some ''q''\<rparr>]\<rparr> 1 0 of
     (st', a', ret) \<Rightarrow> map ind (elems a') = [8] \<and> max_index a' = 8) \<and>
   (case array_rshift \<lparr>lastarray = Some 0, lastref = 2, next_addr = 3\<rparr>
     \<lparr>aid = 0, atype = array_indexed, max_index = 9, num_elements = 2,
        elems = [\<lparr>addr = 1, ind = 4, evalue = Some ''p''\<rparr>, \<lparr>addr = 2, ind = 9, evalue = Some ''q''\<rparr>]\<rparr> 1 (Some ''o'') of
     (st', a', r) \<Rightarrow> map (\<lambda>e. (ind e, evalue e)) (elems a') = [(0, Some ''o''), (5, Some ''p''), (10, Some ''q'')])"
proof -
  let ?a = "\<lparr>aid = 0, atype = array_indexed, max_index = 9, num_elements = 2,
    elems = [\<lparr>addr = 1, ind = 4, evalue = Some ''p''\<rparr>, \<lparr>addr = 2, ind = 9, evalue = Some ''q''\<rparr>]\<rparr>"
  let ?st = "\<lparr>lastarray = Some 0, lastref = 2, next_addr = 3\<rparr>"
  have "array_wf ?a" "cache_ok ?st ?a" "0 < (1 :: int)" "\<not> array_empty ?a" "max_index ?a \<le> INTMAX_MAX"
    by (simp_all add: array_wf_def cache_ok_def array_empty_def INTMAX_MAX_def)
  from array_shift_keeps_invariant [OF this, of 0 "Some ''o''"] show ?thesis by (auto simp: array_wf_def INTMAX_MAX_def)
qed

text \<open>Beyond the bound the indices wrap: the largest index shifted by one becomes negative.\<close>

lemma array_rshift_wraps:
  "case array_rshift \<lparr>lastarray = None, lastref = 0, next_addr = 2\<rparr>
     \<lparr>aid = 0, atype = array_indexed, max_index = 9223372036854775807, num_elements = 1,
        elems = [\<lparr>addr = 1, ind = 9223372036854775807, evalue = Some ''p''\<rparr>]\<rparr> 1 (Some ''o'') of
     (st', a', r) \<Rightarrow> map ind (elems a') = [0, - 9223372036854775808] \<and> \<not> array_wf a'"
  by (simp add: array_rshift_def array_empty_def array_create_element_def to_intmax_def array_wf_def)

text \<open>
  Assigning a word list to a new array and reading it back: the values are the words in
  order, and the keys are the printed numbers from zero.
\<close>

lemma array_word_list_roundtrip:
  assumes "l \<noteq> []"
  shows "\<exists>st' a. array_from_word_list st l = Some (st', Some a) \<and>
    map_option (map word) (array_to_word_list (Some a)) = Some (map word l) \<and>
    map word (array_keys_to_word_list (Some a)) = map (\<lambda>j. itos (int j)) [0..<length l]"
proof -
  obtain st1 a0 where c: "array_create st = (st1, a0)" "max_index a0 < 0" "elems a0 = []" "num_elements a0 = 0"
    by (simp add: array_create_def)
  from assign_loop_appends [OF c(2), of st1 l] obtain st' a where a:
    "assign_loop st1 (Some a0) l 0 = Some (st', Some a)" "map ind (elems a) = map int [0..<length l]"
    "map evalue (elems a) = map Some (map word l)" "num_elements a = int (length l)"
    using c by (auto simp: comp_def)
  have "\<not> array_empty a" using a(4) assms by (simp add: array_empty_def)
  moreover have "map (\<lambda>e. itos (ind e)) (elems a) = map (\<lambda>j. itos (int j)) [0..<length l]"
    using arg_cong [OF a(2), of "map itos"] by (simp add: comp_def)
  ultimately show ?thesis
    using a c assms element_words_eq [OF a(3)]
    by (simp add: array_from_word_list_def array_assign_list_def array_to_word_list_def array_keys_to_word_list_def
        key_words_eq comp_def)
qed

lemma array_word_list_roundtrip_witness:
  "\<exists>st' a. array_from_word_list \<lparr>lastarray = None, lastref = 0, next_addr = 0\<rparr> [make_bare_word ''a''] = Some (st', Some a) \<and>
    map_option (map word) (array_to_word_list (Some a)) = Some [''a'']"
  using array_word_list_roundtrip [of "[make_bare_word ''a'']" "\<lparr>lastarray = None, lastref = 0, next_addr = 0\<rparr>"] by auto

end
