(* ===== verification/WordSplit.thy ===== *)
theory WordSplit
  imports Quoting CtlQuote
begin

text \<open>
  Splitting strings into words on the characters of \<^verbatim>\<open>IFS\<close> (\<^verbatim>\<open>subst.c\<close>): \<open>list_string\<close>, which word expansion
  uses, \<open>get_word_from_string\<close>, which the \<^verbatim>\<open>read\<close> builtin uses, and their helpers.

  A position in the string is the rest of the string from there. \<open>None\<close> is a read outside the
  string: \<open>string_extract_verbatim\<close> steps over the byte after a \<open>CTLESC\<close> without looking whether it is
  the terminating NUL.
\<close>

definition SX_NOCTLESC :: int where [cdefs]: "SX_NOCTLESC = 0x0010"
definition SX_NOESCCTLNUL :: int where [cdefs]: "SX_NOESCCTLNUL = 0x0020"

fun extract_verbatim_loop :: "string \<Rightarrow> int \<Rightarrow> string \<Rightarrow> (string \<times> string) option" where
  "extract_verbatim_loop charlist flags [] = Some ([], [])"
| "extract_verbatim_loop charlist flags (c # s) =
     (if (flags AND SX_NOCTLESC = 0 \<and> c = CTLESC)
        \<or> (flags AND SX_NOESCCTLNUL = 0 \<and> c = CTLESC \<and> char_at s 0 = CTLNUL) then
        (case s of
           [] \<Rightarrow> None
         | d # s' \<Rightarrow> map_option (\<lambda>(t, r). (c # d # t, r)) (extract_verbatim_loop charlist flags s'))
      else if c \<in> set charlist then Some ([], c # s)
      else map_option (\<lambda>(t, r). (c # t, r)) (extract_verbatim_loop charlist flags s))"

definition string_extract_verbatim :: "string \<Rightarrow> string \<Rightarrow> int \<Rightarrow> (string \<times> string) option" where
  "string_extract_verbatim string charlist flags =
     (if charlist = [SQUOTE] then
        (if string = [] then None
         else Some (fst (string_extract_single_quoted string),
                    if SQUOTE \<in> set string then SQUOTE # snd (string_extract_single_quoted string)
                    else [last string]))
      else extract_verbatim_loop charlist flags string)"

definition issep :: "ifs_state \<Rightarrow> string \<Rightarrow> char \<Rightarrow> bool" where
  "issep st separators c =
     (case separators of [] \<Rightarrow> False | [d] \<Rightarrow> c = d | _ \<Rightarrow> isifs st c)"

definition ifs_xflags :: "ifs_state \<Rightarrow> int" where
  "ifs_xflags st =
     (if ifs_has st CTLESC then SX_NOCTLESC else 0) OR (if ifs_has st CTLNUL then SX_NOESCCTLNUL else 0)"

definition quoted_null_word :: word_desc where
  "quoted_null_word = \<lparr>word = make_quoted_char NUL, wflags = W_QUOTED OR W_HASQUOTEDNULL\<rparr>"

definition field_word :: "int \<Rightarrow> string \<Rightarrow> word_desc" where
  "field_word quoted current_word =
     (let w = make_word (remove_quoted_nulls current_word);
          fl = wflags w AND NOT W_HASQUOTEDNULL
      in w\<lparr>wflags := (if quoted AND (Q_DOUBLE_QUOTES OR Q_HERE_DOCUMENT) \<noteq> 0 then fl OR W_QUOTED else fl)\<rparr>)"

text \<open>Moving past the separator at the head of the rest, common to both splitting functions.\<close>

definition skip_separator :: "ifs_state \<Rightarrow> (char \<Rightarrow> bool) \<Rightarrow> string \<Rightarrow> string" where
  "skip_separator st issepc rest =
     (let whitesep = (rest \<noteq> [] \<and> spctabnl (hd rest));
          rest = drop 1 rest;
          rest = dropWhile (\<lambda>c. spctabnl c \<and> issepc c) rest
      in if rest \<noteq> [] \<and> whitesep \<and> issepc (hd rest) \<and> \<not> spctabnl (hd rest)
         then dropWhile (\<lambda>c. spctabnl c \<and> isifs st c) (tl rest)
         else rest)"

lemma extract_verbatim_loop_length:
  "extract_verbatim_loop cl fl s = Some (t, r) \<Longrightarrow> length r \<le> length s"
proof (induction cl fl s arbitrary: t r rule: extract_verbatim_loop.induct)
  case (2 cl fl c s)
  let ?esc = "(fl AND SX_NOCTLESC = 0 \<and> c = CTLESC) \<or> (fl AND SX_NOESCCTLNUL = 0 \<and> c = CTLESC \<and> char_at s 0 = CTLNUL)"
  show ?case
  proof (cases ?esc)
    case True
    then have "s \<noteq> []" using 2(3) by (cases s) (simp_all split: if_splits)
    then obtain d s' where s: "s = d # s'" by (cases s) auto
    from 2(3) True s obtain t' where "extract_verbatim_loop cl fl s' = Some (t', r)"
      by (auto simp del: de_Morgan_disj)
    with 2(1) [OF True s this] s show ?thesis by simp
  next
    case False
    with 2(2) [OF False] 2(3) show ?thesis
      by (cases "c \<in> set cl") (auto simp del: de_Morgan_disj simp: le_SucI)
  qed
qed simp

lemma string_extract_verbatim_length:
  "string_extract_verbatim s cl fl = Some (t, r) \<Longrightarrow> length r \<le> length s"
proof (cases "cl = [SQUOTE]")
  case True
  assume "string_extract_verbatim s cl fl = Some (t, r)"
  with True have s: "s \<noteq> []" and r: "r = (if SQUOTE \<in> set s then SQUOTE # snd (string_extract_single_quoted s) else [last s])"
    by (auto simp: string_extract_verbatim_def split: if_splits)
  have "Suc (length (snd (string_extract_single_quoted s))) \<le> length s" if "SQUOTE \<in> set s"
  proof -
    from that have "dropWhile (\<lambda>c. c \<noteq> SQUOTE) s \<noteq> []" by simp
    moreover have "length (dropWhile (\<lambda>c. c \<noteq> SQUOTE) s) \<le> length s" by (rule length_dropWhile_le)
    ultimately show ?thesis
      by (cases "dropWhile (\<lambda>c. c \<noteq> SQUOTE) s") (auto simp: string_extract_single_quoted_def)
  qed
  with r s show ?thesis by (auto simp: Suc_le_eq)
qed (simp add: string_extract_verbatim_def extract_verbatim_loop_length)

lemma skip_separator_length: "r \<noteq> [] \<Longrightarrow> length (skip_separator st P r) < length r"
proof -
  assume "r \<noteq> []"
  let ?r = "dropWhile (\<lambda>c. spctabnl c \<and> P c) (drop 1 r)"
  have "length ?r \<le> length (drop 1 r)" by (rule length_dropWhile_le)
  moreover have "length (dropWhile (\<lambda>c. spctabnl c \<and> isifs st c) (tl ?r)) \<le> length (tl ?r)"
    by (rule length_dropWhile_le)
  moreover have "length (drop 1 r) < length r" using \<open>r \<noteq> []\<close> by simp
  ultimately show ?thesis unfolding skip_separator_def Let_def length_tl by (auto simp del: length_drop length_tl split: if_split)
qed

lemma skip_separator_Nil [simp]: "skip_separator st P [] = []"
  by (simp add: skip_separator_def)

function list_string_loop ::
  "ifs_state \<Rightarrow> string \<Rightarrow> int \<Rightarrow> int \<Rightarrow> bool \<Rightarrow> string \<Rightarrow> word_list \<Rightarrow> word_list option" where
  "list_string_loop st separators quoted xflags sh_style_split string result =
     (if string = [] then Some (list_reverse result)
      else
        (case string_extract_verbatim string separators xflags of
           None \<Rightarrow> None
         | Some (current_word, rest) \<Rightarrow>
             list_string_loop st separators quoted xflags sh_style_split
               (skip_separator st (issep st separators) rest)
               (if QUOTED_NULL current_word then make_word_list quoted_null_word result
                else if current_word \<noteq> [] then make_word_list (field_word quoted current_word) result
                else if \<not> sh_style_split \<and> \<not> spctabnl (char_at rest 0) then make_word_list quoted_null_word result
                else result)))"
  by pat_completeness auto
termination
proof (relation "measure (\<lambda>(st, separators, quoted, xflags, sh, string, result). length string)")
  fix st separators xflags string current_word rest and x :: "string \<times> string"
  assume "string \<noteq> []" and "string_extract_verbatim string separators xflags = Some x"
    and "(current_word, rest) = x"
  then have "length rest \<le> length string" using string_extract_verbatim_length by metis
  moreover have "length (skip_separator st (issep st separators) rest) < length string"
    using calculation skip_separator_length [of rest st "issep st separators"] \<open>string \<noteq> []\<close>
    by (cases "rest = []") auto
  ultimately show "((st, separators, quoted, xflags, sh_style_split, skip_separator st (issep st separators) rest, r),
      st, separators, quoted, xflags, sh_style_split, string, result)
    \<in> measure (\<lambda>(st, separators, quoted, xflags, sh, string, result). length string)" for quoted sh_style_split r result
    by simp
qed simp

declare list_string_loop.simps [simp del]

definition list_string :: "ifs_state \<Rightarrow> string option \<Rightarrow> string \<Rightarrow> int \<Rightarrow> word_list option" where
  "list_string st string separators quoted =
     (case string of
        None \<Rightarrow> Some []
      | Some s \<Rightarrow>
          if s = [] then Some []
          else
            let sh_style_split = (separators = [CHR '' '', TAB, NEWLINE]);
                s' = (if quoted = 0 \<or> separators = [] then dropWhile (\<lambda>c. spctabnl c \<and> issep st separators c) s else s)
            in if s' = [] then Some []
               else list_string_loop st separators quoted (ifs_xflags st) sh_style_split s' [])"

text \<open>
  \<open>get_word_from_string\<close> returns the word (\<open>None\<close> for a null pointer), the new value of \<^verbatim>\<open>*stringp\<close>, and
  the position stored in \<^verbatim>\<open>*endptr\<close>, when one is stored.
\<close>

definition get_word_from_string ::
  "ifs_state \<Rightarrow> string option \<Rightarrow> string \<Rightarrow> (string option \<times> string option \<times> string option) option" where
  "get_word_from_string st stringp separators =
     (case stringp of
        None \<Rightarrow> Some (None, None, None)
      | Some s \<Rightarrow>
          if s = [] then Some (None, Some s, None)
          else
            let sh_style_split = (separators = [CHR '' '', TAB, NEWLINE]);
                s' = (if sh_style_split \<or> separators = [] then dropWhile (\<lambda>c. spctabnl c \<and> isifs st c) s else s)
            in if s' = [] then Some (None, Some [], Some [])
               else
                 (case string_extract_verbatim s' separators (ifs_xflags st) of
                    None \<Rightarrow> None
                  | Some (current_word, rest) \<Rightarrow>
                      Some (Some current_word, Some (skip_separator st (isifs st) rest), Some rest)))"

function strip_trailing_loop :: "ifs_state \<Rightarrow> bool \<Rightarrow> string \<Rightarrow> nat \<Rightarrow> nat" where
  "strip_trailing_loop st saw_escape string i =
     (if 0 < i \<and> ((spctabnl (char_at string i) \<and> isifs st (char_at string i))
          \<or> (saw_escape \<and> char_at string i = CTLESC \<and> spctabnl (char_at string (Suc i))))
      then strip_trailing_loop st saw_escape string (i - 1)
      else i)"
  by pat_completeness auto
termination
  by (relation "measure (\<lambda>(st, saw_escape, string, i). i)") auto

definition strip_trailing_ifs_whitespace :: "ifs_state \<Rightarrow> string \<Rightarrow> bool \<Rightarrow> string" where
  "strip_trailing_ifs_whitespace st string saw_escape =
     (if string = [] then []
      else take (Suc (strip_trailing_loop st saw_escape string (length string - 1))) string)"

definition word_split :: "ifs_state \<Rightarrow> word_desc option \<Rightarrow> string option \<Rightarrow> word_list option" where
  "word_split st w ifs_chars =
     (case w of
        None \<Rightarrow> Some []
      | Some w \<Rightarrow>
          let xifs = (if wflags w AND W_QUOTED \<noteq> 0 then [] else case ifs_chars of None \<Rightarrow> [] | Some s \<Rightarrow> s)
          in list_string st (Some (word w)) xifs (wflags w AND W_QUOTED))"

text \<open>
  The loop of \<open>word_list_split\<close> keeps the list built so far and the position of the element \<^verbatim>\<open>e\<close>
  whose \<^verbatim>\<open>next\<close> field the following words are stored in.
\<close>

fun split_list_loop :: "ifs_state \<Rightarrow> word_list \<Rightarrow> word_list \<Rightarrow> nat \<Rightarrow> word_list option" where
  "split_list_loop st [] result e = Some result"
| "split_list_loop st (t # list) result e =
     (case word_split st (Some t) (ifs_value st) of
        None \<Rightarrow> None
      | Some tresult \<Rightarrow>
          if result = [] then split_list_loop st list tresult 0
          else split_list_loop st list (take (Suc e) result @ tresult) (e + length tresult))"

definition word_list_split :: "ifs_state \<Rightarrow> word_list \<Rightarrow> word_list option" where
  "word_list_split st list = split_list_loop st list [] 0"

subsection \<open>Field splitting, as POSIX states it\<close>

declare dropWhile_eq_Nil_conv [simp del]

text \<open>
  \<open>IFS\<close> white space is a space, tab or newline that is in \<^verbatim>\<open>IFS\<close>. A delimiter is a non-empty run of it,
  or any other \<^verbatim>\<open>IFS\<close> character together with the \<^verbatim>\<open>IFS\<close> white space around it.
\<close>

definition ifs_white :: "string \<Rightarrow> char \<Rightarrow> bool" where
  "ifs_white ifs c \<longleftrightarrow> spctabnl c \<and> c \<in> set ifs"

definition skip_delim :: "string \<Rightarrow> string \<Rightarrow> string" where
  "skip_delim ifs s =
     (let r = dropWhile (ifs_white ifs) s
      in case r of [] \<Rightarrow> [] | c # r' \<Rightarrow> if c \<in> set ifs then dropWhile (ifs_white ifs) r' else r)"

lemma skip_delim_length: "s \<noteq> [] \<Longrightarrow> hd s \<in> set ifs \<Longrightarrow> length (skip_delim ifs s) < length s"
proof -
  assume s: "s \<noteq> []" "hd s \<in> set ifs"
  have le: "length (dropWhile P x) \<le> length x" for P and x :: string by (rule length_dropWhile_le)
  show ?thesis
  proof (cases "dropWhile (ifs_white ifs) s")
    case (Cons c r)
    with le [of "ifs_white ifs" s] have "length r < length s" by simp
    moreover have "c \<in> set ifs \<or> length (c # r) < length s"
    proof (cases "ifs_white ifs (hd s)")
      case True
      then have "dropWhile (ifs_white ifs) s = dropWhile (ifs_white ifs) (tl s)" using s by (cases s) auto
      with Cons le [of "ifs_white ifs" "tl s"] s show ?thesis by (cases s) auto
    next
      case False
      then have "dropWhile (ifs_white ifs) s = s" using s by (cases s) auto
      with Cons s show ?thesis by auto
    qed
    ultimately show ?thesis
      using Cons le [of "ifs_white ifs" r] by (auto simp: skip_delim_def Let_def)
  qed (use s in \<open>simp add: skip_delim_def\<close>)
qed

function fields :: "string \<Rightarrow> string \<Rightarrow> string list" where
  "fields ifs s =
     (if s = [] then []
      else takeWhile (\<lambda>c. c \<notin> set ifs) s # fields ifs (skip_delim ifs (dropWhile (\<lambda>c. c \<notin> set ifs) s)))"
  by pat_completeness auto
termination
proof (relation "measure (\<lambda>(ifs, s). length s)")
  fix ifs s :: string
  assume "s \<noteq> []"
  let ?r = "dropWhile (\<lambda>c. c \<notin> set ifs) s"
  have "length ?r \<le> length s" by (rule length_dropWhile_le)
  moreover have "length (skip_delim ifs ?r) < length ?r" if "?r \<noteq> []"
    by (rule skip_delim_length) (use that hd_dropWhile [OF that] in auto)
  moreover have "skip_delim ifs [] = []" by (simp add: skip_delim_def)
  ultimately have "length (skip_delim ifs ?r) < length s" using \<open>s \<noteq> []\<close> by (cases "?r = []") auto
  then show "((ifs, skip_delim ifs ?r), ifs, s) \<in> measure (\<lambda>(ifs, s). length s)" by simp
qed simp

declare fields.simps [simp del]

lemma dropWhile_head: "dropWhile P s = c # r \<Longrightarrow> \<not> P c"
  using hd_dropWhile [of P s] by simp

lemma skip_delim_no_white: "skip_delim ifs s = c # r \<Longrightarrow> \<not> ifs_white ifs c"
  by (auto simp: skip_delim_def Let_def split: list.splits if_splits dest: dropWhile_head)

lemma skip_separator_eq:
  assumes "r \<noteq> [] \<longrightarrow> hd r \<in> set ifs" and "\<And>c. P c \<longleftrightarrow> c \<in> set ifs" and "\<And>c. isifs st c \<longleftrightarrow> c \<in> set ifs"
  shows "skip_separator st P r = skip_delim ifs r"
proof (cases r)
  case (Cons c r')
  have w: "(\<lambda>c. spctabnl c \<and> P c) = ifs_white ifs" "(\<lambda>c. spctabnl c \<and> isifs st c) = ifs_white ifs"
    using assms(2,3) by (auto simp: ifs_white_def fun_eq_iff)
  have head: "dropWhile (ifs_white ifs) r' = d # x \<Longrightarrow> d \<in> set ifs \<Longrightarrow> \<not> spctabnl d" for d x
    using dropWhile_head [of "ifs_white ifs" r'] by (auto simp: ifs_white_def)
  show ?thesis
  proof (cases "spctabnl c")
    case True
    with Cons assms head show ?thesis
      unfolding skip_separator_def skip_delim_def Let_def w
      by (auto simp: ifs_white_def [of ifs c] split: list.splits)
  next
    case False
    with Cons assms show ?thesis
      unfolding skip_separator_def skip_delim_def Let_def w by (simp add: ifs_white_def [of ifs c])
  qed
qed (simp add: skip_delim_def)

subsection \<open>Plain strings\<close>

text \<open>A string without the internal markers is cut at the first separator.\<close>

lemma extract_plain_loop:
  "CTLESC \<notin> set s \<Longrightarrow>
   extract_verbatim_loop cl fl s = Some (takeWhile (\<lambda>c. c \<notin> set cl) s, dropWhile (\<lambda>c. c \<notin> set cl) s)"
  by (induction s) auto

lemma extract_plain:
  assumes "CTLESC \<notin> set s" and "s \<noteq> []"
  shows "\<exists>rest. string_extract_verbatim s cl fl = Some (takeWhile (\<lambda>c. c \<notin> set cl) s, rest) \<and>
    skip_separator st P rest = skip_separator st P (dropWhile (\<lambda>c. c \<notin> set cl) s) \<and>
    (takeWhile (\<lambda>c. c \<notin> set cl) s = [] \<longrightarrow> rest = s)"
proof (cases "cl = [SQUOTE]")
  case True
  have sq: "dropWhile (\<lambda>c. c \<noteq> SQUOTE) s = SQUOTE # drop 1 (dropWhile (\<lambda>c. c \<noteq> SQUOTE) s)" if "SQUOTE \<in> set s"
    using that by (induction s) auto
  show ?thesis
  proof (cases "SQUOTE \<in> set s")
    case True
    have "takeWhile (\<lambda>c. c \<noteq> SQUOTE) s = [] \<Longrightarrow> dropWhile (\<lambda>c. c \<noteq> SQUOTE) s = s" by (cases s) (auto split: if_splits)
    with True \<open>cl = [SQUOTE]\<close> assms sq show ?thesis
      by (auto simp: string_extract_verbatim_def string_extract_single_quoted_def)
  next
    case False
    then have tw: "takeWhile (\<lambda>c. c \<noteq> SQUOTE) s = s" "dropWhile (\<lambda>c. c \<noteq> SQUOTE) s = []" by (auto simp: takeWhile_eq_all_conv dropWhile_eq_Nil_conv)
    then have "takeWhile (\<lambda>c. c \<noteq> SQUOTE) s \<noteq> []" using assms(2) by (metis tw(1))
    with tw show ?thesis
      using False \<open>cl = [SQUOTE]\<close> assms
      by (simp add: string_extract_verbatim_def string_extract_single_quoted_def skip_separator_def)
  qed
next
  case False
  have "takeWhile (\<lambda>c. c \<notin> set cl) s = [] \<Longrightarrow> dropWhile (\<lambda>c. c \<notin> set cl) s = s" by (cases s) (auto split: if_splits)
  with False assms show ?thesis by (simp add: string_extract_verbatim_def extract_plain_loop)
qed

lemma word_field_word [simp]: "word (field_word q cw) = drop_nulls cw"
  by (simp add: field_word_def Let_def make_word_def remove_quoted_nulls_eq)

definition as_field :: "string \<Rightarrow> string" where
  "as_field f = (if f = [] then [CTLNUL] else f)"

definition plain :: "string \<Rightarrow> bool" where
  "plain s \<longleftrightarrow> CTLESC \<notin> set s \<and> CTLNUL \<notin> set s"

lemma plain_takeWhile: "plain s \<Longrightarrow> plain (takeWhile P s)"
  by (auto simp: plain_def dest: set_takeWhileD)

lemma plain_dropWhile: "plain s \<Longrightarrow> plain (dropWhile P s)"
  by (auto simp: plain_def dest: set_dropWhileD)

lemma plain_skip_delim: "plain s \<Longrightarrow> plain (skip_delim ifs s)"
  using plain_dropWhile [of s "ifs_white ifs"] plain_dropWhile [of "tl (dropWhile (ifs_white ifs) s)" "ifs_white ifs"]
  by (cases "dropWhile (ifs_white ifs) s") (auto simp: skip_delim_def plain_def)

lemma plain_not_QUOTED_NULL: "plain s \<Longrightarrow> \<not> QUOTED_NULL s"
  by (cases s) (auto simp: plain_def QUOTED_NULL_def char_at_def)

lemma issep_setifs:
  "issep (setifs v) (the (ifs_value (setifs v))) c \<longleftrightarrow> c \<in> set (the (ifs_value (setifs v)))"
  by (auto simp: issep_def isifs_setifs split: list.split)

lemma fields_Cons:
  "s \<noteq> [] \<Longrightarrow> fields ifs s =
     takeWhile (\<lambda>c. c \<notin> set ifs) s # fields ifs (skip_delim ifs (dropWhile (\<lambda>c. c \<notin> set ifs) s))"
  by (simp add: fields.simps [of ifs s])

lemma fields_Nil [simp]: "fields ifs [] = []"
  by (simp add: fields.simps)

lemma list_string_loop_plain:
  assumes P: "\<And>c. issep st ifs c \<longleftrightarrow> c \<in> set ifs" and I: "\<And>c. isifs st c \<longleftrightarrow> c \<in> set ifs"
    and "sh = (ifs = [CHR '' '', TAB, NEWLINE])"
    and "plain s" and "s \<noteq> [] \<longrightarrow> \<not> ifs_white ifs (hd s)"
  shows "\<exists>ws. list_string_loop st ifs 0 fl sh s result = Some (rev result @ ws) \<and>
    map word ws = map as_field (fields ifs s)"
  using assms(4,5)
proof (induction "length s" arbitrary: s result rule: less_induct)
  case less
  show ?case
  proof (cases "s = []")
    case True
    then show ?thesis by (simp add: list_string_loop.simps)
  next
    case False
    let ?f = "takeWhile (\<lambda>c. c \<notin> set ifs) s" and ?r = "dropWhile (\<lambda>c. c \<notin> set ifs) s"
    have pl: "CTLESC \<notin> set s" using less.prems by (simp add: plain_def)
    from extract_plain [OF pl False, of ifs fl st "issep st ifs"] obtain rest where
      ex: "string_extract_verbatim s ifs fl = Some (?f, rest)"
      and sk: "skip_separator st (issep st ifs) rest = skip_separator st (issep st ifs) ?r"
      and em: "?f = [] \<longrightarrow> rest = s" by blast
    have hd: "?r \<noteq> [] \<longrightarrow> hd ?r \<in> set ifs" using hd_dropWhile [of "\<lambda>c. c \<notin> set ifs" s] by blast
    let ?n = "skip_delim ifs ?r"
    have nx: "skip_separator st (issep st ifs) rest = ?n"
      unfolding sk by (rule skip_separator_eq [OF hd P I])
    have pf: "plain ?f" and pn: "plain ?n"
      using less.prems by (simp_all add: plain_takeWhile plain_dropWhile plain_skip_delim)
    have "length ?n < length s"
      using skip_delim_length [of ?r ifs] hd False length_dropWhile_le [of "\<lambda>c. c \<notin> set ifs" s]
      by (cases "?r = []") (auto simp: skip_delim_def)
    moreover have "?n \<noteq> [] \<longrightarrow> \<not> ifs_white ifs (hd ?n)"
      using skip_delim_no_white [of ifs ?r] by (cases ?n) auto
    ultimately have IH: "\<exists>ws. list_string_loop st ifs 0 fl sh ?n res = Some (rev res @ ws) \<and>
        map word ws = map as_field (fields ifs ?n)" for res
      using less.hyps pn by blast
    have empty: "\<not> sh \<and> \<not> spctabnl (char_at rest 0)" if "?f = []"
    proof -
      from that False have "hd s \<in> set ifs" by (cases s) (auto split: if_splits)
      with less.prems False em that assms(3) show ?thesis
        by (cases s) (auto simp: ifs_white_def char_at_def spctabnl_def)
    qed
    let ?w = "if ?f = [] then quoted_null_word else field_word 0 ?f"
    have "list_string_loop st ifs 0 fl sh s result = list_string_loop st ifs 0 fl sh ?n (?w # result)"
      using False ex nx empty plain_not_QUOTED_NULL [OF pf]
      by (subst list_string_loop.simps) (simp add: make_word_list_def)
    moreover have "word ?w = as_field ?f"
      using pf by (simp add: quoted_null_word_def make_quoted_char_def as_field_def drop_nulls_no_null plain_def)
    ultimately show ?thesis
      using IH [of "?w # result"] fields_Cons [OF False, of ifs] by fastforce
  qed
qed

subsection \<open>Properties\<close>

text \<open>
  C6. Word splitting is POSIX field splitting: for a string without the internal markers and the
  current value of \<^verbatim>\<open>IFS\<close>, \<open>list_string\<close> drops leading \<^verbatim>\<open>IFS\<close> white space and returns exactly the
  fields that \<open>fields\<close> defines, an empty field being the quoted null word; with the default \<^verbatim>\<open>IFS\<close>
  the same algorithm results although the code has a separate flag for it.
\<close>

theorem list_string_fields:
  assumes "plain s"
  shows "\<exists>ws. list_string (setifs v) (Some s) (the (ifs_value (setifs v))) 0 = Some ws \<and>
    map word ws = map as_field (fields (the (ifs_value (setifs v)))
      (dropWhile (ifs_white (the (ifs_value (setifs v)))) s))"
proof -
  let ?st = "setifs v" and ?ifs = "the (ifs_value (setifs v))"
  let ?s = "dropWhile (ifs_white ?ifs) s"
  have w: "(\<lambda>c. spctabnl c \<and> issep ?st ?ifs c) = ifs_white ?ifs"
    by (simp add: fun_eq_iff issep_setifs ifs_white_def)
  have "?s \<noteq> [] \<longrightarrow> \<not> ifs_white ?ifs (hd ?s)" using hd_dropWhile by blast
  with list_string_loop_plain [of ?st ?ifs _ ?s "ifs_xflags ?st" "[]", OF issep_setifs isifs_setifs refl] assms
  show ?thesis unfolding list_string_def w by (auto simp: plain_dropWhile Let_def)
qed

theorem list_string_fields_witness:
  "\<exists>ws. list_string (setifs (Some (Some '': ''))) (Some '' a:: b '') '': '' 0 = Some ws \<and>
    map word ws = [''a'', [CTLNUL], ''b'']"
proof -
  have v: "the (ifs_value (setifs (Some (Some '': '')))) = '': ''" by (simp add: setifs_def Let_def)
  have "plain '' a:: b ''" by (simp add: plain_def CTLESC_def CTLNUL_def)
  from list_string_fields [OF this, of "Some (Some '': '')"] show ?thesis
    unfolding v
    by (simp add: fields.simps skip_delim_def ifs_white_def spctabnl_def as_field_def Let_def)
qed

subsection \<open>Quoted strings and "$@"\<close>

lemma extract_quoted:
  assumes "fl AND SX_NOCTLESC = 0" and "CTLNUL \<notin> set cl" and "CTLESC \<notin> set cl"
    and "rest = [] \<or> hd rest \<in> set cl"
  shows "extract_verbatim_loop cl fl (quote_string w @ rest) = Some (quote_string w, rest)"
proof -
  have stop: "extract_verbatim_loop cl fl rest = Some ([], rest)"
    using assms by (cases rest) auto
  have "extract_verbatim_loop cl fl (quote_string_loop w @ rest) = Some (quote_string_loop w, rest)"
    using assms(1) stop by (induction w) simp_all
  with stop assms(2) show ?thesis by (auto simp: quote_string_def)
qed

lemma skip_separator_quoted:
  assumes "\<not> P CTLESC" and "\<not> P CTLNUL"
  shows "skip_separator st P (sep # quote_string w @ rest) = quote_string w @ rest"
proof -
  obtain c t where q: "quote_string w = c # t" "c = CTLESC \<or> c = CTLNUL"
    by (cases w) (auto simp: quote_string_def)
  moreover from q(2) assms have "\<not> P c" by auto
  ultimately show ?thesis by (simp add: skip_separator_def)
qed

definition quoted_field :: "string \<Rightarrow> word_desc" where
  "quoted_field w = (if w = [] then quoted_null_word else field_word 1 (quote_string w))"

lemma list_string_loop_step_quoted:
  assumes "fl AND SX_NOCTLESC = 0" and "CTLNUL \<notin> set cl" and "CTLESC \<notin> set cl" and "cl \<noteq> [SQUOTE]"
    and "rest = [] \<or> hd rest \<in> set cl"
  shows "list_string_loop st cl 1 fl sh (quote_string w @ rest) result =
    list_string_loop st cl 1 fl sh (skip_separator st (issep st cl) rest) (quoted_field w # result)"
proof -
  have ex: "string_extract_verbatim (quote_string w @ rest) cl fl = Some (quote_string w, rest)"
    using extract_quoted [OF assms(1-3,5)] assms(4) by (simp add: string_extract_verbatim_def)
  have ne: "quote_string w \<noteq> []" "QUOTED_NULL (quote_string w) \<longleftrightarrow> w = []"
    by (cases w; simp add: quote_string_def QUOTED_NULL_def char_at_def)+
  then show ?thesis
    by (subst list_string_loop.simps) (simp add: ex make_word_list_def quoted_field_def)
qed

lemma list_string_loop_quoted:
  assumes "fl AND SX_NOCTLESC = 0" and "CTLNUL \<notin> set cl" and "CTLESC \<notin> set cl" and "cl \<noteq> [SQUOTE]"
    and "sep \<in> set cl" and "\<not> issep st cl CTLESC" and "\<not> issep st cl CTLNUL"
  shows "list_string_loop st cl 1 fl sh (quote_string w @ concat (map (\<lambda>w. sep # quote_string w) l)) result =
    Some (rev result @ map quoted_field (w # l))"
proof (induction l arbitrary: w result)
  case Nil
  show ?case
    using list_string_loop_step_quoted [OF assms(1-4), of "[]"] by (simp add: list_string_loop.simps [of _ _ _ _ _ "[]"])
next
  case (Cons v l)
  show ?case
    using list_string_loop_step_quoted [OF assms(1-4), of "sep # quote_string v @ concat (map (\<lambda>w. sep # quote_string w) l)"]
      Cons.IH [of v "quoted_field w # result"] assms(5)
    by (simp add: skip_separator_quoted [OF assms(6,7)])
qed

lemma dequote_quoted_field: "map word (dequote_list (map quoted_field ws)) = ws"
proof (induction ws)
  case (Cons w ws)
  have "dequote_string (word (quoted_field w)) = w"
  proof (cases "w = []")
    case True
    then show ?thesis
      using dequote_quote_string [of "[]"]
      by (simp add: quoted_field_def quoted_null_word_def make_quoted_char_def quote_string_def)
  next
    case False
    then show ?thesis
      using dequote_quote_string [of w] by (simp add: quoted_field_def quote_string_def drop_nulls_quote_loop)
  qed
  with Cons show ?case by (simp add: dequote_list_def)
qed (simp add: dequote_list_def)

lemma dollar_at_string:
  assumes "NUL \<notin> set (the (ifs_value (setifs v)))"
    and "quoted AND (Q_HERE_DOCUMENT OR Q_DOUBLE_QUOTES OR Q_PATQUOTE) \<noteq> 0"
  shows "\<exists>sep \<in> set (if the (ifs_value (setifs v)) = [] then '' '' else the (ifs_value (setifs v))).
    string_list_dollar_at (setifs v) (w # l) quoted =
      Some (quote_string (word w) @ concat (map (\<lambda>w. sep # quote_string (word w)) l))"
proof -
  let ?ifs = "case v of Some (Some s) \<Rightarrow> s | _ \<Rightarrow> [CHR '' '', TAB, NEWLINE]"
  let ?sep = "case v of Some (Some (c # s)) \<Rightarrow> c | _ \<Rightarrow> CHR '' ''"
  have ql: "quote_list (w # l) = (hd (quote_list [w])) # quote_list l" by (simp add: quote_list_def)
  have "string_list_dollar_at (setifs v) (w # l) quoted = string_list_internal (quote_list (w # l)) [?sep]"
    using assms by (cases v; cases "the v"; cases "the (the v)")
      (auto simp: string_list_dollar_at_def setifs_def Let_def char_at_def)
  then have "string_list_dollar_at (setifs v) (w # l) quoted =
      Some (quote_string (word w) @ concat (map (\<lambda>w. ?sep # quote_string (word w)) l))"
    by (simp add: ql string_list_internal_Cons) (simp add: quote_list_def comp_def)
  moreover have "?sep \<in> set (if the (ifs_value (setifs v)) = [] then '' '' else the (ifs_value (setifs v)))"
    by (auto simp: setifs_def Let_def split: option.splits list.splits)
  ultimately show ?thesis by blast
qed

text \<open>
  C31. "$@" keeps its words. Joining the positional parameters for a quoted "$@" and splitting the
  result again, as word expansion does, gives back exactly the parameters after dequoting: as many
  as there were, empty ones and ones with separators in them included, for every value of \<^verbatim>\<open>IFS\<close>
  that is not a lone single quote and has no internal marker in it.
\<close>

theorem dollar_at_roundtrip:
  assumes "CTLESC \<notin> set ifs" and "CTLNUL \<notin> set ifs" and "NUL \<notin> set ifs" and "ifs \<noteq> [SQUOTE]"
    and "ifs = the (ifs_value (setifs v))"
    and "quoted AND (Q_HERE_DOCUMENT OR Q_DOUBLE_QUOTES OR Q_PATQUOTE) \<noteq> 0"
  shows "\<exists>ws. list_string (setifs v) (string_list_dollar_at (setifs v) l quoted)
      (if ifs = [] then '' '' else ifs) 1 = Some ws \<and>
    map word (dequote_list ws) = map word l"
proof (cases l)
  case Nil
  then have "string_list_dollar_at (setifs v) l quoted = None"
    by (simp add: string_list_dollar_at_def string_list_internal_def quote_list_def list_quote_escapes_def Let_def)
  with Nil show ?thesis by (simp add: list_string_def dequote_list_def)
next
  case (Cons w l')
  let ?cl = "if ifs = [] then '' '' else ifs"
  from dollar_at_string [of v quoted w l'] assms obtain sep where sep: "sep \<in> set ?cl"
    and s: "string_list_dollar_at (setifs v) l quoted =
      Some (quote_string (word w) @ concat (map (\<lambda>w. sep # quote_string w) (map word l')))"
    by (auto simp: Cons comp_def)
  have fl: "ifs_xflags (setifs v) AND SX_NOCTLESC = 0"
    using assms by (auto simp: ifs_xflags_def ifs_has_def cdefs split: option.splits)
  have iss: "issep (setifs v) ?cl c \<longrightarrow> c \<in> set ?cl" for c
    using issep_setifs [of v c] assms(5) by (auto simp: issep_def)
  have ctl: "CTLNUL \<notin> set ?cl" "CTLESC \<notin> set ?cl" "?cl \<noteq> [SQUOTE]" using assms by auto
  have ne: "quote_string (word w) \<noteq> []" by (cases "word w") (auto simp: quote_string_def)
  have ni: "\<not> issep (setifs v) ?cl CTLESC" "\<not> issep (setifs v) ?cl CTLNUL" using iss ctl by blast+
  have cl: "?cl \<noteq> []" by simp
  let ?str = "quote_string (word w) @ concat (map (\<lambda>w. sep # quote_string w) (map word l'))"
  have "list_string (setifs v) (Some ?str) ?cl 1 = Some (map quoted_field (map word l))"
    using cl ne list_string_loop_quoted [OF fl ctl sep ni, of _ "word w" "map word l'" "[]"]
    unfolding list_string_def option.case Let_def Cons by (simp del: map_map)
  then have "list_string (setifs v) (string_list_dollar_at (setifs v) l quoted) ?cl 1 = Some (map quoted_field (map word l))"
    unfolding s .
  then show ?thesis using dequote_quoted_field by blast
qed

theorem dollar_at_roundtrip_witness:
  "\<exists>ws. list_string (setifs (Some (Some '':''))) (string_list_dollar_at (setifs (Some (Some '':'')))
      (map make_bare_word [''a:b'', [], '' c'']) Q_DOUBLE_QUOTES) '':'' 1 = Some ws \<and>
    map word (dequote_list ws) = [''a:b'', [], '' c'']"
  using dollar_at_roundtrip [of "'':''" "Some (Some '':'')" Q_DOUBLE_QUOTES "map make_bare_word [''a:b'', [], '' c'']"]
  by (simp add: CTLESC_def CTLNUL_def setifs_def cdefs Let_def)

text \<open>
  With a lone single quote as \<^verbatim>\<open>IFS\<close> the special case at the start of \<open>string_extract_verbatim\<close> ignores
  \<open>CTLESC\<close>, so a quoted separator is split after all: "$@" with the one parameter \<^verbatim>\<open>a'b\<close> gives two.
\<close>

theorem dollar_at_single_quote_ifs:
  "\<exists>ws. list_string (setifs (Some (Some [SQUOTE])))
      (string_list_dollar_at (setifs (Some (Some [SQUOTE]))) [make_bare_word [CHR ''a'', SQUOTE, CHR ''b'']] Q_DOUBLE_QUOTES)
      [SQUOTE] 1 = Some ws \<and>
    map word (dequote_list ws) = [''a'', ''b'']"
proof -
  let ?st = "setifs (Some (Some [SQUOTE]))"
  have s: "string_list_dollar_at ?st [make_bare_word [CHR ''a'', SQUOTE, CHR ''b'']] Q_DOUBLE_QUOTES =
      Some [CTLESC, CHR ''a'', CTLESC, SQUOTE, CTLESC, CHR ''b'']"
    by (simp add: string_list_dollar_at_def string_list_internal_def quote_list_def quote_string_def cdefs Let_def)
  have l: "list_string ?st (Some [CTLESC, CHR ''a'', CTLESC, SQUOTE, CTLESC, CHR ''b'']) [SQUOTE] 1 =
      Some [field_word 1 [CTLESC, CHR ''a'', CTLESC], field_word 1 [CTLESC, CHR ''b'']]"
  proof -
    note step = string_extract_verbatim_def string_extract_single_quoted_def skip_separator_def QUOTED_NULL_def
      char_at_def make_word_list_def spctabnl_def issep_def CTLESC_def CTLNUL_def Let_def
    have "list_string_loop ?st [SQUOTE] 1 fl sh [CTLESC, CHR ''a'', CTLESC, SQUOTE, CTLESC, CHR ''b''] [] =
        list_string_loop ?st [SQUOTE] 1 fl sh [CTLESC, CHR ''b''] [field_word 1 [CTLESC, CHR ''a'', CTLESC]]" for fl sh
      by (subst list_string_loop.simps) (simp add: step)
    moreover have "list_string_loop ?st [SQUOTE] 1 fl sh [CTLESC, CHR ''b''] res =
        list_string_loop ?st [SQUOTE] 1 fl sh [] (field_word 1 [CTLESC, CHR ''b''] # res)" for fl sh res
      by (subst list_string_loop.simps) (simp add: step)
    moreover have "list_string_loop ?st [SQUOTE] 1 fl sh [] res = Some (rev res)" for fl sh res
      by (subst list_string_loop.simps) simp
    ultimately show ?thesis by (simp add: list_string_def Let_def)
  qed
  show ?thesis
    unfolding s l by (simp add: dequote_list_def dequote_string_def QUOTED_NULL_def char_at_def)
qed

text \<open>
  The \<^verbatim>\<open>read\<close> builtin's \<open>get_word_from_string\<close> takes the first field: on a string without the
  internal markers (its leading \<^verbatim>\<open>IFS\<close> white space dropped when \<^verbatim>\<open>IFS\<close> has its default value) it
  returns the first of the fields word splitting would produce, and leaves \<^verbatim>\<open>*stringp\<close> at a string
  whose fields are the remaining ones.
\<close>

lemma get_word_takes_field:
  assumes "plain s" and "ifs = the (ifs_value (setifs v))"
    and "s' = (if ifs = [CHR '' '', TAB, NEWLINE] then dropWhile (ifs_white ifs) s else s)" and "s' \<noteq> []"
  shows "\<exists>rest endp. get_word_from_string (setifs v) (Some s) ifs =
      Some (Some (hd (fields ifs s')), Some rest, Some endp) \<and> fields ifs rest = tl (fields ifs s')"
proof -
  let ?st = "setifs v"
  have w: "(\<lambda>c. spctabnl c \<and> isifs ?st c) = ifs_white ifs"
    using assms(2) by (simp add: fun_eq_iff isifs_setifs ifs_white_def)
  have pl: "CTLESC \<notin> set s'" using assms(1,3) plain_dropWhile [of s] by (auto simp: plain_def)
  have strip: "(if ifs = [CHR '' '', TAB, NEWLINE] \<or> ifs = [] then dropWhile (ifs_white ifs) s else s) = s'"
    using assms(3) by (cases s) (auto simp: ifs_white_def)
  have hd: "dropWhile (\<lambda>c. c \<notin> set ifs) s' \<noteq> [] \<longrightarrow> hd (dropWhile (\<lambda>c. c \<notin> set ifs) s') \<in> set ifs"
    using hd_dropWhile [of "\<lambda>c. c \<notin> set ifs" s'] by blast
  have isf: "isifs ?st c \<longleftrightarrow> c \<in> set ifs" for c by (simp add: assms(2) isifs_setifs)
  from extract_plain [OF pl assms(4), of ifs "ifs_xflags ?st" ?st "isifs ?st"]
    skip_separator_eq [OF hd isf isf]
  obtain rest where ex: "string_extract_verbatim s' ifs (ifs_xflags ?st) = Some (takeWhile (\<lambda>c. c \<notin> set ifs) s', rest)"
    and sk: "skip_separator ?st (isifs ?st) rest = skip_delim ifs (dropWhile (\<lambda>c. c \<notin> set ifs) s')" by auto
  have ne: "s \<noteq> []" using assms(3,4) by (auto split: if_splits)
  have "get_word_from_string ?st (Some s) ifs =
      Some (Some (takeWhile (\<lambda>c. c \<notin> set ifs) s'), Some (skip_delim ifs (dropWhile (\<lambda>c. c \<notin> set ifs) s')), Some rest)"
    unfolding get_word_from_string_def option.case Let_def w strip using ne assms(4) ex sk by simp
  then show ?thesis using fields_Cons [OF assms(4), of ifs] by simp
qed

lemma get_word_takes_field_at:
  "\<exists>rest endp. get_word_from_string (setifs None) (Some '' one two'') [CHR '' '', TAB, NEWLINE] =
      Some (Some ''one'', Some rest, Some endp) \<and> fields [CHR '' '', TAB, NEWLINE] rest = [''two'']"
proof -
  have v: "[CHR '' '', TAB, NEWLINE] = the (ifs_value (setifs None))" by (simp add: setifs_def Let_def)
  have p: "plain '' one two''" by (simp add: plain_def CTLESC_def CTLNUL_def)
  have d: "''one two'' = (if [CHR '' '', TAB, NEWLINE] = [CHR '' '', TAB, NEWLINE]
      then dropWhile (ifs_white [CHR '' '', TAB, NEWLINE]) '' one two'' else '' one two'')"
    by (simp add: ifs_white_def spctabnl_def)
  have f: "fields [CHR '' '', TAB, NEWLINE] ''one two'' = [''one'', ''two'']"
    by (simp add: fields.simps skip_delim_def ifs_white_def spctabnl_def Let_def)
  from get_word_takes_field [OF p v d] f show ?thesis by simp
qed

subsection \<open>Splitting a list of words\<close>

lemma split_list_loop_last:
  "map (\<lambda>t. word_split st (Some t) (ifs_value st)) ts = map Some yss \<Longrightarrow> result \<noteq> [] \<Longrightarrow>
   e = length result - 1 \<Longrightarrow> split_list_loop st ts result e = Some (result @ concat yss)"
proof (induction ts arbitrary: yss result e)
  case (Cons t ts)
  then obtain ys yss' where y: "yss = ys # yss'" by (cases yss) auto
  have "take (Suc e) result = result" and "e + length ys = length (result @ ys) - 1"
    using Cons.prems(2,3) by (cases result; simp)+
  with Cons.IH [of yss' "result @ ys" "e + length ys"] Cons.prems y show ?case by simp
qed simp

text \<open>
  C32. \<open>word_list_split\<close> keeps only the first of the words the first splittable word of the list
  gives, when other words follow it: after assigning \<^verbatim>\<open>result = e = tresult\<close> it stores the next list in
  \<^verbatim>\<open>e->next\<close> without moving \<^verbatim>\<open>e\<close> to the end of that list first. With a single word, or when the first
  word does not split, the result is the concatenation of the parts.
\<close>

theorem word_list_split_result:
  assumes "word_split st (Some t) (ifs_value st) = Some (x # xs)"
    and "map (\<lambda>t. word_split st (Some t) (ifs_value st)) ts = map Some yss"
  shows "word_list_split st (t # ts) = Some (if ts = [] then x # xs else x # concat yss)"
proof (cases ts)
  case (Cons u us)
  with assms(2) obtain ys yss' where y: "yss = ys # yss'"
    and u: "word_split st (Some u) (ifs_value st) = Some ys"
    and r: "map (\<lambda>t. word_split st (Some t) (ifs_value st)) us = map Some yss'" by auto
  from split_list_loop_last [OF r, of "x # ys" "length ys"] y u Cons assms(1) show ?thesis
    by (simp add: word_list_split_def)
qed (simp add: word_list_split_def assms(1))

theorem word_list_split_result_witness:
  "\<exists>ws. word_list_split (setifs None) [make_bare_word ''a b'', make_bare_word ''c''] = Some ws \<and>
     map word ws = [''a'', ''c'']"
proof -
  let ?ifs = "[CHR '' '', TAB, NEWLINE]"
  have v: "ifs_value (setifs None) = Some ?ifs" by (simp add: setifs_def Let_def)
  have ws: "\<exists>ws. word_split (setifs None) (Some (make_bare_word s)) (ifs_value (setifs None)) = Some ws \<and>
      map word ws = map as_field (fields ?ifs (dropWhile (ifs_white ?ifs) s))" if "plain s" for s
    using list_string_loop_plain [of "setifs None" ?ifs _ "dropWhile (ifs_white ?ifs) s" "ifs_xflags (setifs None)" "[]"]
      issep_setifs [of None] isifs_setifs [of None] v that hd_dropWhile [of "ifs_white ?ifs" s]
    by (auto simp: word_split_def list_string_def plain_dropWhile Let_def ifs_white_def [abs_def])
  have p: "plain ''a b''" "plain ''c''" by (simp_all add: plain_def CTLESC_def CTLNUL_def)
  have f: "fields ?ifs (dropWhile (ifs_white ?ifs) ''a b'') = [''a'', ''b'']"
    "fields ?ifs (dropWhile (ifs_white ?ifs) ''c'') = [''c'']"
    by (simp_all add: fields.simps skip_delim_def ifs_white_def spctabnl_def Let_def)
  from ws [OF p(1)] f(1) obtain x xs where
    a: "word_split (setifs None) (Some (make_bare_word ''a b'')) (ifs_value (setifs None)) = Some (x # xs)" "word x = ''a''"
    by (auto simp: as_field_def)
  from ws [OF p(2)] f(2) obtain y where
    c: "word_split (setifs None) (Some (make_bare_word ''c'')) (ifs_value (setifs None)) = Some [y]" "word y = ''c''"
    by (auto simp: as_field_def)
  from word_list_split_result [OF a(1), of "[make_bare_word ''c'']" "[[y]]"] a(2) c show ?thesis by simp
qed

end
