(* ===== verification/Unwind.thy ===== *)
theory Unwind
  imports Prelude
begin

text \<open>
  Unwind protection (\<^verbatim>\<open>unwind_prot.c\<close>): a stack of things to undo, divided into frames by tags. An entry
  is a tag, a cleanup function with its argument already applied, or a block of memory saved for
  restoring. Memory maps addresses to bytes; what else a cleanup function may change is the
  parameter \<open>'w\<close>. Cleanup functions do not touch the stack itself nor
  \<^verbatim>\<open>interrupt_immediately\<close>, as the comment on \<^verbatim>\<open>without_interrupts\<close> requires.
\<close>

type_synonym mem = "nat \<Rightarrow> char"

datatype 'w unwind_elt =
    Tag string
  | Cleanup "mem \<times> 'w \<Rightarrow> mem \<times> 'w"
  | Saved nat string

record 'w uwstate =
  unwind_protect_list :: "'w unwind_elt list"
  memory :: mem
  world :: 'w
  interrupt_immediately :: int
  warnings :: "string list"

definition without_interrupts :: "('w uwstate \<Rightarrow> 'w uwstate) \<Rightarrow> 'w uwstate \<Rightarrow> 'w uwstate" where
  "without_interrupts function s =
     (let old = interrupt_immediately s
      in (function (s\<lparr>interrupt_immediately := 0\<rparr>))\<lparr>interrupt_immediately := old\<rparr>)"

definition add_unwind_protect_internal :: "'w unwind_elt \<Rightarrow> 'w uwstate \<Rightarrow> 'w uwstate" where
  "add_unwind_protect_internal elt s = s\<lparr>unwind_protect_list := elt # unwind_protect_list s\<rparr>"

definition remove_unwind_protect_internal :: "'w uwstate \<Rightarrow> 'w uwstate" where
  "remove_unwind_protect_internal s =
     (case unwind_protect_list s of [] \<Rightarrow> s | elt # rest \<Rightarrow> s\<lparr>unwind_protect_list := rest\<rparr>)"

fun discard_loop :: "string \<Rightarrow> 'w unwind_elt list \<Rightarrow> 'w unwind_elt list \<times> bool" where
  "discard_loop tag [] = ([], False)"
| "discard_loop tag (elt # rest) = 
     (case elt of Tag t \<Rightarrow> if t = tag then (rest, True) else discard_loop tag rest | _ \<Rightarrow> discard_loop tag rest)"

definition unwind_frame_discard_internal :: "string \<Rightarrow> 'w uwstate \<Rightarrow> 'w uwstate" where
  "unwind_frame_discard_internal tag s =
     (case discard_loop tag (unwind_protect_list s) of
        (l, found) \<Rightarrow>
          s\<lparr>unwind_protect_list := l,
            warnings := warnings s @ (if found then [] else [''unwind_frame_discard: '' @ tag @ '': frame not found''])\<rparr>)"

fun write_bytes :: "nat \<Rightarrow> string \<Rightarrow> mem \<Rightarrow> mem" where
  "write_bytes var [] m = m"
| "write_bytes var (c # cs) m = write_bytes (Suc var) cs (m(var := c))"

definition read_bytes :: "nat \<Rightarrow> nat \<Rightarrow> mem \<Rightarrow> string" where
  "read_bytes var sz m = map m [var..<var + sz]"

text \<open>\<open>restore_variable\<close> copies the saved bytes back.\<close>

definition restore_variable :: "nat \<Rightarrow> string \<Rightarrow> mem \<Rightarrow> mem" where
  "restore_variable var desired_setting m = write_bytes var desired_setting m"

fun run_loop ::
  "string option \<Rightarrow> 'w unwind_elt list \<Rightarrow> mem \<times> 'w \<Rightarrow> 'w unwind_elt list \<times> (mem \<times> 'w) \<times> bool" where
  "run_loop tag [] w = ([], w, False)"
| "run_loop tag (elt # rest) w =
     (case elt of
        Tag t \<Rightarrow> if tag = Some t then (rest, w, True) else run_loop tag rest w
      | Saved var bytes \<Rightarrow> run_loop tag rest (restore_variable var bytes (fst w), snd w)
      | Cleanup f \<Rightarrow> run_loop tag rest (f w))"

definition unwind_frame_run_internal :: "string option \<Rightarrow> 'w uwstate \<Rightarrow> 'w uwstate" where
  "unwind_frame_run_internal tag s =
     (case run_loop tag (unwind_protect_list s) (memory s, world s) of
        (l, w, found) \<Rightarrow>
          s\<lparr>unwind_protect_list := l, memory := fst w, world := snd w,
            warnings := warnings s @ (case tag of
               None \<Rightarrow> []
             | Some t \<Rightarrow> if found then [] else [''unwind_frame_run: '' @ t @ '': frame not found''])\<rparr>)"

definition run_unwind_protects_internal :: "'w uwstate \<Rightarrow> 'w uwstate" where
  "run_unwind_protects_internal s = unwind_frame_run_internal None s"

definition clear_unwind_protects_internal :: "bool \<Rightarrow> 'w uwstate \<Rightarrow> 'w uwstate" where
  "clear_unwind_protects_internal flag s =
     (if flag then (remove_unwind_protect_internal ^^ length (unwind_protect_list s)) s else s)
       \<lparr>unwind_protect_list := []\<rparr>"

definition unwind_protect_mem_internal :: "nat \<Rightarrow> nat \<Rightarrow> 'w uwstate \<Rightarrow> 'w uwstate" where
  "unwind_protect_mem_internal var sz s =
     s\<lparr>unwind_protect_list := Saved var (read_bytes var sz (memory s)) # unwind_protect_list s\<rparr>"

subsection \<open>The interface\<close>

definition add_unwind_protect :: "(mem \<times> 'w \<Rightarrow> mem \<times> 'w) \<Rightarrow> 'w uwstate \<Rightarrow> 'w uwstate" where
  "add_unwind_protect cleanup s = without_interrupts (add_unwind_protect_internal (Cleanup cleanup)) s"

definition begin_unwind_frame :: "string \<Rightarrow> 'w uwstate \<Rightarrow> 'w uwstate" where
  "begin_unwind_frame tag s = without_interrupts (add_unwind_protect_internal (Tag tag)) s"

definition discard_unwind_frame :: "string \<Rightarrow> 'w uwstate \<Rightarrow> 'w uwstate" where
  "discard_unwind_frame tag s =
     (if unwind_protect_list s \<noteq> [] then without_interrupts (unwind_frame_discard_internal tag) s else s)"

definition run_unwind_frame :: "string \<Rightarrow> 'w uwstate \<Rightarrow> 'w uwstate" where
  "run_unwind_frame tag s =
     (if unwind_protect_list s \<noteq> [] then without_interrupts (unwind_frame_run_internal (Some tag)) s else s)"

definition remove_unwind_protect :: "'w uwstate \<Rightarrow> 'w uwstate" where
  "remove_unwind_protect s =
     (if unwind_protect_list s \<noteq> [] then without_interrupts remove_unwind_protect_internal s else s)"

definition run_unwind_protects :: "'w uwstate \<Rightarrow> 'w uwstate" where
  "run_unwind_protects s =
     (if unwind_protect_list s \<noteq> [] then without_interrupts run_unwind_protects_internal s else s)"

definition clear_unwind_protect_list :: "bool \<Rightarrow> 'w uwstate \<Rightarrow> 'w uwstate" where
  "clear_unwind_protect_list flags s =
     (if unwind_protect_list s \<noteq> [] then without_interrupts (clear_unwind_protects_internal flags) s else s)"

definition have_unwind_protects :: "'w uwstate \<Rightarrow> bool" where
  "have_unwind_protects s \<longleftrightarrow> unwind_protect_list s \<noteq> []"

definition unwind_protect_mem :: "nat \<Rightarrow> nat \<Rightarrow> 'w uwstate \<Rightarrow> 'w uwstate" where
  "unwind_protect_mem var sz s = without_interrupts (unwind_protect_mem_internal var sz) s"

subsection \<open>Memory\<close>

lemma write_bytes_apply:
  "write_bytes v bs m x = (if v \<le> x \<and> x < v + length bs then bs ! (x - v) else m x)"
  by (induction bs arbitrary: v m) (auto simp: nth_Cons')

lemma write_read: "write_bytes v (read_bytes v n m) m = m"
  by (auto simp: fun_eq_iff write_bytes_apply read_bytes_def)

fun undo :: "'w unwind_elt list \<Rightarrow> mem \<Rightarrow> mem" where
  "undo [] m = m"
| "undo (Saved v bs # es) m = undo es (write_bytes v bs m)"
| "undo (e # es) m = undo es m"

fun covers :: "'w unwind_elt \<Rightarrow> nat \<Rightarrow> bool" where
  "covers (Saved v bs) x \<longleftrightarrow> v \<le> x \<and> x < v + length bs"
| "covers e x \<longleftrightarrow> False"

lemma undo_covered: "(\<exists>e \<in> set es. covers e x) \<Longrightarrow> undo es (m(x := c)) = undo es m"
proof (induction es m arbitrary: c rule: undo.induct)
  case (2 v bs es m)
  show ?case
  proof (cases "v \<le> x \<and> x < v + length bs")
    case True
    then have "write_bytes v bs (m(x := c)) = write_bytes v bs m" by (auto simp: fun_eq_iff write_bytes_apply)
    then show ?thesis by (simp del: fun_upd_apply)
  next
    case False
    then have "write_bytes v bs (m(x := c)) = (write_bytes v bs m)(x := c)" by (auto simp: fun_eq_iff write_bytes_apply)
    with 2 False show ?thesis by (auto simp del: fun_upd_apply)
  qed
qed auto

lemma run_loop_saved:
  "list_all (\<lambda>e. \<exists>v bs. e = Saved v bs) es \<Longrightarrow>
   run_loop (Some t) (es @ Tag t # rest) (m, w) = (rest, (undo es m, w), True)"
  by (induction es arbitrary: m) (auto simp: restore_variable_def)

subsection \<open>Frames\<close>

text \<open>
  What a piece of code may do inside a frame: protect variables, change the value of memory it has
  protected, and run complete frames of its own. \<open>scoped s0 s\<close> says that such code, started in \<open>s0\<close>,
  can reach \<open>s\<close>; an address counts as protected when an entry above the stack of \<open>s0\<close> covers it.
\<close>

definition protected :: "'w uwstate \<Rightarrow> 'w uwstate \<Rightarrow> nat \<Rightarrow> bool" where
  "protected s0 s x \<longleftrightarrow>
     (\<exists>e \<in> set (take (length (unwind_protect_list s) - length (unwind_protect_list s0)) (unwind_protect_list s)). covers e x)"

inductive scoped :: "'w uwstate \<Rightarrow> 'w uwstate \<Rightarrow> bool" where
  start: "scoped s0 s0"
| protect: "scoped s0 s \<Longrightarrow> scoped s0 (unwind_protect_mem var sz s)"
| assign: "scoped s0 s \<Longrightarrow> protected s0 s x \<Longrightarrow> scoped s0 (s\<lparr>memory := (memory s)(x := c)\<rparr>)"
| frame: "scoped s0 s \<Longrightarrow> scoped (begin_unwind_frame tag s) s1 \<Longrightarrow> scoped s0 (run_unwind_frame tag s1)"

lemmas frame_defs = begin_unwind_frame_def run_unwind_frame_def unwind_protect_mem_def without_interrupts_def
  add_unwind_protect_internal_def unwind_frame_run_internal_def unwind_protect_mem_internal_def

lemma run_frame_saved:
  assumes "unwind_protect_list s = es @ Tag tag # rest" and "list_all (\<lambda>e. \<exists>v bs. e = Saved v bs) es"
  shows "run_unwind_frame tag s = s\<lparr>unwind_protect_list := rest, memory := undo es (memory s)\<rparr>"
  using assms run_loop_saved [OF assms(2), of tag rest "memory s" "world s"] by (simp add: frame_defs Let_def)

lemma scoped_invariant:
  "scoped s0 s \<Longrightarrow> \<exists>es. s = s0\<lparr>unwind_protect_list := es @ unwind_protect_list s0, memory := memory s\<rparr> \<and>
    list_all (\<lambda>e. \<exists>v bs. e = Saved v bs) es \<and> undo es (memory s) = memory s0"
proof (induction rule: scoped.induct)
  case (start s0)
  show ?case by (intro exI [of _ "[]"]) simp
next
  case (protect s0 s var sz)
  then obtain es where es: "s = s0\<lparr>unwind_protect_list := es @ unwind_protect_list s0, memory := memory s\<rparr>"
    "list_all (\<lambda>e. \<exists>v bs. e = Saved v bs) es" "undo es (memory s) = memory s0" by blast
  let ?e = "Saved var (read_bytes var sz (memory s))"
  have "unwind_protect_mem var sz s = s\<lparr>unwind_protect_list := ?e # unwind_protect_list s\<rparr>"
    by (simp add: frame_defs Let_def)
  moreover have "unwind_protect_list s = es @ unwind_protect_list s0" by (subst es(1)) simp
  ultimately have "unwind_protect_mem var sz s =
      s0\<lparr>unwind_protect_list := (?e # es) @ unwind_protect_list s0, memory := memory (unwind_protect_mem var sz s)\<rparr>"
    by (subst es(1)) (simp add: frame_defs Let_def)
  moreover have "undo (?e # es) (memory (unwind_protect_mem var sz s)) = memory s0"
    using es(3) by (simp add: frame_defs write_read Let_def)
  moreover have "list_all (\<lambda>e. \<exists>v bs. e = Saved v bs) (?e # es)" using es(2) by simp
  ultimately show ?case by blast
next
  case (assign s0 s x c)
  then obtain es where es: "s = s0\<lparr>unwind_protect_list := es @ unwind_protect_list s0, memory := memory s\<rparr>"
    "list_all (\<lambda>e. \<exists>v bs. e = Saved v bs) es" "undo es (memory s) = memory s0" by blast
  have "unwind_protect_list s = es @ unwind_protect_list s0" by (subst es(1)) simp
  with assign.hyps(2) have "\<exists>e \<in> set es. covers e x" by (simp add: protected_def)
  then have "undo es ((memory s)(x := c)) = memory s0" using es(3) by (simp add: undo_covered)
  moreover have "s\<lparr>memory := (memory s)(x := c)\<rparr> =
      s0\<lparr>unwind_protect_list := es @ unwind_protect_list s0, memory := (memory s)(x := c)\<rparr>"
    by (subst es(1)) simp
  ultimately show ?case using es(2) by (intro exI [of _ es]) (simp del: fun_upd_apply)
next
  case (frame s0 s tag s1)
  from frame.IH(2) obtain es1 where e1: "s1 = (begin_unwind_frame tag s)
      \<lparr>unwind_protect_list := es1 @ unwind_protect_list (begin_unwind_frame tag s), memory := memory s1\<rparr>"
    "list_all (\<lambda>e. \<exists>v bs. e = Saved v bs) es1" "undo es1 (memory s1) = memory (begin_unwind_frame tag s)" by blast
  have l: "unwind_protect_list s1 = es1 @ Tag tag # unwind_protect_list s"
    by (subst e1(1)) (simp add: frame_defs Let_def)
  have "run_unwind_frame tag s1 = s1\<lparr>unwind_protect_list := unwind_protect_list s, memory := memory s\<rparr>"
    using run_frame_saved [OF l e1(2)] e1(3) by (simp add: frame_defs Let_def)
  also have "\<dots> = s" by (subst e1(1)) (simp add: frame_defs Let_def)
  finally show ?case using frame.IH(1) by simp
qed

subsection \<open>Properties\<close>

text \<open>
  C36. A frame is a transaction on memory: if code between \<open>begin_unwind_frame\<close> and
  \<open>run_unwind_frame\<close> protects variables, changes only memory it has protected, and runs complete
  frames of its own, however nested, then running the frame gives back the state before it began:
  memory, the stack of protections, the interrupt flag, and no warning.
\<close>

theorem unwind_frame_restores:
  assumes "scoped (begin_unwind_frame tag s) s'"
  shows "run_unwind_frame tag s' = s"
proof -
  have "scoped s s" by (rule scoped.start)
  from scoped.frame [OF this assms] have "scoped s (run_unwind_frame tag s')" .
  from scoped_invariant [OF assms] obtain es where es: "s' = (begin_unwind_frame tag s)
      \<lparr>unwind_protect_list := es @ unwind_protect_list (begin_unwind_frame tag s), memory := memory s'\<rparr>"
    "list_all (\<lambda>e. \<exists>v bs. e = Saved v bs) es" "undo es (memory s') = memory (begin_unwind_frame tag s)" by blast
  have l: "unwind_protect_list s' = es @ Tag tag # unwind_protect_list s"
    by (subst es(1)) (simp add: frame_defs Let_def)
  have "run_unwind_frame tag s' = s'\<lparr>unwind_protect_list := unwind_protect_list s, memory := memory s\<rparr>"
    using run_frame_saved [OF l es(2)] es(3) by (simp add: frame_defs Let_def)
  also have "\<dots> = s" by (subst es(1)) (simp add: frame_defs Let_def)
  finally show ?thesis .
qed

theorem unwind_frame_restores_witness:
  "let s = \<lparr>unwind_protect_list = [], memory = (\<lambda>x. CHR ''a''), world = (), interrupt_immediately = 1, warnings = []\<rparr>;
       s' = unwind_protect_mem 4 2 (begin_unwind_frame ''f'' s)
   in run_unwind_frame ''f'' (s'\<lparr>memory := (memory s')(5 := CHR ''b'')\<rparr>) = s"
proof -
  let ?s = "\<lparr>unwind_protect_list = [], memory = (\<lambda>x. CHR ''a''), world = (), interrupt_immediately = 1, warnings = []\<rparr>"
  let ?b = "begin_unwind_frame ''f'' ?s"
  let ?s' = "unwind_protect_mem 4 2 ?b"
  have sc: "scoped ?b ?s'" by (rule scoped.protect) (rule scoped.start)
  have pr: "protected ?b ?s' 5" by (simp add: protected_def frame_defs read_bytes_def Let_def)
  from unwind_frame_restores [OF scoped.assign [OF sc pr, of "CHR ''b''"]] show ?thesis by (simp add: Let_def)
qed

end
