(* ===== verification/History.thy ===== *)
theory History
  imports Numconv
begin

text \<open>
  The history list (\<^verbatim>\<open>lib/readline/history.c\<close>): a block of \<^verbatim>\<open>history_size\<close> pointers whose first
  \<^verbatim>\<open>history_length\<close> entries are in use, followed by a null pointer. A slot of the block is undefined
  until it is first written. An operation that reads or writes outside the block, or uses an
  undefined pointer, has the value \<open>None\<close>. The text of the current time, which \<^verbatim>\<open>hist_inittime\<close> gets
  from the system, is an argument.
\<close>

record hist_entry =
  line :: "string option"
  timestamp :: "string option"
  hdata :: nat

datatype hslot = HUndef | HNull | HEntry hist_entry

record history =
  the_history :: "hslot list"
  history_stifled :: bool
  history_size :: int
  history_max_entries :: int
  history_offset :: int
  history_length :: int
  history_base :: int

record history_state =
  hs_entries :: "hslot list"
  hs_offset :: int
  hs_length :: int
  hs_size :: int
  hs_flags :: int

definition DEFAULT_HISTORY_GROW_SIZE :: int where [cdefs]: "DEFAULT_HISTORY_GROW_SIZE = 50"

definition HS_STIFLED :: int where [cdefs]: "HS_STIFLED = 0x01"

text \<open>The initial values of the variables; a null \<^verbatim>\<open>the_history\<close> is the empty block.\<close>

definition history_init :: history where
  "history_init = \<lparr>the_history = [], history_stifled = False, history_size = 0, history_max_entries = 0,
     history_offset = 0, history_length = 0, history_base = 1\<rparr>"

definition read_slot :: "hslot list \<Rightarrow> int \<Rightarrow> hslot option" where
  "read_slot b i =
     (if 0 \<le> i \<and> nat i < length b \<and> b ! nat i \<noteq> HUndef then Some (b ! nat i) else None)"

definition write_slot :: "hslot list \<Rightarrow> int \<Rightarrow> hslot \<Rightarrow> hslot list option" where
  "write_slot b i x = (if 0 \<le> i \<and> nat i < length b then Some (b[nat i := x]) else None)"

definition history_get_history_state :: "history \<Rightarrow> history_state" where
  "history_get_history_state h =
     \<lparr>hs_entries = the_history h, hs_offset = history_offset h, hs_length = history_length h,
      hs_size = history_size h, hs_flags = (if history_stifled h then HS_STIFLED else 0)\<rparr>"

definition history_set_history_state :: "history_state \<Rightarrow> history \<Rightarrow> history" where
  "history_set_history_state st h =
     h\<lparr>the_history := hs_entries st, history_offset := hs_offset st, history_length := hs_length st,
       history_size := hs_size st,
       history_stifled := (if hs_flags st AND HS_STIFLED \<noteq> 0 then True else history_stifled h)\<rparr>"

definition using_history :: "history \<Rightarrow> history" where
  "using_history h = h\<lparr>history_offset := history_length h\<rparr>"

definition where_history :: "history \<Rightarrow> int" where
  "where_history h = history_offset h"

definition history_set_pos :: "int \<Rightarrow> history \<Rightarrow> history \<times> int" where
  "history_set_pos pos h =
     (if pos > history_length h \<or> pos < 0 \<or> the_history h = [] then (h, 0)
      else (h\<lparr>history_offset := pos\<rparr>, 1))"

definition current_history :: "history \<Rightarrow> hslot option" where
  "current_history h =
     (if history_offset h = history_length h \<or> the_history h = [] then Some HNull
      else read_slot (the_history h) (history_offset h))"

definition previous_history :: "history \<Rightarrow> (history \<times> hslot) option" where
  "previous_history h =
     (if history_offset h \<noteq> 0 then
        map_option (\<lambda>e. (h\<lparr>history_offset := history_offset h - 1\<rparr>, e))
          (read_slot (the_history h) (history_offset h - 1))
      else Some (h, HNull))"

definition next_history :: "history \<Rightarrow> (history \<times> hslot) option" where
  "next_history h =
     (if history_offset h = history_length h then Some (h, HNull)
      else map_option (\<lambda>e. (h\<lparr>history_offset := history_offset h + 1\<rparr>, e))
          (read_slot (the_history h) (history_offset h + 1)))"

definition history_get :: "int \<Rightarrow> history \<Rightarrow> hslot option" where
  "history_get offset h =
     (let local_index = offset - history_base h
      in if local_index \<ge> history_length h \<or> local_index < 0 \<or> the_history h = [] then Some HNull
         else read_slot (the_history h) local_index)"

definition alloc_history_entry :: "string option \<Rightarrow> string option \<Rightarrow> hist_entry" where
  "alloc_history_entry string ts = \<lparr>line = string, timestamp = ts, hdata = 0\<rparr>"

definition history_get_time :: "char \<Rightarrow> hist_entry option \<Rightarrow> int" where
  "history_get_time history_comment_char hist =
     (case hist of
        None \<Rightarrow> 0
      | Some h \<Rightarrow>
          (case timestamp h of
             None \<Rightarrow> 0
           | Some ts \<Rightarrow> if char_at ts 0 \<noteq> history_comment_char then 0 else fst (strtol (drop 1 ts) 10)))"

definition hist_inittime :: "char \<Rightarrow> 64 word \<Rightarrow> string" where
  "hist_inittime history_comment_char t = history_comment_char # uitos t"

fun shift_slots :: "nat \<Rightarrow> nat \<Rightarrow> hslot list \<Rightarrow> hslot list option" where
  "shift_slots 0 i b = Some b"
| "shift_slots (Suc k) i b = (if Suc i < length b then shift_slots k (Suc i) (b[i := b ! Suc i]) else None)"

definition store_new :: "string option \<Rightarrow> string \<Rightarrow> history \<Rightarrow> history option" where
  "store_new string ts h =
     (case write_slot (the_history h) (history_length h) HNull of
        None \<Rightarrow> None
      | Some b \<Rightarrow>
          map_option (\<lambda>b. h\<lparr>the_history := b\<rparr>)
            (write_slot b (history_length h - 1) (HEntry (alloc_history_entry string (Some ts)))))"

definition add_history :: "string option \<Rightarrow> string \<Rightarrow> history \<Rightarrow> history option" where
  "add_history string ts h =
     (if history_stifled h \<and> history_length h = history_max_entries h then
        (if history_length h = 0 then Some h
         else
           (case read_slot (the_history h) 0 of
              None \<Rightarrow> None
            | Some _ \<Rightarrow>
                (case shift_slots (nat (history_length h)) 0 (the_history h) of
                   None \<Rightarrow> None
                 | Some b \<Rightarrow> store_new string ts (h\<lparr>the_history := b, history_base := history_base h + 1\<rparr>))))
      else if history_size h = 0 then
        store_new string ts
          (h\<lparr>history_size := DEFAULT_HISTORY_GROW_SIZE,
             the_history := replicate (nat DEFAULT_HISTORY_GROW_SIZE) HUndef, history_length := 1\<rparr>)
      else if history_length h = history_size h - 1 then
        store_new string ts
          (h\<lparr>history_size := history_size h + DEFAULT_HISTORY_GROW_SIZE,
             the_history := the_history h @ replicate (nat DEFAULT_HISTORY_GROW_SIZE) HUndef,
             history_length := history_length h + 1\<rparr>)
      else store_new string ts (h\<lparr>history_length := history_length h + 1\<rparr>))"

definition add_history_time :: "string option \<Rightarrow> history \<Rightarrow> history option" where
  "add_history_time string h =
     (if string = None \<or> history_length h < 1 then Some h
      else
        (case read_slot (the_history h) (history_length h - 1) of
           Some (HEntry hs) \<Rightarrow>
             map_option (\<lambda>b. h\<lparr>the_history := b\<rparr>)
               (write_slot (the_history h) (history_length h - 1) (HEntry (hs\<lparr>timestamp := string\<rparr>)))
         | _ \<Rightarrow> None))"

definition copy_history_entry :: "hist_entry option \<Rightarrow> hist_entry option" where
  "copy_history_entry hist =
     map_option (\<lambda>h. (alloc_history_entry (line h) None)\<lparr>timestamp := timestamp h, hdata := hdata h\<rparr>) hist"

text \<open>A null timestamp of the old entry is copied with \<^verbatim>\<open>savestring\<close>, which dereferences it.\<close>

definition replace_history_entry :: "int \<Rightarrow> string \<Rightarrow> nat \<Rightarrow> history \<Rightarrow> (history \<times> hist_entry option) option" where
  "replace_history_entry which ln d h =
     (if which < 0 \<or> which \<ge> history_length h then Some (h, None)
      else
        (case read_slot (the_history h) which of
           Some (HEntry old) \<Rightarrow>
             (case timestamp old of
                None \<Rightarrow> None
              | Some ts \<Rightarrow>
                  map_option (\<lambda>b. (h\<lparr>the_history := b\<rparr>, Some old))
                    (write_slot (the_history h) which (HEntry \<lparr>line = Some ln, timestamp = Some ts, hdata = d\<rparr>)))
         | _ \<Rightarrow> None))"

definition set_data :: "nat \<Rightarrow> nat \<Rightarrow> hslot \<Rightarrow> hslot" where
  "set_data old new e = (case e of HEntry x \<Rightarrow> if hdata x = old then HEntry (x\<lparr>hdata := new\<rparr>) else e | _ \<Rightarrow> e)"

definition has_data :: "nat \<Rightarrow> hslot \<Rightarrow> bool" where
  "has_data old e = (case e of HEntry x \<Rightarrow> hdata x = old | _ \<Rightarrow> False)"

definition replace_history_data :: "int \<Rightarrow> nat \<Rightarrow> nat \<Rightarrow> history \<Rightarrow> history" where
  "replace_history_data which old new h =
     (if which < -2 \<or> which \<ge> history_length h \<or> history_length h = 0 \<or> the_history h = [] then h
      else
        let b = the_history h; n = nat (history_length h)
        in if which \<ge> 0 then h\<lparr>the_history := b[nat which := set_data old new (b ! nat which)]\<rparr>
           else if which = -1 then h\<lparr>the_history := map (set_data old new) (take n b) @ drop n b\<rparr>
           else
             (case filter (\<lambda>i. has_data old (b ! i)) [0..<n] of
                [] \<Rightarrow> h
              | is \<Rightarrow> h\<lparr>the_history := b[last is := set_data old new (b ! last is)]\<rparr>))"

definition remove_history :: "int \<Rightarrow> history \<Rightarrow> (history \<times> hslot) option" where
  "remove_history which h =
     (if which < 0 \<or> which \<ge> history_length h \<or> history_length h = 0 \<or> the_history h = [] then Some (h, HNull)
      else
        (case read_slot (the_history h) which of
           None \<Rightarrow> None
         | Some e \<Rightarrow>
             map_option (\<lambda>b. (h\<lparr>the_history := b, history_length := history_length h - 1\<rparr>, e))
               (shift_slots (nat (history_length h - which)) (nat which) (the_history h))))"

fun copy_down :: "nat \<Rightarrow> nat \<Rightarrow> nat \<Rightarrow> hslot list \<Rightarrow> hslot list option" where
  "copy_down 0 i j b = Some b"
| "copy_down (Suc k) i j b = (if i < length b \<and> j < length b then copy_down k (Suc i) (Suc j) (b[j := b ! i]) else None)"

definition stifle_history :: "int \<Rightarrow> history \<Rightarrow> history option" where
  "stifle_history mx h =
     (let mx = (if mx < 0 then 0 else mx) in
      map_option (\<lambda>h. h\<lparr>history_stifled := True, history_max_entries := mx\<rparr>)
        (if history_length h > mx then
           (if list_all (\<lambda>i. read_slot (the_history h) (int i) \<noteq> None) [0..<nat (history_length h - mx)] then
              (case copy_down (nat mx) (nat (history_length h - mx)) 0 (the_history h) of
                 None \<Rightarrow> None
               | Some b \<Rightarrow>
                   map_option (\<lambda>b. h\<lparr>the_history := b, history_base := history_length h - mx, history_length := mx\<rparr>)
                     (write_slot b mx HNull))
            else None)
         else Some h))"

definition unstifle_history :: "history \<Rightarrow> history \<times> int" where
  "unstifle_history h =
     (if history_stifled h then (h\<lparr>history_stifled := False\<rparr>, history_max_entries h)
      else (h, - history_max_entries h))"

definition history_is_stifled :: "history \<Rightarrow> bool" where
  "history_is_stifled h = history_stifled h"

definition clear_history :: "history \<Rightarrow> history option" where
  "clear_history h =
     (if list_all (\<lambda>i. read_slot (the_history h) (int i) \<noteq> None) [0..<nat (history_length h)] then
        Some (h\<lparr>the_history := replicate (nat (history_length h)) HNull @ drop (nat (history_length h)) (the_history h),
                history_offset := 0, history_length := 0\<rparr>)
      else None)"

subsection \<open>Representation\<close>

text \<open>The block holds the entries \<open>es\<close>, then a null pointer, then slots not in use.\<close>

definition hist_rep :: "history \<Rightarrow> hist_entry list \<Rightarrow> bool" where
  "hist_rep h es \<longleftrightarrow>
     history_length h = int (length es) \<and> history_size h = int (length (the_history h)) \<and>
     ((the_history h = [] \<and> es = []) \<or> (\<exists>rest. the_history h = map HEntry es @ HNull # rest)) \<and>
     (history_stifled h \<longrightarrow> int (length es) \<le> history_max_entries h)"

lemma shift_slots_eq:
  "i + k < length b \<Longrightarrow> shift_slots k i b = Some (take i b @ take k (drop (Suc i) b) @ drop (i + k) b)"
proof (induction k arbitrary: i b)
  case (Suc k)
  let ?b = "b[i := b ! Suc i]"
  have "shift_slots k (Suc i) ?b = Some (take (Suc i) ?b @ take k (drop (Suc (Suc i)) ?b) @ drop (Suc i + k) ?b)"
    using Suc.prems by (intro Suc.IH) simp
  moreover have "take (Suc i) ?b = take i b @ [b ! Suc i]" using Suc.prems by (simp add: take_Suc_conv_app_nth)
  moreover have "drop (Suc i) b = b ! Suc i # drop (Suc (Suc i)) b" using Suc.prems by (simp add: Cons_nth_drop_Suc)
  ultimately show ?case using Suc.prems by simp
qed simp

lemma copy_down_eq:
  "j \<le> i \<Longrightarrow> i + k \<le> length b \<Longrightarrow> copy_down k i j b = Some (take j b @ take k (drop i b) @ drop (j + k) b)"
proof (induction k arbitrary: i j b)
  case (Suc k)
  let ?b = "b[j := b ! i]"
  have "copy_down k (Suc i) (Suc j) ?b = Some (take (Suc j) ?b @ take k (drop (Suc i) ?b) @ drop (Suc j + k) ?b)"
    using Suc.prems by (intro Suc.IH) simp_all
  moreover have "take (Suc j) ?b = take j b @ [b ! i]" using Suc.prems by (simp add: take_Suc_conv_app_nth)
  moreover have "drop i b = b ! i # drop (Suc i) b" using Suc.prems by (simp add: Cons_nth_drop_Suc)
  ultimately show ?case using Suc.prems by simp
qed simp

lemma read_entry:
  "b = map HEntry es @ rest \<Longrightarrow> i < length es \<Longrightarrow> read_slot b (int i) = Some (HEntry (es ! i))"
  by (simp add: read_slot_def nth_append)

lemma store_new_rep:
  assumes "the_history h = map HEntry es @ x # y # rest" and "history_length h = int (length es) + 1"
    and "history_size h = int (length (the_history h))"
    and "history_stifled h \<longrightarrow> int (length es) + 1 \<le> history_max_entries h"
  shows "\<exists>h'. store_new s ts h = Some h' \<and> hist_rep h' (es @ [alloc_history_entry s (Some ts)]) \<and>
    history_stifled h' = history_stifled h \<and> history_max_entries h' = history_max_entries h"
proof -
  let ?n = "length es" and ?e = "alloc_history_entry s (Some ts)"
  have n: "nat (int ?n + 1) = Suc ?n" by simp
  have u: "(map HEntry es @ x # y # rest)[Suc ?n := HNull] = map HEntry es @ x # HNull # rest"
    "(map HEntry es @ x # HNull # rest)[?n := HEntry ?e] = map HEntry (es @ [?e]) @ HNull # rest"
    by (simp_all add: list_update_append)
  have "store_new s ts h = Some (h\<lparr>the_history := map HEntry (es @ [?e]) @ HNull # rest\<rparr>)"
    using assms(1,2) u by (simp add: store_new_def write_slot_def n)
  with assms show ?thesis by (auto simp: hist_rep_def)
qed

lemma add_history_rep:
  assumes "hist_rep h es"
  shows "\<exists>h'. add_history s ts h = Some h' \<and>
    hist_rep h' (if history_stifled h \<and> int (length es) = history_max_entries h
                 then (if es = [] then [] else tl es @ [alloc_history_entry s (Some ts)])
                 else es @ [alloc_history_entry s (Some ts)]) \<and>
    history_stifled h' = history_stifled h \<and> history_max_entries h' = history_max_entries h"
proof (cases "history_stifled h \<and> int (length es) = history_max_entries h")
  case True
  show ?thesis
  proof (cases es)
    case Nil
    with True assms show ?thesis by (auto simp: add_history_def hist_rep_def)
  next
    case (Cons e es')
    with assms obtain rest where b: "the_history h = map HEntry es @ HNull # rest" by (auto simp: hist_rep_def)
    let ?h = "h\<lparr>the_history := map HEntry es' @ HNull # HNull # rest, history_base := history_base h + 1\<rparr>"
    have "shift_slots (length es) 0 (the_history h) = Some (map HEntry es' @ HNull # HNull # rest)"
      using shift_slots_eq [of 0 "length es" "the_history h"] by (simp add: b Cons)
    moreover have "read_slot (the_history h) 0 \<noteq> None" using read_entry [OF b, of 0] Cons by simp
    moreover have "history_length h = int (length es)" "nat (history_length h) = length es"
      using assms by (simp_all add: hist_rep_def)
    ultimately have "add_history s ts h = store_new s ts ?h"
      unfolding add_history_def using True Cons by (auto simp del: shift_slots.simps)
    with store_new_rep [of ?h es' HNull HNull rest s ts] assms True Cons b show ?thesis
      by (auto simp: hist_rep_def)
  qed
next
  case False
  show ?thesis
  proof (cases "the_history h = []")
    case True
    let ?h = "h\<lparr>history_size := DEFAULT_HISTORY_GROW_SIZE, the_history := replicate 50 HUndef, history_length := 1\<rparr>"
    have r: "replicate 50 HUndef = map HEntry [] @ HUndef # HUndef # replicate 48 HUndef"
      by (simp add: numeral_eq_Suc)
    have eq: "add_history s ts h = store_new s ts ?h"
      using True False assms by (auto simp: add_history_def hist_rep_def cdefs)
    from store_new_rep [of ?h "[]" HUndef HUndef "replicate 48 HUndef" s ts] True False assms r
    obtain h' where "store_new s ts ?h = Some h'" "hist_rep h' [alloc_history_entry s (Some ts)]"
      "history_stifled h' = history_stifled ?h" "history_max_entries h' = history_max_entries ?h" by (auto simp: hist_rep_def cdefs)
    with eq True False assms show ?thesis
      by (auto simp: hist_rep_def)
  next
    case nonempty: False
    with assms obtain rest where b: "the_history h = map HEntry es @ HNull # rest" by (auto simp: hist_rep_def)
    have l: "history_length h = int (length es)" "history_size h = int (length es) + 1 + int (length rest)"
      using assms b by (simp_all add: hist_rep_def)
    have sz: "history_size h \<noteq> 0" using l by simp
    have nf: "\<not> (history_stifled h \<and> history_length h = history_max_entries h)" using False l by simp
    show ?thesis
    proof (cases rest)
      case Nil
      let ?h = "h\<lparr>history_size := history_size h + DEFAULT_HISTORY_GROW_SIZE,
        the_history := the_history h @ replicate 50 HUndef, history_length := history_length h + 1\<rparr>"
      have r: "replicate 50 HUndef = HUndef # replicate 49 HUndef" by (simp add: numeral_eq_Suc)
      have "add_history s ts h = store_new s ts ?h"
        unfolding add_history_def if_not_P [OF nf] if_not_P [OF sz] using l Nil by (simp add: cdefs)
      moreover have "the_history ?h = map HEntry es @ HNull # HUndef # replicate 49 HUndef"
        using b Nil by (simp add: r)
      moreover from this have "\<exists>h'. store_new s ts ?h = Some h' \<and> hist_rep h' (es @ [alloc_history_entry s (Some ts)]) \<and>
          history_stifled h' = history_stifled ?h \<and> history_max_entries h' = history_max_entries ?h"
        by (rule store_new_rep) (use assms False l Nil b in \<open>auto simp: hist_rep_def cdefs\<close>)
      ultimately show ?thesis using False by auto
    next
      case (Cons y ys)
      let ?h = "h\<lparr>history_length := history_length h + 1\<rparr>"
      have "add_history s ts h = store_new s ts ?h"
        unfolding add_history_def if_not_P [OF nf] if_not_P [OF sz] using l Cons by simp
      moreover have "\<exists>h'. store_new s ts ?h = Some h' \<and> hist_rep h' (es @ [alloc_history_entry s (Some ts)]) \<and>
          history_stifled h' = history_stifled ?h \<and> history_max_entries h' = history_max_entries ?h"
        by (rule store_new_rep [of ?h es HNull y ys]) (use assms False l Cons b in \<open>auto simp: hist_rep_def\<close>)
      ultimately show ?thesis using False by auto
    qed
  qed
qed

lemma remove_history_rep:
  assumes "hist_rep h es" and "0 \<le> which" and "nat which < length es"
  shows "\<exists>h'. remove_history which h = Some (h', HEntry (es ! nat which)) \<and>
    hist_rep h' (take (nat which) es @ drop (Suc (nat which)) es) \<and> history_offset h' = history_offset h"
proof -
  from assms obtain rest where b: "the_history h = map HEntry es @ HNull # rest" by (auto simp: hist_rep_def)
  let ?w = "nat which" and ?n = "length es"
  have l: "history_length h = int ?n" "nat (int ?n - which) = ?n - ?w"
    using assms by (simp_all add: hist_rep_def nat_diff_distrib')
  have lw: "\<not> (which < 0 \<or> which \<ge> int ?n \<or> int ?n = 0 \<or> the_history h = [])" using assms b by auto
  have rd: "read_slot (the_history h) which = Some (HEntry (es ! ?w))"
    using read_entry [OF b, of ?w] assms by simp
  have "shift_slots (?n - ?w) ?w (the_history h) =
      Some (map HEntry (take ?w es @ drop (Suc ?w) es) @ HNull # HNull # rest)"
  proof -
    have "take ?w (the_history h) = map HEntry (take ?w es)" "drop (?w + (?n - ?w)) (the_history h) = HNull # rest"
      using assms(3) by (simp_all add: b take_map)
    moreover have "drop (Suc ?w) (the_history h) = map HEntry (drop (Suc ?w) es) @ HNull # rest"
      using assms(3) by (simp add: b drop_map)
    then have "take (?n - ?w) (drop (Suc ?w) (the_history h)) = map HEntry (drop (Suc ?w) es) @ [HNull]"
      using assms(3) by (simp add: Suc_diff_Suc [symmetric])
    moreover have "?w + (?n - ?w) < length (the_history h)" using assms(3) by (simp add: b)
    ultimately show ?thesis using shift_slots_eq by simp
  qed
  then have "remove_history which h =
      Some (h\<lparr>the_history := map HEntry (take ?w es @ drop (Suc ?w) es) @ HNull # HNull # rest,
              history_length := int ?n - 1\<rparr>, HEntry (es ! ?w))"
    unfolding remove_history_def l rd using lw by simp
  moreover have "hist_rep (h\<lparr>the_history := map HEntry (take ?w es @ drop (Suc ?w) es) @ HNull # HNull # rest,
      history_length := int ?n - 1\<rparr>) (take ?w es @ drop (Suc ?w) es)"
  proof -
    have "history_size h = int (length (map HEntry es @ HNull # rest))" using assms(1) b by (simp add: hist_rep_def)
    moreover have len: "length (take ?w es @ drop (Suc ?w) es) = ?n - 1" using assms(3) by simp
    moreover have "history_stifled h \<longrightarrow> int (length es) \<le> history_max_entries h" using assms(1) by (simp add: hist_rep_def)
    ultimately show ?thesis using assms(3) unfolding hist_rep_def by (simp del: map_append) fastforce
  qed
  ultimately show ?thesis by simp
qed

lemma stifle_history_rep:
  assumes "hist_rep h es" and "0 \<le> mx"
  shows "\<exists>h'. stifle_history mx h = Some h' \<and> hist_rep h' (drop (length es - nat mx) es) \<and>
    history_stifled h' \<and> history_max_entries h' = mx \<and> history_offset h' = history_offset h \<and>
    history_base h' = (if int (length es) > mx then int (length es) - mx else history_base h)"
proof (cases "int (length es) > mx")
  case False
  with assms show ?thesis by (auto simp: stifle_history_def hist_rep_def Let_def)
next
  case True
  with assms obtain rest where b: "the_history h = map HEntry es @ HNull # rest" by (auto simp: hist_rep_def)
  let ?n = "length es" and ?m = "nat mx"
  have l: "history_length h = int ?n" "nat (int ?n - mx) = ?n - ?m"
    using assms by (simp_all add: hist_rep_def nat_diff_distrib')
  have "list_all (\<lambda>i. read_slot (the_history h) (int i) \<noteq> None) [0..<?n - ?m]"
    using read_entry [OF b] by (auto simp: list_all_iff)
  moreover have "copy_down ?m (?n - ?m) 0 (the_history h) =
      Some (map HEntry (drop (?n - ?m) es) @ drop ?m (the_history h))"
    using copy_down_eq [of 0 "?n - ?m" ?m "the_history h"] True assms(2) by (simp add: b drop_map)
  moreover obtain x r where d: "drop ?m (the_history h) = x # r"
    using True by (cases "drop ?m (the_history h)") (auto simp: b)
  moreover have lm: "length (drop (?n - ?m) es) = ?m" using True by simp
  then have "write_slot (map HEntry (drop (?n - ?m) es) @ x # r) mx HNull = Some (map HEntry (drop (?n - ?m) es) @ HNull # r)"
    using assms(2) by (simp add: write_slot_def list_update_append)
  ultimately have eq: "stifle_history mx h = Some (h\<lparr>the_history := map HEntry (drop (?n - ?m) es) @ HNull # r,
      history_base := int ?n - mx, history_length := mx, history_stifled := True, history_max_entries := mx\<rparr>)"
    using True assms(2) l by (simp add: stifle_history_def Let_def)
  have "history_size h = int (length (map HEntry (drop (?n - ?m) es) @ HNull # r))"
  proof -
    have "length (the_history h) = ?m + length (x # r)" using d True by (metis (no_types) append_take_drop_id b length_append length_take length_map add.commute min.absorb2 nat_int nat_le_iff less_imp_le trans_le_add1)
    with lm assms(1) show ?thesis by (simp add: hist_rep_def)
  qed
  with eq lm assms(2) True show ?thesis by (auto simp: hist_rep_def)
qed

lemma clear_history_rep:
  assumes "hist_rep h es"
  shows "\<exists>h'. clear_history h = Some h' \<and> hist_rep h' [] \<and> history_offset h' = 0"
proof (cases "the_history h = []")
  case True
  with assms show ?thesis by (auto simp: clear_history_def hist_rep_def)
next
  case False
  with assms obtain rest where b: "the_history h = map HEntry es @ HNull # rest" by (auto simp: hist_rep_def)
  have "list_all (\<lambda>i. read_slot (the_history h) (int i) \<noteq> None) [0..<length es]"
    using read_entry [OF b] by (auto simp: list_all_iff)
  then have "clear_history h = Some (h\<lparr>the_history := replicate (length es) HNull @ HNull # rest,
      history_offset := 0, history_length := 0\<rparr>)"
    using assms by (simp add: clear_history_def hist_rep_def b)
  moreover have "replicate (length es) HNull @ HNull # rest = HNull # replicate (length es) HNull @ rest"
    by (simp add: replicate_app_Cons_same)
  ultimately show ?thesis using assms b by (auto simp: hist_rep_def)
qed

subsection \<open>The abstract list\<close>

text \<open>
  What the operations promise: a list of entries, while the history is stifled a bound on its
  length, and a position in it. Adding to a full list drops the oldest entry. An operation gives
  the entry it returns, if any. Removing entries or stifling does not move the position, which can
  then be behind the end of the list; moving from there (\<^verbatim>\<open>previous_history\<close>, \<^verbatim>\<open>next_history\<close>) is
  outside the contract, and the specification gives no result.
\<close>

datatype hist_op =
    HAdd "string option" string | HAddTime "string option" | HRemove int | HReplace int string nat | HData int nat nat
  | HStifle int | HUnstifle | HClear | HUsing | HSetPos int | HPrevious | HNext

definition slot_of :: "hist_entry option \<Rightarrow> hslot" where
  "slot_of e = (case e of None \<Rightarrow> HNull | Some e \<Rightarrow> HEntry e)"

lemma slot_of_simps [simp]: "slot_of None = HNull" "slot_of (Some e) = HEntry e"
  by (simp_all add: slot_of_def)

fun hist_exec :: "hist_op \<Rightarrow> history \<Rightarrow> (history \<times> hslot) option" where
  "hist_exec (HAdd s ts) h = map_option (\<lambda>h'. (h', HNull)) (add_history s ts h)"
| "hist_exec (HAddTime s) h = map_option (\<lambda>h'. (h', HNull)) (add_history_time s h)"
| "hist_exec (HRemove which) h = remove_history which h"
| "hist_exec (HReplace which ln d) h = map_option (\<lambda>(h', e). (h', slot_of e)) (replace_history_entry which ln d h)"
| "hist_exec (HData which old new) h = Some (replace_history_data which old new h, HNull)"
| "hist_exec (HStifle mx) h = map_option (\<lambda>h'. (h', HNull)) (stifle_history mx h)"
| "hist_exec HUnstifle h = Some (fst (unstifle_history h), HNull)"
| "hist_exec HClear h = map_option (\<lambda>h'. (h', HNull)) (clear_history h)"
| "hist_exec HUsing h = Some (using_history h, HNull)"
| "hist_exec (HSetPos p) h = Some (fst (history_set_pos p h), HNull)"
| "hist_exec HPrevious h = previous_history h"
| "hist_exec HNext h = next_history h"

fun hist_run :: "hist_op list \<Rightarrow> history \<Rightarrow> (history \<times> hslot list) option" where
  "hist_run [] h = Some (h, [])"
| "hist_run (p # ps) h =
     (case hist_exec p h of
        None \<Rightarrow> None
      | Some (h', r) \<Rightarrow> map_option (\<lambda>(h'', rs). (h'', r # rs)) (hist_run ps h'))"

definition keep_last :: "int option \<Rightarrow> 'a list \<Rightarrow> 'a list" where
  "keep_last lim xs = (case lim of None \<Rightarrow> xs | Some m \<Rightarrow> drop (length xs - nat m) xs)"

fun retarget_first :: "nat \<Rightarrow> nat \<Rightarrow> hist_entry list \<Rightarrow> hist_entry list" where
  "retarget_first old new [] = []"
| "retarget_first old new (e # es) = (if hdata e = old then e\<lparr>hdata := new\<rparr> # es else e # retarget_first old new es)"

definition retarget :: "nat \<Rightarrow> nat \<Rightarrow> hist_entry \<Rightarrow> hist_entry" where
  "retarget old new e = (if hdata e = old then e\<lparr>hdata := new\<rparr> else e)"

type_synonym hist_list = "hist_entry list \<times> int option \<times> nat"

fun hist_spec :: "hist_op \<Rightarrow> hist_list \<Rightarrow> (hist_list \<times> hist_entry option) option" where
  "hist_spec (HAdd s ts) (es, lim, pos) =
     Some ((keep_last lim (es @ [\<lparr>line = s, timestamp = Some ts, hdata = 0\<rparr>]), lim, pos), None)"
| "hist_spec (HAddTime s) (es, lim, pos) =
     Some ((if s = None \<or> es = [] then es else butlast es @ [last es\<lparr>timestamp := s\<rparr>], lim, pos), None)"
| "hist_spec (HRemove which) (es, lim, pos) =
     Some (if 0 \<le> which \<and> nat which < length es
           then ((take (nat which) es @ drop (Suc (nat which)) es, lim, pos), Some (es ! nat which))
           else ((es, lim, pos), None))"
| "hist_spec (HReplace which ln d) (es, lim, pos) =
     Some (if 0 \<le> which \<and> nat which < length es
           then ((es[nat which := (es ! nat which)\<lparr>line := Some ln, hdata := d\<rparr>], lim, pos), Some (es ! nat which))
           else ((es, lim, pos), None))"
| "hist_spec (HData which old new) (es, lim, pos) =
     Some ((if 0 \<le> which \<and> nat which < length es then es[nat which := retarget old new (es ! nat which)]
            else if which = - 1 then map (retarget old new) es
            else if which = - 2 then rev (retarget_first old new (rev es))
            else es, lim, pos), None)"
| "hist_spec (HStifle mx) (es, lim, pos) = Some ((keep_last (Some (max 0 mx)) es, Some (max 0 mx), pos), None)"
| "hist_spec HUnstifle (es, lim, pos) = Some ((es, None, pos), None)"
| "hist_spec HClear (es, lim, pos) = Some (([], lim, 0), None)"
| "hist_spec HUsing (es, lim, pos) = Some ((es, lim, length es), None)"
| "hist_spec (HSetPos p) (es, lim, pos) = Some ((es, lim, if 0 \<le> p \<and> nat p \<le> length es then nat p else pos), None)"
| "hist_spec HPrevious (es, lim, pos) =
     (if length es < pos then None
      else Some (if pos = 0 then ((es, lim, 0), None) else ((es, lim, pos - 1), Some (es ! (pos - 1)))))"
| "hist_spec HNext (es, lim, pos) =
     (if length es < pos then None
      else Some (if pos = length es then ((es, lim, pos), None)
                 else ((es, lim, Suc pos), if Suc pos < length es then Some (es ! Suc pos) else None)))"

fun hist_plan :: "hist_op list \<Rightarrow> hist_list \<Rightarrow> (hist_list \<times> hist_entry option list) option" where
  "hist_plan [] a = Some (a, [])"
| "hist_plan (p # ps) a =
     (case hist_spec p a of
        None \<Rightarrow> None
      | Some (a', r) \<Rightarrow> map_option (\<lambda>(a'', rs). (a'', r # rs)) (hist_plan ps a'))"

text \<open>
  The representation: the entries, the bound while stifled and the position, which is zero before
  the first entry was ever added. Every entry has a time stamp, which \<open>replace_history_entry\<close> needs.
\<close>

definition represents :: "history \<Rightarrow> hist_list \<Rightarrow> bool" where
  "represents h a \<longleftrightarrow>
     (case a of (es, lim, pos) \<Rightarrow>
        hist_rep h es \<and> lim = (if history_stifled h then Some (history_max_entries h) else None) \<and>
        history_offset h = int pos \<and> (the_history h = [] \<longrightarrow> pos = 0) \<and> (\<forall>e \<in> set es. timestamp e \<noteq> None))"

lemma represents_init: "represents history_init ([], None, 0)"
  by (simp add: represents_def hist_rep_def history_init_def)

lemma stifle_negative: "stifle_history mx h = stifle_history (max 0 mx) h"
  by (simp add: stifle_history_def Let_def max_def)

text \<open>What the operations keep besides the entries.\<close>

lemma write_slot_length: "write_slot b i x = Some b' \<Longrightarrow> length b' = length b"
  by (auto simp: write_slot_def split: if_splits)

lemma shift_slots_length: "shift_slots k i b = Some b' \<Longrightarrow> length b' = length b"
  by (induction k i b rule: shift_slots.induct) (auto split: if_splits)

lemma copy_down_length: "copy_down k i j b = Some b' \<Longrightarrow> length b' = length b"
  by (induction k i j b rule: copy_down.induct) (auto split: if_splits)

lemma store_new_keeps:
  "store_new s ts h = Some h' \<Longrightarrow> history_offset h' = history_offset h \<and> length (the_history h') = length (the_history h)
    \<and> history_base h' = history_base h"
  by (auto simp: store_new_def split: option.splits dest!: write_slot_length)

lemma add_history_keeps:
  assumes "add_history s ts h = Some h'"
  shows "history_offset h' = history_offset h" and "the_history h' = [] \<longrightarrow> the_history h = []"
    and "history_base h' = history_base h +
      (if history_stifled h \<and> history_length h = history_max_entries h \<and> history_length h \<noteq> 0 then 1 else 0)"
  using assms unfolding add_history_def
  by (auto split: if_splits option.splits simp: cdefs dest!: store_new_keeps shift_slots_length)

lemma remove_history_keeps:
  "remove_history w h = Some (h', e) \<Longrightarrow> length (the_history h') = length (the_history h) \<and>
    history_stifled h' = history_stifled h \<and> history_max_entries h' = history_max_entries h"
  by (auto simp: remove_history_def split: if_splits option.splits dest!: shift_slots_length)

lemma stifle_history_keeps: "stifle_history mx h = Some h' \<Longrightarrow> length (the_history h') = length (the_history h)"
  by (auto simp: stifle_history_def Let_def split: if_splits option.splits dest!: copy_down_length write_slot_length)

lemma clear_history_keeps:
  "hist_rep h es \<Longrightarrow> clear_history h = Some h' \<Longrightarrow> history_stifled h' = history_stifled h \<and>
    history_max_entries h' = history_max_entries h"
  by (auto simp: clear_history_def hist_rep_def split: if_splits)

subsection \<open>Refinement\<close>

lemma rep_block:
  assumes "hist_rep h es" and "i < length es"
  obtains rest where "the_history h = map HEntry es @ HNull # rest" and "the_history h \<noteq> []"
  using assms by (auto simp: hist_rep_def)

lemma rep_set:
  assumes "hist_rep h es" and "i < length es"
  shows "hist_rep (h\<lparr>the_history := (the_history h)[i := HEntry x]\<rparr>) (es[i := x])"
    and "read_slot (the_history h) (int i) = Some (HEntry (es ! i))"
    and "write_slot (the_history h) (int i) (HEntry x) = Some ((the_history h)[i := HEntry x])"
proof -
  from rep_block [OF assms] obtain rest where b: "the_history h = map HEntry es @ HNull # rest" by blast
  have u: "(the_history h)[i := HEntry x] = map HEntry (es[i := x]) @ HNull # rest"
    using assms(2) by (simp add: b list_update_append map_update)
  have "history_size h = int (length (map HEntry (es[i := x]) @ HNull # rest))"
    using assms(1) unfolding u [symmetric] by (simp add: hist_rep_def)
  then show "hist_rep (h\<lparr>the_history := (the_history h)[i := HEntry x]\<rparr>) (es[i := x])"
    using assms(1) unfolding u hist_rep_def by simp
  show "read_slot (the_history h) (int i) = Some (HEntry (es ! i))" by (rule read_entry [OF b assms(2)])
  show "write_slot (the_history h) (int i) (HEntry x) = Some ((the_history h)[i := HEntry x])"
    using assms(2) by (simp add: write_slot_def b)
qed

lemma represents_set:
  assumes "represents h (es, lim, pos)" and "i < length es" and "timestamp x \<noteq> None"
  shows "represents (h\<lparr>the_history := (the_history h)[i := HEntry x]\<rparr>) (es[i := x], lim, pos)"
  using assms rep_set(1) [of h es i x] unfolding represents_def
  by (auto dest: set_update_subset_insert [THEN subsetD])

lemma exec_add:
  assumes "represents h (es, lim, pos)"
  shows "\<exists>h'. add_history s ts h = Some h' \<and>
    represents h' (keep_last lim (es @ [\<lparr>line = s, timestamp = Some ts, hdata = 0\<rparr>]), lim, pos)"
proof -
  let ?e = "alloc_history_entry s (Some ts)"
  from assms have rep: "hist_rep h es" and lim: "lim = (if history_stifled h then Some (history_max_entries h) else None)"
    by (simp_all add: represents_def)
  have kl: "keep_last lim (es @ [?e]) =
      (if history_stifled h \<and> int (length es) = history_max_entries h
       then (if es = [] then [] else tl es @ [?e]) else es @ [?e])"
  proof (cases "history_stifled h")
    case True
    then have le: "int (length es) \<le> history_max_entries h" using rep by (simp add: hist_rep_def)
    show ?thesis
    proof (cases "int (length es) = history_max_entries h")
      case full: True
      then have "nat (history_max_entries h) = length es" by (metis nat_int)
      then show ?thesis unfolding keep_last_def lim using True full by (cases es) simp_all
    next
      case False
      with le have "length (es @ [?e]) - nat (history_max_entries h) = 0" by simp
      then show ?thesis unfolding keep_last_def lim using True False by (simp only: if_True option.case drop_0) simp
    qed
  qed (simp add: keep_last_def lim)
  from add_history_rep [OF rep, of s ts, folded kl] obtain h' where h': "add_history s ts h = Some h'"
    "hist_rep h' (keep_last lim (es @ [?e]))" "history_stifled h' = history_stifled h"
    "history_max_entries h' = history_max_entries h" by blast
  note k = add_history_keeps(1,2) [OF h'(1)]
  have "set (keep_last lim (es @ [?e])) \<subseteq> set (es @ [?e])"
    unfolding keep_last_def by (cases lim) (auto dest: in_set_dropD)
  then have "\<forall>e \<in> set (keep_last lim (es @ [?e])). timestamp e \<noteq> None"
    using assms by (fastforce simp: represents_def alloc_history_entry_def)
  then have "represents h' (keep_last lim (es @ [?e]), lim, pos)"
    using h'(2-4) lim k assms unfolding represents_def by auto
  then show ?thesis using h'(1) by (simp add: alloc_history_entry_def)
qed

lemma exec_add_time:
  assumes "represents h (es, lim, pos)"
  shows "\<exists>h'. add_history_time s h = Some h' \<and>
    represents h' (if s = None \<or> es = [] then es else butlast es @ [last es\<lparr>timestamp := s\<rparr>], lim, pos)"
proof (cases "s = None \<or> es = []")
  case True
  with assms show ?thesis by (auto simp: add_history_time_def represents_def hist_rep_def)
next
  case False
  let ?i = "length es - 1" and ?x = "last es\<lparr>timestamp := s\<rparr>"
  have i: "?i < length es" and l: "es ! ?i = last es" using False by (simp_all add: last_conv_nth)
  have rep: "hist_rep h es" using assms by (simp add: represents_def)
  have n: "history_length h - 1 = int ?i" "\<not> history_length h < 1" using rep False by (auto simp: hist_rep_def of_nat_diff Suc_le_eq)
  have u: "butlast es @ [?x] = es[?i := ?x]" using False by (cases es rule: rev_cases) simp_all
  have "add_history_time s h = Some (h\<lparr>the_history := (the_history h)[?i := HEntry ?x]\<rparr>)"
    unfolding add_history_time_def n(1) rep_set(2) [OF rep i] using False n(2) rep_set(3) [OF rep i, of ?x] l by auto
  then show ?thesis using represents_set [OF assms i, of ?x] False u by auto
qed

lemma exec_remove:
  assumes "represents h (es, lim, pos)"
  shows "\<exists>h'. remove_history which h = Some (h', slot_of (if 0 \<le> which \<and> nat which < length es then Some (es ! nat which) else None)) \<and>
    represents h' (if 0 \<le> which \<and> nat which < length es then take (nat which) es @ drop (Suc (nat which)) es else es, lim, pos)"
proof (cases "0 \<le> which \<and> nat which < length es")
  case True
  have rep: "hist_rep h es" using assms by (simp add: represents_def)
  from remove_history_rep [OF rep, of which] True obtain h' where
    r: "remove_history which h = Some (h', HEntry (es ! nat which))"
    "hist_rep h' (take (nat which) es @ drop (Suc (nat which)) es)" "history_offset h' = history_offset h" by blast
  have "\<forall>e \<in> set (take (nat which) es @ drop (Suc (nat which)) es). timestamp e \<noteq> None"
    using assms by (auto simp: represents_def dest: in_set_takeD in_set_dropD)
  then have "represents h' (take (nat which) es @ drop (Suc (nat which)) es, lim, pos)"
    using remove_history_keeps [OF r(1)] r(2,3) assms by (auto simp: represents_def)
  then show ?thesis using r(1) True by simp
next
  case False
  then have "remove_history which h = Some (h, HNull)" using assms by (auto simp: remove_history_def hist_rep_def represents_def)
  with False assms show ?thesis by simp
qed

lemma exec_replace:
  assumes "represents h (es, lim, pos)" and "0 \<le> which" and "nat which < length es"
  shows "\<exists>h'. replace_history_entry which ln d h = Some (h', Some (es ! nat which)) \<and>
    represents h' (es[nat which := (es ! nat which)\<lparr>line := Some ln, hdata := d\<rparr>], lim, pos)"
proof -
  let ?i = "nat which"
  have rep: "hist_rep h es" using assms by (simp add: represents_def)
  have w: "int ?i = which" "\<not> (which < 0 \<or> which \<ge> history_length h)" using assms(2,3) rep by (auto simp: hist_rep_def)
  have "es ! ?i \<in> set es" using assms(3) by simp
  then obtain ts where ts: "timestamp (es ! ?i) = Some ts" using assms(1) unfolding represents_def by auto
  let ?x = "\<lparr>line = Some ln, timestamp = Some ts, hdata = d\<rparr>"
  have x: "(es ! ?i)\<lparr>line := Some ln, hdata := d\<rparr> = ?x" using ts by simp
  have "replace_history_entry which ln d h = Some (h\<lparr>the_history := (the_history h)[?i := HEntry ?x]\<rparr>, Some (es ! ?i))"
    unfolding replace_history_entry_def if_not_P [OF w(2)]
    using rep_set(2) [OF rep assms(3)] rep_set(3) [OF rep assms(3), of ?x] ts by (simp add: w(1) del: int_nat_eq)
  then show ?thesis using represents_set [OF assms(1,3), of ?x] unfolding x by simp
qed

lemma retarget_slot: "set_data old new (HEntry e) = HEntry (retarget old new e)" "has_data old (HEntry e) \<longleftrightarrow> hdata e = old"
  by (simp_all add: set_data_def has_data_def retarget_def)

lemma retarget_last:
  "rev (retarget_first old new (rev es)) =
     (case filter (\<lambda>i. hdata (es ! i) = old) [0..<length es] of
        [] \<Rightarrow> es
      | is \<Rightarrow> es[last is := retarget old new (es ! last is)])"
proof (induction es rule: rev_induct)
  case (snoc e es)
  let ?is = "filter (\<lambda>i. hdata (es ! i) = old) [0..<length es]"
  have f: "filter (\<lambda>i. hdata ((es @ [e]) ! i) = old) [0..<length (es @ [e])] = ?is @ (if hdata e = old then [length es] else [])"
    by (auto simp: nth_append intro!: filter_cong)
  show ?case
  proof (cases "hdata e = old")
    case True
    then show ?thesis unfolding f list.case_eq_if by (simp add: retarget_def)
  next
    case False
    have "last ?is < length es" if "?is \<noteq> []" using last_in_set [OF that] by simp
    then show ?thesis unfolding f using snoc False
      by (auto simp: nth_append list_update_append list.case_eq_if)
  qed
qed simp

lemma exec_data:
  assumes "represents h (es, lim, pos)"
  shows "represents (replace_history_data which old new h)
    (if 0 \<le> which \<and> nat which < length es then es[nat which := retarget old new (es ! nat which)]
     else if which = - 1 then map (retarget old new) es
     else if which = - 2 then rev (retarget_first old new (rev es))
     else es, lim, pos)" (is "represents _ (?es', _, _)")
proof (cases "which < - 2 \<or> which \<ge> int (length es) \<or> es = []")
  case True
  then have "?es' = es" using assms by auto
  moreover have "replace_history_data which old new h = h"
    using True assms by (auto simp: replace_history_data_def represents_def hist_rep_def)
  ultimately show ?thesis using assms by simp
next
  case False
  have rep: "hist_rep h es" using assms by (simp add: represents_def)
  from False rep_block [OF rep, of 0] obtain rest where b: "the_history h = map HEntry es @ HNull # rest" "the_history h \<noteq> []" by auto
  have n: "nat (history_length h) = length es" "history_length h = int (length es)" using rep by (simp_all add: hist_rep_def)
  have at: "the_history h ! i = HEntry (es ! i)" if "i < length es" for i using that by (simp add: b nth_append)
  have fs: "filter (\<lambda>i. has_data old (the_history h ! i)) [0..<length es] = filter (\<lambda>i. hdata (es ! i) = old) [0..<length es]"
    by (rule filter_cong) (simp_all add: at retarget_slot)
  have ts: "timestamp (retarget old new e) = timestamp e" for e by (simp add: retarget_def)
  have eq: "replace_history_data which old new h =
      (if which \<ge> 0 then h\<lparr>the_history := (the_history h)[nat which := set_data old new (the_history h ! nat which)]\<rparr>
       else if which = - 1 then h\<lparr>the_history := map (set_data old new) (take (length es) (the_history h)) @ drop (length es) (the_history h)\<rparr>
       else (case filter (\<lambda>i. hdata (es ! i) = old) [0..<length es] of
                [] \<Rightarrow> h
              | is \<Rightarrow> h\<lparr>the_history := (the_history h)[last is := set_data old new (the_history h ! last is)]\<rparr>))"
    using False n b(2) by (simp add: replace_history_data_def Let_def fs)
  consider (one) "0 \<le> which" "nat which < length es" | (all) "which = - 1" | (newest) "which = - 2" using False by linarith
  then show ?thesis
  proof cases
    case one
    then show ?thesis
      using represents_set [OF assms one(2), of "retarget old new (es ! nat which)"] assms ts
      by (auto simp: eq at retarget_slot represents_def)
  next
    case all
    have "map (set_data old new) (take (length es) (the_history h)) @ drop (length es) (the_history h) =
        map HEntry (map (retarget old new) es) @ HNull # rest" by (simp add: b retarget_slot)
    then show ?thesis using assms ts all unfolding eq represents_def by (auto simp: hist_rep_def)
  next
    case newest
    show ?thesis
    proof (cases "filter (\<lambda>i. hdata (es ! i) = old) [0..<length es]")
      case Nil
      then show ?thesis using assms newest unfolding eq by (simp add: retarget_last)
    next
      case (Cons i "is")
      have "last (i # is) \<in> set (filter (\<lambda>i. hdata (es ! i) = old) [0..<length es])" unfolding Cons by (rule last_in_set) simp
      then have l: "last (i # is) < length es" by simp
      have "timestamp (retarget old new (es ! last (i # is))) \<noteq> None" using assms l ts by (auto simp: represents_def)
      from represents_set [OF assms l this] show ?thesis
        using newest Cons at [OF l] unfolding eq by (simp add: retarget_last retarget_slot)
    qed
  qed
qed

lemma exec_stifle:
  assumes "represents h (es, lim, pos)"
  shows "\<exists>h'. stifle_history mx h = Some h' \<and> represents h' (keep_last (Some (max 0 mx)) es, Some (max 0 mx), pos)"
proof -
  have rep: "hist_rep h es" using assms by (simp add: represents_def)
  from stifle_history_rep [OF rep, of "max 0 mx"] obtain h' where h': "stifle_history mx h = Some h'"
    "hist_rep h' (keep_last (Some (max 0 mx)) es)" "history_stifled h'" "history_max_entries h' = max 0 mx" "history_offset h' = history_offset h"
    by (auto simp: keep_last_def stifle_negative [of mx])
  then show ?thesis using assms stifle_history_keeps [OF h'(1)]
    by (auto simp: represents_def keep_last_def dest: in_set_dropD)
qed

text \<open>
  Moving through the list: while the current position is between zero and the length, asking
  for the current, previous or next entry stays inside the block and returns the entry at that
  position, or a null pointer at either end.
\<close>

lemma history_navigation:
  assumes "hist_rep h es" and "0 \<le> history_offset h" and "history_offset h \<le> int (length es)"
  shows "current_history h =
      Some (if history_offset h < int (length es) then HEntry (es ! nat (history_offset h)) else HNull) \<and>
    previous_history h =
      Some (if 0 < history_offset h
            then (h\<lparr>history_offset := history_offset h - 1\<rparr>, HEntry (es ! nat (history_offset h - 1))) else (h, HNull)) \<and>
    next_history h =
      Some (if history_offset h < int (length es)
            then (h\<lparr>history_offset := history_offset h + 1\<rparr>,
                  if history_offset h + 1 < int (length es) then HEntry (es ! nat (history_offset h + 1)) else HNull)
            else (h, HNull))"
proof (cases "the_history h = []")
  case True
  with assms show ?thesis by (auto simp: hist_rep_def current_history_def previous_history_def next_history_def)
next
  case False
  with assms(1) obtain rest where b: "the_history h = map HEntry es @ HNull # rest" by (auto simp: hist_rep_def)
  have l: "history_length h = int (length es)" using assms(1) by (simp add: hist_rep_def)
  have rd: "read_slot (the_history h) i = Some (if i < int (length es) then HEntry (es ! nat i) else HNull)"
    if "0 \<le> i" "i \<le> int (length es)" for i
    using that by (auto simp: read_slot_def b nth_append)
  then show ?thesis
    using assms(2,3) False l by (auto simp: current_history_def previous_history_def next_history_def)
qed

lemma exec_previous:
  assumes "represents h (es, lim, pos)" and "hist_spec HPrevious (es, lim, pos) = Some (a', r)"
  shows "\<exists>h'. previous_history h = Some (h', slot_of r) \<and> represents h' a'"
proof -
  have le: "pos \<le> length es" and a: "(a', r) = (if pos = 0 then ((es, lim, 0), None) else ((es, lim, pos - 1), Some (es ! (pos - 1))))"
    using assms(2) by (simp_all split: if_splits)
  have rep: "hist_rep h es" "history_offset h = int pos" using assms(1) by (simp_all add: represents_def)
  note nav = history_navigation [OF rep(1), THEN conjunct2, THEN conjunct1]
  have "nat (int pos - 1) = pos - 1" by simp
  then show ?thesis using nav le rep a assms(1)
    by (cases "pos = 0") (auto simp: represents_def hist_rep_def)
qed

lemma exec_next:
  assumes "represents h (es, lim, pos)" and "hist_spec HNext (es, lim, pos) = Some (a', r)"
  shows "\<exists>h'. next_history h = Some (h', slot_of r) \<and> represents h' a'"
proof -
  have le: "pos \<le> length es"
    and a: "(a', r) = (if pos = length es then ((es, lim, pos), None)
       else ((es, lim, Suc pos), if Suc pos < length es then Some (es ! Suc pos) else None))"
    using assms(2) by (simp_all split: if_splits)
  have rep: "hist_rep h es" "history_offset h = int pos" using assms(1) by (simp_all add: represents_def)
  note nav = history_navigation [OF rep(1), THEN conjunct2, THEN conjunct2]
  have "nat (int pos + 1) = Suc pos" "int pos + 1 < int (length es) \<longleftrightarrow> Suc pos < length es" by auto
  then show ?thesis using nav le rep a assms(1)
    by (cases "pos = length es") (auto simp: represents_def hist_rep_def)
qed

lemma hist_exec_refines:
  assumes "represents h a" and "hist_spec p a = Some (a', r)"
  shows "\<exists>h'. hist_exec p h = Some (h', slot_of r) \<and> represents h' a'"
proof -
  obtain es lim pos where a: "a = (es, lim, pos)" by (cases a)
  note rep = assms(1) [unfolded a] and spec = assms(2) [unfolded a]
  show ?thesis
  proof (cases p)
    case (HAdd s ts)
    then show ?thesis using exec_add [OF rep, of s ts] spec by auto
  next
    case (HAddTime s)
    then show ?thesis using exec_add_time [OF rep, of s] spec by auto
  next
    case (HRemove which)
    then show ?thesis using exec_remove [OF rep, of which] spec by (auto split: if_splits)
  next
    case (HReplace which ln d)
    show ?thesis
    proof (cases "0 \<le> which \<and> nat which < length es")
      case True
      then show ?thesis using exec_replace [OF rep, of which ln d] spec HReplace by auto
    next
      case False
      then have "replace_history_entry which ln d h = Some (h, None)"
        using rep by (auto simp: replace_history_entry_def represents_def hist_rep_def)
      then show ?thesis using False spec HReplace rep by auto
    qed
  next
    case (HData which old new)
    then show ?thesis using exec_data [OF rep, of which old new] spec by auto
  next
    case (HStifle mx)
    then show ?thesis using exec_stifle [OF rep, of mx] spec by auto
  next
    case HClear
    from rep have "hist_rep h es" by (simp add: represents_def)
    from clear_history_rep [OF this] clear_history_keeps [OF this] show ?thesis
      using HClear spec rep by (auto simp: represents_def)
  next
    case HPrevious
    then show ?thesis using exec_previous [OF rep] spec by simp
  next
    case HNext
    then show ?thesis using exec_next [OF rep] spec by simp
  next
    case (HSetPos n)
    then show ?thesis using rep spec
      by (auto simp: represents_def hist_rep_def history_set_pos_def nat_le_iff)
  qed (use rep spec in \<open>auto simp: represents_def hist_rep_def unstifle_history_def using_history_def\<close>)
qed

lemma hist_run_refines:
  "represents h a \<Longrightarrow> hist_plan ps a = Some (a', rs) \<Longrightarrow>
    \<exists>h'. hist_run ps h = Some (h', map slot_of rs) \<and> represents h' a'"
proof (induction ps arbitrary: h a rs)
  case (Cons p ps)
  from Cons.prems(2) obtain a1 r rs' where s: "hist_spec p a = Some (a1, r)" "hist_plan ps a1 = Some (a', rs')" "rs = r # rs'"
    by (auto split: option.splits)
  from hist_exec_refines [OF Cons.prems(1) s(1)] obtain h1 where h1: "hist_exec p h = Some (h1, slot_of r)" "represents h1 a1" by blast
  from Cons.IH [OF h1(2) s(2)] h1(1) s(3) show ?case by auto
qed simp

text \<open>Only moving from a position behind the end has no specified result.\<close>

lemma hist_spec_total: "p \<noteq> HPrevious \<Longrightarrow> p \<noteq> HNext \<Longrightarrow> \<exists>a' r. hist_spec p a = Some (a', r)"
proof -
  obtain es lim pos where "a = (es, lim, pos)" by (rule prod_cases3)
  then show "p \<noteq> HPrevious \<Longrightarrow> p \<noteq> HNext \<Longrightarrow> \<exists>a' r. hist_spec p a = Some (a', r)" by (cases p) auto
qed

lemma hist_plan_total: "HPrevious \<notin> set ps \<Longrightarrow> HNext \<notin> set ps \<Longrightarrow> \<exists>a' rs. hist_plan ps a = Some (a', rs)"
proof (induction ps arbitrary: a)
  case (Cons p ps)
  with hist_spec_total [of p a] obtain a' r where "hist_spec p a = Some (a', r)" by auto
  with Cons.IH [of a'] Cons.prems show ?case by auto
qed (metis hist_plan.simps(1))

lemma history_get_rep:
  assumes "hist_rep h es"
  shows "history_get k h =
    Some (if history_base h \<le> k \<and> k < history_base h + int (length es)
          then HEntry (es ! nat (k - history_base h)) else HNull)"
proof (cases "history_base h \<le> k \<and> k < history_base h + int (length es)")
  case True
  with assms obtain rest where b: "the_history h = map HEntry es @ HNull # rest" by (auto simp: hist_rep_def)
  have i: "nat (k - history_base h) < length es" "int (nat (k - history_base h)) = k - history_base h" using True by auto
  from read_entry [OF b i(1)] i(2) True assms b show ?thesis by (auto simp: history_get_def hist_rep_def Let_def)
next
  case False
  with assms show ?thesis by (auto simp: history_get_def hist_rep_def Let_def)
qed

subsection \<open>Properties\<close>

text \<open>
  C19. The history block behaves as a bounded list with a position: starting from the initial
  variables, a sequence of additions, changes of the time stamp, removals, replacements of entries
  and of their data, stifling, unstifling, clearing and moving (to the end, to a number, to the
  previous and the next entry) runs without reading or writing outside the block or using an
  undefined slot, returns the entries the same sequence returns on a list, and leaves the entries,
  the position and the bound the list has; while stifled the length never exceeds the bound.
  \<^verbatim>\<open>previous_history\<close> and \<^verbatim>\<open>next_history\<close> may only be called while the position is not behind the end
  of the list, where removals and stifling can leave it: \<open>hist_plan\<close> has a result exactly for such
  sequences, in particular for all that do not use the two. The counters are taken not to overflow.
\<close>

theorem history_refines_list:
  "(hist_plan ps ([], None, 0) = Some ((es, lim, pos), rs) \<longrightarrow>
     (\<exists>h. hist_run ps history_init = Some (h, map slot_of rs) \<and>
       history_length h = int (length es) \<and> where_history h = int pos \<and>
       (\<forall>i < length es. history_get (history_base h + int i) h = Some (HEntry (es ! i))) \<and>
       (history_is_stifled h \<longleftrightarrow> lim \<noteq> None) \<and>
       (\<forall>m. lim = Some m \<longrightarrow> history_max_entries h = m \<and> history_length h \<le> m))) \<and>
   (HPrevious \<notin> set ps \<and> HNext \<notin> set ps \<longrightarrow> hist_plan ps ([], None, 0) \<noteq> None)"
proof (intro conjI impI)
  assume "hist_plan ps ([], None, 0) = Some ((es, lim, pos), rs)"
  from hist_run_refines [OF represents_init this] obtain h where
    h: "hist_run ps history_init = Some (h, map slot_of rs)" "represents h (es, lim, pos)" by blast
  then have rep: "hist_rep h es" by (simp add: represents_def)
  show "\<exists>h. hist_run ps history_init = Some (h, map slot_of rs) \<and>
       history_length h = int (length es) \<and> where_history h = int pos \<and>
       (\<forall>i < length es. history_get (history_base h + int i) h = Some (HEntry (es ! i))) \<and>
       (history_is_stifled h \<longleftrightarrow> lim \<noteq> None) \<and>
       (\<forall>m. lim = Some m \<longrightarrow> history_max_entries h = m \<and> history_length h \<le> m)"
    using h history_get_rep [OF rep]
    by (intro exI [of _ h]) (auto simp: represents_def hist_rep_def history_is_stifled_def where_history_def)
qed (use hist_plan_total in auto)

theorem history_refines_list_witness:
  "\<exists>h. hist_run [HAdd (Some ''ls'') ''#1'', HAdd (Some ''pwd'') ''#2'', HStifle 1, HUsing, HPrevious] history_init =
      Some (h, [HNull, HNull, HNull, HNull, HEntry \<lparr>line = Some ''pwd'', timestamp = Some ''#2'', hdata = 0\<rparr>]) \<and>
     history_length h = 1 \<and> where_history h = 0"
proof -
  let ?ps = "[HAdd (Some ''ls'') ''#1'', HAdd (Some ''pwd'') ''#2'', HStifle 1, HUsing, HPrevious]"
  let ?e = "\<lparr>line = Some ''pwd'', timestamp = Some ''#2'', hdata = 0\<rparr>"
  have "hist_plan ?ps ([], None, 0) = Some (([?e], Some 1, 0), [None, None, None, None, Some ?e])" by (simp add: keep_last_def)
  from history_refines_list [THEN conjunct1, rule_format, OF this] obtain h where
    "hist_run ?ps history_init = Some (h, map slot_of [None, None, None, None, Some ?e])"
    "history_length h = int (length [?e])" "where_history h = int 0" by blast
  then show ?thesis by (intro exI [of _ h] conjI) simp_all
qed

text \<open>
  The position may be stale: after the last of two entries was removed from under it,
  \<open>next_history\<close> reads a slot that was never written.
\<close>

lemma stale_position_read:
  "hist_run [HAdd (Some ''a'') ''#1'', HUsing, HRemove 0, HNext] history_init = None"
  by (simp add: add_history_def history_init_def store_new_def write_slot_def using_history_def remove_history_def
      next_history_def read_slot_def cdefs numeral_eq_Suc nat_add_distrib)

text \<open>
  C37. Numbering, for any base. An addition keeps \<^verbatim>\<open>history_base\<close>, and so the number of every entry,
  while the list has room; when a full stifled list drops its oldest entry for a new one, the base
  is raised by one and every surviving entry keeps its number. But \<open>stifle_history\<close>, where it drops
  entries, assigns to \<^verbatim>\<open>history_base\<close> the number of entries it drops instead of adding it: a surviving
  entry that was found under the old base plus its index is afterwards found under its old index
  alone, so all numbers fall by the old base.
\<close>

theorem history_numbering:
  assumes "hist_rep h es" and "0 \<le> mx" and "mx < int (length es)"
  shows "(\<forall>i < length es. history_get (history_base h + int i) h = Some (HEntry (es ! i))) \<and>
    (\<exists>h'. stifle_history mx h = Some h' \<and> history_base h' = int (length es) - mx \<and>
       (\<forall>i < length es. int (length es) - mx \<le> int i \<longrightarrow> history_get (int i) h' = Some (HEntry (es ! i)))) \<and>
    (\<exists>h'. add_history s ts h = Some h' \<and>
       history_base h' = history_base h + (if history_stifled h \<and> history_max_entries h = int (length es) then 1 else 0) \<and>
       (\<forall>i < length es. history_base h' \<le> history_base h + int i \<longrightarrow>
          history_get (history_base h + int i) h' = Some (HEntry (es ! i))))"
proof (intro conjI allI impI)
  show "history_get (history_base h + int i) h = Some (HEntry (es ! i))" if "i < length es" for i
    using history_get_rep [OF assms(1), of "history_base h + int i"] that by simp
  from stifle_history_rep [OF assms(1,2)] assms(3) obtain h' where h': "stifle_history mx h = Some h'"
    "hist_rep h' (drop (length es - nat mx) es)" "history_base h' = int (length es) - mx" by auto
  have "history_get (int i) h' = Some (HEntry (es ! i))" if "i < length es" "int (length es) - mx \<le> int i" for i
  proof -
    have "i = length es - nat mx + nat (int i - (int (length es) - mx))" using that assms(2,3) by simp
    then show ?thesis using history_get_rep [OF h'(2), of "int i"] h'(3) assms(2,3) that by simp
  qed
  then show "\<exists>h'. stifle_history mx h = Some h' \<and> history_base h' = int (length es) - mx \<and>
       (\<forall>i < length es. int (length es) - mx \<le> int i \<longrightarrow> history_get (int i) h' = Some (HEntry (es ! i)))"
    using h' by blast
next
  have ne: "es \<noteq> []" using assms(2,3) by auto
  let ?full = "history_stifled h \<and> int (length es) = history_max_entries h" and ?e = "alloc_history_entry s (Some ts)"
  from add_history_rep [OF assms(1), of s ts, unfolded if_not_P [OF ne]] obtain h' where h': "add_history s ts h = Some h'"
    "hist_rep h' (if ?full then tl es @ [?e] else es @ [?e])" by blast
  have base: "history_base h' = history_base h + (if ?full then 1 else 0)"
    using add_history_keeps(3) [OF h'(1)] assms(1) ne by (simp add: hist_rep_def)
  have "history_get (history_base h + int i) h' = Some (HEntry (es ! i))" if "i < length es" "history_base h' \<le> history_base h + int i" for i
  proof (cases ?full)
    case True
    have "i \<noteq> 0" using that(2) base True by auto
    then obtain j where "i = Suc j" by (cases i) auto
    then show ?thesis using history_get_rep [OF h'(2), of "history_base h + int i"] that base True
      by (auto simp: nth_append nth_tl)
  next
    case False
    then show ?thesis using history_get_rep [OF h'(2), of "history_base h + int i"] that base
      by (auto simp: nth_append)
  qed
  then show "\<exists>h'. add_history s ts h = Some h' \<and>
       history_base h' = history_base h + (if history_stifled h \<and> history_max_entries h = int (length es) then 1 else 0) \<and>
       (\<forall>i < length es. history_base h' \<le> history_base h + int i \<longrightarrow>
          history_get (history_base h + int i) h' = Some (HEntry (es ! i)))"
    using h' base by (intro exI [of _ h']) auto
qed

theorem history_numbering_witness:
  "\<exists>h h'. hist_run [HStifle 2, HAdd (Some ''a'') ''#1'', HAdd (Some ''b'') ''#2'', HAdd (Some ''c'') ''#3''] history_init = Some (h, [HNull, HNull, HNull, HNull]) \<and>
     history_get 3 h = Some (HEntry \<lparr>line = Some ''c'', timestamp = Some ''#3'', hdata = 0\<rparr>) \<and>
     stifle_history 1 h = Some h' \<and>
     history_get 1 h' = Some (HEntry \<lparr>line = Some ''c'', timestamp = Some ''#3'', hdata = 0\<rparr>)"
proof -
  let ?ps = "[HStifle 2, HAdd (Some ''a'') ''#1'', HAdd (Some ''b'') ''#2'', HAdd (Some ''c'') ''#3'']"
  let ?es = "[\<lparr>line = Some ''b'', timestamp = Some ''#2'', hdata = 0\<rparr>, \<lparr>line = Some ''c'', timestamp = Some ''#3'', hdata = 0\<rparr>]"
  have "hist_plan ?ps ([], None, 0) = Some ((?es, Some 2, 0), [None, None, None, None])" by (simp add: keep_last_def)
  from hist_run_refines [OF represents_init this] obtain h where
    h: "hist_run ?ps history_init = Some (h, [HNull, HNull, HNull, HNull])" "hist_rep h ?es" by (auto simp: represents_def simp del: hist_run.simps)
  have "history_base h = 2"
    using h(1) by (auto simp: add_history_def store_new_def stifle_history_def history_init_def write_slot_def read_slot_def cdefs numeral_eq_Suc nat_add_distrib
        split: option.splits if_splits)
  with history_numbering [OF h(2), of 1] h(1) show ?thesis by (auto simp: All_less_Suc2 numeral_2_eq_2)
qed

end
