(* ===== verification/Glob.thy ===== *)
theory Glob
  imports Numconv Syntaxtab "HOL-Library.Monad_Syntax"
begin

text \<open>
  The pattern matcher: \<^verbatim>\<open>lib/glob/smatch.c\<close> with \<^verbatim>\<open>sm_loop.c\<close> compiled for single bytes, and the
  helpers of \<^verbatim>\<open>lib/glob/gmisc.c\<close>. A pointer into the pattern or the string is an index into the whole
  buffer, since the matcher reads beyond the end pointers it is given. A read beyond the terminator
  of a buffer, and any use of a null pointer, has the value \<open>None\<close>; the results 0 and
  \<open>FNM_NOMATCH\<close> are integers. Collation is that of the C locale.
\<close>

subsection \<open>Flags and reads\<close>

definition FNM_PATHNAME :: int where [cdefs]: "FNM_PATHNAME = 1"
definition FNM_NOESCAPE :: int where [cdefs]: "FNM_NOESCAPE = 2"
definition FNM_PERIOD :: int where [cdefs]: "FNM_PERIOD = 4"
definition FNM_LEADING_DIR :: int where [cdefs]: "FNM_LEADING_DIR = 8"
definition FNM_CASEFOLD :: int where [cdefs]: "FNM_CASEFOLD = 16"
definition FNM_EXTMATCH :: int where [cdefs]: "FNM_EXTMATCH = 32"
definition FNM_NOMATCH :: int where [cdefs]: "FNM_NOMATCH = 1"

definition rd :: "string \<Rightarrow> nat \<Rightarrow> char option" where
  "rd b i = (if i \<le> length b then Some (char_at b i) else None)"

definition TOLOWER :: "char \<Rightarrow> char" where
  "TOLOWER c = (if ISUPPER c then char_of (nat (uchar c + 32)) else c)"

definition FOLD :: "int \<Rightarrow> char \<Rightarrow> char" where
  "FOLD flags c = (if flags AND FNM_CASEFOLD \<noteq> 0 then TOLOWER c else c)"

subsection \<open>Collation and character classes\<close>

definition rangecmp :: "bool \<Rightarrow> char \<Rightarrow> char \<Rightarrow> bool \<Rightarrow> int" where
  "rangecmp glob_asciirange c1 c2 forcecoll =
     (if c1 = c2 then 0
      else if \<not> forcecoll \<and> glob_asciirange then uchar c1 - uchar c2
      else
        let ret = uchar c1 - uchar c2
        in if ret \<noteq> 0 then ret else uchar c1 - uchar c2)"

definition collequiv :: "bool \<Rightarrow> char \<Rightarrow> char \<Rightarrow> bool" where
  "collequiv glob_asciirange c1 c2 \<longleftrightarrow> rangecmp glob_asciirange c1 c2 True = 0"

definition posix_collsyms :: "(string \<times> char) list" where
  "posix_collsyms =
  [
   (''NUL'', CHR 0x00), (''SOH'', CHR 0x01), (''STX'', CHR 0x02),
   (''ETX'', CHR 0x03), (''EOT'', CHR 0x04), (''ENQ'', CHR 0x05),
   (''ACK'', CHR 0x06), (''alert'', CHR 0x07), (''BS'', CHR 0x08),
   (''backspace'', CHR 0x08), (''HT'', CHR 0x09), (''tab'', CHR 0x09),
   (''LF'', CHR 0x0A), (''newline'', CHR 0x0A), (''VT'', CHR 0x0B),
   (''vertical-tab'', CHR 0x0B), (''FF'', CHR 0x0C), (''form-feed'', CHR 0x0C),
   (''CR'', CHR 0x0D), (''carriage-return'', CHR 0x0D), (''SO'', CHR 0x0E),
   (''SI'', CHR 0x0F), (''DLE'', CHR 0x10), (''DC1'', CHR 0x11),
   (''DC2'', CHR 0x12), (''DC3'', CHR 0x13), (''DC4'', CHR 0x14),
   (''NAK'', CHR 0x15), (''SYN'', CHR 0x16), (''ETB'', CHR 0x17),
   (''CAN'', CHR 0x18), (''EM'', CHR 0x19), (''SUB'', CHR 0x1A),
   (''ESC'', CHR 0x1B), (''IS4'', CHR 0x1C), (''FS'', CHR 0x1C),
   (''IS3'', CHR 0x1D), (''GS'', CHR 0x1D), (''IS2'', CHR 0x1E),
   (''RS'', CHR 0x1E), (''IS1'', CHR 0x1F), (''US'', CHR 0x1F),
   (''space'', CHR 0x20), (''exclamation-mark'', CHR 0x21), (''quotation-mark'', CHR 0x22),
   (''number-sign'', CHR 0x23), (''dollar-sign'', CHR 0x24), (''percent-sign'', CHR 0x25),
   (''ampersand'', CHR 0x26), (''apostrophe'', CHR 0x27), (''left-parenthesis'', CHR 0x28),
   (''right-parenthesis'', CHR 0x29), (''asterisk'', CHR 0x2A), (''plus-sign'', CHR 0x2B),
   (''comma'', CHR 0x2C), (''hyphen'', CHR 0x2D), (''hyphen-minus'', CHR 0x2D),
   (''minus'', CHR 0x2D), (''dash'', CHR 0x2D), (''period'', CHR 0x2E),
   (''full-stop'', CHR 0x2E), (''slash'', CHR 0x2F), (''solidus'', CHR 0x2F),
   (''zero'', CHR 0x30), (''one'', CHR 0x31), (''two'', CHR 0x32),
   (''three'', CHR 0x33), (''four'', CHR 0x34), (''five'', CHR 0x35),
   (''six'', CHR 0x36), (''seven'', CHR 0x37), (''eight'', CHR 0x38),
   (''nine'', CHR 0x39), (''colon'', CHR 0x3A), (''semicolon'', CHR 0x3B),
   (''less-than-sign'', CHR 0x3C), (''equals-sign'', CHR 0x3D), (''greater-than-sign'', CHR 0x3E),
   (''question-mark'', CHR 0x3F), (''commercial-at'', CHR 0x40), (''left-square-bracket'', CHR 0x5B),
   (''backslash'', CHR 0x5C), (''reverse-solidus'', CHR 0x5C), (''right-square-bracket'', CHR 0x5D),
   (''circumflex'', CHR 0x5E), (''circumflex-accent'', CHR 0x5E), (''underscore'', CHR 0x5F),
   (''grave-accent'', CHR 0x60), (''left-brace'', CHR 0x7B), (''left-curly-bracket'', CHR 0x7B),
   (''vertical-line'', CHR 0x7C), (''right-brace'', CHR 0x7D), (''right-curly-bracket'', CHR 0x7D),
   (''tilde'', CHR 0x7E), (''DEL'', CHR 0x7F)]"

text \<open>\<open>None\<close> is the code \<^verbatim>\<open>INVALID\<close>.\<close>

definition collsym :: "string \<Rightarrow> nat \<Rightarrow> char option" where
  "collsym s len =
     (case map_of posix_collsyms (take len s) of
        Some code \<Rightarrow> Some code
      | None \<Rightarrow> if len = 1 then Some (char_at s 0) else None)"

datatype char_class =
  CC_ASCII | CC_ALNUM | CC_ALPHA | CC_BLANK | CC_CNTRL | CC_DIGIT | CC_GRAPH
  | CC_LOWER | CC_PRINT | CC_PUNCT | CC_SPACE | CC_UPPER | CC_WORD | CC_XDIGIT

definition cclass_name :: "(string \<times> char_class) list" where
  "cclass_name =
     [(''ascii'', CC_ASCII), (''alnum'', CC_ALNUM), (''alpha'', CC_ALPHA), (''blank'', CC_BLANK),
      (''cntrl'', CC_CNTRL), (''digit'', CC_DIGIT), (''graph'', CC_GRAPH), (''lower'', CC_LOWER),
      (''print'', CC_PRINT), (''punct'', CC_PUNCT), (''space'', CC_SPACE), (''upper'', CC_UPPER),
      (''word'', CC_WORD), (''xdigit'', CC_XDIGIT)]"

definition ISALNUM :: "char \<Rightarrow> bool" where "ISALNUM c \<longleftrightarrow> ISALPHA c \<or> DIGIT c"
definition ISPRINT :: "char \<Rightarrow> bool" where "ISPRINT c \<longleftrightarrow> 32 \<le> uchar c \<and> uchar c \<le> 126"
definition ISGRAPH :: "char \<Rightarrow> bool" where "ISGRAPH c \<longleftrightarrow> ISPRINT c \<and> \<not> ISSPACE c"
definition ISBLANK :: "char \<Rightarrow> bool" where "ISBLANK c \<longleftrightarrow> c = CHR '' '' \<or> c = TAB"
definition ISCNTRL :: "char \<Rightarrow> bool" where "ISCNTRL c \<longleftrightarrow> uchar c < 32 \<or> uchar c = 127"
definition ISPUNCT :: "char \<Rightarrow> bool" where "ISPUNCT c \<longleftrightarrow> ISGRAPH c \<and> \<not> ISALNUM c"

definition ISXDIGIT :: "char \<Rightarrow> bool" where
  "ISXDIGIT c \<longleftrightarrow> DIGIT c \<or> (97 \<le> uchar c \<and> uchar c \<le> 102) \<or> (65 \<le> uchar c \<and> uchar c \<le> 70)"

fun in_class :: "char_class \<Rightarrow> char \<Rightarrow> bool" where
  "in_class CC_ASCII c = (uchar c \<le> 127)"
| "in_class CC_ALNUM c = ISALNUM c"
| "in_class CC_ALPHA c = ISALPHA c"
| "in_class CC_BLANK c = ISBLANK c"
| "in_class CC_CNTRL c = ISCNTRL c"
| "in_class CC_DIGIT c = DIGIT c"
| "in_class CC_GRAPH c = ISGRAPH c"
| "in_class CC_LOWER c = ISLOWER c"
| "in_class CC_PRINT c = ISPRINT c"
| "in_class CC_PUNCT c = ISPUNCT c"
| "in_class CC_SPACE c = ISSPACE c"
| "in_class CC_UPPER c = ISUPPER c"
| "in_class CC_WORD c = (ISALNUM c \<or> c = CHR ''_'')"
| "in_class CC_XDIGIT c = ISXDIGIT c"

text \<open>\<open>is_cclass\<close> returns \<open>None\<close> for the result -1, a name that is no class.\<close>

definition is_cclass :: "char \<Rightarrow> string \<Rightarrow> bool option" where
  "is_cclass c name = map_option (\<lambda>k. in_class k c) (map_of cclass_name name)"

subsection \<open>Bracket expressions\<close>

text \<open>
  \<open>parse_collsym\<close> is given the index of the dot after the bracket. Without a closing \<^verbatim>\<open>.]\<close> the loop
  stops at the terminator, and the pointer returned is beyond it.
\<close>

fun collsym_end :: "string \<Rightarrow> nat" where
  "collsym_end [] = 0"
| "collsym_end (c # s) = (if c = CHR ''.'' \<and> char_at s 0 = CHR '']'' then 0 else Suc (collsym_end s))"

definition parse_collsym :: "string \<Rightarrow> nat \<Rightarrow> nat \<times> char option" where
  "parse_collsym b p =
     (let p = Suc p; pc = collsym_end (drop p b)
      in (p + pc + 2, collsym (drop p b) pc))"

lemma rd_le: "rd b i = Some c \<Longrightarrow> i \<le> length b"
  by (simp add: rd_def split: if_splits)

lemma rd_conv: "rd b i = Some c \<longleftrightarrow> i \<le> length b \<and> c = char_at b i"
  by (auto simp: rd_def)

lemma rd_Some [simp]: "i \<le> length b \<Longrightarrow> rd b i = Some (char_at b i)"
  by (simp add: rd_def)

text \<open>The skip over the rest of an expression that has matched, from the label \<^verbatim>\<open>matched\<close> on.\<close>

function brack_skip :: "string \<Rightarrow> int \<Rightarrow> char \<Rightarrow> bool \<Rightarrow> nat \<Rightarrow> nat \<Rightarrow> char \<Rightarrow> nat \<Rightarrow> nat option option" where
  "brack_skip b flags test neg savep brcnt c p =
     (if brcnt = 0 then Some (if neg then None else Some p)
      else if c = NUL then Some (if test = CHR ''['' then Some savep else None)
      else do {
        c \<leftarrow> rd b p;
        if c = CHR ''['' then do {
          d \<leftarrow> rd b (Suc p);
          brack_skip b flags test neg savep (if d \<in> set ''=:.'' then Suc brcnt else brcnt) c (Suc p)
        }
        else if c = CHR '']'' then brack_skip b flags test neg savep (brcnt - 1) c (Suc p)
        else if flags AND FNM_NOESCAPE = 0 \<and> c = BSLASH then do {
          d \<leftarrow> rd b (Suc p);
          if d = NUL then Some None else brack_skip b flags test neg savep brcnt c (p + 2)
        }
        else brack_skip b flags test neg savep brcnt c (Suc p)
      })"
  by pat_completeness auto
termination
  by (relation "measure (\<lambda>(b, flags, test, neg, savep, brcnt, c, p). Suc (length b) - p)") (auto dest: rd_le)

declare brack_skip.simps [simp del]

definition brack_matched :: "string \<Rightarrow> int \<Rightarrow> char \<Rightarrow> bool \<Rightarrow> nat \<Rightarrow> nat \<Rightarrow> nat option option" where
  "brack_matched b flags test neg savep p =
     do { c \<leftarrow> rd b (p - 1); brack_skip b flags test neg savep 1 c (p - 1) }"

definition equiv_class_at :: "string \<Rightarrow> char \<Rightarrow> nat \<Rightarrow> bool option" where
  "equiv_class_at b c p =
     (if c = CHR ''['' then do {
        c1 \<leftarrow> rd b p;
        if c1 = CHR ''='' then do {
          c2 \<leftarrow> rd b (p + 2);
          if c2 = CHR ''='' then do { c3 \<leftarrow> rd b (p + 3); Some (c3 = CHR '']'') } else Some False
        } else Some False
      } else Some False)"

definition opens :: "string \<Rightarrow> char \<Rightarrow> nat \<Rightarrow> char \<Rightarrow> bool option" where
  "opens b c p d = (if c = CHR ''['' then do { c1 \<leftarrow> rd b p; Some (c1 = d) } else Some False)"

fun cclass_close :: "string \<Rightarrow> nat option" where
  "cclass_close [] = None"
| "cclass_close (c # s) =
     (if c = CHR '':'' \<and> char_at s 0 = CHR '']'' then Some 0 else map_option Suc (cclass_close s))"

text \<open>
  The class name begins after the colon at index \<open>p\<close>: the value is the result \<^verbatim>\<open>pc\<close> and the new
  pointer, which moves only past a class that exists.
\<close>

definition cclass_at :: "string \<Rightarrow> char \<Rightarrow> nat \<Rightarrow> bool \<times> nat" where
  "cclass_at b test p =
     (case cclass_close (drop (Suc p) b) of
        None \<Rightarrow> (False, p)
      | Some k \<Rightarrow>
          (case is_cclass test (take k (drop (Suc p) b)) of
             None \<Rightarrow> (False, p)
           | Some pc \<Rightarrow> (pc, Suc p + k + 2)))"

definition inc_char :: "char \<Rightarrow> char" where "inc_char c = char_of (nat (uchar c + 1))"
definition dec_char :: "char \<Rightarrow> char" where "dec_char c = char_of (nat (uchar c + 255))"

text \<open>The first point of a range: the value is \<^verbatim>\<open>cstart\<close>, \<^verbatim>\<open>forcecoll\<close> and the pointer.\<close>

definition range_start :: "string \<Rightarrow> int \<Rightarrow> char \<Rightarrow> char \<Rightarrow> nat \<Rightarrow> (char \<times> bool \<times> nat) option option" where
  "range_start b flags test c p =
     do {
       dot \<leftarrow> opens b c p (CHR ''.'');
       if dot then
         (case parse_collsym b p of
            (p, pc) \<Rightarrow> Some (Some (case pc of None \<Rightarrow> inc_char test | Some x \<Rightarrow> x, True, p)))
       else if flags AND FNM_NOESCAPE = 0 \<and> c = BSLASH then do {
         d \<leftarrow> rd b p;
         if d = NUL then Some None else Some (Some (d, False, Suc p))
       }
       else Some (Some (c, False, p))
     }"

text \<open>The second point of a range, from the index after the hyphen.\<close>

definition range_end :: "string \<Rightarrow> int \<Rightarrow> char \<Rightarrow> bool \<Rightarrow> nat \<Rightarrow> (char \<times> bool \<times> nat) option option" where
  "range_end b flags test forcecoll p =
     do {
       cend \<leftarrow> rd b p;
       (cend, p) \<leftarrow> (if flags AND FNM_NOESCAPE = 0 \<and> cend = BSLASH
                    then do { d \<leftarrow> rd b (Suc p); Some (d, p + 2) } else Some (cend, Suc p));
       if cend = NUL then Some None
       else do {
         dot \<leftarrow> opens b cend p (CHR ''.'');
         if dot then
           (case parse_collsym b p of
              (p, pc) \<Rightarrow> Some (Some (case pc of None \<Rightarrow> dec_char test | Some x \<Rightarrow> x, True, p)))
         else Some (Some (cend, forcecoll, p))
       }
     }"

text \<open>What one element of the list decides: return, go on, leave the loop, or jump to \<^verbatim>\<open>matched\<close>.\<close>

datatype brack_step = BReturn "nat option" | BNext char nat | BBreak nat | BMatched nat

definition bad_bracket :: "char \<Rightarrow> nat \<Rightarrow> nat option" where
  "bad_bracket test savep = (if test = CHR ''['' then Some savep else None)"

definition elem_equiv :: "bool \<Rightarrow> string \<Rightarrow> int \<Rightarrow> char \<Rightarrow> nat \<Rightarrow> nat \<Rightarrow> brack_step option" where
  "elem_equiv ar b flags test savep p =
     do {
       pc \<leftarrow> rd b (Suc p);
       if collequiv ar test (FOLD flags pc) then Some (BMatched (p + 5))
       else do {
         c \<leftarrow> rd b (p + 4);
         Some (if c = NUL then BReturn (bad_bracket test savep) else BNext (FOLD flags c) (p + 5))
       }
     }"

definition elem_class :: "string \<Rightarrow> int \<Rightarrow> char \<Rightarrow> nat \<Rightarrow> nat \<Rightarrow> brack_step option" where
  "elem_class b flags test savep p =
     (case cclass_at b test p of
        (pc, p) \<Rightarrow>
          if pc then Some (BMatched (Suc p))
          else do {
            c \<leftarrow> rd b p;
            Some (if c = NUL then BReturn (bad_bracket test savep)
                  else if c = CHR '']'' then BBreak (Suc p)
                  else BNext (FOLD flags c) (Suc p))
          })"

text \<open>The comparison with one point or range, \<open>c\<close> being the character after it and \<open>p\<close> the index after that.\<close>

definition range_test :: "bool \<Rightarrow> char \<Rightarrow> char \<Rightarrow> char \<Rightarrow> bool \<Rightarrow> char \<Rightarrow> nat \<Rightarrow> brack_step" where
  "range_test ar test cstart cend forcecoll c p =
     (if rangecmp ar test cstart forcecoll \<ge> 0 \<and> rangecmp ar test cend forcecoll \<le> 0 then BMatched p
      else if c = CHR '']'' then BBreak p else BNext c p)"

definition elem_to :: "bool \<Rightarrow> string \<Rightarrow> int \<Rightarrow> char \<Rightarrow> char \<Rightarrow> bool \<Rightarrow> nat \<Rightarrow> brack_step option" where
  "elem_to ar b flags test cstart forcecoll p =
     do {
       en \<leftarrow> range_end b flags test forcecoll p;
       (case en of
          None \<Rightarrow> Some (BReturn None)
        | Some (cend, forcecoll, p) \<Rightarrow>
            do {
              c \<leftarrow> rd b p;
              Some (if rangecmp ar cstart (FOLD flags cend) forcecoll > 0
                    then (if c = CHR '']'' then BBreak (Suc p) else BNext (FOLD flags c) (Suc p))
                    else range_test ar test cstart (FOLD flags cend) forcecoll c (Suc p))
            })
     }"

definition elem_range :: "bool \<Rightarrow> string \<Rightarrow> int \<Rightarrow> char \<Rightarrow> nat \<Rightarrow> char \<Rightarrow> nat \<Rightarrow> brack_step option" where
  "elem_range ar b flags test savep c p =
     do {
       st \<leftarrow> range_start b flags test c p;
       (case st of
          None \<Rightarrow> Some (BReturn None)
        | Some (cstart, forcecoll, p) \<Rightarrow>
            if c = NUL then Some (BReturn (bad_bracket test savep))
            else do {
              c \<leftarrow> rd b p;
              if flags AND FNM_PATHNAME \<noteq> 0 \<and> FOLD flags c = CHR ''/'' then Some (BReturn None)
              else do {
                hyphen \<leftarrow> (if FOLD flags c = CHR ''-'' then do { d \<leftarrow> rd b (Suc p); Some (d \<noteq> CHR '']'') } else Some False);
                if hyphen then elem_to ar b flags test (FOLD flags cstart) forcecoll (Suc p)
                else Some (range_test ar test (FOLD flags cstart) (FOLD flags cstart) forcecoll (FOLD flags c) (Suc p))
              }
            })
     }"

definition brack_elem :: "bool \<Rightarrow> string \<Rightarrow> int \<Rightarrow> char \<Rightarrow> nat \<Rightarrow> char \<Rightarrow> nat \<Rightarrow> brack_step option" where
  "brack_elem ar b flags test savep c p =
     do {
       eqv \<leftarrow> equiv_class_at b c p;
       if eqv then elem_equiv ar b flags test savep p
       else do {
         cls \<leftarrow> opens b c p (CHR '':'');
         if cls then elem_class b flags test savep p
         else elem_range ar b flags test savep c p
       }
     }"

lemma cclass_close_bound: "cclass_close s = Some k \<Longrightarrow> k + 2 \<le> length s"
proof (induction s arbitrary: k)
  case (Cons c s)
  show ?case
  proof (cases "c = CHR '':'' \<and> char_at s 0 = CHR '']''")
    case True
    then show ?thesis using Cons.prems by (cases s) auto
  next
    case False
    then obtain j where "cclass_close s = Some j" "k = Suc j" using Cons.prems by auto
    with Cons.IH show ?thesis by simp
  qed
qed simp

lemma cclass_at_mono: "cclass_at b t p = (r, q) \<Longrightarrow> p \<le> q"
  by (auto simp: cclass_at_def split: option.splits)

lemma range_start_mono: "range_start b flags t c p = Some (Some (x, f, q)) \<Longrightarrow> p \<le> q"
  by (auto simp: range_start_def parse_collsym_def Let_def bind_eq_Some_conv split: if_splits option.splits)

lemma range_end_mono: "range_end b flags t f0 p = Some (Some (x, f, q)) \<Longrightarrow> p \<le> q"
  by (auto simp: range_end_def parse_collsym_def Let_def bind_eq_Some_conv split: if_splits option.splits)

text \<open>Every element moves the pointer forward; a return gives a null pointer or the saved one.\<close>

fun moves :: "string \<Rightarrow> nat \<Rightarrow> nat \<Rightarrow> brack_step \<Rightarrow> bool" where
  "moves b sp p (BReturn r) \<longleftrightarrow> (\<forall>q. r = Some q \<longrightarrow> q = sp)"
| "moves b sp p (BNext c q) \<longleftrightarrow> p < q \<and> q \<le> Suc (length b)"
| "moves b sp p (BBreak q) \<longleftrightarrow> p < q"
| "moves b sp p (BMatched q) \<longleftrightarrow> p < q"

lemma range_test_moves: "p < q \<Longrightarrow> q \<le> Suc (length b) \<Longrightarrow> moves b sp p (range_test ar t x y f c q)"
  by (simp add: range_test_def)

lemma elem_to_moves: "elem_to ar b flags t x f p0 = Some st \<Longrightarrow> p \<le> p0 \<Longrightarrow> moves b sp p st"
  by (auto simp: elem_to_def rd_conv split: Option.bind_splits option.splits if_splits
      dest!: range_end_mono intro!: range_test_moves)

lemma elem_range_moves: "elem_range ar b flags t sp c p = Some st \<Longrightarrow> moves b sp p st"
  by (auto simp: elem_range_def bad_bracket_def rd_conv split: Option.bind_splits option.splits if_splits
      dest!: range_start_mono elim!: elem_to_moves intro!: range_test_moves)

lemma elem_class_moves: "elem_class b flags t sp p = Some st \<Longrightarrow> moves b sp p st"
  by (auto simp: elem_class_def bad_bracket_def split: Option.bind_splits prod.splits if_splits
      dest!: cclass_at_mono dest: rd_le)

lemma elem_equiv_moves: "elem_equiv ar b flags t sp p = Some st \<Longrightarrow> moves b sp p st"
  by (auto simp: elem_equiv_def bad_bracket_def split: Option.bind_splits if_splits dest: rd_le)

lemma brack_elem_moves: "brack_elem ar b flags t sp c p = Some st \<Longrightarrow> moves b sp p st"
  by (simp add: brack_elem_def elem_equiv_moves elem_class_moves elem_range_moves split: Option.bind_splits if_splits)

function brack_loop :: "bool \<Rightarrow> string \<Rightarrow> int \<Rightarrow> char \<Rightarrow> bool \<Rightarrow> nat \<Rightarrow> char \<Rightarrow> nat \<Rightarrow> nat option option" where
  "brack_loop ar b flags test neg savep c p =
     (case brack_elem ar b flags test savep c p of
        None \<Rightarrow> None
      | Some (BReturn r) \<Rightarrow> Some r
      | Some (BMatched p) \<Rightarrow> brack_matched b flags test neg savep p
      | Some (BBreak p) \<Rightarrow> Some (if neg then Some p else None)
      | Some (BNext c p) \<Rightarrow> brack_loop ar b flags test neg savep c p)"
  by pat_completeness auto
termination
  by (relation "measure (\<lambda>(ar, b, flags, test, neg, savep, c, p). Suc (length b) - p)")
    (auto dest!: brack_elem_moves)

declare brack_loop.simps [simp del]

definition brackmatch :: "bool \<Rightarrow> string \<Rightarrow> nat \<Rightarrow> char \<Rightarrow> int \<Rightarrow> nat option option" where
  "brackmatch ar b p test flags =
     do {
       let test = FOLD flags test;
       let savep = p;
       c \<leftarrow> rd b p;
       let neg = (c = CHR ''!'' \<or> c = CHR ''^'');
       let p = (if neg then Suc p else p);
       c \<leftarrow> rd b p;
       brack_loop ar b flags test neg savep c (Suc p)
     }"

text \<open>The pointer returned is never before the one given.\<close>

lemma brack_skip_ge: "brack_skip b flags t neg sp k c p = Some (Some q) \<Longrightarrow> sp \<le> p \<Longrightarrow> sp \<le> q"
proof (induction b flags t neg sp k c p rule: brack_skip.induct)
  case (1 b flags t neg sp k c p)
  show ?case
  proof (cases "k = 0 \<or> c = NUL")
    case True
    then show ?thesis using "1.prems" by (subst (asm) brack_skip.simps) (auto split: if_splits)
  next
    case False
    then have ne: "k \<noteq> 0" "c \<noteq> NUL" by auto
    show ?thesis
      using "1.prems"(1) "1.prems"(2) ne "1.IH"
      by (subst (asm) (1) brack_skip.simps) (auto split: Option.bind_splits if_splits)
  qed
qed

lemma brack_matched_ge: "brack_matched b flags t neg sp p = Some (Some q) \<Longrightarrow> sp < p \<Longrightarrow> sp \<le> q"
  by (auto simp: brack_matched_def split: Option.bind_splits dest!: brack_skip_ge)

lemma brack_loop_ge:
  "brack_loop ar b flags t neg sp c p = Some (Some q) \<Longrightarrow> sp < p \<Longrightarrow> sp \<le> q"
proof (induction ar b flags t neg sp c p rule: brack_loop.induct)
  case (1 ar b flags t neg sp c p)
  note prems = "1.prems"(1) [unfolded brack_loop.simps [of ar b flags t neg sp c p]]
  show ?case
  proof (cases "brack_elem ar b flags t sp c p")
    case None
    with prems show ?thesis by simp
  next
    case (Some st)
    note mv = brack_elem_moves [OF Some]
    show ?thesis
    proof (cases st)
      case (BReturn r)
      with prems Some mv show ?thesis by simp
    next
      case (BNext c' p')
      with mv "1.prems"(2) have "sp < p'" by simp
      with "1.IH" [OF Some BNext] prems Some BNext show ?thesis by simp
    next
      case (BBreak p')
      with prems Some mv "1.prems"(2) show ?thesis by (simp split: if_splits)
    next
      case (BMatched p')
      with prems Some mv "1.prems"(2) show ?thesis by (simp add: brack_matched_ge)
    qed
  qed
qed

lemma brackmatch_ge: "brackmatch ar b p t flags = Some (Some q) \<Longrightarrow> p \<le> q"
  by (auto simp: brackmatch_def Let_def split: Option.bind_splits if_splits dest!: brack_loop_ge)

subsection \<open>Extended patterns\<close>

text \<open>
  The scan for the end of a pattern list. The state of the loop is the depth of parentheses, whether
  it is inside a bracket expression, where that expression's first element is, and the delimiter
  of a class inside it. The outer option is a read outside the buffer, the inner one a null pointer.
\<close>

record scan =
  pnest :: int
  bnest :: bool
  skip :: bool
  cchar :: char
  bfirst :: nat

definition scan_step :: "string \<Rightarrow> char \<Rightarrow> nat \<Rightarrow> char \<Rightarrow> scan \<Rightarrow> (scan + nat)" where
  "scan_step b delim s c st =
     (if skip st then Inl (st\<lparr>skip := False\<rparr>)
      else if c = BSLASH then Inl (st\<lparr>skip := True\<rparr>)
      else if c = CHR ''['' then
        (if \<not> bnest st then
           (let f = Suc s; f = (if char_at b f \<in> set ''!^'' then Suc f else f) in Inl (st\<lparr>bfirst := f, bnest := True\<rparr>))
         else if char_at b (Suc s) \<in> set '':.='' then Inl (st\<lparr>cchar := char_at b (Suc s)\<rparr>)
         else Inl st)
      else if c = CHR '']'' then
        (if bnest st then
           (if cchar st \<noteq> NUL \<and> char_at b (s - 1) = cchar st then Inl (st\<lparr>cchar := NUL\<rparr>)
            else if s \<noteq> bfirst st then Inl (st\<lparr>bnest := False, bfirst := 0\<rparr>)
            else Inl st)
         else Inl st)
      else if c = CHR ''('' then Inl (if bnest st then st else st\<lparr>pnest := pnest st + 1\<rparr>)
      else if c = CHR '')'' then
        (if bnest st then Inl st
         else if pnest st \<le> 0 then Inr (Suc s) else Inl (st\<lparr>pnest := pnest st - 1\<rparr>))
      else if c = CHR ''|'' \<and> \<not> bnest st \<and> pnest st = 0 \<and> delim = CHR ''|'' then Inr (Suc s)
      else Inl st)"

function patscan_loop :: "string \<Rightarrow> nat \<Rightarrow> char \<Rightarrow> nat \<Rightarrow> scan \<Rightarrow> nat option option" where
  "patscan_loop b pend delim s st =
     (case rd b s of
        None \<Rightarrow> None
      | Some c \<Rightarrow>
          if c = NUL then Some None
          else if s \<ge> pend then Some (Some s)
          else
            (case scan_step b delim s c st of
               Inr q \<Rightarrow> Some (Some q)
             | Inl st \<Rightarrow> patscan_loop b pend delim (Suc s) st))"
  by pat_completeness auto
termination
  by (relation "measure (\<lambda>(b, pend, delim, s, st). Suc (length b) - s)") (auto dest: rd_le)

declare patscan_loop.simps [simp del]

definition scan_init :: scan where
  "scan_init = \<lparr>pnest = 0, bnest = False, skip = False, cchar = NUL, bfirst = 0\<rparr>"

definition glob_patscan :: "string \<Rightarrow> nat \<Rightarrow> nat \<Rightarrow> char \<Rightarrow> nat option option" where
  "glob_patscan b string pend delim =
     (if string = pend then Some None else patscan_loop b pend delim string scan_init)"

lemma scan_step_Inr: "scan_step b d s c st = Inr q \<Longrightarrow> q = Suc s"
  by (auto simp: scan_step_def Let_def split: if_splits)

lemma patscan_loop_bounds:
  "patscan_loop b pend d s st = Some (Some q) \<Longrightarrow> s \<le> q \<and> q \<le> max s pend \<and> (s < pend \<longrightarrow> s < q)"
proof (induction b pend d s st arbitrary: q rule: patscan_loop.induct)
  case (1 b pend d s st)
  show ?case
    using 1(2) 1(1) [OF _ _ _ _] by (subst (asm) patscan_loop.simps)
      (auto split: option.splits if_splits sum.splits dest: scan_step_Inr; fastforce)
qed

lemma glob_patscan_bounds:
  "glob_patscan b s pend d = Some (Some q) \<Longrightarrow> s \<le> q \<and> q \<le> max s pend \<and> (s < pend \<longrightarrow> s < q)"
  by (auto simp: glob_patscan_def split: if_splits dest: patscan_loop_bounds)

text \<open>
  The subpatterns of a list, with the end pointers \<^verbatim>\<open>pnext - 1\<close> passed to the matcher. The loops over
  them stop when the scan arrives at the end of the whole list; the flag is false when a scan instead
  returns a null pointer or cannot move on, which the loops do not survive.
\<close>

function alternatives :: "string \<Rightarrow> nat \<Rightarrow> nat \<Rightarrow> nat \<Rightarrow> (nat \<times> nat) list \<times> bool" where
  "alternatives b pe prest psub =
     (case glob_patscan b psub pe (CHR ''|'') of
        Some (Some pnext) \<Rightarrow>
          if pnext = prest then ([(psub, pnext - 1)], True)
          else if psub < pe then
            (case alternatives b pe prest pnext of (as, ok) \<Rightarrow> ((psub, pnext - 1) # as, ok))
          else ([(psub, pnext - 1)], False)
      | _ \<Rightarrow> ([], False))"
  by pat_completeness auto
termination
  by (relation "measure (\<lambda>(b, pe, prest, psub). pe - psub)") (auto dest!: glob_patscan_bounds)

declare alternatives.simps [simp del]

lemma alternatives_bounds:
  "alternatives b pe prest q = (as, ok) \<Longrightarrow> (ps, pd) \<in> set as \<Longrightarrow> pd - ps \<le> pe - q"
proof (induction b pe prest q arbitrary: as ok rule: alternatives.induct)
  case (1 b pe prest q)
  show ?case
  proof (cases "\<exists>pn. glob_patscan b q pe (CHR ''|'') = Some (Some pn)")
    case False
    then show ?thesis using "1.prems" by (subst (asm) alternatives.simps) (auto split: option.splits)
  next
    case True
    then obtain pn where pn: "glob_patscan b q pe (CHR ''|'') = Some (Some pn)" by blast
    note bd = glob_patscan_bounds [OF pn]
    show ?thesis
    proof (cases "pn \<noteq> prest \<and> q < pe")
      case False
      then show ?thesis using "1.prems" pn bd by (subst (asm) alternatives.simps) (auto split: if_splits)
    next
      case rec: True
      obtain as' ok' where r: "alternatives b pe prest pn = (as', ok')" by fastforce
      have "(ps, pd) = (q, pn - 1) \<or> (ps, pd) \<in> set as'"
        using "1.prems" pn rec r by (subst (asm) alternatives.simps) auto
      then show ?thesis
      proof
        assume "(ps, pd) = (q, pn - 1)"
        then show ?thesis using bd rec by auto
      next
        assume "(ps, pd) \<in> set as'"
        with "1.IH" [OF pn refl _ _ r] rec bd show ?thesis by fastforce
      qed
    qed
  qed
qed

definition strcompare :: "string \<Rightarrow> string \<Rightarrow> nat \<Rightarrow> nat \<Rightarrow> nat \<Rightarrow> nat \<Rightarrow> int" where
  "strcompare b str p pe s se =
     (if pe - p \<noteq> se - s then FNM_NOMATCH
      else if take (pe - p) (drop p b) = take (se - s) (drop s str) then 0 else FNM_NOMATCH)"

subsection \<open>The matcher\<close>

text \<open>The search of a loop for the first value on which a match returns 0.\<close>

fun any_zero :: "('a \<Rightarrow> int option) \<Rightarrow> 'a list \<Rightarrow> bool option" where
  "any_zero f [] = Some False"
| "any_zero f (x # xs) = (case f x of None \<Rightarrow> None | Some r \<Rightarrow> if r = 0 then Some True else any_zero f xs)"

lemma any_zero_cong [fundef_cong]:
  "xs = ys \<Longrightarrow> (\<And>x. x \<in> set ys \<Longrightarrow> f x = g x) \<Longrightarrow> any_zero f xs = any_zero g ys"
  by (induction xs arbitrary: ys) (auto split: option.splits)

definition paren_at :: "string \<Rightarrow> int \<Rightarrow> nat \<Rightarrow> bool option" where
  "paren_at b flags p = (if flags AND FNM_EXTMATCH = 0 then Some False else do { c \<leftarrow> rd b p; Some (c = CHR ''('') })"

definition str_at :: "string \<Rightarrow> nat \<Rightarrow> nat \<Rightarrow> char option" where
  "str_at str n se = (if n < se then rd str n else Some NUL)"

text \<open>A dot that a wildcard must not match: at the start of the string, or after a slash.\<close>

definition leading_dot :: "string \<Rightarrow> int \<Rightarrow> nat \<Rightarrow> nat \<Rightarrow> char \<Rightarrow> bool option" where
  "leading_dot str flags string n sc =
     (if flags AND FNM_PERIOD \<noteq> 0 \<and> sc = CHR ''.'' then
        (if n = string then Some True
         else if flags AND FNM_PATHNAME \<noteq> 0 then do { c \<leftarrow> rd str (n - 1); Some (c = CHR ''/'') }
         else Some False)
      else Some False)"

definition xflags :: "int \<Rightarrow> bool \<Rightarrow> int" where
  "xflags flags moved = (if moved then flags AND NOT FNM_PERIOD else flags)"

text \<open>The test that saves a recursive call when the first character cannot match.\<close>

definition first_char_differs :: "string \<Rightarrow> int \<Rightarrow> char \<Rightarrow> char \<Rightarrow> nat \<Rightarrow> char \<Rightarrow> bool option" where
  "first_char_differs b flags c c1 p d =
     (if flags AND FNM_EXTMATCH = 0 then Some (c \<noteq> CHR ''['' \<and> FOLD flags d \<noteq> c1)
      else do {
        q \<leftarrow> rd b (Suc p);
        Some (q \<noteq> CHR ''('' \<and> c \<notin> set (NUL # ''?*+@!'') \<and> c \<noteq> CHR ''['' \<and> FOLD flags d \<noteq> c1)
      })"

lemma lex_fst: "a' < a \<Longrightarrow> a' < a \<or> a' = a \<and> P" for a :: nat
  by simp

lemma lex_thd: "a' \<le> a \<Longrightarrow> b' \<le> b \<Longrightarrow> c' < c \<Longrightarrow> a' < a \<or> a' = a \<and> (b' < b \<or> b' = b \<and> (c' < c \<or> Q))" for a b c :: nat
  by auto

lemma ext_rest:
  fixes s s' se :: nat
  assumes "glob_patscan b (if P then Suc p else p) pe d = Some (Some q)" and "s' \<in> set [(if R then se else s)..<Suc se]"
  shows "se - s' < se - s \<or> se - s' = se - s \<and> (pe - q < pe - p \<or> pe - q = pe - p \<and> (0 < (1 :: nat) \<or> Q))"
  using glob_patscan_bounds [OF assms(1)] assms(2) by - (rule lex_thd; auto split: if_splits)

lemma ext_here:
  fixes s se :: nat
  assumes "glob_patscan b (if P then Suc p else p) pe d = Some (Some q)"
  shows "se - s < se - s \<or> se - s = se - s \<and> (pe - q < pe - p \<or> pe - q = pe - p \<and> (0 < (1 :: nat) \<or> Q))"
  using glob_patscan_bounds [OF assms(1)] by - (rule lex_thd; auto split: if_splits)

lemma ext_again:
  fixes s s' se :: nat
  assumes "s' \<in> set [s..<Suc se]" and "s < s'"
  shows "se - s' < se - s \<or> se - s' = se - s \<and> Q"
  using assms by auto

lemma ext_sub:
  fixes s s' se :: nat
  assumes "(as, ok) = alternatives b pe q (Suc p)" and "x \<in> set as" and "(u, v) = x" and "s' \<in> set [a..<Suc se]"
  shows "(case x of (p, pe) \<Rightarrow> s' - s) < se - s \<or> (case x of (p, pe) \<Rightarrow> s' - s) = se - s \<and>
    ((case x of (p, pe) \<Rightarrow> pe - p) < pe - p \<or> (case x of (p, pe) \<Rightarrow> pe - p) = pe - p \<and>
     ((case x of (p, pe) \<Rightarrow> 0) < (1 :: nat) \<or> Q))"
proof -
  have "(u, v) \<in> set as" "s' \<le> se" using assms(2-4) by (simp_all only: set_upt atLeastLessThan_iff less_Suc_eq_le)
  with alternatives_bounds [OF assms(1) [symmetric], of u v] assms(3) show ?thesis by - (rule lex_thd; auto)
qed

lemmas ext_rest_from = ext_rest [where R = False, unfolded if_False]

function
  gmatch :: "bool \<Rightarrow> string \<Rightarrow> string \<Rightarrow> int \<Rightarrow> nat \<Rightarrow> nat \<Rightarrow> nat \<Rightarrow> nat \<Rightarrow> nat \<Rightarrow> int option" and
  star_loop :: "bool \<Rightarrow> string \<Rightarrow> string \<Rightarrow> int \<Rightarrow> nat \<Rightarrow> nat \<Rightarrow> nat \<Rightarrow> nat \<Rightarrow> char \<Rightarrow> int option" and
  extmatch :: "bool \<Rightarrow> string \<Rightarrow> string \<Rightarrow> char \<Rightarrow> nat \<Rightarrow> nat \<Rightarrow> nat \<Rightarrow> nat \<Rightarrow> int \<Rightarrow> int option" where
  "gmatch ar b str flags string n se p pe =
     (if \<not> p < pe then
        (if n = se then Some 0
         else if flags AND FNM_LEADING_DIR = 0 then Some FNM_NOMATCH
         else do { d \<leftarrow> rd str n; Some (if d = CHR ''/'' then 0 else FNM_NOMATCH) })
      else do {
        c \<leftarrow> rd b p;
        let c = FOLD flags c;
        sc \<leftarrow> str_at str n se;
        ext \<leftarrow> paren_at b flags (Suc p);
        if ext \<and> c \<in> set ''+*?@!'' then
          extmatch ar b str c n se (Suc p) pe (xflags flags (n \<noteq> string))
        else if c = CHR ''?'' then
          (if sc = NUL then Some FNM_NOMATCH
           else if flags AND FNM_PATHNAME \<noteq> 0 \<and> sc = CHR ''/'' then Some FNM_NOMATCH
           else do {
             dot \<leftarrow> leading_dot str flags string n sc;
             if dot then Some FNM_NOMATCH else gmatch ar b str flags string (Suc n) se (Suc p) pe
           })
        else if c = BSLASH then
          (if Suc p = pe then Some FNM_NOMATCH
           else if flags AND FNM_NOESCAPE = 0 then do {
             c \<leftarrow> rd b (Suc p);
             if FOLD flags sc \<noteq> FOLD flags c then Some FNM_NOMATCH
             else gmatch ar b str flags string (Suc n) se (p + 2) pe
           }
           else if FOLD flags sc \<noteq> c then Some FNM_NOMATCH
           else gmatch ar b str flags string (Suc n) se (Suc p) pe)
        else if c = CHR ''*'' then
          (if Suc p = pe then Some 0
           else do {
             dot \<leftarrow> leading_dot str flags string n sc;
             if dot then Some FNM_NOMATCH else star_loop ar b str flags n se (Suc p) pe sc
           })
        else if c = CHR ''['' then
          (if sc = NUL \<or> n = se then Some FNM_NOMATCH
           else do {
             dot \<leftarrow> leading_dot str flags string n sc;
             if dot then Some FNM_NOMATCH
             else do {
               r \<leftarrow> brackmatch ar b (Suc p) sc flags;
               (case r of
                  None \<Rightarrow> Some FNM_NOMATCH
                | Some q \<Rightarrow> gmatch ar b str flags string (Suc n) se q pe)
             }
           })
        else if c \<noteq> FOLD flags sc then Some FNM_NOMATCH
        else gmatch ar b str flags string (Suc n) se (Suc p) pe
      })"
| "star_loop ar b str flags n se p pe sc =
     do {
       c \<leftarrow> rd b p;
       paren \<leftarrow> (if c = NUL then Some False else paren_at b flags (Suc p));
       if c = CHR ''?'' \<or> c = CHR ''*'' then
         (if flags AND FNM_PATHNAME \<noteq> 0 \<and> sc = CHR ''/'' then Some FNM_NOMATCH
          else if paren \<and> c = CHR ''?'' then do {
            r \<leftarrow> any_zero (\<lambda>newn. extmatch ar b str c newn se (Suc p) pe flags) [n..<se];
            Some 0
          }
          else if c = CHR ''?'' \<and> sc = NUL then Some FNM_NOMATCH
          else do {
            let n = (if c = CHR ''?'' then Suc n else n);
            sc \<leftarrow> (if c = CHR ''?'' then str_at str n se else Some sc);
            if paren \<and> c = CHR ''*'' then do {
              r \<leftarrow> any_zero (\<lambda>newn. extmatch ar b str c newn se (Suc p) pe flags) [n..<se];
              if r then Some 0
              else do {
                newp \<leftarrow> glob_patscan b (p + 2) pe NUL;
                (case newp of
                   None \<Rightarrow> Some 0
                 | Some q \<Rightarrow> if q = pe then Some 0 else star_loop ar b str flags n se q pe sc)
              }
            }
            else if Suc p = pe then Some 0
            else star_loop ar b str flags n se (Suc p) pe sc
          })
       else if paren \<and> n = se \<and> c = CHR ''!'' then do {
         r \<leftarrow> extmatch ar b str c n se p pe flags;
         Some (if r = 0 then FNM_NOMATCH else 0)
       }
       else do {
         c1 \<leftarrow> (if flags AND FNM_NOESCAPE = 0 \<and> c = BSLASH then rd b (Suc p) else Some c);
         r \<leftarrow> any_zero (\<lambda>n.
           do {
             d \<leftarrow> rd str n;
             skip \<leftarrow> first_char_differs b flags c (FOLD flags c1) p d;
             if skip then Some FNM_NOMATCH
             else gmatch ar b str (flags AND NOT FNM_PERIOD) n n se p pe
           }) [n..<se];
         Some (if r then 0 else FNM_NOMATCH)
       }
     }"
| "extmatch ar b str xc s se p pe flags =
     do {
       c \<leftarrow> rd b p;
       r \<leftarrow> glob_patscan b (if c = CHR ''('' then Suc p else p) pe NUL;
       (case r of
          None \<Rightarrow> Some (strcompare b str (p - 1) pe s se)
        | Some prest \<Rightarrow>
            (case alternatives b pe prest (Suc p) of
               (as, ok) \<Rightarrow>
                 if xc = CHR ''+'' \<or> xc = CHR ''*'' then do {
                   none \<leftarrow> (if xc = CHR ''*'' then gmatch ar b str flags s s se prest pe else Some FNM_NOMATCH);
                   if none = 0 then Some 0
                   else do {
                     r \<leftarrow> any_zero (\<lambda>(psub, pend).
                       do {
                         m \<leftarrow> any_zero (\<lambda>srest.
                           do {
                             m1 \<leftarrow> gmatch ar b str flags s s srest psub pend;
                             if m1 \<noteq> 0 then Some FNM_NOMATCH
                             else do {
                               m2 \<leftarrow> gmatch ar b str (xflags flags (s < srest)) srest srest se prest pe;
                               if m2 = 0 then Some 0
                               else if s < srest then gmatch ar b str (xflags flags (s < srest)) srest srest se (p - 1) pe
                               else Some FNM_NOMATCH
                             }
                           }) [s..<Suc se];
                         Some (if m then 0 else FNM_NOMATCH)
                       }) as;
                     if r then Some 0 else if ok then Some FNM_NOMATCH else None
                   }
                 }
                 else if xc = CHR ''?'' \<or> xc = CHR ''@'' then do {
                   none \<leftarrow> (if xc = CHR ''?'' then gmatch ar b str flags s s se prest pe else Some FNM_NOMATCH);
                   if none = 0 then Some 0
                   else do {
                     r \<leftarrow> any_zero (\<lambda>(psub, pend).
                       do {
                         m \<leftarrow> any_zero (\<lambda>srest.
                           do {
                             m1 \<leftarrow> gmatch ar b str flags s s srest psub pend;
                             if m1 \<noteq> 0 then Some FNM_NOMATCH
                             else gmatch ar b str (xflags flags (s < srest)) srest srest se prest pe
                           }) [(if prest = pe then se else s)..<Suc se];
                         Some (if m then 0 else FNM_NOMATCH)
                       }) as;
                     if r then Some 0 else if ok then Some FNM_NOMATCH else None
                   }
                 }
                 else if xc = CHR ''!'' then do {
                   r \<leftarrow> any_zero (\<lambda>srest.
                     do {
                       m1 \<leftarrow> any_zero (\<lambda>(psub, pend). gmatch ar b str flags s s srest psub pend) as;
                       if m1 then Some FNM_NOMATCH
                       else if \<not> ok then None
                       else gmatch ar b str (xflags flags (s < srest)) srest srest se prest pe
                     }) [s..<Suc se];
                   Some (if r then 0 else FNM_NOMATCH)
                 }
                 else Some FNM_NOMATCH))
     }"
  by pat_completeness auto
termination
  apply (relation "measures
    [\<lambda>x. case x of Inl (ar, b, str, flags, string, n, se, p, pe) \<Rightarrow> se - n
       | Inr (Inl (ar, b, str, flags, n, se, p, pe, sc)) \<Rightarrow> se - n
       | Inr (Inr (ar, b, str, xc, s, se, p, pe, flags)) \<Rightarrow> se - s,
     \<lambda>x. case x of Inl (ar, b, str, flags, string, n, se, p, pe) \<Rightarrow> pe - p
       | Inr (Inl (ar, b, str, flags, n, se, p, pe, sc)) \<Rightarrow> pe - p
       | Inr (Inr (ar, b, str, xc, s, se, p, pe, flags)) \<Rightarrow> pe - p,
     \<lambda>x. case x of Inl (ar, b, str, flags, string, n, se, p, pe) \<Rightarrow> 0
       | Inr (Inl (ar, b, str, flags, n, se, p, pe, sc)) \<Rightarrow> length b + 3 - p
       | Inr (Inr (ar, b, str, xc, s, se, p, pe, flags)) \<Rightarrow> 1]")
  apply (simp_all only: in_measures sum.case prod.case wf_measures rd_conv)
  apply (arith | (drule brackmatch_ge, arith))+
  apply ((rule lex_fst; auto; fail)[1] | (rule lex_thd; auto; fail)[1]
    | (drule glob_patscan_bounds, rule lex_thd; auto; fail)[1])+
  apply (erule ext_here)
  apply (erule (3) ext_sub)
  apply (erule (1) ext_rest_from)
  apply (erule (1) ext_again)
  apply (erule ext_here)
  apply (erule (3) ext_sub)
  apply (erule (1) ext_rest)
  apply (erule (3) ext_sub)
  apply (erule (1) ext_rest_from)
  done

declare gmatch.simps [simp del] star_loop.simps [simp del] extmatch.simps [simp del]

text \<open>In a single-byte locale \<^verbatim>\<open>xstrmatch\<close> calls \<open>internal_strmatch\<close>.\<close>

definition internal_strmatch :: "bool \<Rightarrow> string option \<Rightarrow> string option \<Rightarrow> int \<Rightarrow> int option" where
  "internal_strmatch ar pattern string flags =
     (case (pattern, string) of
        (Some b, Some str) \<Rightarrow> gmatch ar b str flags 0 0 (length str) 0 (length b)
      | _ \<Rightarrow> Some FNM_NOMATCH)"

definition xstrmatch :: "bool \<Rightarrow> string option \<Rightarrow> string option \<Rightarrow> int \<Rightarrow> int option" where
  "xstrmatch ar pattern string flags = internal_strmatch ar pattern string flags"

definition strmatch :: "bool \<Rightarrow> string option \<Rightarrow> string option \<Rightarrow> int \<Rightarrow> int option" where
  "strmatch ar pattern string flags =
     (if string = None \<or> pattern = None then Some FNM_NOMATCH else xstrmatch ar pattern string flags)"

subsection \<open>Helpers for substring matching\<close>

definition extglob_pattern_p :: "string \<Rightarrow> bool" where
  "extglob_pattern_p pat \<longleftrightarrow> char_at pat 0 \<in> set ''*+!@?'' \<and> char_at pat 1 = CHR ''(''"

definition match_pattern_char :: "string \<Rightarrow> string \<Rightarrow> bool" where
  "match_pattern_char pat string =
     (if char_at string 0 = NUL then False
      else
        let c = char_at pat 0; d = char_at pat 1
        in if c = BSLASH then char_at string 0 = d
           else if c = CHR ''?'' then (if d = CHR ''('' then True else char_at string 0 \<noteq> NUL)
           else if c = CHR ''*'' then True
           else if c \<in> set ''+!@'' then (if d = CHR ''('' then True else char_at string 0 = c)
           else if c = CHR ''['' then char_at string 0 \<noteq> NUL
           else char_at string 0 = c)"

text \<open>
  The scan of a bracket expression by \<open>umatchlen\<close>, with the character \<^verbatim>\<open>c\<close> already read: the length
  added, and what follows the expression. The flags that say which kind of class the scan is in
  are kept from one expression to the next, as the code does.
\<close>

record umstate =
  in_cclass :: bool
  in_collsym :: bool
  in_equiv :: bool

definition umatch_elem :: "char \<Rightarrow> string \<Rightarrow> int \<Rightarrow> umstate \<Rightarrow> (string \<times> int \<times> umstate) option" where
  "umatch_elem c pat bracklen st =
     (let d = char_at pat 0
      in if c = BSLASH then
           (if d = NUL \<or> char_at pat 1 = NUL then None else Some (drop 1 pat, bracklen + 1, st))
         else if c = CHR ''['' \<and> d = CHR '':'' then Some (drop 1 pat, bracklen + 1, st\<lparr>in_cclass := True\<rparr>)
         else if in_cclass st \<and> c = CHR '':'' \<and> d = CHR '']'' then Some (drop 1 pat, bracklen + 1, st\<lparr>in_cclass := False\<rparr>)
         else if c = CHR ''['' \<and> d = CHR ''.'' then
           Some (if char_at pat 1 = CHR '']'' then (drop 2 pat, bracklen + 2, st\<lparr>in_collsym := True\<rparr>)
                 else (drop 1 pat, bracklen + 1, st\<lparr>in_collsym := True\<rparr>))
         else if in_collsym st \<and> c = CHR ''.'' \<and> d = CHR '']'' then Some (drop 1 pat, bracklen + 1, st\<lparr>in_collsym := False\<rparr>)
         else if c = CHR ''['' \<and> d = CHR ''='' then
           Some (if char_at pat 1 = CHR '']'' then (drop 2 pat, bracklen + 2, st\<lparr>in_equiv := True\<rparr>)
                 else (drop 1 pat, bracklen + 1, st\<lparr>in_equiv := True\<rparr>))
         else if in_equiv st \<and> c = CHR ''='' \<and> d = CHR '']'' then Some (drop 1 pat, bracklen + 1, st\<lparr>in_equiv := False\<rparr>)
         else Some (pat, bracklen + 1, st))"

lemma umatch_elem_length: "umatch_elem c pat n st = Some (pat', n', st') \<Longrightarrow> length pat' \<le> length pat"
  by (auto simp: umatch_elem_def Let_def split: if_splits)

function umatch_bracket :: "char \<Rightarrow> string \<Rightarrow> int \<Rightarrow> umstate \<Rightarrow> int \<times> string \<times> umstate" where
  "umatch_bracket c pat bracklen st =
     (if c = NUL then (bracklen, [], st)
      else
        (case umatch_elem c pat bracklen st of
           None \<Rightarrow> (bracklen + 1, [], st)
         | Some ([], bracklen, st) \<Rightarrow> (bracklen, [], st)
         | Some (d # rest, bracklen, st) \<Rightarrow>
             if d = CHR '']'' then (1, rest, st) else umatch_bracket d rest bracklen st))"
  by pat_completeness auto
termination
  by (relation "measure (\<lambda>(c, pat, n, st). length pat)") (auto dest!: umatch_elem_length)

declare umatch_bracket.simps [simp del]

lemma umatch_bracket_length: "umatch_bracket c pat n st = (m, rest, st') \<Longrightarrow> length rest \<le> length pat"
proof (induction c pat n st arbitrary: m rest st' rule: umatch_bracket.induct)
  case (1 c pat n st)
  note prems = "1.prems" [unfolded umatch_bracket.simps [of c pat n st]]
  show ?case
  proof (cases "c \<noteq> NUL \<and> (\<exists>d p' n' st1. umatch_elem c pat n st = Some (d # p', n', st1) \<and> d \<noteq> CHR '']'')")
    case True
    then obtain d p' n' st1 where el: "c \<noteq> NUL" "umatch_elem c pat n st = Some (d # p', n', st1)" "d \<noteq> CHR '']''" by blast
    with prems have "umatch_bracket d p' n' st1 = (m, rest, st')" by simp
    from "1.IH" [OF el(1,2) refl refl refl el(3) this] umatch_elem_length [OF el(2)] show ?thesis by simp
  next
    case False
    then show ?thesis
      using prems by (auto split: if_splits option.splits list.splits dest!: umatch_elem_length)
  qed
qed

function umatchlen_loop :: "string \<Rightarrow> int \<Rightarrow> umstate \<Rightarrow> int" where
  "umatchlen_loop [] matlen st = matlen"
| "umatchlen_loop (c # pat) matlen st =
     (if c = NUL then matlen
      else if c = BSLASH then
        (case pat of [] \<Rightarrow> matlen + 1 | d # rest \<Rightarrow> umatchlen_loop rest (matlen + 1) st)
      else if c = CHR ''?'' \<or> c \<in> set ''+!@'' then
        (if char_at pat 0 = CHR ''('' then -1 else umatchlen_loop pat (matlen + 1) st)
      else if c = CHR ''*'' then -1
      else if c = CHR ''['' then
        (case umatch_bracket (char_at pat 0) (drop 1 pat) 1 st of
           (n, rest, st) \<Rightarrow> umatchlen_loop rest (matlen + n) st)
      else umatchlen_loop pat (matlen + 1) st)"
  by pat_completeness auto
termination
  by (relation "measure (\<lambda>(pat, n, st). length pat)") (auto dest!: umatch_bracket_length [OF sym])

definition umatchlen :: "string \<Rightarrow> int" where
  "umatchlen pat = umatchlen_loop pat 0 \<lparr>in_cclass = False, in_collsym = False, in_equiv = False\<rparr>"

end
