(* ===== verification/GlobSpec.thy ===== *)
theory GlobSpec
  imports Glob
begin

text \<open>
  What the pattern matcher computes. Patterns are trees with a meaning as sets of strings, and a
  spelling in the syntax the matcher reads, in which every character that could be special is
  written with a backslash. The matcher decides membership of the string in the meaning of the
  pattern, for ordinary patterns and for the extended ones, except where it is documented otherwise.
\<close>

subsection \<open>Patterns, their spelling and their meaning\<close>

datatype brack = BChar char | BRange char char | BClass char_class

datatype xop = XOpt | XMany | XSome | XOne | XNot

datatype gpat = GLit char | GAny | GStar | GSet bool "brack list" | GExt xop "gpat list list"

definition specials :: string where
  "specials = BSLASH # ''*?[]+@!()|^-''"

definition spell_char :: "char \<Rightarrow> string" where
  "spell_char c = (if c \<in> set specials then [BSLASH, c] else [c])"

fun class_name :: "char_class \<Rightarrow> string" where
  "class_name CC_ASCII = ''ascii''" | "class_name CC_ALNUM = ''alnum''" | "class_name CC_ALPHA = ''alpha''"
| "class_name CC_BLANK = ''blank''" | "class_name CC_CNTRL = ''cntrl''" | "class_name CC_DIGIT = ''digit''"
| "class_name CC_GRAPH = ''graph''" | "class_name CC_LOWER = ''lower''" | "class_name CC_PRINT = ''print''"
| "class_name CC_PUNCT = ''punct''" | "class_name CC_SPACE = ''space''" | "class_name CC_UPPER = ''upper''"
| "class_name CC_WORD = ''word''" | "class_name CC_XDIGIT = ''xdigit''"

fun spell_brack :: "brack \<Rightarrow> string" where
  "spell_brack (BChar c) = spell_char c"
| "spell_brack (BRange x y) = spell_char x @ ''-'' @ spell_char y"
| "spell_brack (BClass k) = ''[:'' @ class_name k @ '':]''"

fun xchar :: "xop \<Rightarrow> char" where
  "xchar XOpt = CHR ''?''" | "xchar XMany = CHR ''*''" | "xchar XSome = CHR ''+''"
| "xchar XOne = CHR ''@''" | "xchar XNot = CHR ''!''"

fun bars :: "string list \<Rightarrow> string" where
  "bars [] = []"
| "bars [s] = s"
| "bars (s # t # ss) = s @ ''|'' @ bars (t # ss)"

fun spell :: "gpat \<Rightarrow> string" where
  "spell (GLit c) = spell_char c"
| "spell GAny = ''?''"
| "spell GStar = ''*''"
| "spell (GSet neg items) = ''['' @ (if neg then ''!'' else []) @ concat (map spell_brack items) @ '']''"
| "spell (GExt x alts) = xchar x # ''('' @ bars (map (\<lambda>alt. concat (map spell alt)) alts) @ '')''"

abbreviation spells :: "gpat list \<Rightarrow> string" where
  "spells ps \<equiv> concat (map spell ps)"

text \<open>Membership in a bracket expression; the character tested has been folded already.\<close>

fun in_brack :: "int \<Rightarrow> char \<Rightarrow> brack \<Rightarrow> bool" where
  "in_brack f t (BChar c) \<longleftrightarrow> t = FOLD f c"
| "in_brack f t (BRange x y) \<longleftrightarrow> uchar (FOLD f x) \<le> uchar t \<and> uchar t \<le> uchar (FOLD f y)"
| "in_brack f t (BClass k) \<longleftrightarrow> in_class k t"

definition conc :: "string set \<Rightarrow> string set \<Rightarrow> string set" where
  "conc A B = {u @ v | u v. u \<in> A \<and> v \<in> B}"

inductive_set kstar :: "string set \<Rightarrow> string set" for A where
  kstar_Nil: "[] \<in> kstar A"
| kstar_step: "u \<in> A \<Longrightarrow> v \<in> kstar A \<Longrightarrow> u @ v \<in> kstar A"

fun xlang :: "xop \<Rightarrow> string set \<Rightarrow> string set" where
  "xlang XOpt A = insert [] A"
| "xlang XMany A = kstar A"
| "xlang XSome A = conc A (kstar A)"
| "xlang XOne A = A"
| "xlang XNot A = - A"

fun lang :: "int \<Rightarrow> gpat \<Rightarrow> string set" where
  "lang f (GLit c) = {[d] | d. FOLD f d = FOLD f c}"
| "lang f GAny = {[d] | d. True}"
| "lang f GStar = UNIV"
| "lang f (GSet neg items) = {[d] | d. (\<exists>it \<in> set items. in_brack f (FOLD f d) it) \<noteq> neg}"
| "lang f (GExt x alts) = xlang x (\<Union> (set (map (\<lambda>alt. foldr conc (map (lang f) alt) {[]}) alts)))"

abbreviation langs :: "int \<Rightarrow> gpat list \<Rightarrow> string set" where
  "langs f ps \<equiv> foldr conc (map (lang f) ps) {[]}"

text \<open>
  Patterns the theorem is about: no null characters, bracket expressions and lists of alternatives
  that are not empty, and no star that an extended pattern follows, where the matcher does
  something else. A range that ends in an opening bracket is left out because the matcher takes a
  dot after that bracket, although it is escaped, for the start of a collating symbol.
\<close>

fun wf_brack :: "brack \<Rightarrow> bool" where
  "wf_brack (BChar c) \<longleftrightarrow> c \<noteq> NUL"
| "wf_brack (BRange x y) \<longleftrightarrow> x \<noteq> NUL \<and> y \<noteq> NUL \<and> y \<noteq> CHR ''[''"
| "wf_brack (BClass k) \<longleftrightarrow> True"

fun ext_next :: "gpat list \<Rightarrow> bool" where
  "ext_next (GExt x alts # ps) = True"
| "ext_next (GAny # ps) = ext_next ps"
| "ext_next (GStar # ps) = ext_next ps"
| "ext_next ps = False"

fun star_ok :: "gpat list \<Rightarrow> bool" where
  "star_ok [] = True"
| "star_ok (GStar # ps) = (\<not> ext_next ps \<and> star_ok ps)"
| "star_ok (p # ps) = star_ok ps"

fun wf_pat :: "bool \<Rightarrow> gpat \<Rightarrow> bool" where
  "wf_pat ext (GLit c) \<longleftrightarrow> c \<noteq> NUL"
| "wf_pat ext (GSet neg items) \<longleftrightarrow> items \<noteq> [] \<and> list_all wf_brack items"
| "wf_pat ext (GExt x alts) \<longleftrightarrow> ext \<and> alts \<noteq> [] \<and> list_all (\<lambda>alt. star_ok alt \<and> list_all (wf_pat ext) alt) alts"
| "wf_pat ext p \<longleftrightarrow> True"

definition wf_pats :: "bool \<Rightarrow> gpat list \<Rightarrow> bool" where
  "wf_pats ext ps \<longleftrightarrow> star_ok ps \<and> list_all (wf_pat ext) ps"

declare char_at_nth [simp]

subsection \<open>Bracket expressions\<close>

lemma FOLD_special [simp]: "c \<in> set specials \<Longrightarrow> FOLD f c = c"
  by (auto simp: specials_def FOLD_def TOLOWER_def ISUPPER_def uchar_def)

lemma rangecmp_eq: "rangecmp ar c d fc = uchar c - uchar d"
  by (simp add: rangecmp_def Let_def)

lemma uchar_inject [simp]: "uchar c = uchar d \<longleftrightarrow> c = d"
  by (simp add: uchar_def)

lemma uchar_range: "0 \<le> uchar c \<and> uchar c < 256"
  using of_char_of [of "of_char c :: nat"] by (simp add: uchar_def) 

lemma uchar_char_of_mod: "uchar (char_of n) = int (n mod 256)"
  by (simp add: uchar_def)

lemma FOLD_FOLD [simp]: "FOLD f (FOLD f c) = FOLD f c"
  by (auto simp: FOLD_def TOLOWER_def ISUPPER_def uchar_char_of_mod)

text \<open>Skipping: a spelled character is passed over, whatever it is.\<close>

definition passes :: "string \<Rightarrow> int \<Rightarrow> nat \<Rightarrow> nat \<Rightarrow> nat \<Rightarrow> nat \<Rightarrow> bool" where
  "passes b flags k p k' p' \<longleftrightarrow>
     (\<forall>t neg sp c. c \<noteq> NUL \<longrightarrow>
        (\<exists>c'. c' \<noteq> NUL \<and> brack_skip b flags t neg sp k c p = brack_skip b flags t neg sp k' c' p'))"

lemma passes_trans: "passes b flags k p k' p' \<Longrightarrow> passes b flags k' p' k'' p'' \<Longrightarrow> passes b flags k p k'' p''"
  unfolding passes_def by metis

lemma passes_refl: "passes b flags k p k p"
  unfolding passes_def by blast

lemma passes_plain:
  assumes "0 < k" and "text_at b p [x]" and "x \<notin> set (BSLASH # ''[]'')" and "x \<noteq> NUL"
  shows "passes b flags k p k (Suc p)"
  unfolding passes_def using assms
  by (auto simp: brack_skip.simps [of b flags _ _ _ k _ p] intro!: exI [of _ x])

lemma passes_escaped:
  assumes "0 < k" and "text_at b p [BSLASH, x]" and "x \<noteq> NUL" and "flags AND FNM_NOESCAPE = 0"
  shows "passes b flags k p k (p + 2)"
  unfolding passes_def using assms
  by (auto simp: brack_skip.simps [of b flags _ _ _ k _ p] intro!: exI [of _ BSLASH])

lemma passes_char:
  assumes "0 < k" and "text_at b p (spell_char x)" and "x \<noteq> NUL" and "flags AND FNM_NOESCAPE = 0"
  shows "passes b flags k p k (p + length (spell_char x))"
  using assms passes_plain [OF assms(1), of b p x] passes_escaped [OF assms(1), of b p x]
  by (auto simp: spell_char_def specials_def split: if_splits)

lemma passes_text:
  assumes "0 < k" and "text_at b p s" and "set s \<inter> set (BSLASH # ''[]'') = {}" and "NUL \<notin> set s"
  shows "passes b flags k p k (p + length s)"
  using assms
proof (induction s arbitrary: p)
  case (Cons x s)
  then have "passes b flags k p k (Suc p)" by (intro passes_plain [where x = x]) auto
  moreover have "passes b flags k (Suc p) k (Suc p + length s)" using Cons.prems by (intro Cons.IH) auto
  ultimately show ?case by (auto intro: passes_trans)
qed (simp add: passes_refl)

lemma class_name_plain: "set (class_name k) \<inter> set specials = {} \<and> NUL \<notin> set (class_name k) \<and> CHR '':'' \<notin> set (class_name k)"
  by (cases k) (auto simp: specials_def)

lemma passes_open:
  assumes "0 < k" and "text_at b p ''[:''" shows "passes b flags k p (Suc k) (Suc p)"
  unfolding passes_def using assms
  by (auto simp: brack_skip.simps [of b flags _ _ _ k _ p] intro!: exI [of _ "CHR ''[''"])

lemma passes_close:
  assumes "0 < k" and "text_at b p '']''" shows "passes b flags k p (k - 1) (Suc p)"
  unfolding passes_def using assms
  by (auto simp: brack_skip.simps [of b flags _ _ _ k _ p] intro!: exI [of _ "CHR '']''"])

lemma passes_item:
  assumes "0 < k" and "text_at b p (spell_brack it)" and "wf_brack it" and "flags AND FNM_NOESCAPE = 0"
  shows "passes b flags k p k (p + length (spell_brack it))"
proof (cases it)
  case (BChar c)
  then show ?thesis using assms by (auto intro: passes_char)
next
  case (BRange x y)
  let ?q = "p + length (spell_char x)"
  have "passes b flags k p k ?q" using assms BRange by (intro passes_char) auto
  moreover have "passes b flags k ?q k (?q + length ''-'')" using assms BRange by (intro passes_text) auto
  moreover have "passes b flags k (?q + length ''-'') k (?q + length ''-'' + length (spell_char y))"
    using assms BRange by (intro passes_char) auto
  ultimately have "passes b flags k p k (?q + length ''-'' + length (spell_char y))" by (blast intro: passes_trans)
  then show ?thesis using BRange by (simp add: add.assoc)
next
  case (BClass c)
  let ?m = "'':'' @ class_name c @ '':''"
  have "passes b flags k p (Suc k) (Suc p)" using assms BClass by (intro passes_open) auto
  moreover have "passes b flags (Suc k) (Suc p) (Suc k) (Suc p + length ?m)"
    using assms BClass class_name_plain [of c] by (intro passes_text) (auto simp: specials_def)
  moreover have "passes b flags (Suc k) (Suc p + length ?m) (Suc k - 1) (Suc (Suc p + length ?m))"
    using assms BClass by (intro passes_close) auto
  ultimately have "passes b flags k p k (Suc (Suc p + length ?m))" by (metis diff_Suc_1 passes_trans)
  then show ?thesis using BClass by (simp add: add.assoc)
qed

lemma passes_items:
  assumes "0 < k" and "text_at b p (concat (map spell_brack items))" and "list_all wf_brack items"
    and "flags AND FNM_NOESCAPE = 0"
  shows "passes b flags k p k (p + length (concat (map spell_brack items)))"
  using assms
proof (induction items arbitrary: p)
  case (Cons it items)
  then have "passes b flags k p k (p + length (spell_brack it))" by (intro passes_item) auto
  moreover have "passes b flags k (p + length (spell_brack it)) k
      (p + length (spell_brack it) + length (concat (map spell_brack items)))" using Cons.prems by (intro Cons.IH) auto
  ultimately show ?case by (auto intro: passes_trans simp: add.assoc)
qed (simp add: passes_refl)

lemma brack_matched_items:
  assumes "text_at b p (concat (map spell_brack items) @ '']'')" and "list_all wf_brack items"
    and "flags AND FNM_NOESCAPE = 0" and "char_at b p \<noteq> NUL"
  shows "brack_matched b flags t neg sp (Suc p) =
    Some (if neg then None else Some (Suc (p + length (concat (map spell_brack items)))))"
proof -
  let ?q = "p + length (concat (map spell_brack items))"
  have "passes b flags 1 p 1 ?q" using assms by (intro passes_items) auto
  moreover have "passes b flags 1 ?q (1 - 1) (Suc ?q)" using assms by (intro passes_close) auto
  ultimately have "passes b flags 1 p 0 (Suc ?q)" by (metis diff_self_eq_0 passes_trans)
  then obtain c' where "brack_skip b flags t neg sp 1 (char_at b p) p = brack_skip b flags t neg sp 0 c' (Suc ?q)"
    using assms(4) unfolding passes_def by blast
  moreover have "p \<le> length b" using assms(1) by (auto dest: text_at_le)
  ultimately show ?thesis by (simp add: brack_matched_def brack_skip.simps [of b flags t neg sp 0])
qed

lemma FOLD_cases: "FOLD f c = c \<or> ISUPPER c \<and> ISLOWER (FOLD f c)"
  by (auto simp: FOLD_def TOLOWER_def ISUPPER_def ISLOWER_def uchar_char_of_mod)

lemma specials_not_letters: "c \<in> set specials \<Longrightarrow> \<not> ISUPPER c \<and> \<not> ISLOWER c"
  by (auto simp: specials_def ISUPPER_def ISLOWER_def uchar_def)

lemma FOLD_in_specials [simp]: "FOLD f c \<in> set specials \<longleftrightarrow> c \<in> set specials"
  using FOLD_cases [of f c] specials_not_letters [of c] specials_not_letters [of "FOLD f c"] by auto

lemma FOLD_NUL [simp]: "FOLD f c = NUL \<longleftrightarrow> c = NUL" "NUL = FOLD f c \<longleftrightarrow> c = NUL"
proof -
  have "\<not> ISUPPER NUL" "\<not> ISLOWER NUL" by (simp_all add: ISUPPER_def ISLOWER_def uchar_def)
  then show "FOLD f c = NUL \<longleftrightarrow> c = NUL" "NUL = FOLD f c \<longleftrightarrow> c = NUL"
    using FOLD_cases [of f c] FOLD_cases [of f NUL] by metis+
qed

lemma FOLD_eq_special: "d \<in> set specials \<Longrightarrow> FOLD f c = d \<longleftrightarrow> c = d"
  using FOLD_in_specials [of f c] FOLD_special [of c f] FOLD_special [of d f] by metis

lemma FOLD_brackets [simp]:
  "FOLD f c = CHR ''['' \<longleftrightarrow> c = CHR ''[''" "FOLD f c = CHR '']'' \<longleftrightarrow> c = CHR '']''"
  "FOLD f c = CHR ''-'' \<longleftrightarrow> c = CHR ''-''" "FOLD f c = BSLASH \<longleftrightarrow> c = BSLASH"
  "FOLD f c = CHR ''?'' \<longleftrightarrow> c = CHR ''?''" "FOLD f c = CHR ''*'' \<longleftrightarrow> c = CHR ''*''"
  by (simp_all add: FOLD_eq_special specials_def)

text \<open>The loop holds the next character of the pattern either folded or not.\<close>

abbreviation read_as :: "int \<Rightarrow> char \<Rightarrow> char \<Rightarrow> bool" where
  "read_as f c d \<equiv> c = d \<or> c = FOLD f d"

lemma range_start_char:
  assumes "text_at b p (spell_char x)" and "x \<noteq> NUL" and "read_as flags c (b ! p)" and "flags AND FNM_NOESCAPE = 0"
  shows "\<exists>x'. range_start b flags t c (Suc p) = Some (Some (x', False, p + length (spell_char x))) \<and>
    FOLD flags x' = FOLD flags x \<and> c \<noteq> NUL \<and> c \<noteq> CHR ''[''"
proof (cases "x \<in> set specials")
  case True
  then have "b ! p = BSLASH" "b ! Suc p = x" "Suc p < length b" using assms(1) by (auto simp: spell_char_def)
  moreover from this have "c = BSLASH" using assms(3) by auto
  ultimately show ?thesis using True assms by (auto simp: range_start_def opens_def spell_char_def)
next
  case False
  then have "b ! p = x" using assms(1) by (auto simp: spell_char_def)
  with False assms(2,3) have "c \<notin> set specials" "c \<noteq> NUL" by auto
  with False assms \<open>b ! p = x\<close> show ?thesis
    by (auto simp: range_start_def opens_def spell_char_def specials_def)
qed

lemma range_end_char:
  assumes "text_at b p (spell_char y)" and "y \<noteq> NUL" and "y \<noteq> CHR ''[''" and "flags AND FNM_NOESCAPE = 0"
  shows "range_end b flags t fc p = Some (Some (y, fc, p + length (spell_char y)))"
  using assms by (auto simp: range_end_def opens_def spell_char_def specials_def split: if_splits)

lemma range_test_point:
  "range_test ar t (FOLD f x) (FOLD f x) fc c p =
     (if t = FOLD f x then BMatched p else if c = CHR '']'' then BBreak p else BNext c p)"
proof -
  have "t = FOLD f x \<longleftrightarrow> uchar t = uchar (FOLD f x)" by simp
  then show ?thesis by (auto simp: range_test_def rangecmp_eq simp del: uchar_inject)
qed

text \<open>What an element of a bracket expression does, with \<open>e\<close> the character after it.\<close>

definition elem_result :: "int \<Rightarrow> char \<Rightarrow> brack \<Rightarrow> char \<Rightarrow> nat \<Rightarrow> brack_step \<Rightarrow> bool" where
  "elem_result flags t it e q st \<longleftrightarrow>
     (if in_brack flags t it then st = BMatched (Suc q)
      else if e = CHR '']'' then st = BBreak (Suc q)
      else \<exists>c. read_as flags c e \<and> st = BNext c (Suc q))"

lemma elem_point:
  assumes "text_at b p (spell_char x)" and "x \<noteq> NUL" and "read_as flags c (b ! p)" and "flags AND FNM_NOESCAPE = 0"
    and "flags AND FNM_PATHNAME = 0" and "q = p + length (spell_char x)" and "q < length b" and "b ! q \<noteq> CHR ''-''"
  shows "\<exists>st. brack_elem ar b flags t sp c (Suc p) = Some st \<and> elem_result flags t (BChar x) (b ! q) q st"
proof -
  from range_start_char [OF assms(1-4)] obtain x' where
    x': "range_start b flags t c (Suc p) = Some (Some (x', False, q))" "FOLD flags x' = FOLD flags x" "c \<noteq> NUL" "c \<noteq> CHR ''[''"
    using assms(6) by blast
  have "brack_elem ar b flags t sp c (Suc p) = elem_range ar b flags t sp c (Suc p)"
    using x'(4) by (simp add: brack_elem_def equiv_class_at_def opens_def)
  also have "\<dots> = Some (range_test ar t (FOLD flags x) (FOLD flags x) False (FOLD flags (b ! q)) (Suc q))"
    using x' assms by (simp add: elem_range_def)
  finally show ?thesis by (auto simp: elem_result_def range_test_point)
qed

lemma spell_char_hd: "y \<noteq> NUL \<Longrightarrow> text_at b p (spell_char y) \<Longrightarrow> p < length b \<and> b ! p \<notin> set (NUL # ''[]-!^'')"
  by (auto simp: spell_char_def specials_def split: if_splits)

lemma elem_range_points:
  assumes "text_at b p (spell_brack (BRange x y))" and "wf_brack (BRange x y)" and "read_as flags c (b ! p)"
    and "flags AND FNM_NOESCAPE = 0" and "flags AND FNM_PATHNAME = 0"
    and "q = p + length (spell_brack (BRange x y))" and "q < length b"
  shows "\<exists>st. brack_elem ar b flags t sp c (Suc p) = Some st \<and> elem_result flags t (BRange x y) (b ! q) q st"
proof -
  let ?h = "p + length (spell_char x)"
  have tx: "text_at b p (spell_char x)" "x \<noteq> NUL" using assms(1,2) by auto
  have ty: "text_at b (Suc ?h) (spell_char y)" "y \<noteq> NUL" "y \<noteq> CHR ''[''" using assms(1,2) by auto
  have h: "b ! ?h = CHR ''-''" "Suc ?h < length b" "b ! Suc ?h \<noteq> CHR '']''"
    using assms(1) spell_char_hd [OF ty(2,1)] by auto
  from range_start_char [OF tx assms(3,4)] obtain x' where
    x': "range_start b flags t c (Suc p) = Some (Some (x', False, ?h))" "FOLD flags x' = FOLD flags x" "c \<noteq> NUL" "c \<noteq> CHR ''[''"
    by blast
  have "brack_elem ar b flags t sp c (Suc p) = elem_range ar b flags t sp c (Suc p)"
    using x'(4) by (simp add: brack_elem_def equiv_class_at_def opens_def)
  also have "\<dots> = elem_to ar b flags t (FOLD flags x) False (Suc ?h)"
    using x' h assms(5) by (simp add: elem_range_def)
  also have "\<dots> = Some (if rangecmp ar (FOLD flags x) (FOLD flags y) False > 0
      then (if b ! q = CHR '']'' then BBreak (Suc q) else BNext (FOLD flags (b ! q)) (Suc q))
      else range_test ar t (FOLD flags x) (FOLD flags y) False (b ! q) (Suc q))"
    using range_end_char [OF ty assms(4)] assms(6,7) by (simp add: elem_to_def add.assoc)
  finally show ?thesis by (auto simp: elem_result_def range_test_def rangecmp_eq)
qed

lemma cclass_close_name: "CHR '':'' \<notin> set s \<Longrightarrow> cclass_close (s @ '':]'' @ u) = Some (length s)"
  by (induction s) auto

lemma is_cclass_name: "is_cclass t (class_name k) = Some (in_class k t)"
  by (cases k) (simp_all add: is_cclass_def cclass_name_def)

lemma elem_class_name:
  assumes "text_at b p (spell_brack (BClass k))" and "read_as flags c (b ! p)"
    and "q = p + length (spell_brack (BClass k))" and "q < length b" and "b ! q \<noteq> NUL"
  shows "\<exists>st. brack_elem ar b flags t sp c (Suc p) = Some st \<and> elem_result flags t (BClass k) (b ! q) q st"
proof -
  have b: "b ! p = CHR ''[''" "b ! Suc p = CHR '':''" "Suc p < length b" using assms(1) by auto
  then have c: "c = CHR ''[''" using assms(2) by auto
  have "text_at b (Suc (Suc p)) (class_name k @ '':]'')" using assms(1) by auto
  from text_at_drop [OF this] have d: "drop (Suc (Suc p)) b = class_name k @ '':]'' @ drop q b"
    using assms(3) by (simp add: add.assoc)
  have "cclass_close (drop (Suc (Suc p)) b) = Some (length (class_name k))"
    unfolding d using class_name_plain [of k] by (intro cclass_close_name) simp
  then have "cclass_at b t (Suc p) = (in_class k t, q)"
    using d is_cclass_name assms(3) by (simp add: cclass_at_def)
  then have "brack_elem ar b flags t sp c (Suc p) = Some (if in_class k t then BMatched (Suc q)
      else if b ! q = CHR '']'' then BBreak (Suc q) else BNext (FOLD flags (b ! q)) (Suc q))"
    using b c assms(4,5) by (simp add: brack_elem_def equiv_class_at_def opens_def elem_class_def)
  then show ?thesis by (auto simp: elem_result_def)
qed

lemma elem_item:
  assumes "text_at b p (spell_brack it)" and "wf_brack it" and "read_as flags c (b ! p)"
    and "flags AND FNM_NOESCAPE = 0" and "flags AND FNM_PATHNAME = 0"
    and "q = p + length (spell_brack it)" and "q < length b" and "b ! q \<notin> set (NUL # ''-'')"
  shows "\<exists>st. brack_elem ar b flags t sp c (Suc p) = Some st \<and> elem_result flags t it (b ! q) q st"
proof (cases it)
  case (BChar x)
  then show ?thesis using assms by (auto intro: elem_point)
next
  case (BRange x y)
  then show ?thesis using assms elem_range_points [of b p x y c flags q ar t sp] by auto
next
  case (BClass k)
  then show ?thesis using assms elem_class_name [of b p k c flags q ar t sp] by auto
qed

lemma spell_brack_hd: "wf_brack it \<Longrightarrow> text_at b p (spell_brack it) \<Longrightarrow> p < length b \<and> b ! p \<notin> set (NUL # '']-!^'')"
  by (cases it) (auto dest: spell_char_hd)

lemma items_hd:
  assumes "text_at b p (concat (map spell_brack items) @ '']'')" and "list_all wf_brack items"
  shows "p < length b \<and> b ! p \<notin> set (NUL # ''-!^'') \<and> (b ! p = CHR '']'' \<longleftrightarrow> items = [])"
  using assms spell_brack_hd [of "hd items" b p] by (cases items) (auto dest: text_at_le)

lemma brack_loop_items:
  assumes "text_at b p (concat (map spell_brack items) @ '']'')" and "list_all wf_brack items" and "items \<noteq> []"
    and "flags AND FNM_NOESCAPE = 0" and "flags AND FNM_PATHNAME = 0" and "read_as flags c (b ! p)"
  shows "brack_loop ar b flags t neg sp c (Suc p) =
    Some (if (\<exists>it \<in> set items. in_brack flags t it) \<noteq> neg
          then Some (Suc (p + length (concat (map spell_brack items)))) else None)"
  using assms
proof (induction items arbitrary: p c)
  case (Cons it items)
  let ?q = "p + length (spell_brack it)"
  have rest: "text_at b ?q (concat (map spell_brack items) @ '']'')" "list_all wf_brack items" using Cons.prems by auto
  note hd = items_hd [OF rest]
  from elem_item [of b p it c flags ?q ar t sp] Cons.prems hd obtain st where
    st: "brack_elem ar b flags t sp c (Suc p) = Some st" "elem_result flags t it (b ! ?q) ?q st" by auto
  show ?case
  proof (cases "in_brack flags t it")
    case True
    then have "st = BMatched (Suc ?q)" using st(2) by (simp add: elem_result_def)
    moreover have "brack_matched b flags t neg sp (Suc ?q) =
        Some (if neg then None else Some (Suc (?q + length (concat (map spell_brack items)))))"
      using rest hd Cons.prems by (intro brack_matched_items) auto
    ultimately show ?thesis using True st(1) by (subst brack_loop.simps) (simp add: add.assoc)
  next
    case False
    show ?thesis
    proof (cases "items = []")
      case True
      then have "st = BBreak (Suc ?q)" using st(2) False hd by (simp add: elem_result_def)
      then show ?thesis using True False st(1) by (subst brack_loop.simps) simp
    next
      case ne: False
      then obtain c' where c': "read_as flags c' (b ! ?q)" "st = BNext c' (Suc ?q)"
        using st(2) False hd by (auto simp: elem_result_def)
      have "brack_loop ar b flags t neg sp c (Suc p) = brack_loop ar b flags t neg sp c' (Suc ?q)"
        using st(1) c'(2) by (subst brack_loop.simps) simp
      with Cons.IH [OF rest ne Cons.prems(4,5) c'(1)] False show ?thesis by (simp add: add.assoc)
    qed
  qed
qed simp

lemma brackmatch_correct:
  assumes "text_at b p ((if neg then ''!'' else []) @ concat (map spell_brack items) @ '']'')" and "list_all wf_brack items"
    and "items \<noteq> []" and "flags AND FNM_NOESCAPE = 0" and "flags AND FNM_PATHNAME = 0"
  shows "brackmatch ar b p t flags =
    Some (if (\<exists>it \<in> set items. in_brack flags (FOLD flags t) it) \<noteq> neg
          then Some (p + length ((if neg then ''!'' else []) @ concat (map spell_brack items) @ '']'')) else None)"
proof -
  let ?p = "if neg then Suc p else p"
  have t: "text_at b ?p (concat (map spell_brack items) @ '']'')" using assms(1) by (auto split: if_splits)
  note hd = items_hd [OF t assms(2)]
  have p: "p < length b" "b ! p = CHR ''!'' \<or> b ! p = CHR ''^'' \<longleftrightarrow> neg"
    using assms(1) hd by (auto split: if_splits)
  from hd p have "brackmatch ar b p t flags = brack_loop ar b flags (FOLD flags t) neg p (b ! ?p) (Suc ?p)"
    by (cases neg) (auto simp: brackmatch_def Let_def)
  also have "\<dots> = Some (if (\<exists>it \<in> set items. in_brack flags (FOLD flags t) it) \<noteq> neg
          then Some (Suc (?p + length (concat (map spell_brack items)))) else None)"
    by (rule brack_loop_items) (use t assms in auto)
  finally show ?thesis by auto
qed

subsection \<open>Scanning for the end of a pattern list\<close>

definition scans :: "string \<Rightarrow> nat \<Rightarrow> char \<Rightarrow> nat \<Rightarrow> scan \<Rightarrow> nat \<Rightarrow> scan \<Rightarrow> bool" where
  "scans b pend d p st p' st' \<longleftrightarrow> patscan_loop b pend d p st = patscan_loop b pend d p' st'"

lemma scans_refl: "scans b pend d p st p st"
  by (simp add: scans_def)

lemma scans_trans: "scans b pend d p st p' st' \<Longrightarrow> scans b pend d p' st' p'' st'' \<Longrightarrow> scans b pend d p st p'' st''"
  by (simp add: scans_def)

lemma scans_step:
  "p < length b \<Longrightarrow> b ! p \<noteq> NUL \<Longrightarrow> p < pend \<Longrightarrow> scan_step b d p (b ! p) st = Inl st' \<Longrightarrow> scans b pend d p st (Suc p) st'"
  unfolding scans_def by (subst patscan_loop.simps) simp

text \<open>The state at depth \<open>k\<close> of parentheses, and the state inside a bracket expression there.\<close>

definition outside :: "int \<Rightarrow> scan" where
  "outside k = \<lparr>pnest = k, bnest = False, skip = False, cchar = NUL, bfirst = 0\<rparr>"

definition inside :: "int \<Rightarrow> nat \<Rightarrow> char \<Rightarrow> scan" where
  "inside k f c = \<lparr>pnest = k, bnest = True, skip = False, cchar = c, bfirst = f\<rparr>"

lemma scan_step_plain: "\<not> skip st \<Longrightarrow> c \<notin> set (BSLASH # ''[]()|'') \<Longrightarrow> scan_step b d p c st = Inl st"
  by (simp add: scan_step_def)

lemma scans_plain:
  assumes "text_at b p s" and "p + length s \<le> pend" and "set s \<inter> set (NUL # BSLASH # ''[]()|'') = {}" and "\<not> skip st"
  shows "scans b pend d p st (p + length s) st"
  using assms
proof (induction s arbitrary: p)
  case (Cons c s)
  then have "scans b pend d p st (Suc p) st" by (intro scans_step scan_step_plain) auto
  moreover have "scans b pend d (Suc p) st (Suc p + length s) st" using Cons.prems by (intro Cons.IH) auto
  ultimately show ?case by (auto intro: scans_trans)
qed (simp add: scans_refl)

lemma scans_char:
  assumes "text_at b p (spell_char c)" and "p + length (spell_char c) \<le> pend" and "c \<noteq> NUL" and "\<not> skip st"
  shows "scans b pend d p st (p + length (spell_char c)) st"
proof (cases "c \<in> set specials")
  case True
  then have t: "text_at b p [BSLASH, c]" "length (spell_char c) = 2" using assms(1) by (simp_all add: spell_char_def)
  have "scans b pend d p st (Suc p) (st\<lparr>skip := True\<rparr>)"
    using t assms by (intro scans_step) (auto simp: scan_step_def)
  moreover have "scans b pend d (Suc p) (st\<lparr>skip := True\<rparr>) (Suc (Suc p)) st"
    using t assms by (intro scans_step) (auto simp: scan_step_def)
  ultimately show ?thesis using t(2) by (auto intro: scans_trans)
next
  case False
  then show ?thesis using assms by (intro scans_plain) (auto simp: spell_char_def specials_def)
qed

lemma scans_item:
  assumes "text_at b p (spell_brack it)" and "p + length (spell_brack it) \<le> pend" and "wf_brack it"
  shows "scans b pend d p (inside k f NUL) (p + length (spell_brack it)) (inside k f NUL)"
proof (cases it)
  case (BChar c)
  then show ?thesis using assms by (auto intro!: scans_char simp: inside_def)
next
  case (BRange x y)
  let ?h = "p + length (spell_char x)"
  have "scans b pend d p (inside k f NUL) ?h (inside k f NUL)"
    using assms BRange by (intro scans_char) (auto simp: inside_def)
  moreover have "scans b pend d ?h (inside k f NUL) (?h + length ''-'') (inside k f NUL)"
    using assms BRange by (intro scans_plain) (auto simp: inside_def)
  moreover have "scans b pend d (?h + length ''-'') (inside k f NUL) (?h + length ''-'' + length (spell_char y)) (inside k f NUL)"
    using assms BRange by (intro scans_char) (auto simp: inside_def)
  ultimately show ?thesis using BRange by (simp add: scans_def add.assoc)
next
  case (BClass c)
  let ?m = "'':'' @ class_name c @ '':''"
  let ?e = "Suc p + length ?m"
  have t: "text_at b p ''[:''" "text_at b (Suc p) ?m" "text_at b ?e '']''" "Suc ?e \<le> pend" "b ! (?e - 1) = CHR '':''"
    using assms(1,2) BClass by auto
  have "scans b pend d p (inside k f NUL) (Suc p) (inside k f (CHR '':''))"
    using t by (intro scans_step) (auto simp: scan_step_def inside_def)
  moreover have "scans b pend d (Suc p) (inside k f (CHR '':'')) ?e (inside k f (CHR '':''))"
    using t class_name_plain [of c] by (intro scans_plain) (auto simp: inside_def specials_def)
  moreover have "scans b pend d ?e (inside k f (CHR '':'')) (Suc ?e) (inside k f NUL)"
    using t by (intro scans_step) (auto simp: scan_step_def inside_def)
  ultimately show ?thesis using BClass by (simp add: scans_def add.assoc)
qed

lemma scans_items:
  assumes "text_at b p (concat (map spell_brack items))" and "p + length (concat (map spell_brack items)) \<le> pend"
    and "list_all wf_brack items"
  shows "scans b pend d p (inside k f NUL) (p + length (concat (map spell_brack items))) (inside k f NUL)"
  using assms
proof (induction items arbitrary: p)
  case (Cons it items)
  then have "scans b pend d p (inside k f NUL) (p + length (spell_brack it)) (inside k f NUL)"
    by (intro scans_item) auto
  moreover have "scans b pend d (p + length (spell_brack it)) (inside k f NUL)
      (p + length (spell_brack it) + length (concat (map spell_brack items))) (inside k f NUL)"
    using Cons.prems by (intro Cons.IH) auto
  ultimately show ?case by (simp add: scans_def add.assoc)
qed (simp add: scans_refl)

lemma spell_brack_ne: "spell_brack it \<noteq> []"
  by (cases it) (auto simp: spell_char_def)

lemma scans_set:
  assumes "text_at b p (spell (GSet neg items))" and "p + length (spell (GSet neg items)) \<le> pend" and "wf_pat ext (GSet neg items)"
  shows "scans b pend d p (outside k) (p + length (spell (GSet neg items))) (outside k)"
proof -
  let ?n = "if neg then ''!'' else []"
  let ?f = "Suc p + length ?n"
  let ?e = "?f + length (concat (map spell_brack items))"
  have t: "text_at b p ''[''" "text_at b (Suc p) ?n" "text_at b ?f (concat (map spell_brack items))" "text_at b ?e '']''"
    "Suc ?e \<le> pend" using assms(1,2) by (auto simp: add.assoc split: if_splits)
  have wf: "items \<noteq> []" "list_all wf_brack items" using assms(3) by auto
  have "text_at b ?f (concat (map spell_brack items) @ '']'')" using t(3,4) by simp
  from items_hd [OF this wf(2)] have hd: "b ! ?f \<notin> set ''!^''" "?f < length b" by auto
  have ne: "?f < ?e" using wf(1) by (cases items) (auto simp: spell_brack_ne)
  have "scans b pend d p (outside k) (Suc p) (inside k ?f NUL)"
    using t hd by (intro scans_step) (auto simp: scan_step_def outside_def inside_def split: if_splits)
  moreover have "scans b pend d (Suc p) (inside k ?f NUL) ?f (inside k ?f NUL)"
    using t by (intro scans_plain) (auto simp: inside_def)
  moreover have "scans b pend d ?f (inside k ?f NUL) ?e (inside k ?f NUL)"
    using t assms(3) by (intro scans_items) auto
  moreover have "scans b pend d ?e (inside k ?f NUL) (Suc ?e) (outside k)"
    using t ne by (intro scans_step) (auto simp: scan_step_def outside_def inside_def)
  ultimately show ?thesis by (simp add: scans_def add.assoc)
qed

text \<open>A spelled pattern, a sequence of them, and a list of alternatives below a parenthesis leave the state as it is.\<close>

definition scanned :: "string \<Rightarrow> nat \<Rightarrow> char \<Rightarrow> int \<Rightarrow> string \<Rightarrow> bool" where
  "scanned b pend d k s \<longleftrightarrow>
     (\<forall>p. text_at b p s \<longrightarrow> p + length s \<le> pend \<longrightarrow> scans b pend d p (outside k) (p + length s) (outside k))"

lemma scanned_concat: "(\<And>s. s \<in> set ss \<Longrightarrow> scanned b pend d k s) \<Longrightarrow> scanned b pend d k (concat ss)"
proof (induction ss)
  case (Cons s ss)
  then have IH: "scanned b pend d k s" "scanned b pend d k (concat ss)" by auto
  show ?case unfolding scanned_def
  proof (intro allI impI)
    fix p assume t: "text_at b p (concat (s # ss))" and l: "p + length (concat (s # ss)) \<le> pend"
    have "scans b pend d p (outside k) (p + length s) (outside k)" using IH(1) t l unfolding scanned_def by simp
    moreover have "scans b pend d (p + length s) (outside k) (p + length s + length (concat ss)) (outside k)"
      using IH(2) t l unfolding scanned_def by simp
    ultimately show "scans b pend d p (outside k) (p + length (concat (s # ss))) (outside k)"
      by (simp add: scans_def add.assoc)
  qed
qed (simp add: scanned_def scans_refl)

lemma scanned_bar: "0 < k \<or> d \<noteq> CHR ''|'' \<Longrightarrow> scanned b pend d k ''|''"
  unfolding scanned_def by (auto intro!: scans_step simp: scan_step_def outside_def)

lemma scanned_bars:
  "0 < k \<or> d \<noteq> CHR ''|'' \<Longrightarrow> (\<And>s. s \<in> set ss \<Longrightarrow> scanned b pend d k s) \<Longrightarrow> scanned b pend d k (bars ss)"
proof (induction ss rule: bars.induct)
  case (3 s t ss)
  then have "scanned b pend d k s" "scanned b pend d k (bars (t # ss))" by auto
  then have "scanned b pend d k (concat [s, ''|'', bars (t # ss)])"
    using scanned_bar [OF 3(2)] by (intro scanned_concat) auto
  then show ?case by simp
qed (auto simp: scanned_def scans_refl)

lemma scanned_paren:
  assumes "scanned b pend d (k + 1) s" and "0 \<le> k" shows "scanned b pend d k (''('' @ s @ '')'')"
  unfolding scanned_def
proof (intro allI impI)
  fix p assume t: "text_at b p (''('' @ s @ '')'')" and l: "p + length (''('' @ s @ '')'') \<le> pend"
  have "scans b pend d p (outside k) (Suc p) (outside (k + 1))"
    using t l by (intro scans_step) (auto simp: scan_step_def outside_def)
  moreover have "scans b pend d (Suc p) (outside (k + 1)) (Suc p + length s) (outside (k + 1))"
    using t l assms(1) unfolding scanned_def by auto
  moreover have "scans b pend d (Suc p + length s) (outside (k + 1)) (Suc (Suc p + length s)) (outside k)"
    using t l assms(2) by (intro scans_step) (auto simp: scan_step_def outside_def)
  ultimately show "scans b pend d p (outside k) (p + length (''('' @ s @ '')'')) (outside k)" by (simp add: scans_def)
qed

lemma scanned_plain: "set s \<inter> set (NUL # BSLASH # ''[]()|'') = {} \<Longrightarrow> scanned b pend d k s"
  unfolding scanned_def by (auto intro!: scans_plain simp: outside_def)

lemma scanned_pat: "wf_pat ext g \<Longrightarrow> 0 \<le> k \<Longrightarrow> scanned b pend d k (spell g)"
proof (induction g arbitrary: k rule: spell.induct)
  case (1 c)
  then show ?case unfolding scanned_def by (auto intro!: scans_char simp: outside_def)
next
  case (4 neg items)
  then show ?case unfolding scanned_def by (intro allI impI scans_set) auto
next
  case (5 x alts)
  have "scanned b pend d (k + 1) (bars (map (\<lambda>alt. concat (map spell alt)) alts))"
  proof (intro scanned_bars)
    fix s assume "s \<in> set (map (\<lambda>alt. concat (map spell alt)) alts)"
    then obtain alt where alt: "alt \<in> set alts" "s = concat (map spell alt)" by auto
    show "scanned b pend d (k + 1) s" unfolding alt(2)
    proof (intro scanned_concat)
      fix u assume "u \<in> set (map spell alt)"
      then obtain g where g: "g \<in> set alt" "u = spell g" by auto
      moreover have "wf_pat ext g" using 5(2) alt(1) g(1) by (auto simp: list_all_iff)
      ultimately show "scanned b pend d (k + 1) u" using "5.IH" [OF alt(1) g(1)] "5.prems" by auto
    qed
  qed (use 5 in auto)
  from scanned_paren [OF this "5.prems"(2)] have
    p: "scanned b pend d k (''('' @ bars (map (\<lambda>alt. concat (map spell alt)) alts) @ '')'')" .
  have "scanned b pend d k [xchar x]" by (cases x) (auto intro!: scanned_plain)
  with p have "scanned b pend d k (concat [[xchar x], ''('' @ bars (map (\<lambda>alt. concat (map spell alt)) alts) @ '')''])"
    by (intro scanned_concat) auto
  then show ?case by simp
qed (auto intro!: scanned_plain)

lemma scanned_pats: "list_all (wf_pat ext) ps \<Longrightarrow> 0 \<le> k \<Longrightarrow> scanned b pend d k (spells ps)"
  by (intro scanned_concat) (auto simp: list_all_iff intro!: scanned_pat)

text \<open>The scans made by the matcher of extended patterns.\<close>

lemma glob_patscan_from: "p < pend \<Longrightarrow> glob_patscan b p pend d = patscan_loop b pend d p (outside 0)"
  by (simp add: glob_patscan_def scan_init_def outside_def)

lemma patscan_close:
  assumes "text_at b p (s @ '')'')" and "scanned b pend d 0 s" and "p + length s < pend"
  shows "glob_patscan b p pend d = Some (Some (Suc (p + length s)))"
proof -
  have "glob_patscan b p pend d = patscan_loop b pend d (p + length s) (outside 0)"
    using assms glob_patscan_from [of p pend b d] unfolding scanned_def scans_def by simp
  also have "\<dots> = Some (Some (Suc (p + length s)))"
    using assms(1,3) by (subst patscan_loop.simps) (simp add: scan_step_def outside_def)
  finally show ?thesis .
qed

lemma patscan_bar:
  assumes "text_at b p (s @ ''|'')" and "scanned b pend (CHR ''|'') 0 s" and "p + length s < pend"
  shows "glob_patscan b p pend (CHR ''|'') = Some (Some (Suc (p + length s)))"
proof -
  have "glob_patscan b p pend (CHR ''|'') = patscan_loop b pend (CHR ''|'') (p + length s) (outside 0)"
    using assms glob_patscan_from [of p pend b] unfolding scanned_def scans_def by simp
  also have "\<dots> = Some (Some (Suc (p + length s)))"
    using assms(1,3) by (subst patscan_loop.simps) (simp add: scan_step_def outside_def)
  finally show ?thesis .
qed

fun spans :: "nat \<Rightarrow> string list \<Rightarrow> (nat \<times> nat) list" where
  "spans p [] = []"
| "spans p (s # ss) = (p, p + length s) # spans (Suc (p + length s)) ss"

lemma alternatives_spans:
  assumes "text_at b p (bars ss @ '')'')" and "ss \<noteq> []" and "\<And>s. s \<in> set ss \<Longrightarrow> scanned b pe (CHR ''|'') 0 s"
    and "p + length (bars ss) < pe"
  shows "alternatives b pe (Suc (p + length (bars ss))) p = (spans p ss, True)"
  using assms
proof (induction ss arbitrary: p rule: bars.induct)
  case (2 s)
  then have "glob_patscan b p pe (CHR ''|'') = Some (Some (Suc (p + length s)))" by (intro patscan_close) auto
  then show ?case by (subst alternatives.simps) simp
next
  case (3 s t ss)
  let ?q = "Suc (p + length s)"
  have ps: "glob_patscan b p pe (CHR ''|'') = Some (Some ?q)" using "3.prems" by (intro patscan_bar) auto
  have l: "Suc (?q + length (bars (t # ss))) = Suc (p + length (bars (s # t # ss)))" by simp
  have IH: "alternatives b pe (Suc (?q + length (bars (t # ss)))) ?q = (spans ?q (t # ss), True)"
    using "3.prems" by (intro "3.IH") auto
  show ?case
    by (subst alternatives.simps) (use "3.prems"(4) ps IH [unfolded l] in simp)
qed simp

text \<open>Each span holds one of the texts, and ends before a bar or a parenthesis.\<close>

definition spans_text :: "string \<Rightarrow> nat \<times> nat \<Rightarrow> string \<Rightarrow> bool" where
  "spans_text b x s \<longleftrightarrow> text_at b (fst x) s \<and> snd x = fst x + length s \<and> snd x < length b \<and> b ! snd x \<in> set ''|)''"

lemma spans_texts: "text_at b p (bars ss @ '')'') \<Longrightarrow> ss \<noteq> [] \<Longrightarrow> list_all2 (spans_text b) (spans p ss) ss"
proof (induction ss arbitrary: p rule: bars.induct)
  case (3 s t ss)
  have "list_all2 (spans_text b) (spans (Suc (p + length s)) (t # ss)) (t # ss)"
    using "3.prems" by (intro "3.IH") auto
  moreover have "spans_text b (p, p + length s) s" using "3.prems" by (auto simp: spans_text_def)
  ultimately show ?case by simp
qed (auto simp: spans_text_def)

lemma any_zero_iff:
  "(\<And>x. x \<in> set xs \<Longrightarrow> f x = Some (if P x then 0 else FNM_NOMATCH)) \<Longrightarrow> any_zero f xs = Some (\<exists>x \<in> set xs. P x)"
  by (induction xs) (auto simp: FNM_NOMATCH_def)

lemma any_zero_list_all2:
  "list_all2 R xs ys \<Longrightarrow> (\<And>x y. R x y \<Longrightarrow> y \<in> set ys \<Longrightarrow> f x = Some (if P y then 0 else FNM_NOMATCH)) \<Longrightarrow>
   any_zero f xs = Some (\<exists>y \<in> set ys. P y)"
  by (induction rule: list_all2_induct) (auto simp: FNM_NOMATCH_def)

end
