(* ===== verification/GlobMatch.thy ===== *)
theory GlobMatch
  imports GlobSpec
begin

text \<open>
  The matcher decides the language of the pattern: \<open>gmatch\<close> and \<open>extmatch\<close> of \<^verbatim>\<open>sm_loop.c\<close> return 0
  exactly for the strings in the meaning of the pattern spelled in the buffer, and read nothing
  outside it. The proof goes by the length of the spelling, since subpatterns and what follows them
  are spelled shorter, and within a repeated pattern by the length of the string.
\<close>

subsection \<open>Segments of the string\<close>

definition seg :: "string \<Rightarrow> nat \<Rightarrow> nat \<Rightarrow> string" where
  "seg str n se = take (se - n) (drop n str)"

lemma seg_Nil: "se \<le> length str \<Longrightarrow> n \<le> se \<Longrightarrow> seg str n se = [] \<longleftrightarrow> n = se"
  by (auto simp: seg_def)

lemma seg_Cons: "n < se \<Longrightarrow> se \<le> length str \<Longrightarrow> seg str n se = str ! n # seg str (Suc n) se"
  by (simp add: seg_def Cons_nth_drop_Suc [symmetric] Suc_diff_Suc [symmetric] del: Cons_nth_drop_Suc Suc_diff_Suc)

lemma seg_append: "n \<le> k \<Longrightarrow> k \<le> se \<Longrightarrow> se \<le> length str \<Longrightarrow> seg str n se = seg str n k @ seg str k se"
proof -
  assume "n \<le> k" "k \<le> se" "se \<le> length str"
  then have "se - n = (k - n) + (se - k)" "drop (k - n) (drop n str) = drop k str" by auto
  then show ?thesis unfolding seg_def by (metis take_add)
qed

lemma seg_split:
  assumes "n \<le> se" and "se \<le> length str"
  shows "(\<exists>u v. seg str n se = u @ v \<and> P u v) \<longleftrightarrow> (\<exists>k \<in> set [n..<Suc se]. P (seg str n k) (seg str k se))"
proof
  assume "\<exists>u v. seg str n se = u @ v \<and> P u v"
  then obtain u v where uv: "seg str n se = u @ v" "P u v" by blast
  let ?k = "n + length u"
  have "length (seg str n se) = se - n" using assms by (simp add: seg_def)
  then have k: "n \<le> ?k" "?k \<le> se" using uv(1) assms by auto
  have "length (seg str n ?k) = length u" using k assms by (simp add: seg_def)
  then have "seg str n ?k = u" "seg str ?k se = v" using seg_append [OF k assms(2)] uv(1) by auto
  then show "\<exists>k \<in> set [n..<Suc se]. P (seg str n k) (seg str k se)" using uv(2) k by (intro bexI [of _ ?k]) auto
next
  assume "\<exists>k \<in> set [n..<Suc se]. P (seg str n k) (seg str k se)"
  then obtain k where "n \<le> k" "k \<le> se" "P (seg str n k) (seg str k se)" by auto
  then show "\<exists>u v. seg str n se = u @ v \<and> P u v" using seg_append [of n k se str] assms(2) by blast
qed

lemma seg_conc:
  assumes "n \<le> se" and "se \<le> length str"
  shows "seg str n se \<in> conc A B \<longleftrightarrow> (\<exists>k \<in> set [n..<Suc se]. seg str n k \<in> A \<and> seg str k se \<in> B)"
  using seg_split [OF assms, of "\<lambda>u v. u \<in> A \<and> v \<in> B"] by (auto simp: conc_def)

lemma seg_conc_unit:
  assumes "n \<le> se" and "se \<le> length str"
  shows "seg str n se \<in> conc {[d] | d. P d} B \<longleftrightarrow> n < se \<and> P (str ! n) \<and> seg str (Suc n) se \<in> B"
proof (cases "n < se")
  case True
  have "x # xs \<in> conc {[d] | d. P d} B \<longleftrightarrow> P x \<and> xs \<in> B" for x xs
  proof
    show "x # xs \<in> conc {[d] | d. P d} B \<Longrightarrow> P x \<and> xs \<in> B" by (auto simp: conc_def)
  next
    assume "P x \<and> xs \<in> B"
    then have "x # xs = [x] @ xs" "[x] \<in> {[d] | d. P d}" "xs \<in> B" by auto
    then show "x # xs \<in> conc {[d] | d. P d} B" unfolding conc_def by blast
  qed
  with True show ?thesis using assms by (simp add: seg_Cons)
next
  case False
  then show ?thesis using assms by (auto simp: conc_def seg_def)
qed

subsection \<open>Repetition\<close>

lemma conc_kstar_split:
  "s \<in> conc (kstar A) B \<longleftrightarrow> s \<in> B \<or> (\<exists>u v. s = u @ v \<and> u \<in> A \<and> (v \<in> B \<or> u \<noteq> [] \<and> v \<in> conc (kstar A) B))"
proof
  assume "s \<in> conc (kstar A) B"
  then obtain u w where uw: "u \<in> kstar A" "w \<in> B" "s = u @ w" by (auto simp: conc_def)
  have "u @ w \<in> B \<or> (\<exists>x v. u @ w = x @ v \<and> x \<in> A \<and> (v \<in> B \<or> x \<noteq> [] \<and> v \<in> conc (kstar A) B))"
    using uw(1)
  proof induction
    case (kstar_step x v)
    show ?case
    proof (cases "x = []")
      case True
      then show ?thesis using kstar_step.IH by simp
    next
      case False
      moreover have "v @ w \<in> conc (kstar A) B" using kstar_step.hyps(2) uw(2) by (auto simp: conc_def)
      ultimately show ?thesis using kstar_step.hyps(1) by auto
    qed
  qed (simp add: uw(2))
  then show "s \<in> B \<or> (\<exists>u v. s = u @ v \<and> u \<in> A \<and> (v \<in> B \<or> u \<noteq> [] \<and> v \<in> conc (kstar A) B))"
    unfolding uw(3) .
next
  have conc: "u @ v \<in> conc (kstar A) B" if "u \<in> A" "v \<in> conc (kstar A) B" for u v
  proof -
    from that(2) obtain x y where "v = x @ y" "x \<in> kstar A" "y \<in> B" by (auto simp: conc_def)
    then have "u @ v = (u @ x) @ y" "u @ x \<in> kstar A" "y \<in> B" using that(1) by (auto intro: kstar_step)
    then show ?thesis unfolding conc_def by blast
  qed
  have base: "v \<in> B \<Longrightarrow> v \<in> conc (kstar A) B" for v
    unfolding conc_def using kstar_Nil by force
  assume "s \<in> B \<or> (\<exists>u v. s = u @ v \<and> u \<in> A \<and> (v \<in> B \<or> u \<noteq> [] \<and> v \<in> conc (kstar A) B))"
  then show "s \<in> conc (kstar A) B" using conc base by blast
qed

lemma conc_assoc: "conc (conc A B) C = conc A (conc B C)"
  unfolding conc_def by (auto simp: append_assoc) (metis append_assoc)+

lemma conc_some_split:
  "s \<in> conc (conc A (kstar A)) B \<longleftrightarrow>
    (\<exists>u v. s = u @ v \<and> u \<in> A \<and> (v \<in> B \<or> u \<noteq> [] \<and> v \<in> conc (conc A (kstar A)) B))" (is "_ \<longleftrightarrow> ?R s")
proof
  assume "s \<in> conc (conc A (kstar A)) B"
  then obtain a u w where au: "a \<in> A" "u \<in> kstar A" "w \<in> B" "s = a @ u @ w" by (auto simp: conc_def)
  from au(2,1) have "?R (a @ u @ w)"
  proof (induction arbitrary: a)
    case kstar_Nil
    then show ?case using au(3) by auto
  next
    case (kstar_step x v)
    show ?case
    proof (cases "a = []")
      case True
      then show ?thesis using kstar_step.IH [OF kstar_step.hyps(1)] by simp
    next
      case False
      moreover have "(x @ v) @ w \<in> conc (conc A (kstar A)) B"
        using kstar_step.hyps au(3) by (auto simp: conc_def simp del: append_assoc)
      ultimately show ?thesis using kstar_step.prems by auto
    qed
  qed
  then show "?R s" unfolding au(4) .
next
  assume "?R s"
  then obtain u v where uv: "s = u @ v" "u \<in> A" "v \<in> B \<or> v \<in> conc (conc A (kstar A)) B" by blast
  from uv(3) have "v \<in> conc (kstar A) B"
  proof
    assume "v \<in> B"
    then show ?thesis using conc_kstar_split [of v A B] by blast
  next
    assume "v \<in> conc (conc A (kstar A)) B"
    then show ?thesis unfolding conc_def by (auto intro: kstar_step)
  qed
  then show "s \<in> conc (conc A (kstar A)) B" using uv(1,2) unfolding conc_assoc by (auto simp: conc_def)
qed

subsection \<open>Single elements\<close>

text \<open>The flags for which the meaning above is what the code computes.\<close>

definition plain_flags :: "int \<Rightarrow> bool" where
  "plain_flags flags \<longleftrightarrow> flags AND FNM_PATHNAME = 0 \<and> flags AND FNM_NOESCAPE = 0 \<and> flags AND FNM_PERIOD = 0 \<and>
     flags AND FNM_LEADING_DIR = 0"

lemma and_not_disjoint: "x AND y = 0 \<Longrightarrow> x AND NOT y = x" for x y :: int
  by (auto simp: bit_eq_iff bit_simps)

lemma xflags_plain: "plain_flags flags \<Longrightarrow> xflags flags m = flags"
  by (simp add: xflags_def plain_flags_def and_not_disjoint)

lemma paren_at_eq: "p \<le> length b \<Longrightarrow> paren_at b flags p = Some (flags AND FNM_EXTMATCH \<noteq> 0 \<and> char_at b p = CHR ''('')"
  by (simp add: paren_at_def)

definition placed :: "string \<Rightarrow> nat \<Rightarrow> nat \<Rightarrow> gpat list \<Rightarrow> bool" where
  "placed b p pe ps \<longleftrightarrow> text_at b p (spells ps) \<and> pe = p + length (spells ps) \<and> char_at b pe \<noteq> CHR ''(''"

definition verdict :: "bool \<Rightarrow> int option" where
  "verdict m = Some (if m then 0 else FNM_NOMATCH)"

definition matches_at :: "bool \<Rightarrow> string \<Rightarrow> int \<Rightarrow> gpat list \<Rightarrow> nat \<Rightarrow> nat \<Rightarrow> bool" where
  "matches_at ar b flags ps p pe \<longleftrightarrow>
     (\<forall>str string n se. c_string str \<longrightarrow> n \<le> se \<longrightarrow> se \<le> length str \<longrightarrow>
        gmatch ar b str flags string n se p pe = verdict (seg str n se \<in> langs flags ps))"

definition star_at :: "bool \<Rightarrow> string \<Rightarrow> int \<Rightarrow> gpat list \<Rightarrow> nat \<Rightarrow> nat \<Rightarrow> bool" where
  "star_at ar b flags ps p pe \<longleftrightarrow>
     (\<forall>str n se. c_string str \<longrightarrow> n \<le> se \<longrightarrow> se \<le> length str \<longrightarrow>
        star_loop ar b str flags n se p pe (if n < se then str ! n else NUL) =
          verdict (seg str n se \<in> conc UNIV (langs flags ps)))"

lemma str_at_eq: "n \<le> se \<Longrightarrow> se \<le> length str \<Longrightarrow> str_at str n se = Some (if n < se then str ! n else NUL)"
  by (simp add: str_at_def)

lemma c_string_nth: "c_string str \<Longrightarrow> n < length str \<Longrightarrow> str ! n \<noteq> NUL"
  by (auto simp: c_string_def dest: nth_mem)

lemma spell_hd: "wf_pat ext g \<Longrightarrow> text_at b p (spell g) \<Longrightarrow> p < length b \<and> b ! p \<noteq> CHR ''('' \<and> b ! p \<noteq> NUL"
  by (cases g) (auto simp: spell_char_def specials_def split: if_splits elim: xchar.elims)

lemma spell_ne: "spell g \<noteq> []"
  by (cases g) (auto simp: spell_char_def)

lemma placed_hd: "placed b p pe ps \<Longrightarrow> list_all (wf_pat ext) ps \<Longrightarrow> p \<le> length b \<and> char_at b p \<noteq> CHR ''(''"
  using spell_hd [of ext "hd ps" b p] by (cases ps) (auto simp: placed_def dest: text_at_le)

lemma placed_Cons: "placed b p pe (g # ps) \<Longrightarrow> text_at b p (spell g) \<and> placed b (p + length (spell g)) pe ps \<and> p < pe"
  using spell_ne [of g] by (auto simp: placed_def add.assoc)

lemma no_paren: "placed b p pe ps \<Longrightarrow> list_all (wf_pat ext) ps \<Longrightarrow> paren_at b flags p = Some False"
  using placed_hd [of b p pe ps ext] by (simp add: paren_at_def)

lemma no_leading_dot: "plain_flags flags \<Longrightarrow> leading_dot str flags string n sc = Some False"
  by (simp add: leading_dot_def plain_flags_def)

lemma langs_Cons_unit:
  assumes "lang flags g = {[d] | d. P d}" and "n \<le> se" and "se \<le> length str"
  shows "seg str n se \<in> langs flags (g # ps) \<longleftrightarrow> n < se \<and> P (str ! n) \<and> seg str (Suc n) se \<in> langs flags ps"
  using seg_conc_unit [OF assms(2,3), of P] by (simp add: assms(1))

text \<open>One turn of the loop, by the folded pattern character and the string character.\<close>

lemma gmatch_turn:
  assumes "p < pe" and "p < length b" and "FOLD flags (b ! p) = c" and "n \<le> se" and "se \<le> length str"
    and "sc = (if n < se then str ! n else NUL)" and "plain_flags flags"
  shows "gmatch ar b str flags string n se p pe =
    (if flags AND FNM_EXTMATCH \<noteq> 0 \<and> char_at b (Suc p) = CHR ''('' \<and> c \<in> set ''+*?@!'' then
       extmatch ar b str c n se (Suc p) pe flags
     else if c = CHR ''?'' then
       (if sc = NUL then Some FNM_NOMATCH else gmatch ar b str flags string (Suc n) se (Suc p) pe)
     else if c = BSLASH then
       (if Suc p = pe then Some FNM_NOMATCH
        else if FOLD flags sc \<noteq> FOLD flags (char_at b (Suc p)) then Some FNM_NOMATCH
        else gmatch ar b str flags string (Suc n) se (p + 2) pe)
     else if c = CHR ''*'' then
       (if Suc p = pe then Some 0 else star_loop ar b str flags n se (Suc p) pe sc)
     else if c = CHR ''['' then
       (if sc = NUL \<or> n = se then Some FNM_NOMATCH
        else do {
          r \<leftarrow> brackmatch ar b (Suc p) sc flags;
          (case r of None \<Rightarrow> Some FNM_NOMATCH | Some q \<Rightarrow> gmatch ar b str flags string (Suc n) se q pe)
        })
     else if c \<noteq> FOLD flags sc then Some FNM_NOMATCH
     else gmatch ar b str flags string (Suc n) se (Suc p) pe)"
proof -
  note unf = gmatch.simps [of ar b str flags string n se p pe]
  have sc: "str_at str n se = Some sc" using assms by (simp add: str_at_eq)
  have pf: "flags AND FNM_PATHNAME = 0" "flags AND FNM_NOESCAPE = 0" using assms(7) by (simp_all add: plain_flags_def)
  have c: "rd b p = Some (b ! p)" "rd b (Suc p) = Some (char_at b (Suc p))" using assms(2) by simp_all
  have par: "paren_at b flags (Suc p) = Some (flags AND FNM_EXTMATCH \<noteq> 0 \<and> char_at b (Suc p) = CHR ''('')"
    using assms(2) by (intro paren_at_eq) simp
  show ?thesis
    unfolding unf sc c par Option.bind.simps(2) Let_def assms(3) no_leading_dot [OF assms(7)] xflags_plain [OF assms(7)] pf
    using assms(1) by (simp only: if_True if_False not_not simp_thms conj_assoc if_not_P refl)
qed

lemma FOLD_of_NUL [simp]: "FOLD f NUL = NUL"
  by simp

lemma matches_nil: "plain_flags flags \<Longrightarrow> placed b p pe [] \<Longrightarrow> matches_at ar b flags [] p pe"
  unfolding matches_at_def
  by (subst gmatch.simps) (auto simp: placed_def plain_flags_def verdict_def seg_Nil)

lemma matches_lit:
  assumes fl: "plain_flags flags" and pl: "placed b p pe (GLit c # ps)" and wf: "c \<noteq> NUL" "list_all (wf_pat ext) ps"
    and IH: "matches_at ar b flags ps (p + length (spell_char c)) pe"
  shows "matches_at ar b flags (GLit c # ps) p pe"
  unfolding matches_at_def
proof (intro allI impI)
  fix str string n se assume s: "c_string str" "n \<le> se" "se \<le> length str"
  let ?sc = "if n < se then str ! n else NUL"
  note pc = placed_Cons [OF pl]
  have *: "gmatch ar b str flags string n se p pe =
      (if FOLD flags ?sc \<noteq> FOLD flags c then Some FNM_NOMATCH
       else gmatch ar b str flags string (Suc n) se (p + length (spell_char c)) pe)"
  proof (cases "c \<in> set specials")
    case True
    then have sp: "spell_char c = [BSLASH, c]" by (simp add: spell_char_def)
    then have b: "b ! p = BSLASH" "b ! Suc p = c" "Suc p < length b" "Suc p < pe" "p < pe"
      using pl by (auto simp: placed_def)
    then have "FOLD flags (b ! p) = BSLASH" by simp
    from gmatch_turn [OF b(5) _ this s(2,3) refl fl, of ar string] b sp show ?thesis by simp
  next
    case False
    then have sp: "spell_char c = [c]" by (simp add: spell_char_def)
    then have b: "b ! p = c" "p < length b" "p < pe" using pl by (auto simp: placed_def)
    have np: "FOLD flags c \<notin> set ''+*?@!''" "FOLD flags c \<noteq> BSLASH" "FOLD flags c \<noteq> CHR ''[''"
      using False FOLD_in_specials [of flags c] by (auto simp: specials_def simp del: FOLD_in_specials)
    have "FOLD flags (b ! p) = FOLD flags c" using b(1) by simp
    from gmatch_turn [OF b(3,2) this s(2,3) refl fl, of ar string] np sp show ?thesis by auto
  qed
  have lc: "lang flags (GLit c) = {[d] | d. FOLD flags d = FOLD flags c}" by simp
  show "gmatch ar b str flags string n se p pe = verdict (seg str n se \<in> langs flags (GLit c # ps))"
  proof (cases "n < se")
    case True
    then show ?thesis
      using * IH s unfolding langs_Cons_unit [OF lc s(2,3)] matches_at_def by (auto simp: verdict_def)
  next
    case False
    then show ?thesis using * wf(1) unfolding langs_Cons_unit [OF lc s(2,3)] by (auto simp: verdict_def)
  qed
qed

lemma matches_any:
  assumes fl: "plain_flags flags" and pl: "placed b p pe (GAny # ps)" and wf: "list_all (wf_pat ext) ps"
    and IH: "matches_at ar b flags ps (Suc p) pe"
  shows "matches_at ar b flags (GAny # ps) p pe"
  unfolding matches_at_def
proof (intro allI impI)
  fix str string n se assume s: "c_string str" "n \<le> se" "se \<le> length str"
  from placed_Cons [OF pl] have b: "p < pe" "p < length b" "FOLD flags (b ! p) = CHR ''?''" "placed b (Suc p) pe ps" by auto
  have "lang flags GAny = {[d] | d. True}" by simp
  from langs_Cons_unit [OF this s(2,3)] gmatch_turn [OF b(1-3) s(2,3) refl fl, of ar string] placed_hd [OF b(4) wf] IH s
  show "gmatch ar b str flags string n se p pe = verdict (seg str n se \<in> langs flags (GAny # ps))"
    by (auto simp: verdict_def matches_at_def c_string_nth)
qed

lemma matches_set:
  assumes fl: "plain_flags flags" and pl: "placed b p pe (GSet neg items # ps)" and wf: "wf_pat ext (GSet neg items)"
    and IH: "matches_at ar b flags ps (p + length (spell (GSet neg items))) pe"
  shows "matches_at ar b flags (GSet neg items # ps) p pe"
  unfolding matches_at_def
proof (intro allI impI)
  fix str string n se assume s: "c_string str" "n \<le> se" "se \<le> length str"
  let ?t = "(if neg then ''!'' else []) @ concat (map spell_brack items) @ '']''"
  from placed_Cons [OF pl] have b: "p < pe" "p < length b" "FOLD flags (b ! p) = CHR ''[''" "text_at b (Suc p) ?t" by auto
  from wf fl have bm: "brackmatch ar b (Suc p) t flags =
      Some (if (\<exists>it \<in> set items. in_brack flags (FOLD flags t) it) \<noteq> neg then Some (Suc p + length ?t) else None)" for t
    by (intro brackmatch_correct [OF b(4)]) (auto simp: plain_flags_def)
  have l: "Suc p + length ?t = p + length (spell (GSet neg items))" by simp
  have "lang flags (GSet neg items) = {[d] | d. (\<exists>it \<in> set items. in_brack flags (FOLD flags d) it) \<noteq> neg}" by simp
  note lg = langs_Cons_unit [OF this s(2,3)]
  note turn = gmatch_turn [OF b(1-3) s(2,3) refl fl, of ar string]
  show "gmatch ar b str flags string n se p pe = verdict (seg str n se \<in> langs flags (GSet neg items # ps))"
  proof (cases "n < se")
    case True
    with c_string_nth [OF s(1), of n] s(3) have "str ! n \<noteq> NUL" by simp
    with True turn bm [of "str ! n", unfolded l] IH s show ?thesis
      unfolding lg matches_at_def by (simp add: verdict_def)
  next
    case False
    with turn s(2) show ?thesis unfolding lg by (simp add: verdict_def)
  qed
qed

lemma matches_star:
  assumes fl: "plain_flags flags" and pl: "placed b p pe (GStar # ps)" and wf: "list_all (wf_pat ext) ps"
    and IH: "ps \<noteq> [] \<Longrightarrow> star_at ar b flags ps (Suc p) pe"
  shows "matches_at ar b flags (GStar # ps) p pe"
  unfolding matches_at_def
proof (intro allI impI)
  fix str string n se assume s: "c_string str" "n \<le> se" "se \<le> length str"
  from placed_Cons [OF pl] have b: "p < pe" "p < length b" "FOLD flags (b ! p) = CHR ''*''" "placed b (Suc p) pe ps" by auto
  have e: "Suc p = pe \<longleftrightarrow> ps = []" using b(4) spell_ne by (cases ps) (auto simp: placed_def)
  from gmatch_turn [OF b(1-3) s(2,3) refl fl, of ar string] placed_hd [OF b(4) wf]
  have t: "gmatch ar b str flags string n se p pe =
      (if ps = [] then Some 0 else star_loop ar b str flags n se (Suc p) pe (if n < se then str ! n else NUL))"
    by (simp add: e)
  show "gmatch ar b str flags string n se p pe = verdict (seg str n se \<in> langs flags (GStar # ps))"
  proof (cases "ps = []")
    case True
    then show ?thesis using t by (auto simp: verdict_def conc_def)
  next
    case False
    then show ?thesis using t IH s by (simp add: star_at_def)
  qed
qed

subsection \<open>After a star\<close>

lemma conc_UNIV: "conc UNIV (conc UNIV A) = conc UNIV A"
  unfolding conc_assoc [symmetric] by (rule arg_cong [where f = "\<lambda>X. conc X A"]) (auto simp: conc_def)

lemma star_turn:
  assumes "p < length b" and "b ! p \<in> set ''?*''" and "char_at b (Suc p) \<noteq> CHR ''(''" and "plain_flags flags"
  shows "star_loop ar b str flags n se p pe sc =
    (if b ! p = CHR ''?'' \<and> sc = NUL then Some FNM_NOMATCH
     else do {
       sc \<leftarrow> (if b ! p = CHR ''?'' then str_at str (Suc n) se else Some sc);
       if Suc p = pe then Some 0
       else star_loop ar b str flags (if b ! p = CHR ''?'' then Suc n else n) se (Suc p) pe sc
     })"
proof -
  note unf = star_loop.simps [of ar b str flags n se p pe sc]
  have r: "rd b p = Some (b ! p)" "paren_at b flags (Suc p) = Some False" using assms by (simp_all add: paren_at_eq)
  have nn: "b ! p \<noteq> NUL" using assms(2) by auto
  show ?thesis
    unfolding unf r Option.bind.simps(2) Let_def using assms(2,4) nn by (auto simp: plain_flags_def cong: if_cong)
qed

lemma star_star:
  assumes fl: "plain_flags flags" and pl: "placed b p pe (GStar # ps)" and wf: "list_all (wf_pat ext) ps"
    and IH: "ps \<noteq> [] \<Longrightarrow> star_at ar b flags ps (Suc p) pe"
  shows "star_at ar b flags (GStar # ps) p pe"
  unfolding star_at_def
proof (intro allI impI)
  fix str n se assume s: "c_string str" "n \<le> se" "se \<le> length str"
  from placed_Cons [OF pl] have b: "p < length b" "b ! p = CHR ''*''" "placed b (Suc p) pe ps" by auto
  have e: "Suc p = pe \<longleftrightarrow> ps = []" using b(3) spell_ne by (cases ps) (auto simp: placed_def)
  have sub: "conc UNIV (langs flags (GStar # ps)) = conc UNIV (langs flags ps)" by (simp add: conc_UNIV)
  have all: "ps = [] \<Longrightarrow> seg str n se \<in> conc UNIV (langs flags ps)" by (auto simp: conc_def)
  show "star_loop ar b str flags n se p pe (if n < se then str ! n else NUL) =
      verdict (seg str n se \<in> conc UNIV (langs flags (GStar # ps)))"
    unfolding sub using star_turn [OF b(1) _ _ fl] b(2) placed_hd [OF b(3) wf] e IH s all
    by (auto simp: verdict_def star_at_def)
qed

lemma star_any:
  assumes fl: "plain_flags flags" and pl: "placed b p pe (GAny # ps)" and wf: "list_all (wf_pat ext) ps"
    and IH: "ps \<noteq> [] \<Longrightarrow> star_at ar b flags ps (Suc p) pe"
  shows "star_at ar b flags (GAny # ps) p pe"
  unfolding star_at_def
proof (intro allI impI)
  fix str n se assume s: "c_string str" "n \<le> se" "se \<le> length str"
  from placed_Cons [OF pl] have b: "p < length b" "b ! p = CHR ''?''" "placed b (Suc p) pe ps" by auto
  have e: "Suc p = pe \<longleftrightarrow> ps = []" using b(3) spell_ne by (cases ps) (auto simp: placed_def)
  note turn = star_turn [OF b(1) _ _ fl, of ar str n se pe]
  have "conc UNIV {[d] | d. True} = conc {[d] | d. True} UNIV"
  proof -
    have "w \<in> conc UNIV {[d] | d. True} \<longleftrightarrow> w \<noteq> []" for w :: string
      by (auto simp: conc_def) (metis append_butlast_last_id)
    moreover have "w \<in> conc {[d] | d. True} UNIV \<longleftrightarrow> w \<noteq> []" for w :: string
      by (auto simp: conc_def) (metis append_Cons append_Nil list.exhaust)
    ultimately show ?thesis by blast
  qed
  then have sub: "conc UNIV (langs flags (GAny # ps)) = conc {[d] | d. True} (conc UNIV (langs flags ps))"
    by (simp flip: conc_assoc)
  have all: "ps = [] \<Longrightarrow> x \<in> conc UNIV (langs flags ps)" for x by (auto simp: conc_def)
  show "star_loop ar b str flags n se p pe (if n < se then str ! n else NUL) =
      verdict (seg str n se \<in> conc UNIV (langs flags (GAny # ps)))"
  proof (cases "n < se")
    case True
    with c_string_nth [OF s(1), of n] s(3) have "str ! n \<noteq> NUL" by simp
    then show ?thesis
      unfolding sub seg_conc_unit [OF s(2,3)] using True turn b(2) placed_hd [OF b(3) wf] e IH s all
      by (auto simp: verdict_def star_at_def str_at_eq)
  next
    case False
    then show ?thesis
      unfolding sub seg_conc_unit [OF s(2,3)] using turn b(2) placed_hd [OF b(3) wf] by (auto simp: verdict_def)
  qed
qed

text \<open>
  At an element that takes exactly one character the loop tries every place of the string, and
  skips those where the first character cannot match.
\<close>

lemma star_places:
  assumes fl: "plain_flags flags" and p: "p < length b" "b ! p \<notin> set ''?*!''"
    and skip: "\<And>d. \<exists>sk. first_char_differs b flags (b ! p) (FOLD flags (if b ! p = BSLASH then char_at b (Suc p) else b ! p)) p d = Some sk \<and>
                  (sk \<longrightarrow> (\<forall>w. d # w \<notin> langs flags ps))"
    and ne: "[] \<notin> langs flags ps" and IH: "matches_at ar b flags ps p pe"
  shows "star_at ar b flags ps p pe"
  unfolding star_at_def
proof (intro allI impI)
  fix str n se assume s: "c_string str" "n \<le> se" "se \<le> length str"
  let ?c1 = "FOLD flags (if b ! p = BSLASH then char_at b (Suc p) else b ! p)"
  let ?sc = "if n < se then str ! n else NUL"
  have fl': "flags AND NOT FNM_PERIOD = flags" "flags AND FNM_NOESCAPE = 0"
    using fl by (simp_all add: plain_flags_def and_not_disjoint)
  have r: "rd b p = Some (b ! p)" "rd b (Suc p) = Some (char_at b (Suc p))"
    "\<exists>x. (if b ! p = NUL then Some False else paren_at b flags (Suc p)) = Some x" using p by (auto simp: paren_at_eq)
  let ?f = "\<lambda>k. do { d \<leftarrow> rd str k; sk \<leftarrow> first_char_differs b flags (b ! p) ?c1 p d;
                     if sk then Some FNM_NOMATCH else gmatch ar b str flags k k se p pe }"
  have "?f k = verdict (seg str k se \<in> langs flags ps)" if "k \<in> set [n..<se]" for k
  proof -
    from that s have k: "k < se" "k \<le> length str" "k < length str" by auto
    obtain sk where sk: "first_char_differs b flags (b ! p) ?c1 p (str ! k) = Some sk" "sk \<longrightarrow> (\<forall>w. str ! k # w \<notin> langs flags ps)"
      using skip by blast
    have "rd str k = Some (str ! k)" using k by simp
    then show ?thesis using sk IH s k seg_Cons [of k se str] unfolding matches_at_def by (auto simp: verdict_def)
  qed
  then have az: "any_zero ?f [n..<se] = Some (\<exists>k \<in> set [n..<se]. seg str k se \<in> langs flags ps)"
    unfolding verdict_def by (rule any_zero_iff)
  have "(\<exists>k \<in> set [n..<se]. seg str k se \<in> langs flags ps) \<longleftrightarrow> (\<exists>k \<in> set [n..<Suc se]. seg str k se \<in> langs flags ps)"
    using ne s seg_Nil [of se str se] by auto
  also have "\<dots> \<longleftrightarrow> seg str n se \<in> conc UNIV (langs flags ps)"
    using seg_conc [OF s(2,3), of UNIV] by simp
  finally have lg: "(\<exists>k \<in> set [n..<se]. seg str k se \<in> langs flags ps) \<longleftrightarrow> seg str n se \<in> conc UNIV (langs flags ps)" .
  from r(3) obtain x where x: "(if b ! p = NUL then Some False else paren_at b flags (Suc p)) = Some x" by blast
  have c: "(if flags AND FNM_NOESCAPE = 0 \<and> b ! p = BSLASH then rd b (Suc p) else Some (b ! p)) =
      Some (if b ! p = BSLASH then char_at b (Suc p) else b ! p)" using r(2) fl'(2) by simp
  have cc: "b ! p \<noteq> CHR ''?''" "b ! p \<noteq> CHR ''*''" "b ! p \<noteq> CHR ''!''" using p(2) by auto
  show "star_loop ar b str flags n se p pe ?sc = verdict (seg str n se \<in> conc UNIV (langs flags ps))"
    unfolding star_loop.simps [of ar b str flags n se p pe ?sc] r(1) Option.bind.simps(2) x c fl'(1)
    by (simp only: cc simp_thms if_False Option.bind.simps(2) az lg verdict_def)
qed

lemma star_lit:
  assumes fl: "plain_flags flags" and pl: "placed b p pe (GLit c # ps)" and wf: "c \<noteq> NUL"
    and IH: "matches_at ar b flags (GLit c # ps) p pe"
  shows "star_at ar b flags (GLit c # ps) p pe"
proof (rule star_places [OF fl _ _ _ _ IH])
  show "[] \<notin> langs flags (GLit c # ps)" by (auto simp: conc_def)
  from placed_Cons [OF pl] have t: "text_at b p (spell_char c)" by simp
  then show p: "p < length b" and "b ! p \<notin> set ''?*!''" by (auto simp: spell_char_def specials_def split: if_splits)
  from t have "FOLD flags (if b ! p = BSLASH then char_at b (Suc p) else b ! p) = FOLD flags c"
    by (auto simp: spell_char_def specials_def split: if_splits)
  then show "\<exists>sk. first_char_differs b flags (b ! p) (FOLD flags (if b ! p = BSLASH then char_at b (Suc p) else b ! p)) p d = Some sk \<and>
      (sk \<longrightarrow> (\<forall>w. d # w \<notin> langs flags (GLit c # ps)))" for d
    using p by (auto simp: first_char_differs_def conc_def)
qed

lemma star_set:
  assumes fl: "plain_flags flags" and pl: "placed b p pe (GSet neg items # ps)"
    and IH: "matches_at ar b flags (GSet neg items # ps) p pe"
  shows "star_at ar b flags (GSet neg items # ps) p pe"
proof (rule star_places [OF fl _ _ _ _ IH])
  show "[] \<notin> langs flags (GSet neg items # ps)" by (auto simp: conc_def)
  from placed_Cons [OF pl] have t: "p < length b" "b ! p = CHR ''[''" by auto
  then show "p < length b" and "b ! p \<notin> set ''?*!''" by auto
  show "\<exists>sk. first_char_differs b flags (b ! p) (FOLD flags (if b ! p = BSLASH then char_at b (Suc p) else b ! p)) p d = Some sk \<and>
      (sk \<longrightarrow> (\<forall>w. d # w \<notin> langs flags (GSet neg items # ps)))" for d
    using t by (auto simp: first_char_differs_def)
qed

subsection \<open>Extended patterns\<close>

abbreviation alts_lang :: "int \<Rightarrow> gpat list list \<Rightarrow> string set" where
  "alts_lang flags alts \<equiv> \<Union> (set (map (langs flags) alts))"

definition alts_at :: "bool \<Rightarrow> string \<Rightarrow> int \<Rightarrow> gpat list list \<Rightarrow> (nat \<times> nat) list \<Rightarrow> bool" where
  "alts_at ar b flags alts as \<longleftrightarrow> list_all2 (\<lambda>x alt. matches_at ar b flags alt (fst x) (snd x)) as alts"

lemma ext_scan:
  assumes pl: "placed b p pe (GExt x alts # ps)" and wf: "wf_pat ext (GExt x alts)"
  shows "glob_patscan b (Suc (Suc p)) pe NUL = Some (Some (p + length (spell (GExt x alts))))"
    and "alternatives b pe (p + length (spell (GExt x alts))) (Suc (Suc p)) = (spans (Suc (Suc p)) (map spells alts), True)"
    and "list_all2 (\<lambda>y alt. spans_text b y (spells alt)) (spans (Suc (Suc p)) (map spells alts)) alts"
    and "p < length b" "b ! p = xchar x" "b ! Suc p = CHR ''(''" "Suc p < length b" "p < pe"
proof -
  let ?s = "bars (map spells alts)"
  from placed_Cons [OF pl] have t: "text_at b (Suc (Suc p)) (?s @ '')'')" and h: "p < length b" "b ! p = xchar x" "b ! Suc p = CHR ''(''"
    "Suc p < length b" "p < pe" by auto
  from pl have e: "Suc (Suc p) + length ?s < pe" by (auto simp: placed_def)
  have l: "p + length (spell (GExt x alts)) = Suc (Suc (Suc p) + length ?s)" by simp
  have sc: "scanned b pe d k (spells alt)" if "alt \<in> set alts" "0 \<le> k" for alt d k
    using that wf by (intro scanned_pats [of ext]) (auto simp: list_all_iff)
  have "scanned b pe NUL 0 ?s" by (intro scanned_bars) (auto intro: sc)
  then show "glob_patscan b (Suc (Suc p)) pe NUL = Some (Some (p + length (spell (GExt x alts))))"
    unfolding l by (intro patscan_close [OF t _ e])
  show "alternatives b pe (p + length (spell (GExt x alts))) (Suc (Suc p)) = (spans (Suc (Suc p)) (map spells alts), True)"
    unfolding l using wf by (intro alternatives_spans [OF t _ _ e]) (auto intro: sc)
  have "list_all2 (spans_text b) (spans (Suc (Suc p)) (map spells alts)) (map spells alts)"
    using wf by (intro spans_texts [OF t]) auto
  then show "list_all2 (\<lambda>y alt. spans_text b y (spells alt)) (spans (Suc (Suc p)) (map spells alts)) alts"
    by (simp add: list_all2_map2)
  show "p < length b" "b ! p = xchar x" "b ! Suc p = CHR ''(''" "Suc p < length b" "p < pe" by fact+
qed

lemma spans_text_placed: "spans_text b y (spells alt) \<Longrightarrow> placed b (fst y) (snd y) alt"
  by (auto simp: spans_text_def placed_def)

text \<open>Trying each alternative with each place where it may end.\<close>

lemma alts_any:
  assumes "alts_at ar b flags alts as"
    and "\<And>u v alt. matches_at ar b flags alt u v \<Longrightarrow> f (u, v) = verdict (\<exists>k \<in> set ks. seg str s k \<in> langs flags alt \<and> Q k)"
  shows "any_zero f as = Some (\<exists>k \<in> set ks. seg str s k \<in> alts_lang flags alts \<and> Q k)"
proof -
  have "f x = Some (if \<exists>k \<in> set ks. seg str s k \<in> langs flags alt \<and> Q k then 0 else FNM_NOMATCH)"
    if "matches_at ar b flags alt (fst x) (snd x)" for x alt
    using assms(2) [OF that] by (simp add: verdict_def)
  with assms(1) have "any_zero f as = Some (\<exists>alt \<in> set alts. \<exists>k \<in> set ks. seg str s k \<in> langs flags alt \<and> Q k)"
    unfolding alts_at_def by (rule any_zero_list_all2)
  then show ?thesis by auto
qed

lemma places_any:
  assumes "\<And>k. k \<in> set ks \<Longrightarrow> f k = verdict (P k)"
  shows "do { m \<leftarrow> any_zero f ks; Some (if m then 0 else FNM_NOMATCH) } = verdict (\<exists>k \<in> set ks. P k)"
  using any_zero_iff [of ks f P] assms by (simp add: verdict_def)

lemma verdict_zero [simp]: "(do { m \<leftarrow> verdict P; if m = 0 then A else B }) = (if P then A else B)"
  "(do { m \<leftarrow> verdict P; if m \<noteq> 0 then B else A }) = (if P then A else B)"
  by (simp_all add: verdict_def FNM_NOMATCH_def)

lemma alts_any_places:
  assumes as: "alts_at ar b flags alts as" and s: "c_string str" "se \<le> length str" "\<forall>k \<in> set ks. s \<le> k \<and> k \<le> se"
    and f: "\<And>k. k \<in> set ks \<Longrightarrow> f k = verdict (Q k)"
  shows "any_zero (\<lambda>(psub, pend).
      do {
        m \<leftarrow> any_zero (\<lambda>k. do { m1 \<leftarrow> gmatch ar b str flags s s k psub pend; if m1 \<noteq> 0 then Some FNM_NOMATCH else f k }) ks;
        Some (if m then 0 else FNM_NOMATCH)
      }) as = Some (\<exists>k \<in> set ks. seg str s k \<in> alts_lang flags alts \<and> Q k)"
proof (rule alts_any [OF as], unfold prod.case, rule places_any)
  fix u v alt k assume m: "matches_at ar b flags alt u v" and k: "k \<in> set ks"
  then have "gmatch ar b str flags s s k u v = verdict (seg str s k \<in> langs flags alt)"
    using s unfolding matches_at_def by fastforce
  then show "do { m1 \<leftarrow> gmatch ar b str flags s s k u v; if m1 \<noteq> 0 then Some FNM_NOMATCH else f k } =
      verdict (seg str s k \<in> langs flags alt \<and> Q k)"
    using f [OF k] by (simp only: verdict_zero) (simp add: verdict_def)
qed

text \<open>The turn of the loop at an extended pattern.\<close>

lemma ext_turn:
  assumes fl: "plain_flags flags" "flags AND FNM_EXTMATCH \<noteq> 0" and pl: "placed b p pe (GExt x alts # ps)" and wf: "wf_pat ext (GExt x alts)"
    and s: "n \<le> se" "se \<le> length str"
  shows "gmatch ar b str flags string n se p pe = extmatch ar b str (xchar x) n se (Suc p) pe flags"
proof -
  note sc = ext_scan [OF pl wf]
  have "xchar x \<in> set ''+*?@!''" "xchar x \<in> set specials" by (cases x; simp add: specials_def)+
  moreover from this have "FOLD flags (b ! p) = xchar x" using sc by simp
  ultimately show ?thesis using gmatch_turn [OF sc(8,4) _ s refl fl(1)] sc(6,7) fl(2) by simp
qed

lemma none_or:
  "do { none \<leftarrow> (if m then verdict P else Some FNM_NOMATCH);
        if none = 0 then Some 0 else if Q then Some 0 else Some FNM_NOMATCH } = verdict (m \<and> P \<or> Q)"
  by (simp add: verdict_def FNM_NOMATCH_def)

lemma conc_option: "conc (insert [] A) B = B \<union> conc A B"
  unfolding conc_def by force

lemma matches_ext_one:
  assumes fl: "plain_flags flags" "flags AND FNM_EXTMATCH \<noteq> 0" and pl: "placed b p pe (GExt x alts # ps)" and wf: "wf_pat ext (GExt x alts)"
    and rest: "matches_at ar b flags ps (p + length (spell (GExt x alts))) pe"
    and as: "alts_at ar b flags alts (spans (Suc (Suc p)) (map spells alts))" and x: "x = XOpt \<or> x = XOne"
  shows "matches_at ar b flags (GExt x alts # ps) p pe"
  unfolding matches_at_def
proof (intro allI impI)
  fix str string n se assume s: "c_string str" "n \<le> se" "se \<le> length str"
  note sc = ext_scan [OF pl wf]
  let ?q = "p + length (spell (GExt x alts))" and ?A = "alts_lang flags alts" and ?B = "langs flags ps"
  let ?ks = "[if ?q = pe then se else n..<Suc se]"
  note turn = ext_turn [OF fl pl wf s(2,3), of ar string]
  have B: "gmatch ar b str flags k k se ?q pe = verdict (seg str k se \<in> ?B)" if "k \<in> set [n..<Suc se]" for k
    using rest s that unfolding matches_at_def by auto
  have ks: "k \<in> set ?ks \<Longrightarrow> k \<in> set [n..<Suc se] \<and> n \<le> k \<and> k \<le> se" for k using s(2) by (auto split: if_splits)
  have q: "?q = pe \<Longrightarrow> ps = []" using pl by (cases ps) (auto simp: placed_def spell_ne)
  have "any_zero (\<lambda>(psub, pend).
      do {
        m \<leftarrow> any_zero (\<lambda>k. do { m1 \<leftarrow> gmatch ar b str flags n n k psub pend;
                                if m1 \<noteq> 0 then Some FNM_NOMATCH else gmatch ar b str flags k k se ?q pe }) ?ks;
        Some (if m then 0 else FNM_NOMATCH)
      }) (spans (Suc (Suc p)) (map spells alts)) = Some (\<exists>k \<in> set ?ks. seg str n k \<in> ?A \<and> seg str k se \<in> ?B)"
    by (rule alts_any_places [OF as s(1,3)]) (blast dest: ks intro: B)+
  also have "(\<exists>k \<in> set ?ks. seg str n k \<in> ?A \<and> seg str k se \<in> ?B) \<longleftrightarrow> seg str n se \<in> conc ?A ?B"
  proof (cases "?q = pe")
    case True
    then have "seg str k se \<in> ?B \<longleftrightarrow> k = se" if "k \<in> set [n..<Suc se]" for k using q seg_Nil [OF s(3), of k] that by auto
    then show ?thesis unfolding seg_conc [OF s(2,3)] using True s(2) by auto
  qed (simp add: seg_conc [OF s(2,3)])
  finally have az: "any_zero (\<lambda>(psub, pend).
      do {
        m \<leftarrow> any_zero (\<lambda>k. do { m1 \<leftarrow> gmatch ar b str flags n n k psub pend;
                                if m1 \<noteq> 0 then Some FNM_NOMATCH else gmatch ar b str flags k k se ?q pe }) ?ks;
        Some (if m then 0 else FNM_NOMATCH)
      }) (spans (Suc (Suc p)) (map spells alts)) = Some (seg str n se \<in> conc ?A ?B)" .
  have r: "rd b (Suc p) = Some (CHR ''('')" using sc by simp
  have nx: "xchar x \<noteq> CHR ''+''" "xchar x \<noteq> CHR ''*''" "xchar x = CHR ''?'' \<or> xchar x = CHR ''@''" "xchar x = CHR ''?'' \<longleftrightarrow> x = XOpt"
    using x by auto
  have n: "gmatch ar b str flags n n se ?q pe = verdict (seg str n se \<in> ?B)" using s(2) by (intro B) auto
  have "extmatch ar b str (xchar x) n se (Suc p) pe flags =
      verdict (x = XOpt \<and> seg str n se \<in> ?B \<or> seg str n se \<in> conc ?A ?B)"
    unfolding extmatch.simps [of ar b str "xchar x" n se "Suc p"] r Option.bind.simps(2)
    unfolding simp_thms if_True sc(1) Option.bind.simps(2) option.case sc(2) prod.case xflags_plain [OF fl(1)] nx if_False az n
    using x by (auto simp: verdict_def FNM_NOMATCH_def)
  moreover have "langs flags (GExt x alts # ps) = (if x = XOpt then ?B \<union> conc ?A ?B else conc ?A ?B)"
    using x by (elim disjE) (simp_all add: conc_option)
  ultimately show "gmatch ar b str flags string n se p pe = verdict (seg str n se \<in> langs flags (GExt x alts # ps))"
    unfolding turn by simp
qed

lemma matches_ext_not:
  assumes fl: "plain_flags flags" "flags AND FNM_EXTMATCH \<noteq> 0" and pl: "placed b p pe (GExt XNot alts # ps)" and wf: "wf_pat ext (GExt XNot alts)"
    and rest: "matches_at ar b flags ps (p + length (spell (GExt XNot alts))) pe"
    and as: "alts_at ar b flags alts (spans (Suc (Suc p)) (map spells alts))"
  shows "matches_at ar b flags (GExt XNot alts # ps) p pe"
  unfolding matches_at_def
proof (intro allI impI)
  fix str string n se assume s: "c_string str" "n \<le> se" "se \<le> length str"
  note sc = ext_scan [OF pl wf]
  note turn = ext_turn [OF fl pl wf s(2,3), of ar string]
  let ?q = "p + length (spell (GExt XNot alts))" and ?A = "alts_lang flags alts" and ?B = "langs flags ps"
  let ?as = "spans (Suc (Suc p)) (map spells alts)"
  let ?f = "\<lambda>k. do { m1 \<leftarrow> any_zero (\<lambda>(psub, pend). gmatch ar b str flags n n k psub pend) ?as;
                      if m1 then Some FNM_NOMATCH else gmatch ar b str flags k k se ?q pe }"
  have "?f k = verdict (seg str n k \<in> - ?A \<and> seg str k se \<in> ?B)" if k: "k \<in> set [n..<Suc se]" for k
  proof -
    have B: "gmatch ar b str flags k k se ?q pe = verdict (seg str k se \<in> ?B)"
      using rest s k unfolding matches_at_def by auto
    have "any_zero (\<lambda>(psub, pend). gmatch ar b str flags n n k psub pend) ?as =
        Some (\<exists>j \<in> set [k]. seg str n j \<in> ?A \<and> True)"
      using s k by (intro alts_any [OF as]) (auto simp: matches_at_def)
    then show ?thesis using B by (auto simp: verdict_def)
  qed
  from places_any [of _ ?f, OF this]
  have f: "do { m \<leftarrow> any_zero ?f [n..<Suc se]; Some (if m then 0 else FNM_NOMATCH) } =
      verdict (seg str n se \<in> conc (- ?A) ?B)" unfolding seg_conc [OF s(2,3)] by blast
  have r: "rd b (Suc p) = Some (CHR ''('')" using sc by simp
  have nx: "xchar XNot = CHR ''!''" "CHR ''!'' \<noteq> CHR ''?''" "CHR ''!'' \<noteq> CHR ''@''" "CHR ''!'' \<noteq> CHR ''+''" "CHR ''!'' \<noteq> CHR ''*''"
    by simp_all
  have "extmatch ar b str (xchar XNot) n se (Suc p) pe flags = verdict (seg str n se \<in> conc (- ?A) ?B)"
    unfolding extmatch.simps [of ar b str "xchar XNot" n se "Suc p"] r Option.bind.simps(2)
    unfolding simp_thms if_True sc(1) Option.bind.simps(2) option.case sc(2) prod.case xflags_plain [OF fl(1)] nx if_False f by simp
  then show "gmatch ar b str flags string n se p pe = verdict (seg str n se \<in> langs flags (GExt XNot alts # ps))"
    unfolding turn by simp
qed

text \<open>
  A repeated pattern is tried again from the place where an alternative ended, if that is further
  on: the places are finitely many, so that the proof goes by the length of what is left.
\<close>

definition repeats :: "xop \<Rightarrow> string set \<Rightarrow> string set \<Rightarrow> string set" where
  "repeats x A B = conc (xlang x A) B"

lemma repeats_split:
  assumes "x = XMany \<or> x = XSome" and "n \<le> se" and "se \<le> length str"
  shows "seg str n se \<in> repeats x A B \<longleftrightarrow> x = XMany \<and> seg str n se \<in> B \<or>
    (\<exists>k \<in> set [n..<Suc se]. seg str n k \<in> A \<and> (seg str k se \<in> B \<or> n < k \<and> seg str k se \<in> repeats x A B))"
proof -
  have "seg str n se \<in> repeats x A B \<longleftrightarrow> x = XMany \<and> seg str n se \<in> B \<or>
      (\<exists>u v. seg str n se = u @ v \<and> (u \<in> A \<and> (v \<in> B \<or> u \<noteq> [] \<and> v \<in> repeats x A B)))"
    using assms(1)
  proof
    assume "x = XMany"
    then show ?thesis unfolding repeats_def using conc_kstar_split [of "seg str n se" A B] by simp
  next
    assume "x = XSome"
    then show ?thesis unfolding repeats_def using conc_some_split [of "seg str n se" A B] by simp
  qed
  also have "(\<exists>u v. seg str n se = u @ v \<and> (u \<in> A \<and> (v \<in> B \<or> u \<noteq> [] \<and> v \<in> repeats x A B))) \<longleftrightarrow>
      (\<exists>k \<in> set [n..<Suc se]. seg str n k \<in> A \<and> (seg str k se \<in> B \<or> seg str n k \<noteq> [] \<and> seg str k se \<in> repeats x A B))"
    by (rule seg_split [OF assms(2,3)])
  also have "\<dots> \<longleftrightarrow> (\<exists>k \<in> set [n..<Suc se]. seg str n k \<in> A \<and> (seg str k se \<in> B \<or> n < k \<and> seg str k se \<in> repeats x A B))"
    using assms(3) by (intro bex_cong) (auto simp: seg_Nil)
  finally show ?thesis .
qed

lemma matches_ext_many:
  assumes fl: "plain_flags flags" "flags AND FNM_EXTMATCH \<noteq> 0" and pl: "placed b p pe (GExt x alts # ps)" and wf: "wf_pat ext (GExt x alts)"
    and rest: "matches_at ar b flags ps (p + length (spell (GExt x alts))) pe"
    and as: "alts_at ar b flags alts (spans (Suc (Suc p)) (map spells alts))" and x: "x = XMany \<or> x = XSome"
    and s: "c_string str" "n \<le> se" "se \<le> length str"
  shows "gmatch ar b str flags string n se p pe = verdict (seg str n se \<in> repeats x (alts_lang flags alts) (langs flags ps))"
  using s(2)
proof (induction "se - n" arbitrary: n string rule: less_induct)
  case less
  note n = less.prems
  note sc = ext_scan [OF pl wf]
  let ?q = "p + length (spell (GExt x alts))" and ?A = "alts_lang flags alts" and ?B = "langs flags ps"
  let ?R = "repeats x ?A ?B" and ?as = "spans (Suc (Suc p)) (map spells alts)"
  let ?f = "\<lambda>k. do { m2 \<leftarrow> gmatch ar b str flags k k se ?q pe;
                      if m2 = 0 then Some 0 else if n < k then gmatch ar b str flags k k se p pe else Some FNM_NOMATCH }"
  have B: "gmatch ar b str flags k k se ?q pe = verdict (seg str k se \<in> ?B)" if "k \<in> set [n..<Suc se]" for k
    using rest s n that unfolding matches_at_def by auto
  have f: "?f k = verdict (seg str k se \<in> ?B \<or> n < k \<and> seg str k se \<in> ?R)" if k: "k \<in> set [n..<Suc se]" for k
  proof -
    have "n < k \<Longrightarrow> gmatch ar b str flags k k se p pe = verdict (seg str k se \<in> ?R)"
      using k n by (intro less.hyps) auto
    then show ?thesis unfolding B [OF k] verdict_zero by (auto simp: verdict_def)
  qed
  have az: "any_zero (\<lambda>(psub, pend).
      do {
        m \<leftarrow> any_zero (\<lambda>k. do { m1 \<leftarrow> gmatch ar b str flags n n k psub pend; if m1 \<noteq> 0 then Some FNM_NOMATCH else ?f k }) [n..<Suc se];
        Some (if m then 0 else FNM_NOMATCH)
      }) ?as = Some (\<exists>k \<in> set [n..<Suc se]. seg str n k \<in> ?A \<and> (seg str k se \<in> ?B \<or> n < k \<and> seg str k se \<in> ?R))"
    using f by (intro alts_any_places [OF as s(1,3)]) auto
  have r: "rd b (Suc p) = Some (CHR ''('')" using sc by simp
  have nx: "xchar x = CHR ''*'' \<longleftrightarrow> x = XMany" "xchar x = CHR ''+'' \<or> x = XMany" using x by auto
  have Bn: "gmatch ar b str flags n n se ?q pe = verdict (seg str n se \<in> ?B)" using n by (intro B) auto
  have "extmatch ar b str (xchar x) n se (Suc p) pe flags = verdict (seg str n se \<in> ?R)"
    unfolding extmatch.simps [of ar b str "xchar x" n se "Suc p"] r Option.bind.simps(2) repeats_split [OF x n s(3), of ?A ?B]
    unfolding simp_thms if_True sc(1) Option.bind.simps(2) option.case sc(2) prod.case xflags_plain [OF fl(1)] nx(1) if_False diff_Suc_1 az Bn
    unfolding if_P [OF nx(2)] by (rule none_or)
  then show ?case unfolding ext_turn [OF fl pl wf n s(3), of ar string] .
qed

lemma matches_ext:
  assumes fl: "plain_flags flags" "flags AND FNM_EXTMATCH \<noteq> 0" and pl: "placed b p pe (GExt x alts # ps)" and wf: "wf_pat ext (GExt x alts)"
    and rest: "matches_at ar b flags ps (p + length (spell (GExt x alts))) pe"
    and as: "alts_at ar b flags alts (spans (Suc (Suc p)) (map spells alts))"
  shows "matches_at ar b flags (GExt x alts # ps) p pe"
proof -
  consider "x = XOpt \<or> x = XOne" | "x = XNot" | "x = XMany \<or> x = XSome" by (cases x) auto
  then show ?thesis
  proof cases
    case 1
    then show ?thesis using assms by (intro matches_ext_one)
  next
    case 2
    then show ?thesis using assms by (auto intro: matches_ext_not)
  next
    case 3
    have "langs flags (GExt x alts # ps) = repeats x (alts_lang flags alts) (langs flags ps)" by (simp add: repeats_def)
    then show ?thesis unfolding matches_at_def by (simp only:) (intro allI impI matches_ext_many [OF assms 3])
  qed
qed

subsection \<open>All patterns\<close>

lemma bars_length: "s \<in> set ss \<Longrightarrow> length s \<le> length (bars ss)"
  by (induction ss rule: bars.induct) auto

lemma star_ok_tl: "star_ok (g # ps) \<Longrightarrow> star_ok ps"
  by (cases g) auto

definition handled :: "bool \<Rightarrow> string \<Rightarrow> int \<Rightarrow> gpat list \<Rightarrow> nat \<Rightarrow> nat \<Rightarrow> bool" where
  "handled ar b flags ps p pe \<longleftrightarrow>
     matches_at ar b flags ps p pe \<and> (ps \<noteq> [] \<and> \<not> ext_next ps \<longrightarrow> star_at ar b flags ps p pe)"

lemma handled_Cons:
  assumes fl: "plain_flags flags" and ext: "ext \<longleftrightarrow> flags AND FNM_EXTMATCH \<noteq> 0"
    and wf: "wf_pats ext (g # ps)" and pl: "placed b p pe (g # ps)"
    and rest: "handled ar b flags ps (p + length (spell g)) pe"
    and alts: "\<And>x alts alt y. g = GExt x alts \<Longrightarrow> alt \<in> set alts \<Longrightarrow> placed b (fst y) (snd y) alt \<Longrightarrow>
                 matches_at ar b flags alt (fst y) (snd y)"
  shows "handled ar b flags (g # ps) p pe"
proof -
  have w: "wf_pat ext g" "list_all (wf_pat ext) ps" using wf by (auto simp: wf_pats_def)
  show ?thesis
  proof (cases g)
    case (GLit c)
    then have "matches_at ar b flags (g # ps) p pe" using w pl rest matches_lit [OF fl] by (auto simp: handled_def)
    then show ?thesis using GLit pl w star_lit [OF fl] by (auto simp: handled_def)
  next
    case GAny
    have "matches_at ar b flags (g # ps) p pe" using GAny w pl rest matches_any [OF fl] by (auto simp: handled_def)
    moreover have "\<not> ext_next (g # ps) \<Longrightarrow> star_at ar b flags (g # ps) p pe"
      using GAny pl rest star_any [OF fl _ w(2)] by (auto simp: handled_def)
    ultimately show ?thesis by (simp add: handled_def)
  next
    case GStar
    then have "\<not> ext_next ps" using wf by (simp add: wf_pats_def)
    then have r: "ps \<noteq> [] \<Longrightarrow> star_at ar b flags ps (Suc p) pe" using rest GStar by (simp add: handled_def)
    show ?thesis using GStar pl r matches_star [OF fl _ w(2)] star_star [OF fl _ w(2)] by (auto simp: handled_def)
  next
    case (GSet neg items)
    then have "matches_at ar b flags (g # ps) p pe"
      using w pl rest matches_set [OF fl, of b p pe neg items ps ext ar] by (auto simp: handled_def)
    then show ?thesis using GSet pl star_set [OF fl] by (auto simp: handled_def)
  next
    case (GExt x as)
    note pl' = pl [unfolded GExt] and w' = w(1) [unfolded GExt]
    have "list_all2 (\<lambda>y alt. matches_at ar b flags alt (fst y) (snd y)) (spans (Suc (Suc p)) (map spells as)) as"
      by (rule list.rel_mono_strong [OF ext_scan(3) [OF pl' w']]) (auto intro: alts [OF GExt] spans_text_placed)
    then have "alts_at ar b flags as (spans (Suc (Suc p)) (map spells as))" by (simp add: alts_at_def)
    then have "matches_at ar b flags (GExt x as # ps) p pe"
      using ext w' rest GExt by (intro matches_ext [OF fl _ pl' w']) (auto simp: handled_def)
    then show ?thesis using GExt by (simp add: handled_def)
  qed
qed

lemma all_handled:
  assumes fl: "plain_flags flags" and ext: "ext \<longleftrightarrow> flags AND FNM_EXTMATCH \<noteq> 0"
  shows "wf_pats ext ps \<Longrightarrow> placed b p pe ps \<Longrightarrow> handled ar b flags ps p pe"
proof (induction "length (spells ps)" arbitrary: ps p pe rule: less_induct)
  case less
  show ?case
  proof (cases ps)
    case Nil
    then show ?thesis using matches_nil [OF fl] less.prems(2) by (simp add: handled_def)
  next
    case (Cons g gs)
    have w: "wf_pats ext gs" using less.prems(1) Cons star_ok_tl by (auto simp: wf_pats_def)
    have "handled ar b flags gs (p + length (spell g)) pe"
      using Cons w placed_Cons [of b p pe g gs] less.prems(2) spell_ne [of g] by (intro less.hyps) auto
    moreover have "matches_at ar b flags alt (fst y) (snd y)"
      if g: "g = GExt x alts" and alt: "alt \<in> set alts" and pl: "placed b (fst y) (snd y) alt" for x alts alt y
    proof -
      have "wf_pats ext alt" using less.prems(1) Cons g alt by (auto simp: wf_pats_def list_all_iff)
      moreover have "length (spells alt) < length (spells ps)"
        using Cons g bars_length [of "spells alt" "map spells alts"] alt by auto
      ultimately show ?thesis using less.hyps [of alt] pl by (auto simp: handled_def)
    qed
    ultimately show ?thesis using handled_Cons [OF fl ext] less.prems Cons by blast
  qed
qed

text \<open>
  C3. The matcher decides the language of the pattern. For a pattern tree without null characters,
  with bracket expressions and alternatives that are not empty and no range up to an opening bracket, in which no star, at any level, is followed by an
  extended pattern, be it directly or behind further stars and question marks (\<open>star_ok\<close>; lemma \<open>star_optional_matches_all\<close> shows what happens
  there), and for flags without \<^verbatim>\<open>FNM_PATHNAME\<close>, \<^verbatim>\<open>FNM_PERIOD\<close>, \<^verbatim>\<open>FNM_NOESCAPE\<close> and \<^verbatim>\<open>FNM_LEADING_DIR\<close> (\<open>plain_flags\<close>), \<open>strmatch\<close> reads only inside its
  two strings, ends, and returns 0 exactly when the string is in the meaning of the pattern and
  \<open>FNM_NOMATCH\<close> otherwise; with \<open>FNM_EXTMATCH\<close> this includes nested extended patterns.
\<close>

theorem strmatch_decides:
  assumes "plain_flags flags" and "wf_pats (flags AND FNM_EXTMATCH \<noteq> 0) ps" and "c_string str"
  shows "strmatch ar (Some (spells ps)) (Some str) flags = Some (if str \<in> langs flags ps then 0 else FNM_NOMATCH)"
proof -
  have "placed (spells ps) 0 (length (spells ps)) ps" by (simp add: placed_def text_at_def char_at_def)
  from all_handled [OF assms(1) refl assms(2) this] have "matches_at ar (spells ps) flags ps 0 (length (spells ps))"
    by (simp add: handled_def)
  then have "gmatch ar (spells ps) str flags 0 0 (length str) 0 (length (spells ps)) = verdict (seg str 0 (length str) \<in> langs flags ps)"
    using assms(3) unfolding matches_at_def by blast
  then show ?thesis by (simp add: strmatch_def xstrmatch_def internal_strmatch_def verdict_def seg_def)
qed

theorem strmatch_decides_witness:
  "strmatch True (Some ''v[0-9]*(a|?b)'') (Some ''v7xba'') FNM_EXTMATCH = Some 0 \<and>
   strmatch True (Some ''!(ab|c*)'') (Some ''ab'') FNM_EXTMATCH = Some FNM_NOMATCH"
proof -
  let ?ps = "[GLit (CHR ''v''), GSet False [BRange (CHR ''0'') (CHR ''9'')], GExt XMany [[GLit (CHR ''a'')], [GAny, GLit (CHR ''b'')]]]"
  let ?qs = "[GExt XNot [[GLit (CHR ''a''), GLit (CHR ''b'')], [GLit (CHR ''c''), GStar]]]"
  have sp: "spells ?ps = ''v[0-9]*(a|?b)''" "spells ?qs = ''!(ab|c*)''" by (simp_all add: spell_char_def specials_def)
  have fl: "plain_flags FNM_EXTMATCH" "FNM_EXTMATCH AND FNM_EXTMATCH \<noteq> 0" by (simp_all add: plain_flags_def cdefs)
  have wf: "wf_pats (FNM_EXTMATCH AND FNM_EXTMATCH \<noteq> 0) ?ps" "wf_pats (FNM_EXTMATCH AND FNM_EXTMATCH \<noteq> 0) ?qs"
    using fl(2) by (simp_all add: wf_pats_def)
  have lit: "lang FNM_EXTMATCH (GLit c) = {[c]}" for c by (auto simp: FOLD_def cdefs)
  have cat: "s @ t \<in> conc A B" if "s \<in> A" "t \<in> B" for s t A B using that by (auto simp: conc_def)
  let ?A = "alts_lang FNM_EXTMATCH [[GLit (CHR ''a'')], [GAny, GLit (CHR ''b'')]]"
  have "''xb'' \<in> ?A" "''a'' \<in> ?A"
    using cat [of "''x''" "lang FNM_EXTMATCH GAny" "''b''" "{''b''}"] by (auto simp: lit conc_def simp del: lang.simps(1))
  then have "''xb'' @ ''a'' @ [] \<in> kstar ?A" by (intro kstar_step kstar_Nil)
  moreover have "''7'' \<in> lang FNM_EXTMATCH (GSet False [BRange (CHR ''0'') (CHR ''9'')])"
    by (simp add: FOLD_def cdefs uchar_def)
  ultimately have "''v'' @ ''7'' @ (''xb'' @ ''a'' @ []) @ [] \<in> langs FNM_EXTMATCH ?ps"
    unfolding list.map foldr.simps comp_def id_def
    by (intro cat) (simp_all add: lit del: lang.simps(1,4))
  moreover have "''ab'' \<notin> langs FNM_EXTMATCH ?qs" by (auto simp: lit conc_def simp del: lang.simps(1))
  moreover have "c_string ''v7xba''" "c_string ''ab''" by (simp_all add: c_string_def)
  ultimately show ?thesis
    using strmatch_decides [OF fl(1) wf(1), of "''v7xba''" True] strmatch_decides [OF fl(1) wf(2), of "''ab''" True]
    unfolding sp by simp
qed

text \<open>
  Where a star stands before an optional group the matcher does not decide the language: it answers
  that the string matches, whatever the string and whatever follows the group.
\<close>

lemma star_optional_matches_all:
  assumes fl: "plain_flags flags" "flags AND FNM_EXTMATCH \<noteq> 0" and wf: "wf_pats True (GExt XOpt alts # ps)"
    and s: "c_string str"
  shows "strmatch ar (Some (spells (GStar # GExt XOpt alts # ps))) (Some str) flags = Some 0"
proof -
  let ?gs = "GExt XOpt alts # ps"
  let ?b = "spells (GStar # ?gs)"
  let ?pe = "length ?b" and ?sc = "if 0 < length str then str ! 0 else NUL"
  have pl: "placed ?b 1 ?pe ?gs" by (simp add: placed_def text_at_def char_at_def)
  have ext: "True \<longleftrightarrow> flags AND FNM_EXTMATCH \<noteq> 0" using fl(2) by simp
  have wp: "wf_pat True (GExt XOpt alts)" using wf by (simp add: wf_pats_def)
  from all_handled [OF fl(1) ext wf pl] have m: "matches_at ar ?b flags ?gs 1 ?pe" by (simp add: handled_def)
  have x: "extmatch ar ?b str (CHR ''?'') k (length str) 2 ?pe flags = verdict (seg str k (length str) \<in> langs flags ?gs)"
    if "k \<in> set [0..<length str]" for k
  proof -
    from that have k: "k \<le> length str" by simp
    have "gmatch ar ?b str flags k k (length str) 1 ?pe = verdict (seg str k (length str) \<in> langs flags ?gs)"
      using m s k unfolding matches_at_def by blast
    then show ?thesis using ext_turn [OF fl pl wp k order_refl, of ar k] by (simp add: numeral_2_eq_2)
  qed
  from x have az: "any_zero (\<lambda>k. extmatch ar ?b str (CHR ''?'') k (length str) 2 ?pe flags) [0..<length str] =
      Some (\<exists>k \<in> set [0..<length str]. seg str k (length str) \<in> langs flags ?gs)"
    unfolding verdict_def by (rule any_zero_iff)
  have r: "rd ?b 1 = Some (CHR ''?'')" "paren_at ?b flags (Suc 1) = Some True"
    using fl(2) by (simp_all add: paren_at_def char_at_def)
  have "star_loop ar ?b str flags 0 (length str) 1 ?pe ?sc = Some 0"
    unfolding star_loop.simps [of ar ?b str flags 0 "length str" 1 ?pe ?sc] r Option.bind.simps(2)
    using fl(1) az by (simp add: plain_flags_def r numeral_2_eq_2)
  moreover have "gmatch ar ?b str flags 0 0 (length str) 0 ?pe = star_loop ar ?b str flags 0 (length str) 1 ?pe ?sc"
    using gmatch_turn [of 0 ?pe ?b flags "CHR ''*''" 0 "length str" str ?sc ar 0] fl(1)
    by (simp add: FOLD_eq_special specials_def char_at_def)
  ultimately show ?thesis by (simp add: strmatch_def xstrmatch_def internal_strmatch_def)
qed

end
