(* ===== verification/PatSub.thy ===== *)
theory PatSub
  imports GlobMatch WordSplit
begin

text \<open>
  Removing and replacing parts of a value that match a pattern: the functions \<open>remove_pattern\<close>,
  \<open>match_pattern\<close> and \<open>pat_subst\<close> of \<^verbatim>\<open>subst.c\<close> that the parameter expansions with \<^verbatim>\<open>#\<close>, \<^verbatim>\<open>%\<close> and
  \<^verbatim>\<open>/\<close> call, in a single-byte locale. A pointer into the value is an index. Where the code puts a
  terminator into the value for the time of a match, the model passes the part before it. As in the
  matcher, \<open>None\<close> stands for an access outside a string; below it a second option tells what the
  function found_match.
\<close>

subsection \<open>Pattern removal\<close>

definition RP_LONG_LEFT :: int where [cdefs]: "RP_LONG_LEFT = 1"
definition RP_SHORT_LEFT :: int where [cdefs]: "RP_SHORT_LEFT = 2"
definition RP_LONG_RIGHT :: int where [cdefs]: "RP_LONG_RIGHT = 3"
definition RP_SHORT_RIGHT :: int where [cdefs]: "RP_SHORT_RIGHT = 4"

definition FNMATCH_EXTFLAG :: "bool \<Rightarrow> int" where
  "FNMATCH_EXTFLAG extended_glob = (if extended_glob then FNM_EXTMATCH else 0)"

text \<open>A loop over pointers, left at the first one that passes the test.\<close>

fun first_at :: "(nat \<Rightarrow> bool option) \<Rightarrow> nat list \<Rightarrow> nat option option" where
  "first_at f [] = Some None"
| "first_at f (p # ps) = do { m \<leftarrow> f p; if m then Some (Some p) else first_at f ps }"

definition remove_upattern :: "bool \<Rightarrow> bool \<Rightarrow> string \<Rightarrow> string \<Rightarrow> int \<Rightarrow> string option option" where
  "remove_upattern ar extended_glob param pattern op =
     (let len = length param;
          matched = (\<lambda>s. do { r \<leftarrow> strmatch ar (Some pattern) (Some s) (FNMATCH_EXTFLAG extended_glob); Some (r \<noteq> FNM_NOMATCH) })
      in if op = RP_LONG_LEFT then do {
           p \<leftarrow> first_at (\<lambda>p. matched (take p param)) (rev [0..<Suc len]); Some (map_option (\<lambda>p. drop p param) p) }
         else if op = RP_SHORT_LEFT then do {
           p \<leftarrow> first_at (\<lambda>p. matched (take p param)) [0..<Suc len]; Some (map_option (\<lambda>p. drop p param) p) }
         else if op = RP_LONG_RIGHT then do {
           p \<leftarrow> first_at (\<lambda>p. matched (drop p param)) [0..<Suc len]; Some (map_option (\<lambda>p. take p param) p) }
         else if op = RP_SHORT_RIGHT then do {
           p \<leftarrow> first_at (\<lambda>p. matched (drop p param)) (rev [0..<Suc len]); Some (map_option (\<lambda>p. take p param) p) }
         else Some None)"

definition remove_pattern :: "bool \<Rightarrow> bool \<Rightarrow> string option \<Rightarrow> string option \<Rightarrow> int \<Rightarrow> string option option" where
  "remove_pattern ar extended_glob param pattern op =
     (case param of
        None \<Rightarrow> Some None
      | Some param \<Rightarrow>
          (case pattern of
             None \<Rightarrow> Some (Some param)
           | Some pattern \<Rightarrow>
               if param = [] \<or> pattern = [] then Some (Some param)
               else do {
                 xret \<leftarrow> remove_upattern ar extended_glob param pattern op;
                 Some (Some (case xret of None \<Rightarrow> param | Some r \<Rightarrow> r))
               }))"

definition getpatspec :: "char \<Rightarrow> string \<Rightarrow> int" where
  "getpatspec c value =
     (if c = CHR ''#'' then (if char_at value 0 = CHR ''#'' then RP_LONG_LEFT else RP_SHORT_LEFT)
      else (if char_at value 0 = CHR ''%'' then RP_LONG_RIGHT else RP_SHORT_RIGHT))"

subsection \<open>Searching for a pattern\<close>

definition MATCH_ANY :: int where [cdefs]: "MATCH_ANY = 0"
definition MATCH_BEG :: int where [cdefs]: "MATCH_BEG = 1"
definition MATCH_END :: int where [cdefs]: "MATCH_END = 2"
definition MATCH_TYPEMASK :: int where [cdefs]: "MATCH_TYPEMASK = 3"
definition MATCH_GLOBREP :: int where [cdefs]: "MATCH_GLOBREP = 16"

text \<open>
  The pattern with a star on both sides. The pattern is not empty, since \<^verbatim>\<open>p1[-1]\<close> is read: that is
  the caller's test. The second test for the last star looks at the copy.
\<close>

definition star_both :: "bool \<Rightarrow> string \<Rightarrow> string" where
  "star_both extended_glob pat =
     (let opening = char_at pat 0 \<noteq> CHR ''*'' \<or> (char_at pat 1 = CHR ''('' \<and> extended_glob)
      in if opening \<or> last pat \<noteq> CHR ''*'' then
           let p = (if opening then ''*'' else []) @ pat
           in p @ (if last pat \<noteq> CHR ''*'' \<or> p ! (length p - 2) = BSLASH then ''*'' else [])
         else pat)"

definition match_from :: "bool \<Rightarrow> int \<Rightarrow> string \<Rightarrow> string \<Rightarrow> int \<Rightarrow> nat \<Rightarrow> nat option option" where
  "match_from ar flags string pat mlen p =
     (let p1 = (if mlen = -1 then length string else p + nat mlen)
      in first_at (\<lambda>p1. do { r \<leftarrow> strmatch ar (Some pat) (Some (seg string p p1)) flags; Some (r = 0) })
           (if mlen = -1 then rev [p..<Suc p1] else [p1]))"

fun match_any :: "bool \<Rightarrow> int \<Rightarrow> string \<Rightarrow> string \<Rightarrow> int \<Rightarrow> nat list \<Rightarrow> (nat \<times> nat) option option" where
  "match_any ar flags string pat mlen [] = Some None"
| "match_any ar flags string pat mlen (p # ps) =
     (if match_pattern_char pat (drop p string) then
        (if mlen \<noteq> -1 \<and> length string < p + nat mlen then Some None
         else do {
           r \<leftarrow> match_from ar flags string pat mlen p;
           (case r of Some p1 \<Rightarrow> Some (Some (p, p1)) | None \<Rightarrow> match_any ar flags string pat mlen ps)
         })
      else match_any ar flags string pat mlen ps)"

definition match_upattern :: "bool \<Rightarrow> bool \<Rightarrow> string \<Rightarrow> string \<Rightarrow> int \<Rightarrow> (nat \<times> nat) option option" where
  "match_upattern ar extended_glob string pat mtype =
     (if pat = [] then None
      else do {
        let flags = FNMATCH_EXTFLAG extended_glob;
        c \<leftarrow> strmatch ar (Some (star_both extended_glob pat)) (Some string) flags;
        if c = FNM_NOMATCH then Some None
        else do {
          let len = length string;
          let mlen = umatchlen pat;
          if mtype = MATCH_ANY then match_any ar flags string pat mlen [0..<Suc len]
          else if mtype = MATCH_BEG then
            (if \<not> match_pattern_char pat string then Some None
             else if mlen \<noteq> -1 \<and> len < nat mlen then None
             else do { r \<leftarrow> match_from ar flags string pat mlen 0; Some (map_option (Pair 0) r) })
          else if mtype = MATCH_END then
            (if mlen \<noteq> -1 \<and> len < nat mlen then None
             else do {
               r \<leftarrow> first_at (\<lambda>p. do { r \<leftarrow> strmatch ar (Some pat) (Some (drop p string)) flags; Some (r = 0) })
                     (if mlen = -1 then [0..<Suc len] else [len - nat mlen]);
               Some (map_option (\<lambda>p. (p, len)) r)
             })
          else Some None
        }
      })"

definition match_pattern :: "bool \<Rightarrow> bool \<Rightarrow> string option \<Rightarrow> string option \<Rightarrow> int \<Rightarrow> (nat \<times> nat) option option" where
  "match_pattern ar extended_glob string pat mtype =
     (case (string, pat) of
        (Some string, Some pat) \<Rightarrow>
          if string = [] \<or> pat = [] then Some None else match_upattern ar extended_glob string pat mtype
      | _ \<Rightarrow> Some None)"

subsection \<open>Replacement\<close>

lemma first_at_in: "first_at f ps = Some (Some p) \<Longrightarrow> p \<in> set ps"
  by (induction ps) (auto split: Option.bind_splits if_splits)

lemma match_from_bounds: "match_from ar flags string pat mlen p = Some (Some e) \<Longrightarrow> p \<le> e"
  unfolding match_from_def Let_def by (drule first_at_in) (auto split: if_splits)

lemma match_any_bounds:
  "match_any ar flags string pat mlen ps = Some (Some (s, e)) \<Longrightarrow> s < length string \<and> s \<le> e"
proof (induction ps)
  case (Cons p ps)
  then show ?case
    by (auto split: if_splits Option.bind_splits option.splits dest: match_from_bounds
        simp: match_pattern_char_def char_at_def)
qed simp

text \<open>
  The loop of \<open>pat_subst\<close> from the pointer \<^verbatim>\<open>str\<close> on, for the part of the value that is left. The
  character that follows a match of length zero is copied; \<open>match_any\<close> finds none at the end of the value.
\<close>

function pat_subst_loop :: "bool \<Rightarrow> bool \<Rightarrow> string \<Rightarrow> string option \<Rightarrow> string \<Rightarrow> int \<Rightarrow> string option" where
  "pat_subst_loop ar extended_glob str pat rep mflags =
     do {
       let mtype = mflags AND MATCH_TYPEMASK;
       r \<leftarrow> match_pattern ar extended_glob (Some str) pat mtype;
       (case r of
          None \<Rightarrow> Some str
        | Some (s, e) \<Rightarrow>
            if mflags AND MATCH_GLOBREP = 0 \<or> mtype \<noteq> MATCH_ANY then Some (take s str @ rep @ drop e str)
            else if s = e then do {
              c \<leftarrow> (if e < length str then Some (str ! e) else None);
              rest \<leftarrow> pat_subst_loop ar extended_glob (drop (Suc e) str) pat rep mflags;
              Some (take s str @ rep @ [c] @ rest)
            }
            else do {
              rest \<leftarrow> pat_subst_loop ar extended_glob (drop e str) pat rep mflags;
              Some (take s str @ rep @ rest)
            })
     }"
  by pat_completeness auto
termination
proof (relation "measure (\<lambda>(ar, eg, str, pat, rep, mflags). length str)", simp, goal_cases)
  case (1 ar eg str pat rep mflags mtype r x s e c)
  then show ?case by (auto split: if_splits)
next
  case (2 ar eg str pat rep mflags mtype r x s e)
  then have "match_pattern ar eg (Some str) pat MATCH_ANY = Some (Some (s, e))" by simp
  then have "s < length str \<and> s \<le> e"
    by (auto simp: match_pattern_def match_upattern_def Let_def cdefs split: option.splits if_splits Option.bind_splits
        dest: match_any_bounds)
  then show ?case using 2 by auto
qed

declare pat_subst_loop.simps [simp del]

definition pat_subst :: "bool \<Rightarrow> bool \<Rightarrow> string option \<Rightarrow> string option \<Rightarrow> string option \<Rightarrow> int \<Rightarrow> string option" where
  "pat_subst ar extended_glob string pat rep mflags =
     (case string of
        None \<Rightarrow> Some []
      | Some string \<Rightarrow>
          let mtype = mflags AND MATCH_TYPEMASK; rep = (case rep of None \<Rightarrow> [] | Some rep \<Rightarrow> rep)
          in if (pat = None \<or> pat = Some []) \<and> (mtype = MATCH_BEG \<or> mtype = MATCH_END) then
               Some (if rep = [] then string else if mtype = MATCH_BEG then rep @ string else string @ rep)
             else pat_subst_loop ar extended_glob string pat rep mflags)"

subsection \<open>What removal computes\<close>

lemma first_at_find: "(\<And>p. p \<in> set ps \<Longrightarrow> f p = Some (P p)) \<Longrightarrow> first_at f ps = Some (find P ps)"
  by (induction ps) auto

lemma find_least: "find P [m..<Suc n] = Some k \<Longrightarrow> P k \<and> m \<le> k \<and> k \<le> n \<and> (\<forall>j. m \<le> j \<and> j \<le> n \<and> P j \<longrightarrow> k \<le> j)"
proof -
  assume "find P [m..<Suc n] = Some k"
  then obtain i where "i < length [m..<Suc n]" "P ([m..<Suc n] ! i)" "k = [m..<Suc n] ! i" "\<forall>j < i. \<not> P ([m..<Suc n] ! j)"
    unfolding find_Some_iff by blast
  then have i: "m + i \<le> n" "k = m + i" "P k" "\<forall>j < i. \<not> P ([m..<Suc n] ! j)" by (auto simp del: upt_Suc)
  have "k \<le> j" if "m \<le> j" "j \<le> n" "P j" for j
  proof (rule ccontr)
    assume "\<not> k \<le> j"
    then have "j - m < i" "[m..<Suc n] ! (j - m) = j" using that i(2) by (auto simp del: upt_Suc)
    then show False using i(4) that(3) by metis
  qed
  then show ?thesis using i by auto
qed

lemma find_greatest: "find P (rev [m..<Suc n]) = Some k \<Longrightarrow> P k \<and> m \<le> k \<and> k \<le> n \<and> (\<forall>j. m \<le> j \<and> j \<le> n \<and> P j \<longrightarrow> j \<le> k)"
  by (induction n) (auto split: if_splits simp: le_Suc_eq)

lemma find_upt_None: "find P [m..<Suc n] = None \<longleftrightarrow> (\<forall>j. m \<le> j \<and> j \<le> n \<longrightarrow> \<not> P j)"
  "find P (rev [m..<Suc n]) = None \<longleftrightarrow> (\<forall>j. m \<le> j \<and> j \<le> n \<longrightarrow> \<not> P j)"
  by (auto simp: find_None_iff simp del: upt_Suc)

text \<open>
  The part that is removed is in the language and no other part at that side that is in the language
  is longer, or shorter; nothing is removed when no part is.
\<close>

definition removal_left :: "bool \<Rightarrow> string set \<Rightarrow> string \<Rightarrow> string \<Rightarrow> bool" where
  "removal_left longest L s r \<longleftrightarrow>
     (if \<exists>u v. s = u @ v \<and> u \<in> L
      then \<exists>u. s = u @ r \<and> u \<in> L \<and>
             (\<forall>u' v. s = u' @ v \<and> u' \<in> L \<longrightarrow> (if longest then length u' \<le> length u else length u \<le> length u'))
      else r = s)"

definition removal_right :: "bool \<Rightarrow> string set \<Rightarrow> string \<Rightarrow> string \<Rightarrow> bool" where
  "removal_right longest L s r \<longleftrightarrow>
     (if \<exists>u v. s = u @ v \<and> v \<in> L
      then \<exists>v. s = r @ v \<and> v \<in> L \<and>
             (\<forall>u v'. s = u @ v' \<and> v' \<in> L \<longrightarrow> (if longest then length v' \<le> length v else length v \<le> length v'))
      else r = s)"

lemma split_at: "(\<exists>u v. s = u @ v \<and> P u v) \<longleftrightarrow> (\<exists>k \<le> length s. P (take k s) (drop k s))"
proof
  assume "\<exists>u v. s = u @ v \<and> P u v"
  then obtain u v where "s = u @ v" "P u v" by blast
  then show "\<exists>k \<le> length s. P (take k s) (drop k s)" by (intro exI [of _ "length u"]) simp
qed (metis append_take_drop_id)

lemma removal_left_at:
  assumes "k \<le> length s" and "take k s \<in> L"
    and "\<And>j. j \<le> length s \<Longrightarrow> take j s \<in> L \<Longrightarrow> if longest then j \<le> k else k \<le> j"
  shows "removal_left longest L s (drop k s)"
proof -
  have "(if longest then length u \<le> length (take k s) else length (take k s) \<le> length u)" if "s = u @ v" "u \<in> L" for u v
    using assms(3) [of "length u"] assms(1) that by (auto split: if_splits)
  moreover have "\<exists>u v. s = u @ v \<and> u \<in> L" using assms(1,2) by (metis append_take_drop_id)
  ultimately show ?thesis unfolding removal_left_def using assms(2)
    by simp (metis append_take_drop_id length_take)
qed

lemma removal_right_at:
  assumes "k \<le> length s" and "drop k s \<in> L"
    and "\<And>j. j \<le> length s \<Longrightarrow> drop j s \<in> L \<Longrightarrow> if longest then k \<le> j else j \<le> k"
  shows "removal_right longest L s (take k s)"
proof -
  have "(if longest then length v \<le> length (drop k s) else length (drop k s) \<le> length v)" if "s = u @ v" "v \<in> L" for u v
    using assms(3) [of "length u"] assms(1) that by (auto split: if_splits)
  moreover have "\<exists>u v. s = u @ v \<and> v \<in> L" using assms(1,2) by (metis append_take_drop_id)
  ultimately show ?thesis unfolding removal_right_def using assms(2)
    by simp (metis append_take_drop_id length_drop)
qed

lemma removal_none:
  "(\<And>j. j \<le> length s \<Longrightarrow> take j s \<notin> L) \<Longrightarrow> removal_left longest L s s"
  "(\<And>j. j \<le> length s \<Longrightarrow> drop j s \<notin> L) \<Longrightarrow> removal_right longest L s s"
  using split_at [of s "\<lambda>u v. u \<in> L"] split_at [of s "\<lambda>u v. v \<in> L"]
  by (auto simp: removal_left_def removal_right_def)

lemma removal_left_find:
  "removal_left True L s (case find (\<lambda>p. take p s \<in> L) (rev [0..<Suc (length s)]) of None \<Rightarrow> s | Some p \<Rightarrow> drop p s)"
  "removal_left False L s (case find (\<lambda>p. take p s \<in> L) [0..<Suc (length s)] of None \<Rightarrow> s | Some p \<Rightarrow> drop p s)"
  by (auto split: option.split simp del: upt_Suc simp: find_upt_None intro!: removal_none removal_left_at
      dest!: find_greatest find_least)

lemma removal_right_find:
  "removal_right True L s (case find (\<lambda>p. drop p s \<in> L) [0..<Suc (length s)] of None \<Rightarrow> s | Some p \<Rightarrow> take p s)"
  "removal_right False L s (case find (\<lambda>p. drop p s \<in> L) (rev [0..<Suc (length s)]) of None \<Rightarrow> s | Some p \<Rightarrow> take p s)"
  by (auto split: option.split simp del: upt_Suc simp: find_upt_None intro!: removal_none removal_right_at
      dest!: find_greatest find_least)

text \<open>The matcher called with the flags of these functions.\<close>

lemma FNMATCH_plain: "plain_flags (FNMATCH_EXTFLAG eg)" "FNMATCH_EXTFLAG eg AND FNM_EXTMATCH \<noteq> 0 \<longleftrightarrow> eg"
  by (simp_all add: FNMATCH_EXTFLAG_def plain_flags_def cdefs)

abbreviation plang :: "bool \<Rightarrow> gpat list \<Rightarrow> string set" where
  "plang eg ps \<equiv> langs (FNMATCH_EXTFLAG eg) ps"

lemma strmatch_plang:
  assumes "wf_pats eg ps" and "c_string str"
  shows "strmatch ar (Some (spells ps)) (Some str) (FNMATCH_EXTFLAG eg) = verdict (str \<in> plang eg ps)"
proof -
  have "placed (spells ps) 0 (length (spells ps)) ps" by (simp add: placed_def text_at_def char_at_def)
  from all_handled [OF FNMATCH_plain(1) FNMATCH_plain(2) [symmetric] assms(1) this]
  have "matches_at ar (spells ps) (FNMATCH_EXTFLAG eg) ps 0 (length (spells ps))" by (simp add: handled_def)
  then show ?thesis
    using assms(2) unfolding matches_at_def by (simp add: strmatch_def xstrmatch_def internal_strmatch_def seg_def)
qed

lemma c_string_take_drop: "c_string s \<Longrightarrow> c_string (take k s)" "c_string s \<Longrightarrow> c_string (drop k s)"
  by (auto simp: c_string_def dest: in_set_takeD in_set_dropD)

lemma first_at_strmatch:
  assumes "wf_pats eg ps" and "\<And>p. p \<in> set is \<Longrightarrow> c_string (g p)"
  shows "first_at (\<lambda>p. do { r \<leftarrow> strmatch ar (Some (spells ps)) (Some (g p)) (FNMATCH_EXTFLAG eg); Some (r \<noteq> FNM_NOMATCH) }) is =
    Some (find (\<lambda>p. g p \<in> plang eg ps) is)"
    and "first_at (\<lambda>p. do { r \<leftarrow> strmatch ar (Some (spells ps)) (Some (g p)) (FNMATCH_EXTFLAG eg); Some (r = 0) }) is =
    Some (find (\<lambda>p. g p \<in> plang eg ps) is)"
  using strmatch_plang [OF assms(1) assms(2)] by (auto intro!: first_at_find simp: verdict_def FNM_NOMATCH_def)

lemma RP_distinct: "RP_SHORT_LEFT \<noteq> RP_LONG_LEFT" "RP_LONG_RIGHT \<noteq> RP_LONG_LEFT" "RP_LONG_RIGHT \<noteq> RP_SHORT_LEFT"
  "RP_SHORT_RIGHT \<noteq> RP_LONG_LEFT" "RP_SHORT_RIGHT \<noteq> RP_SHORT_LEFT" "RP_SHORT_RIGHT \<noteq> RP_LONG_RIGHT"
  by (simp_all add: cdefs)

lemma remove_upattern_find:
  assumes "wf_pats eg ps" and "c_string s"
  shows "remove_upattern ar eg s (spells ps) RP_LONG_LEFT = Some (map_option (\<lambda>p. drop p s) (find (\<lambda>p. take p s \<in> plang eg ps) (rev [0..<Suc (length s)])))"
    and "remove_upattern ar eg s (spells ps) RP_SHORT_LEFT = Some (map_option (\<lambda>p. drop p s) (find (\<lambda>p. take p s \<in> plang eg ps) [0..<Suc (length s)]))"
    and "remove_upattern ar eg s (spells ps) RP_LONG_RIGHT = Some (map_option (\<lambda>p. take p s) (find (\<lambda>p. drop p s \<in> plang eg ps) [0..<Suc (length s)]))"
    and "remove_upattern ar eg s (spells ps) RP_SHORT_RIGHT = Some (map_option (\<lambda>p. take p s) (find (\<lambda>p. drop p s \<in> plang eg ps) (rev [0..<Suc (length s)])))"
  using assms(2) by (simp_all add: remove_upattern_def Let_def first_at_strmatch [OF assms(1)] c_string_take_drop RP_distinct del: upt_Suc)

text \<open>
  C14. Pattern removal. For a pattern as in the theorem on the matcher (\<^const>\<open>wf_pats\<close>: no null characters, brackets and alternatives not empty, no range up to an
  opening bracket, and no star that an extended pattern follows, directly or behind stars and question marks) that is not empty, and a value
  that is not empty and has no null characters, \<open>remove_pattern\<close> reads and writes only inside the value and removes, for the four
  operators of \<^verbatim>\<open>${v##p}\<close>, \<^verbatim>\<open>${v#p}\<close>, \<^verbatim>\<open>${v%%p}\<close> and \<^verbatim>\<open>${v%p}\<close>, the longest or the shortest prefix or
  suffix that is in the language of the pattern, and returns the value as it is when there is none.
\<close>

theorem remove_pattern_correct:
  assumes "wf_pats eg ps" and "ps \<noteq> []" and "c_string s" and "s \<noteq> []"
  shows "(\<exists>r. remove_pattern ar eg (Some s) (Some (spells ps)) RP_LONG_LEFT = Some (Some r) \<and> removal_left True (plang eg ps) s r)
    \<and> (\<exists>r. remove_pattern ar eg (Some s) (Some (spells ps)) RP_SHORT_LEFT = Some (Some r) \<and> removal_left False (plang eg ps) s r)
    \<and> (\<exists>r. remove_pattern ar eg (Some s) (Some (spells ps)) RP_LONG_RIGHT = Some (Some r) \<and> removal_right True (plang eg ps) s r)
    \<and> (\<exists>r. remove_pattern ar eg (Some s) (Some (spells ps)) RP_SHORT_RIGHT = Some (Some r) \<and> removal_right False (plang eg ps) s r)"
proof -
  have ne: "\<not> (s = [] \<or> spells ps = [])" using assms(2,4) spell_ne by (cases ps) auto
  have case_map: "(case map_option f x of None \<Rightarrow> s | Some r \<Rightarrow> r) = (case x of None \<Rightarrow> s | Some y \<Rightarrow> f y)" for f and x :: "nat option"
    by (cases x) simp_all
  show ?thesis
    unfolding remove_pattern_def option.case if_not_P [OF ne] remove_upattern_find [OF assms(1,3)] Option.bind.simps(2) case_map
    using removal_left_find [of "plang eg ps" s] removal_right_find [of "plang eg ps" s] by simp
qed

theorem remove_pattern_correct_witness:
  "(\<exists>r. remove_pattern True False (Some ''a.b.c'') (Some ''*.'') RP_LONG_LEFT = Some (Some r) \<and>
     removal_left True (plang False [GStar, GLit (CHR ''.'')]) ''a.b.c'' r) \<and>
   remove_pattern True False (Some ''a.b.c'') (Some ''*.'') RP_LONG_LEFT = Some (Some ''c'')"
proof -
  have "wf_pats False [GStar, GLit (CHR ''.'')]" "c_string ''a.b.c''" by (simp_all add: wf_pats_def c_string_def)
  moreover have "remove_pattern True False (Some ''a.b.c'') (Some ''*.'') RP_LONG_LEFT = Some (Some ''c'')" by code_simp
  ultimately show ?thesis
    using remove_pattern_correct [of False "[GStar, GLit (CHR ''.'')]" "''a.b.c''" True]
    by (simp add: spell_char_def specials_def)
qed

subsection \<open>What the search computes\<close>

text \<open>The length \<open>umatchlen\<close> finds: that of every string of the language, when there is one.\<close>

fun simple_pat :: "gpat \<Rightarrow> bool" where
  "simple_pat GStar = False"
| "simple_pat (GExt x alts) = False"
| "simple_pat p = True"

lemma in_conc: "w \<in> conc A B \<longleftrightarrow> (\<exists>u v. w = u @ v \<and> u \<in> A \<and> v \<in> B)"
  by (auto simp: conc_def)

lemma simple_length: "list_all simple_pat ps \<Longrightarrow> w \<in> langs f ps \<Longrightarrow> length w = length ps"
proof (induction ps arbitrary: w)
  case (Cons g ps)
  then obtain u v where "w = u @ v" "u \<in> lang f g" "v \<in> langs f ps" by (auto simp: in_conc)
  moreover have "length u = 1" using Cons.prems(1) calculation(2) by (cases g) auto
  ultimately show ?case using Cons by simp
qed simp

abbreviation um0 :: umstate where
  "um0 \<equiv> \<lparr>in_cclass = False, in_collsym = False, in_equiv = False\<rparr>"

text \<open>The scan over the items of a bracket expression, with the next character already read.\<close>

definition um_skips :: "string \<Rightarrow> bool" where
  "um_skips s \<longleftrightarrow> s \<noteq> [] \<and> (\<forall>rest n. rest \<noteq> [] \<longrightarrow> NUL \<notin> set rest \<longrightarrow>
     (\<exists>n'. umatch_bracket (hd s) (tl s @ rest) n um0 =
       (if hd rest = CHR '']'' then (1, tl rest, um0) else umatch_bracket (hd rest) (tl rest) n' um0)))"

lemma um_skips_append: "um_skips s \<Longrightarrow> um_skips t \<Longrightarrow> hd t \<noteq> CHR '']'' \<Longrightarrow> NUL \<notin> set t \<Longrightarrow> um_skips (s @ t)"
  unfolding um_skips_def
proof (intro conjI allI impI)
  fix rest :: string and n
  assume s: "s \<noteq> [] \<and> (\<forall>rest n. rest \<noteq> [] \<longrightarrow> NUL \<notin> set rest \<longrightarrow>
      (\<exists>n'. umatch_bracket (hd s) (tl s @ rest) n um0 =
        (if hd rest = CHR '']'' then (1, tl rest, um0) else umatch_bracket (hd rest) (tl rest) n' um0)))"
    and t: "t \<noteq> [] \<and> (\<forall>rest n. rest \<noteq> [] \<longrightarrow> NUL \<notin> set rest \<longrightarrow>
      (\<exists>n'. umatch_bracket (hd t) (tl t @ rest) n um0 =
        (if hd rest = CHR '']'' then (1, tl rest, um0) else umatch_bracket (hd rest) (tl rest) n' um0)))"
    and h: "hd t \<noteq> CHR '']''" "NUL \<notin> set t" and r: "rest \<noteq> []" "NUL \<notin> set rest"
  have "\<exists>n'. umatch_bracket (hd s) (tl s @ (t @ rest)) n um0 =
      (if hd (t @ rest) = CHR '']'' then (1, tl (t @ rest), um0) else umatch_bracket (hd (t @ rest)) (tl (t @ rest)) n' um0)"
    using s h r by auto
  then obtain n' where "umatch_bracket (hd s) (tl s @ (t @ rest)) n um0 = umatch_bracket (hd t) (tl t @ rest) n' um0"
    using t h by auto
  then show "\<exists>n'. umatch_bracket (hd (s @ t)) (tl (s @ t) @ rest) n um0 =
      (if hd rest = CHR '']'' then (1, tl rest, um0) else umatch_bracket (hd rest) (tl rest) n' um0)"
    using s t r by auto
qed auto

lemma um_step:
  assumes "c \<noteq> NUL" and "umatch_elem c pat n um0 = Some (rest, n', um0)" and "rest \<noteq> []"
  shows "umatch_bracket c pat n um0 = (if hd rest = CHR '']'' then (1, tl rest, um0) else umatch_bracket (hd rest) (tl rest) n' um0)"
  using assms by (subst umatch_bracket.simps) (cases rest; simp)

lemma um_skips_char:
  assumes "c \<noteq> NUL" shows "um_skips (spell_char c)"
proof (cases "c \<in> set specials")
  case True
  have "umatch_elem BSLASH (c # rest) n um0 = Some (rest, n + 1, um0)" if "rest \<noteq> []" "NUL \<notin> set rest" for rest n
    using that assms by (cases rest) (auto simp: umatch_elem_def char_at_def)
  from um_step [OF _ this] show ?thesis
    using True unfolding um_skips_def by (auto simp: spell_char_def)
next
  case False
  then have "umatch_elem c rest n um0 = Some (rest, n + 1, um0)" for rest n
    by (auto simp: umatch_elem_def specials_def Let_def)
  from um_step [OF assms this] show ?thesis
    using False unfolding um_skips_def by (auto simp: spell_char_def)
qed

lemma um_class:
  "set s \<inter> set (BSLASH # ''[:'') = {} \<Longrightarrow> s \<noteq> [] \<Longrightarrow> NUL \<notin> set s \<Longrightarrow> CHR '']'' \<notin> set s \<Longrightarrow>
   \<exists>n'. umatch_bracket (hd s) (tl s @ '':]'' @ rest) n (um0\<lparr>in_cclass := True\<rparr>) =
     umatch_bracket (CHR '':'') (CHR '']'' # rest) n' (um0\<lparr>in_cclass := True\<rparr>)"
proof (induction s arbitrary: n)
  case (Cons c s)
  have c: "umatch_elem c (s @ '':]'' @ rest) n (um0\<lparr>in_cclass := True\<rparr>) = Some (s @ '':]'' @ rest, n + 1, um0\<lparr>in_cclass := True\<rparr>)"
    using Cons.prems by (auto simp: umatch_elem_def Let_def)
  show ?case
  proof (cases s)
    case Nil
    then show ?thesis using c Cons.prems by (subst umatch_bracket.simps) (auto intro!: exI [of _ "n + 1"])
  next
    case (Cons d t)
    then show ?thesis
      using c Cons.IH [of "n + 1"] Cons.prems by (subst umatch_bracket.simps) auto
  qed
qed simp

lemma um_skips_class: "um_skips ([CHR ''['', CHR '':''] @ class_name k @ '':]'')"
  unfolding um_skips_def
proof (intro conjI allI impI)
  fix rest :: string and n assume r: "rest \<noteq> []" "NUL \<notin> set rest"
  let ?nm = "class_name k" and ?in = "um0\<lparr>in_cclass := True\<rparr>"
  have nm: "set ?nm \<inter> set (BSLASH # ''[:'') = {}" "?nm \<noteq> []" "NUL \<notin> set ?nm" "CHR '']'' \<notin> set ?nm"
    using class_name_plain [of k] by (auto simp: specials_def) (cases k; simp)
  then have h: "hd ?nm \<noteq> CHR '']''" by (metis list.set_sel(1))
  have "umatch_bracket (CHR ''['') (CHR '':'' # ?nm @ '':]'' @ rest) n um0 = umatch_bracket (hd ?nm) (tl ?nm @ '':]'' @ rest) (n + 1) ?in"
    using h nm(2) by (subst umatch_bracket.simps) (cases ?nm; auto simp: umatch_elem_def)
  moreover obtain n' where "umatch_bracket (hd ?nm) (tl ?nm @ '':]'' @ rest) (n + 1) ?in = umatch_bracket (CHR '':'') (CHR '']'' # rest) n' ?in"
    using um_class [OF nm] by blast
  moreover have "umatch_bracket (CHR '':'') (CHR '']'' # rest) n' ?in =
      (if hd rest = CHR '']'' then (1, tl rest, um0) else umatch_bracket (hd rest) (tl rest) (n' + 1) um0)"
    using r by (subst umatch_bracket.simps) (cases rest; simp add: umatch_elem_def)
  ultimately show "\<exists>n'. umatch_bracket (hd ([CHR ''['', CHR '':''] @ ?nm @ '':]'')) (tl ([CHR ''['', CHR '':''] @ ?nm @ '':]'') @ rest) n um0 =
      (if hd rest = CHR '']'' then (1, tl rest, um0) else umatch_bracket (hd rest) (tl rest) n' um0)" by auto
qed simp

lemma spell_char_first: "hd (spell_char c) \<noteq> CHR '']''" "c \<noteq> NUL \<Longrightarrow> NUL \<notin> set (spell_char c)" "spell_char c \<noteq> []"
  by (auto simp: spell_char_def specials_def)

lemma um_skips_item: "wf_brack it \<Longrightarrow> um_skips (spell_brack it) \<and> hd (spell_brack it) \<noteq> CHR '']'' \<and> NUL \<notin> set (spell_brack it)"
proof (cases it)
  case (BRange x y)
  assume wf: "wf_brack it"
  have "umatch_elem (CHR ''-'') rest n um0 = Some (rest, n + 1, um0)" for rest n by (simp add: umatch_elem_def)
  from um_step [OF _ this] have "um_skips ''-''" unfolding um_skips_def by auto
  then have "um_skips (''-'' @ spell_char y)"
    by (rule um_skips_append [OF _ um_skips_char]) (use BRange wf in \<open>auto simp: spell_char_first\<close>)
  then have "um_skips (spell_char x @ (''-'' @ spell_char y))"
    using BRange wf by (intro um_skips_append [OF um_skips_char]) (auto simp: spell_char_first)
  then show ?thesis using BRange wf by (auto simp: spell_char_first)
next
  case (BClass k)
  then show ?thesis using um_skips_class [of k] class_name_plain [of k] by auto
qed (auto simp: um_skips_char spell_char_first)

lemma um_skips_items:
  "list_all wf_brack items \<Longrightarrow> items \<noteq> [] \<Longrightarrow>
   um_skips (concat (map spell_brack items)) \<and> hd (concat (map spell_brack items)) \<noteq> CHR '']'' \<and> NUL \<notin> set (concat (map spell_brack items))"
proof (induction items)
  case (Cons it items)
  then have it: "um_skips (spell_brack it)" "hd (spell_brack it) \<noteq> CHR '']''" "NUL \<notin> set (spell_brack it)"
    using um_skips_item by auto
  show ?case
  proof (cases "items = []")
    case True
    then show ?thesis using it by simp
  next
    case False
    then have IH: "um_skips (concat (map spell_brack items))" "hd (concat (map spell_brack items)) \<noteq> CHR '']''"
        "NUL \<notin> set (concat (map spell_brack items))" using Cons by auto
    show ?thesis using um_skips_append [OF it(1) IH] it IH spell_brack_ne [of it] by (simp add: hd_append)
  qed
qed simp

lemma um_set:
  assumes "wf_pat ext (GSet neg items)" and "NUL \<notin> set rest"
  shows "umatchlen_loop (spell (GSet neg items) @ rest) n um0 = umatchlen_loop rest (n + 1) um0"
proof -
  have it: "um_skips (concat (map spell_brack items))" "hd (concat (map spell_brack items)) \<noteq> CHR '']''" "NUL \<notin> set (concat (map spell_brack items))"
    using um_skips_items [of items] assms by auto
  have "umatch_elem (CHR ''!'') r k um0 = Some (r, k + 1, um0)" for r k by (simp add: umatch_elem_def)
  from um_step [OF _ this] have "um_skips ''!''" unfolding um_skips_def by auto
  note neg = um_skips_append [OF this it]
  define t where "t = (if neg then ''!'' else []) @ concat (map spell_brack items)"
  have sk: "um_skips t" using neg it(1) by (cases neg) (simp_all add: t_def)
  then have ne: "t \<noteq> []" by (simp add: um_skips_def)
  have "'']'' @ rest \<noteq> []" "NUL \<notin> set ('']'' @ rest)" using assms(2) by auto
  with sk obtain m where "umatch_bracket (hd t) (tl t @ ('']'' @ rest)) 1 um0 =
      (if hd ('']'' @ rest) = CHR '']'' then (1, tl ('']'' @ rest), um0) else umatch_bracket (hd ('']'' @ rest)) (tl ('']'' @ rest)) m um0)"
    unfolding um_skips_def by blast
  then have "umatch_bracket (hd t) (tl t @ ('']'' @ rest)) 1 um0 = (1, rest, um0)" by simp
  moreover have "spell (GSet neg items) @ rest = CHR ''['' # hd t # (tl t @ '']'' @ rest)" using ne by (simp add: t_def)
  ultimately show ?thesis by (simp add: char_at_def del: spell.simps)
qed

lemma set_bars: "set (bars ss) \<subseteq> insert (CHR ''|'') (\<Union> (set ` set ss))"
  by (induction ss rule: bars.induct) auto

lemma spell_no_NUL: "wf_pat ext g \<Longrightarrow> NUL \<notin> set (spell g)"
proof (induction g rule: spell.induct)
  case (4 neg items)
  then show ?case using um_skips_items [of items] by auto
next
  case (5 x alts)
  have "xchar x \<noteq> NUL" by (cases x) simp_all
  moreover have "NUL \<notin> set (bars (map (\<lambda>alt. concat (map spell alt)) alts))"
    using set_bars [of "map (\<lambda>alt. concat (map spell alt)) alts"] 5 by (auto simp: list_all_iff)
  ultimately show ?case by auto
qed (auto simp: spell_char_first)

lemma umatchlen_spells:
  assumes "list_all (wf_pat ext) ps"
  shows "umatchlen (spells ps) = (if list_all simple_pat ps then int (length ps) else -1)"
proof -
  have "umatchlen_loop (spells ps) n um0 = (if list_all simple_pat ps then n + int (length ps) else -1)" for n
    using assms
  proof (induction ps arbitrary: n)
    case (Cons g ps)
    have rest: "NUL \<notin> set (spells ps)" using Cons.prems spell_no_NUL by (auto simp: list_all_iff)
    have par: "char_at (spells ps) 0 \<noteq> CHR ''(''"
      using placed_hd [of "spells ps" 0 "length (spells ps)" ps ext] Cons.prems
      by (auto simp: placed_def text_at_def char_at_def)
    show ?case
    proof (cases g)
      case (GLit c)
      then have "umatchlen_loop (spell g @ spells ps) n um0 = umatchlen_loop (spells ps) (n + 1) um0"
        using Cons.prems by (auto simp: spell_char_def specials_def)
      then show ?thesis using Cons GLit by (simp add: algebra_simps)
    next
      case (GSet neg items)
      then show ?thesis using Cons um_set [of ext neg items "spells ps" n] rest by (simp add: algebra_simps)
    next
      case (GExt x alts)
      then show ?thesis by (cases x) (simp_all add: char_at_def)
    qed (use Cons par in \<open>simp_all add: algebra_simps\<close>)
  qed simp
  then show ?thesis by (simp add: umatchlen_def)
qed

text \<open>The pattern with stars stands for the strings in which the pattern matches somewhere.\<close>

lemma langs_append: "langs f (ps @ qs) = conc (langs f ps) (langs f qs)"
  by (induction ps) (auto simp: conc_assoc conc_def [of "{[]}"])

lemma conc_UNIV_UNIV: "conc UNIV UNIV = UNIV"
  by (auto simp: in_conc) (metis append_Nil)

lemma star_left: "conc UNIV (langs f (GStar # ps)) = langs f (GStar # ps)"
  by (simp add: conc_UNIV)

lemma star_right: "conc (langs f (ps @ [GStar])) UNIV = langs f (ps @ [GStar])"
proof -
  have "langs f [GStar] = UNIV" by (auto simp: in_conc)
  then show ?thesis unfolding langs_append by (simp only: conc_assoc conc_UNIV_UNIV)
qed

lemma star_ok_snoc: "star_ok (ps @ [GStar]) \<longleftrightarrow> star_ok ps" "ext_next (ps @ [GStar]) \<longleftrightarrow> ext_next ps"
proof -
  show e: "ext_next (ps @ [GStar]) \<longleftrightarrow> ext_next ps" for ps by (induction ps rule: ext_next.induct) auto
  show "star_ok (ps @ [GStar]) \<longleftrightarrow> star_ok ps" by (induction ps rule: star_ok.induct) (auto simp: e)
qed

lemma spells_hd_star:
  assumes "list_all (wf_pat ext) ps" and "ps \<noteq> []" and "\<not> ext_next ps"
  shows "char_at (spells ps) 0 = CHR ''*'' \<longleftrightarrow> hd ps = GStar" "hd ps = GStar \<Longrightarrow> char_at (spells ps) 1 \<noteq> CHR ''(''"
proof -
  from assms(2) obtain g gs where ps: "ps = g # gs" by (cases ps) auto
  show "char_at (spells ps) 0 = CHR ''*'' \<longleftrightarrow> hd ps = GStar"
    using assms ps by (cases g) (auto simp: spell_char_def specials_def char_at_def)
  have "char_at (spells gs) 0 \<noteq> CHR ''(''"
    using placed_hd [of "spells gs" 0 "length (spells gs)" gs ext] assms(1) ps by (auto simp: placed_def text_at_def char_at_def)
  then show "hd ps = GStar \<Longrightarrow> char_at (spells ps) 1 \<noteq> CHR ''(''" using ps by (auto simp: char_at_def split: if_splits)
qed

lemma spells_last_star:
  assumes "ps \<noteq> []"
  shows "last (spells ps) = CHR ''*'' \<longleftrightarrow> last ps = GStar \<or> last ps = GLit (CHR ''*'')"
    and "last ps = GLit (CHR ''*'') \<Longrightarrow> (x @ spells ps) ! (length (x @ spells ps) - 2) = BSLASH"
proof -
  from assms obtain g gs where ps: "ps = gs @ [g]" by (cases ps rule: rev_cases) auto
  show "last (spells ps) = CHR ''*'' \<longleftrightarrow> last ps = GStar \<or> last ps = GLit (CHR ''*'')"
    using ps spell_ne [of g] by (cases g) (auto simp: spell_char_def specials_def)
  show "last ps = GLit (CHR ''*'') \<Longrightarrow> (x @ spells ps) ! (length (x @ spells ps) - 2) = BSLASH"
    using ps by (auto simp: spell_char_def specials_def nth_append)
qed

lemma star_both_spells:
  assumes wf: "wf_pats eg ps" and ne: "ps \<noteq> []" "\<not> ext_next ps" "\<not> (hd ps = GStar \<and> last ps = GLit (CHR ''*''))"
  shows "\<exists>qs. star_both eg (spells ps) = spells qs \<and> wf_pats eg qs \<and> plang eg qs = conc UNIV (conc (plang eg ps) UNIV)"
proof -
  define a where "a = (if hd ps = GStar then [] else [GStar])"
  have all: "list_all (wf_pat eg) ps" using wf by (simp add: wf_pats_def)
  note hd = spells_hd_star [OF all ne(1,2)] and lst = spells_last_star [OF ne(1)]
  obtain b where b: "star_both eg (spells ps) = spells (a @ ps @ b)" "b = [] \<and> last ps = GStar \<or> b = [GStar]"
  proof (cases "hd ps = GStar \<and> last ps = GStar")
    case True
    then have "star_both eg (spells ps) = spells (a @ ps @ [])" using hd lst by (simp add: star_both_def a_def)
    then show ?thesis using that True by blast
  next
    case False
    define p where "p = spells a @ spells ps"
    define c where "c \<longleftrightarrow> last (spells ps) \<noteq> CHR ''*'' \<or> p ! (length p - 2) = BSLASH"
    have "star_both eg (spells ps) = p @ (if c then ''*'' else [])"
      using False hd lst(1) ne(3) unfolding star_both_def Let_def by (auto simp: p_def c_def a_def)
    moreover have "c \<or> last ps = GStar" using lst p_def c_def by auto
    ultimately have "star_both eg (spells ps) = spells (a @ ps @ (if c then [GStar] else []))" "c \<or> last ps = GStar"
      by (auto simp: p_def)
    then show ?thesis using that [of "if c then [GStar] else []"] by (cases c) auto
  qed
  have L: "conc UNIV (plang eg ps) = plang eg (a @ ps)"
    using ne(1) star_left [of _ "tl ps"] by (cases ps) (auto simp: a_def)
  have R: "conc (plang eg ps) UNIV = plang eg (ps @ b)"
  proof (cases "b = []")
    case True
    then have "ps = butlast ps @ [GStar]" using b(2) ne(1) by (metis append_butlast_last_id list.distinct(1))
    then show ?thesis using star_right [of _ "butlast ps"] True by simp
  next
    case False
    have "langs f [GStar] = UNIV" for f by (auto simp: in_conc)
    then show ?thesis using False b(2) by (simp only: langs_append simp_thms)
  qed
  have "plang eg (a @ ps @ b) = conc UNIV (conc (plang eg ps) UNIV)"
    using L R by (metis append_assoc conc_assoc langs_append)
  moreover have "wf_pats eg (a @ ps @ b)"
    using wf ne b(2) star_ok_snoc [of ps] by (auto simp: wf_pats_def a_def)
  ultimately show ?thesis using b(1) by blast
qed

lemma match_pattern_char_needed:
  assumes wf: "list_all (wf_pat ext) ps" "ps \<noteq> []" and s: "c_string s" "p < length s" "take k (drop p s) \<in> plang eg ps"
  shows "match_pattern_char (spells ps) (drop p s)"
proof -
  from wf(2) obtain g gs where ps: "ps = g # gs" by (cases ps) auto
  have c: "char_at (drop p s) 0 = s ! p" "s ! p \<noteq> NUL" using s c_string_nth by (simp_all add: char_at_def)
  have F: "FOLD (FNMATCH_EXTFLAG eg) d = d" for d by (simp add: FOLD_def FNMATCH_EXTFLAG_def cdefs)
  show ?thesis
  proof (cases g)
    case (GLit d)
    then obtain v where v: "take k (drop p s) = d # v" using s(3) ps by (auto simp: in_conc F)
    then have "take k (drop p s) ! 0 = d" "0 < k" by (simp, cases k) simp_all
    then have "s ! p = d" using s(2) by simp
    then show ?thesis
      using GLit ps c by (auto simp: match_pattern_char_def spell_char_def specials_def char_at_def)
  next
    case (GExt x alts)
    then show ?thesis using ps c by (cases x) (simp_all add: match_pattern_char_def char_at_def)
  qed (use ps c in \<open>simp_all add: match_pattern_char_def char_at_def\<close>)
qed

text \<open>Occurrences of the language in a string, and the first one, extended as far as possible.\<close>

definition occurs :: "string set \<Rightarrow> string \<Rightarrow> nat \<Rightarrow> nat \<Rightarrow> bool" where
  "occurs L s i e \<longleftrightarrow> i < length s \<and> i \<le> e \<and> e \<le> length s \<and> seg s i e \<in> L"

definition leftmost :: "string set \<Rightarrow> string \<Rightarrow> nat \<Rightarrow> nat \<Rightarrow> bool" where
  "leftmost L s i e \<longleftrightarrow> occurs L s i e \<and> (\<forall>j k. occurs L s j k \<longrightarrow> i \<le> j) \<and> (\<forall>k. occurs L s i k \<longrightarrow> k \<le> e)"

definition found_match :: "string set \<Rightarrow> string \<Rightarrow> (nat \<times> nat) option \<Rightarrow> bool" where
  "found_match L s r \<longleftrightarrow> (case r of None \<Rightarrow> \<forall>i e. \<not> occurs L s i e | Some (i, e) \<Rightarrow> leftmost L s i e)"

lemma c_string_seg: "c_string s \<Longrightarrow> c_string (seg s i e)"
  by (simp add: seg_def c_string_take_drop)

lemma match_from_find:
  assumes "wf_pats eg ps" and "c_string s"
  shows "match_from ar (FNMATCH_EXTFLAG eg) s (spells ps) mlen p =
    Some (find (\<lambda>e. seg s p e \<in> plang eg ps) (if mlen = -1 then rev [p..<Suc (length s)] else [p + nat mlen]))"
  unfolding match_from_def Let_def using assms(2)
  by (subst first_at_strmatch(2) [OF assms(1)]) (simp_all add: c_string_seg del: upt_Suc)

text \<open>One place of the search: the longest occurrence there.\<close>

lemma match_from_longest:
  assumes wf: "wf_pats eg ps" and s: "c_string s" and p: "p < length s" and m: "mlen = umatchlen (spells ps)"
    and l: "mlen = -1 \<or> p + nat mlen \<le> length s"
    and r: "match_from ar (FNMATCH_EXTFLAG eg) s (spells ps) mlen p = Some r"
  shows "case r of None \<Rightarrow> \<forall>e. \<not> occurs (plang eg ps) s p e
         | Some e \<Rightarrow> occurs (plang eg ps) s p e \<and> (\<forall>k. occurs (plang eg ps) s p k \<longrightarrow> k \<le> e)"
proof (cases "mlen = -1")
  case True
  have f: "find (\<lambda>e. seg s p e \<in> plang eg ps) (rev [p..<Suc (length s)]) = r"
    using r True unfolding match_from_find [OF wf s] by simp
  show ?thesis
  proof (cases r)
    case None
    then show ?thesis using f find_upt_None(2) by (simp add: occurs_def)
  next
    case (Some e)
    then show ?thesis using find_greatest [OF f [unfolded Some]] p by (auto simp: occurs_def)
  qed
next
  case False
  have sm: "list_all simple_pat ps" "mlen = int (length ps)"
    using False m wf umatchlen_spells [of eg ps] by (auto simp: wf_pats_def split: if_splits)
  have k: "k = p + nat mlen" if "occurs (plang eg ps) s p k" for k
    using simple_length [OF sm(1), of "seg s p k"] that sm(2) by (auto simp: occurs_def seg_def)
  have "r = (if seg s p (p + nat mlen) \<in> plang eg ps then Some (p + nat mlen) else None)"
    using r False unfolding match_from_find [OF wf s] by (auto split: if_splits)
  then show ?thesis using k l False p by (auto simp: occurs_def split: if_splits)
qed

definition found_from :: "string set \<Rightarrow> string \<Rightarrow> nat \<Rightarrow> (nat \<times> nat) option \<Rightarrow> bool" where
  "found_from L s a r \<longleftrightarrow>
     (case r of
        None \<Rightarrow> \<forall>i e. a \<le> i \<longrightarrow> \<not> occurs L s i e
      | Some (i, e) \<Rightarrow> occurs L s i e \<and> (\<forall>j k. a \<le> j \<and> occurs L s j k \<longrightarrow> i \<le> j) \<and> (\<forall>k. occurs L s i k \<longrightarrow> k \<le> e))"

lemma found_from_Suc:
  assumes "found_from L s (Suc a) r" and "\<forall>e. \<not> occurs L s a e"
  shows "found_from L s a r"
proof -
  have "Suc a \<le> j" if "a \<le> j" "occurs L s j k" for j k using that assms(2) by (metis not_less_eq_eq order_antisym)
  then show ?thesis using assms(1) unfolding found_from_def by (cases r) (simp_all split: prod.splits, blast+)
qed

lemma found_from_0: "found_from L s 0 r \<longleftrightarrow> found_match L s r"
  unfolding found_from_def found_match_def leftmost_def by (cases r) auto

lemma match_any_leftmost:
  assumes wf: "wf_pats eg ps" "ps \<noteq> []" and s: "c_string s" and m: "mlen = umatchlen (spells ps)"
  shows "\<exists>r. match_any ar (FNMATCH_EXTFLAG eg) s (spells ps) mlen [a..<Suc (length s)] = Some r \<and> found_from (plang eg ps) s a r"
proof (induction "Suc (length s) - a" arbitrary: a)
  case 0
  then show ?case by (auto simp: occurs_def found_from_def simp del: upt_Suc)
next
  case (Suc x)
  let ?L = "plang eg ps" and ?m = "\<lambda>a. match_any ar (FNMATCH_EXTFLAG eg) s (spells ps) mlen [a..<Suc (length s)]"
  from Suc.hyps(2) have u: "[a..<Suc (length s)] = a # [Suc a..<Suc (length s)]" by (subst upt_conv_Cons) auto
  have IH: "\<exists>r. ?m (Suc a) = Some r \<and> found_from ?L s (Suc a) r" using Suc.hyps by auto
  have later: ?case if "?m a = ?m (Suc a)" "\<forall>e. \<not> occurs ?L s a e" using IH that found_from_Suc by metis
  show ?case
  proof (cases "match_pattern_char (spells ps) (drop a s)")
    case False
    then have "?m a = ?m (Suc a)" unfolding u by simp
    moreover have "\<forall>e. \<not> occurs ?L s a e"
      using False match_pattern_char_needed [of eg ps s a _ eg] wf s by (auto simp: occurs_def wf_pats_def seg_def)
    ultimately show ?thesis by (rule later)
  next
    case True
    then have a: "a < length s" by (auto simp: match_pattern_char_def char_at_def split: if_splits)
    show ?thesis
    proof (cases "mlen \<noteq> -1 \<and> length s < a + nat mlen")
      case True
      have sm: "list_all simple_pat ps" "mlen = int (length ps)"
        using True m wf umatchlen_spells [of eg ps] by (auto simp: wf_pats_def split: if_splits)
      have "\<not> occurs ?L s i e" if "a \<le> i" for i e
        using that True sm(2) simple_length [OF sm(1), of "seg s i e"] by (auto simp: occurs_def seg_def)
      moreover have "?m a = Some None" unfolding u using \<open>match_pattern_char (spells ps) (drop a s)\<close> True by simp
      ultimately show ?thesis by (simp add: found_from_def)
    next
      case False
      obtain r where r: "match_from ar (FNMATCH_EXTFLAG eg) s (spells ps) mlen a = Some r" using match_from_find [OF wf(1) s] by blast
      have "mlen = -1 \<or> a + nat mlen \<le> length s" using False by auto
      note lg = match_from_longest [OF wf(1) s a m this r]
      have ma: "?m a = (case r of Some p1 \<Rightarrow> Some (Some (a, p1)) | None \<Rightarrow> ?m (Suc a))"
        unfolding u using \<open>match_pattern_char (spells ps) (drop a s)\<close> False r by (auto simp del: upt_Suc)
      show ?thesis
      proof (cases r)
        case None
        then show ?thesis using ma lg by (intro later) simp_all
      next
        case (Some e)
        then show ?thesis using ma lg by (simp add: found_from_def del: upt_Suc)
      qed
    qed
  qed
qed

text \<open>The patterns for which the first test of the search is not wrong.\<close>

definition search_pats :: "bool \<Rightarrow> gpat list \<Rightarrow> bool" where
  "search_pats eg ps \<longleftrightarrow> wf_pats eg ps \<and> ps \<noteq> [] \<and> \<not> ext_next ps \<and> \<not> (hd ps = GStar \<and> last ps = GLit (CHR ''*''))"

lemma search_pats_ne: "search_pats eg ps \<Longrightarrow> spells ps \<noteq> []"
  using spell_ne by (cases ps) (auto simp: search_pats_def)

lemma pretest:
  assumes "search_pats eg ps" and "c_string s"
  shows "strmatch ar (Some (star_both eg (spells ps))) (Some s) (FNMATCH_EXTFLAG eg) =
    verdict (\<exists>i e. i \<le> e \<and> e \<le> length s \<and> seg s i e \<in> plang eg ps)"
proof -
  obtain qs where qs: "star_both eg (spells ps) = spells qs" "wf_pats eg qs" "plang eg qs = conc UNIV (conc (plang eg ps) UNIV)"
    using star_both_spells [of eg ps] assms(1) by (auto simp: search_pats_def)
  have "s \<in> conc UNIV (conc (plang eg ps) UNIV) \<longleftrightarrow> (\<exists>i e. i \<le> e \<and> e \<le> length s \<and> seg s i e \<in> plang eg ps)"
  proof
    assume "s \<in> conc UNIV (conc (plang eg ps) UNIV)"
    then obtain u v w where "s = u @ v @ w" "v \<in> plang eg ps" by (auto simp: in_conc)
    then show "\<exists>i e. i \<le> e \<and> e \<le> length s \<and> seg s i e \<in> plang eg ps"
      by (intro exI [of _ "length u"] exI [of _ "length u + length v"]) (simp add: seg_def)
  next
    assume "\<exists>i e. i \<le> e \<and> e \<le> length s \<and> seg s i e \<in> plang eg ps"
    then obtain i e where ie: "i \<le> e" "e \<le> length s" "seg s i e \<in> plang eg ps" by blast
    have "s = seg s 0 i @ seg s i e @ seg s e (length s)"
      using seg_append [of 0 i "length s" s] seg_append [of i e "length s" s] ie by (simp add: seg_def)
    then show "s \<in> conc UNIV (conc (plang eg ps) UNIV)" using ie(3) unfolding in_conc by blast
  qed
  then show ?thesis unfolding qs(1) strmatch_plang [OF qs(2) assms(2)] qs(3) by simp
qed

lemma match_pattern_any:
  assumes ps: "search_pats eg ps" and s: "c_string s"
  shows "\<exists>r. match_pattern ar eg (Some s) (Some (spells ps)) MATCH_ANY = Some r \<and> found_match (plang eg ps) s r"
proof (cases "s = []")
  case True
  then show ?thesis by (simp add: match_pattern_def found_match_def occurs_def)
next
  case False
  let ?P = "\<exists>i e. i \<le> e \<and> e \<le> length s \<and> seg s i e \<in> plang eg ps"
  have ne: "\<not> (s = [] \<or> spells ps = [])" "spells ps \<noteq> []" using False search_pats_ne [OF ps] by auto
  have mp: "match_pattern ar eg (Some s) (Some (spells ps)) MATCH_ANY =
      (if ?P then match_any ar (FNMATCH_EXTFLAG eg) s (spells ps) (umatchlen (spells ps)) [0..<Suc (length s)] else Some None)"
    unfolding match_pattern_def match_upattern_def Let_def prod.case option.case pretest [OF ps s] if_not_P [OF ne(1)] if_not_P [OF ne(2)]
    by (cases ?P) (simp_all only: verdict_def Option.bind.simps FNM_NOMATCH_def if_True if_False, simp_all)
  show ?thesis
  proof (cases ?P)
    case True
    then show ?thesis unfolding mp found_from_0 [symmetric]
      using match_any_leftmost [of eg ps s "umatchlen (spells ps)" ar 0] ps s by (simp add: search_pats_def del: upt_Suc)
  next
    case False
    then show ?thesis unfolding mp by (auto simp: found_match_def occurs_def)
  qed
qed

text \<open>
  C13. Searching for a pattern. For patterns that are not empty, are as in the theorem on the matcher (no star with an extended pattern behind it), do not begin with an
  extended pattern, be it behind stars and question marks, and do not both begin with a star and end with a literal one (where
  occurrences are missed, lemma \<open>literal_star_missed\<close>), and for a value without null characters, \<open>match_pattern\<close> of type \<^verbatim>\<open>MATCH_ANY\<close>, with all its
  shortcuts (the test of the whole value with stars added to the pattern, the test of the first
  character, the fixed length computed by \<open>umatchlen\<close>), reads only inside the value and returns the
  leftmost longest part of the value that is in the language of the pattern, and none only if
  the pattern matches at no character of the value.
\<close>

theorem match_pattern_leftmost_longest:
  assumes "search_pats eg ps" and "c_string s"
  shows "\<exists>r. match_pattern ar eg (Some s) (Some (spells ps)) MATCH_ANY = Some r \<and>
    (case r of
       None \<Rightarrow> \<forall>i e. \<not> occurs (plang eg ps) s i e
     | Some (i, e) \<Rightarrow> occurs (plang eg ps) s i e \<and> (\<forall>j k. occurs (plang eg ps) s j k \<longrightarrow> i \<le> j) \<and>
         (\<forall>k. occurs (plang eg ps) s i k \<longrightarrow> k \<le> e))"
  using match_pattern_any [OF assms, of ar] unfolding found_match_def leftmost_def .

text \<open>Replacing every occurrence, from left to right.\<close>

inductive replaced :: "string set \<Rightarrow> string \<Rightarrow> string \<Rightarrow> string \<Rightarrow> bool" for L rep where
  replaced_none: "(\<forall>i e. \<not> occurs L s i e) \<Longrightarrow> replaced L rep s s"
| replaced_empty: "leftmost L s i i \<Longrightarrow> replaced L rep (drop (Suc i) s) t \<Longrightarrow> replaced L rep s (take i s @ rep @ [s ! i] @ t)"
| replaced_part: "leftmost L s i e \<Longrightarrow> i < e \<Longrightarrow> replaced L rep (drop e s) t \<Longrightarrow> replaced L rep s (take i s @ rep @ t)"

lemma pat_subst_loop_replaces:
  assumes ps: "search_pats eg ps" and mf: "mflags AND MATCH_TYPEMASK = MATCH_ANY" "mflags AND MATCH_GLOBREP \<noteq> 0"
  shows "c_string s \<Longrightarrow> \<exists>t. pat_subst_loop ar eg s (Some (spells ps)) rep mflags = Some t \<and> replaced (plang eg ps) rep s t"
proof (induction "length s" arbitrary: s rule: less_induct)
  case less
  obtain r where r: "match_pattern ar eg (Some s) (Some (spells ps)) MATCH_ANY = Some r" "found_match (plang eg ps) s r"
    using match_pattern_any [OF ps less.prems, of ar] by blast
  note unf = pat_subst_loop.simps [of ar eg s "Some (spells ps)" rep mflags]
  show ?case
  proof (cases r)
    case None
    then show ?thesis using r mf by (simp add: unf found_match_def replaced_none)
  next
    case (Some x)
    obtain i e where x: "x = (i, e)" by (cases x)
    then have lm: "leftmost (plang eg ps) s i e" using r(2) Some by (simp add: found_match_def)
    then have ie: "i < length s" "i \<le> e" "e \<le> length s" by (auto simp: leftmost_def occurs_def)
    show ?thesis
    proof (cases "i = e")
      case True
      obtain t where "pat_subst_loop ar eg (drop (Suc e) s) (Some (spells ps)) rep mflags = Some t" "replaced (plang eg ps) rep (drop (Suc e) s) t"
        using less.hyps [OF _ c_string_take_drop(2) [OF less.prems], of "Suc e"] ie by fastforce
      then show ?thesis using r(1) Some x mf True ie lm replaced_empty [of _ s i] by (simp add: unf)
    next
      case False
      obtain t where "pat_subst_loop ar eg (drop e s) (Some (spells ps)) rep mflags = Some t" "replaced (plang eg ps) rep (drop e s) t"
        using less.hyps [OF _ c_string_take_drop(2) [OF less.prems], of e] ie False by fastforce
      then show ?thesis using r(1) Some x mf False ie lm replaced_part [of _ s i e] by (simp add: unf)
    qed
  qed
qed

text \<open>
  C12. Global replacement ends and replaces every occurrence. For the patterns of the previous
  theorem (\<^const>\<open>search_pats\<close>: not empty, no extended pattern at the start, not beginning with a star and ending with a literal one, no star with
  an extended pattern behind it) and a value without null characters, \<open>pat_subst\<close> called as for \<^verbatim>\<open>${v//p/r}\<close> returns: from
  left to right each leftmost longest occurrence is replaced, a character is copied after an
  occurrence of length zero, and what follows the last occurrence is kept.
\<close>

theorem pat_subst_replaces_all:
  assumes "search_pats eg ps" and "c_string s"
  shows "\<exists>t. pat_subst ar eg (Some s) (Some (spells ps)) (Some rep) (MATCH_ANY OR MATCH_GLOBREP) = Some t \<and>
    replaced (plang eg ps) rep s t"
proof -
  have m: "(MATCH_ANY OR MATCH_GLOBREP) AND MATCH_TYPEMASK = MATCH_ANY" "(MATCH_ANY OR MATCH_GLOBREP) AND MATCH_GLOBREP \<noteq> 0"
    "MATCH_ANY \<noteq> MATCH_BEG" "MATCH_ANY \<noteq> MATCH_END" by (simp_all add: cdefs)
  show ?thesis
    using pat_subst_loop_replaces [OF assms(1) m(1,2) assms(2), of ar rep] by (simp add: pat_subst_def m)
qed

lemma search_pats_example: "search_pats False [GLit (CHR ''a''), GAny]" "spells [GLit (CHR ''a''), GAny] = ''a?''"
  by (simp_all add: search_pats_def wf_pats_def spell_char_def specials_def)

theorem match_pattern_leftmost_longest_witness:
  "(\<exists>r. match_pattern True False (Some ''xabacy'') (Some ''a?'') MATCH_ANY = Some r \<and>
     (case r of
        None \<Rightarrow> \<forall>i e. \<not> occurs (plang False [GLit (CHR ''a''), GAny]) ''xabacy'' i e
      | Some (i, e) \<Rightarrow> occurs (plang False [GLit (CHR ''a''), GAny]) ''xabacy'' i e \<and>
          (\<forall>j k. occurs (plang False [GLit (CHR ''a''), GAny]) ''xabacy'' j k \<longrightarrow> i \<le> j) \<and>
          (\<forall>k. occurs (plang False [GLit (CHR ''a''), GAny]) ''xabacy'' i k \<longrightarrow> k \<le> e))) \<and>
   match_pattern True False (Some ''xabacy'') (Some ''a?'') MATCH_ANY = Some (Some (1, 3))"
proof -
  have "c_string ''xabacy''" by (simp add: c_string_def)
  from match_pattern_leftmost_longest [OF search_pats_example(1) this, of True, unfolded search_pats_example(2)]
  show ?thesis by (rule conjI) code_simp
qed

theorem pat_subst_replaces_all_witness:
  "(\<exists>t. pat_subst True False (Some ''xabacy'') (Some ''a?'') (Some ''-'') (MATCH_ANY OR MATCH_GLOBREP) = Some t \<and>
     replaced (plang False [GLit (CHR ''a''), GAny]) ''-'' ''xabacy'' t) \<and>
   pat_subst True False (Some ''xabacy'') (Some ''a?'') (Some ''-'') (MATCH_ANY OR MATCH_GLOBREP) = Some ''x--y''"
proof -
  have "c_string ''xabacy''" by (simp add: c_string_def)
  from pat_subst_replaces_all [OF search_pats_example(1) this, of True "''-''", unfolded search_pats_example(2)]
  show ?thesis by (rule conjI) code_simp
qed

text \<open>
  A pattern that begins with a star and ends with a literal one is not extended with a star before
  the first test, so that the search misses an occurrence that does not end the value.
\<close>

lemma literal_star_missed:
  "match_pattern True False (Some ''a*b'') (Some [CHR ''*'', BSLASH, CHR ''*'']) MATCH_ANY = Some None"
  "strmatch True (Some [CHR ''*'', BSLASH, CHR ''*'']) (Some ''a*'') (FNMATCH_EXTFLAG False) = Some 0"
  by code_simp+

end
