(* ===== verification/Braces.thy ===== *)
theory Braces
  imports Cint Syntaxtab "HOL-Library.Monad_Syntax"
begin

text \<open>
  Brace expansion, \<^verbatim>\<open>braces.c\<close>, in a single-byte locale and as built for the shell. The reader of
  command substitutions, \<^verbatim>\<open>extract_command_subst\<close>, runs the parser: it is the parameter \<open>subst\<close>, which
  gives how far it moves the index it is called with, or \<open>None\<close> when it leaves the expansion with an
  error. \<open>None\<close> also stands for an access outside a string or outside the block of a vector.
\<close>

subsection \<open>Machine arithmetic\<close>

definition sh_imaxabs :: "int \<Rightarrow> int" where
  "sh_imaxabs x = (if x \<ge> 0 then x else to_intmax (- x))"

definition ADDOVERFLOW :: "int \<Rightarrow> int \<Rightarrow> int \<Rightarrow> int \<Rightarrow> bool" where
  "ADDOVERFLOW a b minv maxv \<longleftrightarrow> a > 0 \<and> b > maxv - a \<or> a < 0 \<and> b < minv - a"

definition SUBOVERFLOW :: "int \<Rightarrow> int \<Rightarrow> int \<Rightarrow> int \<Rightarrow> bool" where
  "SUBOVERFLOW a b minv maxv \<longleftrightarrow> b > 0 \<and> a < minv + b \<or> b < 0 \<and> a > maxv + b"

subsection \<open>Finding braces and separators\<close>

definition brace_whitespace :: "char \<Rightarrow> bool" where
  "brace_whitespace c \<longleftrightarrow> c = NUL \<or> c = CHR '' '' \<or> c = CHR 0x09 \<or> c = CHR 0x0A"

definition substring :: "string \<Rightarrow> nat \<Rightarrow> nat \<Rightarrow> string" where
  "substring s start end = take (end - start) (drop start s)"

text \<open>
  The loop of \<open>brace_gobbler\<close>: the character that ended it, which is the terminator when nothing was
  found, and its index. No quote is the null character, as in the code.
\<close>

function brace_gobbler_loop ::
  "(string \<Rightarrow> nat \<Rightarrow> nat option) \<Rightarrow> string \<Rightarrow> char \<Rightarrow> nat \<Rightarrow> char \<Rightarrow> nat \<Rightarrow> nat \<Rightarrow> bool \<Rightarrow> (char \<times> nat) option" where
  "brace_gobbler_loop subst text satisfy i quoted level commas pass_next =
     (if length text < i then None
      else
        let c = char_at text i; d = char_at text (Suc i);
            comsub = do { k \<leftarrow> subst text (i + 2); brace_gobbler_loop subst text satisfy (Suc (i + 2 + k)) quoted level commas False }
        in if c = NUL then Some (NUL, i)
           else if pass_next then brace_gobbler_loop subst text satisfy (Suc i) quoted level commas False
           else if c = BSLASH \<and> (quoted = NUL \<or> quoted = DQUOTE \<or> quoted = CHR ''`'') then
             brace_gobbler_loop subst text satisfy (Suc i) quoted level commas True
           else if c = CHR ''$'' \<and> d = CHR ''{'' \<and> quoted \<noteq> SQUOTE then
             brace_gobbler_loop subst text satisfy (Suc i) quoted (if quoted = NUL then Suc level else level) commas True
           else if quoted \<noteq> NUL then
             (if c = quoted then brace_gobbler_loop subst text satisfy (Suc i) NUL level commas False
              else if quoted = DQUOTE \<and> c = CHR ''$'' \<and> d = CHR ''('' then comsub
              else brace_gobbler_loop subst text satisfy (Suc i) quoted level commas False)
           else if c = DQUOTE \<or> c = SQUOTE \<or> c = CHR ''`'' then
             brace_gobbler_loop subst text satisfy (Suc i) c level commas False
           else if (c = CHR ''$'' \<or> c = CHR ''<'' \<or> c = CHR ''>'') \<and> d = CHR ''('' then comsub
           else if c = satisfy \<and> level = 0 \<and> commas > 0 then
             (if c = CHR ''{'' \<and> (i = 0 \<or> brace_whitespace (char_at text (i - 1))) \<and> (brace_whitespace d \<or> d = CHR ''}'')
              then brace_gobbler_loop subst text satisfy (Suc i) quoted level commas False
              else Some (c, i))
           else if c = CHR ''{'' then brace_gobbler_loop subst text satisfy (Suc i) quoted (Suc level) commas False
           else if c = CHR ''}'' \<and> level \<noteq> 0 then brace_gobbler_loop subst text satisfy (Suc i) quoted (level - 1) commas False
           else if satisfy = CHR ''}'' \<and> c = CHR '','' \<and> level = 0 then
             brace_gobbler_loop subst text satisfy (Suc i) quoted level (Suc commas) False
           else if satisfy = CHR ''}'' \<and> c = CHR ''.'' \<and> d = CHR ''.'' \<and> char_at text (i + 2) \<noteq> satisfy \<and> level = 0 then
             brace_gobbler_loop subst text satisfy (Suc i) quoted level (Suc commas) False
           else brace_gobbler_loop subst text satisfy (Suc i) quoted level commas False)"
  by pat_completeness auto
termination
  by (relation "measure (\<lambda>(subst, text, satisfy, i, quoted, level, commas, pass_next). Suc (length text) - i)") auto

declare brace_gobbler_loop.simps [simp del]

definition brace_gobbler :: "(string \<Rightarrow> nat \<Rightarrow> nat option) \<Rightarrow> string \<Rightarrow> nat \<Rightarrow> char \<Rightarrow> (char \<times> nat) option" where
  "brace_gobbler subst text indx satisfy =
     brace_gobbler_loop subst text satisfy indx NUL 0 (if satisfy = CHR ''}'' then 0 else 1) False"

lemma brace_gobbler_loop_step:
  assumes "brace_gobbler_loop subst text satisfy i quoted level commas pass = Some (c, j)"
  shows "i \<le> length text \<and> (j = i \<and> c = char_at text i \<or>
    (\<exists>i' q l m p. i < i' \<and> brace_gobbler_loop subst text satisfy i' q l m p = Some (c, j)))"
proof (cases "length text < i")
  case False
  define goal where "goal \<longleftrightarrow> (i \<le> length text \<and> (j = i \<and> c = char_at text i \<or>
    (\<exists>i' q l m p. i < i' \<and> brace_gobbler_loop subst text satisfy i' q l m p = Some (c, j))))"
  have step: "brace_gobbler_loop subst text s i' q l m p = Some (c, j) \<Longrightarrow> s = satisfy \<Longrightarrow> i < i' \<Longrightarrow> goal" for s i' q l m p
    unfolding goal_def using False by auto
  have stop: "Some (c', i) = Some (c, j) \<Longrightarrow> char_at text i = c' \<Longrightarrow> goal" for c' unfolding goal_def using False by auto
  have goal
    using assms [unfolded brace_gobbler_loop.simps [of subst "text" satisfy i]] False
    unfolding Let_def
    by (simp only: if_False split: if_split_asm Option.bind_splits)
       (((erule step, simp, simp) | (erule stop, simp) | simp)+)
  then show ?thesis by (simp add: goal_def)
qed (use assms in \<open>simp add: brace_gobbler_loop.simps [of subst "text" satisfy i]\<close>)

lemma brace_gobbler_loop_bounds:
  "brace_gobbler_loop subst text satisfy i quoted level commas pass = Some (c, j) \<Longrightarrow> i \<le> j \<and> j \<le> length text \<and> c = char_at text j"
proof (induction "Suc (length text) - i" arbitrary: i quoted level commas pass rule: less_induct)
  case less
  note st = brace_gobbler_loop_step [OF less.prems]
  then show ?case
  proof (elim conjE disjE exE)
    fix i' q l m p
    assume i: "i \<le> length text" "i < i'" and l: "brace_gobbler_loop subst text satisfy i' q l m p = Some (c, j)"
    have "i' \<le> j \<and> j \<le> length text \<and> c = char_at text j" using i by (intro less.hyps [OF _ l]) auto
    then show ?case using i by simp
  qed simp
qed

lemma brace_gobbler_bounds: "brace_gobbler subst text i satisfy = Some (c, j) \<Longrightarrow> i \<le> j \<and> j \<le> length text \<and> c = char_at text j"
  unfolding brace_gobbler_def by (rule brace_gobbler_loop_bounds)

text \<open>The loop that finds an open brace that begins an expansion.\<close>

function find_brace :: "(string \<Rightarrow> nat \<Rightarrow> nat option) \<Rightarrow> string \<Rightarrow> nat \<Rightarrow> (char \<times> nat) option" where
  "find_brace subst text i =
     (if length text < i then None
      else do {
        (c, i) \<leftarrow> brace_gobbler subst text i (CHR ''{'');
        if c = NUL then Some (c, i)
        else do {
          (c', j) \<leftarrow> brace_gobbler subst text (Suc i) (CHR ''}'');
          if c' = NUL then find_brace subst text (Suc i) else Some (c, i)
        }
      })"
  by pat_completeness auto
termination
  by (relation "measure (\<lambda>(subst, text, i). Suc (length text) - i)") (auto dest!: brace_gobbler_bounds)

declare find_brace.simps [simp del]

lemma find_brace_bounds: "find_brace subst text i = Some (c, j) \<Longrightarrow> i \<le> j \<and> j \<le> length text \<and> c = char_at text j"
proof (induction "Suc (length text) - i" arbitrary: i rule: less_induct)
  case less
  then obtain c1 k where k: "i \<le> length text" "brace_gobbler subst text i (CHR ''{'') = Some (c1, k)"
    by (auto simp: find_brace.simps [of subst "text" i] split: if_splits Option.bind_splits)
  note b1 = brace_gobbler_bounds [OF k(2)]
  show ?case
  proof (cases "c1 = NUL")
    case True
    then show ?thesis using less.prems k b1 by (simp add: find_brace.simps [of subst "text" i])
  next
    case False
    then obtain c2 m where m: "brace_gobbler subst text (Suc k) (CHR ''}'') = Some (c2, m)"
      using less.prems k by (auto simp: find_brace.simps [of subst "text" i] split: Option.bind_splits)
    show ?thesis
    proof (cases "c2 = NUL")
      case True
      then have "find_brace subst text (Suc k) = Some (c, j)"
        using less.prems k m False by (simp add: find_brace.simps [of subst "text" i])
      moreover have "Suc (length text) - Suc k < Suc (length text) - i" using b1 k by auto
      ultimately show ?thesis using less.hyps b1 by fastforce
    next
      case n: False
      then show ?thesis using less.prems k m False b1 by (auto simp: find_brace.simps [of subst "text" i])
    qed
  qed
qed

text \<open>Whether the part between the braces has a separator that no backslash precedes.\<close>

function amble_comma :: "string \<Rightarrow> nat \<Rightarrow> bool option" where
  "amble_comma amble j =
     (if length amble < j then None
      else if char_at amble j = NUL then Some False
      else if char_at amble j = BSLASH then amble_comma amble (j + 2)
      else if char_at amble j = CHR '','' then Some True
      else amble_comma amble (Suc j))"
  by pat_completeness auto
termination
  by (relation "measure (\<lambda>(amble, j). Suc (length amble) - j)") auto

declare amble_comma.simps [simp del]

text \<open>The pieces \<open>expand_amble\<close> splits its text into.\<close>

function amble_pieces :: "(string \<Rightarrow> nat \<Rightarrow> nat option) \<Rightarrow> string \<Rightarrow> nat \<Rightarrow> string list option" where
  "amble_pieces subst text start =
     (if length text < start then None
      else do {
        (c, i) \<leftarrow> brace_gobbler subst text start (CHR '','');
        if c = NUL then Some [substring text start i]
        else do {
          rest \<leftarrow> amble_pieces subst text (Suc i);
          Some (substring text start i # rest)
        }
      })"
  by pat_completeness auto
termination
  by (relation "measure (\<lambda>(subst, text, start). Suc (length text) - start)") (auto dest!: brace_gobbler_bounds)

declare amble_pieces.simps [simp del]

subsection \<open>Sequences\<close>

definition ST_BAD :: int where [cdefs]: "ST_BAD = 0"
definition ST_INT :: int where [cdefs]: "ST_INT = 1"
definition ST_CHAR :: int where [cdefs]: "ST_CHAR = 2"
definition ST_ZINT :: int where [cdefs]: "ST_ZINT = 3"

text \<open>The format \<^verbatim>\<open>%0*d\<close>.\<close>

definition zero_padded :: "nat \<Rightarrow> int \<Rightarrow> string" where
  "zero_padded width arg =
     (let ds = itos \<bar>arg\<bar>
      in if arg < 0 then CHR ''-'' # replicate (width - 1 - length ds) (CHR ''0'') @ ds
         else replicate (width - length ds) (CHR ''0'') @ ds)"

definition seq_element :: "int \<Rightarrow> nat \<Rightarrow> int \<Rightarrow> string" where
  "seq_element type width n =
     (if type = ST_INT then itos n
      else if type = ST_ZINT then zero_padded width (to_int n)
      else takeWhile (\<lambda>c. c \<noteq> NUL) [char_of (nat (n mod 256))])"

text \<open>The loop of \<open>mkseq\<close>: the elements written are checked against the size of the vector.\<close>

function mkseq_loop :: "int \<Rightarrow> nat \<Rightarrow> int \<Rightarrow> int \<Rightarrow> nat \<Rightarrow> int \<Rightarrow> nat \<Rightarrow> string list option" where
  "mkseq_loop type width end incr slots n i =
     (if \<not> i < slots then None
      else
        let t = seq_element type width n; stop = (if Suc i < slots then Some [t] else None)
        in if ADDOVERFLOW n incr INTMAX_MIN INTMAX_MAX then stop
           else
             let n = n + incr
             in if incr < 0 \<and> n < end \<or> incr > 0 \<and> n > end then stop
                else do { rest \<leftarrow> mkseq_loop type width end incr slots n (Suc i); Some (t # rest) })"
  by pat_completeness auto
termination
  by (relation "measure (\<lambda>(type, width, end, incr, slots, n, i). slots - i)") auto

declare mkseq_loop.simps [simp del]

text \<open>
  A request for a negative number of elements is a request for more than half of the address
  space, which \<^verbatim>\<open>malloc\<close> refuses; the inner \<open>None\<close> is the null pointer.
\<close>

definition mkseq :: "int \<Rightarrow> int \<Rightarrow> int \<Rightarrow> int \<Rightarrow> nat \<Rightarrow> string list option option" where
  "mkseq start end incr type width =
     (let incr = (if incr = 0 then 1 else incr)
      in if start < end \<and> incr = INTMAX_MIN then Some None
         else
           let incr = (if start > end \<and> incr > 0 \<or> start < end \<and> incr < 0 then - incr else incr)
           in if SUBOVERFLOW end start (INTMAX_MIN + 3) (INTMAX_MAX - 2) then Some None
              else
                let prevn = sh_imaxabs (end - start)
                in if ADDOVERFLOW (c_div prevn (sh_imaxabs incr)) 1 INTMAX_MIN INTMAX_MAX then Some None
                   else
                     let nelem = to_int (c_div prevn (sh_imaxabs incr) + 1)
                     in if nelem > INT_MAX - 2 \<or> nelem + 1 < 0 then Some None
                        else do { r \<leftarrow> mkseq_loop type width end incr (nat (nelem + 1)) start 0; Some (Some r) })"

fun find_dots :: "string \<Rightarrow> nat option" where
  "find_dots [] = None"
| "find_dots (c # s) = (if c = CHR ''.'' \<and> char_at s 0 = CHR ''.'' then Some 0 else map_option Suc (find_dots s))"

text \<open>The type of the right side, its number and the offset of what follows it.\<close>

definition seq_rhs :: "string \<Rightarrow> int \<times> int \<times> nat" where
  "seq_rhs rhs =
     (if DIGIT (char_at rhs 0) \<or> (char_at rhs 0 = CHR ''+'' \<or> char_at rhs 0 = CHR ''-'') \<and> DIGIT (char_at rhs 1) then
        (case strtoimax rhs 10 of
           (tr, ep, err) \<Rightarrow>
             let e = the ep
             in (if err = ERANGE \<or> char_at rhs e \<noteq> NUL \<and> char_at rhs e \<noteq> CHR ''.'' then ST_BAD else ST_INT, tr, e))
      else if ISALPHA (char_at rhs 0) \<and> (char_at rhs 1 = NUL \<or> char_at rhs 1 = CHR ''.'') then (ST_CHAR, 0, 1)
      else (ST_BAD, 0, 0))"

text \<open>The increment, the offset after it and whether it was read without overflow.\<close>

definition seq_incr :: "string \<Rightarrow> nat \<Rightarrow> int \<times> nat \<times> bool" where
  "seq_incr rhs ep =
     (if char_at rhs ep = CHR ''.'' \<and> char_at rhs (ep + 1) = CHR ''.'' \<and> char_at rhs (ep + 2) \<noteq> NUL then
        (case strtoimax (drop (ep + 2) rhs) 10 of (incr, e, err) \<Rightarrow> (incr, ep + 2 + the e, err \<noteq> ERANGE))
      else (1, ep, True))"

definition seq_width :: "string \<Rightarrow> string \<Rightarrow> nat \<Rightarrow> nat \<Rightarrow> int \<times> nat" where
  "seq_width lhs rhs lhs_l rhs_l =
     (let (t, width) = (ST_INT, 0);
          (t, width) = (if lhs_l > 1 \<and> char_at lhs 0 = CHR ''0'' then (ST_ZINT, lhs_l) else (t, width));
          (t, width) = (if lhs_l > 2 \<and> char_at lhs 0 = CHR ''-'' \<and> char_at lhs 1 = CHR ''0'' then (ST_ZINT, lhs_l) else (t, width));
          (t, width) = (if rhs_l > 1 \<and> char_at rhs 0 = CHR ''0'' \<and> width < rhs_l then (ST_ZINT, rhs_l) else (t, width));
          (t, width) = (if rhs_l > 2 \<and> char_at rhs 0 = CHR ''-'' \<and> char_at rhs 1 = CHR ''0'' \<and> width < rhs_l
                        then (ST_ZINT, rhs_l) else (t, width));
          width = (if width < lhs_l \<and> t = ST_ZINT then lhs_l else width);
          width = (if width < rhs_l \<and> t = ST_ZINT then rhs_l else width)
      in (t, width))"

definition expand_seqterm :: "string \<Rightarrow> string list option option" where
  "expand_seqterm text =
     (case find_dots text of
        None \<Rightarrow> Some None
      | Some lhs_l \<Rightarrow>
          let lhs = substring text 0 lhs_l; rhs = substring text (lhs_l + 2) (length text)
          in if lhs = [] \<or> rhs = [] then Some None
             else
               let (lhs_t, lv) = (case legal_number (Some lhs) of
                                    Some v \<Rightarrow> (ST_INT, v)
                                  | None \<Rightarrow> (if ISALPHA (char_at lhs 0) \<and> char_at lhs 1 = NUL then ST_CHAR else ST_BAD, 0));
                   (rhs_t, tr, oep) = seq_rhs rhs
               in if rhs_t = ST_BAD then Some None
                  else
                    let (incr, ep, in_range) = seq_incr rhs oep
                    in if char_at rhs ep \<noteq> NUL \<or> \<not> in_range \<or> lhs_t \<noteq> rhs_t then Some None
                       else if lhs_t = ST_CHAR then mkseq (uchar (char_at lhs 0)) (uchar (char_at rhs 0)) incr ST_CHAR 1
                       else
                         let (t, width) = seq_width lhs rhs lhs_l (length text - (ep - oep) - lhs_l - 2)
                         in mkseq lv tr incr t width)"

subsection \<open>The expansion\<close>

text \<open>
  A vector of words is stored, with the null pointer behind it, in a block of \<open>slots\<close> pointers. The
  number of slots is computed in \<^verbatim>\<open>int\<close>; a negative or wrapped number gives a block that is too
  small for the words (or a request that cannot be met), and the result is None.
\<close>

definition store_words :: "int \<Rightarrow> string list \<Rightarrow> string list option" where
  "store_words slots words = (if int (length words) < slots then Some words else None)"

text \<open>
  \<open>array_concat\<close> allocates \<open>1 + len1 * len2\<close> pointers and keeps the length of each word of the first
  array in an \<^verbatim>\<open>int\<close>, by which the second word is written behind it; a length that does not fit
  makes the copy leave the block of the word.
\<close>

definition array_concat :: "string list \<Rightarrow> string list \<Rightarrow> string list option" where
  "array_concat arr1 arr2 =
     (if arr1 = [[]] then Some arr2
      else if arr2 = [[]] then Some arr1
      else
        let len1 = int (length arr1); len2 = int (length arr2)
        in if list_all (\<lambda>x. int (length x) \<le> INT_MAX) arr1
           then store_words (to_int (1 + to_int (len1 * len2))) (concat (map (\<lambda>x. map (\<lambda>y. x @ y) arr2) arr1))
           else None)"

text \<open>The step of \<open>expand_amble\<close> that appends the words of a piece to those of the pieces before it.\<close>

definition array_append :: "string list \<Rightarrow> string list \<Rightarrow> string list option" where
  "array_append result partial =
     (if result = [] then Some partial
      else store_words (to_int (int (length partial) + int (length result) + 1)) (result @ partial))"

lemma amble_pieces_length:
  "amble_pieces subst text start = Some ps \<Longrightarrow> p \<in> set ps \<Longrightarrow> length p \<le> length text"
proof (induction "Suc (length text) - start" arbitrary: start ps rule: less_induct)
  case less
  then obtain c i where i: "start \<le> length text" "brace_gobbler subst text start (CHR '','') = Some (c, i)"
    by (auto simp: amble_pieces.simps [of subst "text" start] split: if_splits Option.bind_splits)
  note b = brace_gobbler_bounds [OF i(2)]
  have sub: "length (substring text start i) \<le> length text" by (simp add: substring_def)
  show ?case
  proof (cases "c = NUL")
    case True
    then show ?thesis using less.prems i sub by (auto simp: amble_pieces.simps [of subst "text" start])
  next
    case False
    then obtain rest where r: "amble_pieces subst text (Suc i) = Some rest" "ps = substring text start i # rest"
      using less.prems i by (auto simp: amble_pieces.simps [of subst "text" start] split: Option.bind_splits)
    have "Suc (length text) - Suc i < Suc (length text) - start" using b i by auto
    from less.hyps [OF this r(1)] show ?thesis using less.prems(2) r(2) sub by auto
  qed
qed

definition longest :: "string list \<Rightarrow> nat" where
  "longest ps = foldr (\<lambda>p n. max (length p) n) ps 0"

lemma longest_simps [simp]: "longest [] = 0" "longest (p # ps) = max (length p) (longest ps)"
  by (simp_all add: longest_def)

lemma longest_le: "(\<And>p. p \<in> set ps \<Longrightarrow> length p \<le> n) \<Longrightarrow> longest ps \<le> n"
  by (induction ps) auto

lemma substring_length: "length (substring text start j) = min (j - start) (length text - start)"
  by (simp add: substring_def)

lemma pieces_bound: "amble_pieces subst text 0 = Some ps \<Longrightarrow> longest ps \<le> length text"
  by (rule longest_le) (rule amble_pieces_length)

lemma amble_shorter: "brace_gobbler subst text (Suc i) s = Some (c, j) \<Longrightarrow> length (substring text (Suc i) j) < length text"
  by (drule brace_gobbler_bounds) (auto simp: substring_length)

text \<open>
  The expansion, and \<open>expand_pieces\<close>, the part of \<open>expand_amble\<close> that expands the pieces in turn.
  The text of an expression that is no sequence is kept, if more
  follows it, and expansion goes on behind it.
\<close>

function brace_expand :: "(string \<Rightarrow> nat \<Rightarrow> nat option) \<Rightarrow> string \<Rightarrow> string list option"
  and expand_amble :: "(string \<Rightarrow> nat \<Rightarrow> nat option) \<Rightarrow> string \<Rightarrow> string list option"
  and expand_pieces :: "(string \<Rightarrow> nat \<Rightarrow> nat option) \<Rightarrow> string list \<Rightarrow> string list \<Rightarrow> string list option" where
  "brace_expand subst text =
     do {
       (c, i) \<leftarrow> find_brace subst text 0;
       if c \<noteq> CHR ''{'' then Some [take i text]
       else do {
         let start = Suc i;
         (c, j) \<leftarrow> brace_gobbler subst text start (CHR ''}'');
         if c = NUL then Some [text]
         else do {
           let amble = substring text start j;
           comma \<leftarrow> amble_comma amble 0;
           tack \<leftarrow> (if comma then do { r \<leftarrow> expand_amble subst amble; Some (Some r) }
                    else do {
                      s \<leftarrow> expand_seqterm amble;
                      Some (if s \<noteq> None then s
                            else if char_at text (Suc j) \<noteq> NUL then Some [take (j - start + 2) (drop i text)]
                            else None)
                    });
           (case tack of
              None \<Rightarrow> Some [text]
            | Some tack \<Rightarrow>
                do {
                  result \<leftarrow> array_concat [take i text] tack;
                  if Suc j < length text then do {
                    post \<leftarrow> brace_expand subst (drop (Suc j) text);
                    array_concat result post
                  }
                  else Some result
                })
         }
       }
     }"
| "expand_amble subst text = do { pieces \<leftarrow> amble_pieces subst text 0; expand_pieces subst [] pieces }"
| "expand_pieces subst result [] = Some result"
| "expand_pieces subst result (tem # ps) =
     do { partial \<leftarrow> brace_expand subst tem; result' \<leftarrow> array_append result partial; expand_pieces subst result' ps }"
  by pat_completeness auto
termination
  by (relation "measures
      [\<lambda>x. case x of Inl (subst, text) \<Rightarrow> length text | Inr (Inl (subst, text)) \<Rightarrow> length text | Inr (Inr (subst, result, ps)) \<Rightarrow> longest ps,
       \<lambda>x. case x of Inl _ \<Rightarrow> 0 | Inr (Inl _) \<Rightarrow> 2 | Inr (Inr _) \<Rightarrow> 1,
       \<lambda>x. case x of Inr (Inr (subst, result, ps)) \<Rightarrow> length ps | _ \<Rightarrow> 0]")
     (auto simp: max_def dest: pieces_bound amble_shorter)

declare brace_expand.simps [simp del]

end
