(* ===== verification/BraceSpec.thy ===== *)
theory BraceSpec
  imports Braces
begin

text \<open>
  What brace expansion computes. An expression is a tree of literal characters, escaped characters,
  alternatives and sequences; its expansion is the list of words in the order of a product, the
  rightmost choice varying fastest. The expansion of the spelling of a tree is the expansion of the tree.
\<close>

subsection \<open>Expressions\<close>

datatype bpat = BLit char | BEsc char | BAlts "bpat list list" | BInts int int "int option" | BLetters char char

definition brace_specials :: string where
  "brace_specials = [NUL, BSLASH, DQUOTE, SQUOTE, BQUOTE, CHR 0x09, CHR 0x0A] @ ''$<>{}, ''"

fun commas :: "string list \<Rightarrow> string" where
  "commas [] = []"
| "commas [s] = s"
| "commas (s # t # ss) = s @ '','' @ commas (t # ss)"

definition seq_text :: "int \<Rightarrow> int \<Rightarrow> int option \<Rightarrow> string" where
  "seq_text a b i = itos a @ ''..'' @ itos b @ (case i of None \<Rightarrow> [] | Some k \<Rightarrow> ''..'' @ itos k)"

fun bspell :: "bpat \<Rightarrow> string" where
  "bspell (BLit c) = [c]"
| "bspell (BEsc c) = [BSLASH, c]"
| "bspell (BAlts alts) = ''{'' @ commas (map (\<lambda>alt. concat (map bspell alt)) alts) @ ''}''"
| "bspell (BInts a b i) = ''{'' @ seq_text a b i @ ''}''"
| "bspell (BLetters c d) = ''{'' @ [c] @ ''..'' @ [d] @ ''}''"

abbreviation bspells :: "bpat list \<Rightarrow> string" where
  "bspells ps \<equiv> concat (map bspell ps)"

text \<open>The step of a sequence goes towards its end; a step of zero is one.\<close>

definition seq_step :: "int \<Rightarrow> int \<Rightarrow> int option \<Rightarrow> int" where
  "seq_step a b i =
     (let k = (case i of None \<Rightarrow> 1 | Some k \<Rightarrow> if k = 0 then 1 else k)
      in if a > b then - \<bar>k\<bar> else if a < b then \<bar>k\<bar> else k)"

definition seq_count :: "int \<Rightarrow> int \<Rightarrow> int option \<Rightarrow> nat" where
  "seq_count a b i = nat (\<bar>b - a\<bar> div \<bar>seq_step a b i\<bar>) + 1"

definition seq_values :: "int \<Rightarrow> int \<Rightarrow> int option \<Rightarrow> int list" where
  "seq_values a b i = map (\<lambda>k. a + int k * seq_step a b i) [0..<seq_count a b i]"

definition prod_words :: "string list \<Rightarrow> string list \<Rightarrow> string list" where
  "prod_words xs ys = concat (map (\<lambda>x. map (\<lambda>y. x @ y) ys) xs)"

fun bexp :: "bpat \<Rightarrow> string list" where
  "bexp (BLit c) = [[c]]"
| "bexp (BEsc c) = [[BSLASH, c]]"
| "bexp (BAlts alts) = concat (map (\<lambda>alt. foldr prod_words (map bexp alt) [[]]) alts)"
| "bexp (BInts a b i) = map itos (seq_values a b i)"
| "bexp (BLetters c d) = map (\<lambda>n. [char_of (nat n)]) (seq_values (uchar c) (uchar d) None)"

abbreviation bexps :: "bpat list \<Rightarrow> string list" where
  "bexps ps \<equiv> foldr prod_words (map bexp ps) [[]]"

definition seq_ok :: "int \<Rightarrow> int \<Rightarrow> int option \<Rightarrow> bool" where
  "seq_ok a b i \<longleftrightarrow> intmax a \<and> intmax b \<and> (case i of None \<Rightarrow> True | Some k \<Rightarrow> intmax k \<and> k \<noteq> INTMAX_MIN) \<and>
     \<bar>b - a\<bar> \<le> INTMAX_MAX - 2 \<and> int (seq_count a b i) \<le> INT_MAX - 2"

fun wf_bpat :: "bpat \<Rightarrow> bool" where
  "wf_bpat (BLit c) \<longleftrightarrow> c \<notin> set brace_specials"
| "wf_bpat (BEsc c) \<longleftrightarrow> c \<noteq> NUL"
| "wf_bpat (BAlts alts) \<longleftrightarrow> 2 \<le> length alts \<and> list_all (list_all wf_bpat) alts"
| "wf_bpat (BInts a b i) \<longleftrightarrow> seq_ok a b i"
| "wf_bpat (BLetters c d) \<longleftrightarrow> ISALPHA c \<and> ISALPHA d"

subsection \<open>Passing over text\<close>

text \<open>
  Outside quotes the search for a character goes from one place to another, at a level of braces
  that stays, and the number of separators seen does not get smaller.
\<close>

definition gobbles :: "(string \<Rightarrow> nat \<Rightarrow> nat option) \<Rightarrow> string \<Rightarrow> char \<Rightarrow> nat \<Rightarrow> nat \<Rightarrow> nat \<Rightarrow> bool" where
  "gobbles subst text sat lev p p' \<longleftrightarrow>
     (\<forall>cm. \<exists>cm' \<ge> cm. brace_gobbler_loop subst text sat p NUL lev cm False = brace_gobbler_loop subst text sat p' NUL lev cm' False)"

lemma gobbles_refl: "gobbles subst text sat lev p p"
  unfolding gobbles_def by blast

lemma gobblesI:
  assumes "\<And>cm. brace_gobbler_loop subst text sat p NUL lev cm False = brace_gobbler_loop subst text sat p' NUL lev (if P then Suc cm else cm) False"
  shows "gobbles subst text sat lev p p'"
  unfolding gobbles_def
proof
  fix cm
  have "cm \<le> (if P then Suc cm else cm)" by simp
  then show "\<exists>cm' \<ge> cm. brace_gobbler_loop subst text sat p NUL lev cm False = brace_gobbler_loop subst text sat p' NUL lev cm' False"
    using assms [of cm] by blast
qed

lemma gobbles_trans: "gobbles subst text sat lev p q \<Longrightarrow> gobbles subst text sat lev q r \<Longrightarrow> gobbles subst text sat lev p r"
proof -
  assume h: "gobbles subst text sat lev p q" "gobbles subst text sat lev q r"
  show ?thesis unfolding gobbles_def
  proof
    fix cm
    obtain c1 where 1: "cm \<le> c1" "brace_gobbler_loop subst text sat p NUL lev cm False = brace_gobbler_loop subst text sat q NUL lev c1 False"
      using h(1) unfolding gobbles_def by blast
    obtain c2 where 2: "c1 \<le> c2" "brace_gobbler_loop subst text sat q NUL lev c1 False = brace_gobbler_loop subst text sat r NUL lev c2 False"
      using h(2) unfolding gobbles_def by blast
    show "\<exists>cm' \<ge> cm. brace_gobbler_loop subst text sat p NUL lev cm False = brace_gobbler_loop subst text sat r NUL lev cm' False"
      unfolding 1(2) 2(2) using 1(1) 2(1) by (intro exI [of _ c2]) simp
  qed
qed

lemma gobbler_plain:
  assumes "p < length text" and "text ! p \<notin> set brace_specials" and "sat \<in> set brace_specials"
  shows "brace_gobbler_loop subst text sat p NUL lev cm False =
    brace_gobbler_loop subst text sat (Suc p) NUL lev
      (if sat = CHR ''}'' \<and> text ! p = CHR ''.'' \<and> char_at text (Suc p) = CHR ''.'' \<and> char_at text (p + 2) \<noteq> sat \<and> lev = 0
       then Suc cm else cm) False"
proof -
  have "char_at text p = text ! p" using assms(1) by (rule char_at_nth)
  moreover have "text ! p \<noteq> sat" using assms(2,3) by auto
  ultimately show ?thesis
    using assms(1,2) by (subst brace_gobbler_loop.simps) (auto simp: brace_specials_def Let_def)
qed

lemma gobbles_plain:
  assumes "text_at text p s" and "set s \<inter> set brace_specials = {}" and "sat \<in> set brace_specials"
  shows "gobbles subst text sat lev p (p + length s)"
  using assms(1,2)
proof (induction s arbitrary: p)
  case (Cons c s)
  have "gobbles subst text sat lev p (Suc p)"
    by (rule gobblesI, rule gobbler_plain) (use Cons.prems assms(3) in auto)
  moreover have "gobbles subst text sat lev (Suc p) (Suc p + length s)" using Cons by (intro Cons.IH) auto
  ultimately show ?case by (auto intro: gobbles_trans)
qed (simp add: gobbles_refl)

lemma gobbles_escaped:
  assumes "text_at text p [BSLASH, c]" and "c \<noteq> NUL"
  shows "gobbles subst text sat lev p (p + 2)"
proof -
  have t: "p < length text" "Suc p < length text" "text ! p = BSLASH" "text ! Suc p = c" using assms(1) by auto
  have "brace_gobbler_loop subst text sat p NUL lev cm False = brace_gobbler_loop subst text sat (Suc p) NUL lev cm True" for cm
    using t by (subst brace_gobbler_loop.simps) (simp add: char_at_nth Let_def)
  moreover have "brace_gobbler_loop subst text sat (Suc p) NUL lev cm True = brace_gobbler_loop subst text sat (p + 2) NUL lev cm False" for cm
    using t assms(2) by (subst brace_gobbler_loop.simps) (simp add: char_at_nth Let_def)
  ultimately show ?thesis unfolding gobbles_def by auto
qed

text \<open>Braces change the level, and a separator inside them counts for nothing.\<close>

lemma gobbler_open:
  assumes "text_at text p ''{''" and "sat \<noteq> CHR ''{'' \<or> 0 < lev"
  shows "brace_gobbler_loop subst text sat p NUL lev cm False = brace_gobbler_loop subst text sat (Suc p) NUL (Suc lev) cm False"
  using assms by (subst brace_gobbler_loop.simps) (auto simp: char_at_nth Let_def)

lemma gobbler_close:
  assumes "text_at text p ''}''"
  shows "brace_gobbler_loop subst text sat p NUL (Suc lev) cm False = brace_gobbler_loop subst text sat (Suc p) NUL lev cm False"
  using assms by (subst brace_gobbler_loop.simps) (auto simp: char_at_nth Let_def)

lemma gobbler_comma:
  assumes "text_at text p '',''" and "sat \<noteq> CHR '','' \<or> 0 < lev"
  shows "brace_gobbler_loop subst text sat p NUL lev cm False =
    brace_gobbler_loop subst text sat (Suc p) NUL lev (if sat = CHR ''}'' \<and> lev = 0 then Suc cm else cm) False"
proof -
  have c: "char_at text p = CHR '',''" "\<not> length text < p" using assms(1) by (auto simp: char_at_nth)
  have s: "lev = 0 \<Longrightarrow> sat \<noteq> CHR '',''" "lev = 0 \<Longrightarrow> CHR '','' \<noteq> sat" using assms(2) by auto
  show ?thesis
    unfolding brace_gobbler_loop.simps [of subst "text" sat p] Let_def c
    by (cases "lev = 0") (simp_all add: c s)
qed

lemma gobbles_comma:
  "text_at text p '','' \<Longrightarrow> sat \<noteq> CHR '','' \<or> 0 < lev \<Longrightarrow> gobbles subst text sat lev p (Suc p)"
  by (rule gobblesI, rule gobbler_comma)

lemma gobbles_braces:
  assumes "text_at text p (''{'' @ s @ ''}'')" and "gobbles subst text sat (Suc lev) (Suc p) (Suc p + length s)"
    and "sat \<noteq> CHR ''{'' \<or> 0 < lev"
  shows "gobbles subst text sat lev p (p + length (''{'' @ s @ ''}''))"
  unfolding gobbles_def
proof
  fix cm
  obtain cm' where cm': "cm \<le> cm'" "brace_gobbler_loop subst text sat (Suc p) NUL (Suc lev) cm False =
      brace_gobbler_loop subst text sat (Suc p + length s) NUL (Suc lev) cm' False" using assms(2) unfolding gobbles_def by blast
  moreover have "brace_gobbler_loop subst text sat p NUL lev cm False = brace_gobbler_loop subst text sat (Suc p) NUL (Suc lev) cm False"
    using assms by (intro gobbler_open) auto
  moreover have "brace_gobbler_loop subst text sat (Suc p + length s) NUL (Suc lev) cm' False =
      brace_gobbler_loop subst text sat (Suc (Suc p + length s)) NUL lev cm' False" using assms(1) by (intro gobbler_close) auto
  ultimately show "\<exists>cm' \<ge> cm. brace_gobbler_loop subst text sat p NUL lev cm False =
      brace_gobbler_loop subst text sat (p + length (''{'' @ s @ ''}'')) NUL lev cm' False" by auto
qed

definition gobbled :: "(string \<Rightarrow> nat \<Rightarrow> nat option) \<Rightarrow> string \<Rightarrow> char \<Rightarrow> nat \<Rightarrow> string \<Rightarrow> bool" where
  "gobbled subst text sat lev s \<longleftrightarrow> (\<forall>p. text_at text p s \<longrightarrow> gobbles subst text sat lev p (p + length s))"

lemma gobbled_append: "gobbled subst text sat lev s \<Longrightarrow> gobbled subst text sat lev t \<Longrightarrow> gobbled subst text sat lev (s @ t)"
  unfolding gobbled_def
proof (intro allI impI)
  fix p
  assume s: "\<forall>p. text_at text p s \<longrightarrow> gobbles subst text sat lev p (p + length s)"
    and t: "\<forall>p. text_at text p t \<longrightarrow> gobbles subst text sat lev p (p + length t)" and st: "text_at text p (s @ t)"
  then have "gobbles subst text sat lev p (p + length s)" "gobbles subst text sat lev (p + length s) (p + length s + length t)" by auto
  from gobbles_trans [OF this] show "gobbles subst text sat lev p (p + length (s @ t))" by (simp add: add.assoc)
qed

lemma gobbled_Nil: "gobbled subst text sat lev []"
  by (simp add: gobbled_def gobbles_refl)

lemma gobbled_concat: "(\<And>s. s \<in> set ss \<Longrightarrow> gobbled subst text sat lev s) \<Longrightarrow> gobbled subst text sat lev (concat ss)"
  by (induction ss) (auto simp: gobbled_Nil intro: gobbled_append)

lemma gobbled_commas:
  assumes "sat \<noteq> CHR '','' \<or> 0 < lev"
  shows "(\<And>s. s \<in> set ss \<Longrightarrow> gobbled subst text sat lev s) \<Longrightarrow> gobbled subst text sat lev (commas ss)"
proof (induction ss rule: commas.induct)
  case (3 s t ss)
  have "gobbled subst text sat lev '',''" using gobbles_comma [OF _ assms] unfolding gobbled_def by auto
  moreover have "gobbled subst text sat lev s" "gobbled subst text sat lev (commas (t # ss))" using 3 by auto
  ultimately show ?case unfolding commas.simps by (intro gobbled_append)
qed (auto simp: gobbled_Nil)

lemma gobbled_braces:
  "gobbled subst text sat (Suc lev) s \<Longrightarrow> sat \<noteq> CHR ''{'' \<or> 0 < lev \<Longrightarrow> gobbled subst text sat lev (''{'' @ s @ ''}'')"
  unfolding gobbled_def by (intro allI impI gobbles_braces) auto

lemma gobbled_plain: "set s \<inter> set brace_specials = {} \<Longrightarrow> sat \<in> set brace_specials \<Longrightarrow> gobbled subst text sat lev s"
  unfolding gobbled_def by (intro allI impI gobbles_plain)

lemma digit_plain: "is_digit_in 10 c \<Longrightarrow> c \<notin> set brace_specials \<and> c \<noteq> CHR ''.'' \<and> DIGIT c"
  by (auto simp: is_digit_in_def digit_of_def brace_specials_def DIGIT_def ISALPHA_def ISUPPER_def ISLOWER_def
      TOUPPER_def uchar_def split: if_splits)

lemma itos_plain:
  assumes "intmax i" shows "set (itos i) \<inter> set brace_specials = {}" and "CHR ''.'' \<notin> set (itos i)"
proof -
  have ds: "\<forall>c \<in> set (fmt_div 10 FMTCHAR (nat \<bar>i\<bar>) []). c \<notin> set brace_specials \<and> c \<noteq> CHR ''.''"
    using decimal_digits(1) [of "nat \<bar>i\<bar>"] digit_plain by (auto simp: list_all_iff)
  have it: "itos i = (if i < 0 then ''-'' else []) @ fmt_div 10 FMTCHAR (nat \<bar>i\<bar>) []"
    using assms by (intro itos_eq) (auto simp: intmax_def)
  have m: "CHR ''-'' \<notin> set brace_specials" by (simp add: brace_specials_def)
  show "set (itos i) \<inter> set brace_specials = {}" unfolding it using ds m by auto
  show "CHR ''.'' \<notin> set (itos i)" unfolding it using ds by auto
qed

lemma dot_plain: "CHR ''.'' \<notin> set brace_specials"
  by (simp add: brace_specials_def)

lemma seq_text_plain: "wf_bpat (BInts a b i) \<Longrightarrow> set (seq_text a b i) \<inter> set brace_specials = {}"
proof -
  assume wf: "wf_bpat (BInts a b i)"
  then have "intmax a" "intmax b" "\<forall>k. i = Some k \<longrightarrow> intmax k" unfolding wf_bpat.simps seq_ok_def by (blast, blast, cases i, simp_all)
  then have "set (itos a) \<inter> set brace_specials = {}" "set (itos b) \<inter> set brace_specials = {}"
    "\<forall>k. i = Some k \<longrightarrow> set (itos k) \<inter> set brace_specials = {}" using itos_plain(1) by simp_all
  then show ?thesis using dot_plain by (cases i) (auto simp: seq_text_def)
qed

lemma letter_plain: "ISALPHA c \<Longrightarrow> c \<notin> set brace_specials"
  by (auto simp: brace_specials_def ISALPHA_def ISUPPER_def ISLOWER_def uchar_def)

lemma braces_special: "sat \<in> set ''{},'' \<Longrightarrow> sat \<in> set brace_specials"
  by (auto simp: brace_specials_def)

lemma gobbled_pat:
  "wf_bpat g \<Longrightarrow> sat \<in> set ''{},'' \<Longrightarrow> sat \<noteq> CHR ''{'' \<or> 0 < lev \<Longrightarrow> gobbled subst text sat lev (bspell g)"
proof (induction g arbitrary: lev rule: bspell.induct)
  case (1 c)
  then show ?case unfolding bspell.simps by (intro gobbled_plain braces_special) simp_all
next
  case (2 c)
  then show ?case using gobbles_escaped [of "text" _ c subst sat lev] by (auto simp: gobbled_def)
next
  case (3 alts)
  have "gobbled subst text sat (Suc lev) (commas (map (\<lambda>alt. concat (map bspell alt)) alts))"
  proof (intro gobbled_commas)
    fix s assume "s \<in> set (map (\<lambda>alt. concat (map bspell alt)) alts)"
    then obtain alt where alt: "alt \<in> set alts" "s = concat (map bspell alt)" by auto
    show "gobbled subst text sat (Suc lev) s" unfolding alt(2)
    proof (intro gobbled_concat)
      fix u assume "u \<in> set (map bspell alt)"
      then obtain g where g: "g \<in> set alt" "u = bspell g" by auto
      then have "wf_bpat g" using 3(2) alt(1) by (auto simp: list_all_iff)
      then show "gobbled subst text sat (Suc lev) u" using "3.IH" [OF alt(1) g(1)] "3.prems" g(2) by simp
    qed
  qed simp
  then show ?case using "3.prems"(3) unfolding bspell.simps by (intro gobbled_braces)
next
  case (4 a b i)
  have "sat \<in> set brace_specials" using "4.prems"(2) by (rule braces_special)
  with seq_text_plain [OF "4.prems"(1)] show ?case unfolding bspell.simps using "4.prems"(3)
    by (intro gobbled_braces gobbled_plain)
next
  case (5 c d)
  have "sat \<in> set brace_specials" using "5.prems"(2) by (rule braces_special)
  moreover have "set (c # ''..'' @ [d]) \<inter> set brace_specials = {}"
    using "5.prems"(1) letter_plain [of c] letter_plain [of d] by (simp add: dot_plain)
  ultimately have "gobbled subst text sat lev (''{'' @ (c # ''..'' @ [d]) @ ''}'')"
    using "5.prems"(3) by (intro gobbled_braces gobbled_plain)
  then show ?case by simp
qed

subsection \<open>Where the searches end\<close>

lemma gobbler_found:
  assumes "text_at text p [sat]" and "sat \<in> set ''{},''" and "0 < cm" and "sat = CHR ''{'' \<Longrightarrow> \<not> brace_whitespace (char_at text (Suc p)) \<and> char_at text (Suc p) \<noteq> CHR ''}''"
  shows "brace_gobbler_loop subst text sat p NUL 0 cm False = Some (sat, p)"
proof -
  have c: "char_at text p = sat" "\<not> length text < p" using assms(1) by (auto simp: char_at_nth)
  consider "sat = CHR ''{''" | "sat = CHR ''}''" | "sat = CHR '',''" using assms(2) by auto
  then show ?thesis
    unfolding brace_gobbler_loop.simps [of subst "text" sat p] Let_def c by cases (use c(2) assms(3,4) in simp_all)
qed

lemma gobbler_end: "brace_gobbler_loop subst text sat (length text) q lev cm pass = Some (NUL, length text)"
  by (subst brace_gobbler_loop.simps) (simp add: char_at_def)

lemma gobbledD:
  assumes "gobbled subst text sat lev s" and "text_at text p s"
  obtains cm' where "cm \<le> cm'" "brace_gobbler_loop subst text sat p NUL lev cm False =
    brace_gobbler_loop subst text sat (p + length s) NUL lev cm' False"
  using assms unfolding gobbled_def gobbles_def by blast

text \<open>The closing brace of an expression is found when a separator stands between its braces.\<close>

lemma brace_closed:
  assumes t: "text_at text p (u @ [x] @ v @ ''}'')"
    and u: "gobbled subst text (CHR ''}'') 0 u" and v: "gobbled subst text (CHR ''}'') 0 v"
    and x: "\<And>cm. brace_gobbler_loop subst text (CHR ''}'') (p + length u) NUL 0 cm False =
              brace_gobbler_loop subst text (CHR ''}'') (Suc (p + length u)) NUL 0 (Suc cm) False"
  shows "brace_gobbler subst text p (CHR ''}'') = Some (CHR ''}'', p + length (u @ [x] @ v))"
proof -
  have tu: "text_at text p u" and tv: "text_at text (Suc (p + length u)) v"
    and tc: "text_at text (Suc (p + length u) + length v) ''}''" using t by auto
  obtain c1 where c1: "brace_gobbler_loop subst text (CHR ''}'') p NUL 0 0 False =
      brace_gobbler_loop subst text (CHR ''}'') (p + length u) NUL 0 c1 False" using gobbledD [OF u tu, of 0] by metis
  obtain c2 where c2: "Suc c1 \<le> c2" "brace_gobbler_loop subst text (CHR ''}'') (Suc (p + length u)) NUL 0 (Suc c1) False =
      brace_gobbler_loop subst text (CHR ''}'') (Suc (p + length u) + length v) NUL 0 c2 False" using gobbledD [OF v tv] by metis
  have "brace_gobbler_loop subst text (CHR ''}'') (Suc (p + length u) + length v) NUL 0 c2 False =
      Some (CHR ''}'', Suc (p + length u) + length v)" using tc c2(1) by (intro gobbler_found) auto
  then show ?thesis unfolding brace_gobbler_def using c1 x c2(2) by simp
qed

lemma gobbled_pats: "list_all wf_bpat ps \<Longrightarrow> sat \<in> set ''{},'' \<Longrightarrow> sat \<noteq> CHR ''{'' \<or> 0 < lev \<Longrightarrow> gobbled subst text sat lev (bspells ps)"
  by (intro gobbled_concat) (auto simp: list_all_iff intro!: gobbled_pat)

lemma commas_Cons: "ss \<noteq> [] \<Longrightarrow> commas (s # ss) = s @ '','' @ commas ss"
  by (cases ss) auto

lemma alts_closed:
  assumes "wf_bpat (BAlts alts)" and "text_at text p (commas (map bspells alts) @ ''}'')"
  shows "brace_gobbler subst text p (CHR ''}'') = Some (CHR ''}'', p + length (commas (map bspells alts)))"
proof -
  from assms(1) obtain a as where alts: "alts = a # as" "as \<noteq> []" by (cases alts; cases "tl alts") auto
  have wf: "list_all wf_bpat a" "\<forall>b \<in> set as. list_all wf_bpat b" using assms(1) alts by (auto simp: list_all_iff)
  have c: "commas (map bspells alts) = bspells a @ '','' @ commas (map bspells as)"
    using alts by (simp add: commas_Cons)
  have u: "gobbled subst text (CHR ''}'') 0 (bspells a)" using wf by (intro gobbled_pats) auto
  have v: "gobbled subst text (CHR ''}'') 0 (commas (map bspells as))"
    using wf by (intro gobbled_commas) (auto intro!: gobbled_pats)
  have t: "text_at text p (bspells a @ '','' @ commas (map bspells as) @ ''}'')" using assms(2) c by simp
  have x: "brace_gobbler_loop subst text (CHR ''}'') (p + length (bspells a)) NUL 0 cm False =
      brace_gobbler_loop subst text (CHR ''}'') (Suc (p + length (bspells a))) NUL 0 (Suc cm) False" for cm
    using gobbler_comma [of "text" "p + length (bspells a)" "CHR ''}''" 0 subst cm] t by auto
  show ?thesis using brace_closed [OF t u v x] c by simp
qed

lemma dots_closed:
  assumes t: "text_at text p (u @ ''..'' @ v @ ''}'')" and u: "set u \<inter> set brace_specials = {}" and v: "set v \<inter> set brace_specials = {}" "v \<noteq> []"
  shows "brace_gobbler subst text p (CHR ''}'') = Some (CHR ''}'', p + length (u @ ''..'' @ v))"
proof -
  have sp: "CHR ''}'' \<in> set brace_specials" by (rule braces_special) simp
  have gu: "gobbled subst text (CHR ''}'') 0 u" by (rule gobbled_plain [OF u sp])
  have gv: "gobbled subst text (CHR ''}'') 0 (''.'' @ v)" using v(1) dot_plain by (intro gobbled_plain [OF _ sp]) auto
  have t': "text_at text p (u @ [CHR ''.''] @ (''.'' @ v) @ ''}'')" using t by simp
  let ?q = "p + length u"
  have "char_at text (Suc ?q) = CHR ''.''" using t by (auto simp: char_at_nth)
  moreover have "char_at text (?q + 2) \<noteq> CHR ''}''" using t v sp by (cases v) (auto simp: char_at_nth)
  moreover have "?q < length text" "text ! ?q = CHR ''.''" using t by auto
  ultimately have "brace_gobbler_loop subst text (CHR ''}'') ?q NUL 0 cm False =
      brace_gobbler_loop subst text (CHR ''}'') (Suc ?q) NUL 0 (Suc cm) False" for cm
    using gobbler_plain [of ?q "text" "CHR ''}''" subst 0 cm] dot_plain sp by simp
  from brace_closed [OF t' gu gv this] show ?thesis by simp
qed

fun is_lit :: "bpat \<Rightarrow> bool" where
  "is_lit (BLit c) = True"
| "is_lit (BEsc c) = True"
| "is_lit g = False"

lemma gobbled_lits: "list_all wf_bpat ps \<Longrightarrow> list_all is_lit ps \<Longrightarrow> sat \<in> set ''{},'' \<Longrightarrow> gobbled subst text sat lev (bspells ps)"
proof (intro gobbled_concat)
  fix s assume ps: "list_all wf_bpat ps" "list_all is_lit ps" "s \<in> set (map bspell ps)" and sat: "sat \<in> set ''{},''"
  then obtain g where g: "s = bspell g" "wf_bpat g" "is_lit g" by (auto simp: list_all_iff)
  show "gobbled subst text sat lev s"
  proof (cases g)
    case (BLit c)
    then show ?thesis using g sat gobbled_plain [of "[c]"] braces_special by simp
  next
    case (BEsc c)
    then show ?thesis using g gobbles_escaped [of "text" _ c subst sat lev] by (auto simp: gobbled_def)
  qed (use g in simp_all)
qed

definition opens_brace :: "char \<Rightarrow> bool" where
  "opens_brace d \<longleftrightarrow> \<not> brace_whitespace d \<and> d \<noteq> CHR ''}''"

lemma plain_opens: "d \<notin> set brace_specials \<Longrightarrow> opens_brace d"
  by (auto simp: opens_brace_def brace_whitespace_def brace_specials_def)

lemma opens_brace_chars: "opens_brace BSLASH" "opens_brace (CHR '','')" "opens_brace (CHR ''{'')"
  by (simp_all add: opens_brace_def brace_whitespace_def)

lemma bspell_opens: "wf_bpat g \<Longrightarrow> bspell g \<noteq> [] \<and> opens_brace (hd (bspell g))"
  by (cases g) (simp_all add: opens_brace_chars plain_opens)

lemma bspells_opens: "list_all wf_bpat ps \<Longrightarrow> ps \<noteq> [] \<Longrightarrow> bspells ps \<noteq> [] \<and> opens_brace (hd (bspells ps))"
  using bspell_opens by (cases ps) (auto simp: hd_append)

lemma itos_ne: "intmax i \<Longrightarrow> itos i \<noteq> []"
  using itos_eq [of i] decimal_digits(1) [of "nat \<bar>i\<bar>"] by (auto simp: intmax_def)

text \<open>The text between the braces of an expression, and its first character.\<close>

fun inner :: "bpat \<Rightarrow> string" where
  "inner (BAlts alts) = commas (map (\<lambda>alt. concat (map bspell alt)) alts)"
| "inner (BInts a b i) = seq_text a b i"
| "inner (BLetters c d) = [c] @ ''..'' @ [d]"
| "inner g = []"

lemma bspell_inner: "\<not> is_lit g \<Longrightarrow> bspell g = ''{'' @ inner g @ ''}''"
  by (cases g) auto

lemma inner_opens: "wf_bpat g \<Longrightarrow> \<not> is_lit g \<Longrightarrow> inner g \<noteq> [] \<and> opens_brace (hd (inner g))"
proof (cases g)
  case (BAlts alts)
  assume wf: "wf_bpat g"
  then obtain a as where alts: "alts = a # as" "as \<noteq> []" using BAlts by (cases alts; cases "tl alts") auto
  then have c: "commas (map bspells alts) = bspells a @ '','' @ commas (map bspells as)" by (simp add: commas_Cons)
  show ?thesis using BAlts c bspells_opens [of a] wf alts opens_brace_chars by (cases a) (auto simp: hd_append)
next
  case (BInts a b i)
  assume wf: "wf_bpat g"
  then have "intmax a" using BInts by (simp add: seq_ok_def)
  then have "itos a \<noteq> []" "set (itos a) \<inter> set brace_specials = {}" using itos_ne itos_plain by auto
  then show ?thesis using BInts plain_opens [of "hd (itos a)"] by (cases "itos a") (auto simp: seq_text_def)
next
  case (BLetters c d)
  assume "wf_bpat g"
  then show ?thesis using BLetters letter_plain [of c] by (simp add: plain_opens)
qed auto

lemma inner_closed:
  assumes "wf_bpat g" and "\<not> is_lit g" and "text_at text p (inner g @ ''}'')"
  shows "brace_gobbler subst text p (CHR ''}'') = Some (CHR ''}'', p + length (inner g))"
proof (cases g)
  case (BAlts alts)
  then show ?thesis using assms alts_closed by simp
next
  case (BInts a b i)
  have i: "intmax a" "intmax b" using BInts assms(1) by (simp_all add: seq_ok_def)
  let ?v = "itos b @ (case i of None \<Rightarrow> [] | Some k \<Rightarrow> ''..'' @ itos k)"
  have s: "seq_text a b i = itos a @ ''..'' @ ?v" by (simp add: seq_text_def)
  have "set (seq_text a b i) \<inter> set brace_specials = {}" using seq_text_plain assms(1) BInts by simp
  then have "set (itos a) \<inter> set brace_specials = {}" "set ?v \<inter> set brace_specials = {}" "?v \<noteq> []"
    unfolding s using itos_ne [OF i(2)] by auto
  moreover have "text_at text p (itos a @ ''..'' @ ?v @ ''}'')" using assms(3) BInts s by simp
  ultimately show ?thesis using dots_closed [of "text" p "itos a" ?v subst] BInts s by simp
next
  case (BLetters c d)
  then show ?thesis
    using dots_closed [of "text" p "[c]" "[d]" subst] assms letter_plain [of c] letter_plain [of d] by simp
qed (use assms in simp_all)

lemma find_brace_lits:
  assumes "list_all wf_bpat ps" and "list_all is_lit ps"
  shows "find_brace subst (bspells ps) 0 = Some (NUL, length (bspells ps))"
proof -
  have "text_at (bspells ps) 0 (bspells ps)" by (simp add: text_at_def)
  moreover have "CHR ''{'' \<in> set ''{},''" by simp
  ultimately obtain cm where "brace_gobbler_loop subst (bspells ps) (CHR ''{'') 0 NUL 0 1 False =
      brace_gobbler_loop subst (bspells ps) (CHR ''{'') (0 + length (bspells ps)) NUL 0 cm False"
    using gobbledD [OF gobbled_lits [OF assms]] by metis
  then have "brace_gobbler subst (bspells ps) 0 (CHR ''{'') = Some (NUL, length (bspells ps))"
    by (simp add: brace_gobbler_def gobbler_end del: One_nat_def)
  then show ?thesis by (simp add: find_brace.simps)
qed

lemma find_brace_first:
  assumes lits: "list_all wf_bpat ls" "list_all is_lit ls" and g: "wf_bpat g" "\<not> is_lit g"
  shows "find_brace subst (bspells ls @ bspell g @ rest) 0 = Some (CHR ''{'', length (bspells ls))"
proof -
  let ?t = "bspells ls @ bspell g @ rest" and ?n = "length (bspells ls)"
  have at: "text_at ?t 0 (bspells ls)" "text_at ?t ?n (''{'' @ inner g @ ''}'')"
    using bspell_inner [OF g(2)] by (simp_all add: text_at_def)
  have sat: "CHR ''{'' \<in> set ''{},''" by simp
  obtain cm where cm: "1 \<le> cm" "brace_gobbler_loop subst ?t (CHR ''{'') 0 NUL 0 1 False =
      brace_gobbler_loop subst ?t (CHR ''{'') (0 + ?n) NUL 0 cm False"
    using gobbledD [OF gobbled_lits [OF lits sat] at(1), of 1] by metis
  have next_char: "char_at ?t (Suc ?n) = hd (inner g)"
    using inner_opens [OF g] bspell_inner [OF g(2)] by (cases "inner g") (auto simp: char_at_def nth_append)
  have "brace_gobbler_loop subst ?t (CHR ''{'') ?n NUL 0 cm False = Some (CHR ''{'', ?n)"
    using at(2) cm(1) inner_opens [OF g] next_char by (intro gobbler_found) (auto simp: opens_brace_def)
  then have "brace_gobbler subst ?t 0 (CHR ''{'') = Some (CHR ''{'', ?n)" using cm(2) by (simp add: brace_gobbler_def)
  moreover have "brace_gobbler subst ?t (Suc ?n) (CHR ''}'') = Some (CHR ''}'', Suc ?n + length (inner g))"
    using at(2) by (intro inner_closed [OF g]) auto
  ultimately show ?thesis by (simp add: find_brace.simps)
qed

subsection \<open>Alternatives\<close>

text \<open>The test for a separator passes over text or has found one.\<close>

definition comma_scan :: "string \<Rightarrow> string \<Rightarrow> bool" where
  "comma_scan amble s \<longleftrightarrow>
     (\<forall>j. text_at amble j s \<longrightarrow> amble_comma amble j = Some True \<or> amble_comma amble j = amble_comma amble (j + length s))"

lemma comma_scan_append: "comma_scan amble s \<Longrightarrow> comma_scan amble t \<Longrightarrow> comma_scan amble (s @ t)"
proof -
  assume h: "comma_scan amble s" "comma_scan amble t"
  show ?thesis unfolding comma_scan_def
  proof (intro allI impI)
    fix j assume "text_at amble j (s @ t)"
    then have "text_at amble j s" "text_at amble (j + length s) t" by auto
    with h have "amble_comma amble j = Some True \<or> amble_comma amble j = amble_comma amble (j + length s)"
      "amble_comma amble (j + length s) = Some True \<or> amble_comma amble (j + length s) = amble_comma amble (j + length s + length t)"
      unfolding comma_scan_def by auto
    then show "amble_comma amble j = Some True \<or> amble_comma amble j = amble_comma amble (j + length (s @ t))"
      by (auto simp: add.assoc)
  qed
qed

lemma comma_scan_Nil: "comma_scan amble []"
  by (simp add: comma_scan_def)

lemma comma_scan_char: "c \<noteq> NUL \<Longrightarrow> c \<noteq> BSLASH \<Longrightarrow> comma_scan amble [c]"
  unfolding comma_scan_def
proof (intro allI impI)
  fix j assume c: "c \<noteq> NUL" "c \<noteq> BSLASH" and t: "text_at amble j [c]"
  then have "char_at amble j = c" "\<not> length amble < j" by (auto simp: char_at_nth)
  then show "amble_comma amble j = Some True \<or> amble_comma amble j = amble_comma amble (j + length [c])"
    using c amble_comma.simps [of amble j] by simp
qed

lemma comma_scan_escaped: "comma_scan amble [BSLASH, c]"
  unfolding comma_scan_def
proof (intro allI impI)
  fix j assume t: "text_at amble j [BSLASH, c]"
  then have "char_at amble j = BSLASH" "\<not> length amble < j" by (auto simp: char_at_nth)
  then show "amble_comma amble j = Some True \<or> amble_comma amble j = amble_comma amble (j + length [BSLASH, c])"
    using amble_comma.simps [of amble j] by simp
qed

lemma comma_scan_text: "NUL \<notin> set s \<Longrightarrow> BSLASH \<notin> set s \<Longrightarrow> comma_scan amble s"
proof (induction s)
  case (Cons c s)
  then have "comma_scan amble ([c] @ s)" by (intro comma_scan_append comma_scan_char) auto
  then show ?case by simp
qed (simp add: comma_scan_Nil)

lemma comma_scan_concat: "(\<And>s. s \<in> set ss \<Longrightarrow> comma_scan amble s) \<Longrightarrow> comma_scan amble (concat ss)"
  by (induction ss) (auto simp: comma_scan_Nil intro: comma_scan_append)

lemma comma_scan_commas: "(\<And>s. s \<in> set ss \<Longrightarrow> comma_scan amble s) \<Longrightarrow> comma_scan amble (commas ss)"
proof (induction ss rule: commas.induct)
  case (3 s t ss)
  have "comma_scan amble '',''" by (rule comma_scan_char) auto
  moreover have "comma_scan amble s" "comma_scan amble (commas (t # ss))" using 3 by auto
  ultimately show ?case unfolding commas.simps by (intro comma_scan_append)
qed (auto simp: comma_scan_Nil)

lemma specials_mem: "NUL \<in> set brace_specials" "BSLASH \<in> set brace_specials" "CHR '','' \<in> set brace_specials"
  by (simp_all add: brace_specials_def)

lemma comma_scan_plain: "set s \<inter> set brace_specials = {} \<Longrightarrow> comma_scan amble s"
  using specials_mem by (intro comma_scan_text) auto

lemma comma_scan_wrapped: "comma_scan amble s \<Longrightarrow> comma_scan amble (''{'' @ s @ ''}'')"
  by (intro comma_scan_append) (auto intro!: comma_scan_char)

lemma comma_scan_pat: "wf_bpat g \<Longrightarrow> comma_scan amble (bspell g)"
proof (induction g rule: bspell.induct)
  case (1 c)
  then show ?case unfolding bspell.simps by (intro comma_scan_plain) simp
next
  case (2 c)
  then show ?case by (simp add: comma_scan_escaped)
next
  case (3 alts)
  have "comma_scan amble (commas (map (\<lambda>alt. concat (map bspell alt)) alts))"
  proof (intro comma_scan_commas)
    fix s assume "s \<in> set (map (\<lambda>alt. concat (map bspell alt)) alts)"
    then obtain alt where alt: "alt \<in> set alts" "s = concat (map bspell alt)" by auto
    then show "comma_scan amble s"
      using "3.IH" "3.prems" by (auto simp: list_all_iff intro!: comma_scan_concat)
  qed
  then show ?case unfolding bspell.simps by (rule comma_scan_wrapped)
next
  case (4 a b i)
  then show ?case unfolding bspell.simps by (intro comma_scan_wrapped comma_scan_plain seq_text_plain)
next
  case (5 c d)
  then have "comma_scan amble ([c] @ ''..'' @ [d])"
    using letter_plain [of c] letter_plain [of d] dot_plain by (intro comma_scan_plain) simp
  then show ?case using comma_scan_wrapped by fastforce
qed

lemma alts_comma:
  assumes "wf_bpat (BAlts alts)"
  shows "amble_comma (commas (map bspells alts)) 0 = Some True"
proof -
  from assms obtain a as where alts: "alts = a # as" "as \<noteq> []" by (cases alts; cases "tl alts") auto
  then have c: "commas (map bspells alts) = bspells a @ '','' @ commas (map bspells as)" by (simp add: commas_Cons)
  let ?t = "commas (map bspells alts)" and ?n = "length (bspells a)"
  have "comma_scan ?t (bspells a)"
    using assms alts by (intro comma_scan_concat) (auto simp: list_all_iff intro!: comma_scan_pat)
  moreover have "text_at ?t 0 (bspells a)" unfolding c by (simp add: text_at_def)
  ultimately have "amble_comma ?t 0 = Some True \<or> amble_comma ?t 0 = amble_comma ?t (0 + ?n)" unfolding comma_scan_def by blast
  moreover have "amble_comma ?t ?n = Some True"
    unfolding c by (subst amble_comma.simps) (simp add: char_at_def nth_append)
  ultimately show ?thesis by auto
qed

lemma plain_no_comma:
  assumes "set s \<inter> set brace_specials = {}" shows "amble_comma s 0 = Some False"
proof -
  have "j \<le> length s \<Longrightarrow> amble_comma s j = Some False" for j
  proof (induction "length s - j" arbitrary: j)
    case 0
    then show ?case by (subst amble_comma.simps) (simp add: char_at_def)
  next
    case (Suc x)
    then have j: "j < length s" by simp
    then have "s ! j \<notin> set brace_specials" using assms by (meson disjoint_iff nth_mem)
    then have "s ! j \<noteq> NUL \<and> s ! j \<noteq> BSLASH \<and> s ! j \<noteq> CHR '',''" using specials_mem by metis
    moreover have "amble_comma s (Suc j) = Some False" using Suc by simp
    ultimately show ?case using j by (subst amble_comma.simps) (simp add: char_at_nth)
  qed
  then show ?thesis by simp
qed

text \<open>The pieces between separators are the alternatives.\<close>

lemma pieces_alts:
  assumes "\<forall>b \<in> set as. list_all wf_bpat b" and "as \<noteq> []" and "text = pre @ commas (map bspells as)"
  shows "amble_pieces subst text (length pre) = Some (map bspells as)"
  using assms
proof (induction as arbitrary: pre)
  case (Cons a as)
  let ?p = "length pre" and ?n = "length (bspells a)"
  have sat: "CHR '','' \<in> set ''{},''" "CHR '','' \<noteq> CHR ''{'' \<or> 0 < (0::nat)" by simp_all
  have ga: "gobbled subst text (CHR '','') 0 (bspells a)" using Cons.prems(1) sat by (intro gobbled_pats) auto
  show ?case
  proof (cases "as = []")
    case True
    then have t: "text = pre @ bspells a" using Cons.prems(3) by simp
    then have "text_at text ?p (bspells a)" by (simp add: text_at_def)
    then obtain cm where "brace_gobbler_loop subst text (CHR '','') ?p NUL 0 1 False =
        brace_gobbler_loop subst text (CHR '','') (?p + ?n) NUL 0 cm False" using gobbledD [OF ga] by metis
    moreover have "?p + ?n = length text" using t by simp
    ultimately have "brace_gobbler subst text ?p (CHR '','') = Some (NUL, length text)"
      by (simp add: brace_gobbler_def gobbler_end del: One_nat_def)
    then show ?thesis using True t by (subst amble_pieces.simps) (simp add: substring_def)
  next
    case False
    then have t: "text = pre @ bspells a @ '','' @ commas (map bspells as)" using Cons.prems(3) by (simp add: commas_Cons)
    then have at: "text_at text ?p (bspells a)" "text_at text (?p + ?n) '',''" by (simp_all add: text_at_def)
    then obtain cm where cm: "1 \<le> cm" "brace_gobbler_loop subst text (CHR '','') ?p NUL 0 1 False =
        brace_gobbler_loop subst text (CHR '','') (?p + ?n) NUL 0 cm False" using gobbledD [OF ga] by metis
    have "brace_gobbler_loop subst text (CHR '','') (?p + ?n) NUL 0 cm False = Some (CHR '','', ?p + ?n)"
      using at(2) cm(1) by (intro gobbler_found) auto
    then have g: "brace_gobbler subst text ?p (CHR '','') = Some (CHR '','', ?p + ?n)"
      using cm(2) by (simp add: brace_gobbler_def del: One_nat_def)
    have "text = (pre @ bspells a @ '','') @ commas (map bspells as)" using t by simp
    then have "amble_pieces subst text (length (pre @ bspells a @ '','')) = Some (map bspells as)"
      using Cons.prems(1) False by (intro Cons.IH) auto
    then have "amble_pieces subst text (Suc (?p + ?n)) = Some (map bspells as)" by simp
    moreover have "substring text ?p (?p + ?n) = bspells a" using t by (simp add: substring_def)
    moreover have "?p \<le> length text" using t by simp
    ultimately show ?thesis using g by (subst amble_pieces.simps) simp
  qed
qed simp

subsection \<open>Sequences\<close>

lemma mkseq_loop_values:
  assumes v: "\<And>k. v k = start + int k * incr" and range: "\<And>k. k < N \<Longrightarrow> intmax (v k)"
    and inside: "\<And>k. Suc k < N \<Longrightarrow> \<not> (incr < 0 \<and> v (Suc k) < end \<or> incr > 0 \<and> v (Suc k) > end)"
    and past: "incr < 0 \<and> v N < end \<or> incr > 0 \<and> v N > end"
  shows "i < N \<Longrightarrow> mkseq_loop type width end incr (Suc N) (v i) i = Some (map (\<lambda>k. seq_element type width (v k)) [i..<N])"
proof (induction "N - i" arbitrary: i)
  case (Suc x)
  have step: "v i + incr = v (Suc i)" by (simp add: v algebra_simps)
  note unf = mkseq_loop.simps [of type width "end" incr "Suc N" "v i" i]
  show ?case
  proof (cases "Suc i = N")
    case True
    then have "[i..<N] = [i]" by (simp add: upt_rec)
    then show ?thesis unfolding unf Let_def step using True past by simp
  next
    case False
    then have i: "Suc i < N" using Suc.prems by simp
    have "\<not> ADDOVERFLOW (v i) incr INTMAX_MIN INTMAX_MAX"
      using range [OF i] step by (auto simp: ADDOVERFLOW_def intmax_def)
    moreover have "mkseq_loop type width end incr (Suc N) (v (Suc i)) (Suc i) = Some (map (\<lambda>k. seq_element type width (v k)) [Suc i..<N])"
      using Suc i by (intro Suc.hyps) auto
    moreover have "[i..<N] = i # [Suc i..<N]" using Suc.prems by (rule upt_conv_Cons)
    ultimately show ?thesis unfolding unf Let_def step using inside [OF i] Suc.prems by auto
  qed
qed simp

lemma seq_step_nonzero: "seq_step a b i \<noteq> 0"
  by (auto simp: seq_step_def Let_def split: option.splits)

lemma seq_step_sign: "a < b \<Longrightarrow> 0 < seq_step a b i" "b < a \<Longrightarrow> seq_step a b i < 0"
  using seq_step_nonzero [of a b i] by (auto simp: seq_step_def Let_def split: option.splits if_splits)

lemma seq_count_bounds:
  "k < seq_count a b i \<Longrightarrow> int k * \<bar>seq_step a b i\<bar> \<le> \<bar>b - a\<bar>" "\<bar>b - a\<bar> < int (seq_count a b i) * \<bar>seq_step a b i\<bar>"
proof -
  let ?s = "\<bar>seq_step a b i\<bar>" and ?d = "\<bar>b - a\<bar>"
  have s: "0 < ?s" using seq_step_nonzero [of a b i] by simp
  have q: "0 \<le> ?d div ?s" using s by (simp add: pos_imp_zdiv_nonneg_iff)
  have eq: "?d = ?d div ?s * ?s + ?d mod ?s" by simp
  have m: "0 \<le> ?d mod ?s" "?d mod ?s < ?s" using s by simp_all
  have cnt: "int (seq_count a b i) = ?d div ?s + 1" using q by (simp add: seq_count_def)
  show "?d < int (seq_count a b i) * ?s" unfolding cnt distrib_right using eq m by linarith
  assume "k < seq_count a b i"
  then have "int k \<le> ?d div ?s" using cnt by linarith
  then have "int k * ?s \<le> ?d div ?s * ?s" using s by (intro mult_right_mono) auto
  then show "int k * ?s \<le> ?d" using eq m by linarith
qed

text \<open>Where the values of a sequence lie.\<close>

lemma seq_value_between:
  assumes "k < seq_count a b i"
  shows "min a b \<le> a + int k * seq_step a b i \<and> a + int k * seq_step a b i \<le> max a b"
proof -
  note c = seq_count_bounds(1) [OF assms]
  consider "a < b" | "b < a" | "a = b" by linarith
  then show ?thesis
  proof cases
    case 3
    then have "k = 0" using assms by (simp add: seq_count_def)
    then show ?thesis using 3 by simp
  qed (use c seq_step_sign [of a b i] seq_step_sign [of b a i] in \<open>auto simp: mult_nonneg_nonpos min_def max_def abs_if\<close>)
qed

lemma seq_value_past:
  "seq_step a b i < 0 \<and> a + int (seq_count a b i) * seq_step a b i < b \<or>
   seq_step a b i > 0 \<and> a + int (seq_count a b i) * seq_step a b i > b"
proof -
  note c = seq_count_bounds(2) [of b a i]
  consider "a < b" | "b < a" | "a = b" by linarith
  then show ?thesis
    by cases (use c seq_step_sign [of a b i] seq_step_nonzero [of a b i] in \<open>auto simp: abs_if split: if_splits\<close>)
qed

lemma to_int_id: "INT_MIN \<le> x \<Longrightarrow> x \<le> INT_MAX \<Longrightarrow> to_int x = x"
  by (simp add: to_int_def INT_MIN_def INT_MAX_def)

lemma sh_imaxabs_eq: "intmax x \<Longrightarrow> x \<noteq> INTMAX_MIN \<Longrightarrow> sh_imaxabs x = \<bar>x\<bar>"
  using to_intmax_id [of "- x"] by (auto simp: sh_imaxabs_def intmax_def INTMAX_MIN_def INTMAX_MAX_def)

lemma seq_step_range: "seq_ok a b i \<Longrightarrow> intmax (seq_step a b i) \<and> seq_step a b i \<noteq> INTMAX_MIN"
  by (auto simp: seq_ok_def seq_step_def Let_def intmax_def INTMAX_MIN_def INTMAX_MAX_def split: option.splits)

text \<open>\<open>mkseq\<close> allocates exactly what it writes and writes the values of the sequence.\<close>

lemma mkseq_values:
  assumes ok: "seq_ok a b i"
  shows "mkseq a b (case i of None \<Rightarrow> 1 | Some k \<Rightarrow> k) type width = Some (Some (map (seq_element type width) (seq_values a b i)))"
proof -
  let ?k = "case i of None \<Rightarrow> 1 | Some k \<Rightarrow> k"
  let ?k1 = "if ?k = 0 then 1 else ?k" and ?s = "seq_step a b i" and ?N = "seq_count a b i"
  have k: "?k1 \<noteq> INTMAX_MIN" "?k1 \<noteq> 0" using ok by (auto simp: seq_ok_def INTMAX_MIN_def split: option.splits)
  have k1: "(case i of None \<Rightarrow> 1 | Some k \<Rightarrow> if k = 0 then 1 else k) = ?k1" by (cases i) auto
  have st: "(if a > b \<and> ?k1 > 0 \<or> a < b \<and> ?k1 < 0 then - ?k1 else ?k1) = ?s"
    unfolding seq_step_def Let_def k1 by (auto simp: abs_if)
  have s: "sh_imaxabs ?s = \<bar>?s\<bar>" "0 < \<bar>?s\<bar>" using seq_step_range [OF ok] sh_imaxabs_eq seq_step_nonzero by auto
  have d: "sh_imaxabs (b - a) = \<bar>b - a\<bar>" using ok by (intro sh_imaxabs_eq) (auto simp: seq_ok_def intmax_def INTMAX_MIN_def INTMAX_MAX_def)
  have cnt: "\<bar>b - a\<bar> div \<bar>?s\<bar> + 1 = int ?N" using s(2) by (simp add: seq_count_def pos_imp_zdiv_nonneg_iff)
  have q: "c_div \<bar>b - a\<bar> \<bar>?s\<bar> = int ?N - 1" using cnt s(2) by (simp add: c_div_pos)
  have N: "0 < ?N" "int ?N \<le> INT_MAX - 2" using ok by (auto simp: seq_count_def seq_ok_def)
  have no_over: "\<not> SUBOVERFLOW b a (INTMAX_MIN + 3) (INTMAX_MAX - 2)" "\<not> ADDOVERFLOW (int ?N - 1) 1 INTMAX_MIN INTMAX_MAX"
    using ok N by (auto simp: seq_ok_def SUBOVERFLOW_def ADDOVERFLOW_def INTMAX_MIN_def INTMAX_MAX_def INT_MAX_def)
  have n: "to_int (int ?N) = int ?N" "nat (int ?N + 1) = Suc ?N" using N by (auto intro!: to_int_id simp: INT_MIN_def)
  have "intmax (a + int j * ?s)" if "j < ?N" for j
    using seq_value_between [OF that] ok by (auto simp: seq_ok_def intmax_def)
  moreover have "\<not> (?s < 0 \<and> a + int (Suc j) * ?s < b \<or> ?s > 0 \<and> a + int (Suc j) * ?s > b)" if "Suc j < ?N" for j
    using seq_value_between [OF that] seq_step_sign [of a b i] seq_step_sign [of b a i] that
    by (cases "a = b") (auto simp: seq_count_def min_def max_def split: if_splits)
  ultimately have "mkseq_loop type width b ?s (Suc ?N) (a + int 0 * ?s) 0 = Some (map (\<lambda>j. seq_element type width (a + int j * ?s)) [0..<?N])"
    using seq_value_past [of a b i] N(1) by (intro mkseq_loop_values [where v = "\<lambda>j. a + int j * ?s"]) auto
  then have loop: "mkseq_loop type width b ?s (Suc ?N) a 0 = Some (map (seq_element type width) (seq_values a b i))"
    by (simp add: seq_values_def comp_def)
  have lim: "\<not> (int ?N > INT_MAX - 2 \<or> int ?N + 1 < 0)" "\<not> (a < b \<and> ?k1 = INTMAX_MIN)" using N k by auto
  show ?thesis
    unfolding mkseq_def Let_def st s(1) d q if_not_P [OF lim(2)] if_not_P [OF no_over(1)] if_not_P [OF no_over(2)]
      diff_add_cancel n if_not_P [OF lim(1)] loop by simp
qed

lemma find_dots_append: "CHR ''.'' \<notin> set u \<Longrightarrow> find_dots (u @ ''..'' @ v) = Some (length u)"
  by (induction u) auto

lemma legal_number_itos: "intmax i \<Longrightarrow> legal_number (Some (itos i)) = Some i"
  using strtol_itos [of i "[]"] itos_ne [of i] by (simp add: intmax_def legal_number_def strtoimax_def)

lemma itos_first:
  assumes "intmax i"
  shows "DIGIT (char_at (itos i @ s) 0) \<or> (char_at (itos i @ s) 0 = CHR ''+'' \<or> char_at (itos i @ s) 0 = CHR ''-'') \<and> DIGIT (char_at (itos i @ s) 1)"
    and "char_at (itos i @ s) 0 \<noteq> NUL"
    and "\<not> (length (itos i) > 1 \<and> char_at (itos i @ s) 0 = CHR ''0'')"
    and "\<not> (length (itos i) > 2 \<and> char_at (itos i @ s) 0 = CHR ''-'' \<and> char_at (itos i @ s) 1 = CHR ''0'')"
proof -
  let ?ds = "fmt_div 10 FMTCHAR (nat \<bar>i\<bar>) []"
  have it: "itos i = (if i < 0 then ''-'' else []) @ ?ds" using assms by (intro itos_eq) (auto simp: intmax_def)
  obtain d ds where ds: "?ds = d # ds" using decimal_digits(1) [of "nat \<bar>i\<bar>"] by (cases ?ds) auto
  then have dig: "is_digit_in 10 d" using decimal_digits(1) [of "nat \<bar>i\<bar>"] by simp
  note d = digit_plain [OF dig] digit_chars [OF dig]
  have z: "d = CHR ''0'' \<Longrightarrow> i = 0" using decimal_no_leading_zero [of "nat \<bar>i\<bar>"] ds by auto
  have one: "fmt_div 10 FMTCHAR 0 [] = [FMTCHAR 0]" by (simp add: fmt_div_rec)
  show "DIGIT (char_at (itos i @ s) 0) \<or> (char_at (itos i @ s) 0 = CHR ''+'' \<or> char_at (itos i @ s) 0 = CHR ''-'') \<and> DIGIT (char_at (itos i @ s) 1)"
    "char_at (itos i @ s) 0 \<noteq> NUL" using d unfolding it ds by auto
  show "\<not> (length (itos i) > 1 \<and> char_at (itos i @ s) 0 = CHR ''0'')"
    "\<not> (length (itos i) > 2 \<and> char_at (itos i @ s) 0 = CHR ''-'' \<and> char_at (itos i @ s) 1 = CHR ''0'')"
    using z d one ds unfolding it by auto
qed

lemma seq_width_plain:
  assumes "intmax a" and "intmax b"
  shows "seq_width (itos a) (itos b @ s) (length (itos a)) (length (itos b)) = (ST_INT, 0)"
  using itos_first(3,4) [OF assms(1), of "[]"] itos_first(3,4) [OF assms(2), of s]
  unfolding seq_width_def Let_def by (auto simp: cdefs)

lemma seqterm_ints:
  assumes ok: "seq_ok a b i"
  shows "expand_seqterm (seq_text a b i) = Some (Some (map itos (seq_values a b i)))"
proof -
  let ?tail = "case i of None \<Rightarrow> [] | Some k \<Rightarrow> ''..'' @ itos k"
  let ?rhs = "itos b @ ?tail" and ?la = "length (itos a)" and ?lb = "length (itos b)"
  have ab: "intmax a" "intmax b" and ik: "\<And>k. i = Some k \<Longrightarrow> intmax k" using ok by (auto simp: seq_ok_def)
  have tx: "seq_text a b i = itos a @ ''..'' @ ?rhs" by (simp add: seq_text_def)
  have dots: "find_dots (seq_text a b i) = Some ?la" unfolding tx by (rule find_dots_append) (rule itos_plain(2) [OF ab(1)])
  have lhs: "substring (seq_text a b i) 0 ?la = itos a" and rhs: "substring (seq_text a b i) (?la + 2) (length (seq_text a b i)) = ?rhs"
    unfolding tx by (simp_all add: substring_def)
  have tl: "?tail = [] \<or> \<not> is_digit_in 10 (hd ?tail)" "char_at ?tail 0 = NUL \<or> char_at ?tail 0 = CHR ''.''"
    by (cases i; auto simp: is_digit_in_def digit_of_def DIGIT_def ISALPHA_def ISUPPER_def ISLOWER_def uchar_def)+
  have "strtoimax ?rhs 10 = (b, Some ?lb, NoErr)"
    unfolding strtoimax_def using ab(2) tl(1) by (intro strtol_itos) (auto simp: intmax_def)
  moreover have tail_at: "char_at ?rhs (?lb + j) = char_at ?tail j" for j by (simp add: char_at_append)
  ultimately have R: "seq_rhs ?rhs = (ST_INT, b, ?lb)"
    unfolding seq_rhs_def if_P [OF itos_first(1) [OF ab(2)]] using tail_at [of 0] tl(2) by auto
  define e where "e = ?lb + (case i of None \<Rightarrow> 0 | Some k \<Rightarrow> 2 + length (itos k))"
  have I: "seq_incr ?rhs ?lb = (case i of None \<Rightarrow> 1 | Some k \<Rightarrow> k, e, True)"
  proof (cases i)
    case None
    then show ?thesis using tail_at [of 0] by (simp add: seq_incr_def e_def)
  next
    case (Some k)
    have "strtoimax (itos k) 10 = (k, Some (length (itos k)), NoErr)"
      unfolding strtoimax_def using ik [OF Some] strtol_itos [of k "[]"] by (simp add: intmax_def)
    moreover have "char_at ?rhs (?lb + 2) \<noteq> NUL" "char_at ?rhs ?lb = CHR ''.''" "char_at ?rhs (?lb + 1) = CHR ''.''"
      using tail_at [of 0] tail_at [of 1] tail_at [of 2] itos_first(2) [OF ik [OF Some], of "[]"] Some by (simp_all add: numeral_2_eq_2)
    ultimately show ?thesis using Some by (simp add: seq_incr_def e_def)
  qed
  have e_len: "e = length ?rhs" by (cases i) (simp_all add: e_def)
  have len: "length (seq_text a b i) = ?la + 2 + length ?rhs" "?lb \<le> length ?rhs" unfolding tx by simp_all
  have e_end: "char_at ?rhs e = NUL" "length (seq_text a b i) - (e - ?lb) - ?la - 2 = ?lb"
    unfolding e_len len(1) using len(2) by (simp add: char_at_def, linarith)
  have ne: "\<not> (itos a = [] \<or> ?rhs = [])" using itos_ne ab by auto
  have el: "seq_element ST_INT 0 = itos" by (rule ext) (simp add: seq_element_def)
  have t: "ST_INT \<noteq> ST_BAD" "ST_INT \<noteq> ST_CHAR" by (simp_all add: cdefs)
  show ?thesis
    unfolding expand_seqterm_def dots option.case Let_def lhs rhs if_not_P [OF ne] legal_number_itos [OF ab(1)] prod.case R I
      if_not_P [OF t(1)] if_not_P [OF t(2)] e_end seq_width_plain [OF ab] mkseq_values [OF ok] el
    by simp
qed

lemma legal_number_letter: "ISALPHA c \<Longrightarrow> legal_number (Some [c]) = None"
proof -
  assume c: "ISALPHA c"
  then have n: "\<not> ISSPACE c" "c \<noteq> NUL" "c \<noteq> CHR ''-''" "c \<noteq> CHR ''+''" "c \<noteq> CHR ''0''" "\<not> DIGIT c"
    by (auto simp: ISALPHA_def ISUPPER_def ISLOWER_def ISSPACE_def DIGIT_def uchar_def)
  have "\<exists>d. digit_of c = Some d \<and> 10 \<le> d"
    using c n(6) by (auto simp: digit_of_def TOUPPER_def ISALPHA_def ISUPPER_def ISLOWER_def nat_diff_distrib' uchar_def)
  then have "strtol [c] 10 = (0, Some 0, NoErr)" using n by (auto simp: strtol_def strtol_noconv_def)
  then show ?thesis by (simp add: legal_number_def strtoimax_def)
qed

lemma letter_range: "ISALPHA c \<Longrightarrow> 65 \<le> uchar c \<and> uchar c \<le> 122"
  by (auto simp: ISALPHA_def ISUPPER_def ISLOWER_def)

lemma seqterm_letters:
  assumes "ISALPHA c" and "ISALPHA d"
  shows "expand_seqterm ([c] @ ''..'' @ [d]) = Some (Some (map (\<lambda>n. [char_of (nat n)]) (seq_values (uchar c) (uchar d) None)))"
proof -
  have cd: "65 \<le> uchar c" "uchar c \<le> 122" "65 \<le> uchar d" "uchar d \<le> 122" using letter_range assms by auto
  have p: "c \<noteq> CHR ''.''" "\<not> DIGIT d" "d \<noteq> CHR ''+''" "d \<noteq> CHR ''-''"
    using assms by (auto simp: ISALPHA_def ISUPPER_def ISLOWER_def DIGIT_def uchar_def)
  have "\<bar>uchar d - uchar c\<bar> \<le> 57" using cd by linarith
  moreover have "seq_count (uchar c) (uchar d) None = nat \<bar>uchar d - uchar c\<bar> + 1" by (simp add: seq_count_def seq_step_def)
  ultimately have "seq_ok (uchar c) (uchar d) None"
    using cd by (simp add: seq_ok_def intmax_def INTMAX_MIN_def INTMAX_MAX_def INT_MAX_def)
  from mkseq_values [OF this, of ST_CHAR 1]
  have m: "mkseq (uchar c) (uchar d) 1 ST_CHAR 1 = Some (Some (map (seq_element ST_CHAR 1) (seq_values (uchar c) (uchar d) None)))" by simp
  have "seq_element ST_CHAR 1 n = [char_of (nat n)]" if "n \<in> set (seq_values (uchar c) (uchar d) None)" for n
  proof -
    from that obtain k where "k < seq_count (uchar c) (uchar d) None" "n = uchar c + int k * seq_step (uchar c) (uchar d) None"
      by (auto simp: seq_values_def)
    with seq_value_between [of k "uchar c" "uchar d" None] cd have "65 \<le> n" "n \<le> 122" by auto
    then have "nat n < 256" "nat n \<noteq> 0" "n mod 256 = n" by auto
    moreover have "char_of (nat n) \<noteq> NUL"
    proof
      assume "char_of (nat n) = NUL"
      then have "of_char (char_of (nat n) :: char) = (0 :: nat)" by (simp only:) simp
      then show False using calculation(1,2) by simp
    qed
    ultimately show ?thesis by (simp add: seq_element_def cdefs)
  qed
  then have el: "map (seq_element ST_CHAR 1) (seq_values (uchar c) (uchar d) None) = map (\<lambda>n. [char_of (nat n)]) (seq_values (uchar c) (uchar d) None)"
    by simp
  show ?thesis
    using m [unfolded el] assms p by (simp add: expand_seqterm_def substring_def legal_number_letter seq_rhs_def seq_incr_def ST_CHAR_def ST_BAD_def)
qed

subsection \<open>The expansion of an expression\<close>

lemma append_Nil_map: "map ((@) []) ys = ys" "map (\<lambda>y. [] @ y) ys = ys"
  by (induction ys) auto

lemma concat_units: "concat (map (\<lambda>x. [x]) xs) = xs"
  by (induction xs) auto

lemma prod_words_unit: "prod_words [x] ys = map (\<lambda>y. x @ y) ys" "prod_words xs [[]] = xs" "prod_words [[]] ys = ys"
  by (simp_all add: prod_words_def append_Nil_map concat_units)

text \<open>
  The counts and lengths that the code keeps in an \<^verbatim>\<open>int\<close>: fewer than \<^verbatim>\<open>INT_MAX\<close> words, none of
  them longer than \<^verbatim>\<open>INT_MAX\<close>. What holds of a product holds of its factors.
\<close>

definition fits_int :: "string list \<Rightarrow> bool" where
  "fits_int ws \<longleftrightarrow> int (length ws) < INT_MAX \<and> list_all (\<lambda>w. int (length w) \<le> INT_MAX) ws"

lemma prod_words_length: "length (prod_words xs ys) = length xs * length ys"
  by (induction xs) (simp_all add: prod_words_def)

lemma prod_words_set: "set (prod_words xs ys) = {x @ y |x y. x \<in> set xs \<and> y \<in> set ys}"
  by (auto simp: prod_words_def)

lemma prod_words_Nil [simp]: "prod_words xs ys = [] \<longleftrightarrow> xs = [] \<or> ys = []"
  using prod_words_length [of xs ys] by (metis length_0_conv mult_is_0)

lemma factor_le: "ys \<noteq> [] \<Longrightarrow> length xs \<le> length xs * length ys" "ys \<noteq> [] \<Longrightarrow> length xs \<le> length ys * length xs"
  by (cases ys; simp)+

lemma fits_factors:
  assumes "fits_int (prod_words xs ys)" and "xs \<noteq> []" and "ys \<noteq> []"
  shows "fits_int xs" and "fits_int ys"
proof -
  have "\<bar>int (length x)\<bar> + \<bar>int (length y)\<bar> \<le> INT_MAX" if "x \<in> set xs" "y \<in> set ys" for x y
  proof -
    have "x @ y \<in> set (prod_words xs ys)" using that by (auto simp: prod_words_set)
    then have "int (length (x @ y)) \<le> INT_MAX" using assms(1) unfolding fits_int_def list_all_iff by blast
    then show ?thesis by simp
  qed
  moreover have "hd xs \<in> set xs" "hd ys \<in> set ys" using assms by simp_all
  ultimately have "\<forall>x \<in> set xs. int (length x) \<le> INT_MAX" "\<forall>y \<in> set ys. int (length y) \<le> INT_MAX"
    by (metis abs_ge_zero abs_of_nat add.commute add_increasing order_trans le_add_same_cancel1)+
  moreover have "int (length xs * length ys) < INT_MAX" using assms(1) by (simp add: fits_int_def prod_words_length)
  ultimately show "fits_int xs" "fits_int ys"
    using factor_le(1) [of ys xs, OF assms(3)] factor_le(2) [of xs ys, OF assms(2)]
    unfolding fits_int_def list_all_iff by (meson of_nat_le_iff order_le_less_trans)+
qed

lemma array_concat_prod:
  assumes "fits_int (prod_words xs ys)" and "xs \<noteq> []" and "ys \<noteq> []"
  shows "array_concat xs ys = Some (prod_words xs ys)"
proof -
  have n: "0 \<le> int (length xs) * int (length ys)" "int (length xs) * int (length ys) < INT_MAX"
    using assms(1) by (simp_all add: fits_int_def prod_words_length)
  have "to_int (1 + to_int n) = 1 + n" if "0 \<le> n" "n < INT_MAX" for n
    using that to_int_id [of n] to_int_id [of "1 + n"] by (simp add: INT_MIN_def)
  from this [OF n] have "to_int (1 + to_int (int (length xs) * int (length ys))) = 1 + int (length xs) * int (length ys)" .
  moreover have "list_all (\<lambda>x. int (length x) \<le> INT_MAX) xs"
    using fits_factors(1) [OF assms] by (simp add: fits_int_def)
  moreover have "int (length (prod_words xs ys)) < 1 + int (length xs) * int (length ys)" by (simp add: prod_words_length)
  ultimately have "store_words (to_int (1 + to_int (int (length xs) * int (length ys)))) (prod_words xs ys) = Some (prod_words xs ys)"
    by (simp add: store_words_def)
  then show ?thesis
    using \<open>list_all _ xs\<close> prod_words_unit(2) [of xs] prod_words_unit(3) [of ys]
    unfolding array_concat_def prod_words_def [symmetric] by (auto simp: Let_def)
qed

lemma array_append_words: "fits_int (xs @ ys) \<Longrightarrow> array_append xs ys = Some (xs @ ys)"
  by (simp add: array_append_def store_words_def fits_int_def to_int_id INT_MIN_def)

lemma fits_append: "fits_int (xs @ ys) \<Longrightarrow> fits_int xs" "fits_int (xs @ ys) \<Longrightarrow> fits_int ys"
  by (auto simp: fits_int_def)

lemma fits_concat: "fits_int (concat (map f as)) \<Longrightarrow> x \<in> set as \<Longrightarrow> fits_int (f x)"
  by (induction as) (auto dest: fits_append)

lemma bexp_ne: "wf_bpat g \<Longrightarrow> bexp g \<noteq> []"
  and bexps_ne: "list_all wf_bpat ps \<Longrightarrow> bexps ps \<noteq> []"
proof -
  show *: "bexp g \<noteq> []" if "wf_bpat g" for g
    using that
  proof (induction g)
    case (BAlts alts)
    then obtain alt rest where a: "alts = alt # rest" "list_all wf_bpat alt" by (cases alts) auto
    have "bexps ps \<noteq> []" if "set ps \<subseteq> set alt" for ps
      using that BAlts a by (induction ps) (auto simp: list_all_iff)
    from this [of alt] show ?case using a(1) by simp
  qed (simp_all add: seq_values_def seq_count_def)
  show "bexps ps \<noteq> []" if "list_all wf_bpat ps" using that * by (induction ps) auto
qed

lemma prod_words_append: "prod_words (xs @ ys) zs = prod_words xs zs @ prod_words ys zs"
  by (simp add: prod_words_def)

lemma prod_words_map: "prod_words (map (\<lambda>y. x @ y) ys) zs = map (\<lambda>y. x @ y) (prod_words ys zs)"
  by (induction ys) (simp_all add: prod_words_def)

lemma prod_words_Cons: "prod_words (x # xs) ys = map (\<lambda>y. x @ y) ys @ prod_words xs ys"
  by (simp add: prod_words_def)

lemma prod_words_assoc: "prod_words (prod_words xs ys) zs = prod_words xs (prod_words ys zs)"
proof (induction xs)
  case (Cons x xs)
  then show ?case by (simp only: prod_words_Cons prod_words_append prod_words_map)
qed (simp add: prod_words_def)

lemma bexps_lits: "list_all is_lit ps \<Longrightarrow> bexps (ps @ qs) = map (\<lambda>y. bspells ps @ y) (bexps qs)"
proof (induction ps)
  case (Cons g ps)
  then show ?case by (cases g) (simp_all add: prod_words_unit comp_def)
qed (simp add: append_Nil_map)

lemma split_lits: "list_all is_lit ps \<or> (\<exists>ls g rest. ps = ls @ g # rest \<and> list_all is_lit ls \<and> \<not> is_lit g)"
  using split_list_first_prop [of ps "\<lambda>g. \<not> is_lit g"] by (auto simp: list_all_iff)

lemma expand_pieces_map:
  assumes "\<And>p. p \<in> set ps \<Longrightarrow> brace_expand subst (f p) = Some (h p)" and "fits_int (acc @ concat (map h ps))"
  shows "expand_pieces subst acc (map f ps) = Some (acc @ concat (map h ps))"
  using assms
proof (induction ps arbitrary: acc)
  case (Cons p ps)
  have "fits_int (acc @ h p)" using Cons.prems(2) fits_append(1) [of "acc @ h p"] by simp
  then show ?case using Cons by (simp add: array_append_words)
qed simp

text \<open>What stands between the braces expands to the words of the expression.\<close>

lemma expand_inner:
  assumes "wf_bpat g" and "\<not> is_lit g" and fits: "fits_int (bexp g)"
    and IH: "\<And>alts alt. g = BAlts alts \<Longrightarrow> alt \<in> set alts \<Longrightarrow> brace_expand subst (bspells alt) = Some (bexps alt)"
  shows "do {
      comma \<leftarrow> amble_comma (inner g) 0;
      if comma then do { r \<leftarrow> expand_amble subst (inner g); Some (Some r) }
      else do { s \<leftarrow> expand_seqterm (inner g); Some (if s \<noteq> None then s else other) }
    } = Some (Some (bexp g))"
proof (cases g)
  case (BAlts alts)
  have ne: "alts \<noteq> []" "\<forall>b \<in> set alts. list_all wf_bpat b" using assms(1) BAlts by (auto simp: list_all_iff)
  have "amble_pieces subst (commas (map bspells alts)) (length ([] :: string)) = Some (map bspells alts)"
    using ne by (intro pieces_alts) auto
  moreover have "expand_pieces subst [] (map bspells alts) = Some ([] @ concat (map bexps alts))"
    using IH [OF BAlts] fits BAlts by (intro expand_pieces_map) simp_all
  ultimately have "expand_amble subst (commas (map bspells alts)) = Some (concat (map bexps alts))" by simp
  then show ?thesis using alts_comma [of alts] assms(1) BAlts by simp
next
  case (BInts a b i)
  then show ?thesis
    using assms(1) plain_no_comma [OF seq_text_plain [of a b i]] seqterm_ints [of a b i] by simp
next
  case (BLetters c d)
  have "set ([c] @ ''..'' @ [d]) \<inter> set brace_specials = {}"
    using assms(1) BLetters letter_plain [of c] letter_plain [of d] dot_plain by simp
  from plain_no_comma [OF this] seqterm_letters [of c d] show ?thesis using assms(1) BLetters by simp
qed (use assms(2) in simp_all)

lemma brace_expand_step:
  assumes ls: "list_all wf_bpat ls" "list_all is_lit ls" and g: "wf_bpat g" "\<not> is_lit g"
    and tack: "\<And>other. do {
      comma \<leftarrow> amble_comma (inner g) 0;
      if comma then do { r \<leftarrow> expand_amble subst (inner g); Some (Some r) }
      else do { s \<leftarrow> expand_seqterm (inner g); Some (if s \<noteq> None then s else other) }
    } = Some (Some ws)"
    and post: "if rest = [] then post = [[]] else brace_expand subst rest = Some post"
    and ne: "ws \<noteq> []" "post \<noteq> []" and fits: "fits_int (prod_words (prod_words [bspells ls] ws) post)"
  shows "brace_expand subst (bspells ls @ bspell g @ rest) = Some (prod_words (prod_words [bspells ls] ws) post)"
proof -
  let ?t = "bspells ls @ bspell g @ rest" and ?n = "length (bspells ls)"
  let ?j = "Suc ?n + length (inner g)"
  have sp: "?t = bspells ls @ ''{'' @ inner g @ ''}'' @ rest" using bspell_inner [OF g(2)] by simp
  have "text_at ?t (Suc ?n) (inner g @ ''}'')" unfolding sp by (simp add: text_at_def)
  from inner_closed [OF g this] have close: "brace_gobbler subst ?t (Suc ?n) (CHR ''}'') = Some (CHR ''}'', ?j)" .
  have sub: "substring ?t (Suc ?n) ?j = inner g" "take ?n ?t = bspells ls" "drop (Suc ?j) ?t = rest" "Suc ?j < length ?t \<longleftrightarrow> rest \<noteq> []"
    unfolding sp by (simp_all add: substring_def)
  have nz: "CHR ''{'' = CHR ''{''" "CHR ''}'' \<noteq> NUL" by simp_all
  have assoc: "do { a \<leftarrow> x; b \<leftarrow> f a; k b } = do { b \<leftarrow> do { a \<leftarrow> x; f a }; k b }" for x :: "bool option" and f and k :: "string list option \<Rightarrow> string list option"
    by (cases x) simp_all
  have c2: "array_concat (prod_words [bspells ls] ws) post = Some (prod_words (prod_words [bspells ls] ws) post)"
    using ne by (intro array_concat_prod fits) simp_all
  have c1: "array_concat [bspells ls] ws = Some (prod_words [bspells ls] ws)"
    using fits_factors(1) [OF fits] ne by (intro array_concat_prod) simp_all
  show ?thesis
    unfolding brace_expand.simps [of subst ?t] find_brace_first [OF ls g] Let_def Option.bind.simps(2) prod.case close sub if_not_P [OF nz(2)] assoc
    using post by (subst if_not_P, simp) (auto simp: tack c1 c2 prod_words_unit(2))
qed

lemma brace_expand_words: "list_all wf_bpat ps \<Longrightarrow> fits_int (bexps ps) \<Longrightarrow> brace_expand subst (bspells ps) = Some (bexps ps)"
proof (induction "length (bspells ps)" arbitrary: ps rule: less_induct)
  case less
  show ?case
  proof (cases "list_all is_lit ps")
    case True
    then show ?thesis
      using find_brace_lits [OF less.prems(1) True, of subst] bexps_lits [OF True, of "[]"] by (simp add: brace_expand.simps)
  next
    case False
    then obtain ls g rest where ps: "ps = ls @ g # rest" "list_all is_lit ls" "\<not> is_lit g" using split_lits [of ps] by blast
    have wf: "list_all wf_bpat ls" "wf_bpat g" "list_all wf_bpat rest" using less.prems ps(1) by auto
    have ex: "bexps ps = prod_words (prod_words [bspells ls] (bexp g)) (bexps rest)"
      unfolding ps(1) bexps_lits [OF ps(2)] prod_words_unit(1) prod_words_map by simp
    note ne = bexp_ne [OF wf(2)] bexps_ne [OF wf(3)]
    have fits: "fits_int (prod_words (prod_words [bspells ls] (bexp g)) (bexps rest))" using less.prems(2) unfolding ex .
    have fg: "fits_int (bexp g)" and fr: "fits_int (bexps rest)"
      using fits_factors [OF fits] ne fits_factors(2) [of "[bspells ls]" "bexp g"] by simp_all
    have "brace_expand subst (bspells alt) = Some (bexps alt)" if "g = BAlts alts" "alt \<in> set alts" for alts alt
    proof (rule less.hyps)
      have "length (bspells alt) \<le> length (commas (map bspells alts))" using that(2) by (induction alts rule: induct_list012) auto
      then show "length (bspells alt) < length (bspells ps)" using ps(1) that(1) by simp
      show "list_all wf_bpat alt" using wf(2) that by (auto simp: list_all_iff)
      show "fits_int (bexps alt)" using fits_concat [of bexps alts alt] fg that by simp
    qed
    note tack = expand_inner [OF wf(2) ps(3) fg this]
    have "brace_expand subst (bspells rest) = Some (bexps rest)"
      using ps(1,3) wf(3) bspell_inner [OF ps(3)] fr by (intro less.hyps) auto
    then have "if bspells rest = [] then bexps rest = [[]] else brace_expand subst (bspells rest) = Some (bexps rest)"
      using bspells_opens [OF wf(3)] by (cases "rest = []") auto
    from brace_expand_step [OF wf(1) ps(2) wf(2) ps(3) tack this ne fits]
    have "brace_expand subst (bspells ls @ bspell g @ bspells rest) = Some (prod_words (prod_words [bspells ls] (bexp g)) (bexps rest))"
      by simp
    then show ?thesis using ex ps(1) by simp
  qed
qed

text \<open>
  C5. Brace expansion is the product of the choices. Take an expression tree whose literal
  characters are not special, with alternatives of two or more, sequences of numbers spelled
  without leading zeros, with or without an increment, that have at most \<^verbatim>\<open>INT_MAX - 2\<close> members, and
  sequences of letters, whose expansion has fewer than \<^verbatim>\<open>INT_MAX\<close> words, none longer than
  \<^verbatim>\<open>INT_MAX\<close>. Whatever the reader of command substitutions does, \<open>brace_expand\<close> of the spelling
  returns, writes only inside the vectors it allocates, and gives the words of the tree in order,
  nested expressions included; escaped characters keep their backslash. Without the bounds the
  sizes wrap and the vectors are overrun (\<open>mkseq_overruns\<close>, \<open>array_concat_overruns\<close>).
\<close>

theorem brace_expand_correct:
  assumes "list_all wf_bpat ps" and "fits_int (bexps ps)"
  shows "brace_expand subst (bspells ps) = Some (bexps ps)"
  using assms by (rule brace_expand_words)

theorem brace_expand_correct_witness:
  "brace_expand (\<lambda>text i. None) ''a{b,{2..-1..2},}c'' = Some [''abc'', ''a2c'', ''a0c'', ''ac'']"
proof -
  let ?ps = "[BLit (CHR ''a''), BAlts [[BLit (CHR ''b'')], [BInts 2 (- 1) (Some 2)], []], BLit (CHR ''c'')]"
  have it: "itos 2 = ''2''" "itos (- 1) = ''-1''" "itos 0 = ''0''"
    by (simp_all add: itos_eq cdefs fmt_div_rec FMTCHAR_def) (simp_all add: char_of_def bit_0)
  have wf: "list_all wf_bpat ?ps"
    by (simp add: brace_specials_def seq_ok_def intmax_def seq_count_def seq_step_def cdefs)
  have sp: "bspells ?ps = ''a{b,{2..-1..2},}c''" by (simp add: seq_text_def it)
  have "seq_values 2 (- 1) (Some 2) = [2, 0]" by (simp add: seq_values_def seq_count_def seq_step_def)
  then have "bexps ?ps = [''abc'', ''a2c'', ''a0c'', ''ac'']" by (simp add: prod_words_def it)
  then show ?thesis using brace_expand_correct [OF wf, of "\<lambda>text i. None"] sp by (simp add: fits_int_def INT_MAX_def)
qed

text \<open>
  The number of elements is computed in \<^verbatim>\<open>intmax_t\<close> and stored in an \<^verbatim>\<open>int\<close>: for a sequence of
  \<open>2 ^ 32 + 2\<close> numbers the vector has three slots and the loop writes behind it.
\<close>

lemma mkseq_overruns: "mkseq 1 4294967298 1 ST_INT 0 = None"
proof -
  let ?loop = "\<lambda>n i. mkseq_loop ST_INT 0 4294967298 1 3 n i"
  have "?loop 4 3 = None" by (simp add: mkseq_loop.simps)
  moreover have "?loop n i = do { rest \<leftarrow> ?loop (n + 1) (Suc i); Some (itos n # rest) }" if "i < 3" "0 < n" "n < 10" for n i
    using that by (subst mkseq_loop.simps) (simp add: ADDOVERFLOW_def seq_element_def cdefs)
  ultimately have "?loop 1 0 = None" by (simp add: numeral_3_eq_3)
  then show ?thesis by (simp add: mkseq_def SUBOVERFLOW_def ADDOVERFLOW_def sh_imaxabs_def c_div_def to_int_def cdefs)
qed

text \<open>
  The product of two lengths is computed in \<^verbatim>\<open>int\<close> as well: joining two vectors of \<open>65536\<close> words, each
  of them a legal sequence, asks for a block of one pointer, and the second word is written behind it.
\<close>

lemma array_concat_overruns:
  assumes "length arr1 = 65536" and "length arr2 = 65536" shows "array_concat arr1 arr2 = None"
proof -
  have "to_int (1 + to_int (int (length arr1) * int (length arr2))) = 1" using assms by (simp add: to_int_def)
  moreover have "int (length (prod_words arr1 arr2)) \<ge> 1" using assms by (simp add: prod_words_length)
  moreover have "arr1 \<noteq> [[]]" "arr2 \<noteq> [[]]" "arr1 \<noteq> []" "arr2 \<noteq> []" using assms by auto
  ultimately show ?thesis by (simp add: array_concat_def store_words_def prod_words_def [symmetric])
qed

end
