(* ===== verification/Expr.thy ===== *)
theory Expr
  imports Cint Glob Braces
begin

text \<open>
  Arithmetic evaluation, \<^verbatim>\<open>expr.c\<close>: the lexical analyser, the recursive descent over the levels of
  precedence, which evaluates while it reads, and \<^verbatim>\<open>evalexp\<close>, which catches the jumps of
  \<^verbatim>\<open>evalerror\<close>. The file-level variables of the C file are the record \<open>expr_state\<close>; positions in
  \<^verbatim>\<open>expression\<close> are offsets; \<^verbatim>\<open>intmax_t\<close> values are integers that wrap at 64 bits.

  The C functions call each other in cycles. Each is a definition here whose first argument is the
  meaning of a call; \<open>proc\<close> names them, a \<^verbatim>\<open>while\<close> loop being a procedure that calls itself, and
  \<open>run\<close> closes the cycle with a bound on the depth of calls. \<open>None\<close> is that bound being exhausted,
  which theory \<open>ExprInv\<close> shows not to happen.

  Shell variables are scalars found by name in one table; an expression that goes on to a subscript stops
  with \<open>SubscriptRef\<close>. Without subscripts the index in \<^verbatim>\<open>curlval\<close> is always -1, the only field of
  \<^verbatim>\<open>curlval\<close> and \<^verbatim>\<open>lastlval\<close> that is read back, so these two are left out.
  \<^verbatim>\<open>stupidly_hack_special_variables\<close>, the reaction to an assignment to a special variable, is not modelled.
\<close>

subsection \<open>Tokens and state\<close>

text \<open>A single-character operator is its own token.\<close>

datatype token =
    TOK0 | EQEQ | NEQ | LEQ | GEQ | TSTR | NUM | LAND | LOR | LSH | RSH | OP_ASSIGN | COND | POWER
  | PREINC | PREDEC | POSTINC | POSTDEC | Chr char

abbreviation EQ :: token where "EQ \<equiv> Chr CHR ''=''"
abbreviation GT :: token where "GT \<equiv> Chr CHR ''>''"
abbreviation LT :: token where "LT \<equiv> Chr CHR ''<''"
abbreviation PLUS :: token where "PLUS \<equiv> Chr CHR ''+''"
abbreviation MINUS :: token where "MINUS \<equiv> Chr CHR ''-''"
abbreviation MUL :: token where "MUL \<equiv> Chr CHR ''*''"
abbreviation DIV :: token where "DIV \<equiv> Chr CHR ''/''"
abbreviation MOD :: token where "MOD \<equiv> Chr CHR ''%''"
abbreviation LNOT :: token where "LNOT \<equiv> Chr CHR ''!''"
abbreviation LPAR :: token where "LPAR \<equiv> Chr CHR ''(''"
abbreviation RPAR :: token where "RPAR \<equiv> Chr CHR '')''"
abbreviation BAND :: token where "BAND \<equiv> Chr CHR ''&''"
abbreviation BOR :: token where "BOR \<equiv> Chr CHR ''|''"
abbreviation BXOR :: token where "BXOR \<equiv> Chr CHR ''^''"
abbreviation BNOT :: token where "BNOT \<equiv> Chr CHR ''~''"
abbreviation QUES :: token where "QUES \<equiv> Chr CHR ''?''"
abbreviation COL :: token where "COL \<equiv> Chr CHR '':''"
abbreviation COMMA :: token where "COMMA \<equiv> Chr CHR '',''"

definition MAX_EXPR_RECURSION_LEVEL :: nat where
  "MAX_EXPR_RECURSION_LEVEL = 1024"

record shell_var =
  var_value :: "string option"
  att_integer :: bool
  att_readonly :: bool
  att_noassign :: bool
  att_invisible :: bool

record expr_context =
  ec_curtok :: token
  ec_lasttok :: token
  ec_expression :: string
  ec_tp :: nat
  ec_lasttp :: nat
  ec_tokval :: int
  ec_tokstr :: "string option"
  ec_noeval :: int

record expr_state =
  expression :: string
  tp :: nat
  lasttp :: nat
  curtok :: token
  lasttok :: token
  assigntok :: token
  tokstr :: "string option"
  tokval :: int
  noeval :: int
  expr_stack :: "expr_context list"
  vars :: "string \<rightharpoonup> shell_var"
  unbound_vars_is_error :: bool

text \<open>The static initial values, with the variables of the shell.\<close>

definition initial_state :: "(string \<rightharpoonup> shell_var) \<Rightarrow> bool \<Rightarrow> expr_state" where
  "initial_state tbl unbound = \<lparr>expression = [], tp = 0, lasttp = 0, curtok = TOK0, lasttok = TOK0, assigntok = TOK0,
     tokstr = None, tokval = 0, noeval = 0, expr_stack = [], vars = tbl, unbound_vars_is_error = unbound\<rparr>"

text \<open>
  How evaluation is left other than by returning: \<^verbatim>\<open>evalerror\<close> with its message and error token, the jump
  after a failed assignment, the jump to the top level for an unbound variable; then the subscript
  reference, where the model stops, and a copy of the null pointer by \<^verbatim>\<open>savestring\<close>.
\<close>

datatype stop = EvalError string string | AssignError | UnboundVar string | SubscriptRef | NullString

datatype outcome = Done int expr_state | Stop stop expr_state

type_synonym comp = "expr_state \<Rightarrow> outcome option"

definition and_then :: "outcome option \<Rightarrow> (int \<Rightarrow> comp) \<Rightarrow> outcome option" where
  "and_then m f = (case m of Some (Done v s) \<Rightarrow> f v s | _ \<Rightarrow> m)"

text \<open>The procedures of the evaluator; the argument of a loop is the value it has so far.\<close>

datatype proc =
    Readtok | Expr_streval string | Subexpr string | Expcomma | Expcomma_loop int | Expassign | Expcond
  | Explor | Explor_loop int | Expland | Expland_loop int | Expbor | Expbor_loop int
  | Expbxor | Expbxor_loop int | Expband | Expband_loop int | Exp5 | Exp5_loop int | Exp4 | Exp4_loop int
  | Expshift | Expshift_loop int | Exp3 | Exp3_loop int | Exp2 | Exp2_loop int
  | Exppower | Exppower_loop int | Exp1 | Exp0

type_synonym caller = "proc \<Rightarrow> comp"

subsection \<open>Contexts, errors and variables\<close>

definition SAVETOK :: "expr_state \<Rightarrow> expr_context" where
  "SAVETOK s = \<lparr>ec_curtok = curtok s, ec_lasttok = lasttok s, ec_expression = expression s, ec_tp = tp s,
     ec_lasttp = lasttp s, ec_tokval = tokval s, ec_tokstr = tokstr s, ec_noeval = noeval s\<rparr>"

definition RESTORETOK :: "expr_context \<Rightarrow> expr_state \<Rightarrow> expr_state" where
  "RESTORETOK x s = s\<lparr>curtok := ec_curtok x, lasttok := ec_lasttok x, tp := ec_tp x, lasttp := ec_lasttp x,
     tokval := ec_tokval x, tokstr := ec_tokstr x, noeval := ec_noeval x\<rparr>"

text \<open>The error token of the message is the text from the start of the last token on.\<close>

definition evalerror :: "string \<Rightarrow> comp" where
  "evalerror msg s = Some (Stop (EvalError msg (drop (lasttp s) (expression s))) s)"

definition pushexp :: comp where
  "pushexp s = (if length (expr_stack s) \<ge> MAX_EXPR_RECURSION_LEVEL
     then evalerror ''expression recursion level exceeded'' s
     else Some (Done 0 (s\<lparr>expr_stack := SAVETOK s # expr_stack s\<rparr>)))"

definition popexp :: comp where
  "popexp s = (case expr_stack s of
      [] \<Rightarrow> evalerror ''recursion stack underflow'' s
    | x # rest \<Rightarrow> Some (Done 0 (RESTORETOK x (s\<lparr>expr_stack := rest, expression := ec_expression x\<rparr>))))"

definition expr_unwind :: "expr_state \<Rightarrow> expr_state" where
  "expr_unwind s = s\<lparr>expr_stack := [], noeval := 0\<rparr>"

definition get_variable_value :: "shell_var option \<Rightarrow> string option" where
  "get_variable_value v = (case v of None \<Rightarrow> None | Some v \<Rightarrow> var_value v)"

definition bind_variable :: "string \<Rightarrow> string \<Rightarrow> (string \<rightharpoonup> shell_var) \<Rightarrow> (string \<rightharpoonup> shell_var)" where
  "bind_variable name value tbl = (case tbl name of
      None \<Rightarrow> tbl(name \<mapsto> \<lparr>var_value = Some value, att_integer = False, att_readonly = False,
                att_noassign = False, att_invisible = False\<rparr>)
    | Some v \<Rightarrow> if att_readonly v \<or> att_noassign v then tbl
        else tbl(name \<mapsto> v\<lparr>var_value := Some value, att_invisible := False\<rparr>))"

text \<open>The integer attribute is cleared around the assignment, so that the value is stored as it is.\<close>

definition bind_int_variable :: "string \<Rightarrow> string \<Rightarrow> (string \<rightharpoonup> shell_var) \<Rightarrow> (string \<rightharpoonup> shell_var)" where
  "bind_int_variable lhs rhs tbl = (
     let isint = (case tbl lhs of None \<Rightarrow> False | Some v \<Rightarrow> att_integer v);
         tbl = (case tbl lhs of None \<Rightarrow> tbl | Some v \<Rightarrow> tbl(lhs \<mapsto> v\<lparr>att_integer := False\<rparr>));
         tbl = bind_variable lhs rhs tbl
     in tbl(lhs := map_option (\<lambda>v. v\<lparr>att_integer := isint \<or> att_integer v, att_invisible := False\<rparr>) (tbl lhs)))"

definition expr_bind_variable :: "string \<Rightarrow> string \<Rightarrow> comp" where
  "expr_bind_variable lhs rhs s = (
     let s = s\<lparr>vars := bind_int_variable lhs rhs (vars s)\<rparr>
     in case vars s lhs of
          Some v \<Rightarrow> if att_readonly v \<or> att_noassign v then Some (Stop AssignError s) else Some (Done 0 s)
        | None \<Rightarrow> Some (Done 0 s))"

subsection \<open>Numbers\<close>

text \<open>The value of a digit, with the letters of both cases equal up to base 36.\<close>

definition strlong_digit :: "int \<Rightarrow> char \<Rightarrow> int" where
  "strlong_digit base c = (
     if DIGIT c then TODIGIT c
     else if ISLOWER c then uchar c - (97 - 10)
     else if ISUPPER c then uchar c - (65 - (if base \<le> 36 then 10 else 36))
     else if c = CHR ''@'' then 62
     else 63)"

fun strlong_loop :: "int \<Rightarrow> bool \<Rightarrow> int \<Rightarrow> string \<Rightarrow> string + int" where
  "strlong_loop base foundbase val [] = Inr val"
| "strlong_loop base foundbase val (c # s) = (
     if c = CHR ''#'' then
       if foundbase then Inl ''invalid number''
       else if val < 2 \<or> val > 64 then Inl ''invalid arithmetic base''
       else strlong_loop val True 0 s
     else if ISALNUM c \<or> c = CHR ''_'' \<or> c = CHR ''@'' then
       if strlong_digit base c \<ge> base then Inl ''value too great for base''
       else strlong_loop base foundbase (to_intmax (val * base + strlong_digit base c)) s
     else Inr val)"

definition strlong :: "string \<Rightarrow> string + int" where
  "strlong num = (
     if char_at num 0 = CHR ''0'' then
       if char_at num 1 = NUL then Inr 0
       else if char_at num 1 = CHR ''x'' \<or> char_at num 1 = CHR ''X'' then strlong_loop 16 True 0 (drop 2 num)
       else strlong_loop 8 True 0 (drop 1 num)
     else strlong_loop 10 False 0 num)"

subsection \<open>Lexical analysis\<close>

definition cr_whitespace :: "char \<Rightarrow> bool" where
  "cr_whitespace c \<longleftrightarrow> whitespace c \<or> c = CHR 0x0A"

definition is_multiop :: "token \<Rightarrow> bool" where
  "is_multiop t \<longleftrightarrow> t \<in> {EQEQ, NEQ, LEQ, GEQ, LAND, LOR, LSH, RSH, OP_ASSIGN, COND, POWER, PREINC, PREDEC, POSTINC, POSTDEC}"

definition is_arithop :: "token \<Rightarrow> bool" where
  "is_arithop t \<longleftrightarrow> t \<in> {EQ, GT, LT, PLUS, MINUS, MUL, DIV, MOD, LNOT, LPAR, RPAR, BAND, BOR, BXOR, BNOT, QUES, COL, COMMA}"

text \<open>The end of the longest run of characters of a class that starts at a place.\<close>

definition span_end :: "(char \<Rightarrow> bool) \<Rightarrow> string \<Rightarrow> nat \<Rightarrow> nat" where
  "span_end P e p = p + length (takeWhile P (drop p e))"

text \<open>What every branch of the analyser ends with.\<close>

definition token_read :: "token \<Rightarrow> nat \<Rightarrow> comp" where
  "token_read t cp s = Some (Done 0 (s\<lparr>lasttok := curtok s, curtok := t, tp := cp\<rparr>))"

definition readtok_var :: "caller \<Rightarrow> comp" where
  "readtok_var call s = (
     let cp = span_end legal_variable_char (expression s) (tp s);
         name = substring (expression s) (tp s) cp
     in if char_at (expression s) cp = CHR ''['' then Some (Stop SubscriptRef s)
        else let s = s\<lparr>tokstr := Some name\<rparr>; ec = SAVETOK s in
          and_then (call Readtok (s\<lparr>tokstr := None, tp := cp, noeval := 1, curtok := TSTR\<rparr>)) (\<lambda>_ p.
            let peektok = curtok p; s = RESTORETOK ec p in
            if lasttok s = PREINC \<or> lasttok s = PREDEC \<or> peektok \<noteq> EQ
            then and_then (call (Expr_streval name) s) (\<lambda>v s. token_read TSTR cp (s\<lparr>tokval := v\<rparr>))
            else token_read TSTR cp (s\<lparr>tokval := 0\<rparr>)))"

definition readtok_num :: comp where
  "readtok_num s = (
     let cp = span_end (\<lambda>c. ISALNUM c \<or> c = CHR ''#'' \<or> c = CHR ''@'' \<or> c = CHR ''_'') (expression s) (tp s)
     in case strlong (substring (expression s) (tp s) cp) of
          Inl msg \<Rightarrow> evalerror msg s
        | Inr v \<Rightarrow> token_read NUM cp (s\<lparr>tokval := v\<rparr>))"

definition readtok_op :: comp where
  "readtok_op s = (
     let e = expression s; p = tp s; c = char_at e p; c1 = char_at e (p + 1); c2 = char_at e (p + 2) in
     if c = CHR ''='' \<and> c1 = CHR ''='' then token_read EQEQ (p + 2) s
     else if c = CHR ''!'' \<and> c1 = CHR ''='' then token_read NEQ (p + 2) s
     else if c = CHR ''>'' \<and> c1 = CHR ''='' then token_read GEQ (p + 2) s
     else if c = CHR ''<'' \<and> c1 = CHR ''='' then token_read LEQ (p + 2) s
     else if c = CHR ''<'' \<and> c1 = CHR ''<'' then
       if c2 = CHR ''='' then token_read OP_ASSIGN (p + 3) (s\<lparr>assigntok := LSH\<rparr>) else token_read LSH (p + 2) s
     else if c = CHR ''>'' \<and> c1 = CHR ''>'' then
       if c2 = CHR ''='' then token_read OP_ASSIGN (p + 3) (s\<lparr>assigntok := RSH\<rparr>) else token_read RSH (p + 2) s
     else if c = CHR ''&'' \<and> c1 = CHR ''&'' then token_read LAND (p + 2) s
     else if c = CHR ''|'' \<and> c1 = CHR ''|'' then token_read LOR (p + 2) s
     else if c = CHR ''*'' \<and> c1 = CHR ''*'' then token_read POWER (p + 2) s
     else if (c = CHR ''-'' \<or> c = CHR ''+'') \<and> c1 = c \<and> curtok s = TSTR then
       token_read (if c = CHR ''-'' then POSTDEC else POSTINC) (p + 2) s
     else if (c = CHR ''-'' \<or> c = CHR ''+'') \<and> c1 = c then
       if legal_variable_starter (char_at e (span_end cr_whitespace e (p + 2)))
       then token_read (if c = CHR ''-'' then PREDEC else PREINC) (p + 2) s
       else token_read (Chr c) (p + 1) s
     else if c1 = CHR ''='' \<and> c \<in> set ''*/%+-&^|'' then token_read OP_ASSIGN (p + 2) (s\<lparr>assigntok := Chr c\<rparr>)
     else if \<not> is_arithop (Chr c) then
       if curtok s = TOK0 \<or> is_arithop (curtok s) \<or> is_multiop (curtok s)
       then evalerror ''syntax error: operand expected'' s
       else evalerror ''syntax error: invalid arithmetic operator'' s
     else token_read (Chr c) (p + 1) s)"

definition readtok :: "caller \<Rightarrow> comp" where
  "readtok call s = (
     let cp = span_end cr_whitespace (expression s) (tp s); c = char_at (expression s) cp in
     if c = NUL then token_read TOK0 cp s
     else let s = s\<lparr>lasttp := cp, tp := cp\<rparr> in
       if legal_variable_starter c then readtok_var call s
       else if DIGIT c then readtok_num s
       else readtok_op s)"

definition expr_streval :: "caller \<Rightarrow> string \<Rightarrow> comp" where
  "expr_streval call tok s = (
     if noeval s \<noteq> 0 then Some (Done 0 s)
     else let v = vars s tok in
       if (case v of None \<Rightarrow> True | Some v \<Rightarrow> att_invisible v) \<and> unbound_vars_is_error s
       then Some (Stop (UnboundVar tok) s)
       else case get_variable_value v of
              None \<Rightarrow> Some (Done 0 s)
            | Some value \<Rightarrow> if value = [] then Some (Done 0 s) else call (Subexpr value) s)"

text \<open>The pushed state becomes that of the new expression; \<^verbatim>\<open>lasttp\<close> keeps its value until the first token.\<close>

definition subexpr :: "caller \<Rightarrow> string \<Rightarrow> comp" where
  "subexpr call expr s = (
     if list_all cr_whitespace expr then Some (Done 0 s)
     else and_then (pushexp s) (\<lambda>_ s.
       let s = s\<lparr>expression := expr, tp := 0, curtok := TOK0, lasttok := TOK0, tokstr := None, tokval := 0\<rparr> in
       and_then (call Readtok s) (\<lambda>_ s.
       and_then (call Expcomma s) (\<lambda>val s.
         if curtok s \<noteq> TOK0 then evalerror ''syntax error in expression'' s
         else and_then (popexp s) (\<lambda>_ s. Some (Done val s))))))"

subsection \<open>Assignment and conditional expressions\<close>

definition expcomma :: "caller \<Rightarrow> comp" where
  "expcomma call s = and_then (call Expassign s) (\<lambda>value. call (Expcomma_loop value))"

definition expcomma_loop :: "caller \<Rightarrow> int \<Rightarrow> comp" where
  "expcomma_loop call value s = (
     if curtok s = COMMA
     then and_then (call Readtok s) (\<lambda>_ s. and_then (call Expassign s) (\<lambda>value. call (Expcomma_loop value)))
     else Some (Done value s))"

text \<open>The \<^verbatim>\<open>switch\<close> over the operator of a compound assignment; \<open>None\<close> is its default case.\<close>

definition assign_op :: "token \<Rightarrow> int \<Rightarrow> int \<Rightarrow> int option" where
  "assign_op op lvalue value = (
     if op = MUL then Some (to_intmax (lvalue * value))
     else if op = DIV \<or> op = MOD then
       if lvalue = INTMAX_MIN \<and> value = - 1 then Some (if op = DIV then INTMAX_MIN else 0)
       else Some (if op = DIV then c_div lvalue value else c_mod lvalue value)
     else if op = PLUS then Some (to_intmax (lvalue + value))
     else if op = MINUS then Some (to_intmax (lvalue - value))
     else if op = LSH then Some (shift_left lvalue value)
     else if op = RSH then Some (shift_right lvalue value)
     else if op = BAND then Some (lvalue AND value)
     else if op = BOR then Some (lvalue OR value)
     else if op = BXOR then Some (lvalue XOR value)
     else None)"

definition expassign_value :: "bool \<Rightarrow> token \<Rightarrow> int \<Rightarrow> int \<Rightarrow> comp" where
  "expassign_value special op lvalue value s = (
     if special then
       if (op = DIV \<or> op = MOD) \<and> value = 0 \<and> noeval s = 0 then evalerror ''division by 0'' s
       else let value = (if (op = DIV \<or> op = MOD) \<and> value = 0 then 1 else value) in
         case assign_op op lvalue value of
           None \<Rightarrow> evalerror ''bug: bad expassign token'' s
         | Some v \<Rightarrow> Some (Done v s)
     else Some (Done value s))"

definition expassign :: "caller \<Rightarrow> comp" where
  "expassign call s = and_then (call Expcond s) (\<lambda>value s.
     if curtok s = EQ \<or> curtok s = OP_ASSIGN then
       let special = (curtok s = OP_ASSIGN); op = assigntok s; lvalue = value in
       if lasttok s \<noteq> TSTR then evalerror ''attempted assignment to non-variable'' s
       else case tokstr s of
           None \<Rightarrow> Some (Stop NullString s)
         | Some lhs \<Rightarrow>
             and_then (call Readtok s) (\<lambda>_ s.
             and_then (call Expassign s) (\<lambda>value s.
             and_then (expassign_value special op lvalue value s) (\<lambda>value s.
             and_then (if noeval s = 0 then expr_bind_variable lhs (itos value) s else Some (Done 0 s)) (\<lambda>_ s.
               Some (Done value (s\<lparr>tokstr := None\<rparr>))))))
     else Some (Done value s))"

text \<open>The first token of each branch is read before \<^verbatim>\<open>noeval\<close> is raised for the branch.\<close>

definition expcond :: "caller \<Rightarrow> comp" where
  "expcond call s = and_then (call Explor s) (\<lambda>cval s.
     if curtok s = QUES then
       and_then (call Readtok s) (\<lambda>_ s.
       if curtok s = TOK0 \<or> curtok s = COL then evalerror ''expression expected'' s
       else and_then (call Expcomma (if cval = 0 then s\<lparr>noeval := noeval s + 1\<rparr> else s)) (\<lambda>val1 s.
       let s = (if cval = 0 then s\<lparr>noeval := noeval s - 1\<rparr> else s) in
       if curtok s \<noteq> COL then evalerror ''`:' expected for conditional expression'' s
       else and_then (call Readtok s) (\<lambda>_ s.
       if curtok s = TOK0 then evalerror ''expression expected'' s
       else and_then (call Expcond (if cval \<noteq> 0 then s\<lparr>noeval := noeval s + 1\<rparr> else s)) (\<lambda>val2 s.
       let s = (if cval \<noteq> 0 then s\<lparr>noeval := noeval s - 1\<rparr> else s) in
       Some (Done (if cval \<noteq> 0 then val1 else val2) (s\<lparr>lasttok := COND\<rparr>))))))
     else Some (Done cval s))"

definition explor :: "caller \<Rightarrow> comp" where
  "explor call s = and_then (call Expland s) (\<lambda>val1. call (Explor_loop val1))"

definition explor_loop :: "caller \<Rightarrow> int \<Rightarrow> comp" where
  "explor_loop call val1 s = (
     if curtok s = LOR then
       and_then (call Readtok (if val1 \<noteq> 0 then s\<lparr>noeval := noeval s + 1\<rparr> else s)) (\<lambda>_ s.
       and_then (call Expland s) (\<lambda>val2 s.
       let s = (if val1 \<noteq> 0 then s\<lparr>noeval := noeval s - 1\<rparr> else s) in
       call (Explor_loop (of_bool (val1 \<noteq> 0 \<or> val2 \<noteq> 0))) (s\<lparr>lasttok := LOR\<rparr>)))
     else Some (Done val1 s))"

definition expland :: "caller \<Rightarrow> comp" where
  "expland call s = and_then (call Expbor s) (\<lambda>val1. call (Expland_loop val1))"

definition expland_loop :: "caller \<Rightarrow> int \<Rightarrow> comp" where
  "expland_loop call val1 s = (
     if curtok s = LAND then
       and_then (call Readtok (if val1 = 0 then s\<lparr>noeval := noeval s + 1\<rparr> else s)) (\<lambda>_ s.
       and_then (call Expbor s) (\<lambda>val2 s.
       let s = (if val1 = 0 then s\<lparr>noeval := noeval s - 1\<rparr> else s) in
       call (Expland_loop (of_bool (val1 \<noteq> 0 \<and> val2 \<noteq> 0))) (s\<lparr>lasttok := LAND\<rparr>)))
     else Some (Done val1 s))"

subsection \<open>Binary operators\<close>

definition expbor :: "caller \<Rightarrow> comp" where
  "expbor call s = and_then (call Expbxor s) (\<lambda>val1. call (Expbor_loop val1))"

definition expbor_loop :: "caller \<Rightarrow> int \<Rightarrow> comp" where
  "expbor_loop call val1 s = (
     if curtok s = BOR then
       and_then (call Readtok s) (\<lambda>_ s. and_then (call Expbxor s) (\<lambda>val2 s.
         call (Expbor_loop (val1 OR val2)) (s\<lparr>lasttok := NUM\<rparr>)))
     else Some (Done val1 s))"

definition expbxor :: "caller \<Rightarrow> comp" where
  "expbxor call s = and_then (call Expband s) (\<lambda>val1. call (Expbxor_loop val1))"

definition expbxor_loop :: "caller \<Rightarrow> int \<Rightarrow> comp" where
  "expbxor_loop call val1 s = (
     if curtok s = BXOR then
       and_then (call Readtok s) (\<lambda>_ s. and_then (call Expband s) (\<lambda>val2 s.
         call (Expbxor_loop (val1 XOR val2)) (s\<lparr>lasttok := NUM\<rparr>)))
     else Some (Done val1 s))"

definition expband :: "caller \<Rightarrow> comp" where
  "expband call s = and_then (call Exp5 s) (\<lambda>val1. call (Expband_loop val1))"

definition expband_loop :: "caller \<Rightarrow> int \<Rightarrow> comp" where
  "expband_loop call val1 s = (
     if curtok s = BAND then
       and_then (call Readtok s) (\<lambda>_ s. and_then (call Exp5 s) (\<lambda>val2 s.
         call (Expband_loop (val1 AND val2)) (s\<lparr>lasttok := NUM\<rparr>)))
     else Some (Done val1 s))"

definition exp5 :: "caller \<Rightarrow> comp" where
  "exp5 call s = and_then (call Exp4 s) (\<lambda>val1. call (Exp5_loop val1))"

definition exp5_loop :: "caller \<Rightarrow> int \<Rightarrow> comp" where
  "exp5_loop call val1 s = (
     if curtok s = EQEQ \<or> curtok s = NEQ then
       let op = curtok s in
       and_then (call Readtok s) (\<lambda>_ s. and_then (call Exp4 s) (\<lambda>val2 s.
         call (Exp5_loop (if op = EQEQ then of_bool (val1 = val2) else of_bool (val1 \<noteq> val2))) (s\<lparr>lasttok := NUM\<rparr>)))
     else Some (Done val1 s))"

definition exp4 :: "caller \<Rightarrow> comp" where
  "exp4 call s = and_then (call Expshift s) (\<lambda>val1. call (Exp4_loop val1))"

definition exp4_loop :: "caller \<Rightarrow> int \<Rightarrow> comp" where
  "exp4_loop call val1 s = (
     if curtok s = LEQ \<or> curtok s = GEQ \<or> curtok s = LT \<or> curtok s = GT then
       let op = curtok s in
       and_then (call Readtok s) (\<lambda>_ s. and_then (call Expshift s) (\<lambda>val2 s.
         call (Exp4_loop (
             if op = LEQ then of_bool (val1 \<le> val2)
             else if op = GEQ then of_bool (val1 \<ge> val2)
             else if op = LT then of_bool (val1 < val2)
             else of_bool (val1 > val2))) (s\<lparr>lasttok := NUM\<rparr>)))
     else Some (Done val1 s))"

definition expshift :: "caller \<Rightarrow> comp" where
  "expshift call s = and_then (call Exp3 s) (\<lambda>val1. call (Expshift_loop val1))"

definition expshift_loop :: "caller \<Rightarrow> int \<Rightarrow> comp" where
  "expshift_loop call val1 s = (
     if curtok s = LSH \<or> curtok s = RSH then
       let op = curtok s in
       and_then (call Readtok s) (\<lambda>_ s. and_then (call Exp3 s) (\<lambda>val2 s.
         call (Expshift_loop (if op = LSH then shift_left val1 val2 else shift_right val1 val2)) (s\<lparr>lasttok := NUM\<rparr>)))
     else Some (Done val1 s))"

definition exp3 :: "caller \<Rightarrow> comp" where
  "exp3 call s = and_then (call Exp2 s) (\<lambda>val1. call (Exp3_loop val1))"

definition exp3_loop :: "caller \<Rightarrow> int \<Rightarrow> comp" where
  "exp3_loop call val1 s = (
     if curtok s = PLUS \<or> curtok s = MINUS then
       let op = curtok s in
       and_then (call Readtok s) (\<lambda>_ s. and_then (call Exp2 s) (\<lambda>val2 s.
         call (Exp3_loop (if op = PLUS then to_intmax (val1 + val2) else to_intmax (val1 - val2))) (s\<lparr>lasttok := NUM\<rparr>)))
     else Some (Done val1 s))"

definition exp2 :: "caller \<Rightarrow> comp" where
  "exp2 call s = and_then (call Exppower s) (\<lambda>val1. call (Exp2_loop val1))"

text \<open>
  Division by zero is reported at the operand and is an error unless evaluation is suppressed; the remainder of the
  most negative number by -1 goes on with the loop without setting \<^verbatim>\<open>lasttok\<close>.
\<close>

definition exp2_loop :: "caller \<Rightarrow> int \<Rightarrow> comp" where
  "exp2_loop call val1 s = (
     if curtok s = MUL \<or> curtok s = DIV \<or> curtok s = MOD then
       let op = curtok s; stp = tp s in
       and_then (call Readtok s) (\<lambda>_ s. and_then (call Exppower s) (\<lambda>val2 s.
         if (op = DIV \<or> op = MOD) \<and> val2 = 0 \<and> noeval s = 0
         then evalerror ''division by 0'' (s\<lparr>lasttp := span_end whitespace (expression s) stp\<rparr>)
         else if op = MOD \<and> val1 = INTMAX_MIN \<and> val2 = - 1 then call (Exp2_loop 0) s
         else let val2 = (if (op = DIV \<or> op = MOD) \<and> val2 = 0 then 1
                          else if op = DIV \<and> val1 = INTMAX_MIN \<and> val2 = - 1 then 1 else val2) in
           call (Exp2_loop (
               if op = MUL then to_intmax (val1 * val2)
               else if op = DIV then c_div val1 val2 else c_mod val1 val2)) (s\<lparr>lasttok := NUM\<rparr>)))
     else Some (Done val1 s))"

subsection \<open>Powers, unary operators and operands\<close>

text \<open>The exponent is not negative where \<^verbatim>\<open>ipow\<close> is called.\<close>

fun ipow_loop :: "int \<Rightarrow> int \<Rightarrow> nat \<Rightarrow> int" where
  "ipow_loop result base exp = (
     if exp = 0 then result
     else ipow_loop (if odd exp then to_intmax (result * base) else result) (to_intmax (base * base)) (exp div 2))"

declare ipow_loop.simps [simp del]

definition ipow :: "int \<Rightarrow> int \<Rightarrow> int" where
  "ipow base exp = ipow_loop 1 base (nat exp)"

definition exppower :: "caller \<Rightarrow> comp" where
  "exppower call s = and_then (call Exp1 s) (\<lambda>val1. call (Exppower_loop val1))"

definition exppower_loop :: "caller \<Rightarrow> int \<Rightarrow> comp" where
  "exppower_loop call val1 s = (
     if curtok s = POWER then
       and_then (call Readtok s) (\<lambda>_ s. and_then (call Exppower s) (\<lambda>val2 s.
         let s = s\<lparr>lasttok := NUM\<rparr> in
         if val2 = 0 then Some (Done 1 s)
         else if val2 < 0 then evalerror ''exponent less than 0'' s
         else call (Exppower_loop (ipow val1 val2)) s))
     else Some (Done val1 s))"

definition exp1 :: "caller \<Rightarrow> comp" where
  "exp1 call s = (
     if curtok s = LNOT then
       and_then (call Readtok s) (\<lambda>_ s. and_then (call Exp1 s) (\<lambda>val s. Some (Done (of_bool (val = 0)) (s\<lparr>lasttok := NUM\<rparr>))))
     else if curtok s = BNOT then
       and_then (call Readtok s) (\<lambda>_ s. and_then (call Exp1 s) (\<lambda>val s. Some (Done (NOT val) (s\<lparr>lasttok := NUM\<rparr>))))
     else if curtok s = MINUS then
       and_then (call Readtok s) (\<lambda>_ s. and_then (call Exp1 s) (\<lambda>val s. Some (Done (to_intmax (- val)) (s\<lparr>lasttok := NUM\<rparr>))))
     else if curtok s = PLUS then
       and_then (call Readtok s) (\<lambda>_ s. and_then (call Exp1 s) (\<lambda>val s. Some (Done val (s\<lparr>lasttok := NUM\<rparr>))))
     else call Exp0 s)"

text \<open>What the increments and decrements do once the variable and its old value are known.\<close>

definition exp0_incdec :: "bool \<Rightarrow> int \<Rightarrow> (int \<Rightarrow> comp) \<Rightarrow> comp" where
  "exp0_incdec inc val cont s = (
     let v2 = to_intmax (val + (if inc then 1 else - 1)) in
     case tokstr s of
       None \<Rightarrow> Some (Stop NullString s)
     | Some name \<Rightarrow>
         and_then (if noeval s = 0 then expr_bind_variable name (itos v2) s else Some (Done 0 s)) (\<lambda>_. cont v2))"

definition exp0 :: "caller \<Rightarrow> comp" where
  "exp0 call s = (
     if curtok s = PREINC \<or> curtok s = PREDEC then
       let stok = curtok s in
       and_then (call Readtok (s\<lparr>lasttok := stok\<rparr>)) (\<lambda>_ s.
       if curtok s \<noteq> TSTR then evalerror ''identifier expected after pre-increment or pre-decrement'' s
       else exp0_incdec (stok = PREINC) (tokval s) (\<lambda>v2 s.
         and_then (call Readtok (s\<lparr>curtok := NUM\<rparr>)) (\<lambda>_ s. Some (Done v2 s))) s)
     else if curtok s = LPAR then
       and_then (call Readtok s) (\<lambda>_ s.
       and_then (call Expcomma s) (\<lambda>val s.
       if curtok s \<noteq> RPAR then evalerror (''missing `)'' @ [CHR 0x27]) s
       else and_then (call Readtok s) (\<lambda>_ s. Some (Done val s))))
     else if curtok s = NUM then
       let val = tokval s in and_then (call Readtok s) (\<lambda>_ s. Some (Done val s))
     else if curtok s = TSTR then
       let val = tokval s; ec = SAVETOK s in
       and_then (call Readtok (s\<lparr>tokstr := None, noeval := 1\<rparr>)) (\<lambda>_ p.
       let stok = curtok p in
       if stok = POSTINC \<or> stok = POSTDEC then
         exp0_incdec (stok = POSTINC) val (\<lambda>_ s.
           and_then (call Readtok (s\<lparr>curtok := NUM\<rparr>)) (\<lambda>_ s. Some (Done val s)))
           (p\<lparr>tokstr := ec_tokstr ec, noeval := ec_noeval ec, lasttok := TSTR\<rparr>)
       else and_then (call Readtok (RESTORETOK ec p)) (\<lambda>_ s. Some (Done val s)))
     else evalerror ''syntax error: operand expected'' s)"

subsection \<open>Closing the cycle\<close>

definition body :: "caller \<Rightarrow> caller" where
  "body call p = (case p of
      Readtok \<Rightarrow> readtok call | Expr_streval tok \<Rightarrow> expr_streval call tok | Subexpr e \<Rightarrow> subexpr call e
    | Expcomma \<Rightarrow> expcomma call | Expcomma_loop v \<Rightarrow> expcomma_loop call v | Expassign \<Rightarrow> expassign call
    | Expcond \<Rightarrow> expcond call | Explor \<Rightarrow> explor call | Explor_loop v \<Rightarrow> explor_loop call v
    | Expland \<Rightarrow> expland call | Expland_loop v \<Rightarrow> expland_loop call v
    | Expbor \<Rightarrow> expbor call | Expbor_loop v \<Rightarrow> expbor_loop call v
    | Expbxor \<Rightarrow> expbxor call | Expbxor_loop v \<Rightarrow> expbxor_loop call v
    | Expband \<Rightarrow> expband call | Expband_loop v \<Rightarrow> expband_loop call v
    | Exp5 \<Rightarrow> exp5 call | Exp5_loop v \<Rightarrow> exp5_loop call v | Exp4 \<Rightarrow> exp4 call | Exp4_loop v \<Rightarrow> exp4_loop call v
    | Expshift \<Rightarrow> expshift call | Expshift_loop v \<Rightarrow> expshift_loop call v
    | Exp3 \<Rightarrow> exp3 call | Exp3_loop v \<Rightarrow> exp3_loop call v | Exp2 \<Rightarrow> exp2 call | Exp2_loop v \<Rightarrow> exp2_loop call v
    | Exppower \<Rightarrow> exppower call | Exppower_loop v \<Rightarrow> exppower_loop call v | Exp1 \<Rightarrow> exp1 call | Exp0 \<Rightarrow> exp0 call)"

primrec run :: "nat \<Rightarrow> caller" where
  "run 0 p s = None"
| "run (Suc n) p s = body (run n) p s"

text \<open>
  The caller sees the value with the flag \<^verbatim>\<open>*validp\<close>; the jump for an unbound variable does not return to the caller,
  and an interactive shell unwinds the expression stack first.
\<close>

datatype evaluation = Valid int expr_state | Invalid stop expr_state | TopLevel stop expr_state | Subscripted expr_state | Crashed expr_state

definition evalexp :: "nat \<Rightarrow> bool \<Rightarrow> string \<Rightarrow> expr_state \<Rightarrow> evaluation option" where
  "evalexp n interactive_shell expr s = (case run n (Subexpr expr) (s\<lparr>noeval := 0\<rparr>) of
      None \<Rightarrow> None
    | Some (Done v s) \<Rightarrow> Some (Valid v s)
    | Some (Stop (UnboundVar x) s) \<Rightarrow> Some (TopLevel (UnboundVar x) (if interactive_shell then expr_unwind s else s))
    | Some (Stop SubscriptRef s) \<Rightarrow> Some (Subscripted s)
    | Some (Stop NullString s) \<Rightarrow> Some (Crashed s)
    | Some (Stop e s) \<Rightarrow> Some (Invalid e (expr_unwind (s\<lparr>tokstr := None, expression := []\<rparr>))))"

end
