(* ===== verification/ExprInv.thy ===== *)
theory ExprInv
  imports Expr
begin

text \<open>
  What every procedure of the evaluator keeps, and that evaluation always ends. A total-correctness
  statement \<open>ends m Q S\<close> says that a computation has a result, that \<open>Q\<close> holds when it returns and
  \<open>S\<close> when it is left by a jump. Each procedure is shown to meet its contract \<open>pre\<close>, \<open>post\<close>,
  \<open>stopped\<close> provided the calls it makes do, and each call has a smaller measure: the recursion level
  first, then the text that is left, then the level of precedence.
\<close>

subsection \<open>Total correctness\<close>

definition ends :: "outcome option \<Rightarrow> (int \<Rightarrow> expr_state \<Rightarrow> bool) \<Rightarrow> (stop \<Rightarrow> expr_state \<Rightarrow> bool) \<Rightarrow> bool" where
  "ends m Q S \<longleftrightarrow> (case m of None \<Rightarrow> False | Some (Done v s) \<Rightarrow> Q v s | Some (Stop e s) \<Rightarrow> S e s)"

lemma ends_simps [simp]:
  "ends (Some (Done v s)) Q S \<longleftrightarrow> Q v s" "ends (Some (Stop e s)) Q S \<longleftrightarrow> S e s" "\<not> ends None Q S"
  by (simp_all add: ends_def)

lemma and_then_simps [simp]:
  "and_then (Some (Done v s)) f = f v s" "and_then (Some (Stop e s)) f = Some (Stop e s)" "and_then None f = None"
  "and_then (evalerror msg s) f = evalerror msg s"
  by (simp_all add: and_then_def evalerror_def)

lemma ends_and_then:
  assumes "ends m Q S" and "\<And>v s. Q v s \<Longrightarrow> ends (f v s) R S" shows "ends (and_then m f) R S"
proof (cases m)
  case (Some r)
  then show ?thesis using assms by (cases r) auto
qed (use assms in simp)

lemma if_ends: "(c \<Longrightarrow> ends a Q S) \<Longrightarrow> (\<not> c \<Longrightarrow> ends b Q S) \<Longrightarrow> ends (if c then a else b) Q S"
  by simp

lemma ends_mono:
  assumes "ends m Q S" and "\<And>v s. Q v s \<Longrightarrow> Q' v s" and "\<And>e s. S e s \<Longrightarrow> S' e s" shows "ends m Q' S'"
  using assms by (auto simp: ends_def split: option.splits outcome.splits)

lemma ends_evalerror [simp]: "ends (evalerror msg s) Q S \<longleftrightarrow> S (EvalError msg (drop (lasttp s) (expression s))) s"
  by (simp add: evalerror_def)

lemma ends_token_read [simp]: "ends (token_read t cp s) Q S \<longleftrightarrow> Q 0 (s\<lparr>lasttok := curtok s, curtok := t, tp := cp\<rparr>)"
  by (simp add: token_read_def)

subsection \<open>The contract\<close>

text \<open>The text not yet read, and the same with the token that has been read but not consumed.\<close>

definition unread :: "expr_state \<Rightarrow> nat" where
  "unread s = length (expression s) - tp s"

definition pending :: "expr_state \<Rightarrow> nat" where
  "pending s = unread s + (if curtok s = TOK0 then 0 else 1)"

text \<open>\<open>M\<close> bounds the expression and the values of the variables.\<close>

definition short_vars :: "nat \<Rightarrow> expr_state \<Rightarrow> bool" where
  "short_vars M s \<longleftrightarrow> (\<forall>x v t. vars s x = Some v \<longrightarrow> var_value v = Some t \<longrightarrow> length t \<le> M)"

definition sound :: "nat \<Rightarrow> expr_state \<Rightarrow> bool" where
  "sound M s \<longleftrightarrow> tp s \<le> length (expression s) \<and> length (expression s) \<le> M \<and> 21 \<le> M \<and>
     intmax (tokval s) \<and> 0 \<le> noeval s \<and> short_vars M s"

definition at_assign :: "expr_state \<Rightarrow> bool" where
  "at_assign s \<longleftrightarrow> curtok s = EQ \<or> curtok s = OP_ASSIGN"

text \<open>The name of a variable is there whenever a name is the current token or is about to be assigned.\<close>

definition named :: "expr_state \<Rightarrow> bool" where
  "named s \<longleftrightarrow> (curtok s = TSTR \<or> lasttok s = TSTR \<and> at_assign s \<longrightarrow> tokstr s \<noteq> None)"

definition link :: "expr_state \<Rightarrow> expr_state \<Rightarrow> bool" where
  "link s s' \<longleftrightarrow> expression s' = expression s \<and> expr_stack s' = expr_stack s \<and>
     unbound_vars_is_error s' = unbound_vars_is_error s \<and> tp s \<le> tp s' \<and>
     (0 < noeval s \<longrightarrow> 0 < noeval s' \<and> vars s' = vars s)"

fun loop_value :: "proc \<Rightarrow> int option" where
  "loop_value (Expcomma_loop v) = Some v" | "loop_value (Explor_loop v) = Some v" | "loop_value (Expland_loop v) = Some v"
| "loop_value (Expbor_loop v) = Some v" | "loop_value (Expbxor_loop v) = Some v" | "loop_value (Expband_loop v) = Some v"
| "loop_value (Exp5_loop v) = Some v" | "loop_value (Exp4_loop v) = Some v" | "loop_value (Expshift_loop v) = Some v"
| "loop_value (Exp3_loop v) = Some v" | "loop_value (Exp2_loop v) = Some v" | "loop_value (Exppower_loop v) = Some v"
| "loop_value _ = None"

fun pre :: "nat \<Rightarrow> proc \<Rightarrow> expr_state \<Rightarrow> bool" where
  "pre M (Expr_streval x) s \<longleftrightarrow> sound M s"
| "pre M (Subexpr e) s \<longleftrightarrow> sound M s \<and> length e \<le> M"
| "pre M Readtok s \<longleftrightarrow> sound M s"
| "pre M (Expcomma_loop v) s \<longleftrightarrow> sound M s \<and> intmax v \<and> \<not> at_assign s"
| "pre M p s \<longleftrightarrow> sound M s \<and> named s \<and> (\<forall>v. loop_value p = Some v \<longrightarrow> intmax v)"

text \<open>
  A token moves on; an operand consumes at least the current token; an assignment is never left
  before an assignment operator; a nested evaluation leaves the token state as it was.
\<close>

fun progress :: "proc \<Rightarrow> expr_state \<Rightarrow> expr_state \<Rightarrow> bool" where
  "progress Readtok s s' \<longleftrightarrow> pending s' \<le> unread s \<and> (named s \<longrightarrow> named s') \<and> lasttok s' = curtok s"
| "progress (Expr_streval x) s s' \<longleftrightarrow> s' = s\<lparr>vars := vars s', assigntok := assigntok s'\<rparr>"
| "progress (Subexpr e) s s' \<longleftrightarrow> s' = s\<lparr>vars := vars s', assigntok := assigntok s'\<rparr>"
| "progress Expcomma s s' \<longleftrightarrow> pending s' < pending s \<and> \<not> at_assign s'"
| "progress Expassign s s' \<longleftrightarrow> pending s' < pending s \<and> \<not> at_assign s'"
| "progress (Expcomma_loop v) s s' \<longleftrightarrow> pending s' \<le> pending s \<and> \<not> at_assign s'"
| "progress p s s' \<longleftrightarrow> (if loop_value p = None then pending s' < pending s else pending s' \<le> pending s) \<and> named s'"

definition post :: "nat \<Rightarrow> proc \<Rightarrow> expr_state \<Rightarrow> int \<Rightarrow> expr_state \<Rightarrow> bool" where
  "post M p s v s' \<longleftrightarrow> sound M s' \<and> link s s' \<and> noeval s' = noeval s \<and> intmax v \<and> progress p s s'"

definition stopped :: "expr_state \<Rightarrow> stop \<Rightarrow> expr_state \<Rightarrow> bool" where
  "stopped s e s' \<longleftrightarrow> e \<noteq> NullString \<and> (0 < noeval s \<longrightarrow> vars s' = vars s)"

fun rank :: "proc \<Rightarrow> nat" where
  "rank Exp0 = 3" | "rank Exp1 = 4" | "rank Exppower = 5" | "rank Exp2 = 6" | "rank Exp3 = 7" | "rank Expshift = 8"
| "rank Exp4 = 9" | "rank Exp5 = 10" | "rank Expband = 11" | "rank Expbxor = 12" | "rank Expbor = 13"
| "rank Expland = 14" | "rank Explor = 15" | "rank Expcond = 16" | "rank Expassign = 17" | "rank Expcomma = 18"
| "rank _ = 0"

definition below :: "nat \<Rightarrow> expr_state \<Rightarrow> nat" where
  "below M s = (MAX_EXPR_RECURSION_LEVEL - length (expr_stack s)) * (64 * (M + 2))"

fun fuel :: "nat \<Rightarrow> proc \<Rightarrow> expr_state \<Rightarrow> nat" where
  "fuel M (Subexpr e) s = below M s"
| "fuel M (Expr_streval x) s = below M s + 1"
| "fuel M Readtok s = below M s + 64 * unread s + 2"
| "fuel M p s = below M s + 64 * pending s + rank p"

lemma link_refl [simp]: "link s s"
  by (simp add: link_def)

lemma link_trans: "link s t \<Longrightarrow> link t u \<Longrightarrow> link s u"
  by (auto simp: link_def)

lemma stopped_link: "link s t \<Longrightarrow> stopped t e u \<Longrightarrow> stopped s e u"
  by (auto simp: link_def stopped_def)

lemma pending_pos: "pending s = (if curtok s = TOK0 then unread s else Suc (unread s))"
  by (simp add: pending_def)

lemma unread_less: "curtok s \<noteq> TOK0 \<Longrightarrow> unread s < pending s"
  by (simp add: pending_def)

subsection \<open>Operands and loops\<close>

definition operand :: "proc \<Rightarrow> bool" where
  "operand p \<longleftrightarrow> p \<in> {Expcond, Explor, Expland, Expbor, Expbxor, Expband, Exp5, Exp4, Expshift, Exp3, Exp2, Exppower, Exp1, Exp0}"

definition loop :: "(int \<Rightarrow> proc) \<Rightarrow> bool" where
  "loop l \<longleftrightarrow> l \<in> {Explor_loop, Expland_loop, Expbor_loop, Expbxor_loop, Expband_loop, Exp5_loop, Exp4_loop,
     Expshift_loop, Exp3_loop, Exp2_loop, Exppower_loop}"

lemma operands [simp]:
  "operand Expcond" "operand Explor" "operand Expland" "operand Expbor" "operand Expbxor" "operand Expband" "operand Exp5"
  "operand Exp4" "operand Expshift" "operand Exp3" "operand Exp2" "operand Exppower" "operand Exp1" "operand Exp0"
  by (simp_all add: operand_def)

lemma loops [simp]:
  "loop Explor_loop" "loop Expland_loop" "loop Expbor_loop" "loop Expbxor_loop" "loop Expband_loop" "loop Exp5_loop"
  "loop Exp4_loop" "loop Expshift_loop" "loop Exp3_loop" "loop Exp2_loop" "loop Exppower_loop"
  by (simp_all add: loop_def)

lemma operand_contract:
  assumes "operand p"
  shows "pre M p s \<longleftrightarrow> sound M s \<and> named s" and "progress p s s' \<longleftrightarrow> pending s' < pending s \<and> named s'"
    and "fuel M p s = below M s + 64 * pending s + rank p"
  using assms by (auto simp: operand_def)

lemma loop_contract:
  assumes "loop l"
  shows "pre M (l v) s \<longleftrightarrow> sound M s \<and> named s \<and> intmax v" and "progress (l v) s s' \<longleftrightarrow> pending s' \<le> pending s \<and> named s'"
    and "fuel M (l v) s = below M s + 64 * pending s"
  using assms by (auto simp: loop_def)

lemma named_lasttok [simp]: "named s \<Longrightarrow> t \<noteq> TSTR \<Longrightarrow> named (s\<lparr>lasttok := t\<rparr>)"
  by (auto simp: named_def at_assign_def)

text \<open>Updates that do not touch what a predicate reads.\<close>

lemma frame_simps [simp]:
  "sound M (s\<lparr>lasttok := t\<rparr>) \<longleftrightarrow> sound M s" "pending (s\<lparr>lasttok := t\<rparr>) = pending s"
  "below M (s\<lparr>lasttok := t\<rparr>) = below M s" "unread (s\<lparr>lasttok := t\<rparr>) = unread s"
  "link s (t'\<lparr>lasttok := t\<rparr>) \<longleftrightarrow> link s t'" "at_assign (s\<lparr>lasttok := t\<rparr>) \<longleftrightarrow> at_assign s"
  "pending (s\<lparr>noeval := n\<rparr>) = pending s" "below M (s\<lparr>noeval := n\<rparr>) = below M s" "unread (s\<lparr>noeval := n\<rparr>) = unread s"
  "named (s\<lparr>noeval := n\<rparr>) \<longleftrightarrow> named s" "at_assign (s\<lparr>noeval := n\<rparr>) \<longleftrightarrow> at_assign s"
  "sound M (s\<lparr>tokstr := x\<rparr>) \<longleftrightarrow> sound M s" "pending (s\<lparr>tokstr := x\<rparr>) = pending s" "unread (s\<lparr>tokstr := x\<rparr>) = unread s"
  "sound M (s\<lparr>curtok := c\<rparr>) \<longleftrightarrow> sound M s" "unread (s\<lparr>curtok := c\<rparr>) = unread s" "link s (t'\<lparr>curtok := c\<rparr>) \<longleftrightarrow> link s t'"
  "link s (t'\<lparr>tokstr := x\<rparr>) \<longleftrightarrow> link s t'" "at_assign (s\<lparr>tokstr := x\<rparr>) \<longleftrightarrow> at_assign s"
  by (auto simp: sound_def pending_def unread_def below_def link_def at_assign_def named_def short_vars_def)

lemma sound_noeval [simp]: "sound M s \<Longrightarrow> 0 \<le> n \<Longrightarrow> sound M (s\<lparr>noeval := n\<rparr>)"
  by (auto simp: sound_def short_vars_def)

lemma link_noeval: "link s t \<Longrightarrow> 0 < noeval s \<longrightarrow> 0 < n \<Longrightarrow> link s (t\<lparr>noeval := n\<rparr>)"
  by (auto simp: link_def)

lemma below_link: "link s t \<Longrightarrow> below M t = below M s"
  by (simp add: link_def below_def)

subsection \<open>Procedures that call procedures\<close>

text \<open>
  The interface between a procedure and the calls it makes: every call with enough fuel meets its
  contract.
\<close>

locale evaluator =
  fixes M :: nat and call :: caller and m :: nat
  assumes meets: "pre M p s \<Longrightarrow> fuel M p s < m \<Longrightarrow> ends (call p s) (post M p s) (stopped s)"
begin

lemma tail_rule:
  assumes "pre M p t" and "fuel M p t < m" and "link s t" and "\<And>v u. post M p t v u \<Longrightarrow> Q v u"
  shows "ends (call p t) Q (stopped s)"
  by (rule ends_mono [OF meets [OF assms(1,2)] assms(4) stopped_link [OF assms(3)]])

lemma call_rule:
  assumes "pre M p t" and "fuel M p t < m" and "link s t" and "\<And>v u. post M p t v u \<Longrightarrow> ends (f v u) Q (stopped s)"
  shows "ends (and_then (call p t) f) Q (stopped s)"
  by (rule ends_and_then [OF tail_rule [OF assms(1-3)], of "post M p t"]) (use assms(4) in auto)

text \<open>A function of the form \<^verbatim>\<open>val1 = next (); while ...\<close>.\<close>

lemma level_meets:
  assumes "operand p" and "operand q" and "rank q < rank p" and "loop l" and "pre M p s" and "fuel M p s \<le> m"
  shows "ends (and_then (call q s) (\<lambda>v. call (l v))) (post M p s) (stopped s)"
proof (rule call_rule)
  fix v u assume u: "post M q s v u"
  show "ends (call (l v) u) (post M p s) (stopped s)"
  proof (rule tail_rule)
    show "pre M (l v) u" "fuel M (l v) u < m" "link s u"
      using u assms by (auto simp: post_def operand_contract loop_contract below_link)
    show "post M p s w x" if "post M (l v) u w x" for w x
      using that u assms by (auto simp: post_def operand_contract loop_contract intro: link_trans)
  qed
qed (use assms in \<open>auto simp: operand_contract\<close>)

text \<open>One round of such a loop: the operator is skipped and an operand is read, at level \<open>n\<close> of \<^verbatim>\<open>noeval\<close>.\<close>

lemma round_meets:
  assumes "operand q" and "loop l" and "pre M (l v) s" and "fuel M (l v) s \<le> m" and "curtok s \<noteq> TOK0" and "noeval s \<le> n"
    and "\<And>w u. sound M u \<Longrightarrow> named u \<Longrightarrow> link s u \<Longrightarrow> noeval u = n \<Longrightarrow> intmax w \<Longrightarrow> pending u < pending s \<Longrightarrow>
      ends (k w u) (post M (l v) s) (stopped s)"
  shows "ends (and_then (call Readtok (s\<lparr>noeval := n\<rparr>)) (\<lambda>_ t. and_then (call q t) k)) (post M (l v) s) (stopped s)"
proof (rule call_rule)
  have s: "sound M s" "named s" "0 \<le> n" using assms by (auto simp: loop_contract sound_def)
  show l: "link s (s\<lparr>noeval := n\<rparr>)" using assms(6) by (intro link_noeval) auto
  show "pre M Readtok (s\<lparr>noeval := n\<rparr>)" "fuel M Readtok (s\<lparr>noeval := n\<rparr>) < m"
    using s assms by (simp_all add: loop_contract pending_pos)
  fix w t assume t: "post M Readtok (s\<lparr>noeval := n\<rparr>) w t"
  then have t': "sound M t" "named t" "link s t" "noeval t = n" "pending t \<le> unread s"
    using link_trans [OF l] s(2) by (auto simp: post_def)
  show "ends (and_then (call q t) k) (post M (l v) s) (stopped s)"
  proof (rule call_rule)
    show "pre M q t" "link s t" using t' assms(1) by (simp_all add: operand_contract)
    have "rank q < 64" using assms(1) by (auto simp: operand_def)
    then show "fuel M q t < m" using t' assms by (simp add: operand_contract loop_contract below_link pending_pos)
    fix x u assume "post M q t x u"
    then show "ends (k x u) (post M (l v) s) (stopped s)"
      using t' assms(1,5) by (intro assms(7)) (auto simp: post_def operand_contract pending_pos intro: link_trans)
  qed
qed

lemma again_meets:
  assumes "loop l" and "pre M (l v) s" and "fuel M (l v) s \<le> m"
    and "sound M u" and "named u" and "link s u" and "noeval u = noeval s" and "intmax w" and "pending u < pending s"
  shows "ends (call (l w) u) (post M (l v) s) (stopped s)"
  using assms by (intro tail_rule) (auto simp: loop_contract below_link post_def intro: link_trans)

end

context evaluator
begin

lemma loop_exit: "loop l \<Longrightarrow> pre M (l v) s \<Longrightarrow> post M (l v) s v s"
  by (simp add: loop_contract post_def)

lemma plain_round:
  assumes "operand q" and "loop l" and "pre M (l v) s" and "fuel M (l v) s \<le> m" and "curtok s \<noteq> TOK0"
    and "\<And>w u. sound M u \<Longrightarrow> named u \<Longrightarrow> link s u \<Longrightarrow> noeval u = noeval s \<Longrightarrow> intmax w \<Longrightarrow> pending u < pending s \<Longrightarrow>
      ends (k w u) (post M (l v) s) (stopped s)"
  shows "ends (and_then (call Readtok s) (\<lambda>_ t. and_then (call q t) k)) (post M (l v) s) (stopped s)"
  using round_meets [OF assms(1-5), of "noeval s" k] assms(6) by simp

lemma plain_loop:
  assumes "operand q" and "loop l" and "pre M (l v) s" and "fuel M (l v) s \<le> m" and "c \<Longrightarrow> curtok s \<noteq> TOK0"
    and "\<And>w. intmax w \<Longrightarrow> intmax (f w)"
  shows "ends (if c then and_then (call Readtok s) (\<lambda>_ t. and_then (call q t) (\<lambda>w u. call (l (f w)) (u\<lparr>lasttok := NUM\<rparr>)))
    else Some (Done v s)) (post M (l v) s) (stopped s)"
proof (cases c)
  case True
  have "ends (call (l (f w)) (u\<lparr>lasttok := NUM\<rparr>)) (post M (l v) s) (stopped s)"
    if "sound M u" "named u" "link s u" "noeval u = noeval s" "intmax w" "pending u < pending s" for w u
    using that assms by (intro again_meets) simp_all
  then show ?thesis unfolding if_P [OF True] by (rule plain_round [OF assms(1-4) assms(5) [OF True]])
qed (use assms loop_exit in simp)

lemma levels_meet:
  "pre M Explor s \<Longrightarrow> fuel M Explor s \<le> m \<Longrightarrow> ends (explor call s) (post M Explor s) (stopped s)"
  "pre M Expland s \<Longrightarrow> fuel M Expland s \<le> m \<Longrightarrow> ends (expland call s) (post M Expland s) (stopped s)"
  "pre M Expbor s \<Longrightarrow> fuel M Expbor s \<le> m \<Longrightarrow> ends (expbor call s) (post M Expbor s) (stopped s)"
  "pre M Expbxor s \<Longrightarrow> fuel M Expbxor s \<le> m \<Longrightarrow> ends (expbxor call s) (post M Expbxor s) (stopped s)"
  "pre M Expband s \<Longrightarrow> fuel M Expband s \<le> m \<Longrightarrow> ends (expband call s) (post M Expband s) (stopped s)"
  "pre M Exp5 s \<Longrightarrow> fuel M Exp5 s \<le> m \<Longrightarrow> ends (exp5 call s) (post M Exp5 s) (stopped s)"
  "pre M Exp4 s \<Longrightarrow> fuel M Exp4 s \<le> m \<Longrightarrow> ends (exp4 call s) (post M Exp4 s) (stopped s)"
  "pre M Expshift s \<Longrightarrow> fuel M Expshift s \<le> m \<Longrightarrow> ends (expshift call s) (post M Expshift s) (stopped s)"
  "pre M Exp3 s \<Longrightarrow> fuel M Exp3 s \<le> m \<Longrightarrow> ends (exp3 call s) (post M Exp3 s) (stopped s)"
  "pre M Exp2 s \<Longrightarrow> fuel M Exp2 s \<le> m \<Longrightarrow> ends (exp2 call s) (post M Exp2 s) (stopped s)"
  "pre M Exppower s \<Longrightarrow> fuel M Exppower s \<le> m \<Longrightarrow> ends (exppower call s) (post M Exppower s) (stopped s)"
  unfolding explor_def expland_def expbor_def expbxor_def expband_def exp5_def exp4_def expshift_def exp3_def exp2_def exppower_def
  by (rule level_meets; simp)+

lemma plain_loops_meet:
  "pre M (Expbor_loop v) s \<Longrightarrow> fuel M (Expbor_loop v) s \<le> m \<Longrightarrow> ends (expbor_loop call v s) (post M (Expbor_loop v) s) (stopped s)"
  "pre M (Expbxor_loop v) s \<Longrightarrow> fuel M (Expbxor_loop v) s \<le> m \<Longrightarrow> ends (expbxor_loop call v s) (post M (Expbxor_loop v) s) (stopped s)"
  "pre M (Expband_loop v) s \<Longrightarrow> fuel M (Expband_loop v) s \<le> m \<Longrightarrow> ends (expband_loop call v s) (post M (Expband_loop v) s) (stopped s)"
  "pre M (Exp5_loop v) s \<Longrightarrow> fuel M (Exp5_loop v) s \<le> m \<Longrightarrow> ends (exp5_loop call v s) (post M (Exp5_loop v) s) (stopped s)"
  "pre M (Exp4_loop v) s \<Longrightarrow> fuel M (Exp4_loop v) s \<le> m \<Longrightarrow> ends (exp4_loop call v s) (post M (Exp4_loop v) s) (stopped s)"
  "pre M (Expshift_loop v) s \<Longrightarrow> fuel M (Expshift_loop v) s \<le> m \<Longrightarrow> ends (expshift_loop call v s) (post M (Expshift_loop v) s) (stopped s)"
  "pre M (Exp3_loop v) s \<Longrightarrow> fuel M (Exp3_loop v) s \<le> m \<Longrightarrow> ends (exp3_loop call v s) (post M (Exp3_loop v) s) (stopped s)"
  unfolding expbor_loop_def expbxor_loop_def expband_loop_def exp5_loop_def exp4_loop_def expshift_loop_def exp3_loop_def Let_def
  by (rule plain_loop; auto)+

lemma short_circuit_loop:
  assumes "operand q" and "loop l" and "pre M (l v) s" and "fuel M (l v) s \<le> m" and "c \<Longrightarrow> curtok s \<noteq> TOK0"
    and "\<And>w. intmax (f w)" and "lt \<noteq> TSTR"
  shows "ends (if c then and_then (call Readtok (if quiet then s\<lparr>noeval := noeval s + 1\<rparr> else s)) (\<lambda>_ t. and_then (call q t)
      (\<lambda>w u. call (l (f w)) ((if quiet then u\<lparr>noeval := noeval u - 1\<rparr> else u)\<lparr>lasttok := lt\<rparr>)))
    else Some (Done v s)) (post M (l v) s) (stopped s)"
proof (cases c)
  case True
  let ?n = "if quiet then noeval s + 1 else noeval s"
  have "0 \<le> noeval s" using assms(2,3) by (auto simp: loop_contract sound_def)
  then have "ends (call (l (f w)) ((if quiet then u\<lparr>noeval := noeval u - 1\<rparr> else u)\<lparr>lasttok := lt\<rparr>)) (post M (l v) s) (stopped s)"
    if "sound M u" "named u" "link s u" "noeval u = ?n" "pending u < pending s" for w u
    using that assms by (intro again_meets) (auto intro: link_noeval)
  moreover have start: "(if quiet then s\<lparr>noeval := noeval s + 1\<rparr> else s) = s\<lparr>noeval := ?n\<rparr>" by simp
  ultimately show ?thesis
    unfolding if_P [OF True] start by (intro round_meets [OF assms(1-4) assms(5) [OF True]]) simp_all
qed (use assms loop_exit in simp)

lemma short_circuit_loops_meet:
  "pre M (Explor_loop v) s \<Longrightarrow> fuel M (Explor_loop v) s \<le> m \<Longrightarrow> ends (explor_loop call v s) (post M (Explor_loop v) s) (stopped s)"
  "pre M (Expland_loop v) s \<Longrightarrow> fuel M (Expland_loop v) s \<le> m \<Longrightarrow> ends (expland_loop call v s) (post M (Expland_loop v) s) (stopped s)"
  unfolding explor_loop_def expland_loop_def Let_def by (rule short_circuit_loop; auto)+

lemma exp2_loop_meets:
  assumes "pre M (Exp2_loop v) s" and "fuel M (Exp2_loop v) s \<le> m"
  shows "ends (exp2_loop call v s) (post M (Exp2_loop v) s) (stopped s)"
proof (cases "curtok s = MUL \<or> curtok s = DIV \<or> curtok s = MOD")
  case True
  have v: "intmax v" using assms(1) by (simp add: loop_contract)
  show ?thesis
    unfolding exp2_loop_def if_P [OF True] Let_def
  proof (rule plain_round, goal_cases)
    case (6 w u)
    have "ends (call (Exp2_loop x) (u\<lparr>lasttok := NUM\<rparr>)) (post M (Exp2_loop v) s) (stopped s)"
      "ends (call (Exp2_loop x) u) (post M (Exp2_loop v) s) (stopped s)" if "intmax x" for x
      using 6 that assms by (intro again_meets; simp)+
    moreover have "intmax (c_div v w')" if "\<not> (v = INTMAX_MIN \<and> w' = - 1)" for w' using intmax_c_div [OF v that] .
    ultimately show ?case using 6 v by (auto simp: stopped_def link_def)
  qed (use assms True in auto)
qed (use assms loop_exit in \<open>simp add: exp2_loop_def\<close>)

lemma intmax_ipow_loop: "intmax r \<Longrightarrow> intmax (ipow_loop r b e)"
proof (induction r b e rule: ipow_loop.induct)
  case (1 r b e)
  then show ?case by (subst ipow_loop.simps) auto
qed

lemma exppower_loop_meets:
  assumes "pre M (Exppower_loop v) s" and "fuel M (Exppower_loop v) s \<le> m"
  shows "ends (exppower_loop call v s) (post M (Exppower_loop v) s) (stopped s)"
proof (cases "curtok s = POWER")
  case True
  show ?thesis
    unfolding exppower_loop_def if_P [OF True] Let_def
  proof (rule plain_round, goal_cases)
    case (6 w u)
    have "ends (call (Exppower_loop (ipow v w)) (u\<lparr>lasttok := NUM\<rparr>)) (post M (Exppower_loop v) s) (stopped s)"
      using 6 assms by (intro again_meets) (simp_all add: ipow_def intmax_ipow_loop)
    then show ?case using 6 by (auto simp: stopped_def link_def post_def)
  qed (use assms True in auto)
qed (use assms loop_exit in \<open>simp add: exppower_loop_def\<close>)

end

context evaluator
begin

text \<open>
  The rules for the remaining procedures: what a caller at \<open>s\<close> knows after reading a token, an
  operand or an assignment from a state \<open>t\<close>.
\<close>

lemma read_rule:
  assumes "sound M t" and "link s t" and "below M s + 64 * unread t + 2 < m"
    and "\<And>v u. sound M u \<Longrightarrow> (named t \<longrightarrow> named u) \<Longrightarrow> link t u \<Longrightarrow> link s u \<Longrightarrow> noeval u = noeval t \<Longrightarrow> pending u \<le> unread t \<Longrightarrow> lasttok u = curtok t \<Longrightarrow>
      ends (f v u) Q (stopped s)"
  shows "ends (and_then (call Readtok t) f) Q (stopped s)"
  using assms by (intro call_rule) (auto simp: post_def below_link dest: link_trans)

lemma operand_rule:
  assumes "operand q" and "sound M t" and "named t" and "link s t" and "below M s + 64 * pending t + rank q < m"
    and "\<And>v u. sound M u \<Longrightarrow> named u \<Longrightarrow> link s u \<Longrightarrow> noeval u = noeval t \<Longrightarrow> pending u < pending t \<Longrightarrow> intmax v \<Longrightarrow>
      ends (f v u) Q (stopped s)"
  shows "ends (and_then (call q t) f) Q (stopped s)"
  using assms by (intro call_rule) (auto simp: post_def below_link operand_contract dest: link_trans)

lemma assign_rule:
  assumes "q = Expcomma \<or> q = Expassign" and "sound M t" and "named t" and "link s t" and "below M s + 64 * pending t + rank q < m"
    and "\<And>v u. sound M u \<Longrightarrow> \<not> at_assign u \<Longrightarrow> link s u \<Longrightarrow> noeval u = noeval t \<Longrightarrow> pending u < pending t \<Longrightarrow> intmax v \<Longrightarrow>
      ends (f v u) Q (stopped s)"
  shows "ends (and_then (call q t) f) Q (stopped s)"
  using assms by (intro call_rule) (auto simp: post_def below_link dest: link_trans)

lemma named_unless: "\<not> at_assign u \<Longrightarrow> curtok u \<noteq> TSTR \<Longrightarrow> named u"
  by (auto simp: named_def)

lemma exp1_meets:
  assumes "pre M Exp1 s" and "fuel M Exp1 s \<le> m"
  shows "ends (exp1 call s) (post M Exp1 s) (stopped s)"
proof -
  have s: "sound M s" "named s" using assms by auto
  have unary: "ends (and_then (call Readtok s) (\<lambda>_ s. and_then (call Exp1 s) (\<lambda>v s. Some (Done (f v) (s\<lparr>lasttok := NUM\<rparr>)))))
      (post M Exp1 s) (stopped s)" if "curtok s \<noteq> TOK0" "\<And>v. intmax v \<Longrightarrow> intmax (f v)" for f
  proof (rule read_rule, goal_cases)
    case (4 v t)
    then show ?case
      using assms that by (intro operand_rule) (auto simp: pending_pos post_def)
  qed (use s assms that in \<open>auto simp: pending_pos\<close>)
  have "ends (call Exp0 s) (post M Exp1 s) (stopped s)"
    using assms by (intro tail_rule) (auto simp: post_def)
  then show ?thesis unfolding exp1_def by (auto intro!: unary)
qed

text \<open>Raising \<^verbatim>\<open>noeval\<close> around a branch that is not selected, and lowering it again.\<close>

lemma raised:
  assumes "sound M u"
  shows "sound M (if b then u\<lparr>noeval := noeval u + 1\<rparr> else u)" "named (if b then u\<lparr>noeval := noeval u + 1\<rparr> else u) \<longleftrightarrow> named u"
    "pending (if b then u\<lparr>noeval := noeval u + 1\<rparr> else u) = pending u"
    "link s u \<Longrightarrow> link s (if b then u\<lparr>noeval := noeval u + 1\<rparr> else u)"
  using assms sound_noeval [OF assms, of "noeval u + 1"] by (auto simp: sound_def intro: link_noeval)

lemma lowered:
  assumes "sound M u" and "link s u" and "noeval u = (if b then n + 1 else n)" and "0 \<le> n" and "0 < noeval s \<longrightarrow> 0 < n"
  shows "sound M (if b then u\<lparr>noeval := noeval u - 1\<rparr> else u)" "link s (if b then u\<lparr>noeval := noeval u - 1\<rparr> else u)"
    "pending (if b then u\<lparr>noeval := noeval u - 1\<rparr> else u) = pending u" "unread (if b then u\<lparr>noeval := noeval u - 1\<rparr> else u) = unread u"
    "noeval (if b then u\<lparr>noeval := noeval u - 1\<rparr> else u) = n" "at_assign (if b then u\<lparr>noeval := noeval u - 1\<rparr> else u) \<longleftrightarrow> at_assign u"
    "named (if b then u\<lparr>noeval := noeval u - 1\<rparr> else u) \<longleftrightarrow> named u"
    "curtok (if b then u\<lparr>noeval := noeval u - 1\<rparr> else u) = curtok u"
  using assms by (auto intro: link_noeval)

lemma expcond_else:
  assumes "sound M t" and "named t" and "link s t" and "noeval t = noeval s" and "below M s + 64 * pending t + 16 < m"
    and "pending t < pending s" and "intmax v"
  shows "ends (and_then (call Expcond (if b then t\<lparr>noeval := noeval t + 1\<rparr> else t)) (\<lambda>w u.
    Some (Done (if b then v else w) ((if b then u\<lparr>noeval := noeval u - 1\<rparr> else u)\<lparr>lasttok := COND\<rparr>))))
    (post M Expcond s) (stopped s)"
proof (rule operand_rule, goal_cases)
  case (6 w u)
  have "noeval u = (if b then noeval s + 1 else noeval s)" using 6(4) assms(4) by simp
  moreover have "0 \<le> noeval s" using assms(1,4) by (simp add: sound_def)
  ultimately have "sound M (if b then u\<lparr>noeval := noeval u - 1\<rparr> else u)" "link s (if b then u\<lparr>noeval := noeval u - 1\<rparr> else u)"
    "pending (if b then u\<lparr>noeval := noeval u - 1\<rparr> else u) = pending u" "noeval (if b then u\<lparr>noeval := noeval u - 1\<rparr> else u) = noeval s"
    "named (if b then u\<lparr>noeval := noeval u - 1\<rparr> else u)"
    using lowered [OF 6(1,3)] 6(2) by simp_all
  then show ?case using 6(5,6) assms by (simp add: post_def raised)
qed (use assms raised in simp_all)

lemma expcond_colon:
  assumes "sound M t" and "\<not> at_assign t" and "link s t" and "noeval t = noeval s" and "below M s + 64 * pending s + 16 \<le> m"
    and "pending t < pending s" and "intmax v"
  shows "ends (if curtok t \<noteq> COL then evalerror msg t else and_then (call Readtok t) (\<lambda>_ s.
       if curtok s = TOK0 then evalerror msg' s
       else and_then (call Expcond (if b then s\<lparr>noeval := noeval s + 1\<rparr> else s)) (\<lambda>w s.
       Some (Done (if b then v else w) ((if b then s\<lparr>noeval := noeval s - 1\<rparr> else s)\<lparr>lasttok := COND\<rparr>)))))
    (post M Expcond s) (stopped s)"
proof (cases "curtok t = COL")
  case True
  then have "ends (and_then (call Readtok t) (\<lambda>_ s.
       if curtok s = TOK0 then evalerror msg' s
       else and_then (call Expcond (if b then s\<lparr>noeval := noeval s + 1\<rparr> else s)) (\<lambda>w s.
       Some (Done (if b then v else w) ((if b then s\<lparr>noeval := noeval s - 1\<rparr> else s)\<lparr>lasttok := COND\<rparr>)))))
    (post M Expcond s) (stopped s)"
  proof (intro read_rule, goal_cases)
    case (4 v' u)
    have "pending u < pending t" using unread_less [of t] True 4(7) by simp
    then have "ends (and_then (call Expcond (if b then u\<lparr>noeval := noeval u + 1\<rparr> else u)) (\<lambda>w s.
       Some (Done (if b then v else w) ((if b then s\<lparr>noeval := noeval s - 1\<rparr> else s)\<lparr>lasttok := COND\<rparr>))))
      (post M Expcond s) (stopped s)" using 4 assms True named_unless [of t] by (intro expcond_else) auto
    then show ?case using 4 by (auto simp: stopped_def link_def)
  qed (use assms named_unless [of t] unread_less [of t] True in auto)
  then show ?thesis using True by simp
qed (use assms in \<open>simp add: stopped_def link_def\<close>)

lemma expcond_question:
  assumes "sound M t" and "named t" and "link s t" and "noeval t = noeval s" and "below M s + 64 * pending s + 16 \<le> m"
    and "curtok t = QUES" and "pending t < pending s"
    and f: "\<And>v u. sound M u \<Longrightarrow> \<not> at_assign u \<Longrightarrow> link s u \<Longrightarrow> noeval u = noeval s \<Longrightarrow> pending u < pending s \<Longrightarrow> intmax v \<Longrightarrow>
      ends (f v u) (post M Expcond s) (stopped s)"
  shows "ends (and_then (call Readtok t) (\<lambda>_ s. if curtok s = TOK0 \<or> curtok s = COL then evalerror msg s
       else and_then (call Expcomma (if b then s\<lparr>noeval := noeval s + 1\<rparr> else s)) (\<lambda>v s. f v (if b then s\<lparr>noeval := noeval s - 1\<rparr> else s))))
    (post M Expcond s) (stopped s)"
proof (rule read_rule, goal_cases)
  case (4 v u)
  have pu: "pending u < pending t" using unread_less [of t] assms(6) 4(6) by simp
  have "ends (and_then (call Expcomma (if b then u\<lparr>noeval := noeval u + 1\<rparr> else u)) (\<lambda>v s. f v (if b then s\<lparr>noeval := noeval s - 1\<rparr> else s)))
    (post M Expcond s) (stopped s)"
  proof (rule assign_rule, goal_cases)
    case (6 w x)
    have "noeval x = (if b then noeval s + 1 else noeval s)" using 6(4) 4(5) assms(4) by simp
    moreover have "0 \<le> noeval s" using assms(1,4) by (simp add: sound_def)
    ultimately show ?case
      using lowered [OF 6(1,3)] 6 pu assms(7) raised [OF 4(1)] by (intro f) simp_all
  qed (use raised 4 pu assms in auto)
  then show ?case using 4 by (auto simp: stopped_def link_def)
qed (use assms unread_less [of t] in auto)

lemma expcond_meets:
  assumes "pre M Expcond s" and "fuel M Expcond s \<le> m"
  shows "ends (expcond call s) (post M Expcond s) (stopped s)"
  unfolding expcond_def Let_def
proof (rule operand_rule, goal_cases)
  case c: (6 cval t)
  show ?case
  proof (cases "curtok t = QUES")
    case True
    show ?thesis
      unfolding if_P [OF True] using c True assms by (intro expcond_question expcond_colon) auto
  next
    case False
    then show ?thesis using c by (simp add: post_def)
  qed
qed (use assms in auto)

end

subsection \<open>Assignments\<close>

lemma short_vars_bind:
  assumes "short_vars M s" and "length t \<le> M" shows "short_vars M (s\<lparr>vars := bind_int_variable x t (vars s)\<rparr>)"
  using assms unfolding short_vars_def bind_int_variable_def bind_variable_def Let_def
  by (auto split: option.splits if_splits)

lemma intmax_assign_op: "assign_op op l v = Some w \<Longrightarrow> intmax l \<Longrightarrow> intmax v \<Longrightarrow> intmax w"
  using intmax_c_div [of l v] by (auto simp: assign_op_def split: if_splits)

context evaluator
begin

lemma bind_rule:
  assumes "sound M t" and "link s t"
    and "\<And>u. sound M u \<Longrightarrow> link s u \<Longrightarrow> named u = named t \<Longrightarrow> at_assign u = at_assign t \<Longrightarrow> pending u = pending t \<Longrightarrow>
      unread u = unread t \<Longrightarrow> noeval u = noeval t \<Longrightarrow> ends (f 0 u) Q (stopped s)"
  shows "ends (and_then (if noeval t = 0 then expr_bind_variable x (itos v) t else Some (Done 0 t)) f) Q (stopped s)"
proof (cases "noeval t = 0")
  case True
  let ?u = "t\<lparr>vars := bind_int_variable x (itos v) (vars t)\<rparr>"
  have "length (itos v) \<le> M" using assms(1) itos_length [of v] by (simp add: sound_def)
  then have "sound M ?u" using assms(1) short_vars_bind by (simp add: sound_def)
  moreover have "link s ?u" using assms(2) True by (auto simp: link_def)
  moreover have "stopped s AssignError ?u" using assms(2) True by (auto simp: link_def stopped_def)
  moreover have "named ?u = named t" "at_assign ?u = at_assign t" "pending ?u = pending t" "unread ?u = unread t"
    by (auto simp: named_def at_assign_def pending_def unread_def)
  ultimately show ?thesis using True assms(3) [of ?u] by (auto simp: expr_bind_variable_def Let_def split: option.splits)
next
  case False
  then show ?thesis using assms(3) [of t] assms(1,2) by simp
qed

lemma value_rule:
  assumes "intmax l" and "intmax v" and "link s t" and "\<And>w. intmax w \<Longrightarrow> ends (f w t) Q (stopped s)"
  shows "ends (and_then (expassign_value special op l v t) f) Q (stopped s)"
  using assms(1,2,4) assms(3) [unfolded link_def] intmax_assign_op [of op l _]
  by (auto simp: expassign_value_def Let_def evalerror_def stopped_def split: option.splits)

lemma expassign_meets:
  assumes "pre M Expassign s" and "fuel M Expassign s \<le> m"
  shows "ends (expassign call s) (post M Expassign s) (stopped s)"
  unfolding expassign_def Let_def
proof (rule operand_rule, goal_cases)
  case c: (6 v t)
  show ?case
  proof (cases "curtok t = EQ \<or> curtok t = OP_ASSIGN")
    case True
    show ?thesis
    proof (cases "lasttok t = TSTR")
      case named: True
      then obtain lhs where "tokstr t = Some lhs" using c(2) True by (auto simp: named_def at_assign_def)
      then show ?thesis
        unfolding if_P [OF True] using named
      proof (simp, intro read_rule, goal_cases)
        case u: (4 v' u)
        have pu: "pending u < pending t" using unread_less [of t] True u by auto
        show ?case
        proof (intro assign_rule, goal_cases)
          case w: (6 v2 w)
          then show ?case
            using c u pu by (intro value_rule bind_rule) (auto simp: post_def)
        qed (use u pu c assms in auto)
      qed (use c assms unread_less [of t] True in auto)
    qed (use c True in \<open>simp add: stopped_def link_def\<close>)
  next
    case False
    then show ?thesis using c by (simp add: post_def at_assign_def)
  qed
qed (use assms in auto)

lemma expcomma_meets:
  assumes "pre M Expcomma s" and "fuel M Expcomma s \<le> m"
  shows "ends (expcomma call s) (post M Expcomma s) (stopped s)"
  unfolding expcomma_def
proof (rule assign_rule, goal_cases)
  case (6 v t)
  then show ?case using assms by (intro tail_rule) (auto simp: post_def below_link dest: link_trans)
qed (use assms in auto)

lemma expcomma_loop_meets:
  assumes "pre M (Expcomma_loop v) s" and "fuel M (Expcomma_loop v) s \<le> m"
  shows "ends (expcomma_loop call v s) (post M (Expcomma_loop v) s) (stopped s)"
proof (cases "curtok s = COMMA")
  case True
  show ?thesis
    unfolding expcomma_loop_def if_P [OF True]
  proof (rule read_rule, goal_cases)
    case (4 v' t)
    have pt: "pending t < pending s" using unread_less [of s] True 4 by auto
    show ?case
    proof (rule assign_rule, goal_cases)
      case (6 w u)
      then show ?case using assms pt 4(5) by (intro tail_rule) (auto simp: post_def below_link dest: link_trans)
    qed (use 4 pt assms True named_unless [of s] in auto)
  qed (use assms True unread_less [of s] named_unless [of s] in auto)
qed (use assms in \<open>auto simp: expcomma_loop_def post_def\<close>)

end

subsection \<open>Operands\<close>

text \<open>A token read ahead with evaluation suppressed changes nothing but \<^verbatim>\<open>assigntok\<close> once the state is restored.\<close>

lemma peek_restores:
  assumes "link t p" and "expression t = expression s" and "expr_stack t = expr_stack s" and "vars t = vars s"
    and "unbound_vars_is_error t = unbound_vars_is_error s" and "0 < noeval t"
  shows "RESTORETOK (SAVETOK s) p = s\<lparr>assigntok := assigntok p\<rparr>"
  using assms by (intro expr_state.equality) (auto simp: link_def RESTORETOK_def SAVETOK_def)

lemma frame_assigntok [simp]:
  "sound M (s\<lparr>assigntok := c\<rparr>) \<longleftrightarrow> sound M s" "unread (s\<lparr>assigntok := c\<rparr>) = unread s" "named (s\<lparr>assigntok := c\<rparr>) \<longleftrightarrow> named s"
  "link s (t'\<lparr>assigntok := c\<rparr>) \<longleftrightarrow> link s t'" "pending (s\<lparr>assigntok := c\<rparr>) = pending s"
  by (auto simp: sound_def unread_def link_def pending_def named_def at_assign_def short_vars_def)

context evaluator
begin

lemma incdec_rule:
  assumes "tokstr t \<noteq> None" and "sound M t" and "link s t"
    and "\<And>w u. intmax w \<Longrightarrow> sound M u \<Longrightarrow> link s u \<Longrightarrow> unread u = unread t \<Longrightarrow> noeval u = noeval t \<Longrightarrow> ends (f w u) Q (stopped s)"
  shows "ends (exp0_incdec inc v f t) Q (stopped s)"
proof -
  obtain name where name: "tokstr t = Some name" using assms(1) by auto
  show ?thesis
    unfolding exp0_incdec_def Let_def name option.case by (rule bind_rule [OF assms(2,3)]) (use assms(4) in simp)
qed

text \<open>After an increment the current token counts as a number.\<close>

lemma exp0_last:
  assumes "sound M u" and "link s u" and "noeval u = noeval s" and "curtok s \<noteq> TOK0" and "unread u \<le> unread s"
    and "curtok u \<noteq> TOK0" and "named u" and "intmax v" and "below M s + 64 * pending s + 3 \<le> m"
  shows "ends (and_then (call Readtok u) (\<lambda>_ s. Some (Done v s))) (post M Exp0 s) (stopped s)"
proof (rule read_rule, goal_cases)
  case (4 w x)
  then show ?case using assms unread_less [of s] by (simp add: post_def)
qed (use assms unread_less [of s] in auto)

lemma named_NUM [simp]: "named (u\<lparr>curtok := NUM\<rparr>)"
  by (simp add: named_def at_assign_def)

lemma exp0_name:
  assumes "pre M Exp0 s" and "fuel M Exp0 s \<le> m" and "curtok s = TSTR"
  shows "ends (exp0 call s) (post M Exp0 s) (stopped s)"
proof -
  let ?t = "s\<lparr>tokstr := None, noeval := 1\<rparr>"
  have s: "sound M s" "named s" "below M s + 64 * pending s + 3 \<le> m" "tokstr s \<noteq> None" "intmax (tokval s)" "0 \<le> noeval s"
    using assms by (auto simp: named_def sound_def)
  have t: "sound M ?t" "link s ?t" "unread ?t = unread s" using s(1) by (auto simp: link_def)
  show ?thesis
    unfolding exp0_def Let_def using assms(3)
  proof (simp del: if_split, intro read_rule [OF t(1,2)], goal_cases)
    case (2 v p)
    have r: "RESTORETOK (SAVETOK s) p = s\<lparr>assigntok := assigntok p\<rparr>" using 2 by (intro peek_restores [of ?t]) simp_all
    let ?q = "p\<lparr>tokstr := ec_tokstr (SAVETOK s), noeval := ec_noeval (SAVETOK s), lasttok := TSTR\<rparr>"
    have q: "sound M ?q" "link s ?q" "tokstr ?q \<noteq> None" "noeval ?q = noeval s" "unread ?q \<le> unread s"
      using 2 s t unfolding pending_def by (auto simp: SAVETOK_def link_def)
    have "ends (exp0_incdec inc (tokval s) (\<lambda>_ s'. and_then (call Readtok (s'\<lparr>curtok := NUM\<rparr>)) (\<lambda>_ s'. Some (Done (tokval s) s'))) ?q)
        (post M Exp0 s) (stopped s)" for inc
      by (rule incdec_rule [OF q(3,1,2)], rule exp0_last) (use q(4,5) s assms(3) in auto)
    moreover have "ends (and_then (call Readtok (RESTORETOK (SAVETOK s) p)) (\<lambda>_ s'. Some (Done (tokval s) s'))) (post M Exp0 s) (stopped s)"
      unfolding r by (rule exp0_last) (use s assms(3) in auto)
    ultimately show ?case by simp
  qed (use s t(3) unread_less [of s] assms(3) in auto)
qed

lemma exp0_meets:
  assumes "pre M Exp0 s" and "fuel M Exp0 s \<le> m"
  shows "ends (exp0 call s) (post M Exp0 s) (stopped s)"
proof -
  have s: "sound M s" "named s" "below M s + 64 * pending s + 3 \<le> m" "intmax (tokval s)" using assms by (auto simp: sound_def)
  consider (inc) "curtok s = PREINC \<or> curtok s = PREDEC" | (par) "curtok s = LPAR" | (num) "curtok s = NUM" | (name) "curtok s = TSTR"
    | (bad) "curtok s \<notin> {PREINC, PREDEC, LPAR, NUM, TSTR}" by blast
  then show ?thesis
  proof cases
    case inc
    show ?thesis
      unfolding exp0_def Let_def if_P [OF inc]
    proof (rule read_rule, goal_cases)
      case (4 v t)
      show ?case
      proof (cases "curtok t = TSTR")
        case True
        have "named (s\<lparr>lasttok := curtok s\<rparr>)" using s(2) inc by (intro named_lasttok) auto
        with True have nt: "tokstr t \<noteq> None" using 4(2) by (auto simp: named_def)
        show ?thesis
          using True
          by (simp del: if_split, intro incdec_rule [OF nt 4(1,4)] exp0_last) (use 4 s inc True in \<open>auto simp: pending_pos\<close>)
      qed (use 4 in \<open>simp add: stopped_def link_def\<close>)
    qed (use s inc unread_less [of s] in auto)
  next
    case par
    then show ?thesis
      unfolding exp0_def
    proof (simp del: if_split, intro read_rule, goal_cases)
      case (4 v t)
      have pt: "pending t < pending s" using unread_less [of s] 4 by auto
      show ?case
      proof (rule assign_rule, goal_cases)
        case (6 w u)
        have "ends (and_then (call Readtok u) (\<lambda>_ s. Some (Done w s))) (post M Exp0 s) (stopped s)" if "curtok u = RPAR"
          using that 4 6 s pt named_unless [of u] unread_less [of u] by (intro exp0_last) auto
        then show ?case using 6(3) by (auto simp: stopped_def link_def)
      qed (use 4 s pt in auto)
    qed (use s unread_less [of s] in auto)
  next
    case num
    then show ?thesis unfolding exp0_def Let_def using s exp0_last [of s s] by simp
  next
    case name
    then show ?thesis using assms by (rule exp0_name [rotated 2])
  next
    case bad
    then show ?thesis unfolding exp0_def by (simp add: stopped_def)
  qed
qed

end

subsection \<open>Tokens and nested expressions\<close>

lemma span_end_bounds: "p \<le> span_end P e p" "p \<le> length e \<Longrightarrow> span_end P e p \<le> length e"
  using length_takeWhile_le [of P "drop p e"] by (auto simp: span_end_def)

lemma span_end_moves: "p < length e \<Longrightarrow> P (char_at e p) \<Longrightarrow> p < span_end P e p"
  by (simp add: span_end_def char_at_nth Cons_nth_drop_Suc [symmetric])

lemma token_post:
  assumes "sound M s" and "tp s \<le> p" and "p < cp" and "cp \<le> length (expression s)" and "t \<noteq> TSTR"
    and "u = s\<lparr>lasttp := p, tp := p, assigntok := a, tokval := w\<rparr>" and "intmax w"
  shows "post M Readtok s 0 (u\<lparr>lasttok := curtok u, curtok := t, tp := cp\<rparr>)"
  using assms by (auto simp: post_def sound_def short_vars_def link_def pending_def unread_def named_def at_assign_def)

lemma intmax_strlong_loop: "strlong_loop b f v s = Inr w \<Longrightarrow> intmax v \<Longrightarrow> intmax w"
  by (induction b f v s rule: strlong_loop.induct) (auto split: if_splits)

lemma intmax_strlong: "strlong s = Inr w \<Longrightarrow> intmax w"
  by (auto simp: strlong_def split: if_splits dest: intmax_strlong_loop)

lemma readtok_op_ends:
  assumes s: "sound M s" and p: "tp s \<le> p" "p < length (expression s)" and u: "u = s\<lparr>lasttp := p, tp := p\<rparr>"
  shows "ends (readtok_op u) (post M Readtok s) (stopped s)"
proof -
  have token: "ends (token_read t (p + k) (u\<lparr>assigntok := a\<rparr>)) (post M Readtok s) (stopped s)"
    "ends (token_read t (p + k) u) (post M Readtok s) (stopped s)"
    if "t \<noteq> TSTR" "0 < k" "p + k \<le> length (expression s)" for t k a
    using that token_post [OF s p(1), of "p + k" t "u\<lparr>assigntok := a\<rparr>" "tokval s" a]
      token_post [OF s p(1), of "p + k" t u "tokval s" "assigntok s"] s u by (auto simp: sound_def)
  have step: "p + 2 \<le> length (expression s)" if "char_at (expression s) (p + 1) \<noteq> NUL"
    using char_at_inside [OF that] by simp
  have step': "p + 3 \<le> length (expression s)" if "char_at (expression s) (p + 2) \<noteq> NUL"
    using char_at_inside [OF that] by simp
  have stop: "ends (evalerror msg u) (post M Readtok s) (stopped s)" for msg using u by (simp add: stopped_def)
  have e: "expression u = expression s" "tp u = p" "p + 1 \<le> length (expression s)" using u p by auto
  show ?thesis
    unfolding readtok_op_def Let_def e
    by (intro if_ends token stop step step' e(3)) auto
qed

lemma restored_context:
  "SAVETOK s = ec \<Longrightarrow> RESTORETOK ec (u\<lparr>expr_stack := expr_stack s, expression := ec_expression ec\<rparr>) =
    s\<lparr>assigntok := assigntok u, vars := vars u, unbound_vars_is_error := unbound_vars_is_error u\<rparr>"
  by (intro expr_state.equality) (auto simp: SAVETOK_def RESTORETOK_def)

context evaluator
begin

lemma expr_streval_meets:
  assumes "pre M (Expr_streval x) s" and "fuel M (Expr_streval x) s \<le> m"
  shows "ends (expr_streval call x s) (post M (Expr_streval x) s) (stopped s)"
proof -
  have "post M (Expr_streval x) s 0 s" using assms(1) by (simp add: post_def)
  moreover have "ends (call (Subexpr t) s) (post M (Expr_streval x) s) (stopped s)" if "get_variable_value (vars s x) = Some t" for t
    using assms that
    by (intro tail_rule) (auto simp: post_def sound_def short_vars_def get_variable_value_def split: option.splits)
  ultimately show ?thesis
    unfolding expr_streval_def Let_def by (auto simp: stopped_def split: option.splits)
qed

lemma subexpr_meets:
  assumes "pre M (Subexpr e) s" and "fuel M (Subexpr e) s \<le> m"
  shows "ends (subexpr call e s) (post M (Subexpr e) s) (stopped s)"
proof (cases "list_all cr_whitespace e \<or> length (expr_stack s) \<ge> MAX_EXPR_RECURSION_LEVEL")
  case True
  then show ?thesis using assms(1) by (auto simp: subexpr_def pushexp_def post_def stopped_def)
next
  case False
  let ?t = "s\<lparr>expr_stack := SAVETOK s # expr_stack s, expression := e, tp := 0, curtok := TOK0, lasttok := TOK0, tokstr := None, tokval := 0\<rparr>"
  have s: "sound M s" "length e \<le> M" using assms(1) by simp_all
  have t: "sound M ?t" "named ?t" using s by (auto simp: sound_def short_vars_def named_def at_assign_def)
  have k: "MAX_EXPR_RECURSION_LEVEL - length (expr_stack s) = Suc (MAX_EXPR_RECURSION_LEVEL - Suc (length (expr_stack s)))" using False by linarith
  have b: "below M s = below M ?t + 64 * (M + 2)" unfolding below_def k by simp
  have st: "stopped s = stopped ?t" by (simp add: stopped_def fun_eq_iff)
  show ?thesis
    using False unfolding subexpr_def pushexp_def st
  proof (simp del: if_split, intro read_rule [OF t(1) link_refl], goal_cases)
    case (2 v u)
    have ub: "pending u \<le> M" using 2 s(2) by (simp add: unread_def)
    show ?case
    proof (rule assign_rule, goal_cases)
      case (6 w x)
      have st: "expr_stack x = SAVETOK s # expr_stack s" using 6(3) by (simp add: link_def)
      have "post M (Subexpr e) s w (s\<lparr>assigntok := assigntok x, vars := vars x, unbound_vars_is_error := unbound_vars_is_error x\<rparr>)"
        using 6 s(1) by (auto simp: post_def sound_def short_vars_def link_def)
      then show ?case using 6(3) by (auto simp: popexp_def st restored_context stopped_def link_def)
    qed (use 2 t(2) b assms(2) ub in auto)
  qed (use b s assms(2) in \<open>auto simp: unread_def\<close>)
qed

end

context evaluator
begin

lemma readtok_var_ends:
  assumes s: "sound M s" "below M s + 64 * unread s + 2 \<le> m" and p: "tp s \<le> p" "p < length (expression s)"
    and c: "legal_variable_starter (char_at (expression s) p)" and u: "u = s\<lparr>lasttp := p, tp := p\<rparr>"
  shows "ends (readtok_var call u) (post M Readtok s) (stopped s)"
proof -
  define cp where "cp = span_end legal_variable_char (expression s) p"
  define u' where "u' = u\<lparr>tokstr := Some (substring (expression s) p cp)\<rparr>"
  let ?t = "u'\<lparr>tokstr := None, tp := cp, noeval := 1, curtok := TSTR\<rparr>"
  have cp: "p < cp" "cp \<le> length (expression s)"
    using span_end_moves [OF p(2), of legal_variable_char] c p span_end_bounds(2) [of p "expression s"]
    by (auto simp: cp_def legal_variable_char_def legal_variable_starter_def)
  have t: "sound M ?t" "link s ?t" "unread ?t < unread s"
    using s(1) p cp by (auto simp: sound_def short_vars_def link_def unread_def u u'_def)
  have u': "sound M u'" "link s u'" "below M u' = below M s" using s(1) p by (auto simp: sound_def short_vars_def link_def below_def u u'_def)
  have last: "post M Readtok s 0 (r\<lparr>tokval := v, lasttok := curtok r, curtok := TSTR, tp := cp\<rparr>)"
    if "sound M r" "link s r" "r = u'\<lparr>vars := vars r, assigntok := assigntok r\<rparr>" "intmax v" for r v
  proof -
    have "tokstr r \<noteq> None" "curtok r = curtok s" "noeval r = noeval s" using arg_cong [OF that(3), of tokstr]
        arg_cong [OF that(3), of curtok] arg_cong [OF that(3), of noeval] by (simp_all add: u'_def u)
    then show ?thesis
      using that(1,2,4) cp p
      by (auto simp: post_def sound_def short_vars_def link_def pending_def unread_def named_def)
  qed
  have e: "expression u = expression s" "tp u = p" by (simp_all add: u)
  show ?thesis
    unfolding readtok_var_def Let_def e cp_def [symmetric] u'_def [symmetric]
  proof (rule if_ends, goal_cases)
    case 2
    show ?case
    proof (rule read_rule [OF t(1,2)], goal_cases)
      case (2 v q)
      have r: "RESTORETOK (SAVETOK u') q = u'\<lparr>assigntok := assigntok q\<rparr>" using 2(3) by (intro peek_restores [of ?t]) simp_all
      have "ends (and_then (call (Expr_streval x) (u'\<lparr>assigntok := assigntok q\<rparr>))
          (\<lambda>v r. token_read TSTR cp (r\<lparr>tokval := v\<rparr>))) (post M Readtok s) (stopped s)" for x
      proof (rule call_rule)
        fix w r assume "post M (Expr_streval x) (u'\<lparr>assigntok := assigntok q\<rparr>) w r"
        then have "sound M r" "link (u'\<lparr>assigntok := assigntok q\<rparr>) r" "intmax w" "r = u'\<lparr>vars := vars r, assigntok := assigntok r\<rparr>"
          by (simp_all add: post_def)
        then show "ends (token_read TSTR cp (r\<lparr>tokval := w\<rparr>)) (post M Readtok s) (stopped s)"
          using last [of r w] link_trans [of s "u'\<lparr>assigntok := assigntok q\<rparr>" r] u'(2) by simp
      qed (use u' s in \<open>auto simp: below_def\<close>)
      moreover have "ends (token_read TSTR cp (u'\<lparr>assigntok := assigntok q, tokval := 0\<rparr>)) (post M Readtok s) (stopped s)"
        using last [of "u'\<lparr>assigntok := assigntok q\<rparr>" 0] u' by simp
      ultimately show ?case unfolding r by simp
    qed (use s t in auto)
  qed (simp add: stopped_def u)
qed

lemma readtok_meets:
  assumes "pre M Readtok s" and "fuel M Readtok s \<le> m"
  shows "ends (readtok call s) (post M Readtok s) (stopped s)"
proof -
  define p where "p = span_end cr_whitespace (expression s) (tp s)"
  define u where "u = s\<lparr>lasttp := p, tp := p\<rparr>"
  have s: "sound M s" "below M s + 64 * unread s + 2 \<le> m" "tp s \<le> length (expression s)" using assms by (auto simp: sound_def)
  have p: "tp s \<le> p" "p \<le> length (expression s)" using s(3) span_end_bounds by (auto simp: p_def)
  have "post M Readtok s 0 (s\<lparr>lasttok := curtok s, curtok := TOK0, tp := p\<rparr>)"
    using s(1) p by (auto simp: post_def sound_def short_vars_def link_def pending_def unread_def named_def at_assign_def)
  moreover have "ends (readtok_var call u) (post M Readtok s) (stopped s)"
    if "char_at (expression s) p \<noteq> NUL" "legal_variable_starter (char_at (expression s) p)"
    using readtok_var_ends [OF s(1,2) p(1) char_at_inside [OF that(1)] that(2) u_def] .
  moreover have "ends (readtok_num u) (post M Readtok s) (stopped s)" if "char_at (expression s) p \<noteq> NUL" "DIGIT (char_at (expression s) p)"
  proof -
    let ?P = "\<lambda>c. ISALNUM c \<or> c = CHR ''#'' \<or> c = CHR ''@'' \<or> c = CHR ''_''"
    have "p < span_end ?P (expression s) p" "span_end ?P (expression s) p \<le> length (expression s)"
      using span_end_moves [OF char_at_inside [OF that(1)], of ?P] span_end_bounds(2) [OF p(2), of ?P] that(2) by (auto simp: ISALNUM_def)
    then show ?thesis
      using token_post [OF s(1) p(1), of "span_end ?P (expression s) p" NUM "u\<lparr>tokval := v\<rparr>" v "assigntok s" for v]
      by (auto simp: readtok_num_def Let_def u_def stopped_def split: sum.splits dest: intmax_strlong)
  qed
  moreover have "ends (readtok_op u) (post M Readtok s) (stopped s)" if "char_at (expression s) p \<noteq> NUL"
    using readtok_op_ends [OF s(1) p(1) char_at_inside [OF that] u_def] .
  ultimately show ?thesis
    unfolding readtok_def Let_def p_def [symmetric] u_def [symmetric] by simp
qed

lemma body_meets:
  assumes "pre M p s" and "fuel M p s \<le> m" shows "ends (body call p s) (post M p s) (stopped s)"
  using assms levels_meet plain_loops_meet short_circuit_loops_meet exp2_loop_meets exppower_loop_meets exp1_meets exp0_meets
    expcond_meets expassign_meets expcomma_meets expcomma_loop_meets expr_streval_meets subexpr_meets readtok_meets
  by (cases p) (simp_all add: body_def del: pre.simps fuel.simps)

end

lemma run_evaluator: "evaluator M (run n) n"
proof (induction n)
  case 0
  show ?case by unfold_locales simp
next
  case (Suc n)
  show ?case by unfold_locales (simp add: evaluator.body_meets [OF Suc])
qed

interpretation run: evaluator M "run n" n for M n
  by (rule run_evaluator)

subsection \<open>More fuel does not change a result\<close>

definition defined_below :: "outcome option \<Rightarrow> outcome option \<Rightarrow> bool" where
  "defined_below m m' \<longleftrightarrow> m = None \<or> m = m'"

named_theorems below_intros \<open>a computation with better calls is at least as defined\<close>

lemma below_refl [below_intros]: "defined_below m m"
  by (simp add: defined_below_def)

lemma below_and_then [below_intros]:
  "defined_below m m' \<Longrightarrow> (\<And>v s. defined_below (f v s) (g v s)) \<Longrightarrow> defined_below (and_then m f) (and_then m' g)"
  by (auto simp: defined_below_def and_then_def split: option.split outcome.split)

lemma below_if [below_intros]:
  "(c \<Longrightarrow> defined_below a a') \<Longrightarrow> (\<not> c \<Longrightarrow> defined_below b b') \<Longrightarrow> defined_below (if c then a else b) (if c then a' else b')"
  by simp

lemma below_option [below_intros]:
  "defined_below a a' \<Longrightarrow> (\<And>x. defined_below (f x) (g x)) \<Longrightarrow>
    defined_below (case m of None \<Rightarrow> a | Some x \<Rightarrow> f x) (case m of None \<Rightarrow> a' | Some x \<Rightarrow> g x)"
  by (cases m) simp_all

lemma below_incdec [below_intros]:
  "(\<And>v s. defined_below (f v s) (g v s)) \<Longrightarrow> defined_below (exp0_incdec inc v f s) (exp0_incdec inc v g s)"
  unfolding exp0_incdec_def Let_def by (intro below_intros)

lemmas level_defs = expcomma_def expcomma_loop_def explor_def explor_loop_def expland_def expland_loop_def expbor_def expbor_loop_def
  expbxor_def expbxor_loop_def expband_def expband_loop_def exp5_def exp5_loop_def exp4_def exp4_loop_def expshift_def expshift_loop_def
  exp3_def exp3_loop_def exp2_def exp2_loop_def exppower_def exppower_loop_def exp1_def exp0_def expassign_def expcond_def
  expr_streval_def subexpr_def readtok_def readtok_var_def

lemma body_mono:
  assumes "\<And>p s. defined_below (f p s) (g p s)" shows "defined_below (body f p s) (body g p s)"
  by (cases p; simp only: body_def proc.case level_defs Let_def; intro below_intros assms)

lemma run_Suc: "defined_below (run n p s) (run (Suc n) p s)"
proof (induction n arbitrary: p s)
  case 0
  show ?case by (simp add: defined_below_def)
next
  case (Suc n)
  show ?case using body_mono [of "run n" "run (Suc n)", OF Suc] by simp
qed

lemma run_more: "run n p s = Some r \<Longrightarrow> n \<le> k \<Longrightarrow> run k p s = Some r"
proof (induction k)
  case (Suc k)
  then show ?case using run_Suc [of k p s] by (cases "n = Suc k") (auto simp: defined_below_def)
qed simp

subsection \<open>The evaluator as a whole\<close>

lemma run_contract:
  assumes "pre M p s" and "run n p s = Some r"
  shows "case r of Done v s' \<Rightarrow> post M p s v s' | Stop e s' \<Rightarrow> stopped s e s'"
proof -
  let ?k = "Suc (max n (fuel M p s))"
  have "ends (run ?k p s) (post M p s) (stopped s)" by (rule run.meets [OF assms(1)]) simp
  moreover have "run ?k p s = Some r" using assms(2) by (rule run_more) simp
  ultimately show ?thesis by (simp add: ends_def split: outcome.splits)
qed

lemma run_returns: "pre M p s \<Longrightarrow> \<exists>r. \<forall>n > fuel M p s. run n p s = Some r"
proof -
  assume p: "pre M p s"
  have "ends (run (Suc (fuel M p s)) p s) (post M p s) (stopped s)" by (rule run.meets [OF p]) simp
  then obtain r where "run (Suc (fuel M p s)) p s = Some r" by (auto simp: ends_def split: option.splits)
  then have "\<forall>n > fuel M p s. run n p s = Some r" using run_more by (metis Suc_leI)
  then show ?thesis ..
qed

lemma sound_initial: "21 \<le> M \<Longrightarrow> short_vars M (initial_state tbl b) \<Longrightarrow> sound M (initial_state tbl b)"
  by (simp add: sound_def initial_state_def)

text \<open>
  C16. Evaluation always ends. Whatever the expression and the values of the variables are, with \<open>M\<close> a bound on
  the lengths of the expression and of these values, \<open>evalexp\<close> has a result, the same for every bound on the
  depth of calls above \<open>1024 * 64 * (M + 2)\<close>; a value that refers to itself runs into the
  recursion limit. The result is never a copy of a null token string.
\<close>

theorem evalexp_returns:
  assumes "sound M s" and "length expr \<le> M"
  shows "\<exists>r. (\<forall>n > 1024 * (64 * (M + 2)). evalexp n interactive_shell expr s = Some r) \<and> (\<forall>s'. r \<noteq> Crashed s')"
proof -
  have p: "pre M (Subexpr expr) (s\<lparr>noeval := 0\<rparr>)" using assms by simp
  then obtain r where r: "\<And>n. n > fuel M (Subexpr expr) (s\<lparr>noeval := 0\<rparr>) \<Longrightarrow> run n (Subexpr expr) (s\<lparr>noeval := 0\<rparr>) = Some r"
    using run_returns by blast
  have "fuel M (Subexpr expr) (s\<lparr>noeval := 0\<rparr>) \<le> 1024 * (64 * (M + 2))"
    unfolding fuel.simps below_def MAX_EXPR_RECURSION_LEVEL_def by (intro mult_le_mono1) simp
  then have r': "n > 1024 * (64 * (M + 2)) \<Longrightarrow> run n (Subexpr expr) (s\<lparr>noeval := 0\<rparr>) = Some r" for n using r [of n] by simp
  have "case r of Done v s' \<Rightarrow> True | Stop e s' \<Rightarrow> e \<noteq> NullString"
    using run_contract [OF p r' [OF lessI]] by (auto simp: stopped_def split: outcome.splits)
  then show ?thesis using r' unfolding evalexp_def
    by (cases r) (auto split: stop.splits)
qed

lemma finite_witness_vars: "short_vars 21 (initial_state [''x'' \<mapsto> \<lparr>var_value = Some ''x+1'', att_integer = False, att_readonly = False,
    att_noassign = False, att_invisible = False\<rparr>] False)"
  by (auto simp: short_vars_def initial_state_def split: if_splits)

theorem evalexp_returns_witness:
  "\<exists>r. (\<forall>n > 1024 * (64 * (21 + 2)). evalexp n True ''x'' (initial_state [''x'' \<mapsto> \<lparr>var_value = Some ''x+1'', att_integer = False,
     att_readonly = False, att_noassign = False, att_invisible = False\<rparr>] False) = Some r) \<and> (\<forall>s'. r \<noteq> Crashed s')"
  by (rule evalexp_returns) (simp_all add: sound_initial finite_witness_vars)

text \<open>
  C17. Evaluation is re-entrant: when \<open>evalexp\<close> gives a value, the value is in the range of \<^verbatim>\<open>intmax_t\<close> and
  the token state and the stack of contexts are those of before the call, so that a caller in the middle of another
  expression goes on undisturbed; only variables and \<^verbatim>\<open>assigntok\<close> may differ. After an error the stack
  of contexts is empty and evaluation is no longer suppressed.
\<close>

theorem evalexp_restores:
  assumes "sound M s" and "length expr \<le> M" and "evalexp n interactive_shell expr s = Some r"
  shows "(\<forall>v s'. r = Valid v s' \<longrightarrow> intmax v \<and> s' = s\<lparr>noeval := 0, vars := vars s', assigntok := assigntok s'\<rparr>) \<and>
    (\<forall>e s'. r = Invalid e s' \<longrightarrow> expr_stack s' = [] \<and> noeval s' = 0)"
proof -
  have p: "pre M (Subexpr expr) (s\<lparr>noeval := 0\<rparr>)" using assms by simp
  obtain q where q: "run n (Subexpr expr) (s\<lparr>noeval := 0\<rparr>) = Some q" using assms(3) by (auto simp: evalexp_def split: option.splits)
  show ?thesis using run_contract [OF p q] assms(3) unfolding evalexp_def q
    by (auto simp: post_def expr_unwind_def split: outcome.splits stop.splits)
qed

text \<open>Evaluation of concrete expressions by rewriting.\<close>

lemmas evaluation_simps = body_def level_defs evalexp_def pushexp_def popexp_def SAVETOK_def RESTORETOK_def token_read_def
  readtok_num_def readtok_op_def span_end_def cr_whitespace_def whitespace_def legal_variable_starter_def legal_variable_char_def
  ISALPHA_def ISUPPER_def ISLOWER_def DIGIT_def uchar_def MAX_EXPR_RECURSION_LEVEL_def initial_state_def strlong_def TODIGIT_def
  ISALNUM_def substring_def strlong_digit_def to_intmax_def is_arithop_def is_multiop_def char_at_def evalerror_def
  get_variable_value_def expassign_value_def Let_def

lemma sound_empty: "21 \<le> M \<Longrightarrow> sound M (initial_state Map.empty False)"
  by (rule sound_initial) (simp_all add: short_vars_def initial_state_def)

theorem evalexp_restores_witness:
  "\<exists>s'. evalexp 40 True ''1+2'' (initial_state Map.empty False) = Some (Valid 3 s') \<and>
     s' = (initial_state Map.empty False)\<lparr>noeval := 0, vars := vars s', assigntok := assigntok s'\<rparr>"
proof -
  obtain s' where s': "evalexp 40 True ''1+2'' (initial_state Map.empty False) = Some (Valid 3 s')"
    by (simp add: evaluation_simps eval_nat_numeral)
  then show ?thesis using evalexp_restores [OF sound_empty [OF order_refl] _ s'] by auto
qed

text \<open>
  C18. Suppressed evaluation has no effect: while \<^verbatim>\<open>noeval\<close> is positive, no procedure of the evaluator
  changes a variable, whether it returns or is left by an error. This is what makes \<^verbatim>\<open>&&\<close> and \<^verbatim>\<open>||\<close> skip
  the assignments and increments of an operand that is not needed.
\<close>

theorem suppressed_evaluation_assigns_nothing:
  assumes "pre M p s" and "0 < noeval s" and "run n p s = Some r"
  shows "vars (case r of Done v s' \<Rightarrow> s' | Stop e s' \<Rightarrow> s') = vars s"
  using run_contract [OF assms(1,3)] assms(2) by (cases r) (auto simp: post_def link_def stopped_def)

definition skipping_state :: expr_state where
  "skipping_state = (initial_state Map.empty False)\<lparr>expression := ''x = 5'', tp := 1, curtok := TSTR, tokstr := Some ''x'', noeval := 1\<rparr>"

theorem suppressed_evaluation_assigns_nothing_witness:
  "\<exists>s'. run 40 Expcomma skipping_state = Some (Done 5 s') \<and> vars s' = Map.empty"
proof -
  obtain s' where s': "run 40 Expcomma skipping_state = Some (Done 5 s')"
    by (simp add: evaluation_simps skipping_state_def eval_nat_numeral)
  have "pre 21 Expcomma skipping_state"
    by (simp add: skipping_state_def initial_state_def sound_def short_vars_def named_def)
  then have "vars s' = vars skipping_state"
    using suppressed_evaluation_assigns_nothing [OF _ _ s', of 21] by (simp add: skipping_state_def)
  then show ?thesis using s' by (simp add: skipping_state_def initial_state_def)
qed

subsection \<open>Where suppression does not reach\<close>

abbreviation plain_var :: "string \<Rightarrow> shell_var" where
  "plain_var t \<equiv> \<lparr>var_value = Some t, att_integer = False, att_readonly = False, att_noassign = False, att_invisible = False\<rparr>"

text \<open>
  The first token of a branch of a conditional expression is read before \<^verbatim>\<open>noeval\<close> is raised, so a variable there
  is evaluated although the branch is not selected.
\<close>

lemma unselected_branch_evaluated:
  "\<exists>s t. evalexp 60 True ''1 ? 2 : x'' (initial_state [''x'' \<mapsto> plain_var ''1/0''] False) = Some (Invalid (EvalError ''division by 0'' t) s)"
  "\<exists>s. evalexp 60 True ''1 || x'' (initial_state [''x'' \<mapsto> plain_var ''1/0''] False) = Some (Valid 1 s)"
  by (simp_all add: evaluation_simps eval_nat_numeral)

text \<open>A negative exponent is an error also in an operand that is skipped, other than a division by zero.\<close>

lemma skipped_exponent_fails:
  "\<exists>s t. evalexp 60 True ''0 && 2 ** -1'' (initial_state Map.empty False) = Some (Invalid (EvalError ''exponent less than 0'' t) s)"
  "\<exists>s. evalexp 60 True ''0 && 2 / 0'' (initial_state Map.empty False) = Some (Valid 0 s)"
  by (simp_all add: evaluation_simps eval_nat_numeral)

end
