(* ===== verification/ExprLex.thy ===== *)
theory ExprLex
  imports ExprInv
begin

text \<open>
  The evaluator without its bound on the depth of calls, the values of numbers, and the lexical analyser: what
  \<open>readtok\<close> does on a text that spells a sequence of tokens.
\<close>

subsection \<open>The limit of the bounded evaluators\<close>

text \<open>\<open>ev p s\<close> is the result of \<open>run n p s\<close> for any large enough \<open>n\<close>; it satisfies the equations of the C functions.\<close>

definition ev :: caller where
  "ev p s = (if \<exists>n. run n p s \<noteq> None then run (LEAST n. run n p s \<noteq> None) p s else None)"

lemma ev_eq: "ev p s = Some r \<longleftrightarrow> (\<exists>n. run n p s = Some r)"
proof
  assume "\<exists>n. run n p s = Some r"
  then obtain n where n: "run n p s = Some r" ..
  let ?k = "LEAST n. run n p s \<noteq> None"
  have some: "run n p s \<noteq> None" using n by simp
  have "run ?k p s \<noteq> None" "?k \<le> n" using some by (rule LeastI, rule Least_le)
  then obtain q where q: "run ?k p s = Some q" by auto
  then have "run n p s = Some q" using \<open>?k \<le> n\<close> by (rule run_more)
  with n q show "ev p s = Some r" using some by (auto simp: ev_def)
qed (auto simp: ev_def split: if_splits)

text \<open>A computation that only calls finitely often needs only a bounded evaluator.\<close>

definition finitary :: "(caller \<Rightarrow> outcome option) \<Rightarrow> bool" where
  "finitary F \<longleftrightarrow> (\<forall>r. F ev = Some r \<longrightarrow> (\<exists>n. \<forall>k \<ge> n. F (run k) = Some r))"

named_theorems finitary_intros \<open>ways to build finitary computations\<close>

lemma finitary_const [finitary_intros]: "finitary (\<lambda>c. m)"
  by (simp add: finitary_def)

lemma finitary_call [finitary_intros]: "finitary (\<lambda>c. c p s)"
  unfolding finitary_def ev_eq using run_more by blast

lemma finitary_and_then [finitary_intros]:
  assumes "finitary m" and "\<And>v s. finitary (\<lambda>c. f c v s)" shows "finitary (\<lambda>c. and_then (m c) (f c))"
  unfolding finitary_def
proof (intro allI impI)
  fix r assume r: "and_then (m ev) (f ev) = Some r"
  then obtain q where q: "m ev = Some q" by (cases "m ev") auto
  then obtain n where n: "\<And>k. k \<ge> n \<Longrightarrow> m (run k) = Some q" using assms(1) by (auto simp: finitary_def)
  show "\<exists>n. \<forall>k \<ge> n. and_then (m (run k)) (f (run k)) = Some r"
  proof (cases q)
    case (Done v s)
    then obtain n' where "\<And>k. k \<ge> n' \<Longrightarrow> f (run k) v s = Some r" using assms(2) [of v s] r q by (auto simp: finitary_def)
    then have "\<forall>k \<ge> max n n'. and_then (m (run k)) (f (run k)) = Some r" using n Done by simp
    then show ?thesis ..
  next
    case (Stop e s)
    then have "r = Stop e s" using q r by simp
    then show ?thesis using n Stop by (intro exI [of _ n]) simp
  qed
qed

lemma finitary_if [finitary_intros]:
  "finitary a \<Longrightarrow> finitary b \<Longrightarrow> finitary (\<lambda>c. if P then a c else b c)"
  by (cases P) simp_all

lemma finitary_option [finitary_intros]:
  "finitary a \<Longrightarrow> (\<And>x. finitary (\<lambda>c. f c x)) \<Longrightarrow> finitary (\<lambda>c. case m of None \<Rightarrow> a c | Some x \<Rightarrow> f c x)"
  by (cases m) simp_all

lemma finitary_incdec [finitary_intros]:
  "(\<And>v s. finitary (\<lambda>c. f c v s)) \<Longrightarrow> finitary (\<lambda>c. exp0_incdec inc v (f c) s)"
  unfolding exp0_incdec_def Let_def by (intro finitary_intros)

lemma finitary_body: "finitary (\<lambda>c. body c p s)"
  by (cases p; simp only: body_def proc.case level_defs Let_def; intro finitary_intros)

lemma run_below_ev: "defined_below (run n p s) (ev p s)"
  by (cases "run n p s") (auto simp: defined_below_def, metis ev_eq)

lemma ev_unfold: "ev p s = body ev p s"
proof -
  have up: "body ev p s = Some r" if "run n p s = Some r" for n r
  proof -
    have "n \<noteq> 0" using that by (intro notI) simp
    then obtain k where k: "n = Suc k" using not0_implies_Suc by blast
    show ?thesis using body_mono [of "run k" ev p s, OF run_below_ev] that k by (simp add: defined_below_def)
  qed
  have "run (Suc n) p s = Some r" if "\<forall>k \<ge> n. body (run k) p s = Some r" for n r using that by simp
  then have "\<exists>n. run n p s = Some r" if "body ev p s = Some r" for r
    using finitary_body [of p s] that unfolding finitary_def by blast
  then show ?thesis using up ev_eq by (metis option.exhaust)
qed

lemma ev_simps:
  "ev Readtok s = readtok ev s" "ev (Expr_streval x) s = expr_streval ev x s" "ev (Subexpr e) s = subexpr ev e s"
  "ev Expcomma s = expcomma ev s" "ev (Expcomma_loop v) s = expcomma_loop ev v s" "ev Expassign s = expassign ev s"
  "ev Expcond s = expcond ev s" "ev Explor s = explor ev s" "ev (Explor_loop v) s = explor_loop ev v s"
  "ev Expland s = expland ev s" "ev (Expland_loop v) s = expland_loop ev v s" "ev Expbor s = expbor ev s"
  "ev (Expbor_loop v) s = expbor_loop ev v s" "ev Expbxor s = expbxor ev s" "ev (Expbxor_loop v) s = expbxor_loop ev v s"
  "ev Expband s = expband ev s" "ev (Expband_loop v) s = expband_loop ev v s" "ev Exp5 s = exp5 ev s"
  "ev (Exp5_loop v) s = exp5_loop ev v s" "ev Exp4 s = exp4 ev s" "ev (Exp4_loop v) s = exp4_loop ev v s"
  "ev Expshift s = expshift ev s" "ev (Expshift_loop v) s = expshift_loop ev v s" "ev Exp3 s = exp3 ev s"
  "ev (Exp3_loop v) s = exp3_loop ev v s" "ev Exp2 s = exp2 ev s" "ev (Exp2_loop v) s = exp2_loop ev v s"
  "ev Exppower s = exppower ev s" "ev (Exppower_loop v) s = exppower_loop ev v s" "ev Exp1 s = exp1 ev s" "ev Exp0 s = exp0 ev s"
  by (simp_all add: ev_unfold [of _ s] body_def)

text \<open>The bound on the depth of calls that \<open>evalexp_returns\<close> gives is enough to compute \<open>ev\<close>.\<close>

lemma evalexp_ev:
  assumes "sound M s" and "length expr \<le> M" and "1024 * (64 * (M + 2)) < n"
  shows "evalexp n b expr s = (case ev (Subexpr expr) (s\<lparr>noeval := 0\<rparr>) of None \<Rightarrow> None | Some (Done v s) \<Rightarrow> Some (Valid v s)
    | Some (Stop (UnboundVar x) s) \<Rightarrow> Some (TopLevel (UnboundVar x) (if b then expr_unwind s else s))
    | Some (Stop SubscriptRef s) \<Rightarrow> Some (Subscripted s) | Some (Stop NullString s) \<Rightarrow> Some (Crashed s)
    | Some (Stop e s) \<Rightarrow> Some (Invalid e (expr_unwind (s\<lparr>tokstr := None, expression := []\<rparr>))))"
proof -
  have "fuel M (Subexpr expr) (s\<lparr>noeval := 0\<rparr>) \<le> 1024 * (64 * (M + 2))"
    unfolding fuel.simps below_def MAX_EXPR_RECURSION_LEVEL_def by (intro mult_le_mono1) simp
  moreover have "pre M (Subexpr expr) (s\<lparr>noeval := 0\<rparr>)" using assms by simp
  ultimately obtain r where "run n (Subexpr expr) (s\<lparr>noeval := 0\<rparr>) = Some r"
    using run_returns [of M "Subexpr expr" "s\<lparr>noeval := 0\<rparr>"] assms(3) by (meson order.strict_trans1)
  then show ?thesis unfolding evalexp_def using ev_eq [of "Subexpr expr" "s\<lparr>noeval := 0\<rparr>" r] by auto
qed

subsection \<open>Numbers\<close>

text \<open>
  The digits, in the order of their values: \<^verbatim>\<open>[0-9][a-z][A-Z]@_\<close>, and up to base 36 the capital
  letters with the values of the small ones. The value of digits in a base is an integer without bound.
\<close>

definition small_digits :: string where
  "small_digits = ''0123456789abcdefghijklmnopqrstuvwxyz''"

definition capital_digits :: string where
  "capital_digits = ''0123456789ABCDEFGHIJKLMNOPQRSTUVWXYZ''"

definition digit_chars :: string where
  "digit_chars = ''0123456789abcdefghijklmnopqrstuvwxyzABCDEFGHIJKLMNOPQRSTUVWXYZ@_''"

fun index_of :: "'a \<Rightarrow> 'a list \<Rightarrow> nat option" where
  "index_of x [] = None"
| "index_of x (y # ys) = (if x = y then Some 0 else map_option Suc (index_of x ys))"

definition digit_index :: "bool \<Rightarrow> char \<Rightarrow> nat option" where
  "digit_index fold_case c =
     (if fold_case then (case index_of c small_digits of None \<Rightarrow> index_of c capital_digits | Some d \<Rightarrow> Some d)
      else index_of c digit_chars)"

definition digit_value :: "int \<Rightarrow> char \<Rightarrow> nat option" where
  "digit_value b c =
     (case digit_index (b \<le> 36) c of None \<Rightarrow> None | Some d \<Rightarrow> if int d < b then Some d else None)"

definition horner :: "int \<Rightarrow> int \<Rightarrow> string \<Rightarrow> int" where
  "horner b a ds = foldl (\<lambda>v c. v * b + int (the (digit_value b c))) a ds"

definition digits_in :: "int \<Rightarrow> string \<Rightarrow> bool" where
  "digits_in b ds \<longleftrightarrow> list_all (\<lambda>c. digit_value b c \<noteq> None) ds"

text \<open>The arithmetic of the code on the characters agrees with the positions.\<close>

lemma index_of_Some: "index_of x xs = Some i \<Longrightarrow> i < length xs \<and> xs ! i = x"
  by (induction xs arbitrary: i) (auto split: if_splits)

lemma index_of_None: "index_of x xs = None \<longleftrightarrow> x \<notin> set xs"
  by (induction xs) auto

abbreviation is_digit :: "char \<Rightarrow> bool" where
  "is_digit c \<equiv> ISALNUM c \<or> c = CHR ''_'' \<or> c = CHR ''@''"

lemma digit_tables:
  "map (strlong_digit 36) small_digits = map int [0..<36]" "map (strlong_digit 36) capital_digits = map int [0..<36]"
  "map (strlong_digit 64) digit_chars = map int [0..<64]"
  by (simp_all add: small_digits_def capital_digits_def digit_chars_def strlong_digit_def DIGIT_def TODIGIT_def ISLOWER_def
      ISUPPER_def uchar_def upt_rec)

lemma digits_length: "length small_digits = 36" "length capital_digits = 36" "length digit_chars = 64"
  by (simp_all add: small_digits_def capital_digits_def digit_chars_def)

lemma digits_are_digits: "list_all is_digit small_digits" "list_all is_digit capital_digits" "list_all is_digit digit_chars"
  by (simp_all add: small_digits_def capital_digits_def digit_chars_def ISALNUM_def ISALPHA_def DIGIT_def ISLOWER_def ISUPPER_def uchar_def)

lemma digit_positions:
  "i < 36 \<Longrightarrow> strlong_digit 36 (small_digits ! i) = int i \<and> is_digit (small_digits ! i)"
  "i < 36 \<Longrightarrow> strlong_digit 36 (capital_digits ! i) = int i \<and> is_digit (capital_digits ! i)"
  "i < 64 \<Longrightarrow> strlong_digit 64 (digit_chars ! i) = int i \<and> is_digit (digit_chars ! i)"
  using digit_tables [THEN arg_cong, of "\<lambda>xs. xs ! i"] digits_are_digits digits_length by (simp_all add: list_all_length)

lemma digit_characters:
  "DIGIT c \<Longrightarrow> c \<in> set small_digits \<and> c \<in> set digit_chars" "ISLOWER c \<Longrightarrow> c \<in> set small_digits \<and> c \<in> set digit_chars"
  "ISUPPER c \<Longrightarrow> c \<in> set capital_digits \<and> c \<in> set digit_chars" "c = CHR ''_'' \<or> c = CHR ''@'' \<Longrightarrow> c \<in> set digit_chars"
proof -
  have n: "c = char_of (of_char c :: nat)" "uchar c = int (of_char c)" by (simp_all add: uchar_def)
  have at: "xs ! k \<in> set xs" if "k < length xs" for k and xs :: string using that by simp
  have "list_all (\<lambda>n. small_digits ! (n - 48) = char_of n \<and> digit_chars ! (n - 48) = char_of n) [48..<58]"
    "list_all (\<lambda>n. small_digits ! (n - 87) = char_of n \<and> digit_chars ! (n - 87) = char_of n) [97..<123]"
    "list_all (\<lambda>n. capital_digits ! (n - 55) = char_of n \<and> digit_chars ! (n - 29) = char_of n) [65..<91]" by code_simp+
  note tabs = this [unfolded list_all_iff set_upt atLeastLessThan_iff, rule_format, of "of_char c", folded n(1)]
  show "c \<in> set small_digits \<and> c \<in> set digit_chars" if "DIGIT c"
    using that tabs(1) at [of "of_char c - 48" small_digits] at [of "of_char c - 48" digit_chars] by (auto simp: DIGIT_def n(2) digits_length)
  show "c \<in> set small_digits \<and> c \<in> set digit_chars" if "ISLOWER c"
    using that tabs(2) at [of "of_char c - 87" small_digits] at [of "of_char c - 87" digit_chars] by (auto simp: ISLOWER_def n(2) digits_length)
  show "c \<in> set capital_digits \<and> c \<in> set digit_chars" if "ISUPPER c"
    using that tabs(3) at [of "of_char c - 55" capital_digits] at [of "of_char c - 29" digit_chars] by (auto simp: ISUPPER_def n(2) digits_length)
  show "c \<in> set digit_chars" if "c = CHR ''_'' \<or> c = CHR ''@''" using that by (auto simp: digit_chars_def)
qed

lemma digit_chars_iff: "c \<in> set digit_chars \<longleftrightarrow> is_digit c"
proof
  assume "c \<in> set digit_chars"
  then obtain i where "i < 64" "c = digit_chars ! i" by (auto simp: in_set_conv_nth digits_length)
  then show "is_digit c" using digit_positions(3) by blast
qed (use digit_characters in \<open>auto simp: ISALNUM_def ISALPHA_def\<close>)

lemma digit_index_code:
  "digit_index True c = (if is_digit c \<and> strlong_digit 36 c < 36 then Some (nat (strlong_digit 36 c)) else None)"
  "digit_index False c = (if is_digit c then Some (nat (strlong_digit 64 c)) else None)"
proof -
  have *: "c \<in> set small_digits \<or> c \<in> set capital_digits" if "is_digit c" "strlong_digit 36 c < 36"
    using that digit_characters [of c] by (auto simp: ISALNUM_def ISALPHA_def strlong_digit_def split: if_splits)
  show "digit_index True c = (if is_digit c \<and> strlong_digit 36 c < 36 then Some (nat (strlong_digit 36 c)) else None)"
  proof (cases "index_of c small_digits")
    case small: None
    show ?thesis
    proof (cases "index_of c capital_digits")
      case None
      have "\<not> (is_digit c \<and> strlong_digit 36 c < 36)" using * small None unfolding index_of_None by blast
      then show ?thesis using small None by (simp add: digit_index_def)
    next
      case (Some i)
      then have "i < 36" "c = capital_digits ! i" using index_of_Some [OF Some] by (simp_all add: digits_length)
      then show ?thesis using digit_positions(2) [of i] small Some by (simp add: digit_index_def)
    qed
  next
    case (Some i)
    then have "i < 36" "c = small_digits ! i" using index_of_Some [OF Some] by (simp_all add: digits_length)
    then show ?thesis using digit_positions(1) [of i] Some by (simp add: digit_index_def)
  qed
  show "digit_index False c = (if is_digit c then Some (nat (strlong_digit 64 c)) else None)"
  proof (cases "index_of c digit_chars")
    case None
    then show ?thesis using index_of_None [of c digit_chars] digit_chars_iff [of c] by (simp add: digit_index_def)
  next
    case (Some i)
    then have "i < 64" "c = digit_chars ! i" using index_of_Some [OF Some] by (simp_all add: digits_length)
    then show ?thesis using digit_positions(3) [of i] Some by (simp add: digit_index_def)
  qed
qed

lemma strlong_digit_nonneg: "0 \<le> strlong_digit b c"
  by (auto simp: strlong_digit_def TODIGIT_def DIGIT_def ISUPPER_def ISLOWER_def)

lemma strlong_digit_cases: "strlong_digit b c = (if b \<le> 36 then strlong_digit 36 c else strlong_digit 64 c)"
  by (simp add: strlong_digit_def)

lemma digit_value_code:
  "digit_value b c = (if is_digit c \<and> strlong_digit b c < b then Some (nat (strlong_digit b c)) else None)"
  using digit_index_code [of c] strlong_digit_cases [of b c] strlong_digit_nonneg [of b c] by (cases "b \<le> 36") (auto simp: digit_value_def)

lemma digit_valueD:
  assumes "digit_value b c \<noteq> None"
  shows "is_digit c" and "strlong_digit b c < b" and "int (the (digit_value b c)) = strlong_digit b c"
  using assms digit_value_code [of b c] strlong_digit_nonneg [of b c] by (auto split: if_splits)

lemma to_intmax_mod: "to_intmax x = to_intmax y \<longleftrightarrow> x mod 2 ^ 64 = y mod 2 ^ 64"
  unfolding to_intmax_def using mod_add_cong [of "x + 2 ^ 63" "2 ^ 64" "y + 2 ^ 63" "- (2 ^ 63)" "- (2 ^ 63) :: int"]
    mod_add_cong [of x "2 ^ 64" y "2 ^ 63" "2 ^ 63 :: int"] by auto

lemma to_intmax_cong: "to_intmax x mod 2 ^ 64 = x mod 2 ^ 64"
  unfolding to_intmax_def by (metis (no_types, opaque_lifting) add_diff_cancel_right' mod_diff_left_eq)

lemma to_intmax_step: "to_intmax (to_intmax x * b + d) = to_intmax (x * b + d)"
  unfolding to_intmax_mod using to_intmax_cong [of x] by (metis mod_add_left_eq mod_mult_left_eq)

lemma sharp_no_digit: "is_digit c \<Longrightarrow> c \<noteq> CHR ''#''"
  by (auto simp: ISALNUM_def ISALPHA_def ISUPPER_def ISLOWER_def DIGIT_def uchar_def)

lemma strlong_loop_digits:
  "digits_in b ds \<Longrightarrow> strlong_loop b f (to_intmax v) (ds @ rest) = strlong_loop b f (to_intmax (horner b v ds)) rest"
proof (induction ds arbitrary: v)
  case (Cons c ds)
  then have "digits_in b ds" and v: "digit_value b c \<noteq> None" by (simp_all add: digits_in_def)
  note c = digit_valueD [OF v]
  then show ?case
    using Cons.IH [of "v * b + strlong_digit b c"] \<open>digits_in b ds\<close> sharp_no_digit [OF c(1)] by (simp add: horner_def to_intmax_step)
qed (simp add: horner_def)

lemma strlong_loop_value: "digits_in b ds \<Longrightarrow> strlong_loop b f 0 ds = Inr (to_intmax (horner b 0 ds))"
  using strlong_loop_digits [of b ds f 0 "[]"] by (simp add: to_intmax_id)

text \<open>Decimal digits are digits of base 10 with the value they have elsewhere.\<close>

lemma decimal_digit: "is_digit_in 10 c \<Longrightarrow> DIGIT c \<and> digit_value 10 c = Some (the (digit_of c))"
  unfolding digit_value_code ISALNUM_def
  by (auto simp: is_digit_in_def digit_of_def strlong_digit_def TODIGIT_def ISALPHA_def ISUPPER_def ISLOWER_def DIGIT_def TOUPPER_def split: if_splits)

lemma decimal_horner: "list_all (is_digit_in 10) ds \<Longrightarrow> digits_in 10 ds \<and> horner 10 0 ds = int (digits_val 10 ds)"
proof (induction ds rule: rev_induct)
  case (snoc c ds)
  then show ?case using decimal_digit [of c] by (auto simp: digits_in_def horner_def)
qed (simp add: digits_in_def horner_def)

abbreviation decimal :: "nat \<Rightarrow> string" where
  "decimal n \<equiv> fmt_div 10 FMTCHAR n []"

lemma decimal_value: "digits_in 10 (decimal n)" "horner 10 0 (decimal n) = int n" "decimal n \<noteq> []"
  using decimal_horner [of "decimal n"] decimal_digits [of n] by auto

lemma char_at_hd: "s \<noteq> [] \<Longrightarrow> char_at (s @ t) 0 = hd s"
  by (cases s) simp_all

lemma strlong_decimal:
  "digits_in 10 ds \<Longrightarrow> ds \<noteq> [] \<Longrightarrow> hd ds \<noteq> CHR ''0'' \<Longrightarrow> strlong ds = Inr (to_intmax (horner 10 0 ds))"
  using char_at_hd [of ds "[]"] by (simp add: strlong_def strlong_loop_value)

text \<open>
  C38. Numbers have the value their base gives them: digits without a leading zero are decimal, after \<^verbatim>\<open>0x\<close>
  hexadecimal, after another leading zero octal, and after \<^verbatim>\<open>base#\<close> in that base, from 2 to 64. The value of
  a digit is its position in \<^verbatim>\<open>[0-9][a-z][A-Z]@_\<close>, and up to base 36 a capital letter is the small one; a
  value that does not fit is taken modulo two to the 64. After \<^verbatim>\<open>base#\<close> and digits of that base, a digit
  whose value is not below the base is an error, whatever follows.
\<close>

theorem strlong_value:
  assumes "digits_in b ds" and "ds \<noteq> []"
  shows "(b = 10 \<and> hd ds \<noteq> CHR ''0'' \<longrightarrow> strlong ds = Inr (to_intmax (horner b 0 ds))) \<and>
    (b = 16 \<longrightarrow> strlong (''0x'' @ ds) = Inr (to_intmax (horner b 0 ds))) \<and>
    (b = 8 \<longrightarrow> strlong (''0'' @ ds) = Inr (to_intmax (horner b 0 ds))) \<and>
    (2 \<le> b \<and> b \<le> 64 \<longrightarrow> strlong (itos b @ ''#'' @ ds) = Inr (to_intmax (horner b 0 ds))) \<and>
    (2 \<le> b \<and> b \<le> 64 \<and> c \<in> set digit_chars \<and> digit_value b c = None \<longrightarrow>
       strlong (itos b @ ''#'' @ ds @ c # rest) = Inl ''value too great for base'')"
proof -
  have "hd ds \<noteq> NUL \<and> hd ds \<noteq> CHR ''x'' \<and> hd ds \<noteq> CHR ''X''" if "b = 8"
  proof -
    have "digit_value 8 (hd ds) \<noteq> None" using assms that by (cases ds) (simp_all add: digits_in_def)
    moreover have "digit_value 8 NUL = None" "digit_value 8 (CHR ''x'') = None" "digit_value 8 (CHR ''X'') = None" by code_simp+
    ultimately show ?thesis by metis
  qed
  then have "strlong (''0'' @ ds) = Inr (to_intmax (horner b 0 ds))" if "b = 8"
    using that assms char_at_hd [of ds "[]"] by (simp add: strlong_def strlong_loop_value)
  moreover have based: "strlong (itos b @ ''#'' @ tx) = strlong_loop b True 0 tx" if b: "2 \<le> b" "b \<le> 64" for tx
  proof -
    let ?p = "decimal (nat b)"
    have p: "itos b = ?p" using b itos_eq [of b] by (simp add: INTMAX_MIN_def INTMAX_MAX_def)
    have "hd ?p \<noteq> CHR ''0''" using decimal_no_leading_zero [of "nat b"] b by simp
    then have "strlong (?p @ ''#'' @ tx) = strlong_loop 10 False (to_intmax 0) (?p @ ''#'' @ tx)"
      using char_at_hd [of ?p] decimal_value(3) [of "nat b"] by (simp add: strlong_def to_intmax_id)
    moreover have "to_intmax (horner 10 0 ?p) = b" using b by (simp add: decimal_value to_intmax_id intmax_iff)
    ultimately show ?thesis
      using b strlong_loop_digits [OF decimal_value(1), of False 0 "nat b" "''#'' @ tx"] by (simp add: p)
  qed
  moreover have "strlong (itos b @ ''#'' @ ds @ c # rest) = Inl ''value too great for base''"
    if b: "2 \<le> b" "b \<le> 64" and c: "c \<in> set digit_chars" "digit_value b c = None"
  proof -
    have "is_digit c" "b \<le> strlong_digit b c"
      using c digit_value_code [of b c] digit_chars_iff [of c] by (auto split: if_splits)
    then have "strlong_loop b True v (c # rest) = Inl ''value too great for base''" for v
      using sharp_no_digit [of c] by simp
    then show ?thesis unfolding based [OF b] using strlong_loop_digits [OF assms(1), of True 0] by (simp add: to_intmax_id)
  qed
  moreover have "strlong (''0x'' @ ds) = Inr (to_intmax (horner b 0 ds))" if "b = 16"
    using assms(1) that by (simp add: strlong_def strlong_loop_value)
  ultimately show ?thesis using assms strlong_decimal [of ds] strlong_loop_value [OF assms(1), of True] by auto
qed

theorem strlong_value_witness:
  "strlong (itos 64 @ ''#'' @ ''1_'') = Inr 127 \<and> horner 64 0 ''1_'' = 127 \<and> strlong (''0x'' @ ''1F'') = Inr 31 \<and>
   strlong (itos 40 @ ''#'' @ ''B'') = Inr 37 \<and> strlong (itos 40 @ ''#'' @ ''B'' @ CHR ''Z'' # []) = Inl ''value too great for base''"
proof -
  have d: "digits_in 64 ''1_''" "digits_in 16 ''1F''" "digits_in 40 ''B''" by code_simp+
  have h: "horner 64 0 ''1_'' = 127" "horner 16 0 ''1F'' = 31" "horner 40 0 ''B'' = 37" by code_simp+
  have z: "CHR ''Z'' \<in> set digit_chars" "digit_value 40 (CHR ''Z'') = None" by code_simp+
  have t: "to_intmax 127 = 127" "to_intmax 31 = 31" "to_intmax 37 = 37" by (simp_all add: to_intmax_def)
  show ?thesis
    using strlong_value [OF d(1)] strlong_value [OF d(2)] strlong_value [OF d(3), of "CHR ''Z''" "[]"] h z t by simp
qed

subsection \<open>Texts that spell_token tokens\<close>

text \<open>
  The tokens of a well-formed expression: names, numbers, operators, compound assignments, increments before and
  after a name (\<open>True\<close> for \<^verbatim>\<open>++\<close>).
\<close>

datatype atok = TName string | TNum string | TOp token | TAssign token | TPre bool | TPost bool

fun op_text :: "token \<Rightarrow> string" where
  "op_text EQEQ = ''==''" | "op_text NEQ = ''!=''" | "op_text LEQ = ''<=''" | "op_text GEQ = ''>=''"
| "op_text LAND = ''&&''" | "op_text LOR = ''||''" | "op_text LSH = ''<<''" | "op_text RSH = ''>>''"
| "op_text POWER = ''**''" | "op_text (Chr c) = [c]" | "op_text _ = []"

fun spell_token :: "atok \<Rightarrow> string" where
  "spell_token (TName x) = x" | "spell_token (TNum t) = t" | "spell_token (TOp t) = op_text t" | "spell_token (TAssign t) = op_text t @ ''=''"
| "spell_token (TPre b) = (if b then ''++'' else ''--'')" | "spell_token (TPost b) = (if b then ''++'' else ''--'')"

fun code :: "atok \<Rightarrow> token" where
  "code (TName x) = TSTR" | "code (TNum t) = NUM" | "code (TOp t) = t" | "code (TAssign t) = OP_ASSIGN"
| "code (TPre b) = (if b then PREINC else PREDEC)" | "code (TPost b) = (if b then POSTINC else POSTDEC)"

definition num_char :: "char \<Rightarrow> bool" where
  "num_char c \<longleftrightarrow> ISALNUM c \<or> c = CHR ''#'' \<or> c = CHR ''@'' \<or> c = CHR ''_''"

definition assign_ops :: "token list" where
  "assign_ops = [MUL, DIV, MOD, PLUS, MINUS, LSH, RSH, BAND, BXOR, BOR]"

definition plain_ops :: "token list" where
  "plain_ops = [EQEQ, NEQ, LEQ, GEQ, LAND, LOR, LSH, RSH, POWER, EQ, GT, LT, PLUS, MINUS, MUL, DIV, MOD, LNOT, LPAR, RPAR,
     BAND, BOR, BXOR, BNOT, QUES, COL, COMMA]"

fun token_ok :: "atok \<Rightarrow> bool" where
  "token_ok (TName x) \<longleftrightarrow> legal_identifier x"
| "token_ok (TNum t) \<longleftrightarrow> (case strlong t of Inl e \<Rightarrow> False | Inr v \<Rightarrow> True) \<and> t \<noteq> [] \<and> DIGIT (hd t) \<and> list_all num_char t"
| "token_ok (TOp t) \<longleftrightarrow> t \<in> set plain_ops"
| "token_ok (TAssign t) \<longleftrightarrow> t \<in> set assign_ops"
| "token_ok _ \<longleftrightarrow> True"

text \<open>The character after a token must not make it a longer one.\<close>

fun ends_ok :: "atok \<Rightarrow> char \<Rightarrow> bool" where
  "ends_ok (TName x) c \<longleftrightarrow> \<not> legal_variable_char c \<and> c \<noteq> CHR ''[''"
| "ends_ok (TNum t) c \<longleftrightarrow> \<not> num_char c"
| "ends_ok (TOp t) c \<longleftrightarrow>
     (t \<in> {EQ, LNOT, LT, GT, DIV, MOD, BXOR, BAND, BOR, MUL, PLUS, MINUS, LSH, RSH} \<longrightarrow> c \<noteq> CHR ''='') \<and>
     (\<forall>d \<in> set ''<>&|*+-''. t = Chr d \<longrightarrow> c \<noteq> d)"
| "ends_ok _ c \<longleftrightarrow> True"

inductive spelled :: "atok list \<Rightarrow> string \<Rightarrow> bool" where
  spelled_Nil: "list_all cr_whitespace ws \<Longrightarrow> spelled [] ws"
| spelled_Cons: "list_all cr_whitespace ws \<Longrightarrow> token_ok t \<Longrightarrow> ends_ok t (char_at txt 0) \<Longrightarrow> spelled ts txt \<Longrightarrow>
    spelled (t # ts) (ws @ spell_token t @ txt)"

inductive_cases spelled_NilE: "spelled [] txt"
inductive_cases spelled_ConsE: "spelled (t # ts) txt"

subsection \<open>Reading a token\<close>

definition ahead :: "expr_state \<Rightarrow> string" where
  "ahead s = drop (tp s) (expression s)"

definition same_frame :: "expr_state \<Rightarrow> expr_state \<Rightarrow> bool" where
  "same_frame s s' \<longleftrightarrow> expression s' = expression s \<and> expr_stack s' = expr_stack s \<and> vars s' = vars s \<and>
     unbound_vars_is_error s' = unbound_vars_is_error s \<and> noeval s' = noeval s"

lemma char_at_drop: "p \<le> length e \<Longrightarrow> char_at e (p + i) = char_at (drop p e) i"
  by (auto simp: char_at_def)

lemma span_end_drop: "list_all P a \<Longrightarrow> drop p e = a @ b \<Longrightarrow> b = [] \<or> \<not> P (hd b) \<Longrightarrow> span_end P e p = p + length a"
  unfolding span_end_def by (cases b) (simp_all add: takeWhile_append list_all_iff takeWhile_eq_all_conv [THEN iffD2])

lemma op_chars: "t \<in> set plain_ops \<or> t \<in> set assign_ops \<Longrightarrow> op_text t \<noteq> [] \<and> \<not> cr_whitespace (hd (op_text t)) \<and> hd (op_text t) \<noteq> NUL \<and>
    \<not> legal_variable_starter (hd (op_text t)) \<and> \<not> DIGIT (hd (op_text t))"
  by (auto simp: plain_ops_def assign_ops_def cr_whitespace_def whitespace_def legal_variable_starter_def ISALPHA_def ISUPPER_def ISLOWER_def
    DIGIT_def uchar_def)

lemma readtok_op_reads:
  assumes e: "drop (tp u) (expression u) = spell_token t @ txt" "tp u \<le> length (expression u)"
    and t: "token_ok t" "\<And>x. t \<noteq> TName x" "\<And>n. t \<noteq> TNum n" and nxt: "ends_ok t (char_at txt 0)"
    and post: "\<And>b. t = TPost b \<Longrightarrow> curtok u = TSTR"
    and pre: "\<And>b. t = TPre b \<Longrightarrow> curtok u \<noteq> TSTR \<and> legal_variable_starter (char_at (expression u) (span_end cr_whitespace (expression u) (tp u + 2)))"
  shows "readtok_op u = token_read (code t) (tp u + length (spell_token t)) (case t of TAssign a \<Rightarrow> u\<lparr>assigntok := a\<rparr> | _ \<Rightarrow> u)"
proof -
  have c: "char_at (expression u) (tp u) = char_at (spell_token t @ txt) 0" "char_at (expression u) (tp u + 1) = char_at (spell_token t @ txt) 1"
    "char_at (expression u) (tp u + 2) = char_at (spell_token t @ txt) 2"
    using char_at_drop [OF e(2), of 0] char_at_drop [OF e(2), of 1] char_at_drop [OF e(2), of 2] e(1) by simp_all
  show ?thesis
  proof (cases t)
    case (TOp op)
    then have "op \<in> set plain_ops" using t(1) by simp
    then show ?thesis
      unfolding plain_ops_def list.set insert_iff empty_iff
      by (elim disjE) (use nxt TOp c in \<open>simp_all add: readtok_op_def Let_def is_arithop_def eval_nat_numeral\<close>)
  next
    case (TAssign a)
    then have "a \<in> set assign_ops" using t(1) by simp
    then show ?thesis
      unfolding assign_ops_def list.set insert_iff empty_iff
      by (elim disjE) (use TAssign c in \<open>simp_all add: readtok_op_def Let_def eval_nat_numeral\<close>)
  next
    case (TPre b)
    then show ?thesis
      using pre [OF TPre] unfolding readtok_op_def Let_def c by (auto simp: eval_nat_numeral)
  next
    case (TPost b)
    then show ?thesis
      using post [OF TPost] unfolding readtok_op_def Let_def c by (auto simp: eval_nat_numeral)
  qed (use t in auto)
qed

text \<open>A state in which the text \<open>txt\<close> is still to be read.\<close>

definition faces :: "expr_state \<Rightarrow> string \<Rightarrow> bool" where
  "faces s txt \<longleftrightarrow> tp s \<le> length (expression s) \<and> drop (tp s) (expression s) = txt"

lemma faces_char: "faces s txt \<Longrightarrow> char_at (expression s) (tp s + i) = char_at txt i"
  using char_at_drop [of "tp s" "expression s" i] by (simp add: faces_def)

lemma faces_white:
  assumes "faces s (ws @ txt)" and "list_all cr_whitespace ws" and "txt = [] \<or> \<not> cr_whitespace (hd txt)"
  shows "span_end cr_whitespace (expression s) (tp s) = tp s + length ws" "faces (s\<lparr>lasttp := q, tp := tp s + length ws\<rparr>) txt"
    "char_at (expression s) (tp s + length ws) = char_at txt 0"
proof -
  have d: "drop (tp s) (expression s) = ws @ txt" "tp s \<le> length (expression s)" using assms(1) by (auto simp: faces_def)
  then have "length (ws @ txt) + tp s = length (expression s)" by (metis add.commute le_add_diff_inverse length_drop)
  then have l: "tp s + length ws \<le> length (expression s)" by simp
  have dd: "drop (tp s + length ws) (expression s) = txt" using d(1) by (metis add.commute append_eq_conv_conj drop_drop)
  then show "faces (s\<lparr>lasttp := q, tp := tp s + length ws\<rparr>) txt" using l by (simp add: faces_def)
  show "span_end cr_whitespace (expression s) (tp s) = tp s + length ws" using assms(2,3) d(1) by (intro span_end_drop) auto
  show "char_at (expression s) (tp s + length ws) = char_at txt 0" using char_at_drop [OF l, of 0] dd by simp
qed

lemma faces_move:
  assumes "faces s (w @ txt)" shows "tp s + length w \<le> length (expression s)" "faces (s\<lparr>tp := tp s + length w\<rparr>) txt"
proof -
  have d: "drop (tp s) (expression s) = w @ txt" "tp s \<le> length (expression s)" using assms by (auto simp: faces_def)
  then have "length (w @ txt) + tp s = length (expression s)" by (metis add.commute le_add_diff_inverse length_drop)
  then show l: "tp s + length w \<le> length (expression s)" by simp
  show "faces (s\<lparr>tp := tp s + length w\<rparr>) txt" using l d(1) by (auto simp: faces_def) (metis add.commute append_eq_conv_conj drop_drop)
qed

text \<open>What a caller sees after a token: the frame and the name are kept, the last token is the one that was current.\<close>

definition token_done :: "expr_state \<Rightarrow> token \<Rightarrow> string \<Rightarrow> expr_state \<Rightarrow> bool" where
  "token_done s t txt s' \<longleftrightarrow> same_frame s s' \<and> lasttok s' = curtok s \<and> curtok s' = t \<and> faces s' txt"

lemma read_end:
  assumes "faces s ws" and "list_all cr_whitespace ws"
  shows "\<exists>s'. ev Readtok s = Some (Done 0 s') \<and> token_done s TOK0 [] s' \<and> tokstr s' = tokstr s \<and> assigntok s' = assigntok s"
proof -
  have "readtok ev s = token_read TOK0 (tp s + length ws) s"
    using faces_white [of s ws "[]"] assms by (simp add: readtok_def Let_def)
  then show ?thesis
    using faces_move [of s ws "[]"] assms(1) by (simp add: ev_simps token_read_def token_done_def same_frame_def faces_def)
qed

lemma spell_token_first:
  assumes "token_ok t" shows "spell_token t \<noteq> []" "\<not> cr_whitespace (hd (spell_token t))" "hd (spell_token t) \<noteq> NUL"
    "(\<forall>x. t \<noteq> TName x) \<Longrightarrow> \<not> legal_variable_starter (hd (spell_token t))" "(\<forall>x. t \<noteq> TName x) \<Longrightarrow> DIGIT (hd (spell_token t)) \<longleftrightarrow> (\<exists>n. t = TNum n)"
proof -
  have "spell_token t \<noteq> [] \<and> \<not> cr_whitespace (hd (spell_token t)) \<and> hd (spell_token t) \<noteq> NUL \<and>
    ((\<forall>x. t \<noteq> TName x) \<longrightarrow> \<not> legal_variable_starter (hd (spell_token t)) \<and> (DIGIT (hd (spell_token t)) \<longleftrightarrow> (\<exists>n. t = TNum n)))"
    using assms
  proof (cases t)
    case (TName x)
    then show ?thesis using assms
      by (cases x) (auto simp: legal_identifier_def legal_variable_starter_def ISALPHA_def ISUPPER_def ISLOWER_def uchar_def cr_whitespace_def whitespace_def)
  next
    case (TNum n)
    then show ?thesis using assms
      by (auto simp: legal_variable_starter_def ISALPHA_def ISUPPER_def ISLOWER_def DIGIT_def uchar_def cr_whitespace_def whitespace_def)
  next
    case (TOp t)
    then show ?thesis using assms op_chars [of t] by auto
  next
    case (TAssign t)
    then show ?thesis using assms op_chars [of t] by auto
  qed (auto simp: legal_variable_starter_def ISALPHA_def ISUPPER_def ISLOWER_def DIGIT_def uchar_def cr_whitespace_def whitespace_def)
  then show "spell_token t \<noteq> []" "\<not> cr_whitespace (hd (spell_token t))" "hd (spell_token t) \<noteq> NUL"
    "(\<forall>x. t \<noteq> TName x) \<Longrightarrow> \<not> legal_variable_starter (hd (spell_token t))" "(\<forall>x. t \<noteq> TName x) \<Longrightarrow> DIGIT (hd (spell_token t)) \<longleftrightarrow> (\<exists>n. t = TNum n)"
    by blast+
qed

definition starts_name :: "string \<Rightarrow> bool" where
  "starts_name txt \<longleftrightarrow> legal_variable_starter (char_at (dropWhile cr_whitespace txt) 0)"

lemma read_token:
  assumes s: "faces s (ws @ spell_token t @ txt)" "list_all cr_whitespace ws" and t: "token_ok t" "\<And>x. t \<noteq> TName x" "ends_ok t (char_at txt 0)"
    and post: "\<And>b. t = TPost b \<Longrightarrow> curtok s = TSTR" and pre: "\<And>b. t = TPre b \<Longrightarrow> curtok s \<noteq> TSTR \<and> starts_name txt"
  shows "\<exists>s'. ev Readtok s = Some (Done 0 s') \<and> token_done s (code t) txt s' \<and> tokstr s' = tokstr s \<and>
    (\<forall>n. t = TNum n \<longrightarrow> strlong n = Inr (tokval s')) \<and> assigntok s' = (case t of TAssign a \<Rightarrow> a | _ \<Rightarrow> assigntok s)"
proof -
  define p where "p = tp s + length ws"
  define u where "u = s\<lparr>lasttp := p, tp := p\<rparr>"
  note f = spell_token_first [OF t(1)]
  have hd: "char_at (spell_token t @ txt) 0 = hd (spell_token t)" using f(1) by (cases "spell_token t") auto
  have w: "span_end cr_whitespace (expression s) (tp s) = p" "faces u (spell_token t @ txt)" "char_at (expression s) p = hd (spell_token t)"
    using faces_white(1,3) [OF s] faces_white(2) [OF s, where q = p] f(1,2) hd by (auto simp: p_def u_def)
  have u: "tp u = p" "expression u = expression s" by (simp_all add: u_def)
  have m: "tp u + length (spell_token t) \<le> length (expression u)" "faces (u\<lparr>tp := tp u + length (spell_token t)\<rparr>) txt"
    using faces_move [OF w(2)] by simp_all
  show ?thesis
  proof (cases "\<exists>n. t = TNum n")
    case True
    then obtain n v where n: "t = TNum n" "strlong n = Inr v" using t(1) by (auto split: sum.splits)
    have sp: "span_end num_char (expression u) (tp u) = tp u + length n"
      using w(2) t(1,3) n(1) by (intro span_end_drop) (auto simp: faces_def char_at_def hd_conv_nth)
    then have "substring (expression u) (tp u) (tp u + length n) = n" using w(2) n(1) by (simp add: substring_def faces_def)
    then have "readtok_num u = token_read NUM (tp u + length n) (u\<lparr>tokval := v\<rparr>)"
      using sp n(2) unfolding readtok_num_def num_char_def Let_def by simp
    then have "ev Readtok s = token_read NUM (tp u + length n) (u\<lparr>tokval := v\<rparr>)"
      using w(1,3) f n(1) t(2) unfolding ev_simps readtok_def Let_def by (simp add: u_def)
    then show ?thesis
      using m n by (simp add: token_read_def token_done_def same_frame_def faces_def u_def)
  next
    case False
    have "legal_variable_starter (char_at (expression u) (span_end cr_whitespace (expression u) (tp u + 2)))" if "t = TPre b" for b
    proof -
      have "length (spell_token t) = 2" using that by simp
      then have fc: "faces (u\<lparr>tp := tp u + 2\<rparr>) (takeWhile cr_whitespace txt @ dropWhile cr_whitespace txt)" using m(2) by simp
      have w1: "list_all cr_whitespace (takeWhile cr_whitespace txt)" by (auto simp: list_all_iff dest: set_takeWhileD)
      have w2: "dropWhile cr_whitespace txt = [] \<or> \<not> cr_whitespace (hd (dropWhile cr_whitespace txt))" using hd_dropWhile by blast
      show ?thesis using faces_white(1,3) [OF fc w1 w2] pre [OF that] by (simp add: starts_name_def)
    qed
    then have "readtok_op u = token_read (code t) (tp u + length (spell_token t)) (case t of TAssign a \<Rightarrow> u\<lparr>assigntok := a\<rparr> | _ \<Rightarrow> u)"
      using w(2) t False post pre by (intro readtok_op_reads) (auto simp: faces_def u_def)
    then have "ev Readtok s = token_read (code t) (tp u + length (spell_token t)) (case t of TAssign a \<Rightarrow> u\<lparr>assigntok := a\<rparr> | _ \<Rightarrow> u)"
      using w(1,3) f False t(2) unfolding ev_simps readtok_def Let_def by (simp add: u_def)
    then show ?thesis
      using m False by (cases t) (auto simp: token_read_def token_done_def same_frame_def faces_def u_def)
  qed
qed

text \<open>A name is followed by the next token, which is read ahead; what is left to know is the value.\<close>

lemma read_name:
  assumes s: "faces s (ws @ x @ txt)" "list_all cr_whitespace ws" and x: "legal_identifier x" "ends_ok (TName x) (char_at txt 0)"
    and peek: "\<And>t. faces t txt \<Longrightarrow> curtok t = TSTR \<Longrightarrow>
      \<exists>t'. ev Readtok t = Some (Done 0 t') \<and> same_frame t t' \<and> curtok t' = k"
    and val: "\<And>r. same_frame s r \<Longrightarrow> tokstr r = Some x \<Longrightarrow> lasttok s = PREINC \<or> lasttok s = PREDEC \<or> k \<noteq> EQ \<Longrightarrow>
      ev (Expr_streval x) r = Some (Done v r)"
  shows "\<exists>s'. ev Readtok s = Some (Done 0 s') \<and> token_done s TSTR txt s' \<and> tokstr s' = Some x \<and>
    (lasttok s = PREINC \<or> lasttok s = PREDEC \<or> k \<noteq> EQ \<longrightarrow> tokval s' = v)"
proof -
  define p where "p = tp s + length ws"
  define u where "u = s\<lparr>lasttp := p, tp := p\<rparr>"
  note f = spell_token_first(1-3) [of "TName x", simplified, OF x(1)]
  have hd: "char_at (x @ txt) 0 = hd x" "legal_variable_starter (hd x)" using f(1) x(1) by (cases x; simp add: legal_identifier_def)+
  have w: "span_end cr_whitespace (expression s) (tp s) = p" "faces u (x @ txt)" "char_at (expression s) p = hd x"
    using faces_white(1,3) [OF s] faces_white(2) [OF s, where q = p] f hd by (auto simp: p_def u_def)
  have m: "tp u + length x \<le> length (expression u)" "faces (u\<lparr>tp := tp u + length x\<rparr>) txt" using faces_move [OF w(2)] by simp_all
  have "list_all legal_variable_char x"
    using x(1) by (cases x) (auto simp: legal_identifier_def legal_variable_starter_def legal_variable_char_def)
  then have sp: "span_end legal_variable_char (expression u) (tp u) = tp u + length x"
    using w(2) x(2) by (intro span_end_drop) (auto simp: faces_def char_at_def hd_conv_nth)
  have sub: "substring (expression u) (tp u) (tp u + length x) = x" using w(2) by (simp add: substring_def faces_def)
  have br: "char_at (expression u) (tp u + length x) \<noteq> CHR ''[''" using faces_char [OF w(2), of "length x"] x(2) by (simp add: char_at_append)
  let ?u = "u\<lparr>tokstr := Some x\<rparr>" and ?t = "u\<lparr>tokstr := None, tp := tp u + length x, noeval := 1, curtok := TSTR\<rparr>"
  have "faces ?t txt" using m by (simp add: faces_def)
  then obtain q where q: "ev Readtok ?t = Some (Done 0 q)" "same_frame ?t q" "curtok q = k" using peek by fastforce
  define r where "r = ?u\<lparr>assigntok := assigntok q\<rparr>"
  have rq: "RESTORETOK (SAVETOK ?u) q = r" unfolding r_def
    using q(2) by (intro expr_state.equality) (auto simp: RESTORETOK_def SAVETOK_def same_frame_def)
  have rs: "same_frame s r" "tokstr r = Some x" "lasttok r = lasttok s" "curtok r = curtok s" by (simp_all add: r_def u_def same_frame_def)
  have "readtok_var ev u = (if lasttok s = PREINC \<or> lasttok s = PREDEC \<or> k \<noteq> EQ
      then and_then (ev (Expr_streval x) r) (\<lambda>v s. token_read TSTR (tp u + length x) (s\<lparr>tokval := v\<rparr>))
      else token_read TSTR (tp u + length x) (r\<lparr>tokval := 0\<rparr>))"
    unfolding readtok_var_def Let_def sp sub using br q(1,3) rq rs(3) by simp
  moreover have "ev Readtok s = readtok_var ev u"
    using w(1,3) f(3) hd(2) unfolding ev_simps readtok_def Let_def by (simp add: u_def)
  ultimately have "\<exists>v'. ev Readtok s = token_read TSTR (tp u + length x) (r\<lparr>tokval := v'\<rparr>) \<and>
      (lasttok s = PREINC \<or> lasttok s = PREDEC \<or> k \<noteq> EQ \<longrightarrow> v' = v)"
    using val [OF rs(1,2)] by auto
  then show ?thesis
    using m rs by (auto simp: token_read_def token_done_def same_frame_def faces_def u_def r_def)
qed

end
