(* ===== verification/ExprSem.thy ===== *)
theory ExprSem
  imports ExprLex
begin

text \<open>
  The evaluator against a reference semantics of expressions. An expression tree has a value over an
  environment of integers, with side effects, short circuits and errors; \<open>toks\<close> writes it as tokens, with parentheses only
  where the precedence of the operators asks for them. On every text that spells these tokens the
  evaluator gives what the reference semantics says.
\<close>

subsection \<open>Expressions and their values\<close>

datatype unop = UNot | UBnot | UNeg | UPlus

datatype binop = BLor | BLand | BBor | BBxor | BBand | BEq | BNe | BLe | BGe | BLt | BGt | BShl | BShr | BAdd | BSub | BMul | BDiv | BMod | BPow

datatype aexp = Num string | Var string | Pre bool string | Post bool string | Unary unop aexp | Binary binop aexp aexp
  | Cond aexp aexp aexp | Assign string aexp | OpAssign binop string aexp | Comma aexp aexp

type_synonym env = "string \<Rightarrow> int"

fun un_value :: "unop \<Rightarrow> int \<Rightarrow> int" where
  "un_value UNot v = of_bool (v = 0)" | "un_value UBnot v = NOT v" | "un_value UNeg v = to_intmax (- v)" | "un_value UPlus v = v"

text \<open>The strict operators on 64-bit values; overflow wraps, the quotient is truncated.\<close>

fun bin_value :: "binop \<Rightarrow> int \<Rightarrow> int \<Rightarrow> string + int" where
  "bin_value BLor a b = Inr (of_bool (a \<noteq> 0 \<or> b \<noteq> 0))" | "bin_value BLand a b = Inr (of_bool (a \<noteq> 0 \<and> b \<noteq> 0))"
| "bin_value BBor a b = Inr (a OR b)" | "bin_value BBxor a b = Inr (a XOR b)" | "bin_value BBand a b = Inr (a AND b)"
| "bin_value BEq a b = Inr (of_bool (a = b))" | "bin_value BNe a b = Inr (of_bool (a \<noteq> b))"
| "bin_value BLe a b = Inr (of_bool (a \<le> b))" | "bin_value BGe a b = Inr (of_bool (a \<ge> b))"
| "bin_value BLt a b = Inr (of_bool (a < b))" | "bin_value BGt a b = Inr (of_bool (a > b))"
| "bin_value BShl a b = Inr (shift_left a b)" | "bin_value BShr a b = Inr (shift_right a b)"
| "bin_value BAdd a b = Inr (to_intmax (a + b))" | "bin_value BSub a b = Inr (to_intmax (a - b))"
| "bin_value BMul a b = Inr (to_intmax (a * b))"
| "bin_value BDiv a b = (if b = 0 then Inl ''division by 0'' else Inr (to_intmax (c_div a b)))"
| "bin_value BMod a b = (if b = 0 then Inl ''division by 0'' else Inr (c_mod a b))"
| "bin_value BPow a b = (if b < 0 then Inl ''exponent less than 0'' else Inr (to_intmax (a ^ nat b)))"

definition decides :: "binop \<Rightarrow> int \<Rightarrow> bool" where
  "decides op a \<longleftrightarrow> op = BLor \<and> a \<noteq> 0 \<or> op = BLand \<and> a = 0"

fun aval :: "aexp \<Rightarrow> env \<Rightarrow> string + int \<times> env" where
  "aval (Num t) \<sigma> = (case strlong t of Inl e \<Rightarrow> Inl e | Inr v \<Rightarrow> Inr (v, \<sigma>))"
| "aval (Var x) \<sigma> = Inr (\<sigma> x, \<sigma>)"
| "aval (Pre b x) \<sigma> = (let v = to_intmax (\<sigma> x + (if b then 1 else - 1)) in Inr (v, \<sigma>(x := v)))"
| "aval (Post b x) \<sigma> = Inr (\<sigma> x, \<sigma>(x := to_intmax (\<sigma> x + (if b then 1 else - 1))))"
| "aval (Unary u e) \<sigma> = (case aval e \<sigma> of Inl m \<Rightarrow> Inl m | Inr (v, \<sigma>) \<Rightarrow> Inr (un_value u v, \<sigma>))"
| "aval (Binary op a b) \<sigma> = (case aval a \<sigma> of Inl m \<Rightarrow> Inl m | Inr (v, \<sigma>) \<Rightarrow>
     if decides op v then Inr (of_bool (v \<noteq> 0), \<sigma>)
     else case aval b \<sigma> of Inl m \<Rightarrow> Inl m | Inr (w, \<sigma>) \<Rightarrow>
       case bin_value op v w of Inl m \<Rightarrow> Inl m | Inr x \<Rightarrow> Inr (x, \<sigma>))"
| "aval (Cond c a b) \<sigma> = (case aval c \<sigma> of Inl m \<Rightarrow> Inl m | Inr (v, \<sigma>) \<Rightarrow> if v \<noteq> 0 then aval a \<sigma> else aval b \<sigma>)"
| "aval (Assign x e) \<sigma> = (case aval e \<sigma> of Inl m \<Rightarrow> Inl m | Inr (v, \<sigma>) \<Rightarrow> Inr (v, \<sigma>(x := v)))"
| "aval (OpAssign op x e) \<sigma> = (let l = \<sigma> x in case aval e \<sigma> of Inl m \<Rightarrow> Inl m | Inr (v, \<sigma>) \<Rightarrow>
     case bin_value op l v of Inl m \<Rightarrow> Inl m | Inr w \<Rightarrow> Inr (w, \<sigma>(x := w)))"
| "aval (Comma a b) \<sigma> = (case aval a \<sigma> of Inl m \<Rightarrow> Inl m | Inr (v, \<sigma>) \<Rightarrow> aval b \<sigma>)"

subsection \<open>Expressions as tokens\<close>

fun un_token :: "unop \<Rightarrow> token" where
  "un_token UNot = LNOT" | "un_token UBnot = BNOT" | "un_token UNeg = MINUS" | "un_token UPlus = PLUS"

fun bin_token :: "binop \<Rightarrow> token" where
  "bin_token BLor = LOR" | "bin_token BLand = LAND" | "bin_token BBor = BOR" | "bin_token BBxor = BXOR" | "bin_token BBand = BAND"
| "bin_token BEq = EQEQ" | "bin_token BNe = NEQ" | "bin_token BLe = LEQ" | "bin_token BGe = GEQ" | "bin_token BLt = LT" | "bin_token BGt = GT"
| "bin_token BShl = LSH" | "bin_token BShr = RSH" | "bin_token BAdd = PLUS" | "bin_token BSub = MINUS" | "bin_token BMul = MUL"
| "bin_token BDiv = DIV" | "bin_token BMod = MOD" | "bin_token BPow = POWER"

text \<open>The levels of precedence: 0 comma, 1 assignment, 2 conditional, 3 to 13 binary operators, 14 unary operators, 15 operands.\<close>

fun bin_level :: "binop \<Rightarrow> nat" where
  "bin_level BLor = 3" | "bin_level BLand = 4" | "bin_level BBor = 5" | "bin_level BBxor = 6" | "bin_level BBand = 7"
| "bin_level BEq = 8" | "bin_level BNe = 8" | "bin_level BLe = 9" | "bin_level BGe = 9" | "bin_level BLt = 9" | "bin_level BGt = 9"
| "bin_level BShl = 10" | "bin_level BShr = 10" | "bin_level BAdd = 11" | "bin_level BSub = 11" | "bin_level BMul = 12"
| "bin_level BDiv = 12" | "bin_level BMod = 12" | "bin_level BPow = 13"

fun level :: "aexp \<Rightarrow> nat" where
  "level (Comma a b) = 0" | "level (Assign x e) = 1" | "level (OpAssign op x e) = 1" | "level (Cond c a b) = 2"
| "level (Binary op a b) = bin_level op" | "level (Unary u e) = 14" | "level _ = 15"

fun toks :: "nat \<Rightarrow> aexp \<Rightarrow> atok list" where
  "toks l (Num t) = [TNum t]"
| "toks l (Var x) = [TName x]"
| "toks l (Pre b x) = [TPre b, TName x]"
| "toks l (Post b x) = [TName x, TPost b]"
| "toks l (Unary u e) = (let ts = TOp (un_token u) # toks 14 e in if 14 < l then TOp LPAR # ts @ [TOp RPAR] else ts)"
| "toks l (Binary op a b) = (let k = bin_level op;
     ts = (if op = BPow then toks 14 a @ TOp POWER # toks 13 b else toks k a @ TOp (bin_token op) # toks (k + 1) b)
     in if k < l then TOp LPAR # ts @ [TOp RPAR] else ts)"
| "toks l (Cond c a b) = (let ts = toks 3 c @ TOp QUES # toks 0 a @ TOp COL # toks 2 b in if 2 < l then TOp LPAR # ts @ [TOp RPAR] else ts)"
| "toks l (Assign x e) = (let ts = TName x # TOp EQ # toks 1 e in if 1 < l then TOp LPAR # ts @ [TOp RPAR] else ts)"
| "toks l (OpAssign op x e) = (let ts = TName x # TAssign (bin_token op) # toks 1 e in if 1 < l then TOp LPAR # ts @ [TOp RPAR] else ts)"
| "toks l (Comma a b) = (let ts = toks 0 a @ TOp COMMA # toks 1 b in if 0 < l then TOp LPAR # ts @ [TOp RPAR] else ts)"

text \<open>An operand that may be skipped must have literal exponents: a negative exponent is an error even there.\<close>

fun literal_exponents :: "aexp \<Rightarrow> bool" where
  "literal_exponents (Unary u e) \<longleftrightarrow> literal_exponents e"
| "literal_exponents (Binary op a b) \<longleftrightarrow> literal_exponents a \<and> literal_exponents b \<and>
     (op = BPow \<longrightarrow> (case b of Num t \<Rightarrow> (case strlong t of Inl e \<Rightarrow> False | Inr v \<Rightarrow> 0 \<le> v) | _ \<Rightarrow> False))"
| "literal_exponents (Cond c a b) \<longleftrightarrow> literal_exponents c \<and> literal_exponents a \<and> literal_exponents b"
| "literal_exponents (Assign x e) \<longleftrightarrow> literal_exponents e"
| "literal_exponents (OpAssign op x e) \<longleftrightarrow> literal_exponents e"
| "literal_exponents (Comma a b) \<longleftrightarrow> literal_exponents a \<and> literal_exponents b"
| "literal_exponents _ \<longleftrightarrow> True"

fun safe_skips :: "aexp \<Rightarrow> bool" where
  "safe_skips (Unary u e) \<longleftrightarrow> safe_skips e"
| "safe_skips (Binary op a b) \<longleftrightarrow> safe_skips a \<and> safe_skips b \<and> (op = BLor \<or> op = BLand \<longrightarrow> literal_exponents b)"
| "safe_skips (Cond c a b) \<longleftrightarrow> safe_skips c \<and> safe_skips a \<and> safe_skips b \<and> literal_exponents a \<and> literal_exponents b"
| "safe_skips (Assign x e) \<longleftrightarrow> safe_skips e"
| "safe_skips (OpAssign op x e) \<longleftrightarrow> safe_skips e"
| "safe_skips (Comma a b) \<longleftrightarrow> safe_skips a \<and> safe_skips b"
| "safe_skips _ \<longleftrightarrow> True"

subsection \<open>Values stay in range\<close>

lemma bin_value_intmax: "bin_value op a b = Inr v \<Longrightarrow> intmax a \<Longrightarrow> intmax b \<Longrightarrow> intmax v"
  by (cases op) (auto split: if_splits)

lemma aval_intmax:
  "aval e \<sigma> = Inr (v, \<sigma>') \<Longrightarrow> \<forall>x. intmax (\<sigma> x) \<Longrightarrow> intmax v \<and> (\<forall>x. intmax (\<sigma>' x))"
proof (induction e arbitrary: \<sigma> v \<sigma>')
  case (Num t)
  then show ?case by (auto split: sum.splits dest: intmax_strlong)
next
  case (Unary u e)
  then show ?case by (cases u) (fastforce split: sum.splits)+
next
  case (Binary op a b)
  from Binary.prems(1) obtain w \<tau> where a: "aval a \<sigma> = Inr (w, \<tau>)" by (auto split: sum.splits)
  note w = Binary.IH(1) [OF a Binary.prems(2)]
  show ?case
  proof (cases "decides op w")
    case False
    then obtain y where "aval b \<tau> = Inr (y, \<sigma>')" "bin_value op w y = Inr v" using Binary.prems(1) a by (auto split: sum.splits)
    then show ?thesis using Binary.IH(2) [of \<tau> y \<sigma>'] w bin_value_intmax by blast
  qed (use Binary.prems a w in auto)
next
  case (Cond c a b)
  then show ?case by (fastforce split: sum.splits if_splits)
next
  case (OpAssign op x e)
  then obtain w \<tau> where a: "aval e \<sigma> = Inr (w, \<tau>)" "bin_value op (\<sigma> x) w = Inr v" "\<sigma>' = \<tau>(x := v)" by (auto simp: Let_def split: sum.splits)
  then show ?case using OpAssign.IH [OF a(1) OpAssign.prems(2)] bin_value_intmax [OF a(2)] OpAssign.prems(2) by auto
qed (auto simp: Let_def split: sum.splits)

subsection \<open>Variables that hold integers\<close>

definition int_var :: "int \<Rightarrow> shell_var option \<Rightarrow> bool" where
  "int_var n v \<longleftrightarrow> (case v of None \<Rightarrow> n = 0 | Some v \<Rightarrow> \<not> att_readonly v \<and> \<not> att_noassign v \<and>
     (case var_value v of None \<Rightarrow> n = 0 | Some t \<Rightarrow> t = [] \<and> n = 0 \<or> t = itos n))"

definition int_vars :: "env \<Rightarrow> (string \<rightharpoonup> shell_var) \<Rightarrow> bool" where
  "int_vars \<sigma> tbl \<longleftrightarrow> (\<forall>x. intmax (\<sigma> x) \<and> int_var (\<sigma> x) (tbl x))"

lemma int_vars_bind:
  assumes "int_vars \<sigma> tbl" and "intmax v"
  shows "int_vars (\<sigma>(x := v)) (bind_int_variable x (itos v) tbl)"
    "\<exists>w. bind_int_variable x (itos v) tbl x = Some w \<and> \<not> att_readonly w \<and> \<not> att_noassign w"
proof -
  have x: "case tbl x of None \<Rightarrow> True | Some v \<Rightarrow> \<not> att_readonly v \<and> \<not> att_noassign v"
    using assms(1) by (auto simp: int_vars_def int_var_def split: option.splits)
  then have b: "\<exists>w. bind_int_variable x (itos v) tbl = tbl(x \<mapsto> w) \<and> \<not> att_readonly w \<and> \<not> att_noassign w \<and> var_value w = Some (itos v)"
    by (cases "tbl x") (auto simp: bind_int_variable_def bind_variable_def)
  then show "int_vars (\<sigma>(x := v)) (bind_int_variable x (itos v) tbl)" using assms by (auto simp: int_vars_def int_var_def [of v])
  show "\<exists>w. bind_int_variable x (itos v) tbl x = Some w \<and> \<not> att_readonly w \<and> \<not> att_noassign w" using b by auto
qed

lemma bind_int:
  assumes "int_vars \<sigma> (vars s)" and "intmax v"
  shows "expr_bind_variable x (itos v) s = Some (Done 0 (s\<lparr>vars := bind_int_variable x (itos v) (vars s)\<rparr>))"
  using int_vars_bind(2) [OF assms, of x] by (auto simp: expr_bind_variable_def Let_def)

subsection \<open>From one level to the next\<close>

definition proc_at :: "nat \<Rightarrow> proc" where
  "proc_at l = [Expcomma, Expassign, Expcond, Explor, Expland, Expbor, Expbxor, Expband, Exp5, Exp4, Expshift, Exp3, Exp2, Exppower, Exp1, Exp0] ! l"

text \<open>What a level still does once it has the value of its first operand.\<close>

definition finish :: "nat \<Rightarrow> int \<Rightarrow> comp" where
  "finish l v s = (
     if l = 0 then ev (Expcomma_loop v) s else if l = 3 then ev (Explor_loop v) s else if l = 4 then ev (Expland_loop v) s
     else if l = 5 then ev (Expbor_loop v) s else if l = 6 then ev (Expbxor_loop v) s else if l = 7 then ev (Expband_loop v) s
     else if l = 8 then ev (Exp5_loop v) s else if l = 9 then ev (Exp4_loop v) s else if l = 10 then ev (Expshift_loop v) s
     else if l = 11 then ev (Exp3_loop v) s else if l = 12 then ev (Exp2_loop v) s else Some (Done v s))"

definition op_level :: "token \<Rightarrow> nat option" where
  "op_level t = (if t = COMMA then Some 0 else if t = EQ \<or> t = OP_ASSIGN then Some 1 else if t = QUES then Some 2
     else if t = LOR then Some 3 else if t = LAND then Some 4 else if t = BOR then Some 5 else if t = BXOR then Some 6
     else if t = BAND then Some 7 else if t = EQEQ \<or> t = NEQ then Some 8 else if t = LEQ \<or> t = GEQ \<or> t = LT \<or> t = GT then Some 9
     else if t = LSH \<or> t = RSH then Some 10 else if t = PLUS \<or> t = MINUS then Some 11
     else if t = MUL \<or> t = DIV \<or> t = MOD then Some 12 else if t = POWER then Some 13 else None)"

lemma level_cases:
  assumes "(l::nat) \<le> 14"
  obtains "l = 0" | "l = 1" | "l = 2" | "l = 3" | "l = 4" | "l = 5" | "l = 6" | "l = 7" | "l = 8" | "l = 9" | "l = 10" | "l = 11" | "l = 12" | "l = 13" | "l = 14"
  using assms by (auto simp: numeral_nat le_Suc_eq)

lemma op_level_iff:
  "op_level t = Some 1 \<longleftrightarrow> t = EQ \<or> t = OP_ASSIGN" "op_level t = Some 2 \<longleftrightarrow> t = QUES" "op_level t = Some 13 \<longleftrightarrow> t = POWER"
  "op_level t = Some (Suc 0) \<longleftrightarrow> t = EQ \<or> t = OP_ASSIGN"
  by (auto simp: op_level_def)

lemma op_levels [simp]:
  "op_level COMMA = Some 0" "op_level QUES = Some 2" "op_level LOR = Some 3" "op_level LAND = Some 4" "op_level BOR = Some 5"
  "op_level BXOR = Some 6" "op_level BAND = Some 7" "op_level EQEQ = Some 8" "op_level NEQ = Some 8" "op_level LEQ = Some 9"
  "op_level GEQ = Some 9" "op_level LT = Some 9" "op_level GT = Some 9" "op_level LSH = Some 10" "op_level RSH = Some 10"
  "op_level PLUS = Some 11" "op_level MINUS = Some 11" "op_level MUL = Some 12" "op_level DIV = Some 12" "op_level MOD = Some 12"
  "op_level POWER = Some 13" "op_level TOK0 = None" "op_level RPAR = None" "op_level COL = None"
  by (simp_all add: op_level_def)

lemma loop_exits:
  "curtok s \<noteq> COMMA \<Longrightarrow> ev (Expcomma_loop v) s = Some (Done v s)" "curtok s \<noteq> LOR \<Longrightarrow> ev (Explor_loop v) s = Some (Done v s)"
  "curtok s \<noteq> LAND \<Longrightarrow> ev (Expland_loop v) s = Some (Done v s)" "curtok s \<noteq> BOR \<Longrightarrow> ev (Expbor_loop v) s = Some (Done v s)"
  "curtok s \<noteq> BXOR \<Longrightarrow> ev (Expbxor_loop v) s = Some (Done v s)" "curtok s \<noteq> BAND \<Longrightarrow> ev (Expband_loop v) s = Some (Done v s)"
  "curtok s \<noteq> EQEQ \<Longrightarrow> curtok s \<noteq> NEQ \<Longrightarrow> ev (Exp5_loop v) s = Some (Done v s)"
  "curtok s \<noteq> LEQ \<Longrightarrow> curtok s \<noteq> GEQ \<Longrightarrow> curtok s \<noteq> LT \<Longrightarrow> curtok s \<noteq> GT \<Longrightarrow> ev (Exp4_loop v) s = Some (Done v s)"
  "curtok s \<noteq> LSH \<Longrightarrow> curtok s \<noteq> RSH \<Longrightarrow> ev (Expshift_loop v) s = Some (Done v s)"
  "curtok s \<noteq> PLUS \<Longrightarrow> curtok s \<noteq> MINUS \<Longrightarrow> ev (Exp3_loop v) s = Some (Done v s)"
  "curtok s \<noteq> MUL \<Longrightarrow> curtok s \<noteq> DIV \<Longrightarrow> curtok s \<noteq> MOD \<Longrightarrow> ev (Exp2_loop v) s = Some (Done v s)"
  by (simp_all add: ev_simps expcomma_loop_def explor_loop_def expland_loop_def expbor_loop_def expbxor_loop_def expband_loop_def
    exp5_loop_def exp4_loop_def expshift_loop_def exp3_loop_def exp2_loop_def)

lemma finish_exits:
  assumes "op_level (curtok s) \<noteq> Some l" shows "finish l v s = Some (Done v s)"
proof -
  have "curtok s \<noteq> t" if "op_level t = Some l" for t using assms that by auto
  then show ?thesis by (simp add: finish_def loop_exits)
qed

lemma entries:
  "ev Expcomma s = and_then (ev Expassign s) (\<lambda>v. ev (Expcomma_loop v))"
  "ev Explor s = and_then (ev Expland s) (\<lambda>v. ev (Explor_loop v))"
  "ev Expland s = and_then (ev Expbor s) (\<lambda>v. ev (Expland_loop v))"
  "ev Expbor s = and_then (ev Expbxor s) (\<lambda>v. ev (Expbor_loop v))"
  "ev Expbxor s = and_then (ev Expband s) (\<lambda>v. ev (Expbxor_loop v))"
  "ev Expband s = and_then (ev Exp5 s) (\<lambda>v. ev (Expband_loop v))"
  "ev Exp5 s = and_then (ev Exp4 s) (\<lambda>v. ev (Exp5_loop v))"
  "ev Exp4 s = and_then (ev Expshift s) (\<lambda>v. ev (Exp4_loop v))"
  "ev Expshift s = and_then (ev Exp3 s) (\<lambda>v. ev (Expshift_loop v))"
  "ev Exp3 s = and_then (ev Exp2 s) (\<lambda>v. ev (Exp3_loop v))"
  "ev Exp2 s = and_then (ev Exppower s) (\<lambda>v. ev (Exp2_loop v))"
  "ev Exppower s = and_then (ev Exp1 s) (\<lambda>v. ev (Exppower_loop v))"
  by (subst ev_simps, simp only: expcomma_def explor_def expland_def expbor_def expbxor_def expband_def exp5_def exp4_def
    expshift_def exp3_def exp2_def exppower_def)+

text \<open>A level calls the next one for its first operand; the unary level does so unless it is at a unary operator.\<close>

definition unary_start :: "expr_state \<Rightarrow> bool" where
  "unary_start s \<longleftrightarrow> curtok s \<in> {LNOT, BNOT, MINUS, PLUS}"

lemma operand_entry: "\<not> unary_start s \<Longrightarrow> ev Exp1 s = ev Exp0 s"
  unfolding ev_simps(30) by (simp add: exp1_def unary_start_def)

lemma assign_entry: "ev Expcond s = Some (Done v s') \<Longrightarrow> op_level (curtok s') \<noteq> Some 1 \<Longrightarrow> ev Expassign s = Some (Done v s')"
  unfolding ev_simps(6) by (simp add: expassign_def op_level_iff)

lemma cond_entry: "ev Explor s = Some (Done v s') \<Longrightarrow> op_level (curtok s') \<noteq> Some 2 \<Longrightarrow> ev Expcond s = Some (Done v s')"
  unfolding ev_simps(7) by (simp add: expcond_def op_level_iff)

lemma power_entry: "ev Exp1 s = Some (Done v s') \<Longrightarrow> op_level (curtok s') \<noteq> Some 13 \<Longrightarrow> ev Exppower s = Some (Done v s')"
  unfolding entries(12) by (simp add: ev_simps(29) exppower_loop_def op_level_iff)

lemma level_done:
  assumes "l \<le> 14" and "ev (proc_at (Suc l)) s = Some (Done v s')" and "l = 14 \<Longrightarrow> \<not> unary_start s"
    and "l \<in> {1, 2, 13} \<Longrightarrow> op_level (curtok s') \<noteq> Some l"
  shows "ev (proc_at l) s = finish l v s'"
proof -
  have e: "ev (proc_at l) s = and_then (ev (proc_at (Suc l)) s) (finish l)" if "l \<notin> {1, 2, 13, 14}"
    using assms(1) that by (cases rule: level_cases) (simp_all add: proc_at_def finish_def [abs_def], simp_all only: entries)
  have "l = 1 \<Longrightarrow> ?thesis" "l = 2 \<Longrightarrow> ?thesis" "l = 13 \<Longrightarrow> ?thesis" "l = 14 \<Longrightarrow> ?thesis"
    using assms(2-4) assign_entry [of s v s'] cond_entry [of s v s'] power_entry [of s v s'] operand_entry [of s]
    by (simp_all add: proc_at_def finish_def)
  then show ?thesis using e assms(2) by (cases "l \<in> {1, 2, 13, 14}") auto
qed

lemma level_stops:
  assumes "l \<le> 14" and "ev (proc_at (Suc l)) s = Some (Stop e s')" and "l = 14 \<Longrightarrow> \<not> unary_start s"
  shows "ev (proc_at l) s = Some (Stop e s')"
proof -
  have e: "\<exists>f. ev (proc_at l) s = and_then (ev (proc_at (Suc l)) s) f" if "l \<noteq> 14"
    using assms(1) that
  proof (cases rule: level_cases)
    case 2
    then show ?thesis by (auto simp: proc_at_def ev_simps(6) expassign_def simp del: and_then_simps)
  next
    case 3
    then show ?thesis by (auto simp: proc_at_def ev_simps(7) expcond_def simp del: and_then_simps)
  qed (simp_all add: proc_at_def, (simp only: entries, blast)+)
  have "l = 14 \<Longrightarrow> ?thesis" using assms(2,3) operand_entry [of s] by (simp add: proc_at_def)
  then show ?thesis using e assms(2) by (cases "l = 14") auto
qed

subsection \<open>States that correspond\<close>

text \<open>\<open>on \<sigma> s ts\<close>: the first of the tokens is the current one, the others are ahead.\<close>

definition on :: "env \<Rightarrow> expr_state \<Rightarrow> atok list \<Rightarrow> bool" where
  "on \<sigma> s ts \<longleftrightarrow> (case ts of [] \<Rightarrow> curtok s = TOK0
     | t # ts' \<Rightarrow> (\<exists>txt. faces s txt \<and> spelled ts' txt) \<and> token_ok t \<and> curtok s = code t \<and>
         (\<forall>n. t = TNum n \<longrightarrow> strlong n = Inr (tokval s)) \<and>
         (\<forall>x. t = TName x \<longrightarrow> tokstr s = Some x \<and> (noeval s = 0 \<and> (ts' = [] \<or> hd ts' \<noteq> TOp EQ) \<longrightarrow> tokval s = \<sigma> x)) \<and>
         (\<forall>a. t = TAssign a \<longrightarrow> assigntok s = a))"

definition ready :: "env \<Rightarrow> expr_state \<Rightarrow> bool" where
  "ready \<sigma> s \<longleftrightarrow> int_vars \<sigma> (vars s) \<and> \<not> unbound_vars_is_error s \<and> length (expr_stack s) < MAX_EXPR_RECURSION_LEVEL \<and> 0 \<le> noeval s"

definition keeps :: "expr_state \<Rightarrow> expr_state \<Rightarrow> bool" where
  "keeps s s' \<longleftrightarrow> expression s' = expression s \<and> expr_stack s' = expr_stack s \<and>
     unbound_vars_is_error s' = unbound_vars_is_error s \<and> noeval s' = noeval s"

lemma keeps_refl [simp]: "keeps s s" by (simp add: keeps_def)

lemma keeps_trans: "keeps s t \<Longrightarrow> keeps t u \<Longrightarrow> keeps s u" by (simp add: keeps_def)

lemma same_frame_keeps: "same_frame s t \<Longrightarrow> keeps s t" by (simp add: same_frame_def keeps_def)

lemma ready_frame: "same_frame s t \<Longrightarrow> ready \<sigma> s \<Longrightarrow> ready \<sigma> t" by (simp add: same_frame_def ready_def)

text \<open>The tokens that may come after an operand read at a level.\<close>

definition follows :: "nat \<Rightarrow> atok list \<Rightarrow> bool" where
  "follows l rest \<longleftrightarrow> rest = [] \<or> (\<exists>t ts. rest = TOp t # ts \<and> (t = RPAR \<or> t = COL \<or>
     (\<exists>k. op_level t = Some k \<and> k \<noteq> 1 \<and> (k < l \<or> k = l \<and> l \<notin> {2, 13}))))"

lemma follows_mono: "follows l rest \<Longrightarrow> l \<le> n \<Longrightarrow> follows n rest"
proof (cases "l = n")
  case False
  assume "follows l rest" "l \<le> n"
  moreover have "k < n" if "k < l \<or> k = l \<and> l \<notin> {2, 13}" for k using that False \<open>l \<le> n\<close> by auto
  ultimately show ?thesis unfolding follows_def by blast
qed simp

lemma follows_level:
  assumes "follows l rest" and "on \<sigma> s rest"
  shows "\<And>k. l < k \<Longrightarrow> op_level (curtok s) \<noteq> Some k" and "l \<in> {1, 2, 13} \<Longrightarrow> op_level (curtok s) \<noteq> Some l" and "op_level (curtok s) \<noteq> Some 1"
proof -
  have "op_level (curtok s) = None \<or> (\<exists>k. op_level (curtok s) = Some k \<and> k \<noteq> 1 \<and> (k < l \<or> k = l \<and> l \<notin> {2, 13}))"
    using assms unfolding follows_def on_def by (elim disjE exE conjE) simp_all
  then show "\<And>k. l < k \<Longrightarrow> op_level (curtok s) \<noteq> Some k" and "l \<in> {1, 2, 13} \<Longrightarrow> op_level (curtok s) \<noteq> Some l" and "op_level (curtok s) \<noteq> Some 1"
    by (elim disjE exE conjE; simp)+
qed

text \<open>
  The claim about an expression: on its tokens at level \<open>l\<close> the evaluator behaves as the reference semantics says, and
  goes on with the tokens after it; with evaluation suppressed it changes nothing.
\<close>

definition agrees :: "nat \<Rightarrow> aexp \<Rightarrow> env \<Rightarrow> expr_state \<Rightarrow> atok list \<Rightarrow> bool" where
  "agrees l e \<sigma> s rest \<longleftrightarrow>
     (\<exists>v s' \<sigma>'. ev (proc_at l) s = finish l v s' \<and> on \<sigma>' s' rest \<and> ready \<sigma>' s' \<and> keeps s s' \<and>
        (if noeval s = 0 then aval e \<sigma> = Inr (v, \<sigma>') else \<sigma>' = \<sigma>) \<and> (\<forall>t. e = Num t \<longrightarrow> strlong t = Inr v)) \<or>
     (\<exists>m t s'. noeval s = 0 \<and> aval e \<sigma> = Inl m \<and> ev (proc_at l) s = Some (Stop (EvalError m t) s'))"

lemma agrees_step:
  assumes "agrees (Suc l) e \<sigma> s rest" and "follows l rest" and "l \<le> 14" and "l = 14 \<Longrightarrow> \<not> unary_start s"
  shows "agrees l e \<sigma> s rest"
  using assms(1) unfolding agrees_def
proof (elim disjE exE conjE, goal_cases)
  case (1 v s' \<sigma>')
  note f = follows_level [OF assms(2) 1(2)]
  have "ev (proc_at (Suc l)) s = Some (Done v s')" unfolding 1(1) by (rule finish_exits) (rule f(1), simp)
  then have "ev (proc_at l) s = finish l v s'" by (rule level_done [OF assms(3) _ assms(4) f(2)])
  then show ?case using 1 by blast
next
  case (2 m t s')
  then show ?case using level_stops [OF assms(3) 2(3) assms(4)] by blast
qed

lemma agrees_down:
  assumes "agrees k e \<sigma> s rest" and "l \<le> k" and "follows l rest" and "k \<le> 15" and "k = 15 \<Longrightarrow> \<not> unary_start s"
  shows "agrees l e \<sigma> s rest"
  using assms(2,1,3-5)
proof (induction k rule: dec_induct)
  case (step n)
  have "follows n rest" using step.prems(2) step.hyps(1) by (rule follows_mono)
  then have "agrees n e \<sigma> s rest" using step.prems step.hyps by (auto intro: agrees_step [OF step.prems(1)])
  then show ?case using step by auto
qed

lemma chain:
  assumes "ev (proc_at k) s = Some (Done v s')" and "l \<le> k" and "k \<le> 15" and "k = 15 \<Longrightarrow> \<not> unary_start s"
    and "\<And>j. l \<le> j \<Longrightarrow> op_level (curtok s') \<noteq> Some j"
  shows "ev (proc_at l) s = Some (Done v s')"
  using assms(2,1,3-5)
proof (induction k rule: dec_induct)
  case (step n)
  have "ev (proc_at n) s = finish n v s'" using step by (intro level_done) auto
  also have "\<dots> = Some (Done v s')" using step.prems(4) step.hyps(1) by (intro finish_exits) auto
  finally show ?case using step by auto
qed

subsection \<open>The value of a variable\<close>

lemma strlong_decimal_value: "strlong (decimal k) = Inr (to_intmax (int k))"
proof (cases "k = 0")
  case True
  have "FMTCHAR 0 = CHR ''0''" by code_simp
  then have "decimal k = ''0''" using True by (subst fmt_div.simps) (simp add: Let_def)
  then show ?thesis using True by (simp add: strlong_def to_intmax_def)
next
  case False
  then show ?thesis using decimal_value [of k] decimal_no_leading_zero [of k] strlong_decimal [of "decimal k"] by simp
qed

lemma decimal_token: "token_ok (TNum (decimal k))" "\<not> cr_whitespace (hd (decimal k))" "hd (decimal k) \<noteq> CHR ''-''" "hd (decimal k) \<noteq> CHR ''=''"
proof -
  have d: "decimal k \<noteq> []" "\<forall>c \<in> set (decimal k). DIGIT c" using decimal_digits [of k] decimal_digit by (auto simp: list_all_iff)
  then have "DIGIT (hd (decimal k))" by simp
  then show "\<not> cr_whitespace (hd (decimal k))" "hd (decimal k) \<noteq> CHR ''-''" "hd (decimal k) \<noteq> CHR ''=''"
    by (auto simp: cr_whitespace_def whitespace_def DIGIT_def uchar_def)
  show "token_ok (TNum (decimal k))" using d \<open>DIGIT (hd (decimal k))\<close> strlong_decimal_value [of k]
    by (auto simp: list_all_iff num_char_def ISALNUM_def)
qed

lemma number_operand:
  assumes "curtok s = NUM" and "faces s []"
  shows "\<exists>s'. ev Exp0 s = Some (Done (tokval s) s') \<and> token_done s TOK0 [] s' \<and> assigntok s' = assigntok s"
proof -
  obtain s' where "ev Readtok s = Some (Done 0 s')" "token_done s TOK0 [] s'" "assigntok s' = assigntok s" using read_end [of s "[]"] assms(2) by auto
  then show ?thesis using assms(1) by (simp add: ev_simps(31) exp0_def Let_def)
qed

lemma subexpr_decimal:
  assumes "length (expr_stack s) < MAX_EXPR_RECURSION_LEVEL"
  shows "ev (Subexpr (decimal k)) s = Some (Done (to_intmax (int k)) s) \<and> ev (Subexpr (CHR ''-'' # decimal k)) s = Some (Done (to_intmax (- int k)) s)"
proof -
  let ?t = "\<lambda>e. s\<lparr>expr_stack := SAVETOK s # expr_stack s, expression := e, tp := 0, curtok := TOK0, lasttok := TOK0, tokstr := None, tokval := 0\<rparr>"
  have pops: "popexp u = Some (Done 0 s)" if "same_frame (?t e) u" "assigntok u = assigntok s" for e u
    using that by (simp add: popexp_def same_frame_def restored_context)
  have sub: "ev (Subexpr e) s = Some (Done v s)"
    if "\<not> list_all cr_whitespace e" "ev Readtok (?t e) = Some (Done 0 u)" "ev Expcomma u = Some (Done v w)" "curtok w = TOK0" "same_frame (?t e) w"
      "assigntok w = assigntok s" for e u v w
    using that pops [OF that(5,6)] assms unfolding ev_simps(3) subexpr_def by (simp add: pushexp_def Let_def)
  let ?d = "decimal k"
  note d = decimal_token [of k] decimal_value(3) [of k]
  have nonblank: "\<not> list_all cr_whitespace ?d" using d(2,5) by (cases ?d) auto
  have num: "\<exists>u. ev Readtok t = Some (Done 0 u) \<and> same_frame t u \<and> assigntok u = assigntok t \<and> curtok u = NUM \<and> tokval u = to_intmax (int k) \<and> faces u []"
    if "faces t ?d" for t
    using read_token [of t "[]" "TNum ?d" "[]"] that d(1) strlong_decimal_value [of k]
    by (auto simp: token_done_def num_char_def ISALNUM_def ISALPHA_def ISUPPER_def ISLOWER_def DIGIT_def uchar_def)
  have "ev (Subexpr ?d) s = Some (Done (to_intmax (int k)) s)"
  proof -
    have "faces (?t ?d) ?d" by (simp add: faces_def)
    then obtain u where u: "ev Readtok (?t ?d) = Some (Done 0 u)" "same_frame (?t ?d) u" "assigntok u = assigntok s" "curtok u = NUM" "tokval u = to_intmax (int k)" "faces u []"
      using num [of "?t ?d"] by auto
    then obtain w where w: "ev Exp0 u = Some (Done (to_intmax (int k)) w)" "token_done u TOK0 [] w" "assigntok w = assigntok s" using number_operand [of u] by auto
    have "ev (proc_at 0) u = Some (Done (to_intmax (int k)) w)"
      by (rule chain [of 15]) (use w u(4) in \<open>auto simp: proc_at_def unary_start_def token_done_def\<close>)
    then show ?thesis
      using nonblank u w by (intro sub [of _ u _ w]) (auto simp: proc_at_def token_done_def same_frame_def)
  qed
  moreover have "ev (Subexpr (CHR ''-'' # ?d)) s = Some (Done (to_intmax (- int k)) s)"
  proof -
    let ?e = "CHR ''-'' # ?d"
    have "faces (?t ?e) ([] @ spell_token (TOp MINUS) @ ?d)" by (simp add: faces_def)
    moreover have "ends_ok (TOp MINUS) (char_at ?d 0)" using d by (cases ?d) auto
    ultimately obtain u where u: "ev Readtok (?t ?e) = Some (Done 0 u)" "token_done (?t ?e) MINUS ?d u" "assigntok u = assigntok s"
      using read_token [of "?t ?e" "[]" "TOp MINUS" ?d] by (auto simp: plain_ops_def)
    then obtain w where w: "ev Readtok u = Some (Done 0 w)" "same_frame u w" "assigntok w = assigntok s" "curtok w = NUM" "tokval w = to_intmax (int k)" "faces w []"
      using num [of u] by (auto simp: token_done_def)
    then obtain x where x: "ev Exp0 w = Some (Done (to_intmax (int k)) x)" "token_done w TOK0 [] x" "assigntok x = assigntok s" using number_operand [of w] by auto
    have "ev Exp1 w = Some (Done (to_intmax (int k)) x)" using operand_entry [of w] w(4) x(1) by (simp add: unary_start_def)
    then have "ev Exp1 u = Some (Done (to_intmax (- to_intmax (int k))) (x\<lparr>lasttok := NUM\<rparr>))"
      using u(2) w(1) unfolding ev_simps(30) [of u] exp1_def by (simp add: token_done_def)
    moreover have "to_intmax (- to_intmax (int k)) = to_intmax (- int k)"
      unfolding to_intmax_mod using to_intmax_cong [of "int k"] by (metis mod_minus_eq)
    ultimately have "ev (proc_at 14) u = Some (Done (to_intmax (- int k)) (x\<lparr>lasttok := NUM\<rparr>))" by (simp add: proc_at_def)
    then have "ev (proc_at 0) u = Some (Done (to_intmax (- int k)) (x\<lparr>lasttok := NUM\<rparr>))"
      by (rule chain) (use x(2) in \<open>auto simp: token_done_def\<close>)
    then show ?thesis
      using d u w x by (intro sub [of _ u _ "x\<lparr>lasttok := NUM\<rparr>"])
        (auto simp: proc_at_def token_done_def same_frame_def cr_whitespace_def whitespace_def)
  qed
  ultimately show ?thesis ..
qed

lemma streval_int:
  assumes "ready \<sigma> s" and "noeval s = 0" shows "ev (Expr_streval x) s = Some (Done (\<sigma> x) s)"
proof -
  have i: "intmax (\<sigma> x)" "int_var (\<sigma> x) (vars s x)" using assms(1) by (auto simp: ready_def int_vars_def)
  have l: "length (expr_stack s) < MAX_EXPR_RECURSION_LEVEL" "\<not> unbound_vars_is_error s" using assms(1) by (auto simp: ready_def)
  have "itos (\<sigma> x) = (if \<sigma> x < 0 then ''-'' else []) @ decimal (nat \<bar>\<sigma> x\<bar>)" using i(1) by (intro itos_eq) (auto simp: intmax_def)
  then have "ev (Subexpr (itos (\<sigma> x))) s = Some (Done (\<sigma> x) s)"
    using subexpr_decimal [OF l(1), of "nat \<bar>\<sigma> x\<bar>"] to_intmax_id [OF i(1)] by (cases "\<sigma> x < 0") auto
  moreover have "itos (\<sigma> x) \<noteq> []" using decimal_value(3) itos_eq [of "\<sigma> x"] i(1) by (auto simp: intmax_def)
  ultimately show ?thesis
    using i(2) l(2) assms(2) unfolding ev_simps(2) expr_streval_def get_variable_value_def int_var_def
    by (auto simp: Let_def split: option.splits)
qed

subsection \<open>Reading the tokens of an expression\<close>

text \<open>After an operand: the end, an operator, or an increment after a name.\<close>

definition operator_next :: "expr_state \<Rightarrow> atok list \<Rightarrow> bool" where
  "operator_next s ts \<longleftrightarrow> ts = [] \<or> (\<exists>t. hd ts = TOp t) \<or> (\<exists>a. hd ts = TAssign a) \<or> curtok s = TSTR \<and> (\<exists>b. hd ts = TPost b)"

lemma read_next:
  assumes "faces s txt" and "spelled ts txt" and "operator_next s ts"
  shows "\<exists>s'. ev Readtok s = Some (Done 0 s') \<and> on \<sigma> s' ts \<and> same_frame s s' \<and> tokstr s' = tokstr s \<and> lasttok s' = curtok s"
proof (cases ts)
  case Nil
  then have "list_all cr_whitespace txt" using assms(2) by (auto elim: spelled_NilE)
  then show ?thesis using read_end [of s "txt"] assms(1) Nil by (auto simp: token_done_def on_def)
next
  case (Cons t ts')
  obtain ws rest where w: "txt = ws @ spell_token t @ rest" "list_all cr_whitespace ws" "token_ok t" "ends_ok t (char_at rest 0)" "spelled ts' rest"
    using assms(2) unfolding Cons by (auto elim: spelled_ConsE)
  have "\<exists>s'. ev Readtok s = Some (Done 0 s') \<and> token_done s (code t) rest s' \<and> tokstr s' = tokstr s \<and>
    (\<forall>n. t = TNum n \<longrightarrow> strlong n = Inr (tokval s')) \<and> assigntok s' = (case t of TAssign a \<Rightarrow> a | _ \<Rightarrow> assigntok s)"
    using assms(1,3) w Cons by (intro read_token) (auto simp: operator_next_def)
  then show ?thesis using w(3,5) assms(3) Cons by (auto simp: token_done_def on_def operator_next_def)
qed

text \<open>The first token of an expression.\<close>

fun starts :: "atok list \<Rightarrow> bool" where
  "starts (TName x # ts) \<longleftrightarrow> ts = [] \<or> (\<exists>t. hd ts = TOp t) \<or> (\<exists>a. hd ts = TAssign a) \<or> (\<exists>b. hd ts = TPost b)"
| "starts (TPre b # ts) \<longleftrightarrow> (\<exists>x ts'. ts = TName x # ts')"
| "starts (TNum n # ts) \<longleftrightarrow> True"
| "starts (TOp t # ts) \<longleftrightarrow> True"
| "starts _ \<longleftrightarrow> False"

lemma name_starts:
  assumes "spelled (TName x # ts) txt" shows "starts_name txt"
proof -
  obtain ws rest where w: "txt = ws @ x @ rest" "list_all cr_whitespace ws" "legal_identifier x" using assms by (auto elim: spelled_ConsE)
  obtain c y where x: "x = c # y" using w(3) by (cases x) (auto simp: legal_identifier_def)
  have "\<not> cr_whitespace c" "legal_variable_starter c"
    using w(3) x spell_token_first(2) [of "TName x"] by (auto simp: legal_identifier_def)
  then have "dropWhile cr_whitespace txt = x @ rest" using w(1,2) x by (simp add: dropWhile_append list_all_iff)
  then show ?thesis using x \<open>legal_variable_starter c\<close> by (simp add: starts_name_def)
qed

lemma read_name_on:
  assumes "faces s txt" and "spelled (TName x # ts) txt" and "starts (TName x # ts)" and "ready \<sigma> s"
  shows "\<exists>s'. ev Readtok s = Some (Done 0 s') \<and> on \<sigma> s' (TName x # ts) \<and> same_frame s s' \<and> lasttok s' = curtok s"
proof -
  obtain ws rest where w: "txt = ws @ x @ rest" "list_all cr_whitespace ws" "legal_identifier x" "ends_ok (TName x) (char_at rest 0)" "spelled ts rest"
    using assms(2) by (auto elim: spelled_ConsE)
  let ?k = "if ts = [] then TOK0 else code (hd ts)"
  have peek: "\<exists>t'. ev Readtok t = Some (Done 0 t') \<and> same_frame t t' \<and> curtok t' = ?k" if "faces t rest" "curtok t = TSTR" for t
    using read_next [OF that(1) w(5), of \<sigma>] that(2) assms(3) by (cases ts) (auto simp: operator_next_def on_def)
  have val: "ev (Expr_streval x) r = Some (Done (if noeval s = 0 then \<sigma> x else 0) r)" if "same_frame s r" for r
    using streval_int [OF ready_frame [OF that assms(4)]] that by (auto simp: same_frame_def ev_simps(2) expr_streval_def)
  have "\<exists>s'. ev Readtok s = Some (Done 0 s') \<and> token_done s TSTR rest s' \<and> tokstr s' = Some x \<and>
    (lasttok s = PREINC \<or> lasttok s = PREDEC \<or> ?k \<noteq> EQ \<longrightarrow> tokval s' = (if noeval s = 0 then \<sigma> x else 0))"
    using assms(1) w(1) by (intro read_name [OF _ w(2-4) peek val]) auto
  then obtain s' where s': "ev Readtok s = Some (Done 0 s')" "token_done s TSTR rest s'" "tokstr s' = Some x"
    "?k \<noteq> EQ \<longrightarrow> tokval s' = (if noeval s = 0 then \<sigma> x else 0)" by blast
  have "?k \<noteq> EQ" if "ts = [] \<or> hd ts \<noteq> TOp EQ" using that assms(3) by (cases "ts = []") (auto split: if_splits)
  then show ?thesis using s' w(3,5) by (auto simp: on_def token_done_def same_frame_def)
qed

lemma read_start:
  assumes "faces s txt" and "spelled ts txt" and "starts ts" and "ready \<sigma> s" and "curtok s \<noteq> TSTR"
  shows "\<exists>s'. ev Readtok s = Some (Done 0 s') \<and> on \<sigma> s' ts \<and> same_frame s s' \<and> lasttok s' = curtok s"
proof -
  obtain t ts' where ts: "ts = t # ts'" using assms(3) by (cases ts) auto
  show ?thesis
  proof (cases "\<exists>x. t = TName x")
    case True
    then show ?thesis using read_name_on assms ts by blast
  next
    case False
    obtain ws rest where w: "txt = ws @ spell_token t @ rest" "list_all cr_whitespace ws" "token_ok t" "ends_ok t (char_at rest 0)" "spelled ts' rest"
      using assms(2) unfolding ts by (auto elim: spelled_ConsE)
    have "\<exists>s'. ev Readtok s = Some (Done 0 s') \<and> token_done s (code t) rest s' \<and> tokstr s' = tokstr s \<and>
      (\<forall>n. t = TNum n \<longrightarrow> strlong n = Inr (tokval s')) \<and> assigntok s' = (case t of TAssign a \<Rightarrow> a | _ \<Rightarrow> assigntok s)"
      using assms w ts False name_starts by (intro read_token) (cases t; auto)+
    then show ?thesis using w(3,5) False ts by (auto simp: token_done_def on_def)
  qed
qed

end
