(* ===== verification/ExprCorrect.thy ===== *)
theory ExprCorrect
  imports ExprSem
begin

text \<open>
  The evaluator agrees with the reference semantics: one lemma for each kind of expression, over the lemmas
  on levels and tokens, then the induction over expressions and the statement about \<open>evalexp\<close>.
\<close>

subsection \<open>Changes that do not matter\<close>

lemma on_operator: "on \<sigma> s (TOp t # ts) \<longleftrightarrow> curtok s = t \<and> t \<in> set plain_ops \<and> (\<exists>txt. faces s txt \<and> spelled ts txt)"
  by (auto simp: on_def)

lemma faces_simps [simp]:
  "faces (s\<lparr>lasttok := t\<rparr>) txt \<longleftrightarrow> faces s txt" "faces (s\<lparr>noeval := n\<rparr>) txt \<longleftrightarrow> faces s txt" "faces (s\<lparr>tokstr := x\<rparr>) txt \<longleftrightarrow> faces s txt"
  "faces (s\<lparr>vars := e\<rparr>) txt \<longleftrightarrow> faces s txt" "faces (s\<lparr>curtok := t\<rparr>) txt \<longleftrightarrow> faces s txt" "faces (s\<lparr>assigntok := t\<rparr>) txt \<longleftrightarrow> faces s txt"
  by (simp_all add: faces_def)

lemma on_lasttok [simp]: "on \<sigma> (s\<lparr>lasttok := t\<rparr>) ts \<longleftrightarrow> on \<sigma> s ts"
  by (simp add: on_def split: list.splits)

lemma ready_simps [simp]:
  "ready \<sigma> (s\<lparr>lasttok := t\<rparr>) \<longleftrightarrow> ready \<sigma> s" "ready \<sigma> (s\<lparr>curtok := t\<rparr>) \<longleftrightarrow> ready \<sigma> s" "ready \<sigma> (s\<lparr>tokstr := x\<rparr>) \<longleftrightarrow> ready \<sigma> s"
  "ready \<sigma> s \<Longrightarrow> 0 \<le> n \<Longrightarrow> ready \<sigma> (s\<lparr>noeval := n\<rparr>)"
  by (auto simp: ready_def)

lemma keeps_simps [simp]:
  "keeps s (t\<lparr>lasttok := x\<rparr>) \<longleftrightarrow> keeps s t" "keeps s (t\<lparr>curtok := x\<rparr>) \<longleftrightarrow> keeps s t" "keeps s (t\<lparr>tokstr := y\<rparr>) \<longleftrightarrow> keeps s t"
  "keeps s (t\<lparr>vars := e\<rparr>) \<longleftrightarrow> keeps s t" "keeps (s\<lparr>lasttok := x\<rparr>) t \<longleftrightarrow> keeps s t"
  by (auto simp: keeps_def)

text \<open>The rest after an operand begins with an operator, whose reading does not depend on the environment.\<close>

lemma on_rest:
  assumes "follows l rest" and "on \<sigma> s rest"
  shows "on \<tau> s rest" "on \<tau> (s\<lparr>noeval := n\<rparr>) rest" "on \<tau> (s\<lparr>tokstr := x\<rparr>) rest" "on \<tau> (s\<lparr>vars := e\<rparr>) rest"
  using assms by (auto simp: follows_def on_def)

lemma follows_next: "follows l rest \<Longrightarrow> operator_next s rest"
  by (auto simp: follows_def operator_next_def)

lemma follows_not_assign: "follows l rest \<Longrightarrow> rest = [] \<or> hd rest \<noteq> TOp EQ"
  by (auto simp: follows_def op_level_def)

lemma toks_start: "rest = [] \<or> (\<exists>t. hd rest = TOp t) \<Longrightarrow> starts (toks l e @ rest)"
proof (induction e arbitrary: l rest)
  case (Binary op a b)
  then show ?case by (simp add: Let_def)
next
  case (Cond c a b)
  then show ?case by (simp add: Let_def)
next
  case (Comma a b)
  then show ?case by (simp add: Let_def)
qed (auto simp: Let_def)

lemma follows_start: "follows l' rest \<Longrightarrow> starts (toks l e @ rest)"
  by (rule toks_start) (auto simp: follows_def)

subsection \<open>Ways to agree\<close>

lemma agrees_ok:
  assumes "ev (proc_at l) s = finish l v s'" and "on \<sigma>' s' rest" and "ready \<sigma>' s'" and "keeps s s'"
    and "if noeval s = 0 then aval e \<sigma> = Inr (v, \<sigma>') else \<sigma>' = \<sigma>" and "\<And>t. e = Num t \<Longrightarrow> strlong t = Inr v"
  shows "agrees l e \<sigma> s rest"
  using assms unfolding agrees_def by blast

lemma agrees_err:
  "noeval s = 0 \<Longrightarrow> aval e \<sigma> = Inl m \<Longrightarrow> ev (proc_at l) s = Some (Stop (EvalError m t) s') \<Longrightarrow> agrees l e \<sigma> s rest"
  unfolding agrees_def by blast

lemma agreesE:
  assumes "agrees l e \<sigma> s rest"
  obtains (ok) v s' \<sigma>' where "ev (proc_at l) s = finish l v s'" "on \<sigma>' s' rest" "ready \<sigma>' s'" "keeps s s'"
      "noeval s = 0 \<Longrightarrow> aval e \<sigma> = Inr (v, \<sigma>')" "noeval s \<noteq> 0 \<Longrightarrow> \<sigma>' = \<sigma>" "\<And>t. e = Num t \<Longrightarrow> strlong t = Inr v"
    | (err) m t s' where "noeval s = 0" "aval e \<sigma> = Inl m" "ev (proc_at l) s = Some (Stop (EvalError m t) s')"
  using assms unfolding agrees_def by (elim disjE exE conjE) (auto split: if_splits)

subsection \<open>Operands\<close>

lemma exp0_number:
  assumes "on \<sigma> s (TNum t # rest)" and "ready \<sigma> s" and "follows 15 rest"
  shows "agrees 15 (Num t) \<sigma> s rest"
proof -
  obtain tx where s: "curtok s = NUM" "strlong t = Inr (tokval s)" "faces s tx" "spelled rest tx" using assms(1) by (auto simp: on_def)
  obtain s' where s': "ev Readtok s = Some (Done 0 s')" "on \<sigma> s' rest" "same_frame s s'"
    using read_next [OF s(3,4) follows_next [OF assms(3)], of \<sigma>] by blast
  show ?thesis
  proof (rule agrees_ok)
    show "ev (proc_at 15) s = finish 15 (tokval s) s'" using s(1) s'(1) by (simp add: proc_at_def finish_def ev_simps(31) exp0_def Let_def)
  qed (use s s' assms(2) in \<open>auto intro: ready_frame same_frame_keeps\<close>)
qed

text \<open>A name, whatever operator comes after it: the next token is read twice, first with evaluation suppressed.\<close>

lemma exp0_name_token:
  assumes "on \<sigma> s (TName x # rest)" and "operator_next s rest" and "rest = [] \<or> (\<forall>b. hd rest \<noteq> TPost b)"
  shows "\<exists>s'. ev Exp0 s = Some (Done (tokval s) s') \<and> on \<sigma> s' rest \<and> same_frame s s' \<and> tokstr s' = Some x \<and> lasttok s' = TSTR"
proof -
  obtain tx where s: "curtok s = TSTR" "tokstr s = Some x" "faces s tx" "spelled rest tx" using assms(1) by (auto simp: on_def)
  let ?t = "s\<lparr>tokstr := None, noeval := 1\<rparr>"
  have "operator_next ?t rest" using assms(2) by (simp add: operator_next_def)
  then obtain p where p: "ev Readtok ?t = Some (Done 0 p)" "on \<sigma> p rest" "same_frame ?t p" using read_next [of ?t tx rest \<sigma>] s by auto
  have np: "curtok p \<noteq> POSTINC" "curtok p \<noteq> POSTDEC"
    using p(2) assms(2,3) by (auto simp: on_def operator_next_def plain_ops_def split: list.splits)
  let ?r = "s\<lparr>assigntok := assigntok p\<rparr>"
  have r: "RESTORETOK (SAVETOK s) p = ?r"
    using p(3) by (intro expr_state.equality) (auto simp: same_frame_def RESTORETOK_def SAVETOK_def)
  have "operator_next ?r rest" using assms(2) by (simp add: operator_next_def)
  then obtain s' where s': "ev Readtok ?r = Some (Done 0 s')" "on \<sigma> s' rest" "same_frame ?r s'" "tokstr s' = Some x" "lasttok s' = TSTR"
    using read_next [of ?r tx rest \<sigma>] s by auto
  have "ev Exp0 s = Some (Done (tokval s) s')"
    using s(1) p(1) np r s'(1) by (simp add: ev_simps(31) exp0_def Let_def)
  then show ?thesis using s' by (auto simp: same_frame_def)
qed

lemma exp0_variable:
  assumes "on \<sigma> s (TName x # rest)" and "ready \<sigma> s" and "follows 15 rest"
  shows "agrees 15 (Var x) \<sigma> s rest"
proof -
  have f: "rest = [] \<or> (\<forall>b. hd rest \<noteq> TPost b)" using assms(3) by (auto simp: follows_def)
  obtain s' where s': "ev Exp0 s = Some (Done (tokval s) s')" "on \<sigma> s' rest" "same_frame s s'"
    using exp0_name_token [OF assms(1) follows_next [OF assms(3)] f] by blast
  have "noeval s = 0 \<Longrightarrow> tokval s = \<sigma> x" using assms(1) follows_not_assign [OF assms(3)] by (auto simp: on_def)
  then show ?thesis
    using s' assms(2) by (intro agrees_ok [of 15 s "tokval s" s' \<sigma>]) (auto simp: proc_at_def finish_def intro: ready_frame same_frame_keeps)
qed

text \<open>What an assignment does, or does not do when evaluation is suppressed.\<close>

lemma assign_effect:
  assumes "ready \<sigma> s" and "noeval s = 0 \<Longrightarrow> intmax v"
  obtains e where "(if noeval s = 0 then expr_bind_variable x (itos v) s else Some (Done 0 s)) = Some (Done 0 (s\<lparr>vars := e\<rparr>))"
    "ready (if noeval s = 0 then \<sigma>(x := v) else \<sigma>) (s\<lparr>vars := e\<rparr>)"
proof (cases "noeval s = 0")
  case True
  have "int_vars \<sigma> (vars s)" "intmax v" using assms True by (auto simp: ready_def)
  then show ?thesis
    using bind_int [of \<sigma> s v x] int_vars_bind(1) [of \<sigma> "vars s" v x] assms(1) True that [of "bind_int_variable x (itos v) (vars s)"]
    by (auto simp: ready_def)
next
  case False
  then show ?thesis using that [of "vars s"] assms(1) by simp
qed

lemma incdec_effect:
  assumes "ready \<sigma> s" and "tokstr s = Some x"
  obtains e where "exp0_incdec inc v f s = f (to_intmax (v + (if inc then 1 else - 1))) (s\<lparr>vars := e\<rparr>)"
    "ready (if noeval s = 0 then \<sigma>(x := to_intmax (v + (if inc then 1 else - 1))) else \<sigma>) (s\<lparr>vars := e\<rparr>)"
proof -
  let ?w = "to_intmax (v + (if inc then 1 else - 1))"
  obtain e where "(if noeval s = 0 then expr_bind_variable x (itos ?w) s else Some (Done 0 s)) = Some (Done 0 (s\<lparr>vars := e\<rparr>))"
    "ready (if noeval s = 0 then \<sigma>(x := ?w) else \<sigma>) (s\<lparr>vars := e\<rparr>)" using assign_effect [OF assms(1), of ?w x] by auto
  then show ?thesis using that [of e] assms(2) by (simp add: exp0_incdec_def Let_def)
qed

lemma exp0_pre:
  assumes "on \<sigma> s (TPre b # TName x # rest)" and "ready \<sigma> s" and "follows 15 rest"
  shows "agrees 15 (Pre b x) \<sigma> s rest"
proof -
  obtain tx where s: "curtok s = (if b then PREINC else PREDEC)" "faces s tx" "spelled (TName x # rest) tx" using assms(1) by (auto simp: on_def)
  have st: "starts (TName x # rest)" using assms(3) by (auto simp: follows_def)
  obtain t where t: "ev Readtok (s\<lparr>lasttok := curtok s\<rparr>) = Some (Done 0 t)" "on \<sigma> t (TName x # rest)" "same_frame (s\<lparr>lasttok := curtok s\<rparr>) t"
    using read_name_on [of "s\<lparr>lasttok := curtok s\<rparr>" tx x rest \<sigma>] s st assms(2) by auto
  then have rt: "ready \<sigma> t" using assms(2) by (auto intro: ready_frame)
  have tv: "curtok t = TSTR" "tokstr t = Some x" "noeval t = noeval s" "noeval s = 0 \<Longrightarrow> tokval t = \<sigma> x"
    using t(2,3) follows_not_assign [OF assms(3)] by (auto simp: on_def same_frame_def)
  let ?v = "to_intmax (tokval t + (if b then 1 else - 1))" and ?f = "\<lambda>v s. and_then (ev Readtok (s\<lparr>curtok := NUM\<rparr>)) (\<lambda>_ s. Some (Done v s))"
  obtain e where e: "exp0_incdec b (tokval t) ?f t = ?f ?v (t\<lparr>vars := e\<rparr>)" "ready (if noeval t = 0 then \<sigma>(x := ?v) else \<sigma>) (t\<lparr>vars := e\<rparr>)"
    by (rule incdec_effect [OF rt tv(2)])
  obtain ty where ty: "faces t ty" "spelled rest ty" using t(2) by (auto simp: on_def)
  obtain u where u: "ev Readtok (t\<lparr>vars := e, curtok := NUM\<rparr>) = Some (Done 0 u)" "on \<sigma> u rest" "same_frame (t\<lparr>vars := e, curtok := NUM\<rparr>) u"
    using read_next [of "t\<lparr>vars := e, curtok := NUM\<rparr>" ty rest \<sigma>] ty follows_next [OF assms(3)] by auto
  let ?\<tau> = "if noeval s = 0 then \<sigma>(x := ?v) else \<sigma>"
  have "ev Exp0 s = Some (Done ?v u)" using s(1) t(1) tv(1) e(1) u(1) by (auto simp: ev_simps(31) exp0_def Let_def)
  moreover have "ready ?\<tau> u" using e(2) tv(3) ready_frame [OF u(3)] by simp
  moreover have "on ?\<tau> u rest" using on_rest(1) [OF assms(3) u(2)] .
  ultimately show ?thesis
    using tv(4) t(3) u(3) by (intro agrees_ok [of 15 s ?v u ?\<tau>]) (auto simp: proc_at_def finish_def Let_def keeps_def same_frame_def)
qed

lemma exp0_post:
  assumes "on \<sigma> s (TName x # TPost b # rest)" and "ready \<sigma> s" and "follows 15 rest"
  shows "agrees 15 (Post b x) \<sigma> s rest"
proof -
  obtain tx where s: "curtok s = TSTR" "tokstr s = Some x" "faces s tx" "spelled (TPost b # rest) tx" "noeval s = 0 \<Longrightarrow> tokval s = \<sigma> x"
    using assms(1) by (auto simp: on_def)
  let ?t = "s\<lparr>tokstr := None, noeval := 1\<rparr>"
  have "operator_next ?t (TPost b # rest)" using s(1) by (simp add: operator_next_def)
  then obtain p where p: "ev Readtok ?t = Some (Done 0 p)" "on \<sigma> p (TPost b # rest)" "same_frame ?t p" using read_next [of ?t tx "TPost b # rest" \<sigma>] s by auto
  let ?q = "p\<lparr>tokstr := Some x, noeval := noeval s, lasttok := TSTR\<rparr>"
  have cp: "curtok p = (if b then POSTINC else POSTDEC)" using p(2) by (simp add: on_def)
  have rq: "ready \<sigma> ?q" using assms(2) p(3) by (simp add: ready_def same_frame_def)
  let ?w = "to_intmax (tokval s + (if b then 1 else - 1))" and ?f = "\<lambda>_ s'. and_then (ev Readtok (s'\<lparr>curtok := NUM\<rparr>)) (\<lambda>_ s'. Some (Done (tokval s) s'))"
  obtain e where e: "exp0_incdec b (tokval s) ?f ?q = ?f ?w (?q\<lparr>vars := e\<rparr>)" "ready (if noeval ?q = 0 then \<sigma>(x := ?w) else \<sigma>) (?q\<lparr>vars := e\<rparr>)"
    by (rule incdec_effect [OF rq]) simp_all
  obtain ty where ty: "faces p ty" "spelled rest ty" using p(2) by (auto simp: on_def)
  obtain u where u: "ev Readtok (?q\<lparr>vars := e, curtok := NUM\<rparr>) = Some (Done 0 u)" "on \<sigma> u rest" "same_frame (?q\<lparr>vars := e, curtok := NUM\<rparr>) u"
    using read_next [of "?q\<lparr>vars := e, curtok := NUM\<rparr>" ty rest \<sigma>] ty follows_next [OF assms(3)] by auto
  let ?\<tau> = "if noeval s = 0 then \<sigma>(x := ?w) else \<sigma>"
  have "(stok = POSTINC) = b" if "stok = curtok p" for stok using cp that by auto
  then have "ev Exp0 s = Some (Done (tokval s) u)"
    using s(1,2) p(1) cp e(1) u(1) by (simp add: ev_simps(31) exp0_def Let_def SAVETOK_def)
  moreover have "ready ?\<tau> u" using e(2) ready_frame [OF u(3)] by simp
  moreover have "on ?\<tau> u rest" using on_rest(1) [OF assms(3) u(2)] .
  ultimately show ?thesis
    using s(5) p(3) u(3) by (intro agrees_ok [of 15 s "tokval s" u ?\<tau>]) (auto simp: proc_at_def finish_def keeps_def same_frame_def)
qed

lemma exp0_parens:
  assumes "on \<sigma> s (TOp LPAR # toks 0 e @ TOp RPAR # rest)" and "ready \<sigma> s" and "follows 15 rest"
    and "\<And>t. on \<sigma> t (toks 0 e @ TOp RPAR # rest) \<Longrightarrow> ready \<sigma> t \<Longrightarrow> noeval t = noeval s \<Longrightarrow> agrees 0 e \<sigma> t (TOp RPAR # rest)"
  shows "agrees 15 e \<sigma> s rest"
proof -
  obtain tx where s: "curtok s = LPAR" "faces s tx" "spelled (toks 0 e @ TOp RPAR # rest) tx" using assms(1) by (auto simp: on_operator)
  have "starts (toks 0 e @ TOp RPAR # rest)" by (rule toks_start) simp
  then obtain t where t: "ev Readtok s = Some (Done 0 t)" "on \<sigma> t (toks 0 e @ TOp RPAR # rest)" "same_frame s t"
    using read_start [OF s(2,3) _ assms(2)] s(1) by auto
  have nt: "noeval t = noeval s" using t(3) by (simp add: same_frame_def)
  have "agrees 0 e \<sigma> t (TOp RPAR # rest)" using assms(4) t(2) ready_frame [OF t(3) assms(2)] nt by blast
  then show ?thesis
  proof (cases rule: agreesE)
    case (ok v u \<tau>)
    have cu: "curtok u = RPAR" using ok(2) by (simp add: on_operator)
    then have du: "ev Expcomma t = Some (Done v u)" using ok(1) finish_exits [of u 0 v] by (simp add: proc_at_def)
    obtain ty where ty: "faces u ty" "spelled rest ty" using ok(2) by (auto simp: on_operator)
    obtain w where w: "ev Readtok u = Some (Done 0 w)" "on \<tau> w rest" "same_frame u w"
      using read_next [OF ty follows_next [OF assms(3)], of \<tau>] by blast
    have "ev (proc_at 15) s = finish 15 v w" using s(1) t(1) du cu w(1) by (simp add: ev_simps(31) exp0_def proc_at_def finish_def)
    moreover have "keeps s w" using ok(4) w(3) t(3) by (simp add: keeps_def same_frame_def)
    ultimately show ?thesis
      using ok w nt by (intro agrees_ok [of 15 s v w \<tau>]) (auto intro: ready_frame)
  next
    case (err m tk u)
    then have "ev (proc_at 15) s = Some (Stop (EvalError m tk) u)" using s(1) t(1) by (simp add: ev_simps(31) exp0_def proc_at_def)
    then show ?thesis using err nt by (intro agrees_err) auto
  qed
qed

subsection \<open>Unary operators\<close>

lemma exp1_operator:
  assumes "curtok s = un_token u" and "ev Readtok s = Some (Done 0 t)"
  shows "ev Exp1 s = and_then (ev Exp1 t) (\<lambda>v s. Some (Done (un_value u v) (s\<lparr>lasttok := NUM\<rparr>)))"
  unfolding ev_simps(30) [of s] using assms by (cases u) (simp_all add: exp1_def)

lemma unary_agrees:
  assumes "on \<sigma> s (TOp (un_token u) # toks 14 e @ rest)" and "ready \<sigma> s" and "follows 14 rest"
    and "\<And>t. on \<sigma> t (toks 14 e @ rest) \<Longrightarrow> ready \<sigma> t \<Longrightarrow> noeval t = noeval s \<Longrightarrow> agrees 14 e \<sigma> t rest"
  shows "agrees 14 (Unary u e) \<sigma> s rest"
proof -
  obtain tx where s: "curtok s = un_token u" "faces s tx" "spelled (toks 14 e @ rest) tx" using assms(1) by (auto simp: on_operator)
  have "un_token u \<noteq> TSTR" by (cases u) simp_all
  then obtain t where t: "ev Readtok s = Some (Done 0 t)" "on \<sigma> t (toks 14 e @ rest)" "same_frame s t"
    using read_start [OF s(2,3) follows_start [OF assms(3)] assms(2)] s(1) by auto
  have nt: "noeval t = noeval s" using t(3) by (simp add: same_frame_def)
  have "agrees 14 e \<sigma> t rest" using assms(4) t(2) ready_frame [OF t(3) assms(2)] nt by blast
  then show ?thesis
  proof (cases rule: agreesE)
    case (ok v w \<tau>)
    have "ev (proc_at 14) s = finish 14 (un_value u v) (w\<lparr>lasttok := NUM\<rparr>)"
      using exp1_operator [OF s(1) t(1)] ok(1) by (simp add: proc_at_def finish_def)
    moreover have "keeps s w" using ok(4) t(3) by (simp add: keeps_def same_frame_def)
    ultimately show ?thesis using ok nt by (intro agrees_ok [of 14 s _ "w\<lparr>lasttok := NUM\<rparr>" \<tau>]) auto
  next
    case (err m tk w)
    then have "ev (proc_at 14) s = Some (Stop (EvalError m tk) w)" using exp1_operator [OF s(1) t(1)] by (simp add: proc_at_def)
    then show ?thesis using err nt by (intro agrees_err) auto
  qed
qed

subsection \<open>Binary operators\<close>

definition raise_noeval :: "bool \<Rightarrow> expr_state \<Rightarrow> expr_state" where
  "raise_noeval b s = (if b then s\<lparr>noeval := noeval s + 1\<rparr> else s)"

definition lower_noeval :: "bool \<Rightarrow> expr_state \<Rightarrow> expr_state" where
  "lower_noeval b s = (if b then s\<lparr>noeval := noeval s - 1\<rparr> else s)"

text \<open>What the loop of a level does with its second operand \<open>w\<close>.\<close>

definition combine :: "binop \<Rightarrow> int \<Rightarrow> nat \<Rightarrow> int \<Rightarrow> comp" where
  "combine op v stp w s = (
     if op = BLor \<or> op = BLand then finish (bin_level op) (case bin_value op v w of Inr x \<Rightarrow> x) (lower_noeval (decides op v) s\<lparr>lasttok := bin_token op\<rparr>)
     else if op = BDiv \<or> op = BMod then
       if w = 0 \<and> noeval s = 0 then evalerror ''division by 0'' (s\<lparr>lasttp := span_end whitespace (expression s) stp\<rparr>)
       else if op = BMod \<and> v = INTMAX_MIN \<and> w = - 1 then finish 12 0 s
       else let w = (if w = 0 then 1 else if op = BDiv \<and> v = INTMAX_MIN \<and> w = - 1 then 1 else w)
         in finish 12 (if op = BDiv then c_div v w else c_mod v w) (s\<lparr>lasttok := NUM\<rparr>)
     else finish (bin_level op) (case bin_value op v w of Inr x \<Rightarrow> x) (s\<lparr>lasttok := NUM\<rparr>))"

lemma loop_round:
  assumes "op \<noteq> BPow" and "curtok s = bin_token op"
  shows "finish (bin_level op) v s = and_then (ev Readtok (raise_noeval (decides op v) s)) (\<lambda>_ t.
    and_then (ev (proc_at (Suc (bin_level op))) t) (combine op v (tp s)))"
proof -
  have "finish (bin_level op) v s = (case op of BLor \<Rightarrow> explor_loop ev v s | BLand \<Rightarrow> expland_loop ev v s | BBor \<Rightarrow> expbor_loop ev v s
    | BBxor \<Rightarrow> expbxor_loop ev v s | BBand \<Rightarrow> expband_loop ev v s | BEq \<Rightarrow> exp5_loop ev v s | BNe \<Rightarrow> exp5_loop ev v s
    | BLe \<Rightarrow> exp4_loop ev v s | BGe \<Rightarrow> exp4_loop ev v s | BLt \<Rightarrow> exp4_loop ev v s | BGt \<Rightarrow> exp4_loop ev v s
    | BShl \<Rightarrow> expshift_loop ev v s | BShr \<Rightarrow> expshift_loop ev v s | BAdd \<Rightarrow> exp3_loop ev v s | BSub \<Rightarrow> exp3_loop ev v s | _ \<Rightarrow> exp2_loop ev v s)"
    using assms(1) unfolding finish_def by (cases op) (simp_all add: ev_simps)
  then show ?thesis
    using assms
    by (cases op) (simp_all add: explor_loop_def expland_loop_def expbor_loop_def expbxor_loop_def expband_loop_def exp5_loop_def
      exp4_loop_def expshift_loop_def exp3_loop_def exp2_loop_def Let_def raise_noeval_def lower_noeval_def decides_def combine_def [abs_def] finish_def
      proc_at_def, simp_all add: finish_def cong: if_cong)
qed

definition context_kept :: "expr_state \<Rightarrow> expr_state \<Rightarrow> bool" where
  "context_kept s s' \<longleftrightarrow> expression s' = expression s \<and> expr_stack s' = expr_stack s \<and> unbound_vars_is_error s' = unbound_vars_is_error s"

lemma combine_cases:
  assumes "op \<noteq> BPow" and "follows l rest" and "on \<tau> u rest" and "ready \<tau> u" and "noeval u = (if decides op v then n + 1 else n)" and "0 \<le> n"
    and "n = 0 \<Longrightarrow> intmax v" and "noeval u = 0 \<Longrightarrow> intmax w"
  obtains (ok) x u' where "combine op v stp w u = finish (bin_level op) x u'" "on \<tau> u' rest" "ready \<tau> u'" "noeval u' = n" "context_kept u u'"
      "n = 0 \<Longrightarrow> \<not> decides op v \<Longrightarrow> bin_value op v w = Inr x" "decides op v \<Longrightarrow> x = of_bool (v \<noteq> 0)"
    | (err) m t u' where "n = 0" "\<not> decides op v" "bin_value op v w = Inl m" "combine op v stp w u = Some (Stop (EvalError m t) u')"
proof -
  note on_u = on_rest [OF assms(2,3)]
  consider (logic) "op = BLor \<or> op = BLand" | (zero) "op = BDiv \<or> op = BMod" "w = 0" "n = 0" | (div) "op = BDiv \<or> op = BMod" "w \<noteq> 0 \<or> n \<noteq> 0"
    | (plain) "op \<noteq> BLor" "op \<noteq> BLand" "op \<noteq> BDiv" "op \<noteq> BMod" by blast
  then show ?thesis
  proof cases
    case logic
    let ?u = "lower_noeval (decides op v) u\<lparr>lasttok := bin_token op\<rparr>"
    have "on \<tau> ?u rest" using on_u(1,2) assms(3) by (simp add: lower_noeval_def)
    moreover have "ready \<tau> ?u" "noeval ?u = n" "context_kept u ?u" using assms(4-6) by (auto simp: lower_noeval_def context_kept_def)
    ultimately show ?thesis using logic by (intro ok [of "case bin_value op v w of Inr x \<Rightarrow> x" ?u]) (auto simp: combine_def decides_def)
  next
    case zero
    then show ?thesis using assms(5) by (intro err) (auto simp: combine_def decides_def evalerror_def)
  next
    case div
    have nd: "\<not> decides op v" using div by (auto simp: decides_def)
    have in_range: "n = 0 \<Longrightarrow> w \<noteq> 0 \<Longrightarrow> \<not> (v = INTMAX_MIN \<and> w = - 1) \<Longrightarrow> to_intmax (c_div v w) = c_div v w"
      using intmax_c_div [of v w] assms(7) by (auto intro: to_intmax_id)
    have min: "c_div INTMAX_MIN (- 1) = 2 ^ 63" "to_intmax (2 ^ 63) = INTMAX_MIN" "c_mod INTMAX_MIN (- 1) = 0"
      by (auto simp: c_mod_def c_div_def INTMAX_MIN_def to_intmax_def)
    show ?thesis
    proof (cases "op = BMod \<and> v = INTMAX_MIN \<and> w = - 1")
      case True
      then show ?thesis using assms(3-6) nd by (intro ok [of 0 u]) (auto simp: combine_def context_kept_def min)
    next
      case False
      let ?w = "if w = 0 then 1 else if op = BDiv \<and> v = INTMAX_MIN \<and> w = - 1 then 1 else w"
      have eq: "combine op v stp w u = finish 12 (if op = BDiv then c_div v ?w else c_mod v ?w) (u\<lparr>lasttok := NUM\<rparr>)"
        using div False assms(5) nd by (auto simp: combine_def Let_def)
      have "n = 0 \<Longrightarrow> bin_value op v w = Inr (if op = BDiv then c_div v ?w else c_mod v ?w)"
        using div in_range min by auto
      then show ?thesis using eq div nd assms(3-6) by (intro ok [of "if op = BDiv then c_div v ?w else c_mod v ?w" "u\<lparr>lasttok := NUM\<rparr>"]) (auto simp: context_kept_def)
    qed
  next
    case plain
    have nd: "\<not> decides op v" using plain by (auto simp: decides_def)
    obtain x where "bin_value op v w = Inr x" using plain assms(1) by (cases op) auto
    then show ?thesis using plain nd assms(3-6) by (intro ok [of x "u\<lparr>lasttok := NUM\<rparr>"]) (auto simp: combine_def context_kept_def)
  qed
qed

text \<open>Left-associative operators: the loop of the level goes on from the value of the left operand.\<close>

lemma binary_agrees:
  assumes "op \<noteq> BPow" and "on \<sigma> s (toks (bin_level op) a @ TOp (bin_token op) # toks (Suc (bin_level op)) b @ rest)"
    and "ready \<sigma> s" and "follows (bin_level op) rest"
    and "agrees (bin_level op) a \<sigma> s (TOp (bin_token op) # toks (Suc (bin_level op)) b @ rest)"
    and IH: "\<And>t \<tau>. on \<tau> t (toks (Suc (bin_level op)) b @ rest) \<Longrightarrow> ready \<tau> t \<Longrightarrow> noeval t = noeval s \<or> op = BLor \<or> op = BLand \<Longrightarrow>
      agrees (Suc (bin_level op)) b \<tau> t rest"
  shows "agrees (bin_level op) (Binary op a b) \<sigma> s rest"
  using assms(5)
proof (cases rule: agreesE)
  case (err m tk u)
  then show ?thesis by (intro agrees_err) auto
next
  case left: (ok v u \<tau>)
  let ?k = "bin_level op" and ?d = "decides op v"
  obtain tx where u: "curtok u = bin_token op" "faces u tx" "spelled (toks (Suc ?k) b @ rest) tx" using left(2) by (auto simp: on_operator)
  have nu: "noeval u = noeval s" "0 \<le> noeval s" using left(4) assms(3) by (auto simp: keeps_def ready_def)
  have fl: "follows (Suc ?k) rest" using assms(4) by (rule follows_mono) simp
  have r: "faces (raise_noeval ?d u) tx" "ready \<tau> (raise_noeval ?d u)" "curtok (raise_noeval ?d u) \<noteq> TSTR"
    using u left(3) nu by (cases op; auto simp: raise_noeval_def)+
  obtain t where t: "ev Readtok (raise_noeval ?d u) = Some (Done 0 t)" "on \<tau> t (toks (Suc ?k) b @ rest)" "same_frame (raise_noeval ?d u) t"
    using read_start [OF r(1) u(3) follows_start [OF fl] r(2,3)] by blast
  have nt: "noeval t = (if ?d then noeval s + 1 else noeval s)" using t(3) nu by (simp add: same_frame_def raise_noeval_def)
  have rt: "ready \<tau> t" by (rule ready_frame [OF t(3) r(2)])
  have step: "ev (proc_at ?k) s = and_then (ev (proc_at (Suc ?k)) t) (combine op v (tp u))"
    using loop_round [OF assms(1) u(1), of v] t(1) left(1) by simp
  have "agrees (Suc ?k) b \<tau> t rest" using IH [OF t(2) rt] nt by (auto simp: decides_def split: if_splits)
  then show ?thesis
  proof (cases rule: agreesE)
    case (err m tk x)
    then have "\<not> ?d" "noeval s = 0" using nt nu by (auto split: if_splits)
    then show ?thesis using err step left(5) by (intro agrees_err) auto
  next
    case right: (ok w x \<rho>)
    have "ev (proc_at (Suc ?k)) t = Some (Done w x)" unfolding right(1) by (rule finish_exits) (use follows_level(1) [OF assms(4) right(2)] in simp)
    then have step': "ev (proc_at ?k) s = combine op v (tp u) w x" using step by simp
    have nx: "noeval x = (if ?d then noeval s + 1 else noeval s)" using right(4) nt by (simp add: keeps_def)
    have vr: "noeval s = 0 \<Longrightarrow> intmax v" using aval_intmax [OF left(5)] assms(3) by (auto simp: ready_def int_vars_def)
    have wr: "noeval x = 0 \<Longrightarrow> intmax w"
      using aval_intmax [OF right(5)] right(4) rt by (auto simp: ready_def int_vars_def keeps_def)
    have kept: "context_kept s x" using left(4) right(4) t(3) by (auto simp: keeps_def same_frame_def context_kept_def raise_noeval_def split: if_splits)
    show ?thesis
    proof (rule combine_cases [OF assms(1,4) right(2,3) nx nu(2) vr wr, of "tp u"], goal_cases)
      case yes: (3 y x')
      have "if noeval s = 0 then aval (Binary op a b) \<sigma> = Inr (y, \<rho>) else \<rho> = \<sigma>"
        using left(5,6) right(5,6) yes(6,7) nt nu(2) by (cases ?d) auto
      moreover have "keeps s x'" using yes(4,5) kept by (auto simp: keeps_def context_kept_def)
      ultimately show ?thesis using step' yes(1-3) by (intro agrees_ok [of ?k s y x' \<rho>]) auto
    next
      case (4 m tk x')
      then show ?thesis using step' left(5) right(5) nt by (intro agrees_err) auto
    qed
  qed
qed

subsection \<open>Powers\<close>

text \<open>Repeated squaring computes the power modulo two to the 64.\<close>

lemma mult_wraps: "to_intmax (to_intmax a * to_intmax b) = to_intmax (a * b)"
  unfolding to_intmax_mod using to_intmax_cong [of a] to_intmax_cong [of b] by (metis mod_mult_cong)

lemma power_wraps: "to_intmax (a * to_intmax b ^ n) = to_intmax (a * b ^ n)"
  unfolding to_intmax_mod using to_intmax_cong [of b] by (metis mod_mult_right_eq power_mod)

lemma ipow_loop_power: "intmax r \<Longrightarrow> ipow_loop r b n = to_intmax (r * b ^ n)"
proof (induction r b n rule: ipow_loop.induct)
  case (1 r b n)
  show ?case
  proof (cases "n = 0")
    case True
    then show ?thesis using 1(2) by (subst ipow_loop.simps) (simp add: to_intmax_id)
  next
    case False
    let ?r = "if odd n then to_intmax (r * b) else r"
    have "intmax ?r" using 1(2) by simp
    then have "ipow_loop r b n = to_intmax (?r * to_intmax (b * b) ^ (n div 2))"
      using 1(1) [OF False] False by (subst ipow_loop.simps) simp
    also have "\<dots> = to_intmax (?r * (b * b) ^ (n div 2))" by (rule power_wraps)
    also have "\<dots> = to_intmax ((if odd n then r * b else r) * (b * b) ^ (n div 2))"
      using to_intmax_step [of "r * b" "(b * b) ^ (n div 2)" 0] by simp
    also have "(if odd n then r * b else r) * (b * b) ^ (n div 2) = r * b ^ n"
    proof -
      have "(b * b) ^ (n div 2) = b ^ (2 * (n div 2))" by (simp add: power_mult power2_eq_square)
      moreover have "b * b ^ (2 * (n div 2)) = b ^ n" if "odd n" using that by (metis odd_two_times_div_two_succ power_Suc Suc_eq_plus1)
      ultimately show ?thesis by (auto simp: mult.assoc)
    qed
    finally show ?thesis .
  qed
qed

lemma ipow_power: "ipow b e = to_intmax (b ^ nat e)"
  unfolding ipow_def by (simp add: ipow_loop_power)

lemma power_loop_round:
  assumes "curtok s = POWER" and "ev Readtok s = Some (Done 0 t)" and "ev Exppower t = Some (Done w u)" and "curtok u \<noteq> POWER"
  shows "ev (Exppower_loop v) s = (case bin_value BPow v w of Inr x \<Rightarrow> Some (Done x (u\<lparr>lasttok := NUM\<rparr>)) | Inl m \<Rightarrow> evalerror m (u\<lparr>lasttok := NUM\<rparr>))"
proof -
  have "ev (Exppower_loop x) (u\<lparr>lasttok := NUM\<rparr>) = Some (Done x (u\<lparr>lasttok := NUM\<rparr>))" for x
    unfolding ev_simps(29) using assms(4) by (simp add: exppower_loop_def)
  then show ?thesis
    unfolding ev_simps(29) [of v s] exppower_loop_def using assms(1-3) by (auto simp: Let_def ipow_power to_intmax_id)
qed

lemma power_agrees:
  assumes "on \<sigma> s (toks 14 a @ TOp POWER # toks 13 b @ rest)" and "ready \<sigma> s" and "follows 13 rest"
    and "noeval s \<noteq> 0 \<longrightarrow> literal_exponents (Binary BPow a b)"
    and "agrees 14 a \<sigma> s (TOp POWER # toks 13 b @ rest)"
    and IH: "\<And>t \<tau>. on \<tau> t (toks 13 b @ rest) \<Longrightarrow> ready \<tau> t \<Longrightarrow> noeval t = noeval s \<Longrightarrow> agrees 13 b \<tau> t rest"
  shows "agrees 13 (Binary BPow a b) \<sigma> s rest"
  using assms(5)
proof (cases rule: agreesE)
  case (err m tk u)
  then have "ev (proc_at 13) s = Some (Stop (EvalError m tk) u)" using level_stops [of 13 s] by simp
  then show ?thesis using err by (intro agrees_err) auto
next
  case left: (ok v u \<tau>)
  obtain tx where u: "curtok u = POWER" "faces u tx" "spelled (toks 13 b @ rest) tx" using left(2) by (auto simp: on_operator)
  have e: "ev (proc_at 13) s = ev (Exppower_loop v) u" using left(1) entries(12) [of s] by (simp add: proc_at_def finish_def)
  obtain t where t: "ev Readtok u = Some (Done 0 t)" "on \<tau> t (toks 13 b @ rest)" "same_frame u t"
    using read_start [OF u(2,3) follows_start [OF assms(3)] left(3)] u(1) by auto
  have nt: "noeval t = noeval s" using t(3) left(4) by (simp add: same_frame_def keeps_def)
  have "agrees 13 b \<tau> t rest" using IH [OF t(2) ready_frame [OF t(3) left(3)] nt] .
  then show ?thesis
  proof (cases rule: agreesE)
    case (err m tk x)
    then have "ev (proc_at 13) s = Some (Stop (EvalError m tk) x)"
      unfolding e ev_simps(29) [of v u] exppower_loop_def using u(1) t(1) by (simp add: proc_at_def)
    then show ?thesis using err nt left(5) by (intro agrees_err) (auto simp: decides_def)
  next
    case right: (ok w x \<rho>)
    have cx: "curtok x \<noteq> POWER" using follows_level(2) [OF assms(3) right(2)] by auto
    have "ev Exppower t = Some (Done w x)" using right(1) by (simp add: proc_at_def finish_def)
    note round = power_loop_round [OF u(1) t(1) this cx, of v]
    have kx: "keeps s x" using left(4) right(4) t(3) by (simp add: keeps_def same_frame_def)
    show ?thesis
    proof (cases "w < 0")
      case True
      then have "noeval s = 0" using assms(4) right(7) by (auto split: aexp.splits sum.splits)
      then show ?thesis using True round e left(5) right(5) nt by (intro agrees_err) (auto simp: decides_def evalerror_def)
    next
      case False
      then have "ev (proc_at 13) s = finish 13 (to_intmax (v ^ nat w)) (x\<lparr>lasttok := NUM\<rparr>)" using round e by (simp add: finish_def)
      moreover have "if noeval s = 0 then aval (Binary BPow a b) \<sigma> = Inr (to_intmax (v ^ nat w), \<rho>) else \<rho> = \<sigma>"
        using False left(5,6) right(5,6) nt by (auto simp: decides_def)
      ultimately show ?thesis using right(2,3) kx by (intro agrees_ok [of 13 s _ "x\<lparr>lasttok := NUM\<rparr>" \<rho>]) auto
    qed
  qed
qed

subsection \<open>Commas and assignments\<close>

lemma comma_agrees:
  assumes "on \<sigma> s (toks 0 a @ TOp COMMA # toks 1 b @ rest)" and "ready \<sigma> s" and "follows 0 rest"
    and "agrees 0 a \<sigma> s (TOp COMMA # toks 1 b @ rest)"
    and IH: "\<And>t \<tau>. on \<tau> t (toks 1 b @ rest) \<Longrightarrow> ready \<tau> t \<Longrightarrow> noeval t = noeval s \<Longrightarrow> agrees 1 b \<tau> t rest"
  shows "agrees 0 (Comma a b) \<sigma> s rest"
  using assms(4)
proof (cases rule: agreesE)
  case (err m tk u)
  then show ?thesis by (intro agrees_err) auto
next
  case left: (ok v u \<tau>)
  obtain tx where u: "curtok u = COMMA" "faces u tx" "spelled (toks 1 b @ rest) tx" using left(2) by (auto simp: on_operator)
  obtain t where t: "ev Readtok u = Some (Done 0 t)" "on \<tau> t (toks 1 b @ rest)" "same_frame u t"
    using read_start [OF u(2,3) follows_start [OF assms(3)] left(3)] u(1) by auto
  have nt: "noeval t = noeval s" using t(3) left(4) by (simp add: same_frame_def keeps_def)
  have e: "ev (proc_at 0) s = and_then (ev Expassign t) (\<lambda>v. finish 0 v)"
    using left(1) u(1) t(1) by (simp add: finish_def [abs_def] ev_simps(5) [of v u] expcomma_loop_def)
  have "agrees 1 b \<tau> t rest" using IH [OF t(2) ready_frame [OF t(3) left(3)] nt] .
  then show ?thesis
  proof (cases rule: agreesE)
    case (err m tk x)
    then show ?thesis using e nt left(5) by (intro agrees_err) (auto simp: proc_at_def)
  next
    case right: (ok w x \<rho>)
    have "ev (proc_at 0) s = finish 0 w x" using e right(1) by (simp add: proc_at_def finish_def [of "Suc 0"])
    moreover have "keeps s x" using left(4) right(4) t(3) by (simp add: keeps_def same_frame_def)
    ultimately show ?thesis using left(5,6) right nt by (intro agrees_ok [of 0 s w x \<rho>]) auto
  qed
qed

text \<open>The operators of compound assignments are the binary ones.\<close>

lemma assign_value:
  assumes "bin_token op \<in> set assign_ops" and "intmax l"
  shows "noeval s = 0 \<Longrightarrow> expassign_value True (bin_token op) l v s = (case bin_value op l v of Inl m \<Rightarrow> evalerror m s | Inr w \<Rightarrow> Some (Done w s))"
proof -
  have min: "to_intmax (c_div INTMAX_MIN (- 1)) = INTMAX_MIN" "c_mod INTMAX_MIN (- 1) = 0"
    by (auto simp: c_mod_def c_div_def INTMAX_MIN_def to_intmax_def)
  have div: "v \<noteq> 0 \<Longrightarrow> \<not> (l = INTMAX_MIN \<and> v = - 1) \<Longrightarrow> to_intmax (c_div l v) = c_div l v"
    using intmax_c_div [OF assms(2)] by (auto intro: to_intmax_id)
  assume "noeval s = 0"
  then show ?thesis
    using assms(1) min div by (cases op) (auto simp: assign_ops_def expassign_value_def assign_op_def)
qed

lemma assign_value_skipped:
  "bin_token op \<in> set assign_ops \<Longrightarrow> noeval s \<noteq> 0 \<Longrightarrow> \<exists>w. expassign_value True (bin_token op) l v s = Some (Done w s)"
  by (cases op) (auto simp: assign_ops_def expassign_value_def assign_op_def)

lemma assign_target:
  assumes "on \<sigma> s (TName x # k # ts)" and "k = TOp EQ \<or> (\<exists>a. k = TAssign a)"
  shows "\<exists>u. ev Expcond s = Some (Done (tokval s) u) \<and> on \<sigma> u (k # ts) \<and> same_frame s u \<and> tokstr u = Some x \<and> lasttok u = TSTR"
proof -
  have n: "operator_next s (k # ts)" "k # ts = [] \<or> (\<forall>b. hd (k # ts) \<noteq> TPost b)" using assms(2) by (auto simp: operator_next_def)
  then obtain u where u: "ev Exp0 s = Some (Done (tokval s) u)" "on \<sigma> u (k # ts)" "same_frame s u" "tokstr u = Some x" "lasttok u = TSTR"
    using exp0_name_token [OF assms(1) n] by blast
  have "curtok s = TSTR" using assms(1) by (auto simp: on_def)
  moreover have "curtok u = EQ \<or> curtok u = OP_ASSIGN" using u(2) assms(2) by (auto simp: on_def)
  then have "op_level (curtok u) = Some 1" by (simp only: op_level_iff)
  moreover have "ev (proc_at 15) s = Some (Done (tokval s) u)" using u(1) by (simp add: proc_at_def)
  ultimately have "ev (proc_at 2) s = Some (Done (tokval s) u)"
    using chain [of 15 s "tokval s" u 2] by (simp add: unary_start_def)
  then show ?thesis using u by (auto simp: proc_at_def)
qed

lemma assign_agrees:
  assumes "on \<sigma> s (TName x # TOp EQ # toks 1 e @ rest)" and "ready \<sigma> s" and "follows 1 rest"
    and IH: "\<And>t. on \<sigma> t (toks 1 e @ rest) \<Longrightarrow> ready \<sigma> t \<Longrightarrow> noeval t = noeval s \<Longrightarrow> agrees 1 e \<sigma> t rest"
  shows "agrees 1 (Assign x e) \<sigma> s rest"
proof -
  obtain u where u: "ev Expcond s = Some (Done (tokval s) u)" "on \<sigma> u (TOp EQ # toks 1 e @ rest)" "same_frame s u" "tokstr u = Some x" "lasttok u = TSTR"
    using assign_target [OF assms(1)] by blast
  obtain tx where tx: "curtok u = EQ" "faces u tx" "spelled (toks 1 e @ rest) tx" using u(2) by (auto simp: on_operator)
  obtain t where t: "ev Readtok u = Some (Done 0 t)" "on \<sigma> t (toks 1 e @ rest)" "same_frame u t"
    using read_start [OF tx(2,3) follows_start [OF assms(3)] ready_frame [OF u(3) assms(2)]] tx(1) by auto
  have st: "same_frame s t" using u(3) t(3) by (simp add: same_frame_def)
  then have nt: "noeval t = noeval s" by (simp add: same_frame_def)
  have eq: "ev Expassign s = and_then (ev Expassign t) (\<lambda>v s. and_then (if noeval s = 0 then expr_bind_variable x (itos v) s else Some (Done 0 s))
      (\<lambda>_ s. Some (Done v (s\<lparr>tokstr := None\<rparr>))))"
    unfolding ev_simps(6) [of s] expassign_def using u tx(1) t(1) by (simp add: Let_def expassign_value_def)
  have "agrees 1 e \<sigma> t rest" using IH [OF t(2) ready_frame [OF st assms(2)] nt] .
  then show ?thesis
  proof (cases rule: agreesE)
    case (err m tk w)
    then show ?thesis using eq nt by (intro agrees_err) (auto simp: proc_at_def)
  next
    case (ok v w \<tau>)
    have nw: "noeval w = noeval s" using ok(4) nt by (simp add: keeps_def)
    have "noeval w = 0 \<Longrightarrow> intmax v" using aval_intmax [OF ok(5)] assms(2) nw nt by (auto simp: ready_def int_vars_def)
    then obtain g where g: "(if noeval w = 0 then expr_bind_variable x (itos v) w else Some (Done 0 w)) = Some (Done 0 (w\<lparr>vars := g\<rparr>))"
      "ready (if noeval w = 0 then \<tau>(x := v) else \<tau>) (w\<lparr>vars := g\<rparr>)" using assign_effect [OF ok(3)] by blast
    let ?w = "w\<lparr>vars := g, tokstr := None\<rparr>" and ?\<tau> = "if noeval w = 0 then \<tau>(x := v) else \<tau>"
    have "ev (proc_at 1) s = finish 1 v ?w" using eq ok(1) g(1) by (simp add: proc_at_def finish_def)
    moreover have "on ?\<tau> ?w rest" using on_rest(3) [OF assms(3) on_rest(4) [OF assms(3) ok(2)]] .
    moreover have "keeps s ?w" using ok(4) st by (simp add: keeps_def same_frame_def)
    ultimately show ?thesis using g(2) ok(5,6) nw nt by (intro agrees_ok [of 1 s v ?w ?\<tau>]) auto
  qed
qed

lemma op_assign_agrees:
  assumes "on \<sigma> s (TName x # TAssign (bin_token op) # toks 1 e @ rest)" and "ready \<sigma> s" and "follows 1 rest"
    and IH: "\<And>t. on \<sigma> t (toks 1 e @ rest) \<Longrightarrow> ready \<sigma> t \<Longrightarrow> noeval t = noeval s \<Longrightarrow> agrees 1 e \<sigma> t rest"
  shows "agrees 1 (OpAssign op x e) \<sigma> s rest"
proof -
  obtain u where u: "ev Expcond s = Some (Done (tokval s) u)" "on \<sigma> u (TAssign (bin_token op) # toks 1 e @ rest)" "same_frame s u" "tokstr u = Some x" "lasttok u = TSTR"
    using assign_target [OF assms(1)] by blast
  obtain tx where tx: "curtok u = OP_ASSIGN" "assigntok u = bin_token op" "bin_token op \<in> set assign_ops" "faces u tx" "spelled (toks 1 e @ rest) tx"
    using u(2) by (auto simp: on_def)
  have l: "noeval s = 0 \<Longrightarrow> tokval s = \<sigma> x" using assms(1) by (simp add: on_def)
  obtain t where t: "ev Readtok u = Some (Done 0 t)" "on \<sigma> t (toks 1 e @ rest)" "same_frame u t"
    using read_start [OF tx(4,5) follows_start [OF assms(3)] ready_frame [OF u(3) assms(2)]] tx(1) by auto
  have st: "same_frame s t" using u(3) t(3) by (simp add: same_frame_def)
  then have nt: "noeval t = noeval s" by (simp add: same_frame_def)
  have eq: "ev Expassign s = and_then (ev Expassign t) (\<lambda>v s'. and_then (expassign_value True (bin_token op) (tokval s) v s')
      (\<lambda>v s. and_then (if noeval s = 0 then expr_bind_variable x (itos v) s else Some (Done 0 s)) (\<lambda>_ s. Some (Done v (s\<lparr>tokstr := None\<rparr>)))))"
    unfolding ev_simps(6) [of s] expassign_def using u tx(1,2) t(1) by (simp add: Let_def)
  have "agrees 1 e \<sigma> t rest" using IH [OF t(2) ready_frame [OF st assms(2)] nt] .
  then show ?thesis
  proof (cases rule: agreesE)
    case (err m tk w)
    then show ?thesis using eq nt by (intro agrees_err) (auto simp: proc_at_def Let_def)
  next
    case (ok v w \<tau>)
    have nw: "noeval w = noeval s" using ok(4) nt by (simp add: keeps_def)
    have ints: "intmax (\<sigma> x)" "noeval s = 0 \<Longrightarrow> intmax v" using aval_intmax [OF ok(5)] assms(2) nt by (auto simp: ready_def int_vars_def)
    have rhs: "ev Expassign t = Some (Done v w)" using ok(1) by (simp add: proc_at_def finish_def)
    consider (bad) m where "noeval s = 0" "bin_value op (\<sigma> x) v = Inl m"
      | (good) y where "expassign_value True (bin_token op) (tokval s) v w = Some (Done y w)" "noeval s = 0 \<Longrightarrow> bin_value op (\<sigma> x) v = Inr y"
      using assign_value [OF tx(3) ints(1), of w v] assign_value_skipped [OF tx(3), of w "tokval s" v] l nw
      by (cases "noeval s = 0"; cases "bin_value op (\<sigma> x) v") auto
    then show ?thesis
    proof cases
      case bad
      then have "ev (proc_at 1) s = evalerror m w" using eq rhs assign_value [OF tx(3) ints(1), of w v] l nw by (simp add: proc_at_def)
      then show ?thesis using bad ok(5) nt by (intro agrees_err) (auto simp: evalerror_def Let_def)
    next
      case (good y)
      have "noeval w = 0 \<Longrightarrow> intmax y" using bin_value_intmax [OF good(2)] ints nw by simp
      then obtain g where g: "(if noeval w = 0 then expr_bind_variable x (itos y) w else Some (Done 0 w)) = Some (Done 0 (w\<lparr>vars := g\<rparr>))"
        "ready (if noeval w = 0 then \<tau>(x := y) else \<tau>) (w\<lparr>vars := g\<rparr>)" using assign_effect [OF ok(3)] by blast
      let ?w = "w\<lparr>vars := g, tokstr := None\<rparr>" and ?\<tau> = "if noeval w = 0 then \<tau>(x := y) else \<tau>"
      have "ev (proc_at 1) s = finish 1 y ?w" using eq rhs good(1) g(1) by (simp add: proc_at_def finish_def)
      moreover have "on ?\<tau> ?w rest" using on_rest(3) [OF assms(3) on_rest(4) [OF assms(3) ok(2)]] .
      moreover have "keeps s ?w" using ok(4) st by (simp add: keeps_def same_frame_def)
      ultimately show ?thesis using g(2) ok(5,6) nw nt good(2) by (intro agrees_ok [of 1 s y ?w ?\<tau>]) (auto simp: Let_def)
    qed
  qed
qed

subsection \<open>Conditional expressions\<close>

lemma toks_first: "\<exists>t ts. toks l e @ rest = t # ts \<and> code t \<noteq> TOK0 \<and> code t \<noteq> COL"
proof (induction e arbitrary: l rest)
  case (Unary u e)
  show ?case by (cases u) (auto simp: Let_def)
qed (auto simp: Let_def)

lemma first_token: "on \<sigma> s (toks l e @ rest) \<Longrightarrow> curtok s \<noteq> TOK0 \<and> curtok s \<noteq> COL"
  using toks_first [of l e rest] by (auto simp: on_def)

lemma on_raise: "on \<sigma> s ts \<Longrightarrow> 0 \<le> noeval s \<Longrightarrow> on \<sigma> (raise_noeval b s) ts"
  by (auto simp: raise_noeval_def on_def split: list.splits)

lemma raise_lower_simps [simp]:
  "curtok (raise_noeval b s) = curtok s" "curtok (lower_noeval b s) = curtok s" "faces (lower_noeval b s) tx \<longleftrightarrow> faces s tx"
  "noeval (raise_noeval b s) = noeval s + of_bool b" "noeval (lower_noeval b s) = noeval s - of_bool b"
  by (simp_all add: raise_noeval_def lower_noeval_def)

lemma cond_unfold:
  assumes "ev Explor s = Some (Done v u)" and "curtok u = QUES" and "ev Readtok u = Some (Done 0 t)" and "curtok t \<noteq> TOK0" "curtok t \<noteq> COL"
  shows "ev Expcond s = and_then (ev Expcomma (raise_noeval (v = 0) t)) (\<lambda>v1 s. let s = lower_noeval (v = 0) s in
    if curtok s \<noteq> COL then evalerror ''`:' expected for conditional expression'' s
    else and_then (ev Readtok s) (\<lambda>_ s. if curtok s = TOK0 then evalerror ''expression expected'' s
    else and_then (ev Expcond (raise_noeval (v \<noteq> 0) s)) (\<lambda>v2 s.
      Some (Done (if v \<noteq> 0 then v1 else v2) (lower_noeval (v \<noteq> 0) s\<lparr>lasttok := COND\<rparr>)))))"
  unfolding ev_simps(7) [of s] expcond_def raise_noeval_def lower_noeval_def Let_def using assms by simp

lemma lowered_state:
  assumes "on \<tau> x (TOp COL # ts) \<or> follows l ts' \<and> on \<tau> x ts'" and "ready \<tau> x" and "noeval x = n + of_bool b" and "0 \<le> n"
  shows "ready \<tau> (lower_noeval b x)" "noeval (lower_noeval b x) = n" "context_kept x (lower_noeval b x)"
    "follows l ts' \<and> on \<tau> x ts' \<Longrightarrow> on \<tau> (lower_noeval b x) ts'"
  using assms(2-4) on_rest(2) [of l ts' \<tau> x \<tau>] by (auto simp: lower_noeval_def context_kept_def)

lemma cond_else_agrees:
  assumes "agrees 2 b \<rho> (raise_noeval (v \<noteq> 0) y) rest" and "follows 2 rest" and "0 \<le> noeval y"
    and "ev Expcond s = and_then (ev Expcond (raise_noeval (v \<noteq> 0) y)) (\<lambda>v2 s.
      Some (Done (if v \<noteq> 0 then v1 else v2) (lower_noeval (v \<noteq> 0) s\<lparr>lasttok := COND\<rparr>)))"
    and "context_kept s y" and "noeval y = noeval s"
    and "noeval s = 0 \<Longrightarrow> aval (Cond c a b) \<sigma> = (if v \<noteq> 0 then Inr (v1, \<rho>) else aval b \<rho>)" and "noeval s \<noteq> 0 \<Longrightarrow> \<rho> = \<sigma>"
  shows "agrees 2 (Cond c a b) \<sigma> s rest"
  using assms(1)
proof (cases rule: agreesE)
  case (err m tk w)
  then have "noeval s = 0" "v = 0" using assms(3,6) by (auto simp: raise_noeval_def split: if_splits)
  then show ?thesis using err assms(4,7) by (intro agrees_err) (auto simp: proc_at_def)
next
  case (ok v2 w \<omega>)
  let ?w = "lower_noeval (v \<noteq> 0) w\<lparr>lasttok := COND\<rparr>"
  have nw: "noeval w = noeval s + of_bool (v \<noteq> 0)" "0 \<le> noeval s" using ok(4) assms(3,6) by (auto simp: keeps_def)
  have low: "ready \<omega> (lower_noeval (v \<noteq> 0) w)" "on \<omega> (lower_noeval (v \<noteq> 0) w) rest" "context_kept w (lower_noeval (v \<noteq> 0) w)"
    using lowered_state [of \<omega> w _ 2 rest "noeval s" "v \<noteq> 0"] assms(2) ok(2,3) nw by auto
  have "ev (proc_at 2) s = finish 2 (if v \<noteq> 0 then v1 else v2) ?w" using ok(1) assms(4) by (simp add: proc_at_def finish_def)
  moreover have "keeps s ?w"
    using low(3) ok(4) assms(5) nw by (auto simp: keeps_def context_kept_def raise_noeval_def split: if_splits)
  moreover have "if noeval s = 0 then aval (Cond c a b) \<sigma> = Inr (if v \<noteq> 0 then v1 else v2, \<omega>) else \<omega> = \<sigma>"
    using assms(6-8) ok(5,6) nw(2) by (cases "v = 0"; cases "noeval s = 0") (auto simp: raise_noeval_def)
  ultimately show ?thesis using low by (intro agrees_ok [of 2 s _ ?w \<omega>]) auto
qed

lemma cond_agrees:
  assumes "ready \<sigma> s" and "follows 2 rest" and "agrees 3 c \<sigma> s (TOp QUES # toks 0 a @ TOp COL # toks 2 b @ rest)"
    and IHa: "\<And>t \<tau>. on \<tau> t (toks 0 a @ TOp COL # toks 2 b @ rest) \<Longrightarrow> ready \<tau> t \<Longrightarrow> agrees 0 a \<tau> t (TOp COL # toks 2 b @ rest)"
    and IHb: "\<And>t \<tau>. on \<tau> t (toks 2 b @ rest) \<Longrightarrow> ready \<tau> t \<Longrightarrow> agrees 2 b \<tau> t rest"
  shows "agrees 2 (Cond c a b) \<sigma> s rest"
  using assms(3)
proof (cases rule: agreesE)
  case (err m tk u)
  then have "ev (proc_at 2) s = Some (Stop (EvalError m tk) u)" using level_stops [of 2 s] by simp
  then show ?thesis using err by (intro agrees_err) auto
next
  case test: (ok v u \<tau>)
  obtain tx where u: "curtok u = QUES" "faces u tx" "spelled (toks 0 a @ TOp COL # toks 2 b @ rest) tx" using test(2) by (auto simp: on_operator)
  have eu: "ev Explor s = Some (Done v u)" using test(1) finish_exits [of u 3 v] u(1) by (simp add: proc_at_def)
  have "starts (toks 0 a @ TOp COL # toks 2 b @ rest)" by (rule toks_start) simp
  then obtain t where t: "ev Readtok u = Some (Done 0 t)" "on \<tau> t (toks 0 a @ TOp COL # toks 2 b @ rest)" "same_frame u t"
    using read_start [OF u(2,3) _ test(3)] u(1) by auto
  have nt: "noeval t = noeval s" "0 \<le> noeval s" using t(3) test(4) assms(1) by (auto simp: same_frame_def keeps_def ready_def)
  have rt: "ready \<tau> t" by (rule ready_frame [OF t(3) test(3)])
  let ?t = "raise_noeval (v = 0) t"
  note unfold = cond_unfold [OF eu u(1) t(1) first_token [OF t(2), THEN conjunct1] first_token [OF t(2), THEN conjunct2]]
  have "ready \<tau> ?t" using rt nt by (simp add: raise_noeval_def)
  then have "agrees 0 a \<tau> ?t (TOp COL # toks 2 b @ rest)" using IHa on_raise [OF t(2)] nt by simp
  then show ?thesis
  proof (cases rule: agreesE)
    case (err m tk x)
    then have "noeval s = 0" "v \<noteq> 0" using nt by (auto simp: raise_noeval_def split: if_splits)
    then show ?thesis using err unfold test(5) by (intro agrees_err) (auto simp: proc_at_def)
  next
    case yes: (ok v1 x \<rho>)
    have cx: "curtok x = COL" using yes(2) by (simp add: on_operator)
    have ex: "ev Expcomma ?t = Some (Done v1 x)" using yes(1) finish_exits [of x 0 v1] cx by (simp add: proc_at_def)
    let ?x = "lower_noeval (v = 0) x"
    have nx: "noeval x = noeval s + of_bool (v = 0)" using yes(4) nt by (simp add: keeps_def)
    have low: "ready \<rho> ?x" "noeval ?x = noeval s" "context_kept x ?x" using lowered_state [OF _ yes(3) nx nt(2)] yes(2) by blast+
    obtain ty where ty: "faces ?x ty" "spelled (toks 2 b @ rest) ty" using yes(2) by (auto simp: on_operator)
    obtain y where y: "ev Readtok ?x = Some (Done 0 y)" "on \<rho> y (toks 2 b @ rest)" "same_frame ?x y"
      using read_start [OF ty follows_start [OF assms(2)] low(1)] cx by auto
    have ny: "noeval y = noeval s" using y(3) low(2) by (simp add: same_frame_def)
    have ry: "ready \<rho> y" by (rule ready_frame [OF y(3) low(1)])
    have "agrees 2 b \<rho> (raise_noeval (v \<noteq> 0) y) rest" using IHb on_raise [OF y(2)] ry ny nt by (simp add: raise_noeval_def)
    then show ?thesis
    proof (rule cond_else_agrees [OF _ assms(2)])
      show "0 \<le> noeval y" "noeval y = noeval s" using ny nt by simp_all
      show "ev Expcond s = and_then (ev Expcond (raise_noeval (v \<noteq> 0) y)) (\<lambda>v2 s.
        Some (Done (if v \<noteq> 0 then v1 else v2) (lower_noeval (v \<noteq> 0) s\<lparr>lasttok := COND\<rparr>)))"
        unfolding unfold ex using cx y(1) first_token [OF y(2)] by (simp add: Let_def)
      show "context_kept s y" using test(4) t(3) yes(4) low(3) y(3) by (auto simp: keeps_def same_frame_def context_kept_def raise_noeval_def split: if_splits)
      show "aval (Cond c a b) \<sigma> = (if v \<noteq> 0 then Inr (v1, \<rho>) else aval b \<rho>)" if "noeval s = 0"
        using that test(5) yes(5,6) nt by (auto simp: raise_noeval_def)
      show "\<rho> = \<sigma>" if "noeval s \<noteq> 0" using that test(6) yes(6) nt by (auto simp: raise_noeval_def split: if_splits)
    qed
  qed
qed

subsection \<open>The induction over expressions\<close>

lemma at_level:
  assumes "toks l e = (if k < l then TOp LPAR # ts @ [TOp RPAR] else ts)" and "toks 0 e = ts" and "k \<le> 14" and "l \<le> 15"
    and "on \<sigma> s (toks l e @ rest)" and "ready \<sigma> s" and "follows l rest"
    and raw: "\<And>t rest'. on \<sigma> t (ts @ rest') \<Longrightarrow> ready \<sigma> t \<Longrightarrow> follows k rest' \<Longrightarrow> noeval t = noeval s \<Longrightarrow> agrees k e \<sigma> t rest'"
  shows "agrees l e \<sigma> s rest"
proof (cases "k < l")
  case False
  then have "agrees k e \<sigma> s rest" using assms(1,5,6) follows_mono [OF assms(7), of k] by (intro raw) auto
  then show ?thesis by (rule agrees_down) (use False assms(3,7) in auto)
next
  case True
  have f: "follows n (TOp RPAR # rest)" for n by (simp add: follows_def)
  have on_s: "on \<sigma> s (TOp LPAR # toks 0 e @ TOp RPAR # rest)" using assms(1,2,5) True by simp
  have "agrees 15 e \<sigma> s rest"
  proof (rule exp0_parens [OF on_s assms(6) follows_mono [OF assms(7,4)]])
    fix t assume "on \<sigma> t (toks 0 e @ TOp RPAR # rest)" "ready \<sigma> t" "noeval t = noeval s"
    then have "agrees k e \<sigma> t (TOp RPAR # rest)" using raw [OF _ _ f] assms(2) by simp
    then show "agrees 0 e \<sigma> t (TOp RPAR # rest)" by (rule agrees_down) (use f assms(3) in auto)
  qed
  then show ?thesis by (rule agrees_down) (use on_s assms(4,7) in \<open>auto simp: on_operator unary_start_def\<close>)
qed

lemma leaf:
  assumes "agrees 15 e \<sigma> s rest" and "on \<sigma> s (t # ts)" and "code t \<notin> {LNOT, BNOT, MINUS, PLUS}" and "follows l rest" and "l \<le> 15"
  shows "agrees l e \<sigma> s rest"
  by (rule agrees_down [OF assms(1,5,4)]) (use assms(2,3) in \<open>auto simp: on_def unary_start_def\<close>)

lemma follows_op: "op \<noteq> BPow \<Longrightarrow> follows (bin_level op) (TOp (bin_token op) # ts)" "follows 14 (TOp POWER # ts)" "follows 3 (TOp QUES # ts)"
  "follows n (TOp COL # ts)" "follows 0 (TOp COMMA # ts)"
  by (cases op) (auto simp: follows_def)

lemma evaluator_agrees:
  "on \<sigma> s (toks l e @ rest) \<Longrightarrow> ready \<sigma> s \<Longrightarrow> follows l rest \<Longrightarrow> l \<le> 15 \<Longrightarrow> safe_skips e \<Longrightarrow>
    (noeval s \<noteq> 0 \<longrightarrow> literal_exponents e) \<Longrightarrow> agrees l e \<sigma> s rest"
proof (induction e arbitrary: \<sigma> s l rest)
  case (Num t)
  have "agrees 15 (Num t) \<sigma> s rest" using Num follows_mono [OF Num(3,4)] by (intro exp0_number) auto
  then show ?case by (rule leaf) (use Num in auto)
next
  case (Var x)
  have "agrees 15 (Var x) \<sigma> s rest" using Var follows_mono [OF Var(3,4)] by (intro exp0_variable) auto
  then show ?case by (rule leaf) (use Var in auto)
next
  case (Pre b x)
  have "agrees 15 (Pre b x) \<sigma> s rest" using Pre follows_mono [OF Pre(3,4)] by (intro exp0_pre) auto
  then show ?case by (rule leaf) (use Pre in \<open>auto split: if_splits\<close>)
next
  case (Post b x)
  have "agrees 15 (Post b x) \<sigma> s rest" using Post follows_mono [OF Post(3,4)] by (intro exp0_post) auto
  then show ?case by (rule leaf) (use Post in auto)
next
  case (Unary u e)
  show ?case
  proof (rule at_level [where k = 14 and ts = "TOp (un_token u) # toks 14 e"])
    fix t rest' assume "on \<sigma> t ((TOp (un_token u) # toks 14 e) @ rest')" "ready \<sigma> t" "follows 14 rest'" "noeval t = noeval s"
    then show "agrees 14 (Unary u e) \<sigma> t rest'" using Unary.IH Unary.prems by (intro unary_agrees) auto
  qed (use Unary.prems in \<open>auto simp: Let_def\<close>)
next
  case (Binary op a b)
  show ?case
  proof (cases "op = BPow")
    case True
    show ?thesis
    proof (rule at_level [where k = 13 and ts = "toks 14 a @ TOp POWER # toks 13 b"])
      fix t rest' assume t: "on \<sigma> t ((toks 14 a @ TOp POWER # toks 13 b) @ rest')" "ready \<sigma> t" "follows 13 rest'" "noeval t = noeval s"
      have "agrees 14 a \<sigma> t (TOp POWER # toks 13 b @ rest')" using Binary.prems t by (intro Binary.IH(1)) (auto simp: follows_op)
      then show "agrees 13 (Binary op a b) \<sigma> t rest'"
        using t Binary.IH(2) Binary.prems True unfolding True by (intro power_agrees) auto
    qed (use Binary.prems True in \<open>auto simp: Let_def\<close>)
  next
    case False
    let ?k = "bin_level op"
    have k: "?k \<le> 12" using False by (cases op) auto
    show ?thesis
    proof (rule at_level [where k = ?k and ts = "toks ?k a @ TOp (bin_token op) # toks (Suc ?k) b"])
      fix t rest' assume t: "on \<sigma> t ((toks ?k a @ TOp (bin_token op) # toks (Suc ?k) b) @ rest')" "ready \<sigma> t" "follows ?k rest'" "noeval t = noeval s"
      have left: "agrees ?k a \<sigma> t (TOp (bin_token op) # toks (Suc ?k) b @ rest')"
        using Binary.prems t False k by (intro Binary.IH(1)) (auto simp: follows_op)
      show "agrees ?k (Binary op a b) \<sigma> t rest'"
      proof (rule binary_agrees [OF False _ t(2,3) left])
        fix u \<tau> assume u: "on \<tau> u (toks (Suc ?k) b @ rest')" "ready \<tau> u" "noeval u = noeval t \<or> op = BLor \<or> op = BLand"
        show "agrees (Suc ?k) b \<tau> u rest'" using u Binary.prems t k follows_mono [OF t(3), of "Suc ?k"] by (intro Binary.IH(2)) auto
      qed (use t in simp)
    qed (use Binary.prems False k in \<open>auto simp: Let_def\<close>)
  qed
next
  case (Cond c a b)
  show ?case
  proof (rule at_level [where k = 2 and ts = "toks 3 c @ TOp QUES # toks 0 a @ TOp COL # toks 2 b"])
    fix t rest' assume t: "on \<sigma> t ((toks 3 c @ TOp QUES # toks 0 a @ TOp COL # toks 2 b) @ rest')" "ready \<sigma> t" "follows 2 rest'" "noeval t = noeval s"
    have "agrees 3 c \<sigma> t (TOp QUES # toks 0 a @ TOp COL # toks 2 b @ rest')" using Cond.prems t by (intro Cond.IH(1)) (auto simp: follows_op)
    then show "agrees 2 (Cond c a b) \<sigma> t rest'"
      using Cond.IH(2,3) Cond.prems t by (intro cond_agrees) (auto simp: follows_op)
  qed (use Cond.prems in \<open>auto simp: Let_def\<close>)
next
  case (Assign x e)
  show ?case
  proof (rule at_level [where k = 1 and ts = "TName x # TOp EQ # toks 1 e"])
    fix t rest' assume "on \<sigma> t ((TName x # TOp EQ # toks 1 e) @ rest')" "ready \<sigma> t" "follows 1 rest'" "noeval t = noeval s"
    then show "agrees 1 (Assign x e) \<sigma> t rest'" using Assign.IH Assign.prems by (intro assign_agrees) auto
  qed (use Assign.prems in \<open>auto simp: Let_def\<close>)
next
  case (OpAssign op x e)
  show ?case
  proof (rule at_level [where k = 1 and ts = "TName x # TAssign (bin_token op) # toks 1 e"])
    fix t rest' assume "on \<sigma> t ((TName x # TAssign (bin_token op) # toks 1 e) @ rest')" "ready \<sigma> t" "follows 1 rest'" "noeval t = noeval s"
    then show "agrees 1 (OpAssign op x e) \<sigma> t rest'" using OpAssign.IH OpAssign.prems by (intro op_assign_agrees) auto
  qed (use OpAssign.prems in \<open>auto simp: Let_def\<close>)
next
  case (Comma a b)
  show ?case
  proof (rule at_level [where k = 0 and ts = "toks 0 a @ TOp COMMA # toks 1 b"])
    fix t rest' assume t: "on \<sigma> t ((toks 0 a @ TOp COMMA # toks 1 b) @ rest')" "ready \<sigma> t" "follows 0 rest'" "noeval t = noeval s"
    have "agrees 0 a \<sigma> t (TOp COMMA # toks 1 b @ rest')" using Comma.prems t by (intro Comma.IH(1)) (auto simp: follows_op)
    then show "agrees 0 (Comma a b) \<sigma> t rest'"
      using Comma.IH(2) Comma.prems t follows_mono [OF t(3), of 1] by (intro comma_agrees) auto
  qed (use Comma.prems in \<open>auto simp: Let_def\<close>)
qed

subsection \<open>The evaluator and the reference semantics\<close>

text \<open>Every sequence of tokens has a spelling: with a blank after each token.\<close>

definition print :: "atok list \<Rightarrow> string" where
  "print ts = concat (map (\<lambda>t. spell_token t @ '' '') ts)"

lemma ends_ok_blank: "ends_ok t (CHR '' '')"
  by (cases t) (auto simp: legal_variable_char_def num_char_def ISALNUM_def ISALPHA_def ISUPPER_def ISLOWER_def DIGIT_def uchar_def)

lemma spelled_blank:
  assumes "spelled ts txt"
  shows "spelled ts (CHR '' '' # txt)"
  using assms
proof (cases rule: spelled.cases)
  case spelled_Nil
  then show ?thesis by (auto simp: cr_whitespace_def whitespace_def intro: spelled.spelled_Nil)
next
  case (spelled_Cons ws t txt' ts')
  then show ?thesis
    using spelled.spelled_Cons [of "CHR '' '' # ws" t txt' ts'] by (simp add: cr_whitespace_def whitespace_def)
qed

lemma print_spelled: "list_all token_ok ts \<Longrightarrow> spelled ts (print ts)"
proof (induction ts)
  case Nil
  then show ?case by (simp add: print_def spelled_Nil)
next
  case (Cons t ts)
  have "spelled (t # ts) ([] @ spell_token t @ CHR '' '' # print ts)"
    using Cons by (intro spelled_Cons spelled_blank) (auto simp: ends_ok_blank)
  then show ?case by (simp add: print_def)
qed

lemma spelled_not_blank: "spelled (t # ts) txt \<Longrightarrow> \<not> list_all cr_whitespace txt"
proof (elim spelled_ConsE)
  fix ws rest assume "txt = ws @ spell_token t @ rest" "token_ok t"
  then show ?thesis using spell_token_first(1,2) [of t] by (cases "spell_token t") auto
qed

lemma subexpr_agrees:
  assumes "spelled (toks 0 e) expr" and "safe_skips e" and "ready \<sigma> s" and "noeval s = 0" and "length (expr_stack s) + 1 < MAX_EXPR_RECURSION_LEVEL"
  shows "case aval e \<sigma> of Inr (v, \<tau>) \<Rightarrow> \<exists>s'. ev (Subexpr expr) s = Some (Done v s') \<and> int_vars \<tau> (vars s')
    | Inl m \<Rightarrow> \<exists>t s'. ev (Subexpr expr) s = Some (Stop (EvalError m t) s')"
proof -
  let ?t = "s\<lparr>expr_stack := SAVETOK s # expr_stack s, expression := expr, tp := 0, curtok := TOK0, lasttok := TOK0, tokstr := None, tokval := 0\<rparr>"
  obtain k ks where "toks 0 e = k # ks" using toks_first [of 0 e "[]"] by auto
  then have nb: "\<not> list_all cr_whitespace expr" using spelled_not_blank assms(1) by metis
  have t: "faces ?t expr" "ready \<sigma> ?t" "curtok ?t \<noteq> TSTR" "starts (toks 0 e)"
    using assms(3,5) toks_start [of "[]" 0 e] by (auto simp: faces_def ready_def)
  obtain u where u: "ev Readtok ?t = Some (Done 0 u)" "on \<sigma> u (toks 0 e)" "same_frame ?t u"
    using read_start [OF t(1) assms(1) t(4,2,3)] by blast
  have nu: "noeval u = 0" using u(3) assms(4) by (simp add: same_frame_def)
  have "agrees 0 e \<sigma> u []"
    using evaluator_agrees [of \<sigma> u 0 e "[]"] u(2) ready_frame [OF u(3) t(2)] assms(2) nu by (simp add: follows_def)
  then show ?thesis
  proof (cases rule: agreesE)
    case (ok v x \<tau>)
    have cx: "curtok x = TOK0" using ok(2) by (simp add: on_def)
    have ex: "ev Expcomma u = Some (Done v x)" using ok(1) finish_exits [of x 0 v] cx by (simp add: proc_at_def)
    have "expr_stack x = SAVETOK s # expr_stack s" using ok(4) u(3) by (simp add: keeps_def same_frame_def)
    then have "popexp x = Some (Done 0 (s\<lparr>assigntok := assigntok x, vars := vars x, unbound_vars_is_error := unbound_vars_is_error x\<rparr>))"
      by (simp add: popexp_def restored_context)
    then have "ev (Subexpr expr) s = Some (Done v (s\<lparr>assigntok := assigntok x, vars := vars x, unbound_vars_is_error := unbound_vars_is_error x\<rparr>))"
      unfolding ev_simps(3) subexpr_def using nb assms(5) u(1) ex cx by (simp add: pushexp_def Let_def)
    then show ?thesis using ok(3,5) nu by (simp add: ready_def)
  next
    case (err m tk x)
    then have "ev (Subexpr expr) s = Some (Stop (EvalError m tk) x)"
      unfolding ev_simps(3) subexpr_def using nb assms(5) u(1) by (simp add: pushexp_def Let_def proc_at_def)
    then show ?thesis using err(2) by simp
  qed
qed

text \<open>
  C2. Arithmetic evaluation is correct, within the conditions below: for an expression tree and every text that spells it, with parentheses only where
  precedence and associativity ask for them and any white space, \<open>evalexp\<close> returns the value of the reference semantics,
  in which operators work on 64-bit integers that wrap, \<^verbatim>\<open>&&\<close>, \<^verbatim>\<open>||\<close> and \<^verbatim>\<open>?:\<close> evaluate only what they need, and
  assignments and increments take effect from left to right; the variables afterwards hold the environment of the
  reference semantics. When the reference semantics gives an error, a division by zero or a negative
  exponent, \<open>evalexp\<close> reports that error.

  The conditions: in every operand that may be skipped (the right side of \<^verbatim>\<open>&&\<close> and \<^verbatim>\<open>||\<close>, both branches of \<^verbatim>\<open>?:\<close>) each exponent is a literal number
  that is not negative (\<^const>\<open>safe_skips\<close>), since the code reports a negative exponent even there (lemma \<open>skipped_exponent_fails\<close>); each variable is unset,
  empty or holds a 64-bit integer the way \<^const>\<open>itos\<close> prints it, and may be assigned (\<^const>\<open>int_vars\<close>); \<^verbatim>\<open>set -u\<close> is off; the evaluator is nested fewer than 1023 deep; and the fuel exceeds a bound that
  the length of the text and of the values gives. Shift counts are taken modulo 64, as in the model of the shifts.
\<close>

theorem evalexp_correct:
  assumes "spelled (toks 0 e) expr" and "safe_skips e" and "int_vars \<sigma> (vars s)" and "\<not> unbound_vars_is_error s"
    and "length (expr_stack s) + 1 < MAX_EXPR_RECURSION_LEVEL" and "sound M s" and "length expr \<le> M"
  shows "case aval e \<sigma> of
      Inr (v, \<sigma>') \<Rightarrow> \<exists>s'. int_vars \<sigma>' (vars s') \<and> (\<forall>n > 1024 * (64 * (M + 2)). evalexp n interactive_shell expr s = Some (Valid v s'))
    | Inl msg \<Rightarrow> \<exists>tok s'. \<forall>n > 1024 * (64 * (M + 2)). evalexp n interactive_shell expr s = Some (Invalid (EvalError msg tok) s')"
proof -
  have "ready \<sigma> (s\<lparr>noeval := 0\<rparr>)" using assms(3-5) by (simp add: ready_def)
  then have "case aval e \<sigma> of Inr (v, \<tau>) \<Rightarrow> \<exists>s'. ev (Subexpr expr) (s\<lparr>noeval := 0\<rparr>) = Some (Done v s') \<and> int_vars \<tau> (vars s')
    | Inl m \<Rightarrow> \<exists>t s'. ev (Subexpr expr) (s\<lparr>noeval := 0\<rparr>) = Some (Stop (EvalError m t) s')"
    using subexpr_agrees [OF assms(1,2), of \<sigma> "s\<lparr>noeval := 0\<rparr>"] assms(5) by simp
  then show ?thesis using evalexp_ev [OF assms(6,7)] by (auto split: sum.splits)
qed

definition sample :: aexp where
  "sample = Comma (Assign ''y'' (Binary BMul (OpAssign BAdd ''x'' (Num ''2'')) (Num ''3''))) (Binary BPow (Var ''y'') (Num ''2''))"

lemma print_sample: "print (toks 0 sample) = ''y = ( x += 2 ) * 3 , y ** 2 ''"
  by (simp add: sample_def print_def)

lemma sound_sample: "sound 40 (initial_state [''x'' \<mapsto> plain_var (itos 5)] False)"
proof (rule sound_initial)
  show "short_vars 40 (initial_state [''x'' \<mapsto> plain_var (itos 5)] False)"
    using itos_length [of 5] by (simp add: short_vars_def initial_state_def)
qed simp

lemma int_vars_sample: "int_vars ((\<lambda>_. 0)(''x'' := 5)) (vars (initial_state [''x'' \<mapsto> plain_var (itos 5)] False))"
  by (simp add: int_vars_def int_var_def initial_state_def intmax_def INTMAX_MIN_def INTMAX_MAX_def)

lemma strlong_sample: "strlong ''2'' = Inr 2" "strlong ''3'' = Inr 3"
  by code_simp+

lemma to_intmax_sample: "to_intmax 7 = 7" "to_intmax 21 = 21" "to_intmax 441 = 441"
  by code_simp+

lemma aval_sample: "aval sample ((\<lambda>_. 0)(''x'' := 5)) = Inr (441, (\<lambda>_. 0)(''x'' := 7, ''y'' := 21))"
  by (simp add: sample_def strlong_sample to_intmax_sample decides_def)

theorem evalexp_correct_witness:
  "\<exists>s'. int_vars ((\<lambda>_. 0)(''x'' := 7, ''y'' := 21)) (vars s') \<and>
     evalexp 100000000 True ''y = ( x += 2 ) * 3 , y ** 2 '' (initial_state [''x'' \<mapsto> plain_var (itos 5)] False) = Some (Valid 441 s')"
proof -
  have "spelled (toks 0 sample) ''y = ( x += 2 ) * 3 , y ** 2 ''"
    unfolding print_sample [symmetric] by (rule print_spelled) code_simp
  moreover have "safe_skips sample" by (simp add: sample_def)
  moreover have "length (expr_stack (initial_state tbl b)) + 1 < MAX_EXPR_RECURSION_LEVEL" for tbl b
    by (simp add: initial_state_def MAX_EXPR_RECURSION_LEVEL_def)
  moreover have "\<not> unbound_vars_is_error (initial_state tbl False)" for tbl by (simp add: initial_state_def)
  ultimately show ?thesis using evalexp_correct [OF _ _ int_vars_sample _ _ sound_sample, of sample _ True] aval_sample by fastforce
qed

end
