(* ===== verification/TestCmd.thy ===== *)
theory TestCmd
  imports PatSub Cint
begin

text \<open>
  The \<^verbatim>\<open>test\<close> and \<^verbatim>\<open>[\<close> commands, \<^verbatim>\<open>test.c\<close>. The static variables \<^verbatim>\<open>argv\<close> and \<^verbatim>\<open>argc\<close> do not change while an
  expression is parsed and are arguments; \<^verbatim>\<open>pos\<close> is passed on and returned. \<^verbatim>\<open>longjmp\<close> with a
  status is the result \<open>Exit\<close>, and \<open>Fault\<close> is a read behind the terminator of a word. The four procedures of the
  grammar call each other; their first argument bounds the depth of the calls. What the operating system, the
  options and the variables of the shell answer is a record of functions. Messages are not modelled.
\<close>

subsection \<open>Files and the other things a primary asks for\<close>

record file_stat =
  st_dev :: int
  st_ino :: int
  st_mode :: int
  st_uid :: int
  st_gid :: int
  st_size :: int
  st_atime :: int
  st_mtime :: int
  st_mtime_ns :: int

record services =
  sh_stat :: "string \<Rightarrow> file_stat option"
  lstat :: "string \<Rightarrow> file_stat option"
  sh_eaccess :: "string \<Rightarrow> int \<Rightarrow> int"
  isatty :: "int \<Rightarrow> bool"
  euid :: int
  egid :: int
  minus_o_option_value :: "string \<Rightarrow> int"
  variable_isset :: "string \<Rightarrow> bool"
  variable_isref :: "string \<Rightarrow> bool"
  strcoll :: "string \<Rightarrow> string \<Rightarrow> int"
  arith_operands :: "string \<Rightarrow> string \<Rightarrow> (int \<times> int) option"
  shell_compatibility_level :: int
  extglob_on :: bool
  ignore_case :: bool
  asciirange :: bool

definition R_OK :: int where "R_OK = 4"
definition W_OK :: int where "W_OK = 2"
definition X_OK :: int where "X_OK = 1"

definition S_IFMT :: int where "S_IFMT = 0xF000"
definition S_ISREG :: "int \<Rightarrow> bool" where "S_ISREG m \<longleftrightarrow> m AND S_IFMT = 0x8000"
definition S_ISDIR :: "int \<Rightarrow> bool" where "S_ISDIR m \<longleftrightarrow> m AND S_IFMT = 0x4000"
definition S_ISCHR :: "int \<Rightarrow> bool" where "S_ISCHR m \<longleftrightarrow> m AND S_IFMT = 0x2000"
definition S_ISBLK :: "int \<Rightarrow> bool" where "S_ISBLK m \<longleftrightarrow> m AND S_IFMT = 0x6000"
definition S_ISFIFO :: "int \<Rightarrow> bool" where "S_ISFIFO m \<longleftrightarrow> m AND S_IFMT = 0x1000"
definition S_ISLNK :: "int \<Rightarrow> bool" where "S_ISLNK m \<longleftrightarrow> m AND S_IFMT = 0xA000"
definition S_ISSOCK :: "int \<Rightarrow> bool" where "S_ISSOCK m \<longleftrightarrow> m AND S_IFMT = 0xC000"
definition S_ISUID :: int where "S_ISUID = 0x800"
definition S_ISGID :: int where "S_ISGID = 0x400"
definition S_ISVTX :: int where "S_ISVTX = 0x200"

datatype 'a test_result = Value 'a | Exit int | Fault

definition tbind :: "'a test_result option \<Rightarrow> ('a \<Rightarrow> 'b test_result option) \<Rightarrow> 'b test_result option" where
  "tbind r k = (case r of None \<Rightarrow> None | Some (Value v) \<Rightarrow> k v | Some (Exit s) \<Rightarrow> Some (Exit s) | Some Fault \<Rightarrow> Some Fault)"

definition TEST_ERREXIT_STATUS :: int where "TEST_ERREXIT_STATUS = 2"
definition TEST_PATMATCH :: int where "TEST_PATMATCH = 1"
definition TEST_ARITHEXP :: int where "TEST_ARITHEXP = 2"
definition TEST_LOCALE :: int where "TEST_LOCALE = 4"

definition SHELL_BOOLEAN :: "bool \<Rightarrow> int" where
  "SHELL_BOOLEAN v = (if v then 0 else 1)"

text \<open>\<^verbatim>\<open>test_syntax_error\<close>, which also prints its message.\<close>

definition test_syntax_error :: "'a test_result" where
  "test_syntax_error = Exit TEST_ERREXIT_STATUS"

subsection \<open>Binary primaries\<close>

datatype arith_cmp = CEQ | CNE | CLT | CGT | CLE | CGE
datatype file_cmp = CNT | COT | CEF

definition timespec_cmp :: "int \<times> int \<Rightarrow> int \<times> int \<Rightarrow> int" where
  "timespec_cmp a b = (if fst a < fst b then - 1 else if fst a > fst b then 1 else snd a - snd b)"

definition stat_mtime :: "services \<Rightarrow> string \<Rightarrow> (file_stat \<times> int \<times> int) option" where
  "stat_mtime sv fn = map_option (\<lambda>st. (st, st_mtime st, st_mtime_ns st)) (sh_stat sv fn)"

definition same_file :: "file_stat \<Rightarrow> file_stat \<Rightarrow> bool" where
  "same_file s1 s2 \<longleftrightarrow> st_dev s1 = st_dev s2 \<and> st_ino s1 = st_ino s2"

text \<open>A failing \<^verbatim>\<open>stat_mtime\<close> returns -1, a successful one 0; the times are compared only when both succeed.\<close>

definition filecomp :: "services \<Rightarrow> string \<Rightarrow> string \<Rightarrow> file_cmp \<Rightarrow> bool" where
  "filecomp sv s t op = (case (stat_mtime sv s, stat_mtime sv t) of
      (None, None) \<Rightarrow> False
    | (None, Some _) \<Rightarrow> op = COT
    | (Some _, None) \<Rightarrow> op = CNT
    | (Some (st1, ts1), Some (st2, ts2)) \<Rightarrow> (case op of
          COT \<Rightarrow> timespec_cmp ts1 ts2 < 0 | CNT \<Rightarrow> timespec_cmp ts1 ts2 > 0 | CEF \<Rightarrow> same_file st1 st2))"

primrec arith_holds :: "arith_cmp \<Rightarrow> int \<Rightarrow> int \<Rightarrow> bool" where
  "arith_holds CEQ l r \<longleftrightarrow> l = r" | "arith_holds CNE l r \<longleftrightarrow> l \<noteq> r" | "arith_holds CLT l r \<longleftrightarrow> l < r"
| "arith_holds CGT l r \<longleftrightarrow> l > r" | "arith_holds CLE l r \<longleftrightarrow> l \<le> r" | "arith_holds CGE l r \<longleftrightarrow> l \<ge> r"

definition arithcomp :: "services \<Rightarrow> string \<Rightarrow> string \<Rightarrow> arith_cmp \<Rightarrow> int \<Rightarrow> bool test_result" where
  "arithcomp sv s t op flags = (
     if flags AND TEST_ARITHEXP \<noteq> 0 then
       (case arith_operands sv s t of None \<Rightarrow> Value False | Some (l, r) \<Rightarrow> Value (arith_holds op l r))
     else case legal_number (Some s) of None \<Rightarrow> test_syntax_error | Some l \<Rightarrow>
       (case legal_number (Some t) of None \<Rightarrow> test_syntax_error | Some r \<Rightarrow> Value (arith_holds op l r)))"

definition patcomp :: "services \<Rightarrow> string \<Rightarrow> string \<Rightarrow> bool \<Rightarrow> bool test_result" where
  "patcomp sv string pat eq = (
     case strmatch (asciirange sv) (Some pat) (Some string)
            (FNMATCH_EXTFLAG (extglob_on sv) OR (if ignore_case sv then FNM_CASEFOLD else 0)) of
       None \<Rightarrow> Fault | Some m \<Rightarrow> Value (if eq then m = 0 else m \<noteq> 0))"

fun strcmp :: "string \<Rightarrow> string \<Rightarrow> int" where
  "strcmp [] [] = 0"
| "strcmp [] (d # t) = - uchar d"
| "strcmp (c # s) [] = uchar c"
| "strcmp (c # s) (d # t) = (if c = d then strcmp s t else uchar c - uchar d)"

definition string_order :: "services \<Rightarrow> int \<Rightarrow> string \<Rightarrow> string \<Rightarrow> int" where
  "string_order sv flags a b = (if shell_compatibility_level sv > 40 \<and> flags AND TEST_LOCALE \<noteq> 0 then strcoll sv a b else strcmp a b)"

definition binary_test :: "services \<Rightarrow> string \<Rightarrow> string \<Rightarrow> string \<Rightarrow> int \<Rightarrow> bool test_result" where
  "binary_test sv op arg1 arg2 flags = (
     let patmatch = flags AND TEST_PATMATCH \<noteq> 0; c1 = char_at op 1; c2 = char_at op 2 in
     if op = ''='' \<or> op = ''=='' then if patmatch then patcomp sv arg1 arg2 True else Value (arg1 = arg2)
     else if op = ''>'' then Value (string_order sv flags arg1 arg2 > 0)
     else if op = ''<'' then Value (string_order sv flags arg1 arg2 < 0)
     else if op = ''!='' then if patmatch then patcomp sv arg1 arg2 False else Value (arg1 \<noteq> arg2)
     else if length op < 2 then Fault
     else if c2 = CHR ''t'' then
       if c1 = CHR ''n'' then Value (filecomp sv arg1 arg2 CNT)
       else if c1 = CHR ''o'' then Value (filecomp sv arg1 arg2 COT)
       else if c1 = CHR ''l'' then arithcomp sv arg1 arg2 CLT flags
       else if c1 = CHR ''g'' then arithcomp sv arg1 arg2 CGT flags
       else Value False
     else if c1 = CHR ''e'' then
       if c2 = CHR ''f'' then Value (filecomp sv arg1 arg2 CEF)
       else if c2 = CHR ''q'' then arithcomp sv arg1 arg2 CEQ flags
       else Value False
     else if c2 = CHR ''e'' then
       if c1 = CHR ''n'' then arithcomp sv arg1 arg2 CNE flags
       else if c1 = CHR ''g'' then arithcomp sv arg1 arg2 CGE flags
       else if c1 = CHR ''l'' then arithcomp sv arg1 arg2 CLE flags
       else Value False
     else Value False)"

text \<open>The tests of an operator read its third character; \<open>None\<close> when that is behind the terminator.\<close>

definition test_binop :: "string \<Rightarrow> bool option" where
  "test_binop op = (
     if op = ''='' \<or> op = ''<'' \<or> op = ''>'' \<or> op = ''=='' \<or> op = ''!='' then Some True
     else if char_at op 0 \<noteq> CHR ''-'' then Some False
     else do {
       c2 \<leftarrow> rd op 2;
       if c2 = NUL then Some False
       else do {
         c3 \<leftarrow> rd op 3;
         let c1 = char_at op 1;
         Some (c3 = NUL \<and> (
           if c2 = CHR ''t'' then c1 \<in> set ''nolg''
           else if c1 = CHR ''e'' then c2 \<in> set ''qf''
           else c2 = CHR ''e'' \<and> c1 \<in> set ''ngl'')) } })"

definition test_unop :: "string \<Rightarrow> bool option" where
  "test_unop op = (
     if char_at op 0 \<noteq> CHR ''-'' then Some False
     else do { c2 \<leftarrow> rd op 2; Some (c2 = NUL \<and> char_at op 1 \<in> set ''abcdefghknoprstuvwxzGLOSNR'') })"

definition binary_operator :: "services \<Rightarrow> string list \<Rightarrow> nat \<Rightarrow> (bool \<times> nat) test_result" where
  "binary_operator sv argv pos = (
     let w = argv ! (pos + 1);
         result = (case binary_test sv w (argv ! pos) (argv ! (pos + 2)) 0 of
           Value v \<Rightarrow> Value (v, pos + 3) | Exit s \<Rightarrow> Exit s | Fault \<Rightarrow> Fault)
     in if w = ''='' \<or> w = ''=='' \<or> w = ''>'' \<or> w = ''<'' \<or> w = ''!='' then result
        else if char_at w 0 \<noteq> CHR ''-'' then test_syntax_error
        else case rd w 3 of
          None \<Rightarrow> Fault
        | Some c3 \<Rightarrow> if c3 \<noteq> NUL then test_syntax_error
            else case test_binop w of None \<Rightarrow> Fault | Some b \<Rightarrow> if b then result else test_syntax_error)"

subsection \<open>Unary primaries\<close>

definition with_stat :: "file_stat option \<Rightarrow> (file_stat \<Rightarrow> bool) \<Rightarrow> bool" where
  "with_stat st P = (case st of None \<Rightarrow> False | Some st \<Rightarrow> P st)"

definition unary_test :: "services \<Rightarrow> string \<Rightarrow> string \<Rightarrow> bool" where
  "unary_test sv op arg = (
     let c = char_at op 1; stat_is = with_stat (sh_stat sv arg) in
     if c = CHR ''a'' \<or> c = CHR ''e'' then stat_is (\<lambda>_. True)
     else if c = CHR ''r'' then sh_eaccess sv arg R_OK = 0
     else if c = CHR ''w'' then sh_eaccess sv arg W_OK = 0
     else if c = CHR ''x'' then sh_eaccess sv arg X_OK = 0
     else if c = CHR ''O'' then stat_is (\<lambda>st. euid sv = st_uid st)
     else if c = CHR ''G'' then stat_is (\<lambda>st. egid sv = st_gid st)
     else if c = CHR ''N'' then stat_is (\<lambda>st. st_atime st \<le> st_mtime st)
     else if c = CHR ''f'' then stat_is (\<lambda>st. S_ISREG (st_mode st) \<or> st_mode st AND S_IFMT = 0)
     else if c = CHR ''d'' then stat_is (\<lambda>st. S_ISDIR (st_mode st))
     else if c = CHR ''s'' then stat_is (\<lambda>st. st_size st > 0)
     else if c = CHR ''S'' then stat_is (\<lambda>st. S_ISSOCK (st_mode st))
     else if c = CHR ''c'' then stat_is (\<lambda>st. S_ISCHR (st_mode st))
     else if c = CHR ''b'' then stat_is (\<lambda>st. S_ISBLK (st_mode st))
     else if c = CHR ''p'' then stat_is (\<lambda>st. S_ISFIFO (st_mode st))
     else if c = CHR ''L'' \<or> c = CHR ''h'' then arg \<noteq> [] \<and> with_stat (lstat sv arg) (\<lambda>st. S_ISLNK (st_mode st))
     else if c = CHR ''u'' then stat_is (\<lambda>st. st_mode st AND S_ISUID \<noteq> 0)
     else if c = CHR ''g'' then stat_is (\<lambda>st. st_mode st AND S_ISGID \<noteq> 0)
     else if c = CHR ''k'' then stat_is (\<lambda>st. st_mode st AND S_ISVTX \<noteq> 0)
     else if c = CHR ''t'' then (case legal_number (Some arg) of None \<Rightarrow> False | Some r \<Rightarrow> r = to_int r \<and> isatty sv (to_int r))
     else if c = CHR ''n'' then arg \<noteq> []
     else if c = CHR ''z'' then arg = []
     else if c = CHR ''o'' then minus_o_option_value sv arg = 1
     else if c = CHR ''v'' then variable_isset sv arg
     else if c = CHR ''R'' then variable_isref sv arg
     else False)"

definition unary_operator :: "services \<Rightarrow> string list \<Rightarrow> nat \<Rightarrow> nat \<Rightarrow> (bool \<times> nat) test_result" where
  "unary_operator sv argv argc pos = (
     let op = argv ! pos in
     case test_unop op of
       None \<Rightarrow> Fault
     | Some False \<Rightarrow> Value (False, pos)
     | Some True \<Rightarrow>
         if char_at op 1 = CHR ''t'' then
           if pos + 1 < argc then
             if legal_number (Some (argv ! (pos + 1))) \<noteq> None then Value (unary_test sv op (argv ! (pos + 1)), pos + 2)
             else Value (False, pos + 1)
           else Value (unary_test sv op ''1'', pos + 1)
         else if pos + 1 \<ge> argc then test_syntax_error
         else Value (unary_test sv op (argv ! (pos + 1)), pos + 2))"

subsection \<open>The grammar\<close>

text \<open>The loop over leading negations; \<open>None\<close> when the arguments end after one.\<close>

function not_loop :: "string list \<Rightarrow> nat \<Rightarrow> nat \<Rightarrow> bool \<Rightarrow> (nat \<times> bool) option" where
  "not_loop argv argc pos value = (
     if pos < argc \<and> argv ! pos = ''!'' then
       if pos + 1 \<ge> argc then None else not_loop argv argc (pos + 1) (\<not> value)
     else Some (pos, value))"
  by pat_completeness auto

termination not_loop
  by (relation "measure (\<lambda>(argv, argc, pos, value). argc - pos)") auto

declare not_loop.simps [simp del]

text \<open>A word that begins with a dash and whose third character is the terminator.\<close>

definition switch_word :: "string \<Rightarrow> bool option" where
  "switch_word w = (if char_at w 0 = CHR ''-'' then do { c2 \<leftarrow> rd w 2; Some (c2 = NUL) } else Some False)"

definition term_switch :: "services \<Rightarrow> string list \<Rightarrow> nat \<Rightarrow> nat \<Rightarrow> (bool \<times> nat) test_result" where
  "term_switch sv argv argc pos = (case switch_word (argv ! pos) of
      None \<Rightarrow> Fault
    | Some True \<Rightarrow> (case test_unop (argv ! pos) of
          None \<Rightarrow> Fault
        | Some b \<Rightarrow> if b then unary_operator sv argv argc pos else test_syntax_error)
    | Some False \<Rightarrow> Value (argv ! pos \<noteq> [], pos + 1))"

definition term_primary :: "services \<Rightarrow> string list \<Rightarrow> nat \<Rightarrow> nat \<Rightarrow> (bool \<times> nat) test_result" where
  "term_primary sv argv argc pos = (
     if pos + 3 \<le> argc then
       (case test_binop (argv ! (pos + 1)) of
          None \<Rightarrow> Fault
        | Some b \<Rightarrow> if b then binary_operator sv argv pos else term_switch sv argv argc pos)
     else term_switch sv argv argc pos)"

fun test_expr :: "services \<Rightarrow> string list \<Rightarrow> nat \<Rightarrow> nat \<Rightarrow> nat \<Rightarrow> (bool \<times> nat) test_result option"
  and test_or :: "services \<Rightarrow> string list \<Rightarrow> nat \<Rightarrow> nat \<Rightarrow> nat \<Rightarrow> (bool \<times> nat) test_result option"
  and test_and :: "services \<Rightarrow> string list \<Rightarrow> nat \<Rightarrow> nat \<Rightarrow> nat \<Rightarrow> (bool \<times> nat) test_result option"
  and test_term :: "services \<Rightarrow> string list \<Rightarrow> nat \<Rightarrow> nat \<Rightarrow> nat \<Rightarrow> (bool \<times> nat) test_result option" where
  "test_expr sv argv argc 0 pos = None"
| "test_expr sv argv argc (Suc n) pos = (if pos \<ge> argc then Some test_syntax_error else test_or sv argv argc n pos)"
| "test_or sv argv argc 0 pos = None"
| "test_or sv argv argc (Suc n) pos = tbind (test_and sv argv argc n pos) (\<lambda>(value, pos).
     if pos < argc \<and> argv ! pos = ''-o''
     then tbind (test_or sv argv argc n (pos + 1)) (\<lambda>(v2, pos). Some (Value (value \<or> v2, pos)))
     else Some (Value (value, pos)))"
| "test_and sv argv argc 0 pos = None"
| "test_and sv argv argc (Suc n) pos = tbind (test_term sv argv argc n pos) (\<lambda>(value, pos).
     if pos < argc \<and> argv ! pos = ''-a''
     then tbind (test_and sv argv argc n (pos + 1)) (\<lambda>(v2, pos). Some (Value (value \<and> v2, pos)))
     else Some (Value (value, pos)))"
| "test_term sv argv argc 0 pos = None"
| "test_term sv argv argc (Suc n) pos = (
     if pos \<ge> argc then Some test_syntax_error
     else if argv ! pos = ''!'' then
       (case not_loop argv argc pos False of
          None \<Rightarrow> Some test_syntax_error
        | Some (pos, value) \<Rightarrow> tbind (test_term sv argv argc n pos) (\<lambda>(v, pos). Some (Value (if value then \<not> v else v, pos))))
     else if argv ! pos = ''('' then
       if pos + 1 \<ge> argc then Some test_syntax_error
       else tbind (test_expr sv argv argc n (pos + 1)) (\<lambda>(value, pos).
         if pos \<ge> length argv then Some test_syntax_error
         else if argv ! pos \<noteq> '')'' then Some test_syntax_error
         else Some (Value (value, pos + 1)))
     else Some (term_primary sv argv argc pos))"

subsection \<open>Few arguments\<close>

definition two_arguments :: "services \<Rightarrow> string list \<Rightarrow> nat \<Rightarrow> nat \<Rightarrow> (bool \<times> nat) test_result" where
  "two_arguments sv argv argc pos = (
     if argv ! pos = ''!'' then Value (argv ! (pos + 1) = [], pos)
     else case switch_word (argv ! pos) of
       None \<Rightarrow> Fault
     | Some True \<Rightarrow> (case test_unop (argv ! pos) of
           None \<Rightarrow> Fault
         | Some b \<Rightarrow> if b then unary_operator sv argv argc pos else test_syntax_error)
     | Some False \<Rightarrow> test_syntax_error)"

definition ANDOR :: "string \<Rightarrow> bool option" where
  "ANDOR s = (if char_at s 0 = CHR ''-''
     then do { c2 \<leftarrow> rd s 2; Some (c2 = NUL \<and> (char_at s 1 = CHR ''a'' \<or> char_at s 1 = CHR ''o'')) } else Some False)"

definition ONE_ARG_TEST :: "string \<Rightarrow> bool" where
  "ONE_ARG_TEST s \<longleftrightarrow> s \<noteq> []"

definition three_arguments :: "services \<Rightarrow> string list \<Rightarrow> nat \<Rightarrow> nat \<Rightarrow> (bool \<times> nat) test_result" where
  "three_arguments sv argv argc pos = (
     let w = argv ! (pos + 1) in
     case test_binop w of
       None \<Rightarrow> Fault
     | Some True \<Rightarrow> (case binary_operator sv argv pos of Value (v, _) \<Rightarrow> Value (v, argc) | r \<Rightarrow> r)
     | Some False \<Rightarrow>
         (case ANDOR w of
            None \<Rightarrow> Fault
          | Some True \<Rightarrow>
              Value (if char_at w 1 = CHR ''a'' then ONE_ARG_TEST (argv ! pos) \<and> ONE_ARG_TEST (argv ! (pos + 2))
                else ONE_ARG_TEST (argv ! pos) \<or> ONE_ARG_TEST (argv ! (pos + 2)), argc)
          | Some False \<Rightarrow>
              if argv ! pos = ''!'' then
                if pos + 1 \<ge> argc then test_syntax_error
                else (case two_arguments sv argv argc (pos + 1) of Value (v, p) \<Rightarrow> Value (\<not> v, p) | r \<Rightarrow> r)
              else if char_at (argv ! pos) 0 = CHR ''('' \<and> char_at (argv ! (pos + 2)) 0 = CHR '')''
              then Value (ONE_ARG_TEST w, argc)
              else test_syntax_error))"

definition posixtest :: "services \<Rightarrow> nat \<Rightarrow> string list \<Rightarrow> nat \<Rightarrow> nat \<Rightarrow> (bool \<times> nat) test_result option" where
  "posixtest sv n argv argc pos = (
     if argc - 1 = 0 then Some (Value (False, argc))
     else if argc - 1 = 1 then Some (Value (ONE_ARG_TEST (argv ! 1), argc))
     else if argc - 1 = 2 then
       Some (case two_arguments sv argv argc pos of Value (v, _) \<Rightarrow> Value (v, argc) | r \<Rightarrow> r)
     else if argc - 1 = 3 then Some (three_arguments sv argv argc pos)
     else if argc - 1 = 4 \<and> argv ! pos = ''!'' then
       Some (if pos + 1 \<ge> argc then test_syntax_error
         else case three_arguments sv argv argc (pos + 1) of Value (v, p) \<Rightarrow> Value (\<not> v, p) | r \<Rightarrow> r)
     else test_expr sv argv argc n pos)"

text \<open>The jump brings every exit of the expression back here, so that the result is a status or a fault.\<close>

definition run_test :: "services \<Rightarrow> nat \<Rightarrow> string list \<Rightarrow> nat \<Rightarrow> int test_result option" where
  "run_test sv n margv argc = (
     if 1 \<ge> argc then Some (Exit (SHELL_BOOLEAN False))
     else tbind (posixtest sv n margv argc 1) (\<lambda>(value, pos).
       Some (if pos \<noteq> argc then test_syntax_error else Exit (SHELL_BOOLEAN value))))"

definition test_command :: "services \<Rightarrow> nat \<Rightarrow> string list \<Rightarrow> int option option" where
  "test_command sv n margv = map_option (\<lambda>r. case r of Exit s \<Rightarrow> Some s | Value s \<Rightarrow> Some s | Fault \<Rightarrow> None) (
     let margc = length margv in
     if margv \<noteq> [] \<and> margv ! 0 = ''['' then
       let margc = margc - 1 in
       if margv ! margc \<noteq> '']'' then Some test_syntax_error
       else if margc < 2 then Some (Exit (SHELL_BOOLEAN False))
       else run_test sv n margv margc
     else run_test sv n margv margc)"

end
