(* ===== verification/TestPrim.thy ===== *)
theory TestPrim
  imports TestCmd
begin

text \<open>
  What the primaries of \<^verbatim>\<open>test\<close> mean, stated without the code: numbers as texts, the order of strings
  by bytes, the times and kinds of files. The lemmas at the end show that \<open>unary_test\<close> and \<open>binary_test\<close>
  compute just that.
\<close>

subsection \<open>Numbers\<close>

text \<open>
  An integer of 64 bits with white space before it, blanks and tabs behind it, an optional sign and
  at least one decimal digit.
\<close>

definition decimal_value :: "string \<Rightarrow> nat" where
  "decimal_value ds = foldl (\<lambda>n c. 10 * n + (of_char c - 48)) 0 ds"

definition number_of :: "string \<Rightarrow> int option" where
  "number_of w = (
     let r = dropWhile ISSPACE w;
         neg = (r \<noteq> [] \<and> hd r = CHR ''-'');
         r = (if r \<noteq> [] \<and> (hd r = CHR ''-'' \<or> hd r = CHR ''+'') then tl r else r);
         ds = takeWhile DIGIT r;
         v = (if neg then - int (decimal_value ds) else int (decimal_value ds))
     in if ds \<noteq> [] \<and> list_all (\<lambda>c. c = CHR '' '' \<or> c = CHR 0x09) (dropWhile DIGIT r) \<and> - (2 ^ 63) \<le> v \<and> v < 2 ^ 63
        then Some v else None)"

lemma is_digit_in_10: "is_digit_in 10 = DIGIT"
  by (auto simp: fun_eq_iff is_digit_in_def digit_of_def DIGIT_def ISALPHA_def ISUPPER_def ISLOWER_def TOUPPER_def split: if_splits)

lemma decimal_value_digits: "list_all DIGIT ds \<Longrightarrow> decimal_value ds = digits_val 10 ds"
proof (induction ds rule: rev_induct)
  case (snoc c ds)
  then show ?case by (simp add: decimal_value_def digit_of_def uchar_def nat_diff_distrib mult.commute)
qed (simp add: decimal_value_def)

text \<open>The parts of a text: white space, a sign, digits and the rest.\<close>

lemma number_parts:
  obtains ws sg r where "w = ws @ sg @ r" and "list_all ISSPACE ws" and "sg \<in> {[], ''-'', ''+''}"
    and "takeWhile ISSPACE w = ws" and "dropWhile ISSPACE w = sg @ r"
    and "sg = [] \<longrightarrow> r = [] \<or> hd r \<noteq> CHR ''-'' \<and> hd r \<noteq> CHR ''+'' \<and> \<not> ISSPACE (hd r)"
proof -
  let ?ws = "takeWhile ISSPACE w" and ?r = "dropWhile ISSPACE w"
  have ws: "list_all ISSPACE ?ws" "w = ?ws @ ?r" by (simp_all add: list_all_iff) (metis set_takeWhileD)
  have h: "?r \<noteq> [] \<longrightarrow> \<not> ISSPACE (hd ?r)" using hd_dropWhile by blast
  show ?thesis
  proof (cases "?r \<noteq> [] \<and> (hd ?r = CHR ''-'' \<or> hd ?r = CHR ''+'')")
    case True
    then have "?r = [hd ?r] @ tl ?r" by simp
    then show ?thesis using ws True by (intro that [of ?ws "[hd ?r]" "tl ?r"]) auto
  next
    case False
    then show ?thesis using ws h by (intro that [of ?ws "[]" ?r]) auto
  qed
qed

lemma number_of_parts:
  assumes "dropWhile ISSPACE w = sg @ r" and "sg \<in> {[], ''-'', ''+''}"
    and "sg = [] \<longrightarrow> r = [] \<or> hd r \<noteq> CHR ''-'' \<and> hd r \<noteq> CHR ''+'' \<and> \<not> ISSPACE (hd r)"
  defines "ds \<equiv> takeWhile DIGIT r"
  defines "v \<equiv> if sg = ''-'' then - int (digits_val 10 ds) else int (digits_val 10 ds)"
  shows "number_of w = (if ds \<noteq> [] \<and> list_all whitespace (dropWhile DIGIT r) \<and> - (2 ^ 63) \<le> v \<and> v < 2 ^ 63 then Some v else None)"
proof -
  have "list_all DIGIT ds" by (simp add: ds_def list_all_iff) (metis set_takeWhileD)
  then have d: "decimal_value ds = digits_val 10 ds" by (rule decimal_value_digits)
  have r: "(if sg @ r \<noteq> [] \<and> (hd (sg @ r) = CHR ''-'' \<or> hd (sg @ r) = CHR ''+'') then tl (sg @ r) else sg @ r) = r"
    and n: "(sg @ r \<noteq> [] \<and> hd (sg @ r) = CHR ''-'') = (sg = ''-'')" using assms(2,3) by auto
  have b: "(\<lambda>c. c = CHR '' '' \<or> c = CHR 0x09) = whitespace" by (rule ext) (simp add: whitespace_def)
  show ?thesis unfolding number_of_def assms(1) Let_def r n b ds_def [symmetric] d v_def ..
qed

text \<open>Without digits nothing is converted.\<close>

lemma strtol_no_digits:
  assumes "w = ws @ sg @ r" and "list_all ISSPACE ws" and "sg \<in> {[], ''-'', ''+''}" and "takeWhile ISSPACE w = ws"
    and "sg = [] \<longrightarrow> r = [] \<or> hd r \<noteq> CHR ''-'' \<and> hd r \<noteq> CHR ''+'' \<and> \<not> ISSPACE (hd r)"
    and "takeWhile DIGIT r = []"
  shows "strtol w 10 = (0, Some 0, NoErr)"
proof -
  let ?p = "length ws + length sg"
  have at: "char_at w (length ws) = (if sg = [] then char_at r 0 else hd sg)" using assms(1,3) by (auto simp: char_at_append)
  have r0: "char_at r 0 = (if r = [] then NUL else hd r)" by (cases r) auto
  have p: "(if char_at w (length ws) = CHR ''-'' \<or> char_at w (length ws) = CHR ''+'' then Suc (length ws) else length ws) = ?p"
    using assms(3,5) r0 by (auto simp: at)
  have drop: "drop ?p w = r" using assms(1) by simp
  have lp: "strtol_loop 10 r 0 False 0 = (0, False, 0)"
  proof (cases r)
    case (Cons c s)
    then have "\<not> is_digit_in 10 c" using assms(6) by (auto simp: is_digit_in_10 split: if_splits)
    then show ?thesis using Cons by (auto simp: is_digit_in_def split: option.splits)
  qed simp
  have no: "strtol_noconv w ?p = (0, Some 0, NoErr)"
  proof -
    have "\<not> TOUPPER (char_at w (?p - 1)) = CHR ''X''" if "2 \<le> ?p"
    proof -
      have "?p - 1 < length (ws @ sg)" using that by simp
      then have "char_at w (?p - 1) \<in> set (ws @ sg)"
        using char_at_append [of "ws @ sg" r "?p - 1"] assms(1) nth_mem [of "?p - 1" "ws @ sg"] by simp
      then have "ISSPACE (char_at w (?p - 1)) \<or> char_at w (?p - 1) = CHR ''-'' \<or> char_at w (?p - 1) = CHR ''+''"
        using assms(2,3) by (auto simp: list_all_iff)
      then have "\<not> ISLOWER (char_at w (?p - 1)) \<and> char_at w (?p - 1) \<noteq> CHR ''X''" by (auto simp: ISSPACE_def ISLOWER_def uchar_def)
      then show ?thesis by (simp add: TOUPPER_def)
    qed
    then show ?thesis by (auto simp: strtol_noconv_def)
  qed
  have z: "strtol_noconv w 0 = (0, Some 0, NoErr)" by (simp add: strtol_noconv_def)
  have base: "(if char_at w ?p = CHR ''0'' then
       (if (10 = (0::int) \<or> 10 = (16::int)) \<and> TOUPPER (char_at w (Suc ?p)) = CHR ''X'' then (?p + 2, 16)
        else if 10 = (0::int) then (?p, 8) else (?p, 10))
     else if 10 = (0::int) then (?p, 10) else (?p, 10)) = (?p, 10 :: int)" by simp
  have lim: "((10::int) < 0 \<or> (10::int) = 1 \<or> (10::int) > 36) = False" by simp
  show ?thesis
    unfolding strtol_def assms(4) lim Let_def p base prod.case drop if_False using lp no z by simp
qed

lemma legal_number_of: "legal_number (Some w) = number_of w"
proof -
  obtain ws sg r where w: "w = ws @ sg @ r" "list_all ISSPACE ws" "sg \<in> {[], ''-'', ''+''}"
    "takeWhile ISSPACE w = ws" "dropWhile ISSPACE w = sg @ r"
    "sg = [] \<longrightarrow> r = [] \<or> hd r \<noteq> CHR ''-'' \<and> hd r \<noteq> CHR ''+'' \<and> \<not> ISSPACE (hd r)" by (rule number_parts)
  let ?ds = "takeWhile DIGIT r" and ?rest = "dropWhile DIGIT r"
  show ?thesis
  proof (cases "?ds = []")
    case True
    have "strtol w 10 = (0, Some 0, NoErr)" by (rule strtol_no_digits [OF w(1-4,6) True])
    then show ?thesis using True by (simp add: legal_number_def strtoimax_def number_of_parts [OF w(5,3,6)])
  next
    case False
    have ds: "list_all (is_digit_in 10) ?ds" "?rest = [] \<or> \<not> is_digit_in 10 (hd ?rest)"
      using hd_dropWhile [of DIGIT r] by (auto simp: is_digit_in_10 list_all_iff dest: set_takeWhileD)
    have "strtol (ws @ sg @ ?ds @ ?rest) (int 10) =
        strtol_result (sg = ''-'') (digits_val 10 ?ds) (length ws + length sg + length ?ds)"
      using w(2,3) ds False by (intro strtol_reads) auto
    then have st: "strtol w 10 = strtol_result (sg = ''-'') (digits_val 10 ?ds) (length ws + length sg + length ?ds)" using w(1) by simp
    let ?e = "length ws + length sg + length ?ds" and ?v = "if sg = ''-'' then - int (digits_val 10 ?ds) else int (digits_val 10 ?ds)"
    let ?in = "- (2 ^ 63) \<le> ?v \<and> ?v < 2 ^ 63"
    have rest: "drop ?e w = ?rest" using w(1) by (simp add: dropWhile_eq_drop)
    obtain x where x: "strtol w 10 = (if ?in then (?v, Some ?e, NoErr) else (x, Some ?e, ERANGE))"
      unfolding st strtol_result_def by (cases "sg = ''-''"; cases ?in) auto
    have sp: "dropWhile whitespace ?rest = [] \<longleftrightarrow> list_all whitespace ?rest" by (simp add: list_all_iff)
    have ne: "w \<noteq> []" "?e \<noteq> 0" using False w(1) by auto
    have "legal_number (Some w) = (if ?in \<and> list_all whitespace ?rest then Some ?v else None)"
    proof (cases ?in)
      case True
      then have "strtol w 10 = (?v, Some ?e, NoErr)" unfolding x by (rule if_P)
      then show ?thesis using True ne sp rest by (auto simp: legal_number_def strtoimax_def)
    next
      case False
      then have "strtol w 10 = (x, Some ?e, ERANGE)" unfolding x by (rule if_not_P)
      then have "legal_number (Some w) = None" by (simp add: legal_number_def strtoimax_def)
      moreover have "\<not> (?in \<and> list_all whitespace ?rest)" using False by blast
      ultimately show ?thesis by (simp only: if_False)
    qed
    then show ?thesis unfolding number_of_parts [OF w(5,3,6)] using False by auto
  qed
qed

subsection \<open>Strings and files\<close>

lemma strcmp_order: "strcmp a b < 0 \<longleftrightarrow> ord_class.lexordp (map uchar a) (map uchar b)" "strcmp a b > 0 \<longleftrightarrow> ord_class.lexordp (map uchar b) (map uchar a)"
  if "c_string a" "c_string b"
proof -
  have u: "0 < uchar c" if "c \<noteq> NUL" for c
  proof -
    have "of_char c \<noteq> (of_char NUL :: nat)" using that by (simp only: of_char_eq_iff not_False_eq_True)
    then show ?thesis by (simp add: uchar_def)
  qed
  have i: "uchar c = uchar d \<longleftrightarrow> c = d" for c d by (simp add: uchar_def of_char_eq_iff)
  have "(strcmp a b < 0 \<longleftrightarrow> ord_class.lexordp (map uchar a) (map uchar b)) \<and> (strcmp a b > 0 \<longleftrightarrow> ord_class.lexordp (map uchar b) (map uchar a))"
    using that
  proof (induction a b rule: strcmp.induct)
    case (4 c s d t)
    have "c \<noteq> d \<Longrightarrow> uchar c < uchar d \<or> uchar d < uchar c" using i [of c d] by linarith
    then show ?case using 4 by (auto simp: c_string_def)
  next
    case (2 d t)
    then show ?case using u [of d] by (auto simp: c_string_def)
  next
    case (3 c s)
    then show ?case using u [of c] by (auto simp: c_string_def)
  qed simp
  then show "strcmp a b < 0 \<longleftrightarrow> ord_class.lexordp (map uchar a) (map uchar b)" "strcmp a b > 0 \<longleftrightarrow> ord_class.lexordp (map uchar b) (map uchar a)" by blast+
qed

definition later :: "file_stat \<Rightarrow> file_stat \<Rightarrow> bool" where
  "later x y \<longleftrightarrow> st_mtime y < st_mtime x \<or> st_mtime x = st_mtime y \<and> st_mtime_ns y < st_mtime_ns x"

definition newer :: "services \<Rightarrow> string \<Rightarrow> string \<Rightarrow> bool" where
  "newer sv a b \<longleftrightarrow> (case sh_stat sv a of None \<Rightarrow> False
     | Some x \<Rightarrow> (case sh_stat sv b of None \<Rightarrow> True | Some y \<Rightarrow> later x y))"

definition one_file :: "services \<Rightarrow> string \<Rightarrow> string \<Rightarrow> bool" where
  "one_file sv a b \<longleftrightarrow> (case (sh_stat sv a, sh_stat sv b) of
     (Some x, Some y) \<Rightarrow> (st_dev x, st_ino x) = (st_dev y, st_ino y) | _ \<Rightarrow> False)"

text \<open>The kind of a file is in the four bits from bit 12 on; a kind of zero counts as a regular file.\<close>

definition file_kind :: "file_stat \<Rightarrow> int" where
  "file_kind st = (st_mode st div 4096) mod 16"

definition mode_bit :: "nat \<Rightarrow> file_stat \<Rightarrow> bool" where
  "mode_bit k st \<longleftrightarrow> odd (st_mode st div 2 ^ k)"

subsection \<open>The primaries\<close>

definition binary_value :: "services \<Rightarrow> string \<Rightarrow> string \<Rightarrow> string \<Rightarrow> bool test_result" where
  "binary_value sv op a b = (
     if op = ''='' \<or> op = ''=='' then Value (a = b)
     else if op = ''!='' then Value (a \<noteq> b)
     else if op = ''<'' then Value (ord_class.lexordp (map uchar a) (map uchar b))
     else if op = ''>'' then Value (ord_class.lexordp (map uchar b) (map uchar a))
     else if op = ''-nt'' then Value (newer sv a b)
     else if op = ''-ot'' then Value (newer sv b a)
     else if op = ''-ef'' then Value (one_file sv a b)
     else case (number_of a, number_of b) of
       (Some x, Some y) \<Rightarrow> Value (
         if op = ''-eq'' then x = y else if op = ''-ne'' then x \<noteq> y else if op = ''-lt'' then x < y
         else if op = ''-le'' then x \<le> y else if op = ''-gt'' then y < x else y \<le> x)
     | _ \<Rightarrow> Exit 2)"

definition file_is :: "file_stat option \<Rightarrow> (file_stat \<Rightarrow> bool) \<Rightarrow> bool" where
  "file_is f P \<longleftrightarrow> (case f of None \<Rightarrow> False | Some st \<Rightarrow> P st)"

definition unary_value :: "services \<Rightarrow> string \<Rightarrow> string \<Rightarrow> bool" where
  "unary_value sv op s = (
     let f = sh_stat sv s in
     if op = ''-z'' then s = []
     else if op = ''-n'' then s \<noteq> []
     else if op = ''-e'' \<or> op = ''-a'' then f \<noteq> None
     else if op = ''-f'' then file_is f (\<lambda>st. file_kind st = 8 \<or> file_kind st = 0)
     else if op = ''-d'' then file_is f (\<lambda>st. file_kind st = 4)
     else if op = ''-b'' then file_is f (\<lambda>st. file_kind st = 6)
     else if op = ''-c'' then file_is f (\<lambda>st. file_kind st = 2)
     else if op = ''-p'' then file_is f (\<lambda>st. file_kind st = 1)
     else if op = ''-S'' then file_is f (\<lambda>st. file_kind st = 12)
     else if op = ''-h'' \<or> op = ''-L'' then s \<noteq> [] \<and> file_is (lstat sv s) (\<lambda>st. file_kind st = 10)
     else if op = ''-s'' then file_is f (\<lambda>st. 0 < st_size st)
     else if op = ''-u'' then file_is f (mode_bit 11)
     else if op = ''-g'' then file_is f (mode_bit 10)
     else if op = ''-k'' then file_is f (mode_bit 9)
     else if op = ''-r'' then sh_eaccess sv s 4 = 0
     else if op = ''-w'' then sh_eaccess sv s 2 = 0
     else if op = ''-x'' then sh_eaccess sv s 1 = 0
     else if op = ''-O'' then file_is f (\<lambda>st. euid sv = st_uid st)
     else if op = ''-G'' then file_is f (\<lambda>st. egid sv = st_gid st)
     else if op = ''-N'' then file_is f (\<lambda>st. \<not> st_mtime st < st_atime st)
     else if op = ''-t'' then (case number_of s of None \<Rightarrow> False | Some r \<Rightarrow> - (2 ^ 31) \<le> r \<and> r < 2 ^ 31 \<and> isatty sv r)
     else if op = ''-o'' then minus_o_option_value sv s = 1
     else if op = ''-v'' then variable_isset sv s
     else op = ''-R'' \<and> variable_isref sv s)"

subsection \<open>The code computes them\<close>

lemma and_field: "m AND push_bit k (mask n) = push_bit k (take_bit n (drop_bit k m))" for m :: int
  by (rule bit_eqI) (auto simp: bit_simps)

lemma file_kind_mask: "st_mode st AND S_IFMT = 4096 * file_kind st"
proof -
  have "S_IFMT = push_bit 12 (mask 4)" by (simp add: S_IFMT_def mask_eq_exp_minus_1 push_bit_eq_mult)
  then have "st_mode st AND S_IFMT = push_bit 12 (take_bit 4 (drop_bit 12 (st_mode st)))" by (metis and_field)
  then show ?thesis by (simp add: file_kind_def push_bit_eq_mult take_bit_eq_mod drop_bit_eq_div)
qed

lemma mode_bit_mask: "(st_mode st AND 2 ^ k \<noteq> 0) = mode_bit k st"
proof -
  have "(2 :: int) ^ k = push_bit k (mask 1)" by (simp add: push_bit_eq_mult)
  then have "st_mode st AND 2 ^ k = 2 ^ k * (st_mode st div 2 ^ k mod 2)"
    by (simp only: and_field) (simp add: push_bit_eq_mult take_bit_eq_mod drop_bit_eq_div mult.commute)
  then show ?thesis by (simp add: mode_bit_def odd_iff_mod_2_eq_one)
qed

lemma kinds:
  "S_ISREG (st_mode st) \<longleftrightarrow> file_kind st = 8" "S_ISDIR (st_mode st) \<longleftrightarrow> file_kind st = 4"
  "S_ISCHR (st_mode st) \<longleftrightarrow> file_kind st = 2" "S_ISBLK (st_mode st) \<longleftrightarrow> file_kind st = 6"
  "S_ISFIFO (st_mode st) \<longleftrightarrow> file_kind st = 1" "S_ISLNK (st_mode st) \<longleftrightarrow> file_kind st = 10"
  "S_ISSOCK (st_mode st) \<longleftrightarrow> file_kind st = 12" "st_mode st AND S_IFMT = 0 \<longleftrightarrow> file_kind st = 0"
  unfolding S_ISREG_def S_ISDIR_def S_ISCHR_def S_ISBLK_def S_ISFIFO_def S_ISLNK_def S_ISSOCK_def file_kind_mask by simp_all

lemma mode_bits:
  "(st_mode st AND S_ISUID \<noteq> 0) = mode_bit 11 st" "(st_mode st AND S_ISGID \<noteq> 0) = mode_bit 10 st" "(st_mode st AND S_ISVTX \<noteq> 0) = mode_bit 9 st"
  using mode_bit_mask [of st 11] mode_bit_mask [of st 10] mode_bit_mask [of st 9] by (simp_all add: S_ISUID_def S_ISGID_def S_ISVTX_def)

lemma int_range: "r = to_int r \<longleftrightarrow> - (2 ^ 31) \<le> r \<and> r < 2 ^ 31"
proof
  assume "r = to_int r"
  then have "r = (r + 2147483648) mod 4294967296 - 2147483648" by (simp add: to_int_def)
  moreover have "0 \<le> (r + 2147483648) mod 4294967296" "(r + 2147483648) mod 4294967296 < (4294967296 :: int)" by simp_all
  ultimately have "- 2147483648 \<le> r" "r < 2147483648" by linarith+
  then show "- (2 ^ 31) \<le> r \<and> r < 2 ^ 31" by simp
qed (simp add: to_int_def)

lemma filecomp_files:
  "filecomp sv a b CNT = newer sv a b" "filecomp sv a b COT = newer sv b a" "filecomp sv a b CEF = one_file sv a b"
  by (auto simp: filecomp_def stat_mtime_def newer_def one_file_def later_def timespec_cmp_def same_file_def split: option.splits)

lemma binop_cases:
  assumes "test_binop op = Some True" and "c_string op"
  shows "op \<in> {''='', ''=='', ''!='', ''<'', ''>'', ''-nt'', ''-ot'', ''-ef'', ''-eq'', ''-ne'', ''-lt'', ''-le'', ''-gt'', ''-ge''}"
proof (cases "op = ''='' \<or> op = ''<'' \<or> op = ''>'' \<or> op = ''=='' \<or> op = ''!=''")
  case False
  then have o: "char_at op 0 = CHR ''-''" "3 \<le> length op" "char_at op 3 = NUL"
    "(if char_at op 2 = CHR ''t'' then char_at op 1 \<in> set ''nolg'' else if char_at op 1 = CHR ''e'' then char_at op 2 \<in> set ''qf''
      else char_at op 2 = CHR ''e'' \<and> char_at op 1 \<in> set ''ngl'')"
    using assms(1) by (auto simp: test_binop_def rd_def Let_def simp del: list.set split: if_splits)
  have "length op = 3" using o(2,3) assms(2) by (metis c_string_def char_at_nth le_neq_implies_less nth_mem)
  then obtain x y z where "op = [x, y, z]" by (auto simp: numeral_3_eq_3 length_Suc_conv)
  then show ?thesis using o(1,4) by (auto simp: char_at_def split: if_splits)
qed auto

lemma binary_test_value:
  assumes "test_binop op = Some True" and "c_string op" and "c_string a" and "c_string b"
  shows "binary_test sv op a b 0 = binary_value sv op a b"
proof -
  have ar: "arithcomp sv a b c 0 = (case (number_of a, number_of b) of (Some x, Some y) \<Rightarrow> Value (arith_holds c x y) | _ \<Rightarrow> Exit 2)" for c
    by (simp add: arithcomp_def legal_number_of test_syntax_error_def TEST_ERREXIT_STATUS_def split: option.splits)
  from binop_cases [OF assms(1,2)] show ?thesis
    unfolding binary_test_def binary_value_def
    by (elim insertE emptyE) (simp_all add: Let_def string_order_def strcmp_order [OF assms(3,4)] filecomp_files ar split: option.splits)
qed

lemma tty_range: "(case n of None \<Rightarrow> False | Some r \<Rightarrow> r = to_int r \<and> isatty sv (to_int r)) =
    (case n of None \<Rightarrow> False | Some r \<Rightarrow> - (2 ^ 31) \<le> r \<and> r < 2 ^ 31 \<and> isatty sv r)"
proof (cases n)
  case (Some r)
  have "(r = to_int r \<and> isatty sv (to_int r)) = (- (2 ^ 31) \<le> r \<and> r < 2 ^ 31 \<and> isatty sv r)"
    using int_range [of r] by metis
  then show ?thesis unfolding Some option.case .
qed simp

lemma stat_file: "with_stat = file_is" "file_is f (\<lambda>_. True) = (f \<noteq> None)"
  by (simp_all add: fun_eq_iff with_stat_def file_is_def split: option.splits)

lemma unary_test_table:
  "unary_test sv ''-z'' s = (s = [])"
  "unary_test sv ''-n'' s = (s \<noteq> [])"
  "unary_test sv ''-e'' s = (sh_stat sv s \<noteq> None)"
  "unary_test sv ''-a'' s = (sh_stat sv s \<noteq> None)"
  "unary_test sv ''-f'' s = (file_is (sh_stat sv s) (\<lambda>st. file_kind st = 8 \<or> file_kind st = 0))"
  "unary_test sv ''-d'' s = (file_is (sh_stat sv s) (\<lambda>st. file_kind st = 4))"
  "unary_test sv ''-b'' s = (file_is (sh_stat sv s) (\<lambda>st. file_kind st = 6))"
  "unary_test sv ''-c'' s = (file_is (sh_stat sv s) (\<lambda>st. file_kind st = 2))"
  "unary_test sv ''-p'' s = (file_is (sh_stat sv s) (\<lambda>st. file_kind st = 1))"
  "unary_test sv ''-S'' s = (file_is (sh_stat sv s) (\<lambda>st. file_kind st = 12))"
  "unary_test sv ''-h'' s = (s \<noteq> [] \<and> file_is (lstat sv s) (\<lambda>st. file_kind st = 10))"
  "unary_test sv ''-L'' s = (s \<noteq> [] \<and> file_is (lstat sv s) (\<lambda>st. file_kind st = 10))"
  "unary_test sv ''-s'' s = (file_is (sh_stat sv s) (\<lambda>st. 0 < st_size st))"
  "unary_test sv ''-u'' s = (file_is (sh_stat sv s) (\<lambda>st. mode_bit 11 st))"
  "unary_test sv ''-g'' s = (file_is (sh_stat sv s) (\<lambda>st. mode_bit 10 st))"
  "unary_test sv ''-k'' s = (file_is (sh_stat sv s) (\<lambda>st. mode_bit 9 st))"
  "unary_test sv ''-r'' s = (sh_eaccess sv s 4 = 0)"
  "unary_test sv ''-w'' s = (sh_eaccess sv s 2 = 0)"
  "unary_test sv ''-x'' s = (sh_eaccess sv s 1 = 0)"
  "unary_test sv ''-O'' s = (file_is (sh_stat sv s) (\<lambda>st. euid sv = st_uid st))"
  "unary_test sv ''-G'' s = (file_is (sh_stat sv s) (\<lambda>st. egid sv = st_gid st))"
  "unary_test sv ''-N'' s = (file_is (sh_stat sv s) (\<lambda>st. st_atime st \<le> st_mtime st))"
  "unary_test sv ''-t'' s = (case number_of s of None \<Rightarrow> False | Some r \<Rightarrow> - (2 ^ 31) \<le> r \<and> r < 2 ^ 31 \<and> isatty sv r)"
  "unary_test sv ''-o'' s = (minus_o_option_value sv s = 1)"
  "unary_test sv ''-v'' s = (variable_isset sv s)"
  "unary_test sv ''-R'' s = (variable_isref sv s)"
  unfolding unary_test_def Let_def stat_file kinds mode_bits legal_number_of tty_range R_OK_def W_OK_def X_OK_def
  by simp_all

lemma unary_test_value:
  assumes "test_unop op = Some True" and "op = [CHR ''-'', char_at op 1]"
  shows "unary_test sv op s = unary_value sv op s"
proof -
  have "char_at op 1 \<in> set ''abcdefghknoprstuvwxzGLOSNR''"
    using assms(1) by (auto simp: test_unop_def simp del: list.set split: if_splits Option.bind_splits)
  then obtain c where "op = [CHR ''-'', c]" "c \<in> set ''abcdefghknoprstuvwxzGLOSNR''" using assms(2) by metis
  then show ?thesis unfolding list.set
    by (elim insertE emptyE; simp only: unary_test_table; simp add: unary_value_def not_less)
qed

end
