(* ===== verification/TestSpec.thy ===== *)
theory TestSpec
  imports TestPrim
begin

text \<open>
  The \<^verbatim>\<open>test\<close> command ends with a status for every vector of arguments in which no word is a lone dash, and for the
  words of an expression tree the status is the value of the tree.
\<close>


subsection \<open>The command ends with a status\<close>

lemma lone_dash: "char_at w 0 = CHR ''-'' \<Longrightarrow> w \<noteq> ''-'' \<Longrightarrow> 2 \<le> length w"
  by (cases w) (auto simp: Suc_le_eq)

lemma switch_word_total: "w \<noteq> ''-'' \<Longrightarrow> switch_word w \<noteq> None"
  using lone_dash [of w] by (auto simp: switch_word_def rd_def)

lemma test_unop_total: "w \<noteq> ''-'' \<Longrightarrow> test_unop w \<noteq> None"
  using lone_dash [of w] by (auto simp: test_unop_def rd_def)

lemma ANDOR_total: "w \<noteq> ''-'' \<Longrightarrow> ANDOR w \<noteq> None"
  using lone_dash [of w] by (auto simp: ANDOR_def rd_def)

lemma test_binop_total: "w \<noteq> ''-'' \<Longrightarrow> test_binop w \<noteq> None"
  using lone_dash [of w] char_at_inside [of w 2] by (auto simp: test_binop_def rd_def Let_def Suc_le_eq)

text \<open>What a part of the grammar leaves behind: it has read at least one argument, or it is an error.\<close>

definition parsed :: "nat \<Rightarrow> nat \<Rightarrow> (bool \<times> nat) test_result \<Rightarrow> bool" where
  "parsed pos argc r \<longleftrightarrow> (case r of Value (v, p) \<Rightarrow> pos < p \<and> p \<le> argc | Exit s \<Rightarrow> s = TEST_ERREXIT_STATUS | Fault \<Rightarrow> False)"

lemma parsed_simps [simp]:
  "parsed pos argc (Value (v, p)) \<longleftrightarrow> pos < p \<and> p \<le> argc"
  "parsed pos argc (Exit s) \<longleftrightarrow> s = TEST_ERREXIT_STATUS"
  "\<not> parsed pos argc Fault"
  "parsed pos argc test_syntax_error"
  by (simp_all add: parsed_def test_syntax_error_def)

lemma parsed_cases:
  assumes "parsed pos argc r"
  obtains (val) v p where "r = Value (v, p)" "pos < p" "p \<le> argc" | (err) "r = test_syntax_error"
  using assms by (cases r) (auto simp: test_syntax_error_def)

lemma arithcomp_plain:
  "arithcomp sv s t op 0 = (case (legal_number (Some s), legal_number (Some t)) of
     (Some l, Some r) \<Rightarrow> Value (arith_holds op l r) | _ \<Rightarrow> test_syntax_error)"
  by (simp add: arithcomp_def split: option.splits)

lemma arithcomp_result: "(\<exists>v. arithcomp sv s t op 0 = Value v) \<or> arithcomp sv s t op 0 = test_syntax_error"
  by (simp add: arithcomp_plain split: option.splits)

lemma test_binop_length: "test_binop w = Some True \<Longrightarrow> char_at w 0 = CHR ''-'' \<Longrightarrow> 3 \<le> length w \<and> char_at w 3 = NUL"
  using char_at_inside [of w 2] by (auto simp: test_binop_def rd_def Let_def split: if_splits)

lemma test_binop_dash: "test_binop w = Some True \<Longrightarrow> char_at w 0 = CHR ''-'' \<or> w \<in> {''='', ''=='', ''>'', ''<'', ''!=''}"
  by (auto simp: test_binop_def split: if_splits)

lemma binary_test_result:
  assumes "test_binop op = Some True"
  shows "(\<exists>v. binary_test sv op a b 0 = Value v) \<or> binary_test sv op a b 0 = test_syntax_error"
proof (cases "op \<in> {''='', ''=='', ''>'', ''<'', ''!=''}")
  case True
  then show ?thesis by (auto simp: binary_test_def)
next
  case False
  then have "3 \<le> length op" using assms test_binop_dash test_binop_length by blast
  then show ?thesis using False by (auto simp: binary_test_def Let_def arithcomp_result)
qed

lemma binary_operator_eq:
  assumes "test_binop (argv ! (pos + 1)) = Some True"
  shows "binary_operator sv argv pos = (case binary_test sv (argv ! (pos + 1)) (argv ! pos) (argv ! (pos + 2)) 0 of
     Value v \<Rightarrow> Value (v, pos + 3) | Exit s \<Rightarrow> Exit s | Fault \<Rightarrow> Fault)"
  using test_binop_dash [OF assms] test_binop_length [OF assms] assms by (auto simp: binary_operator_def Let_def rd_def)

lemma binary_operator_parsed:
  assumes "test_binop (argv ! (pos + 1)) = Some True" and "pos + 3 \<le> argc"
  shows "parsed pos argc (binary_operator sv argv pos)"
  using binary_test_result [OF assms(1), of sv "argv ! pos" "argv ! (pos + 2)"] assms(2)
  by (auto simp: binary_operator_eq [OF assms(1)] test_syntax_error_def)

lemma unary_operator_parsed: "test_unop (argv ! pos) = Some True \<Longrightarrow> pos < argc \<Longrightarrow> parsed pos argc (unary_operator sv argv argc pos)"
  by (auto simp: unary_operator_def Let_def)

lemma term_switch_parsed: "argv ! pos \<noteq> ''-'' \<Longrightarrow> pos < argc \<Longrightarrow> parsed pos argc (term_switch sv argv argc pos)"
  using switch_word_total [of "argv ! pos"] test_unop_total [of "argv ! pos"]
  by (auto simp: term_switch_def unary_operator_parsed split: bool.splits)

lemma term_primary_parsed:
  assumes "''-'' \<notin> set argv" and "argc \<le> length argv" and "pos < argc"
  shows "parsed pos argc (term_primary sv argv argc pos)"
proof -
  have d: "argv ! i \<noteq> ''-''" if "i < argc" for i using assms that by (metis nth_mem order_less_le_trans)
  show ?thesis
    using test_binop_total [OF d, of "pos + 1"] d [of pos] assms(3)
    by (auto simp: term_primary_def binary_operator_parsed term_switch_parsed)
qed

lemma not_loop_bounds: "not_loop argv argc pos b = Some (p, v) \<Longrightarrow> pos < argc \<Longrightarrow> pos \<le> p \<and> p < argc \<and> argv ! p \<noteq> ''!''"
proof (induction argv argc pos b rule: not_loop.induct)
  case (1 argv argc pos b)
  then show ?case using not_loop.simps [of argv argc pos b] by (auto split: if_splits)
qed

lemma not_loop_advances: "not_loop argv argc pos b = Some (p, v) \<Longrightarrow> argv ! pos = ''!'' \<Longrightarrow> pos < argc \<Longrightarrow> pos < p \<and> p < argc"
  using not_loop_bounds [of argv argc pos b p v] by (cases "p = pos") auto

lemma tbind_simps [simp]:
  "tbind (Some (Value v)) k = k v" "tbind (Some (Exit s)) k = Some (Exit s)" "tbind (Some Fault) k = Some Fault" "tbind None k = None"
  "tbind (Some test_syntax_error) k = Some test_syntax_error"
  by (simp_all add: tbind_def test_syntax_error_def)

definition ending :: "nat \<Rightarrow> nat \<Rightarrow> (bool \<times> nat) test_result option \<Rightarrow> bool" where
  "ending pos argc x \<longleftrightarrow> (\<exists>r. x = Some r \<and> parsed pos argc r)"

lemma connective_ends:
  assumes "ending pos argc x" and "\<And>p. pos < p \<Longrightarrow> p \<le> argc \<Longrightarrow> ending (p + 1) argc (y (p + 1))"
  shows "ending pos argc (tbind x (\<lambda>(value, p). if p < argc \<and> argv ! p = w
      then tbind (y (p + 1)) (\<lambda>(v2, p). Some (Value (f value v2, p))) else Some (Value (value, p))))"
proof -
  obtain r where r: "x = Some r" "parsed pos argc r" using assms(1) by (auto simp: ending_def)
  from r(2) show ?thesis
  proof (cases rule: parsed_cases)
    case (val v p)
    then obtain r2 where r2: "y (p + 1) = Some r2" "parsed (p + 1) argc r2" using assms(2) by (auto simp: ending_def)
    from r2(2) show ?thesis by (cases rule: parsed_cases) (use val r(1) r2(1) in \<open>auto simp: ending_def\<close>)
  qed (use r in \<open>auto simp: ending_def\<close>)
qed

lemma negation_ends:
  assumes "argv ! pos = ''!''" and "pos < argc" and "\<And>p. pos < p \<Longrightarrow> p < argc \<Longrightarrow> ending p argc (test_term sv argv argc n p)"
  shows "ending pos argc (test_term sv argv argc (Suc n) pos)"
proof (cases "not_loop argv argc pos False")
  case (Some pv)
  obtain p v where pv: "pv = (p, v)" by (cases pv)
  then have p: "pos < p" "p < argc" using not_loop_advances Some assms by blast+
  then obtain r where r: "test_term sv argv argc n p = Some r" "parsed p argc r" using assms(3) by (auto simp: ending_def)
  from r(2) show ?thesis by (cases rule: parsed_cases) (use Some pv p r(1) assms in \<open>auto simp: ending_def\<close>)
qed (use assms in \<open>auto simp: ending_def\<close>)

lemma parenthesis_ends:
  assumes "argv ! pos = ''(''" and "pos < argc" and "pos + 1 < argc \<Longrightarrow> ending (pos + 1) argc (test_expr sv argv argc n (pos + 1))"
    and "argc \<le> length argv" and "argc < length argv \<longrightarrow> argv ! argc \<noteq> '')''"
  shows "ending pos argc (test_term sv argv argc (Suc n) pos)"
proof (cases "pos + 1 < argc")
  case True
  then obtain r where r: "test_expr sv argv argc n (pos + 1) = Some r" "parsed (pos + 1) argc r" using assms(3) by (auto simp: ending_def)
  from r(2) show ?thesis
  proof (cases rule: parsed_cases)
    case (val v p)
    then show ?thesis using r(1) True assms by (cases "p = argc") (auto simp: ending_def)
  qed (use r(1) True assms in \<open>auto simp: ending_def\<close>)
qed (use assms in \<open>auto simp: ending_def\<close>)

text \<open>Four calls read one argument.\<close>

lemma grammar_ends:
  assumes "''-'' \<notin> set argv" and "argc \<le> length argv" and "argc < length argv \<longrightarrow> argv ! argc \<noteq> '')''"
  shows "(4 * (argc - pos) + 4 \<le> n \<longrightarrow> ending pos argc (test_expr sv argv argc n pos)) \<and>
    (4 * (argc - pos) + 3 \<le> n \<longrightarrow> ending pos argc (test_or sv argv argc n pos)) \<and>
    (4 * (argc - pos) + 2 \<le> n \<longrightarrow> ending pos argc (test_and sv argv argc n pos)) \<and>
    (4 * (argc - pos) + 1 \<le> n \<longrightarrow> ending pos argc (test_term sv argv argc n pos))"
proof (induction n arbitrary: pos)
  case (Suc n)
  have ex: "ending pos argc (test_expr sv argv argc (Suc n) pos)" if "4 * (argc - pos) + 4 \<le> Suc n"
    using Suc.IH [of pos] that by (auto simp: ending_def)
  have or: "ending pos argc (test_or sv argv argc (Suc n) pos)" if n: "4 * (argc - pos) + 3 \<le> Suc n"
  proof -
    have "4 * (argc - (p + 1)) + 3 \<le> n" if "pos < p" "p \<le> argc" for p using n that by linarith
    then show ?thesis unfolding test_or.simps using Suc.IH n by (intro connective_ends) auto
  qed
  have an: "ending pos argc (test_and sv argv argc (Suc n) pos)" if n: "4 * (argc - pos) + 2 \<le> Suc n"
  proof -
    have "4 * (argc - (p + 1)) + 2 \<le> n" if "pos < p" "p \<le> argc" for p using n that by linarith
    then show ?thesis unfolding test_and.simps using Suc.IH n by (intro connective_ends) auto
  qed
  have te: "ending pos argc (test_term sv argv argc (Suc n) pos)" if n: "4 * (argc - pos) + 1 \<le> Suc n"
  proof -
    have "4 * (argc - p) + 1 \<le> n" if "pos < p" "p < argc" for p using n that by linarith
    then have no: "ending pos argc (test_term sv argv argc (Suc n) pos)" if "argv ! pos = ''!''" "pos < argc"
      using that Suc.IH by (intro negation_ends) auto
    have "4 * (argc - (pos + 1)) + 4 \<le> n" if "pos + 1 < argc" using n that by linarith
    then have pa: "ending pos argc (test_term sv argv argc (Suc n) pos)" if "argv ! pos = ''(''" "pos < argc"
      using that Suc.IH assms(2,3) by (intro parenthesis_ends) auto
    show ?thesis using no pa term_primary_parsed [OF assms(1,2), of pos] by (cases "pos < argc") (auto simp: ending_def)
  qed
  show ?case using ex or an te by blast
qed simp

text \<open>Neither a fault nor another status than that of an error.\<close>

definition clean :: "(bool \<times> nat) test_result \<Rightarrow> bool" where
  "clean r \<longleftrightarrow> r \<noteq> Fault \<and> (\<forall>s. r = Exit s \<longrightarrow> s = TEST_ERREXIT_STATUS)"

lemma parsed_clean: "parsed pos argc r \<Longrightarrow> clean r"
  by (cases r) (auto simp: clean_def)

lemma clean_simps [simp]: "clean (Value v)" "clean test_syntax_error" "\<not> clean Fault" "clean (Exit s) \<longleftrightarrow> s = TEST_ERREXIT_STATUS"
  by (simp_all add: clean_def test_syntax_error_def)

lemma clean_map: "clean r \<Longrightarrow> clean (case r of Value (v, p) \<Rightarrow> Value (f v p) | Exit s \<Rightarrow> Exit s | Fault \<Rightarrow> Fault)"
  by (cases r) (auto split: prod.splits)

lemma two_arguments_clean:
  assumes "''-'' \<notin> set argv" and "argc \<le> length argv" and "pos < argc"
  shows "clean (two_arguments sv argv argc pos)"
proof -
  have "argv ! pos \<noteq> ''-''" using assms by (metis nth_mem order_less_le_trans)
  then show ?thesis
    using switch_word_total [of "argv ! pos"] test_unop_total [of "argv ! pos"] assms(3)
    by (auto simp: two_arguments_def parsed_clean [OF unary_operator_parsed] split: bool.splits)
qed

lemma three_arguments_clean:
  assumes "''-'' \<notin> set argv" and "argc \<le> length argv" and "pos + 2 < argc"
  shows "clean (three_arguments sv argv argc pos)"
proof -
  have "argv ! (pos + 1) \<in> set argv" using assms by (intro nth_mem) linarith
  then have d: "argv ! (pos + 1) \<noteq> ''-''" using assms(1) by metis
  obtain b where b: "test_binop (argv ! (pos + 1)) = Some b" using test_binop_total [OF d] by auto
  obtain c where c: "ANDOR (argv ! (pos + 1)) = Some c" using ANDOR_total [OF d] by auto
  have two: "clean (two_arguments sv argv argc (pos + 1))" using assms by (intro two_arguments_clean) auto
  have bin: "clean (binary_operator sv argv pos)" if b
    using binary_operator_parsed [of argv pos argc sv] b that assms(3) by (intro parsed_clean) auto
  show ?thesis
    using clean_map [OF two, of "\<lambda>v p. (\<not> v, p)"] clean_map [OF bin, of "\<lambda>v _. (v, argc)"] b c assms(3)
    by (cases b; cases c) (auto simp: three_arguments_def Let_def)
qed

lemma posixtest_expr:
  assumes "1 < argc" and "argc \<noteq> 2" and "argc \<noteq> 3" and "argc \<noteq> 4" and "\<not> (argc = 5 \<and> argv ! 1 = ''!'')"
  shows "posixtest sv n argv argc 1 = test_expr sv argv argc n 1"
  using assms by (cases argc) (auto simp: posixtest_def)

lemma posixtest_clean:
  assumes "''-'' \<notin> set argv" and "argc \<le> length argv" and "argc < length argv \<longrightarrow> argv ! argc \<noteq> '')''"
    and "1 < argc" and "4 * argc \<le> n"
  shows "\<exists>r. posixtest sv n argv argc 1 = Some r \<and> clean r"
proof -
  note three = three_arguments_clean [OF assms(1,2)]
  consider "argc = 2" | "argc = 3" | "argc = 4" | "argc = 5" "argv ! 1 = ''!''" | "posixtest sv n argv argc 1 = test_expr sv argv argc n 1"
    using posixtest_expr [OF assms(4)] by blast
  then show ?thesis
  proof cases
    case 2
    then have "clean (two_arguments sv argv argc 1)" using assms(4) by (intro two_arguments_clean [OF assms(1,2)])
    from clean_map [OF this, of "\<lambda>v _. (v, 3)"] show ?thesis using 2 by (simp add: posixtest_def)
  next
    case 3
    then show ?thesis using three [of 1 sv] by (simp add: posixtest_def)
  next
    case 4
    then have "clean (three_arguments sv argv argc (1 + 1))" by (intro three) simp
    from clean_map [OF this, of "\<lambda>v p. (\<not> v, p)"] show ?thesis using 4 by (simp add: posixtest_def)
  next
    case 5
    have "4 * (argc - 1) + 4 \<le> n" using assms(4,5) by linarith
    then show ?thesis using grammar_ends [OF assms(1-3), of 1 n sv] 5 parsed_clean unfolding ending_def by metis
  qed (simp add: posixtest_def)
qed

lemma run_test_status:
  assumes "''-'' \<notin> set argv" and "argc \<le> length argv" and "argc < length argv \<longrightarrow> argv ! argc \<noteq> '')''" and "4 * argc \<le> n"
  shows "\<exists>s \<in> {0, 1, 2}. run_test sv n argv argc = Some (Exit s)"
proof (cases "1 < argc")
  case True
  then obtain r where r: "posixtest sv n argv argc 1 = Some r" "clean r" using posixtest_clean assms by blast
  then show ?thesis
    using True by (cases r) (auto simp: run_test_def SHELL_BOOLEAN_def test_syntax_error_def TEST_ERREXIT_STATUS_def split: prod.splits)
qed (simp add: run_test_def SHELL_BOOLEAN_def)

text \<open>
  C39. The \<^verbatim>\<open>test\<close> command always ends: for every vector of arguments in which no word is a lone dash, \<^verbatim>\<open>test_command\<close>
  reads only inside its words and returns 0, 1 or 2, with calls nested at most four deep for each argument.
\<close>

theorem test_command_returns:
  assumes "''-'' \<notin> set margv" and "4 * length margv \<le> n"
  shows "\<exists>s \<in> {0, 1, 2}. test_command sv n margv = Some (Some s)"
proof (cases "margv \<noteq> [] \<and> margv ! 0 = ''['' \<and> margv ! (length margv - 1) = '']''")
  case True
  then have "\<exists>s \<in> {0, 1, 2}. run_test sv n margv (length margv - 1) = Some (Exit s)"
    using assms by (intro run_test_status) auto
  then show ?thesis using True by (auto simp: test_command_def Let_def SHELL_BOOLEAN_def)
next
  case False
  have "\<exists>s \<in> {0, 1, 2}. run_test sv n margv (length margv) = Some (Exit s)"
    using assms by (intro run_test_status) auto
  then show ?thesis using False by (auto simp: test_command_def Let_def test_syntax_error_def TEST_ERREXIT_STATUS_def)
qed


subsection \<open>Expression trees\<close>

datatype texp = TStr string | TUn string string | TBin string string string | TNot texp | TAnd texp texp | TOr texp texp

text \<open>The words of a tree, with parentheses only where an operator of lower precedence is an operand.\<close>

fun test_words :: "nat \<Rightarrow> texp \<Rightarrow> string list" where
  "test_words k (TStr s) = [s]"
| "test_words k (TUn op s) = [op, s]"
| "test_words k (TBin a op b) = [a, op, b]"
| "test_words k (TNot e) = ''!'' # test_words 2 e"
| "test_words k (TAnd a b) = (if k \<le> 1 then test_words 2 a @ ''-a'' # test_words 1 b
     else ''('' # test_words 2 a @ ''-a'' # test_words 1 b @ ['')''])"
| "test_words k (TOr a b) = (if k = 0 then test_words 1 a @ ''-o'' # test_words 0 b
     else ''('' # test_words 1 a @ ''-o'' # test_words 0 b @ ['')''])"

definition map_result :: "('a \<Rightarrow> 'b) \<Rightarrow> 'a test_result \<Rightarrow> 'b test_result" where
  "map_result f r = (case r of Value v \<Rightarrow> Value (f v) | Exit s \<Rightarrow> Exit s | Fault \<Rightarrow> Fault)"

definition both :: "(bool \<Rightarrow> bool \<Rightarrow> bool) \<Rightarrow> bool test_result \<Rightarrow> bool test_result \<Rightarrow> bool test_result" where
  "both f r q = (case r of Value v \<Rightarrow> map_result (f v) q | r \<Rightarrow> r)"

text \<open>
  The value of a tree, with the meaning of the primaries from theory \<open>TestPrim\<close>: an operand of an
  arithmetic comparison that is not a number gives the status 2. Both operands of a connective are
  evaluated, so that an error in the second is an error of the whole.
\<close>

primrec test_value :: "services \<Rightarrow> texp \<Rightarrow> bool test_result" where
  "test_value sv (TStr s) = Value (s \<noteq> [])"
| "test_value sv (TUn op s) = Value (unary_value sv op s)"
| "test_value sv (TBin a op b) = binary_value sv op a b"
| "test_value sv (TNot e) = map_result Not (test_value sv e)"
| "test_value sv (TAnd a b) = both (\<and>) (test_value sv a) (test_value sv b)"
| "test_value sv (TOr a b) = both (\<or>) (test_value sv a) (test_value sv b)"

text \<open>
  Operands that cannot be taken for operators: a string that is no operator, no parenthesis and no
  negation, a unary operator other than \<^verbatim>\<open>-a\<close> and \<^verbatim>\<open>-o\<close> with an operand that is no binary operator (after
  \<^verbatim>\<open>-t\<close> a number), a binary operator whose left operand is no negation and no parenthesis.
\<close>

primrec plain_words :: "texp \<Rightarrow> bool" where
  "plain_words (TStr s) \<longleftrightarrow> s \<noteq> ''!'' \<and> s \<noteq> ''('' \<and> switch_word s = Some False \<and> test_binop s = Some False"
| "plain_words (TUn op s) \<longleftrightarrow> test_unop op = Some True \<and> c_string op \<and> op \<noteq> ''-a'' \<and> op \<noteq> ''-o'' \<and> test_binop s = Some False \<and>
     (op = ''-t'' \<longrightarrow> number_of s \<noteq> None)"
| "plain_words (TBin a op b) \<longleftrightarrow> test_binop op = Some True \<and> c_string op \<and> c_string a \<and> c_string b \<and> a \<noteq> ''!'' \<and> a \<noteq> ''(''"
| "plain_words (TNot e) \<longleftrightarrow> plain_words e"
| "plain_words (TAnd a b) \<longleftrightarrow> plain_words a \<and> plain_words b"
| "plain_words (TOr a b) \<longleftrightarrow> plain_words a \<and> plain_words b"

text \<open>The trees of three or four words that the rules for few arguments read in another way.\<close>

fun few_words :: "texp \<Rightarrow> bool" where
  "few_words (TNot (TNot (TStr s))) = True"
| "few_words (TNot (TNot (TNot (TStr s)))) = True"
| "few_words (TAnd (TNot (TStr a)) (TStr b)) = True"
| "few_words (TOr (TNot (TStr a)) (TStr b)) = True"
| "few_words e = False"

text \<open>The words of a list from a place on.\<close>

fun words_at :: "string list \<Rightarrow> nat \<Rightarrow> nat \<Rightarrow> string list \<Rightarrow> bool" where
  "words_at argv argc pos [] \<longleftrightarrow> pos \<le> argc"
| "words_at argv argc pos (w # ws) \<longleftrightarrow> pos < argc \<and> argv ! pos = w \<and> words_at argv argc (Suc pos) ws"

lemma words_at_append [simp]: "words_at argv argc pos (xs @ ys) \<longleftrightarrow> words_at argv argc pos xs \<and> words_at argv argc (pos + length xs) ys"
proof (induction xs arbitrary: pos)
  case Nil
  then show ?case by (cases ys) auto
qed auto

lemma words_at_take: "argc \<le> length argv \<Longrightarrow> pos + length ws \<le> argc \<Longrightarrow> take (length ws) (drop pos argv) = ws \<Longrightarrow> words_at argv argc pos ws"
proof (induction ws arbitrary: pos)
  case (Cons w ws)
  then have "pos < length argv" by simp
  then have "drop pos argv = argv ! pos # drop (Suc pos) argv" by (simp add: Cons_nth_drop_Suc)
  then show ?case using Cons by simp
qed simp

definition grammar_level :: "nat \<Rightarrow> services \<Rightarrow> string list \<Rightarrow> nat \<Rightarrow> nat \<Rightarrow> nat \<Rightarrow> (bool \<times> nat) test_result option" where
  "grammar_level k = (if k = 0 then test_or else if k = 1 then test_and else test_term)"

text \<open>What may come after a part of a level.\<close>

definition closed_at :: "string list \<Rightarrow> nat \<Rightarrow> nat \<Rightarrow> nat \<Rightarrow> bool" where
  "closed_at argv argc k p \<longleftrightarrow> p < argc \<longrightarrow> argv ! p = '')'' \<or> 1 \<le> k \<and> argv ! p = ''-o'' \<or> 2 \<le> k \<and> argv ! p = ''-a''"

abbreviation reply :: "nat \<Rightarrow> bool test_result \<Rightarrow> (bool \<times> nat) test_result" where
  "reply p r \<equiv> map_result (\<lambda>v. (v, p)) r"

lemma map_result_simps [simp]:
  "map_result f (Value v) = Value (f v)" "map_result f (Exit s) = Exit s" "map_result f Fault = Fault"
  by (simp_all add: map_result_def)

lemma both_simps [simp]: "both f (Value v) q = map_result (f v) q" "both f (Exit s) q = Exit s" "both f Fault q = Fault"
  by (simp_all add: both_def)

lemma tbind_reply: "tbind (Some (reply p r)) (\<lambda>(v, p). Some (Value (f v, p))) = Some (reply p (map_result f r))"
  by (cases r) auto

lemma climb:
  assumes "\<And>n. 4 * (argc - pos) + 1 \<le> n \<Longrightarrow> test_term sv argv argc n pos = Some (reply p r)"
    and "closed_at argv argc k p" and "4 * (argc - pos) + 3 \<le> n + k" and "k \<le> 2"
  shows "grammar_level k sv argv argc n pos = Some (reply p r)"
proof -
  have a: "test_and sv argv argc n pos = Some (reply p r)" if "4 * (argc - pos) + 2 \<le> n" "k < 2" for n
    using that assms(1) [of "n - 1"] assms(2) by (cases n; cases r) (auto simp: closed_at_def)
  have "test_or sv argv argc n pos = Some (reply p r)" if "4 * (argc - pos) + 3 \<le> n" "k = 0" for n
    using that a [of "n - 1"] assms(2) by (cases n; cases r) (auto simp: closed_at_def)
  then show ?thesis using assms(1) [of n] a [of n] assms(3,4) by (cases "k = 0"; cases "k = 1") (auto simp: grammar_level_def)
qed


lemma not_loop_flip: "not_loop argv argc pos (\<not> b) = map_option (\<lambda>(p, v). (p, \<not> v)) (not_loop argv argc pos b)"
proof (induction argv argc pos b rule: not_loop.induct)
  case (1 argv argc pos b)
  then show ?case using not_loop.simps [of argv argc pos b] not_loop.simps [of argv argc pos "\<not> b"] by auto
qed

lemma term_not:
  assumes "argv ! pos = ''!''" and "pos + 1 < argc"
  shows "test_term sv argv argc (Suc n) pos =
    tbind (test_term sv argv argc (if argv ! (pos + 1) = ''!'' then Suc n else n) (pos + 1)) (\<lambda>(v, p). Some (Value (\<not> v, p)))"
proof (cases "argv ! (pos + 1) = ''!''")
  case True
  have l: "not_loop argv argc pos False = map_option (\<lambda>(p, v). (p, \<not> v)) (not_loop argv argc (pos + 1) False)"
    using assms not_loop.simps [of argv argc pos False] not_loop_flip [of argv argc "pos + 1" False] by simp
  show ?thesis
  proof (cases "not_loop argv argc (pos + 1) False")
    case (Some pv)
    obtain p v where pv: "pv = (p, v)" by (cases pv)
    then show ?thesis
      using True assms l Some by (cases "test_term sv argv argc n p") (auto simp: tbind_def split: test_result.splits)
  qed (use True assms l in auto)
next
  case False
  then have "not_loop argv argc pos False = Some (pos + 1, True)"
    using assms not_loop.simps [of argv argc pos False] not_loop.simps [of argv argc "pos + 1" True] by auto
  then show ?thesis using False assms by simp
qed

lemma closing_word: "closed_at argv argc k p \<Longrightarrow> p < argc \<Longrightarrow> test_binop (argv ! p) = Some False"
  by (auto simp: closed_at_def test_binop_def rd_def char_at_def)

lemma test_unop_facts: "test_unop op = Some True \<Longrightarrow> char_at op 0 = CHR ''-'' \<and> rd op 2 = Some NUL"
  by (cases "rd op 2") (auto simp: test_unop_def simp del: list.set split: if_splits)

lemma test_unop_word: "test_unop op = Some True \<Longrightarrow> op \<noteq> ''!'' \<and> op \<noteq> ''('' \<and> switch_word op = Some True \<and> test_binop op = Some False"
  by (drule test_unop_facts, cases op) (auto simp: switch_word_def test_binop_def rd_def split: if_splits)

lemma unop_two:
  assumes "test_unop op = Some True" and "c_string op"
  shows "op = [CHR ''-'', char_at op 1]"
proof -
  have "2 \<le> length op" "char_at op 2 = NUL" "char_at op 0 = CHR ''-''" using test_unop_facts [OF assms(1)] by (auto simp: rd_def split: if_splits)
  moreover have "length op \<le> 2" using calculation assms(2) by (metis c_string_def char_at_nth not_le nth_mem)
  ultimately show ?thesis by (cases op; cases "tl op") (auto simp: char_at_def)
qed

lemma string_term:
  assumes "plain_words (TStr s)" and "words_at argv argc pos [s]" and "closed_at argv argc 2 (pos + 1)"
  shows "term_primary sv argv argc pos = Value (s \<noteq> [], pos + 1)"
  using assms closing_word [OF assms(3)] by (auto simp: term_primary_def term_switch_def)

lemma unary_operator_plain:
  assumes "plain_words (TUn op s)" and "words_at argv argc pos [op, s]"
  shows "unary_operator sv argv argc pos = Value (unary_value sv op s, pos + 2)"
proof -
  have two: "op = [CHR ''-'', char_at op 1]" using assms(1) by (intro unop_two) simp_all
  then have "char_at op 1 = CHR ''t'' \<Longrightarrow> number_of s \<noteq> None" using assms(1) by auto
  moreover have "unary_test sv op s = unary_value sv op s" using assms(1) two by (intro unary_test_value) simp_all
  ultimately show ?thesis using assms by (auto simp: unary_operator_def Let_def legal_number_of)
qed

lemma unary_term:
  assumes "plain_words (TUn op s)" and "words_at argv argc pos [op, s]"
  shows "term_primary sv argv argc pos = Value (unary_value sv op s, pos + 2)"
  using assms test_unop_word [of op] unary_operator_plain [OF assms] by (auto simp: term_primary_def term_switch_def)

lemma binary_term:
  assumes "plain_words (TBin a op b)" and "words_at argv argc pos [a, op, b]"
  shows "term_primary sv argv argc pos = reply (pos + 3) (binary_value sv op a b)"
  using assms binary_operator_eq [of argv pos sv] binary_test_value [of op a b sv] by (auto simp: term_primary_def map_result_def)


text \<open>A connective: the left operand, the word of the connective, the rest.\<close>

lemma connective:
  assumes "x = Some (reply p r)" and "p < argc" and "argv ! p = w" and "y (p + 1) = Some (reply q r2)"
  shows "tbind x (\<lambda>(value, p). if p < argc \<and> argv ! p = w then tbind (y (p + 1)) (\<lambda>(v2, p). Some (Value (f value v2, p)))
      else Some (Value (value, p))) = Some (reply q (both f r r2))"
  using assms by (cases r; cases r2) auto

lemma parenthesised:
  assumes "\<And>n. 4 * (argc - (pos + 1)) + 3 \<le> n \<Longrightarrow> test_or sv argv argc n (pos + 1) = Some (reply p r)"
    and "words_at argv argc pos (''('' # ws)" and "words_at argv argc p ['')'']" and "pos + 1 < argc" and "argc \<le> length argv" and "4 * (argc - pos) + 1 \<le> n"
  shows "test_term sv argv argc n pos = Some (reply (p + 1) r)"
proof -
  obtain m where m: "n = Suc (Suc m)" using assms(4,6) by (cases n; cases "n - 1") auto
  then have "test_or sv argv argc m (pos + 1) = Some (reply p r)" using assms(4,6) by (intro assms(1)) linarith
  then have "test_expr sv argv argc (Suc m) (pos + 1) = Some (reply p r)" using assms(4) by simp
  then show ?thesis using assms m by (cases r) auto
qed

lemma words_nonempty: "test_words k e \<noteq> []"
  by (cases e) auto

lemma words_at_le: "words_at argv argc pos ws \<Longrightarrow> pos + length ws \<le> argc"
  by (induction ws arbitrary: pos) fastforce+

text \<open>A tree is read at a level wherever its words stand and something that closes the level follows.\<close>

definition reads :: "services \<Rightarrow> string list \<Rightarrow> nat \<Rightarrow> nat \<Rightarrow> texp \<Rightarrow> bool" where
  "reads sv argv argc k e \<longleftrightarrow> (\<forall>pos n. words_at argv argc pos (test_words k e) \<longrightarrow> closed_at argv argc k (pos + length (test_words k e)) \<longrightarrow>
     4 * (argc - pos) + 3 \<le> n + k \<longrightarrow> grammar_level k sv argv argc n pos = Some (reply (pos + length (test_words k e)) (test_value sv e)))"

lemma readsD:
  "reads sv argv argc k e \<Longrightarrow> words_at argv argc pos (test_words k e) \<Longrightarrow> closed_at argv argc k (pos + length (test_words k e)) \<Longrightarrow>
     4 * (argc - pos) + 3 \<le> n + k \<Longrightarrow> grammar_level k sv argv argc n pos = Some (reply (pos + length (test_words k e)) (test_value sv e))"
  by (simp add: reads_def)

lemma reads_term:
  assumes "\<And>pos n. words_at argv argc pos (test_words k e) \<Longrightarrow> closed_at argv argc 2 (pos + length (test_words k e)) \<Longrightarrow> 4 * (argc - pos) + 1 \<le> n \<Longrightarrow>
      test_term sv argv argc n pos = Some (reply (pos + length (test_words k e)) (test_value sv e))" and "k \<le> 2"
  shows "reads sv argv argc k e"
  unfolding reads_def
proof (intro allI impI)
  fix pos n
  assume *: "words_at argv argc pos (test_words k e)" "closed_at argv argc k (pos + length (test_words k e))" "4 * (argc - pos) + 3 \<le> n + k"
  have "closed_at argv argc 2 (pos + length (test_words k e))" using *(2) by (auto simp: closed_at_def)
  then show "grammar_level k sv argv argc n pos = Some (reply (pos + length (test_words k e)) (test_value sv e))"
    using * assms by (intro climb) auto
qed

lemma reads_not:
  assumes "reads sv argv argc 2 e" and "k \<le> 2"
  shows "reads sv argv argc k (TNot e)"
proof (rule reads_term [OF _ assms(2)])
  fix pos n
  assume *: "words_at argv argc pos (test_words k (TNot e))" "closed_at argv argc 2 (pos + length (test_words k (TNot e)))" "4 * (argc - pos) + 1 \<le> n"
  let ?p = "pos + 1 + length (test_words 2 e)"
  have sp: "words_at argv argc (pos + 1) (test_words 2 e)" "argv ! pos = ''!''" "pos < argc" using * by auto
  then have lt: "pos + 1 < argc" using words_at_le [OF sp(1)] words_nonempty [of 2 e] by (cases "test_words 2 e") auto
  obtain m where m: "n = Suc m" using *(3) by (cases n) auto
  define i where "i = (if argv ! (pos + 1) = ''!'' then Suc m else m)"
  have "grammar_level 2 sv argv argc i (pos + 1) = Some (reply ?p (test_value sv e))"
    using * sp lt m by (intro readsD [OF assms(1)]) (auto simp: i_def)
  then have "test_term sv argv argc i (pos + 1) = Some (reply ?p (test_value sv e))" by (simp add: grammar_level_def)
  then have "test_term sv argv argc n pos = Some (reply ?p (test_value sv (TNot e)))"
    unfolding m term_not [OF sp(2) lt] i_def [symmetric] by (simp only: tbind_reply test_value.simps)
  then show "test_term sv argv argc n pos = Some (reply (pos + length (test_words k (TNot e))) (test_value sv (TNot e)))" by simp
qed

lemma reads_and:
  assumes "reads sv argv argc 2 a" and "reads sv argv argc 1 b"
  shows "reads sv argv argc 1 (TAnd a b)"
  unfolding reads_def
proof (intro allI impI)
  fix pos n
  let ?ws = "test_words 2 a @ ''-a'' # test_words 1 b" and ?p = "pos + length (test_words 2 a)"
  assume *: "words_at argv argc pos (test_words 1 (TAnd a b))" "closed_at argv argc 1 (pos + length (test_words 1 (TAnd a b)))" "4 * (argc - pos) + 3 \<le> n + 1"
  then have s: "words_at argv argc pos (test_words 2 a)" "?p < argc" "argv ! ?p = ''-a''" "words_at argv argc (?p + 1) (test_words 1 b)" by auto
  obtain m where m: "n = Suc m" using *(3) by (cases n) auto
  have "grammar_level 2 sv argv argc m pos = Some (reply ?p (test_value sv a))"
    using s * m by (intro readsD [OF assms(1)]) (auto simp: closed_at_def)
  then have x: "test_term sv argv argc m pos = Some (reply ?p (test_value sv a))" by (simp add: grammar_level_def)
  have "grammar_level 1 sv argv argc m (?p + 1) = Some (reply (?p + 1 + length (test_words 1 b)) (test_value sv b))"
    using s * m by (intro readsD [OF assms(2)]) (auto simp: add.assoc)
  then have y: "test_and sv argv argc m (?p + 1) = Some (reply (pos + length ?ws) (test_value sv b))" by (simp add: grammar_level_def add.assoc)
  show "grammar_level 1 sv argv argc n pos = Some (reply (pos + length (test_words 1 (TAnd a b))) (test_value sv (TAnd a b)))"
    using connective [where y = "test_and sv argv argc m", OF x s(2,3) y, of "(\<and>)"] m by (simp add: grammar_level_def)
qed

lemma reads_or:
  assumes "reads sv argv argc 1 a" and "reads sv argv argc 0 b"
  shows "reads sv argv argc 0 (TOr a b)"
  unfolding reads_def
proof (intro allI impI)
  fix pos n
  let ?ws = "test_words 1 a @ ''-o'' # test_words 0 b" and ?p = "pos + length (test_words 1 a)"
  assume *: "words_at argv argc pos (test_words 0 (TOr a b))" "closed_at argv argc 0 (pos + length (test_words 0 (TOr a b)))" "4 * (argc - pos) + 3 \<le> n + 0"
  then have s: "words_at argv argc pos (test_words 1 a)" "?p < argc" "argv ! ?p = ''-o''" "words_at argv argc (?p + 1) (test_words 0 b)" by auto
  obtain m where m: "n = Suc m" using *(3) by (cases n) auto
  have "grammar_level 1 sv argv argc m pos = Some (reply ?p (test_value sv a))"
    using s * m by (intro readsD [OF assms(1)]) (auto simp: closed_at_def)
  then have x: "test_and sv argv argc m pos = Some (reply ?p (test_value sv a))" by (simp add: grammar_level_def)
  have "grammar_level 0 sv argv argc m (?p + 1) = Some (reply (?p + 1 + length (test_words 0 b)) (test_value sv b))"
    using s * m by (intro readsD [OF assms(2)]) (auto simp: add.assoc)
  then have y: "test_or sv argv argc m (?p + 1) = Some (reply (pos + length ?ws) (test_value sv b))" by (simp add: grammar_level_def add.assoc)
  show "grammar_level 0 sv argv argc n pos = Some (reply (pos + length (test_words 0 (TOr a b))) (test_value sv (TOr a b)))"
    using connective [where y = "test_or sv argv argc m", OF x s(2,3) y, of "(\<or>)"] m by (simp add: grammar_level_def)
qed

text \<open>What is read at one level without parentheses is read at the level below, and in parentheses everywhere.\<close>

lemma reads_or_of_and:
  assumes "reads sv argv argc 1 e" and "test_words 0 e = test_words 1 e"
  shows "reads sv argv argc 0 e"
  unfolding reads_def
proof (intro allI impI)
  fix pos n
  let ?p = "pos + length (test_words 0 e)"
  assume *: "words_at argv argc pos (test_words 0 e)" "closed_at argv argc 0 ?p" "4 * (argc - pos) + 3 \<le> n + 0"
  obtain m where m: "n = Suc m" using *(3) by (cases n) auto
  have "grammar_level 1 sv argv argc m pos = Some (reply ?p (test_value sv e))"
    unfolding assms(2) using * m by (intro readsD [OF assms(1)]) (auto simp: closed_at_def assms(2))
  then show "grammar_level 0 sv argv argc n pos = Some (reply ?p (test_value sv e))"
    using * m by (cases "test_value sv e") (auto simp: grammar_level_def closed_at_def)
qed

lemma reads_parenthesised:
  assumes "reads sv argv argc 0 e" and "test_words k e = ''('' # test_words 0 e @ ['')'']" and "argc \<le> length argv" and "k \<le> 2"
  shows "reads sv argv argc k e"
proof (rule reads_term [OF _ assms(4)])
  fix pos n
  let ?p = "pos + 1 + length (test_words 0 e)"
  assume *: "words_at argv argc pos (test_words k e)" "4 * (argc - pos) + 1 \<le> n"
  have s: "words_at argv argc (pos + 1) (test_words 0 e)" "pos + 1 < argc" "words_at argv argc ?p ['')'']" "words_at argv argc pos (''('' # test_words 0 e)"
    using *(1) unfolding assms(2) by auto
  have "test_or sv argv argc n (pos + 1) = Some (reply ?p (test_value sv e))" if "4 * (argc - (pos + 1)) + 3 \<le> n" for n
    using readsD [OF assms(1) s(1), of n] s that by (simp add: grammar_level_def closed_at_def)
  from parenthesised [OF this s(4,3,2) assms(3) *(2)]
  show "test_term sv argv argc n pos = Some (reply (pos + length (test_words k e)) (test_value sv e))" unfolding assms(2) by simp
qed

lemma tree_read:
  assumes "argc \<le> length argv"
  shows "plain_words e \<Longrightarrow> k \<le> 2 \<Longrightarrow> reads sv argv argc k e"
proof (induction e arbitrary: k)
  case (TStr s)
  show ?case
  proof (rule reads_term [OF _ TStr(2)])
    fix pos n assume "words_at argv argc pos (test_words k (TStr s))" "closed_at argv argc 2 (pos + length (test_words k (TStr s)))" "4 * (argc - pos) + 1 \<le> n"
    then show "test_term sv argv argc n pos = Some (reply (pos + length (test_words k (TStr s))) (test_value sv (TStr s)))"
      using TStr(1) string_term [of s argv argc pos sv] by (cases n) auto
  qed
next
  case (TUn op s)
  show ?case
  proof (rule reads_term [OF _ TUn(2)])
    fix pos n assume "words_at argv argc pos (test_words k (TUn op s))" "4 * (argc - pos) + 1 \<le> n"
    then show "test_term sv argv argc n pos = Some (reply (pos + length (test_words k (TUn op s))) (test_value sv (TUn op s)))"
      using TUn(1) unary_term [of op s argv argc pos sv] test_unop_word [of op] by (cases n) auto
  qed
next
  case (TBin a op b)
  show ?case
  proof (rule reads_term [OF _ TBin(2)])
    fix pos n assume "words_at argv argc pos (test_words k (TBin a op b))" "4 * (argc - pos) + 1 \<le> n"
    then show "test_term sv argv argc n pos = Some (reply (pos + length (test_words k (TBin a op b))) (test_value sv (TBin a op b)))"
      using TBin(1) binary_term [of a op b argv argc pos sv] by (cases n) (auto simp: numeral_3_eq_3)
  qed
next
  case (TNot e)
  then show ?case by (intro reads_not) auto
next
  case (TAnd a b)
  have one: "reads sv argv argc 1 (TAnd a b)" using TAnd by (intro reads_and) auto
  then have zero: "reads sv argv argc 0 (TAnd a b)" by (rule reads_or_of_and) simp
  from zero have "reads sv argv argc 2 (TAnd a b)" by (rule reads_parenthesised) (use assms in auto)
  moreover have "k = 0 \<or> k = 1 \<or> k = 2" using TAnd.prems by linarith
  ultimately show ?case using zero one by auto
next
  case (TOr a b)
  have zero: "reads sv argv argc 0 (TOr a b)" using TOr by (intro reads_or) auto
  then have "reads sv argv argc k (TOr a b)" if "k \<noteq> 0" by (rule reads_parenthesised) (use assms TOr.prems that in auto)
  then show ?case using zero by (cases "k = 0") auto
qed

subsection \<open>The whole command on the words of a tree\<close>

lemma words_length_pos: "1 \<le> length (test_words k e)"
  using words_nonempty [of k e] by (cases "test_words k e") auto

lemma one_word: "length (test_words k e) = 1 \<longleftrightarrow> (\<exists>s. e = TStr s)"
  using words_nonempty by (cases e) auto

lemma two_words: "length (test_words k e) = 2 \<longleftrightarrow> (\<exists>op s. e = TUn op s) \<or> (\<exists>s. e = TNot (TStr s))"
proof (cases e)
  case (TNot x)
  then show ?thesis using one_word [of 2 x] by auto
next
  case (TAnd x y)
  then show ?thesis using words_length_pos [of 2 x] words_length_pos [of 1 y] by auto
next
  case (TOr x y)
  then show ?thesis using words_length_pos [of 1 x] words_length_pos [of 0 y] by auto
qed auto

lemma three_words:
  "length (test_words k e) = 3 \<longleftrightarrow> (\<exists>a op b. e = TBin a op b) \<or> (\<exists>op s. e = TNot (TUn op s)) \<or> (\<exists>s. e = TNot (TNot (TStr s))) \<or>
     k \<le> 1 \<and> (\<exists>s t. e = TAnd (TStr s) (TStr t)) \<or> k = 0 \<and> (\<exists>s t. e = TOr (TStr s) (TStr t))"
proof (cases e)
  case (TNot x)
  then show ?thesis using two_words [of 2 x] by auto
next
  case (TAnd x y)
  then show ?thesis
    using words_length_pos [of 2 x] words_length_pos [of 1 y] one_word [of 2 x] one_word [of 1 y] by auto
next
  case (TOr x y)
  then show ?thesis
    using words_length_pos [of 1 x] words_length_pos [of 0 y] one_word [of 1 x] one_word [of 0 y] by auto
qed auto

lemma two_unary:
  assumes "plain_words (TUn op s)" and "words_at argv argc pos [op, s]"
  shows "two_arguments sv argv argc pos = Value (unary_value sv op s, pos + 2)"
  using assms test_unop_word [of op] unary_operator_plain [OF assms] by (auto simp: two_arguments_def)

lemma two_agrees:
  assumes "plain_words e" and "words_at argv argc pos (test_words k e)" and "length (test_words k e) = 2"
  shows "\<exists>v p. test_value sv e = Value v \<and> two_arguments sv argv argc pos = Value (v, p)"
  using assms two_unary [of _ _ argv argc pos sv] by (auto simp: two_words two_arguments_def)

lemma three_agrees:
  assumes "plain_words e" and "words_at argv argc pos (test_words k e)" and "argc = pos + 3" and "length (test_words k e) = 3"
    and "\<nexists>s. e = TNot (TNot (TStr s))"
  shows "three_arguments sv argv argc pos = reply argc (test_value sv e)"
proof -
  consider (b) a op b where "e = TBin a op b" | (u) op s where "e = TNot (TUn op s)" | (a) s t where "k \<le> 1" "e = TAnd (TStr s) (TStr t)"
    | (o) s t where "k = 0" "e = TOr (TStr s) (TStr t)" using assms(4,5) unfolding three_words by blast
  then show ?thesis
  proof cases
    case b
    then show ?thesis using assms binary_operator_eq [of argv pos sv] binary_test_value [of op a b sv]
      by (cases "binary_value sv op a b") (auto simp: three_arguments_def Let_def)
  next
    case u
    have "two_arguments sv argv argc (pos + 1) = Value (unary_value sv op s, argc)"
      using two_unary [of op s argv argc "pos + 1" sv] u assms by auto
    moreover have "test_binop op = Some False" "ANDOR op = Some False"
      using u assms(1) test_unop_word [of op] unop_two [of op] by (auto simp: ANDOR_def rd_def char_at_def split: if_splits)
    ultimately show ?thesis using u assms by (simp add: three_arguments_def Let_def)
  next
    case a
    then show ?thesis using assms by (simp add: three_arguments_def Let_def test_binop_def ANDOR_def rd_def char_at_def ONE_ARG_TEST_def)
  next
    case o
    then show ?thesis using assms by (simp add: three_arguments_def Let_def test_binop_def ANDOR_def rd_def char_at_def ONE_ARG_TEST_def)
  qed
qed

lemma first_word:
  assumes "hd (test_words k e) = ''!''" and "plain_words e"
  shows "(\<exists>x. e = TNot x) \<or> (\<exists>x y. k \<le> 1 \<and> e = TAnd (TNot x) y) \<or> (\<exists>x y. k = 0 \<and> e = TOr (TNot x) y) \<or>
    (\<exists>x y z. k = 0 \<and> e = TOr (TAnd (TNot x) y) z)"
proof -
  have one: "\<exists>x. a = TNot x" if "hd (test_words 2 a) = ''!''" "plain_words a" for a
    using that test_unop_word by (cases a) auto
  have "(\<exists>x. a = TNot x) \<or> (\<exists>x y. a = TAnd (TNot x) y)" if "hd (test_words 1 a) = ''!''" "plain_words a" for a
    using that one test_unop_word by (cases a) (auto simp: words_nonempty)
  then show ?thesis using assms one test_unop_word by (cases e) (auto simp: words_nonempty split: if_splits)
qed


lemma four_negated:
  assumes "hd (test_words 0 e) = ''!''" and "plain_words e" and "length (test_words 0 e) = 4" and "\<not> few_words e"
  shows "\<exists>x. e = TNot x \<and> length (test_words 2 x) = 3 \<and> (\<nexists>s. x = TNot (TNot (TStr s)))"
proof -
  have "\<nexists>x y. e = TAnd (TNot x) y"
  proof safe
    fix x y assume e: "e = TAnd (TNot x) y"
    then have "length (test_words 2 x) = 1 \<and> length (test_words 1 y) = 1"
      using assms(3) words_length_pos [of 2 x] words_length_pos [of 1 y] unfolding e test_words.simps by simp
    then show False using assms(4) e unfolding one_word by auto
  qed
  moreover have "\<nexists>x y. e = TOr (TNot x) y"
  proof safe
    fix x y assume e: "e = TOr (TNot x) y"
    then have "length (test_words 2 x) = 1 \<and> length (test_words 0 y) = 1"
      using assms(3) words_length_pos [of 2 x] words_length_pos [of 0 y] unfolding e test_words.simps by simp
    then show False using assms(4) e unfolding one_word by auto
  qed
  moreover have "\<nexists>x y z. e = TOr (TAnd (TNot x) y) z"
  proof safe
    fix x y z assume "e = TOr (TAnd (TNot x) y) z"
    then show False using assms(3) words_length_pos [of 2 x] words_length_pos [of 1 y] words_length_pos [of 0 z] by simp
  qed
  ultimately obtain x where "e = TNot x" using first_word [OF assms(1,2)] by blast
  then show ?thesis using assms(3,4) by auto
qed

lemma posixtest_agrees:
  assumes "plain_words e" and "\<not> few_words e" and "words_at argv argc 1 (test_words 0 e)" and "argc = 1 + length (test_words 0 e)"
    and "argc \<le> length argv" and "4 * argc \<le> n"
  shows "posixtest sv n argv argc 1 = Some (reply argc (test_value sv e))"
proof -
  have one: "1 < argc" using assms(4) words_length_pos [of 0 e] by linarith
  consider "argc = 2" | "argc = 3" | "argc = 4" | "argc = 5" "argv ! 1 = ''!''" | "posixtest sv n argv argc 1 = test_expr sv argv argc n 1"
    using posixtest_expr [OF one] by blast
  then show ?thesis
  proof cases
    case 1
    then obtain s where "e = TStr s" using assms(4) one_word [of 0 e] by auto
    then show ?thesis using assms 1 by (simp add: posixtest_def ONE_ARG_TEST_def)
  next
    case 2
    then have "length (test_words 0 e) = 2" using assms(4) by simp
    from two_agrees [OF assms(1,3) this, of sv] show ?thesis using 2 by (auto simp: posixtest_def)
  next
    case 3
    have "three_arguments sv argv argc 1 = reply argc (test_value sv e)"
      using assms(2,4) 3 by (intro three_agrees [OF assms(1,3)]) auto
    then show ?thesis using 3 by (simp add: posixtest_def)
  next
    case 4
    have "hd (test_words 0 e) = ''!''" using assms(3) 4 words_nonempty [of 0 e] by (cases "test_words 0 e") auto
    then obtain x where x: "e = TNot x" "length (test_words 2 x) = 3" "\<nexists>s. x = TNot (TNot (TStr s))"
      using four_negated assms(1,2,4) 4 by auto
    have "three_arguments sv argv argc (1 + 1) = reply argc (test_value sv x)"
      using assms(1,3) 4 x by (intro three_agrees [where k = 2]) auto
    then show ?thesis using 4 x by (cases "test_value sv x") (auto simp: posixtest_def)
  next
    case 5
    obtain m where m: "n = Suc m" "4 * (argc - 1) + 3 \<le> m" using assms(6) one by (cases n) auto
    then have "grammar_level 0 sv argv argc m 1 = Some (reply argc (test_value sv e))"
      using readsD [OF tree_read [OF assms(5,1), of 0], of 1 m] assms(3,4) by (simp add: closed_at_def)
    then show ?thesis using 5 m one by (simp add: grammar_level_def)
  qed
qed

text \<open>The status of a value.\<close>

definition status :: "bool test_result \<Rightarrow> int option" where
  "status r = (case r of Value v \<Rightarrow> Some (if v then 0 else 1) | Exit s \<Rightarrow> Some s | Fault \<Rightarrow> None)"

lemma run_test_agrees:
  assumes "plain_words e" and "\<not> few_words e" and "words_at argv argc 1 (test_words 0 e)" and "argc = 1 + length (test_words 0 e)"
    and "argc \<le> length argv" and "4 * argc \<le> n"
  shows "map_option (\<lambda>r. case r of Exit s \<Rightarrow> Some s | Value s \<Rightarrow> Some s | Fault \<Rightarrow> None) (run_test sv n argv argc) = Some (status (test_value sv e))"
proof -
  have "1 < argc" using assms(4) words_length_pos [of 0 e] by linarith
  then show ?thesis
    using posixtest_agrees [OF assms, of sv] by (cases "test_value sv e") (auto simp: run_test_def status_def SHELL_BOOLEAN_def)
qed

text \<open>
  C8. The \<^verbatim>\<open>test\<close> and \<^verbatim>\<open>[\<close> commands evaluate expressions: given the words of an expression tree, with parentheses only
  where the precedence of \<^verbatim>\<open>!\<close>, \<^verbatim>\<open>-a\<close> and \<^verbatim>\<open>-o\<close> asks for them, the status is 0 or 1 for the value of the
  tree and 2 when an operand of an arithmetic comparison is not a number, in whichever branch it stands. The values of the
  primaries are those of an independent specification: comparison of strings, by equality and by the order of their bytes, of
  numbers as mathematical integers, of the times and identity of files, and the properties of files, terminals, options and
  variables. Operands must not look like operators, parentheses or negations (\<open>plain_words\<close>), and trees of three or four words that the
  rules for few arguments read differently, such as two negations of a string, are left out (\<open>few_words\<close>).
\<close>

theorem test_command_correct:
  assumes "plain_words e" and "\<not> few_words e" and "4 * (length (test_words 0 e) + 1) \<le> n"
  shows "test_command sv n (''test'' # test_words 0 e) = Some (status (test_value sv e)) \<and>
    test_command sv n (''['' # test_words 0 e @ ['']'']) = Some (status (test_value sv e))"
proof
  have "words_at (c # test_words 0 e @ ys) (1 + length (test_words 0 e)) 1 (test_words 0 e)" for c ys
    by (rule words_at_take) auto
  note run = run_test_agrees [OF assms(1,2) this refl]
  show "test_command sv n (''test'' # test_words 0 e) = Some (status (test_value sv e))"
    using run [of "''test''" "[]" n sv] assms(3) by (simp add: test_command_def Let_def)
  show "test_command sv n (''['' # test_words 0 e @ ['']'']) = Some (status (test_value sv e))"
    using run [of "''[''" "['']'']" n sv] assms(3) words_nonempty [of 0 e] by (simp add: test_command_def Let_def nth_append)
qed

text \<open>A system without files, to evaluate concrete commands.\<close>

definition no_files :: services where
  "no_files = \<lparr>sh_stat = (\<lambda>_. None), lstat = (\<lambda>_. None), sh_eaccess = (\<lambda>_ _. - 1), isatty = (\<lambda>_. False), euid = 0, egid = 0,
     minus_o_option_value = (\<lambda>_. - 1), variable_isset = (\<lambda>_. False), variable_isref = (\<lambda>_. False), strcoll = strcmp,
     arith_operands = (\<lambda>_ _. None), shell_compatibility_level = 43, extglob_on = False, ignore_case = False, asciirange = False\<rparr>"

definition sample_test :: texp where
  "sample_test = TAnd (TNot (TOr (TBin ''a'' ''='' ''b'') (TUn ''-z'' ''x''))) (TBin ''9'' ''-lt'' ''10'')"

definition bad_test :: texp where
  "bad_test = TOr (TBin ''9'' ''-eq'' ''9'') (TBin ''9'' ''-lt'' ''ten'')"

lemma sample_test_plain: "plain_words sample_test \<and> \<not> few_words sample_test" "plain_words bad_test \<and> \<not> few_words bad_test"
  by code_simp+

lemma sample_test_words: "test_words 0 sample_test = [''!'', ''('', ''a'', ''='', ''b'', ''-o'', ''-z'', ''x'', '')'', ''-a'', ''9'', ''-lt'', ''10'']"
  "test_words 0 bad_test = [''9'', ''-eq'', ''9'', ''-o'', ''9'', ''-lt'', ''ten'']"
  by (simp_all add: sample_test_def bad_test_def)

lemma sample_numbers: "number_of ''9'' = Some 9" "number_of ''10'' = Some 10" "number_of ''ten'' = None"
  by code_simp+

lemma sample_test_value: "test_value no_files sample_test = Value True" "test_value no_files bad_test = Exit 2"
  by (simp_all add: sample_test_def bad_test_def binary_value_def unary_value_def sample_numbers)

theorem test_command_correct_witness:
  "test_command no_files 56 [''['', ''!'', ''('', ''a'', ''='', ''b'', ''-o'', ''-z'', ''x'', '')'', ''-a'', ''9'', ''-lt'', ''10'', '']''] = Some (Some 0) \<and>
   test_command no_files 56 [''test'', ''9'', ''-eq'', ''9'', ''-o'', ''9'', ''-lt'', ''ten''] = Some (Some 2)"
  using test_command_correct [of sample_test 56 no_files] test_command_correct [of bad_test 56 no_files] sample_test_plain
  by (simp add: sample_test_words sample_test_value status_def)

theorem test_command_returns_witness: "\<exists>s \<in> {0, 1, 2}. test_command no_files 16 [''test'', ''1'', ''-eq'', ''one''] = Some (Some s)"
  by (rule test_command_returns) simp_all

text \<open>A lone dash makes the command read behind the terminator of the word.\<close>

lemma lone_dash_read: "test_command sv n [''test'', ''-'', ''x''] = Some None"
  by (simp add: test_command_def run_test_def posixtest_def two_arguments_def switch_word_def rd_def)

text \<open>Two negations of a string are rejected, because the position is not moved in the second one.\<close>

lemma double_negation_rejected: "test_command sv n [''test'', ''!'', ''!'', ''x''] = Some (Some 2)"
  by (simp add: test_command_def run_test_def posixtest_def three_arguments_def two_arguments_def test_binop_def ANDOR_def
      test_syntax_error_def TEST_ERREXIT_STATUS_def char_at_def)

end
