(* ===== verification/Complete.thy ===== *)
theory Complete
  imports Stringlist Glob Braces "HOL-Library.Sublist"
begin

text \<open>
  Completion of a word: the part of \<^verbatim>\<open>lib/readline/complete.c\<close> that collects the matches, finds their common
  prefix, removes duplicates and lets the application drop some, and the completion driver of \<^verbatim>\<open>bashline.c\<close> with the
  command-line mode of \<^verbatim>\<open>cli.c\<close>. A list of matches is a null-terminated block of slots whose first slot is the text to
  insert. The variables of readline that the two sides share are a record. What the driver asks other parts for, the
  reader of words, the completion specifications, the file names in the directory, is a record of functions; so is \<^verbatim>\<open>qsort\<close>.
  Characters are single bytes, and signals do not arrive.
\<close>

subsection \<open>Blocks of matches\<close>

definition ptr_at :: "strvec \<Rightarrow> nat \<Rightarrow> string option" where
  "ptr_at a i = (if i < length a then (case a ! i of Ptr s \<Rightarrow> Some s | _ \<Rightarrow> None) else None)"

definition null_at :: "strvec \<Rightarrow> nat \<Rightarrow> bool option" where
  "null_at a i = (if i < length a then (case a ! i of Ptr s \<Rightarrow> Some False | Null \<Rightarrow> Some True | _ \<Rightarrow> None) else None)"

fun strs_from :: "strvec \<Rightarrow> nat \<Rightarrow> nat \<Rightarrow> string list option" where
  "strs_from a i 0 = Some []"
| "strs_from a i (Suc n) = do { s \<leftarrow> ptr_at a i; xs \<leftarrow> strs_from a (Suc i) n; Some (s # xs) }"

fun put_strs :: "strvec \<Rightarrow> nat \<Rightarrow> string list \<Rightarrow> strvec option" where
  "put_strs a i [] = Some a"
| "put_strs a i (s # xs) = do { a \<leftarrow> put a (int i) (Ptr s); put_strs a (Suc i) xs }"

text \<open>The state that readline and its application share.\<close>

datatype ignore_fn = filename_completion_ignore | bash_ignore_everything | bash_ignore_filenames

record rl_state =
  attempted_completion_over :: bool
  filename_completion_desired :: bool
  filename_quoting_desired :: bool
  completion_suppress_append :: bool
  completion_quote_character :: char
  completion_found_quote :: bool
  ignore_some_completions_function :: ignore_fn

record completer =
  env :: "string \<rightharpoonup> string"
  rl_line_buffer :: string
  prompt_is_ps1 :: bool
  parser_in_command_position :: bool
  char_is_quoted :: "nat \<Rightarrow> bool"
  unclosed_pair :: "nat \<Rightarrow> string \<Rightarrow> bool"
  skip_to_delim :: "nat \<Rightarrow> string \<Rightarrow> nat"
  assignment :: "string \<Rightarrow> bool"
  have_progcomps :: bool
  programmable_completions :: "string \<Rightarrow> string \<Rightarrow> nat \<Rightarrow> nat \<Rightarrow> string list \<times> int"
  command_subst_completions :: "string \<Rightarrow> string list"
  shell_default_completion :: "string \<Rightarrow> nat \<Rightarrow> nat \<Rightarrow> char option \<Rightarrow> bool \<Rightarrow> rl_state \<Rightarrow> (strvec option \<times> rl_state) option"
  rl_filename_completions :: "string \<Rightarrow> string list"
  fignore_acceptable :: "(string \<Rightarrow> bool) option"
  test_for_directory :: "string \<Rightarrow> bool"
  force_fignore :: bool
  completion_case_fold :: bool
  sort_completion_matches :: bool
  ignore_completion_duplicates :: bool
  qsort :: "string list \<Rightarrow> string list"
  filename_dequoting_function :: "(string \<Rightarrow> char \<Rightarrow> string) option"

subsection \<open>The common prefix\<close>

text \<open>The comparison of two neighbours stops at the end of either string or at the first difference.\<close>

fun lcd_loop :: "(char \<Rightarrow> char) \<Rightarrow> string \<Rightarrow> string \<Rightarrow> nat" where
  "lcd_loop f (c1 # s) (c2 # t) = (if f c1 = f c2 then Suc (lcd_loop f s t) else 0)"
| "lcd_loop f s t = 0"

fun low_loop :: "(char \<Rightarrow> char) \<Rightarrow> strvec \<Rightarrow> nat \<Rightarrow> nat \<Rightarrow> nat \<Rightarrow> nat option" where
  "low_loop f match_list i 0 low = Some low"
| "low_loop f match_list i (Suc n) low = do {
     s \<leftarrow> ptr_at match_list i;
     t \<leftarrow> ptr_at match_list (i + 1);
     let si = lcd_loop f s t;
     low_loop f match_list (i + 1) n (if low > si then si else low) }"

definition sort_slots :: "completer \<Rightarrow> strvec \<Rightarrow> nat \<Rightarrow> nat \<Rightarrow> strvec option" where
  "sort_slots c a i n = do { xs \<leftarrow> strs_from a i n; put_strs a i (qsort c xs) }"

text \<open>With folding of case, the match that agrees with what was typed gives the text, otherwise the first one.\<close>

definition lcd_folded :: "completer \<Rightarrow> rl_state \<Rightarrow> strvec \<Rightarrow> nat \<Rightarrow> nat \<Rightarrow> string \<Rightarrow> (strvec \<times> string) option" where
  "lcd_folded c st match_list matches low text = (
     let text = (if filename_completion_desired st \<and> completion_found_quote st \<and> filename_quoting_desired st
           then (case filename_dequoting_function c of None \<Rightarrow> text | Some f \<Rightarrow> f text (completion_quote_character st)) else text)
     in do {
       match_list \<leftarrow> sort_slots c match_list 1 matches;
       xs \<leftarrow> strs_from match_list 1 matches;
       let lx = min (length text) low;
       first \<leftarrow> ptr_at match_list 1;
       Some (match_list, take low (case find (\<lambda>s. take lx s = take lx text) xs of Some s \<Rightarrow> s | None \<Rightarrow> first)) })"

definition compute_lcd_of_matches :: "completer \<Rightarrow> rl_state \<Rightarrow> strvec \<Rightarrow> nat \<Rightarrow> string \<Rightarrow> strvec option" where
  "compute_lcd_of_matches c st match_list matches text = (
     if matches = 1 then do {
       s \<leftarrow> ptr_at match_list 1;
       match_list \<leftarrow> put match_list 0 (Ptr s);
       put match_list 1 Null }
     else do {
       low \<leftarrow> low_loop (if completion_case_fold c then TOLOWER else (\<lambda>ch. ch)) match_list 1 (matches - 1) 100000;
       if low = 0 \<and> text \<noteq> [] then put match_list 0 (Ptr text)
       else if completion_case_fold c then do {
         (match_list, s) \<leftarrow> lcd_folded c st match_list matches low text;
         put match_list 0 (Ptr s) }
       else do {
         s \<leftarrow> ptr_at match_list 1;
         put match_list 0 (Ptr (take low s)) } })"

subsection \<open>Collecting the matches\<close>

text \<open>
  The entry function is called with the number of matches found so far, keeps a state of its own and returns a null
  pointer at the end; a function that never does makes the loop run forever.
\<close>

type_synonym 's entry_function = "'s \<Rightarrow> nat \<Rightarrow> string option \<times> 's"

partial_function (option) match_loop :: "'s entry_function \<Rightarrow> 's \<Rightarrow> strvec \<Rightarrow> nat \<Rightarrow> nat \<Rightarrow> (strvec \<times> nat) option" where
  "match_loop entry_function g match_list match_list_size matches = (
     case entry_function g matches of
       (None, g) \<Rightarrow> Some (match_list, matches)
     | (Some string, g) \<Rightarrow>
         (let grow = matches + 1 \<ge> match_list_size;
              match_list = (if grow then match_list @ replicate 10 Undef else match_list);
              match_list_size = (if grow then match_list_size + 10 else match_list_size)
          in do {
            match_list \<leftarrow> put match_list (int (matches + 1)) (Ptr string);
            match_list \<leftarrow> put match_list (int (matches + 2)) Null;
            match_loop entry_function g match_list match_list_size (matches + 1) }))"

definition rl_completion_matches :: "completer \<Rightarrow> rl_state \<Rightarrow> string \<Rightarrow> 's entry_function \<Rightarrow> 's \<Rightarrow> strvec option option" where
  "rl_completion_matches c st text entry_function g = do {
     match_list \<leftarrow> put (replicate 11 Undef) 1 Null;
     (match_list, matches) \<leftarrow> match_loop entry_function g match_list 10 0;
     if matches \<noteq> 0 then do {
       match_list \<leftarrow> compute_lcd_of_matches c st match_list matches text;
       Some (Some match_list) }
     else Some None }"

text \<open>The function that returns the members of a vector one after the other; \<^verbatim>\<open>ind\<close> is its static variable.\<close>

definition prog_complete_return :: "string list \<Rightarrow> nat entry_function" where
  "prog_complete_return prog_complete_matches ind matchnum = (
     let ind = (if matchnum = 0 then 0 else ind)
     in if ind < length prog_complete_matches then (Some (prog_complete_matches ! ind), ind + 1) else (None, ind))"

subsection \<open>Duplicates\<close>

text \<open>A slot is dead when the next one holds the same string.\<close>

fun dead_slots :: "string list \<Rightarrow> (string \<times> bool) list" where
  "dead_slots (x # y # xs) = (x, x = y) # dead_slots (y # xs)"
| "dead_slots [x] = [(x, False)]"
| "dead_slots [] = []"

fun copy_live :: "(string \<times> bool) list \<Rightarrow> strvec \<Rightarrow> nat \<Rightarrow> (strvec \<times> nat) option" where
  "copy_live [] temp_array j = Some (temp_array, j)"
| "copy_live ((s, dead) # xs) temp_array j =
     (if dead then copy_live xs temp_array j
      else do { temp_array \<leftarrow> put temp_array (int j) (Ptr s); copy_live xs temp_array (j + 1) })"

definition remove_duplicate_matches :: "completer \<Rightarrow> strvec \<Rightarrow> strvec option" where
  "remove_duplicate_matches c matches = do {
     i \<leftarrow> strvec_len matches;
     matches \<leftarrow> (if i \<noteq> 0 \<and> sort_completion_matches c then sort_slots c matches 1 (i - 1) else Some matches);
     lowest_common \<leftarrow> ptr_at matches 0;
     xs \<leftarrow> strs_from matches 0 i;
     let slots = dead_slots xs;
     let newlen = length (filter (\<lambda>(_, dead). \<not> dead) (butlast slots));
     (temp_array, j) \<leftarrow> copy_live (tl slots) (replicate (3 + newlen) Undef) 1;
     temp_array \<leftarrow> put temp_array (int j) Null;
     temp_array \<leftarrow> put temp_array 0 (Ptr lowest_common);
     if j = 2 then do {
       s \<leftarrow> ptr_at temp_array 1;
       if lowest_common = s then put temp_array 1 Null else Some temp_array }
     else Some temp_array }"

subsection \<open>Ignored matches\<close>

definition ignore_completion_names :: "completer \<Rightarrow> strvec \<Rightarrow> (string \<Rightarrow> bool) \<Rightarrow> strvec option" where
  "ignore_completion_names c names name_func = do {
     single \<leftarrow> null_at names 1;
     if single then
       if force_fignore c then do {
         s \<leftarrow> ptr_at names 0;
         if name_func s then Some names else put names 0 Null }
       else Some names
     else do {
       n \<leftarrow> strvec_len names;
       xs \<leftarrow> strs_from names 1 (n - 1);
       let newnames = filter name_func xs;
       if newnames = [] then if force_fignore c then put names 0 Null else Some names
       else if length newnames = 1 then do {
         names \<leftarrow> put names 0 (Ptr (hd newnames));
         put names 1 Null }
       else do {
         names \<leftarrow> put_strs names 1 newnames;
         put names (int (length newnames) + 1) Null } } }"

definition call_ignore :: "completer \<Rightarrow> ignore_fn \<Rightarrow> strvec \<Rightarrow> strvec option" where
  "call_ignore c f names = (case f of
      filename_completion_ignore \<Rightarrow> (case fignore_acceptable c of None \<Rightarrow> Some names | Some p \<Rightarrow> ignore_completion_names c names p)
    | bash_ignore_everything \<Rightarrow> ignore_completion_names c names (\<lambda>_. False)
    | bash_ignore_filenames \<Rightarrow> ignore_completion_names c names (test_for_directory c))"

text \<open>The number of the first null slot behind slot 0.\<close>

definition matches_end :: "strvec \<Rightarrow> nat option" where
  "matches_end matches = map_option Suc (strvec_len (tl matches))"

definition postprocess_matches :: "completer \<Rightarrow> rl_state \<Rightarrow> strvec option \<Rightarrow> bool \<Rightarrow> strvec option option" where
  "postprocess_matches c st matches matching_filenames = (
     case matches of None \<Rightarrow> Some None | Some matches \<Rightarrow> do {
       matches \<leftarrow> (if ignore_completion_duplicates c then remove_duplicate_matches c matches else Some matches);
       if matching_filenames then do {
         nmatch \<leftarrow> matches_end matches;
         matches \<leftarrow> call_ignore c (ignore_some_completions_function st) matches;
         none \<leftarrow> null_at matches 0;
         if none then Some None
         else do {
           i \<leftarrow> matches_end matches;
           if i > 1 \<and> i < nmatch then do {
             t \<leftarrow> ptr_at matches 0;
             matches \<leftarrow> compute_lcd_of_matches c st matches (i - 1) t;
             Some (Some matches) }
           else Some (Some matches) } }
       else Some (Some matches) })"

subsection \<open>The command line around the word\<close>

definition cli_mode :: "completer \<Rightarrow> bool" where
  "cli_mode c \<longleftrightarrow> env c ''CLI_MODE'' \<noteq> None"

definition COMMAND_SEPARATORS :: string where
  "COMMAND_SEPARATORS = '';|&{(`''"

text \<open>The character before the separator is read also when the separator is the first one.\<close>

definition check_redir :: "completer \<Rightarrow> nat \<Rightarrow> bool option" where
  "check_redir c ti = (
     if ti = 0 then None
     else let this_char = char_at (rl_line_buffer c) ti; prev_char = char_at (rl_line_buffer c) (ti - 1) in
       Some (this_char = CHR ''&'' \<and> (prev_char = CHR ''<'' \<or> prev_char = CHR ''>'') \<or>
         this_char = CHR ''|'' \<and> prev_char = CHR ''>'' \<or>
         this_char = CHR ''{'' \<and> prev_char = CHR ''$'' \<or>
         char_is_quoted c ti))"

partial_function (option) cmd_start_loop :: "completer \<Rightarrow> nat \<Rightarrow> nat \<Rightarrow> nat option" where
  "cmd_start_loop c start os = (
     let s = skip_to_delim c os COMMAND_SEPARATORS
     in if s \<le> start then do { ch \<leftarrow> rd (rl_line_buffer c) s; if ch \<noteq> NUL then cmd_start_loop c start (s + 1) else Some os }
        else Some os)"

definition find_cmd_start :: "completer \<Rightarrow> nat \<Rightarrow> nat option" where
  "find_cmd_start c start = (if cli_mode c then Some 0 else cmd_start_loop c start 0)"

definition find_cmd_end :: "completer \<Rightarrow> nat \<Rightarrow> nat" where
  "find_cmd_end c fin = (if cli_mode c then length (rl_line_buffer c) else skip_to_delim c fin COMMAND_SEPARATORS)"

definition find_cmd_name :: "completer \<Rightarrow> nat \<Rightarrow> (string \<times> nat \<times> nat) option" where
  "find_cmd_name c start = (
     if start > length (rl_line_buffer c) then None
     else let s = start + length (takeWhile whitespace (drop start (rl_line_buffer c)));
              e = skip_to_delim c s (''()<>;&| '' @ [CHR 0x09, CHR 0x0A])
          in Some (substring (rl_line_buffer c) s e, s, e))"

text \<open>The loop that steps over assignments before a command name.\<close>

partial_function (option) cmd_name_loop :: "completer \<Rightarrow> nat \<Rightarrow> (string \<times> nat \<times> nat) option" where
  "cmd_name_loop c s = do {
     (n, s1, e1) \<leftarrow> find_cmd_name c s;
     if assignment c n then cmd_name_loop c (e1 + 1) else Some (n, s1, e1) }"

subsection \<open>The completion driver\<close>

definition COPT_DEFAULT :: int where "COPT_DEFAULT = 2"
definition COPT_FILENAMES :: int where "COPT_FILENAMES = 4"
definition COPT_NOQUOTE :: int where "COPT_NOQUOTE = 16"
definition COPT_NOSPACE :: int where "COPT_NOSPACE = 32"
definition COPT_BASHDEFAULT :: int where "COPT_BASHDEFAULT = 64"

definition pcomp_set_readline_variables :: "int \<Rightarrow> bool \<Rightarrow> rl_state \<Rightarrow> rl_state" where
  "pcomp_set_readline_variables flags nval st = (
     let st = (if flags AND COPT_FILENAMES \<noteq> 0 then st\<lparr>filename_completion_desired := nval\<rparr> else st);
         st = (if flags AND COPT_NOSPACE \<noteq> 0 then st\<lparr>completion_suppress_append := nval\<rparr> else st)
     in if flags AND COPT_NOQUOTE \<noteq> 0 then st\<lparr>filename_quoting_desired := \<not> nval\<rparr> else st)"

definition bash_default_completion ::
  "completer \<Rightarrow> string \<Rightarrow> nat \<Rightarrow> nat \<Rightarrow> char option \<Rightarrow> bool \<Rightarrow> rl_state \<Rightarrow> (strvec option \<times> rl_state) option" where
  "bash_default_completion c text start fin qc cmdpos st = (
     if cli_mode c then Some (None, st\<lparr>ignore_some_completions_function := bash_ignore_everything\<rparr>)
     else shell_default_completion c text start fin qc cmdpos st)"

text \<open>One more than the index of the last character before a place that is not white space, or zero.\<close>

fun skip_back :: "string \<Rightarrow> nat \<Rightarrow> nat" where
  "skip_back line 0 = 0"
| "skip_back line (Suc n) = (if whitespace (char_at line n) then skip_back line n else Suc n)"

text \<open>The index before the word and white space, with an open quote before it skipped and remembered.\<close>

definition before_word :: "string \<Rightarrow> nat \<Rightarrow> nat \<times> char option" where
  "before_word line start = (
     let ti = skip_back line start; ch = char_at line (ti - 1) in
     if ti > 0 \<and> (ch = CHR 0x22 \<or> ch = CHR 0x27) then (skip_back line (ti - 1), Some ch) else (ti, None))"

definition command_position :: "completer \<Rightarrow> string \<Rightarrow> nat \<Rightarrow> nat \<Rightarrow> bool option" where
  "command_position c text fin ti = (
     let line = rl_line_buffer c in do {
     pos \<leftarrow> (if ti = 0 then Some (prompt_is_ps1 c \<or> parser_in_command_position c)
       else if char_at line (ti - 1) \<in> set COMMAND_SEPARATORS then do {
         redir \<leftarrow> check_redir c (ti - 1);
         Some (\<not> cli_mode c \<and> \<not> redir) }
       else Some False);
     Some (pos \<and> \<not> (ti > 0 \<and> char_at line (ti - 1) = CHR ''`'' \<and> char_at text 0 \<noteq> CHR ''`'' \<and> \<not> unclosed_pair c fin ''`'')) })"

text \<open>
  Which command the completion specification is asked for, if any, and whether the word is in command position. The command name
  is between \<open>s1\<close> and \<open>e1\<close>, and the command ends at \<open>e\<close>. Behind the loop \<^verbatim>\<open>was_assignment\<close> is zero.
\<close>

definition progcomp_choice :: "completer \<Rightarrow> string \<Rightarrow> nat \<Rightarrow> nat \<Rightarrow> bool \<Rightarrow> string \<Rightarrow> nat \<Rightarrow> nat \<Rightarrow> nat \<Rightarrow> string option \<times> bool" where
  "progcomp_choice c text start fin cmdpos n s1 e1 e = (
     let line = rl_line_buffer c in
     if start = 0 \<and> fin = 0 \<and> e \<noteq> 0 \<and> text = [] then (None, cmdpos)
     else if start = fin \<and> start = s1 \<and> e \<noteq> 0 \<and> e1 > fin then (None, cmdpos)
     else if e = 0 \<and> e = s1 \<and> text = [] \<and> have_progcomps c then (Some ''_EmptycmD_'', cmdpos)
     else if start = fin \<and> text = [] \<and> s1 > start \<and> whitespace (char_at line start) then (None, cmdpos)
     else if cli_mode c \<and> (e > s1 \<or> n = text) \<and> have_progcomps c then (Some n, s1 = start \<and> n = text)
     else if e > s1 \<and> e1 = fin \<and> char_at line e = NUL \<and> \<not> whitespace (char_at line (e - 1)) then (None, s1 = start \<and> n = text)
     else if e > s1 \<and> have_progcomps c then (Some n, s1 = start \<and> n = text)
     else if s1 \<ge> e \<and> n = [] \<and> text = [] \<and> start > 0 then (None, False)
     else if s1 = start \<and> e = fin \<and> n = text \<and> start > 0 then (None, True)
     else (None, cmdpos))"

text \<open>The matches of the specification and the flags it was found with, zero when none is asked or found.\<close>

definition ask_progcomp :: "completer \<Rightarrow> string \<Rightarrow> nat \<Rightarrow> nat \<Rightarrow> bool \<Rightarrow> (string list \<times> int \<times> bool) option" where
  "ask_progcomp c text start fin cmdpos = do {
     s \<leftarrow> find_cmd_start c start;
     let e = find_cmd_end c fin;
     (n, s1, e1) \<leftarrow> cmd_name_loop c s;
     let (cmd, pos) = progcomp_choice c text start fin cmdpos n s1 e1 e;
     Some (case cmd of None \<Rightarrow> ([], 0, pos)
       | Some cmd \<Rightarrow> (let (ms, found) = programmable_completions c cmd text s1 e in (ms, found, pos))) }"

definition attempt_shell_completion :: "completer \<Rightarrow> string \<Rightarrow> nat \<Rightarrow> nat \<Rightarrow> rl_state \<Rightarrow> (strvec option \<times> rl_state) option" where
  "attempt_shell_completion c text start fin st = (
     let st = st\<lparr>ignore_some_completions_function := filename_completion_ignore\<rparr>;
         (ti, qc) = before_word (rl_line_buffer c) start
     in do {
       cmdpos \<leftarrow> command_position c text fin ti;
       matches \<leftarrow> (if char_at text 0 = CHR ''`'' \<and> completion_quote_character st \<noteq> CHR 0x27 \<and> \<not> cli_mode c \<and>
             (cmdpos \<or> unclosed_pair c start ''`'' \<and> unclosed_pair c fin ''`'')
           then rl_completion_matches c st text (prog_complete_return (command_subst_completions c text)) 0 else Some None);
       let default = (\<lambda>cmdpos st. if matches = None then bash_default_completion c text start fin qc cmdpos st else Some (matches, st));
       if matches = None \<and> (cli_mode c \<or> \<not> cmdpos \<or> text = []) \<and> prompt_is_ps1 c then do {
         (prog_complete_matches, foundcs, cmdpos) \<leftarrow> ask_progcomp c text start fin cmdpos;
         if foundcs \<noteq> 0 then do {
           let st = pcomp_set_readline_variables foundcs True st;
           matches \<leftarrow> rl_completion_matches c st text (prog_complete_return prog_complete_matches) 0;
           let st = (if foundcs AND COPT_DEFAULT = 0 then st\<lparr>attempted_completion_over := True\<rparr> else st);
           if matches \<noteq> None \<or> foundcs AND COPT_BASHDEFAULT = 0 then Some (matches, st)
           else bash_default_completion c text start fin qc cmdpos st }
         else default cmdpos st }
       else default cmdpos st })"

subsection \<open>The matches of a word\<close>

definition set_completion_defaults :: "rl_state \<Rightarrow> rl_state" where
  "set_completion_defaults st = st\<lparr>filename_completion_desired := False, filename_quoting_desired := True, completion_suppress_append := False\<rparr>"

definition gen_completion_matches ::
  "completer \<Rightarrow> string \<Rightarrow> nat \<Rightarrow> nat \<Rightarrow> bool \<Rightarrow> char \<Rightarrow> rl_state \<Rightarrow> (strvec option \<times> rl_state) option" where
  "gen_completion_matches c text start fin found_quote quote_char st = (
     let st = st\<lparr>completion_found_quote := found_quote, completion_quote_character := quote_char\<rparr> in do {
       (matches, st) \<leftarrow> attempt_shell_completion c text start fin st;
       if matches \<noteq> None \<or> attempted_completion_over st then Some (matches, st\<lparr>attempted_completion_over := False\<rparr>)
       else do {
         let st = st\<lparr>filename_completion_desired := True\<rparr>;
         matches \<leftarrow> rl_completion_matches c st text (prog_complete_return (rl_filename_completions c text)) 0;
         Some (matches, st) } })"

text \<open>The first half of \<^verbatim>\<open>rl_complete_internal\<close>: what is left for insertion and display.\<close>

definition completion_list :: "completer \<Rightarrow> nat \<Rightarrow> nat \<Rightarrow> bool \<Rightarrow> char \<Rightarrow> rl_state \<Rightarrow> (strvec option \<times> rl_state) option" where
  "completion_list c start fin found_quote quote_char st = (
     let text = substring (rl_line_buffer c) start fin in do {
       (matches, st) \<leftarrow> gen_completion_matches c text start fin found_quote quote_char (set_completion_defaults st);
       matches \<leftarrow> postprocess_matches c st matches (filename_completion_desired st);
       Some (matches, st) })"

end
