(* ===== verification/CompleteSpec.thy ===== *)
theory CompleteSpec
  imports Complete "HOL-Library.Multiset" "HOL-Library.List_Lexorder" "HOL-Library.Char_ord"
begin

text \<open>
  The matches that completion offers: the common prefix that is computed from neighbours is the longest common prefix
  of all matches, duplicates are removed, and in command-line mode the completion function is asked about the whole
  line and nothing but its answers is offered.
\<close>

subsection \<open>Reading and writing slots\<close>

lemma ptr_at_append [simp]: "ptr_at (pre @ Ptr s # rest) (length pre) = Some s"
  by (simp add: ptr_at_def)

lemma ptr_at_0 [simp]: "ptr_at (Ptr s # rest) 0 = Some s"
  by (simp add: ptr_at_def)

lemma ptr_at_Suc [simp]: "ptr_at (x # a) (Suc i) = ptr_at a i"
  by (simp add: ptr_at_def)

lemma strs_from_block: "strs_from (pre @ map Ptr xs @ rest) (length pre) (length xs) = Some xs"
proof (induction xs arbitrary: pre)
  case (Cons x xs)
  from Cons.IH [of "pre @ [Ptr x]"] show ?case by simp
qed simp

lemma put_at: "put (pre @ x # rest) (int (length pre)) y = Some (pre @ y # rest)"
  by simp

lemma put_strs_block: "length ys = length xs \<Longrightarrow> put_strs (pre @ map Ptr xs @ rest) (length pre) ys = Some (pre @ map Ptr ys @ rest)"
proof (induction ys arbitrary: pre xs)
  case (Cons y ys)
  then obtain x xs' where xs: "xs = x # xs'" by (cases xs) auto
  then show ?case using Cons.IH [of xs' "pre @ [Ptr y]"] Cons.prems by simp
qed simp

text \<open>Slots behind slot 0, where the matches are.\<close>

lemma strs_from_1: "strs_from (x # map Ptr xs @ rest) 1 (length xs) = Some xs"
  using strs_from_block [of "[x]" xs rest] by simp

lemma put_strs_1: "length ys = length xs \<Longrightarrow> put_strs (x # map Ptr xs @ rest) 1 ys = Some (x # map Ptr ys @ rest)"
  using put_strs_block [of ys xs "[x]" rest] by simp

subsection \<open>The common prefix\<close>

lemma lcd_loop_le: "k \<le> lcd_loop (\<lambda>ch. ch) s t \<longleftrightarrow> k \<le> length s \<and> k \<le> length t \<and> take k s = take k t"
proof (induction s arbitrary: t k)
  case (Cons c s)
  then show ?case by (cases t; cases k) auto
qed auto

primrec neighbours_low :: "string list \<Rightarrow> nat \<Rightarrow> nat" where
  "neighbours_low [] low = low"
| "neighbours_low (x # xs) low = (case xs of [] \<Rightarrow> low | y # ys \<Rightarrow> neighbours_low xs (min low (lcd_loop (\<lambda>ch. ch) x y)))"

lemma neighbours_low_le:
  "k \<le> neighbours_low (x # xs) low \<longleftrightarrow> k \<le> low \<and> (xs \<noteq> [] \<longrightarrow> (\<forall>y \<in> set (x # xs). k \<le> length y \<and> take k y = take k x))"
proof (induction xs arbitrary: x low)
  case (Cons y xs)
  then show ?case by (cases xs) (auto simp: lcd_loop_le)
qed simp

lemma low_loop_neighbours:
  "low_loop (\<lambda>ch. ch) (pre @ map Ptr (x # xs) @ rest) (length pre) (length xs) low = Some (neighbours_low (x # xs) low)"
proof (induction xs arbitrary: pre x low)
  case (Cons y xs)
  have "low_loop (\<lambda>ch. ch) ((pre @ [Ptr x]) @ map Ptr (y # xs) @ rest) (length (pre @ [Ptr x])) (length xs) low' = Some (neighbours_low (y # xs) low')" for low'
    by (rule Cons.IH)
  then show ?case by (simp add: min_def ptr_at_def nth_append Let_def)
qed simp

lemma prefix_take: "prefix p y \<Longrightarrow> k \<le> length p \<Longrightarrow> take k y = take k p \<and> k \<le> length y"
  by (auto simp: prefix_def)

lemma common_prefix:
  assumes "xs \<noteq> []"
  shows "neighbours_low (x # xs) low = min low (length (Longest_common_prefix (set (x # xs))))"
    and "take (neighbours_low (x # xs) low) x = take low (Longest_common_prefix (set (x # xs)))"
proof -
  define P where "P = Longest_common_prefix (set (x # xs))"
  let ?m = "neighbours_low (x # xs) low"
  have pre: "prefix P y" if "y \<in> set (x # xs)" for y unfolding P_def using that by (rule Longest_common_prefix_prefix)
  have "take (min low (length P)) y = take (min low (length P)) P \<and> min low (length P) \<le> length y" if "y \<in> set (x # xs)" for y
    using prefix_take [OF pre [OF that]] by simp
  then have ge: "min low (length P) \<le> ?m" unfolding neighbours_low_le by simp
  have m: "?m \<le> low \<and> (\<forall>y \<in> set (x # xs). ?m \<le> length y \<and> take ?m y = take ?m x)"
    using neighbours_low_le [of ?m x xs low] assms by simp
  then have "prefix (take ?m x) y" if "y \<in> set (x # xs)" for y using that by (metis take_is_prefix)
  then have "prefix (take ?m x) P" unfolding P_def by (intro Longest_common_prefix_max_prefix) auto
  moreover have "?m \<le> length x" using m by auto
  ultimately have le: "?m \<le> length P" by (metis length_take min.absorb2 prefix_length_le)
  show eq: "?m = min low (length (Longest_common_prefix (set (x # xs))))" using ge le m unfolding P_def by linarith
  have "take ?m x = take ?m P" using prefix_take [OF pre [of x] le] by simp
  then show "take ?m x = take low (Longest_common_prefix (set (x # xs)))" unfolding eq P_def by (simp add: min_def)
qed

subsection \<open>Collecting the matches\<close>

text \<open>The text to insert for several matches, and the whole list.\<close>

definition lcd_text :: "string \<Rightarrow> string list \<Rightarrow> string" where
  "lcd_text text ms = (let p = Longest_common_prefix (set ms) in if p = [] then text else take 100000 p)"

definition match_strings :: "string \<Rightarrow> string list \<Rightarrow> string list" where
  "match_strings text ms = (if length ms = 1 then ms else lcd_text text ms # ms)"

lemma compute_lcd_block:
  assumes "ms \<noteq> []" and "\<not> completion_case_fold c"
  shows "\<exists>a. compute_lcd_of_matches c st (x # map Ptr ms @ Null # rest) (length ms) text = Some a \<and> holds a (match_strings text ms)"
proof (cases "length ms = 1")
  case True
  then obtain m where "ms = [m]" by (cases ms) auto
  then show ?thesis by (auto simp: compute_lcd_of_matches_def match_strings_def holds_def)
next
  case False
  then obtain m ms' where ms: "ms = m # ms'" "ms' \<noteq> []" using assms(1) by (cases ms) auto
  have low: "low_loop (\<lambda>ch. ch) (x # map Ptr ms @ Null # rest) 1 (length ms - 1) 100000 = Some (neighbours_low ms 100000)"
    using low_loop_neighbours [of "[x]" m ms' "Null # rest" 100000] ms by simp
  have n: "neighbours_low ms 100000 = min 100000 (length (Longest_common_prefix (set ms)))"
    "take (neighbours_low ms 100000) m = take 100000 (Longest_common_prefix (set ms))"
    using common_prefix [OF ms(2), of m 100000] ms(1) by simp_all
  have h: "holds (Ptr s # map Ptr ms @ Null # rest) (s # ms)" for s by (auto simp: holds_def)
  have "compute_lcd_of_matches c st (x # map Ptr ms @ Null # rest) (length ms) text = Some (Ptr (lcd_text text ms) # map Ptr ms @ Null # rest)"
    unfolding compute_lcd_of_matches_def using False low assms(2) n by (auto simp: ms(1) lcd_text_def Let_def)
  then show ?thesis using h False by (simp add: match_strings_def)
qed

lemma match_loop_collects:
  assumes "length ml = sz0 + 1" and "k + 1 \<le> sz0" and "ml = x # map Ptr (take k ms) @ Null # rest" and "k \<le> length ms" and "k = 0 \<or> g = k"
  shows "\<exists>rest'. match_loop (prog_complete_return ms) g ml sz0 k = Some (x # map Ptr ms @ Null # rest', length ms)"
  using assms
proof (induction "length ms - k" arbitrary: k g ml sz0 rest)
  case 0
  then show ?case by (subst match_loop.simps) (auto simp: prog_complete_return_def)
next
  case (Suc d)
  then have k: "k < length ms" "prog_complete_return ms g k = (Some (ms ! k), k + 1)" by (auto simp: prog_complete_return_def)
  define grow where "grow = (k + 1 \<ge> sz0)"
  define sz where "sz = (if grow then sz0 + 10 else sz0)"
  define big where "big = (if grow then ml @ replicate 10 Undef else ml)"
  obtain r where big: "big = x # map Ptr (take k ms) @ Null # r" using Suc.prems(3) by (cases grow) (auto simp: big_def)
  have len: "length big = sz + 1" "k + 2 \<le> sz" using Suc.prems by (auto simp: big_def sz_def grow_def)
  have lr: "length r = sz - 1 - k" using len big k by simp
  then obtain y r' where r: "r = y # r'" using len by (cases r) auto
  have p1: "put big (int (k + 1)) (Ptr (ms ! k)) = Some (x # map Ptr (take (k + 1) ms) @ r)"
    using put_at [of "x # map Ptr (take k ms)" Null r "Ptr (ms ! k)"] k(1) by (simp add: big take_Suc_conv_app_nth)
  have p2: "put (x # map Ptr (take (k + 1) ms) @ r) (int (k + 2)) Null = Some (x # map Ptr (take (k + 1) ms) @ Null # r')"
    using put_at [of "x # map Ptr (take (k + 1) ms)" y r' Null] k(1) by (simp add: r)
  have "\<exists>rest'. match_loop (prog_complete_return ms) (k + 1) (x # map Ptr (take (k + 1) ms) @ Null # r') sz (k + 1) = Some (x # map Ptr ms @ Null # rest', length ms)"
  proof (rule Suc.hyps(1))
    show "d = length ms - (k + 1)" using Suc.hyps(2) by simp
    show "length (x # map Ptr (take (k + 1) ms) @ Null # r') = sz + 1" using len lr r k(1) by simp
  qed (use len k(1) in auto)
  moreover have "match_loop (prog_complete_return ms) g ml sz0 k = match_loop (prog_complete_return ms) (k + 1) (x # map Ptr (take (k + 1) ms) @ Null # r') sz (k + 1)"
    using p1 p2 k(2) by (subst match_loop.simps) (cases grow; simp add: big_def sz_def; simp add: grow_def)
  ultimately show ?case by simp
qed

lemma completion_matches_list:
  assumes "\<not> completion_case_fold c"
  shows "if ms = [] then rl_completion_matches c st text (prog_complete_return ms) g = Some None
    else \<exists>a. rl_completion_matches c st text (prog_complete_return ms) g = Some (Some a) \<and> holds a (match_strings text ms)"
proof -
  define ml where "ml = Undef # Null # replicate 9 Undef"
  have ml: "put (replicate 11 Undef) 1 Null = Some ml" by (simp add: ml_def numeral_eq_Suc)
  obtain rest where l: "match_loop (prog_complete_return ms) g ml 10 0 = Some (Undef # map Ptr ms @ Null # rest, length ms)"
    using match_loop_collects [of ml 10 0 Undef ms "replicate 9 Undef" g] by (auto simp: ml_def)
  show ?thesis
    using compute_lcd_block [of ms c st Undef rest "text"] assms ml l by (auto simp: rl_completion_matches_def)
qed


subsection \<open>Duplicates\<close>

definition live :: "(string \<times> bool) list \<Rightarrow> string list" where
  "live slots = map fst (filter (\<lambda>(_, dead). \<not> dead) slots)"

lemma live_simps [simp]: "live [] = []" "live ((s, d) # slots) = (if d then live slots else s # live slots)" "live (xs @ ys) = live xs @ live ys"
  by (simp_all add: live_def)

lemma live_dead_slots: "live (dead_slots xs) = remdups_adj xs"
  by (induction xs rule: dead_slots.induct) auto

lemma tl_dead_slots: "tl (dead_slots (l # xs)) = dead_slots xs"
  by (cases xs) auto

lemma dead_slots_Nil [simp]: "dead_slots xs = [] \<longleftrightarrow> xs = []"
  by (cases xs rule: dead_slots.cases) auto

lemma live_butlast: "xs \<noteq> [] \<Longrightarrow> live (butlast (dead_slots xs)) @ [last xs] = remdups_adj xs"
proof (induction xs rule: dead_slots.induct)
  case (1 x y xs)
  then show ?case by (cases "x = y") simp_all
qed auto

lemma remdups_adj_tail: "length (remdups_adj xs) \<le> length (remdups_adj (l # xs))"
  by (cases xs) auto

lemma copy_live_block:
  "length (live slots) \<le> length rest \<Longrightarrow>
     copy_live slots (pre @ rest) (length pre) = Some (pre @ map Ptr (live slots) @ drop (length (live slots)) rest, length pre + length (live slots))"
proof (induction slots arbitrary: pre rest)
  case (Cons sd slots)
  obtain s d where sd: "sd = (s, d)" by (cases sd)
  show ?case
  proof (cases d)
    case False
    then obtain r rest' where rest: "rest = r # rest'" using Cons.prems sd by (cases rest) auto
    have "copy_live slots ((pre @ [Ptr s]) @ rest') (length (pre @ [Ptr s])) =
      Some ((pre @ [Ptr s]) @ map Ptr (live slots) @ drop (length (live slots)) rest', length (pre @ [Ptr s]) + length (live slots))"
      using Cons.prems sd False rest by (intro Cons.IH) auto
    then show ?thesis using False sd rest by simp
  qed (use Cons sd in auto)
qed simp

text \<open>What is left of the list: the first string, and the others without the repeated ones; the first alone when they are all equal to it.\<close>

definition unique_strings :: "string \<Rightarrow> string list \<Rightarrow> string list" where
  "unique_strings l ms = (if remdups_adj ms = [l] then [l] else l # remdups_adj ms)"

lemma remove_duplicates_block:
  assumes "holds a (l # ms)" and "\<And>xs. length (qsort c xs) = length xs"
  shows "\<exists>b. remove_duplicate_matches c a = Some b \<and> holds b (unique_strings l (if sort_completion_matches c then qsort c ms else ms))"
proof -
  define ms' where "ms' = (if sort_completion_matches c then qsort c ms else ms)"
  obtain rest where a: "a = Ptr l # map Ptr ms @ Null # rest" using assms(1) by (auto simp: holds_def)
  define b where "b = Ptr l # map Ptr ms' @ Null # rest"
  have len: "strvec_len a = Some (Suc (length ms))" using strvec_len_holds [OF assms(1)] by simp
  have lm: "length ms' = length ms" using assms(2) by (simp add: ms'_def)
  have sorted: "(if Suc (length ms) \<noteq> 0 \<and> sort_completion_matches c then sort_slots c a 1 (Suc (length ms) - 1) else Some a) = Some b"
    using strs_from_1 [of "Ptr l" ms "Null # rest"] put_strs_1 [of "qsort c ms" ms "Ptr l" "Null # rest"] assms(2)
    by (simp add: sort_slots_def a b_def ms'_def)
  have strs: "strs_from b 0 (Suc (length ms)) = Some (l # ms')"
    using strs_from_block [of "[]" "l # ms'" "Null # rest"] lm by (simp add: b_def)
  define newlen where "newlen = length (filter (\<lambda>(_, dead). \<not> dead) (butlast (dead_slots (l # ms'))))"
  let ?u = "remdups_adj ms'"
  have "length (live (butlast (dead_slots (l # ms')))) + 1 = length (remdups_adj (l # ms'))"
    using arg_cong [OF live_butlast [of "l # ms'"], of length] by simp
  then have n: "length ?u \<le> newlen + 1" using remdups_adj_tail [of ms' l] by (simp add: newlen_def live_def)
  define blk :: strvec where "blk = replicate (2 + newlen) Undef"
  define rs where "rs = drop (length ?u) blk"
  have rep: "replicate (3 + newlen) Undef = [Undef] @ blk" by (simp add: blk_def numeral_eq_Suc)
  have bl: "length blk = 2 + newlen" by (simp add: blk_def)
  have cp: "copy_live (dead_slots ms') (replicate (3 + newlen) Undef) 1 = Some (Undef # map Ptr ?u @ rs, 1 + length ?u)"
    using copy_live_block [of "dead_slots ms'" blk "[Undef]"] n bl unfolding rep by (simp add: live_dead_slots rs_def)
  have "length rs \<noteq> 0" using n bl by (simp add: rs_def)
  then obtain r rs' where rs: "rs = r # rs'" by (cases rs) auto
  have p: "put (Undef # map Ptr ?u @ rs) (int (1 + length ?u)) Null = Some (Undef # map Ptr ?u @ Null # rs')"
    using put_at [of "Undef # map Ptr ?u" r rs' Null] by (simp add: rs)
  have first: "ptr_at b 0 = Some l" by (simp add: b_def)
  have head: "put (Undef # map Ptr ?u @ Null # rs') 0 (Ptr l) = Some (Ptr l # map Ptr ?u @ Null # rs')" by simp
  have r: "remove_duplicate_matches c a = (if 1 + length ?u = 2 then do {
       s \<leftarrow> ptr_at (Ptr l # map Ptr ?u @ Null # rs') 1;
       if l = s then put (Ptr l # map Ptr ?u @ Null # rs') 1 Null else Some (Ptr l # map Ptr ?u @ Null # rs') }
     else Some (Ptr l # map Ptr ?u @ Null # rs'))"
    unfolding remove_duplicate_matches_def
    by (simp only: len Option.bind.bind_lunit sorted first strs Let_def tl_dead_slots newlen_def [symmetric] cp prod.case p head)
  show ?thesis
  proof (cases "length ?u = 1")
    case True
    then obtain m where m: "?u = [m]" by (cases ?u) auto
    then have "remove_duplicate_matches c a = Some (if l = m then Ptr l # Null # Null # rs' else Ptr l # Ptr m # Null # rs')"
      using r by simp
    then show ?thesis using m by (auto simp: unique_strings_def holds_def ms'_def [symmetric])
  next
    case False
    then show ?thesis using r by (auto simp: unique_strings_def holds_def ms'_def [symmetric])
  qed
qed


definition offered :: "completer \<Rightarrow> string \<Rightarrow> string list \<Rightarrow> string list" where
  "offered c text ms = (if length ms = 1 then ms
     else unique_strings (lcd_text text ms) (if sort_completion_matches c then qsort c ms else ms))"

lemma offered_block:
  assumes "holds a (match_strings text ms)" and "ms \<noteq> []" and "\<And>xs. length (qsort c xs) = length xs"
  shows "\<exists>b. remove_duplicate_matches c a = Some b \<and> holds b (offered c text ms)"
proof (cases "length ms = 1")
  case True
  then obtain m where m: "ms = [m]" by (cases ms) auto
  have e: "(if sort_completion_matches c then qsort c [] else []) = []" using assms(3) [of "[]"] by simp
  show ?thesis using remove_duplicates_block [of a m "[]" c] assms(1,3) m unfolding e by (simp add: match_strings_def offered_def unique_strings_def)
next
  case False
  then show ?thesis using remove_duplicates_block [of a "lcd_text text ms" ms c] assms(1,3) by (simp add: match_strings_def offered_def)
qed

text \<open>
  What the library function promises: its result has the same strings, and, for the comparison \<^verbatim>\<open>strcoll\<close> of a locale whose collating
  order is \<^term>\<open>le\<close>, they are in that order.
\<close>

definition permutes :: "(string list \<Rightarrow> string list) \<Rightarrow> bool" where
  "permutes q \<longleftrightarrow> (\<forall>xs. mset (q xs) = mset xs)"

definition sorts :: "(string \<Rightarrow> string \<Rightarrow> bool) \<Rightarrow> (string list \<Rightarrow> string list) \<Rightarrow> bool" where
  "sorts le q \<longleftrightarrow> (\<forall>xs. sorted_wrt le (q xs))"

lemma permutes_length: "permutes q \<Longrightarrow> length (q xs) = length xs"
  by (metis permutes_def size_mset)

lemma permutes_set: "permutes q \<Longrightarrow> set (q xs) = set xs"
  by (metis permutes_def set_mset_mset)

lemma sorted_wrt_remdups_adj: "sorted_wrt le xs \<Longrightarrow> sorted_wrt le (remdups_adj xs)"
proof (induction xs rule: remdups_adj.induct)
  case (3 x y xs)
  then show ?case by (cases "x = y") (auto simp del: remdups_adj.simps simp: remdups_adj.simps(3))
qed auto

lemma sorted_wrt_distinct: "antisymp le \<Longrightarrow> sorted_wrt le xs \<Longrightarrow> distinct (remdups_adj xs)"
proof (induction xs rule: remdups_adj.induct)
  case (3 x y xs)
  show ?case
  proof (cases "x = y")
    case False
    then have "x \<notin> set (y # xs)" using 3(3,4) by (auto dest: antisympD)
    then show ?thesis using 3 False by (simp del: remdups_adj.simps add: remdups_adj.simps(3))
  qed (use 3 in simp)
qed auto

text \<open>
  What is to be offered for the answers of a completion function: a single answer alone; otherwise the text to insert first, and
  behind it every answer once and in order, unless all answers are that text.
\<close>

definition answers_offered :: "(string \<Rightarrow> string \<Rightarrow> bool) \<Rightarrow> string \<Rightarrow> string list \<Rightarrow> string list \<Rightarrow> bool" where
  "answers_offered le text ms strs \<longleftrightarrow> (if length ms = 1 then strs = ms else if set ms = {lcd_text text ms} then strs = [lcd_text text ms]
     else strs \<noteq> [] \<and> hd strs = lcd_text text ms \<and> set (tl strs) = set ms \<and> distinct (tl strs) \<and> sorted_wrt le (tl strs))"

lemma offered_answers:
  assumes "permutes (qsort c)" and "sorts le (qsort c)" and "antisymp le" and "sort_completion_matches c"
  shows "answers_offered le text ms (offered c text ms)"
proof -
  let ?l = "lcd_text text ms" and ?u = "remdups_adj (qsort c ms)"
  have u: "set ?u = set ms" "distinct ?u" "sorted_wrt le ?u"
    using permutes_set [OF assms(1), of ms] sorted_wrt_distinct [OF assms(3), of "qsort c ms"] sorted_wrt_remdups_adj [of le "qsort c ms"] assms(2)
    by (simp_all add: sorts_def)
  then have "?u = [?l] \<longleftrightarrow> set ms = {?l}" by (cases ?u) (auto simp: subset_singleton_iff)
  then show ?thesis using u assms(4) by (auto simp: answers_offered_def offered_def unique_strings_def)
qed

subsection \<open>Dropping matches\<close>

lemma null_at_holds: "holds a (x # xs) \<Longrightarrow> null_at a 0 = Some False \<and> (0 < length a)"
  by (auto simp: holds_def null_at_def)

lemma null_at_second: "holds a (x # xs) \<Longrightarrow> null_at a 1 = Some (xs = [])"
  by (cases xs) (auto simp: holds_def null_at_def)

lemma matches_end_holds: "holds a (x # xs) \<Longrightarrow> matches_end a = Some (Suc (length xs))"
  using strvec_len_holds [of "tl a" xs] by (auto simp: matches_end_def holds_def)

lemma ptr_at_first: "holds a (x # xs) \<Longrightarrow> ptr_at a 0 = Some x"
  by (auto simp: holds_def)

lemma strs_from_holds: "holds a (x # xs) \<Longrightarrow> strs_from a 1 (length xs) = Some xs"
  using strs_from_1 by (auto simp: holds_def)

lemma ignore_everything_empties:
  assumes "holds a (x # xs)" and "force_fignore c"
  shows "\<exists>b. call_ignore c bash_ignore_everything a = Some b \<and> null_at b 0 = Some True"
proof -
  have p: "put a 0 Null = Some (a[0 := Null])" "null_at (a[0 := Null]) 0 = Some True"
    using null_at_holds [OF assms(1)] by (auto simp: null_at_def)
  have len: "strvec_len a = Some (Suc (length xs))" using strvec_len_holds [OF assms(1)] by simp
  show ?thesis
    using assms(2) null_at_second [OF assms(1)] ptr_at_first [OF assms(1)] strs_from_holds [OF assms(1)] p len
    by (cases "xs = []") (simp_all add: call_ignore_def ignore_completion_names_def)
qed

lemma offered_Cons: "ms \<noteq> [] \<Longrightarrow> \<exists>x xs. offered c text ms = x # xs"
  by (cases ms) (auto simp: offered_def unique_strings_def)

lemma postprocess_files_dropped:
  assumes "holds a (match_strings text ms)" and "ms \<noteq> []" and "\<And>xs. length (qsort c xs) = length xs"
    and "ignore_completion_duplicates c" and "force_fignore c" and "ignore_some_completions_function st = bash_ignore_everything"
  shows "postprocess_matches c st (Some a) True = Some None"
proof -
  obtain b where b: "remove_duplicate_matches c a = Some b" "holds b (offered c text ms)" using offered_block assms(1-3) by blast
  obtain x xs where o: "offered c text ms = x # xs" using offered_Cons [OF assms(2)] by blast
  show ?thesis
    using ignore_everything_empties [of b x xs c] matches_end_holds [of b x xs] b o assms by (auto simp: postprocess_matches_def)
qed

lemma postprocess_kept:
  assumes "holds a (match_strings text ms)" and "ms \<noteq> []" and "\<And>xs. length (qsort c xs) = length xs"
    and "ignore_completion_duplicates c" and "ignore_some_completions_function st = filename_completion_ignore" and "fignore_acceptable c = None"
  shows "\<exists>b. postprocess_matches c st (Some a) files = Some (Some b) \<and> holds b (offered c text ms)"
proof -
  obtain b where b: "remove_duplicate_matches c a = Some b" "holds b (offered c text ms)" using offered_block assms(1-3) by blast
  obtain x xs where o: "offered c text ms = x # xs" using offered_Cons [OF assms(2)] by blast
  then show ?thesis
    using null_at_holds [of b x xs] matches_end_holds [of b x xs] b assms by (auto simp: postprocess_matches_def call_ignore_def)
qed


subsection \<open>Command-line mode\<close>

text \<open>What the application side is set up to be: command-line mode, file names not to be kept, the usual variables of readline.\<close>

definition cli_completer :: "completer \<Rightarrow> bool" where
  "cli_completer c \<longleftrightarrow> cli_mode c \<and> force_fignore c \<and> fignore_acceptable c = None \<and> \<not> completion_case_fold c \<and>
     ignore_completion_duplicates c \<and> permutes (qsort c) \<and> (rl_line_buffer c \<noteq> [] \<longrightarrow> hd (rl_line_buffer c) \<notin> set COMMAND_SEPARATORS)"

lemma command_position_total:
  assumes "rl_line_buffer c \<noteq> [] \<longrightarrow> hd (rl_line_buffer c) \<notin> set COMMAND_SEPARATORS"
  shows "\<exists>p. command_position c text fin ti = Some p"
proof -
  have "NUL \<notin> set COMMAND_SEPARATORS" by (simp add: COMMAND_SEPARATORS_def)
  then have "char_at (rl_line_buffer c) 0 \<notin> set COMMAND_SEPARATORS" using assms by (cases "rl_line_buffer c") auto
  then have "char_at (rl_line_buffer c) (ti - 1) \<in> set COMMAND_SEPARATORS \<Longrightarrow> \<exists>r. check_redir c (ti - 1) = Some r"
    by (cases "ti - 1 = 0") (auto simp: check_redir_def Let_def)
  then show ?thesis
    by (cases "ti = 0"; cases "char_at (rl_line_buffer c) (ti - 1) \<in> set COMMAND_SEPARATORS") (auto simp: command_position_def Let_def)
qed

lemma pcomp_keeps [simp]:
  "ignore_some_completions_function (pcomp_set_readline_variables f b st) = ignore_some_completions_function st"
  by (simp add: pcomp_set_readline_variables_def Let_def)

text \<open>The two ways the driver leaves readline: with the matches of the specification, or with none and nothing to follow.\<close>

definition settled :: "string \<Rightarrow> string list \<Rightarrow> strvec option \<times> rl_state \<Rightarrow> bool" where
  "settled text ms r \<longleftrightarrow> (if ms \<noteq> [] then (\<exists>a. fst r = Some a \<and> holds a (match_strings text ms)) \<and>
       ignore_some_completions_function (snd r) = filename_completion_ignore
     else fst r = None \<and> (attempted_completion_over (snd r) \<or> ignore_some_completions_function (snd r) = bash_ignore_everything))"

lemma attempt_settled:
  assumes "cli_completer c" and "\<And>p. prompt_is_ps1 c \<Longrightarrow> \<exists>q. ask_progcomp c text start fin p = Some (ms, found, q)"
    and "\<not> prompt_is_ps1 c \<Longrightarrow> found = 0" and "found AND COPT_DEFAULT = 0"
  shows "\<exists>r. attempt_shell_completion c text start fin st = Some r \<and> settled text (if found = 0 then [] else ms) r"
proof -
  obtain ti qc where bw: "before_word (rl_line_buffer c) start = (ti, qc)" by (cases "before_word (rl_line_buffer c) start")
  obtain p where p: "command_position c text fin ti = Some p" using command_position_total [of c "text" fin ti] assms(1) by (auto simp: cli_completer_def)
  have cli: "cli_mode c" "\<not> completion_case_fold c" using assms(1) by (auto simp: cli_completer_def)
  show ?thesis
  proof (cases "prompt_is_ps1 c")
    case True
    then obtain q where q: "ask_progcomp c text start fin p = Some (ms, found, q)" using assms(2) by blast
    show ?thesis
      using completion_matches_list [OF cli(2), of ms "pcomp_set_readline_variables found True (st\<lparr>ignore_some_completions_function := filename_completion_ignore\<rparr>)" "text" 0]
        True bw p q cli assms(4)
      by (cases "found = 0"; cases "ms = []") (auto simp: attempt_shell_completion_def bash_default_completion_def settled_def Let_def)
  next
    case False
    then show ?thesis
      using bw p cli assms(3) by (simp add: attempt_shell_completion_def bash_default_completion_def settled_def Let_def)
  qed
qed

lemma postprocess_None [simp]: "postprocess_matches c st None files = Some None"
  by (simp add: postprocess_matches_def)

lemma settled_list:
  assumes "cli_completer c" and "\<exists>r. attempt_shell_completion c text start fin (st0\<lparr>completion_found_quote := fq, completion_quote_character := qch\<rparr>) = Some r \<and> settled text ms r"
    and "text = substring (rl_line_buffer c) start fin" and "st0 = set_completion_defaults st"
  shows "\<exists>r st'. completion_list c start fin fq qch st = Some (r, st') \<and> (if ms = [] then r = None else \<exists>b. r = Some b \<and> holds b (offered c text ms))"
proof -
  have q: "\<And>xs. length (qsort c xs) = length xs" and d: "ignore_completion_duplicates c" and f: "force_fignore c" "fignore_acceptable c = None" "\<not> completion_case_fold c"
    using assms(1) permutes_length by (auto simp: cli_completer_def)
  obtain m s where r: "attempt_shell_completion c text start fin (st0\<lparr>completion_found_quote := fq, completion_quote_character := qch\<rparr>) = Some (m, s)" "settled text ms (m, s)"
    using assms(2) by fastforce
  show ?thesis
  proof (cases "ms = [] \<and> \<not> attempted_completion_over s")
    case True
    then have m: "m = None" "ignore_some_completions_function s = bash_ignore_everything" using r(2) by (auto simp: settled_def)
    let ?s = "s\<lparr>filename_completion_desired := True\<rparr>" and ?fs = "rl_filename_completions c text"
    have g: "gen_completion_matches c text start fin fq qch st0 = do { x \<leftarrow> rl_completion_matches c ?s text (prog_complete_return ?fs) 0; Some (x, ?s) }"
      using r(1) m True by (simp add: gen_completion_matches_def Let_def)
    show ?thesis
      using completion_matches_list [OF f(3), of ?fs ?s "text" 0] postprocess_files_dropped [OF _ _ q d f(1), of _ "text" ?fs ?s] g m True assms(3,4)
      by (cases "?fs = []") (auto simp: completion_list_def Let_def)
  next
    case False
    then have g: "gen_completion_matches c text start fin fq qch st0 = Some (m, s\<lparr>attempted_completion_over := False\<rparr>)"
      using r by (auto simp: gen_completion_matches_def settled_def split: if_splits)
    show ?thesis
    proof (cases "ms = []")
      case True
      then show ?thesis using g r(2) assms(3,4) by (auto simp: completion_list_def Let_def settled_def)
    next
      case ms: False
      then obtain a where a: "m = Some a" "holds a (match_strings text ms)" "ignore_some_completions_function s = filename_completion_ignore"
        using r(2) by (auto simp: settled_def)
      then obtain b where "postprocess_matches c (s\<lparr>attempted_completion_over := False\<rparr>) m (filename_completion_desired s) = Some (Some b)"
        "holds b (offered c text ms)"
        using postprocess_kept [OF a(2) ms q d _ f(2), of "s\<lparr>attempted_completion_over := False\<rparr>" "filename_completion_desired s"] by auto
      then show ?thesis using g ms assms(3,4) by (auto simp: completion_list_def Let_def)
    qed
  qed
qed


definition word_delimiters :: string where
  "word_delimiters = ''()<>;&| '' @ [CHR 0x09, CHR 0x0A]"

text \<open>The first word of the line, which names the command the completion specification is looked up for.\<close>

definition first_blanks :: "completer \<Rightarrow> nat" where
  "first_blanks c = length (takeWhile whitespace (rl_line_buffer c))"

definition first_command :: "completer \<Rightarrow> string" where
  "first_command c = substring (rl_line_buffer c) (first_blanks c) (skip_to_delim c (first_blanks c) word_delimiters)"

lemma cmd_name_first:
  assumes "\<not> assignment c (first_command c)"
  shows "cmd_name_loop c 0 = Some (first_command c, first_blanks c, skip_to_delim c (first_blanks c) word_delimiters)"
  using assms by (subst cmd_name_loop.simps) (simp add: find_cmd_name_def first_command_def first_blanks_def word_delimiters_def Let_def)

lemma progcomp_choice_command: "fst (progcomp_choice c text start fin p n s1 e1 e) = fst (progcomp_choice c text start fin p' n s1 e1 e)"
  unfolding progcomp_choice_def Let_def if_distrib [of fst] fst_conv by (rule refl)

lemma ask_command:
  assumes "cli_mode c" and "\<not> assignment c (first_command c)"
  shows "\<exists>cmd. \<forall>p. \<exists>q. ask_progcomp c text start fin p = Some (case cmd of None \<Rightarrow> ([], 0, q)
    | Some cmd \<Rightarrow> (let (ms, found) = programmable_completions c cmd text (first_blanks c) (length (rl_line_buffer c)) in (ms, found, q)))"
proof -
  let ?choice = "\<lambda>p. progcomp_choice c text start fin p (first_command c) (first_blanks c) (skip_to_delim c (first_blanks c) word_delimiters) (length (rl_line_buffer c))"
  have "\<exists>q. ask_progcomp c text start fin p = Some (case fst (?choice False) of None \<Rightarrow> ([], 0, q)
    | Some cmd \<Rightarrow> (let (ms, found) = programmable_completions c cmd text (first_blanks c) (length (rl_line_buffer c)) in (ms, found, q)))" for p
  proof -
    obtain k q where "?choice p = (k, q)" by fastforce
    moreover from this have "k = fst (?choice False)" using progcomp_choice_command by (metis fst_conv)
    ultimately show ?thesis
      using assms by (intro exI [of _ q]) (simp add: ask_progcomp_def find_cmd_start_def find_cmd_end_def cmd_name_first Let_def)
  qed
  then show ?thesis by blast
qed

lemma ask_whole_line:
  assumes "cli_mode c" and "\<not> assignment c (first_command c)" and "have_progcomps c" and "first_blanks c < start" and "start \<le> length (rl_line_buffer c)"
    and "programmable_completions c (first_command c) text (first_blanks c) (length (rl_line_buffer c)) = (ms, found)"
  shows "\<exists>q. ask_progcomp c text start fin p = Some (ms, found, q)"
proof -
  have "progcomp_choice c text start fin p (first_command c) (first_blanks c) e1 (length (rl_line_buffer c)) = (Some (first_command c), False)" for e1
    using assms by (simp add: progcomp_choice_def Let_def)
  then show ?thesis using assms by (auto simp: ask_progcomp_def find_cmd_start_def find_cmd_end_def cmd_name_first Let_def)
qed

lemma ask_somewhere:
  assumes "cli_mode c" and "\<not> assignment c (first_command c)"
  shows "\<exists>ms found. (\<forall>p. \<exists>q. ask_progcomp c text start fin p = Some (ms, found, q)) \<and>
    (found = 0 \<or> (\<exists>cmd s e. programmable_completions c cmd text s e = (ms, found)))"
proof -
  obtain cmd where cmd: "\<forall>p. \<exists>q. ask_progcomp c text start fin p = Some (case cmd of None \<Rightarrow> ([], 0, q)
    | Some cmd \<Rightarrow> (let (ms, found) = programmable_completions c cmd text (first_blanks c) (length (rl_line_buffer c)) in (ms, found, q)))"
    using ask_command [OF assms] by blast
  show ?thesis
  proof (cases cmd)
    case (Some n)
    obtain ms found where "programmable_completions c n text (first_blanks c) (length (rl_line_buffer c)) = (ms, found)" by fastforce
    then show ?thesis using cmd Some by (intro exI [of _ ms] exI [of _ found]) auto
  qed (use cmd in auto)
qed

lemma offered_from:
  "permutes (qsort c) \<Longrightarrow> ms \<noteq> [] \<Longrightarrow> hd (offered c text ms) \<in> insert (lcd_text text ms) (set ms) \<and> set (tl (offered c text ms)) \<subseteq> set ms"
  using permutes_set [of "qsort c" ms] by (cases ms) (auto simp: offered_def unique_strings_def)

lemma whole_line_list:
  assumes "cli_completer c" and "prompt_is_ps1 c" and "have_progcomps c" and "\<not> assignment c (first_command c)"
    and "first_blanks c < start" and "start \<le> length (rl_line_buffer c)"
    and "programmable_completions c (first_command c) (substring (rl_line_buffer c) start fin) (first_blanks c) (length (rl_line_buffer c)) = (ms, found)"
    and "found AND COPT_DEFAULT = 0"
  shows "\<exists>r st'. completion_list c start fin fq qch st = Some (r, st') \<and>
    (if found = 0 \<or> ms = [] then r = None else \<exists>b. r = Some b \<and> holds b (offered c (substring (rl_line_buffer c) start fin) ms))"
proof -
  have cli: "cli_mode c" using assms(1) by (simp add: cli_completer_def)
  have "\<exists>q. ask_progcomp c (substring (rl_line_buffer c) start fin) start fin p = Some (ms, found, q)" for p
    using ask_whole_line [OF cli assms(4,3,5-7)] .
  from settled_list [OF assms(1) attempt_settled [OF assms(1) this _ assms(8)] refl refl, of fq qch st] assms(2)
  show ?thesis by (auto split: if_splits)
qed

text \<open>
  C4. In command-line mode completion asks about the whole line: when the word to complete is behind the first word of the
  line, the completion function is called for the first word with the bounds of the line, whatever command separators
  the line has behind it, and completion offers exactly its answers: a single answer alone; otherwise the longest common prefix (cut at 100000
  characters, the word itself when there is none) first and then the answers in collating order without repetition. When there are no
  answers, nothing is offered.

  This is stated for a completer that \<^const>\<open>cli_completer\<close> describes: the variable that turns command-line mode on is set, \<^verbatim>\<open>force_fignore\<close>
  is on, there is no \<^verbatim>\<open>FIGNORE\<close>, case is not folded, duplicates are dropped, \<^verbatim>\<open>qsort\<close> permutes, and the line does not start with a
  command separator. Further: the primary prompt is shown, there are completion specifications, the first word is no assignment, the word to complete
  starts behind the blanks before the first word and within the line, the completion function does not ask for the default completion
  (\<^verbatim>\<open>COPT_DEFAULT\<close>), \<^verbatim>\<open>rl_sort_completion_matches\<close> is on and \<^verbatim>\<open>qsort\<close> sorts by an antisymmetric collating order.
\<close>

theorem cli_completion_asks_whole_line:
  assumes "cli_completer c" and "prompt_is_ps1 c" and "have_progcomps c" and "\<not> assignment c (first_command c)"
    and "first_blanks c < start" and "start \<le> length (rl_line_buffer c)"
    and "programmable_completions c (first_command c) (substring (rl_line_buffer c) start fin) (first_blanks c) (length (rl_line_buffer c)) = (ms, found)"
    and "found AND COPT_DEFAULT = 0" and "sort_completion_matches c" and "sorts le (qsort c)" and "antisymp le"
  shows "\<exists>r st'. completion_list c start fin fq qch st = Some (r, st') \<and>
    (if found = 0 \<or> ms = [] then r = None
     else \<exists>b strs. r = Some b \<and> holds b strs \<and> answers_offered le (substring (rl_line_buffer c) start fin) ms strs)"
proof -
  have "permutes (qsort c)" using assms(1) by (simp add: cli_completer_def)
  then show ?thesis
    using whole_line_list [OF assms(1-8), of fq qch st] offered_answers [OF _ assms(10,11,9), of "substring (rl_line_buffer c) start fin" ms]
    by (auto split: if_splits)
qed

text \<open>
  C15. In command-line mode nothing but the answers of completion functions is offered: wherever the cursor is and
  whichever prompt is shown, completion ends, and every string it offers is one that a completion function returned for this word, besides
  the first one, which is an answer or the text that stands for all of them (\<^const>\<open>lcd_text\<close>). File names, which readline turns to when there are
  no matches, are generated and dropped again.

  This is stated for a completer that \<^const>\<open>cli_completer\<close> describes (command-line mode, \<^verbatim>\<open>force_fignore\<close> on, no \<^verbatim>\<open>FIGNORE\<close>, case not folded,
  duplicates dropped, \<^verbatim>\<open>qsort\<close> permutes, and a line that does not start with a command separator: lemma \<open>separator_first_read\<close> shows
  what happens there), a first word that is no assignment, and completion functions that never ask for the default completion.
\<close>

theorem cli_completion_offers_answers_only:
  assumes "cli_completer c" and "\<not> assignment c (first_command c)" and "\<And>cmd w s e. snd (programmable_completions c cmd w s e) AND COPT_DEFAULT = 0"
  shows "\<exists>r st'. completion_list c start fin fq qch st = Some (r, st') \<and>
    (\<forall>b. r = Some b \<longrightarrow> (\<exists>cmd s e ms strs. ms = fst (programmable_completions c cmd (substring (rl_line_buffer c) start fin) s e) \<and> holds b strs \<and>
      strs \<noteq> [] \<and> hd strs \<in> insert (lcd_text (substring (rl_line_buffer c) start fin) ms) (set ms) \<and> set (tl strs) \<subseteq> set ms))"
proof -
  let ?text = "substring (rl_line_buffer c) start fin"
  have cli: "cli_mode c" "permutes (qsort c)" using assms(1) by (auto simp: cli_completer_def)
  obtain ms found where a: "\<forall>p. \<exists>q. ask_progcomp c ?text start fin p = Some (ms, found, q)"
    "found = 0 \<or> (\<exists>cmd s e. programmable_completions c cmd ?text s e = (ms, found))"
    using ask_somewhere [OF cli(1) assms(2)] by blast
  define f where "f = (if prompt_is_ps1 c then found else 0)"
  have "f AND COPT_DEFAULT = 0" using a(2) assms(3) by (auto simp: f_def) (metis snd_conv)
  then have "\<exists>r. attempt_shell_completion c ?text start fin s = Some r \<and> settled ?text (if f = 0 then [] else ms) r" for s
    using a(1) by (intro attempt_settled [OF assms(1)]) (auto simp: f_def)
  from settled_list [OF assms(1) this refl refl, of fq qch st]
  obtain r st' where r: "completion_list c start fin fq qch st = Some (r, st')"
    "if (if f = 0 then [] else ms) = [] then r = None else \<exists>b. r = Some b \<and> holds b (offered c ?text (if f = 0 then [] else ms))" by blast
  show ?thesis
  proof (intro exI [of _ r] exI [of _ st'] conjI allI impI)
    show "completion_list c start fin fq qch st = Some (r, st')" by (rule r(1))
    fix b assume b: "r = Some b"
    then have f: "f \<noteq> 0" "ms \<noteq> []" "holds b (offered c ?text ms)" using r(2) by (auto split: if_splits)
    moreover obtain cmd s e where "programmable_completions c cmd ?text s e = (ms, found)" using a(2) f(1) by (auto simp: f_def split: if_splits)
    moreover have "offered c ?text ms \<noteq> []" using offered_Cons [OF f(2), of c "?text"] by auto
    ultimately show "\<exists>cmd s e ms strs. ms = fst (programmable_completions c cmd ?text s e) \<and> holds b strs \<and>
      strs \<noteq> [] \<and> hd strs \<in> insert (lcd_text ?text ms) (set ms) \<and> set (tl strs) \<subseteq> set ms"
      using offered_from [OF cli(2) f(2), of "?text"]
      by (intro exI [of _ cmd] exI [of _ s] exI [of _ e] exI [of _ ms] exI [of _ "offered c ?text ms"]) simp
  qed
qed


subsection \<open>An example\<close>

lemma permutes_sort: "permutes sort"
  by (simp add: permutes_def)

lemma sorts_sort: "sorts (\<le>) sort"
  by (simp add: sorts_def)

definition sample_answers :: "string list" where
  "sample_answers = [''interfaces'', ''interface'', ''interfaces'']"

definition sample_completer :: completer where
  "sample_completer = \<lparr>env = [''CLI_MODE'' \<mapsto> ''exec''], rl_line_buffer = '' show x | int'', prompt_is_ps1 = True, parser_in_command_position = False,
     char_is_quoted = (\<lambda>_. False), unclosed_pair = (\<lambda>_ _. False),
     skip_to_delim = (\<lambda>i d. i + length (takeWhile (\<lambda>ch. ch \<notin> set d) (drop i '' show x | int''))),
     assignment = (\<lambda>_. False), have_progcomps = True,
     programmable_completions = (\<lambda>cmd w s e. if cmd = ''show'' \<and> s = 1 \<and> e = 13 then (sample_answers, 1) else ([], 0)),
     command_subst_completions = (\<lambda>_. []), shell_default_completion = (\<lambda>_ _ _ _ _ st. Some (None, st)),
     rl_filename_completions = (\<lambda>_. [''interfaces.txt'']), fignore_acceptable = None, test_for_directory = (\<lambda>_. False), force_fignore = True,
     completion_case_fold = False, sort_completion_matches = True, ignore_completion_duplicates = True,
     qsort = sort, filename_dequoting_function = None\<rparr>"

definition initial_rl :: rl_state where
  "initial_rl = \<lparr>attempted_completion_over = False, filename_completion_desired = False, filename_quoting_desired = True,
     completion_suppress_append = False, completion_quote_character = NUL, completion_found_quote = False,
     ignore_some_completions_function = filename_completion_ignore\<rparr>"

lemma sample_nonempty: "sample_answers \<noteq> []"
  by (simp add: sample_answers_def)

lemma sample_cli: "cli_completer sample_completer"
  by (simp add: cli_completer_def sample_completer_def cli_mode_def permutes_sort COMMAND_SEPARATORS_def)

lemma sample_first: "first_blanks sample_completer = 1" "first_command sample_completer = ''show''"
  by (simp_all add: first_command_def first_blanks_def sample_completer_def word_delimiters_def substring_def whitespace_def)

lemma sample_prefix: "Longest_common_prefix (set sample_answers) = ''interface''"
proof (rule Longest_common_prefix_eq)
  show "\<forall>qs. (\<forall>xs \<in> set sample_answers. prefix qs xs) \<longrightarrow> length qs \<le> length ''interface''"
    using prefix_length_le [of _ "''interface''"] by (auto simp: sample_answers_def)
qed (auto simp: sample_answers_def)

lemma sample_offered: "offered sample_completer ''int'' sample_answers = [''interface'', ''interface'', ''interfaces'']"
proof -
  have "sort sample_answers = [''interface'', ''interfaces'', ''interfaces'']" by code_simp
  then show ?thesis by (simp add: offered_def unique_strings_def lcd_text_def sample_prefix) (simp add: sample_completer_def sample_answers_def)
qed

lemmas sample_setting = sample_cli sample_first sample_offered sample_nonempty

lemma sample_facts:
  "substring (rl_line_buffer sample_completer) 10 13 = ''int''" "length (rl_line_buffer sample_completer) = 13"
  "prompt_is_ps1 sample_completer" "have_progcomps sample_completer" "\<not> assignment sample_completer w"
  "programmable_completions sample_completer ''show'' ''int'' 1 13 = (sample_answers, 1)" "sort_completion_matches sample_completer"
  "sorts (\<le>) (qsort sample_completer)"
  by (simp_all add: sample_completer_def substring_def sorts_sort)

lemma answers_offered_unique:
  assumes "answers_offered (\<le>) text ms xs" and "answers_offered (\<le>) text ms ys"
  shows "xs = ys"
proof (cases "length ms = 1 \<or> set ms = {lcd_text text ms}")
  case False
  then have "xs \<noteq> []" "ys \<noteq> []" "hd xs = hd ys" "set (tl xs) = set (tl ys)" "distinct (tl xs)" "distinct (tl ys)" "sorted (tl xs)" "sorted (tl ys)"
    using assms by (simp_all add: answers_offered_def)
  then show ?thesis by (metis list.expand sorted_distinct_set_unique)
qed (use assms in \<open>auto simp: answers_offered_def split: if_splits\<close>)

lemma sample_answers_offered: "answers_offered (\<le>) ''int'' sample_answers strs \<longleftrightarrow> strs = [''interface'', ''interface'', ''interfaces'']"
proof -
  have "permutes (qsort sample_completer)" using sample_cli by (simp add: cli_completer_def)
  from offered_answers [OF this sample_facts(8) antisymp_on_le sample_facts(7), of "''int''" sample_answers]
  have "answers_offered (\<le>) ''int'' sample_answers [''interface'', ''interface'', ''interfaces'']" by (simp only: sample_offered)
  then show ?thesis using answers_offered_unique by blast
qed

theorem cli_completion_asks_whole_line_witness:
  "\<exists>r st'. completion_list sample_completer 10 13 False NUL initial_rl = Some (r, st') \<and> (\<exists>b. r = Some b \<and> holds b [''interface'', ''interface'', ''interfaces''])"
  using cli_completion_asks_whole_line [OF sample_cli, of 10 13 sample_answers 1 "(\<le>)" False NUL initial_rl]
  by (simp del: One_nat_def add: sample_setting sample_facts sample_answers_offered COPT_DEFAULT_def antisymp_on_le)

lemma sample_list: "\<exists>b st'. completion_list sample_completer 10 13 False NUL initial_rl = Some (Some b, st')"
  using whole_line_list [OF sample_cli, of 10 13 sample_answers 1 False NUL initial_rl]
  by (auto simp del: One_nat_def simp: sample_setting sample_facts COPT_DEFAULT_def)

theorem cli_completion_offers_answers_only_witness:
  "\<exists>b st'. completion_list sample_completer 10 13 False NUL initial_rl = Some (Some b, st') \<and>
    (\<exists>cmd s e ms strs. ms = fst (programmable_completions sample_completer cmd ''int'' s e) \<and> holds b strs \<and>
      strs \<noteq> [] \<and> hd strs \<in> insert (lcd_text ''int'' ms) (set ms) \<and> set (tl strs) \<subseteq> set ms)"
proof -
  have "snd (programmable_completions sample_completer cmd w s e) AND COPT_DEFAULT = 0" for cmd w s e
    by (simp add: sample_completer_def COPT_DEFAULT_def)
  from cli_completion_offers_answers_only [OF sample_cli sample_facts(5) this, of 10 13 False NUL initial_rl] sample_list
  show ?thesis by (auto simp: sample_facts(1))
qed


text \<open>A separator at the start of the line makes the driver read the character before the line.\<close>

lemma separator_first_read:
  assumes "rl_line_buffer c = ''|x''"
  shows "attempt_shell_completion c ''x'' 1 2 st = None"
  using assms by (simp add: attempt_shell_completion_def before_word_def command_position_def check_redir_def Let_def COMMAND_SEPARATORS_def char_at_def whitespace_def)

text \<open>Behind an assignment that ends the line, the search for the command name reads behind the terminator.\<close>

lemma assignment_last_read:
  assumes "skip_to_delim c 0 word_delimiters = length (rl_line_buffer c)" and "first_blanks c = 0" and "assignment c (rl_line_buffer c)"
  shows "cmd_name_loop c 0 = None"
proof -
  have "find_cmd_name c 0 = Some (rl_line_buffer c, 0, length (rl_line_buffer c))"
    using assms by (simp add: find_cmd_name_def first_blanks_def word_delimiters_def substring_def Let_def)
  moreover have "cmd_name_loop c (Suc (length (rl_line_buffer c))) = None"
    by (subst cmd_name_loop.simps) (simp add: find_cmd_name_def)
  ultimately show ?thesis using assms(3) by (subst cmd_name_loop.simps) simp
qed

text \<open>Without \<^verbatim>\<open>force_fignore\<close> the list of file names is left as it is.\<close>

lemma files_kept_without_force:
  assumes "holds a (x # xs)" and "\<not> force_fignore c"
  shows "call_ignore c bash_ignore_everything a = Some a"
  using assms null_at_second [OF assms(1)] strs_from_holds [OF assms(1)] strvec_len_holds [OF assms(1)]
  by (cases "xs = []") (simp_all add: call_ignore_def ignore_completion_names_def)

end
