(* ===== verification/LineEdit.thy ===== *)
theory LineEdit
  imports History "HOL-Library.Monad_Syntax"
begin

text \<open>
  The editing of the input line in readline: the line buffer and its primitive changes
  (\<^verbatim>\<open>lib/readline/text.c\<close>, \<^verbatim>\<open>util.c\<close>), the undo list (\<^verbatim>\<open>undo.c\<close>), the kill ring (\<^verbatim>\<open>kill.c\<close>) and the
  commands built from them, in a single-byte locale (\<^verbatim>\<open>MB_CUR_MAX == 1\<close>, \<^verbatim>\<open>iswalnum\<close> and the case
  conversions on ASCII).

  \<open>rl_line_buffer\<close> is the whole allocated block; a read or write outside it, and the use of a null
  or undefined pointer, has the value \<open>None\<close>. The bytes of newly allocated memory are given by the
  function \<open>fresh_bytes\<close>. An undo entry carries its address \<open>uaddr\<close>, by which history entries point to
  it; addresses are handed out in order and 0 is the null pointer. \<^verbatim>\<open>rl_ding\<close> and the display are not
  part of the state. \<^verbatim>\<open>_rl_abort_internal\<close>, which jumps to the top level, is only reached in tail
  position and is modelled by the flag \<open>aborted\<close>. Positions are unbounded integers: a line of two
  gigabytes is not considered.
\<close>

subsection \<open>State\<close>

datatype undo_code = UNDO_DELETE | UNDO_INSERT | UNDO_BEGIN | UNDO_END

record undo_entry =
  uaddr :: nat
  what :: undo_code
  ustart :: int
  uend :: int
  utext :: "string option"

datatype edit_func =
    Forward_byte | Backward_byte | Beg_of_line | End_of_line | Forward_word | Backward_word
  | Insert char | Rubout | Delete | Rubout_or_delete | Delete_horizontal_space
  | Upcase_word | Downcase_word | Capitalize_word | Transpose_words | Transpose_chars
  | Set_mark | Exchange_point_and_mark
  | Kill_word | Backward_kill_word | Kill_line | Backward_kill_line | Kill_full_line
  | Unix_word_rubout | Unix_filename_rubout | Unix_line_discard
  | Copy_region_to_kill | Kill_region | Copy_forward_word | Copy_backward_word | Yank | Yank_pop
  | Undo_command | Revert_line

record editor =
  rl_line_buffer :: string
  rl_line_buffer_len :: int
  rl_point :: int
  rl_end :: int
  rl_mark :: int
  rl_undo_list :: "undo_entry list"
  doing_an_undo :: bool
  undo_group_level :: int
  next_address :: nat
  rl_kill_ring :: "string option list option"
  rl_kill_index :: int
  rl_kill_ring_length :: int
  last_command_was_kill :: int
  rl_explicit_arg :: bool
  rl_last_func :: "edit_func option"
  vi_mode :: bool
  vi_movement_keymap :: bool
  rl_insert_mode :: bool
  allow_pathname_alphabetic_chars :: bool
  output_meta_chars :: bool
  macro_input :: bool
  pushed_input :: string
  self_insert :: "char \<Rightarrow> bool"
  aborted :: bool
  hist :: history
  fresh_bytes :: "nat \<Rightarrow> char"

text \<open>The values of the C functions: the new state and the integer returned. A command that returns a
  constant gives only the new state.\<close>

type_synonym edit_result = "(editor \<times> int) option"

subsection \<open>Blocks of memory\<close>

definition load_at :: "'a list \<Rightarrow> int \<Rightarrow> 'a option" where
  "load_at b i = (if 0 \<le> i \<and> nat i < length b then Some (b ! nat i) else None)"

definition store_at :: "'a list \<Rightarrow> int \<Rightarrow> 'a \<Rightarrow> 'a list option" where
  "store_at b i x = (if 0 \<le> i \<and> nat i < length b then Some (b[nat i := x]) else None)"

text \<open>The C string that starts at an index: it has to be terminated inside the block.\<close>

definition c_str :: "string \<Rightarrow> int \<Rightarrow> string option" where
  "c_str b i = (if 0 \<le> i \<and> NUL \<in> set (drop (nat i) b) then Some (takeWhile (\<lambda>c. c \<noteq> NUL) (drop (nat i) b)) else None)"

text \<open>\<^verbatim>\<open>strncpy\<close> from an index of the block: it stops reading at a NUL.\<close>

definition copy_bytes :: "string \<Rightarrow> int \<Rightarrow> int \<Rightarrow> string option" where
  "copy_bytes b i n =
     (let str = takeWhile (\<lambda>c. c \<noteq> NUL) (take (nat n) (drop (nat i) b))
      in if (i < 0 \<and> 0 < n) \<or> (length str < nat n \<and> length b \<le> nat i + length str) then None else Some str)"

definition put_bytes :: "string \<Rightarrow> int \<Rightarrow> string \<Rightarrow> string option" where
  "put_bytes b i str =
     (if 0 \<le> i \<and> nat i + length str \<le> length b
      then Some (take (nat i) b @ str @ drop (nat i + length str) b) else None)"

text \<open>\<^verbatim>\<open>for (i = rl_end; i >= rl_point; i--) rl_line_buffer[i + l] = rl_line_buffer[i]\<close>, and
  \<^verbatim>\<open>for (i = from; i < ...; i++) rl_line_buffer[i] = rl_line_buffer[i + diff]\<close>, with the number of
  rounds.\<close>

fun move_up :: "nat \<Rightarrow> int \<Rightarrow> int \<Rightarrow> 'a list \<Rightarrow> 'a list option" where
  "move_up 0 i l b = Some b"
| "move_up (Suc k) i l b = do { c \<leftarrow> load_at b i; b \<leftarrow> store_at b (i + l) c; move_up k (i - 1) l b }"

fun move_down :: "nat \<Rightarrow> int \<Rightarrow> int \<Rightarrow> 'a list \<Rightarrow> 'a list option" where
  "move_down 0 i d b = Some b"
| "move_down (Suc k) i d b = do { c \<leftarrow> load_at b (i + d); b \<leftarrow> store_at b i c; move_down k (i + 1) d b }"

definition resize :: "(nat \<Rightarrow> 'a) \<Rightarrow> nat \<Rightarrow> 'a list \<Rightarrow> 'a list" where
  "resize fresh n b = take n b @ map fresh [length b..<n]"

definition DEFAULT_BUFFER_SIZE :: int where [cdefs]: "DEFAULT_BUFFER_SIZE = 256"

function extend_loop :: "(nat \<Rightarrow> char) \<Rightarrow> int \<Rightarrow> int \<Rightarrow> string \<Rightarrow> int \<times> string" where
  "extend_loop fresh len n b =
     (if len \<ge> n then
        extend_loop fresh len (n + DEFAULT_BUFFER_SIZE) (resize fresh (nat (n + DEFAULT_BUFFER_SIZE)) b)
      else (n, b))"
  by pat_completeness auto
termination by (relation "measure (\<lambda>(_, len, n, _). nat (len + 1 - n))") (auto simp: DEFAULT_BUFFER_SIZE_def)

declare extend_loop.simps [simp del]

definition rl_extend_line_buffer :: "int \<Rightarrow> editor \<Rightarrow> editor" where
  "rl_extend_line_buffer len s =
     (let (n, b) = extend_loop (fresh_bytes s) len (rl_line_buffer_len s) (rl_line_buffer s)
      in s\<lparr>rl_line_buffer := b, rl_line_buffer_len := n\<rparr>)"

definition rl_copy_text :: "int \<Rightarrow> int \<Rightarrow> editor \<Rightarrow> string option" where
  "rl_copy_text from to s =
     (if from > to then copy_bytes (rl_line_buffer s) to (from - to)
      else copy_bytes (rl_line_buffer s) from (to - from))"

subsection \<open>The undo list\<close>

text \<open>\<^verbatim>\<open>rl_undo_list\<close> as a pointer.\<close>

definition undo_ptr :: "undo_entry list \<Rightarrow> nat" where
  "undo_ptr us = (case us of [] \<Rightarrow> 0 | u # _ \<Rightarrow> uaddr u)"

definition rl_add_undo :: "undo_code \<Rightarrow> int \<Rightarrow> int \<Rightarrow> string option \<Rightarrow> editor \<Rightarrow> editor" where
  "rl_add_undo w a e t s =
     s\<lparr>rl_undo_list := \<lparr>uaddr = next_address s, what = w, ustart = a, uend = e, utext = t\<rparr> # rl_undo_list s,
       next_address := next_address s + 1\<rparr>"

definition rl_free_undo_list :: "editor \<Rightarrow> editor" where
  "rl_free_undo_list s =
     s\<lparr>rl_undo_list := [], hist := replace_history_data (-1) (undo_ptr (rl_undo_list s)) 0 (hist s)\<rparr>"

fun copy_undo_list :: "undo_entry list \<Rightarrow> editor \<Rightarrow> editor \<times> undo_entry list" where
  "copy_undo_list [] s = (s, [])"
| "copy_undo_list (u # us) s =
     (let c = u\<lparr>uaddr := next_address s\<rparr>;
          (s, cs) = copy_undo_list us (s\<lparr>next_address := next_address s + 1\<rparr>)
      in (s, c # cs))"

fun fix_last_undo_of_type :: "undo_code \<Rightarrow> int \<Rightarrow> int \<Rightarrow> undo_entry list \<Rightarrow> undo_entry list \<times> int" where
  "fix_last_undo_of_type w a e [] = ([], 1)"
| "fix_last_undo_of_type w a e (u # us) =
     (if what u = w then (u\<lparr>ustart := a, uend := e\<rparr> # us, 0)
      else let (us, r) = fix_last_undo_of_type w a e us in (u # us, r))"

definition rl_begin_undo_group :: "editor \<Rightarrow> editor" where
  "rl_begin_undo_group s =
     (let s = rl_add_undo UNDO_BEGIN 0 0 None s in s\<lparr>undo_group_level := undo_group_level s + 1\<rparr>)"

definition rl_end_undo_group :: "editor \<Rightarrow> editor" where
  "rl_end_undo_group s =
     (let s = rl_add_undo UNDO_END 0 0 None s in s\<lparr>undo_group_level := undo_group_level s - 1\<rparr>)"

definition rl_modifying :: "int \<Rightarrow> int \<Rightarrow> editor \<Rightarrow> editor option" where
  "rl_modifying start end1 s =
     (let (a, e) = (if start > end1 then (end1, start) else (start, end1))
      in if a \<noteq> e then
           do {
             temp \<leftarrow> rl_copy_text a e s;
             let s = rl_begin_undo_group s;
             let s = rl_add_undo UNDO_DELETE a e (Some temp) s;
             let s = rl_add_undo UNDO_INSERT a e None s;
             Some (rl_end_undo_group s)
           }
         else Some s)"

subsection \<open>Inserting and deleting\<close>

definition remember_insert :: "int \<Rightarrow> editor \<Rightarrow> editor" where
  "remember_insert l s =
     (case rl_undo_list s of
        u # us \<Rightarrow>
          if l = 1 \<and> what u = UNDO_INSERT \<and> uend u = rl_point s \<and> uend u - ustart u < 20
          then s\<lparr>rl_undo_list := u\<lparr>uend := uend u + 1\<rparr> # us\<rparr>
          else rl_add_undo UNDO_INSERT (rl_point s) (rl_point s + l) None s
      | [] \<Rightarrow> rl_add_undo UNDO_INSERT (rl_point s) (rl_point s + l) None s)"

definition rl_insert_text :: "string \<Rightarrow> editor \<Rightarrow> edit_result" where
  "rl_insert_text string s =
     (let l = int (length string)
      in if l = 0 then Some (s, 0)
         else
           let s = (if rl_end s + l \<ge> rl_line_buffer_len s then rl_extend_line_buffer (rl_end s + l) s else s)
           in do {
             b \<leftarrow> move_up (nat (rl_end s - rl_point s + 1)) (rl_end s) l (rl_line_buffer s);
             b \<leftarrow> put_bytes b (rl_point s) string;
             let s = (if doing_an_undo s then s else remember_insert l s);
             b \<leftarrow> store_at b (rl_end s + l) NUL;
             Some (s\<lparr>rl_line_buffer := b, rl_point := rl_point s + l, rl_end := rl_end s + l\<rparr>, l)
           })"

definition delete_bounds :: "int \<Rightarrow> int \<Rightarrow> editor \<Rightarrow> int \<times> int" where
  "delete_bounds from to s =
     (let (from, to) = (if from > to then (to, from) else (from, to));
          (from, to) = (if to > rl_end s then (if from > rl_end s then rl_end s else from, rl_end s) else (from, to))
      in (if from < 0 then 0 else from, to))"

definition rl_delete_text :: "int \<Rightarrow> int \<Rightarrow> editor \<Rightarrow> edit_result" where
  "rl_delete_text from to s =
     (let (from, to) = delete_bounds from to s; diff = to - from
      in do {
        text1 \<leftarrow> rl_copy_text from to s;
        b \<leftarrow> move_down (nat (rl_end s - diff - from)) from diff (rl_line_buffer s);
        let s = (if doing_an_undo s then s else rl_add_undo UNDO_DELETE from to (Some text1) s);
        b \<leftarrow> store_at b (rl_end s - diff) NUL;
        Some (s\<lparr>rl_line_buffer := b, rl_end := rl_end s - diff\<rparr>, diff)
      })"

definition fix_pos :: "int \<Rightarrow> editor \<Rightarrow> int" where
  "fix_pos x s = (if x > rl_end s then rl_end s else if x < 0 then 0 else x)"

definition rl_fix_point :: "bool \<Rightarrow> editor \<Rightarrow> editor" where
  "rl_fix_point fix_mark_too s =
     (let s = s\<lparr>rl_point := fix_pos (rl_point s) s\<rparr>
      in if fix_mark_too then s\<lparr>rl_mark := fix_pos (rl_mark s) s\<rparr> else s)"

definition rl_replace_text :: "string \<Rightarrow> int \<Rightarrow> int \<Rightarrow> editor \<Rightarrow> edit_result" where
  "rl_replace_text text1 start end1 s =
     do {
       let s = rl_begin_undo_group s;
       (s, _) \<leftarrow> (if start \<le> end1 then rl_delete_text start (end1 + 1) s else Some (s, 0));
       let s = s\<lparr>rl_point := start\<rparr>;
       (s, n) \<leftarrow> (if text1 \<noteq> [] then rl_insert_text text1 s else Some (s, 0));
       Some (rl_end_undo_group s, n)
     }"

definition rl_replace_line :: "string \<Rightarrow> bool \<Rightarrow> editor \<Rightarrow> editor option" where
  "rl_replace_line text1 clear_undo s =
     (let len = int (length text1);
          s = (if len \<ge> rl_line_buffer_len s then rl_extend_line_buffer len s else s)
      in do {
        b \<leftarrow> put_bytes (rl_line_buffer s) 0 (text1 @ [NUL]);
        let s = s\<lparr>rl_line_buffer := b, rl_end := len\<rparr>;
        let s = (if clear_undo then rl_free_undo_list s else s);
        Some (rl_fix_point True s)
      })"

text \<open>\<^verbatim>\<open>_rl_init_line_state\<close> on the buffer of a new line.\<close>

definition init_line_state :: "editor \<Rightarrow> editor option" where
  "init_line_state s =
     do { b \<leftarrow> store_at (rl_line_buffer s) 0 NUL; Some (s\<lparr>rl_point := 0, rl_end := 0, rl_mark := 0, rl_line_buffer := b\<rparr>) }"

subsection \<open>Undoing\<close>

definition TRANS :: "int \<Rightarrow> editor \<Rightarrow> int" where
  "TRANS i s = (if i = -1 then rl_point s else if i = -2 then rl_end s else i)"

text \<open>The change of one entry, with the number of groups that are still open.\<close>

definition undo_change :: "undo_entry \<Rightarrow> nat \<Rightarrow> editor \<Rightarrow> (editor \<times> nat) option" where
  "undo_change u waiting_for_begin s =
     (case what u of
        UNDO_DELETE \<Rightarrow>
          do {
            let s = s\<lparr>rl_point := TRANS (ustart u) s\<rparr>;
            (s, _) \<leftarrow> (case utext u of None \<Rightarrow> Some (s, 0) | Some t \<Rightarrow> rl_insert_text t s);
            Some (s, waiting_for_begin)
          }
      | UNDO_INSERT \<Rightarrow>
          (let start = TRANS (ustart u) s; end1 = TRANS (uend u) s
           in do {
             (s, _) \<leftarrow> rl_delete_text start end1 s;
             Some (s\<lparr>rl_point := start\<rparr>, waiting_for_begin)
           })
      | UNDO_END \<Rightarrow> Some (s, waiting_for_begin + 1)
      | UNDO_BEGIN \<Rightarrow> Some (s, waiting_for_begin - 1))"

text \<open>The change is replicated in the history entry being edited.\<close>

definition undo_history :: "undo_entry \<Rightarrow> undo_entry list \<Rightarrow> string \<Rightarrow> history \<Rightarrow> history option" where
  "undo_history release us b h =
     do {
       cur \<leftarrow> current_history h;
       h \<leftarrow> (case cur of
           HEntry e \<Rightarrow>
             if hdata e \<noteq> 0 \<and> hdata e = uaddr release then
               do {
                 ln \<leftarrow> c_str b 0;
                 (h, temp) \<leftarrow> replace_history_entry (where_history h) ln (undo_ptr us) h;
                 (case temp of None \<Rightarrow> None | Some _ \<Rightarrow> Some h)
               }
             else Some h
         | _ \<Rightarrow> Some h);
       Some (replace_history_data (-1) (uaddr release) (undo_ptr us) h)
     }"

fun undo_loop :: "undo_entry list \<Rightarrow> nat \<Rightarrow> editor \<Rightarrow> edit_result" where
  "undo_loop [] waiting_for_begin s = Some (s, 0)"
| "undo_loop (u # us) waiting_for_begin s =
     do {
       (s, w) \<leftarrow> undo_change u waiting_for_begin (s\<lparr>doing_an_undo := True\<rparr>);
       h \<leftarrow> undo_history u us (rl_line_buffer s) (hist s);
       let s = s\<lparr>doing_an_undo := False, rl_undo_list := us, hist := h\<rparr>;
       (if w \<noteq> 0 then undo_loop us w s else Some (s, 1))
     }"

definition rl_do_undo :: "editor \<Rightarrow> edit_result" where
  "rl_do_undo s = undo_loop (rl_undo_list s) 0 s"

text \<open>\<^verbatim>\<open>while (rl_undo_list) rl_do_undo ()\<close>: every round removes an entry, so the length of the list bounds
  the rounds.\<close>

fun revert_loop :: "nat \<Rightarrow> editor \<Rightarrow> editor option" where
  "revert_loop 0 s = (if rl_undo_list s = [] then Some s else None)"
| "revert_loop (Suc k) s = (if rl_undo_list s = [] then Some s else do { (s, _) \<leftarrow> rl_do_undo s; revert_loop k s })"

definition rl_revert_line :: "editor \<Rightarrow> edit_result" where
  "rl_revert_line s =
     (if rl_undo_list s = [] then Some (s, 0)
      else
        do {
          s \<leftarrow> revert_loop (length (rl_undo_list s)) s;
          Some (if vi_mode s then s\<lparr>rl_point := 0, rl_mark := 0\<rparr> else s, 0)
        })"

fun undo_times :: "nat \<Rightarrow> editor \<Rightarrow> editor option" where
  "undo_times 0 s = Some s"
| "undo_times (Suc k) s = do { (s, r) \<leftarrow> rl_do_undo s; (if r \<noteq> 0 then undo_times k s else Some s) }"

definition rl_undo_command :: "int \<Rightarrow> editor \<Rightarrow> edit_result" where
  "rl_undo_command count s =
     (if count < 0 then Some (s, 0) else do { s \<leftarrow> undo_times (nat count) s; Some (s, 0) })"

subsection \<open>Moving\<close>

definition VI_COMMAND_MODE :: "editor \<Rightarrow> bool" where
  "VI_COMMAND_MODE s \<longleftrightarrow> vi_mode s \<and> vi_movement_keymap s"

definition forward_to :: "int \<Rightarrow> editor \<Rightarrow> editor" where
  "forward_to count s =
     (let end1 = rl_point s + count;
          lend = (if rl_end s > 0 then rl_end s - (if VI_COMMAND_MODE s then 1 else 0) else rl_end s)
      in if end1 > lend then s\<lparr>rl_point := lend\<rparr> else s\<lparr>rl_point := end1\<rparr>)"

definition backward_to :: "int \<Rightarrow> editor \<Rightarrow> editor" where
  "backward_to count s =
     (if rl_point s < count then s\<lparr>rl_point := 0\<rparr> else s\<lparr>rl_point := rl_point s - count\<rparr>)"

definition rl_forward_byte :: "int \<Rightarrow> editor \<Rightarrow> editor" where
  "rl_forward_byte count s =
     (if count < 0 then
        (let s = backward_to (- count) s in if rl_point s < 0 then s\<lparr>rl_point := 0\<rparr> else s)
      else
        (let s = (if count > 0 then forward_to count s else s) in if rl_end s < 0 then s\<lparr>rl_end := 0\<rparr> else s))"

definition rl_backward_byte :: "int \<Rightarrow> editor \<Rightarrow> editor" where
  "rl_backward_byte count s =
     (if count < 0 then rl_forward_byte (- count) s
      else
        (let s = (if count > 0 then backward_to count s else s) in if rl_point s < 0 then s\<lparr>rl_point := 0\<rparr> else s))"

definition rl_beg_of_line :: "editor \<Rightarrow> editor" where
  "rl_beg_of_line s = s\<lparr>rl_point := 0\<rparr>"

definition rl_end_of_line :: "editor \<Rightarrow> editor" where
  "rl_end_of_line s = s\<lparr>rl_point := rl_end s\<rparr>"

definition iswalnum :: "char \<Rightarrow> bool" where
  "iswalnum c \<longleftrightarrow> (48 \<le> uchar c \<and> uchar c \<le> 57) \<or> (65 \<le> uchar c \<and> uchar c \<le> 90) \<or> (97 \<le> uchar c \<and> uchar c \<le> 122)"

definition pathname_alphabetic_chars :: string where
  "pathname_alphabetic_chars = ''/-_=~.#$''"

text \<open>\<^verbatim>\<open>strchr\<close> finds the terminator too, so a byte whose low seven bits are zero belongs to the set.\<close>

definition walphabetic :: "editor \<Rightarrow> char \<Rightarrow> bool" where
  "walphabetic s c \<longleftrightarrow>
     iswalnum c \<or>
     (allow_pathname_alphabetic_chars s \<and> (uchar c AND 127) \<in> uchar ` set (NUL # pathname_alphabetic_chars))"

text \<open>The loops over the line: forward from \<open>i\<close> and backward from the byte before \<open>i\<close> to the next byte
  with \<open>P\<close>, in at most \<open>k\<close> rounds.\<close>

fun scan_forward :: "(char \<Rightarrow> bool) \<Rightarrow> nat \<Rightarrow> int \<Rightarrow> string \<Rightarrow> int option" where
  "scan_forward P 0 i b = Some i"
| "scan_forward P (Suc k) i b = do { c \<leftarrow> load_at b i; (if P c then Some i else scan_forward P k (i + 1) b) }"

fun scan_backward :: "(char \<Rightarrow> bool) \<Rightarrow> nat \<Rightarrow> int \<Rightarrow> string \<Rightarrow> int option" where
  "scan_backward P 0 i b = (if i < 0 then None else Some i)"
| "scan_backward P (Suc k) i b = do { c \<leftarrow> load_at b (i - 1); (if P c then Some i else scan_backward P k (i - 1) b) }"

definition forward_scan :: "(char \<Rightarrow> bool) \<Rightarrow> editor \<Rightarrow> editor option" where
  "forward_scan P s =
     do { p \<leftarrow> scan_forward P (nat (rl_end s - rl_point s)) (rl_point s) (rl_line_buffer s); Some (s\<lparr>rl_point := p\<rparr>) }"

definition backward_scan :: "(char \<Rightarrow> bool) \<Rightarrow> editor \<Rightarrow> editor option" where
  "backward_scan P s =
     do { p \<leftarrow> scan_backward P (nat (rl_point s)) (rl_point s) (rl_line_buffer s); Some (s\<lparr>rl_point := p\<rparr>) }"

fun forward_words :: "nat \<Rightarrow> editor \<Rightarrow> editor option" where
  "forward_words 0 s = Some s"
| "forward_words (Suc count) s =
     (if rl_point s = rl_end s then Some s
      else
        do {
          c \<leftarrow> load_at (rl_line_buffer s) (rl_point s);
          s \<leftarrow> (if \<not> walphabetic s c then forward_scan (walphabetic s) (s\<lparr>rl_point := rl_point s + 1\<rparr>) else Some s);
          (if rl_point s = rl_end s then Some s
           else
             do {
               s \<leftarrow> forward_scan (\<lambda>c. \<not> walphabetic s c) (s\<lparr>rl_point := rl_point s + 1\<rparr>);
               forward_words count s
             })
        })"

fun backward_words :: "nat \<Rightarrow> editor \<Rightarrow> editor option" where
  "backward_words 0 s = Some s"
| "backward_words (Suc count) s =
     (if rl_point s = 0 then Some s
      else
        do {
          let p = rl_point s - 1;
          c \<leftarrow> load_at (rl_line_buffer s) p;
          s \<leftarrow> (if \<not> walphabetic s c then backward_scan (walphabetic s) (s\<lparr>rl_point := p\<rparr>) else Some s);
          s \<leftarrow> backward_scan (\<lambda>c. \<not> walphabetic s c) s;
          backward_words count s
        })"

definition rl_forward_word :: "int \<Rightarrow> editor \<Rightarrow> editor option" where
  "rl_forward_word count s = (if count < 0 then backward_words (nat (- count)) s else forward_words (nat count) s)"

definition rl_backward_word :: "int \<Rightarrow> editor \<Rightarrow> editor option" where
  "rl_backward_word count s = (if count < 0 then forward_words (nat (- count)) s else backward_words (nat count) s)"

definition find_next_mbchar :: "string \<Rightarrow> int \<Rightarrow> int \<Rightarrow> int option" where
  "find_next_mbchar b seed count =
     (let seed = (if seed < 0 then 0 else seed)
      in if count \<le> 0 then Some seed
         else
           do {
             str \<leftarrow> c_str b 0;
             let point = (if int (length str) < seed then seed - 1 else seed);
             rest \<leftarrow> c_str b point;
             Some (point + min count (int (length rest)))
           })"

subsection \<open>The kill ring\<close>

definition DEFAULT_MAX_KILLS :: int where [cdefs]: "DEFAULT_MAX_KILLS = 10"

text \<open>The slot to work with. The loop that drops the oldest kill runs over all \<open>slot\<close> indices and reads
  \<^verbatim>\<open>rl_kill_ring[slot]\<close>.\<close>

definition kill_slot :: "editor \<Rightarrow> (editor \<times> int) option" where
  "kill_slot s =
     (if last_command_was_kill s = 0 then
        (case rl_kill_ring s of
           None \<Rightarrow> Some (s\<lparr>rl_kill_ring_length := 1, rl_kill_ring := Some [None, None]\<rparr>, 0)
         | Some r \<Rightarrow>
             (let slot = rl_kill_ring_length s
              in if slot = DEFAULT_MAX_KILLS then
                   do {
                     r \<leftarrow> move_down (nat slot) 0 1 r;
                     r \<leftarrow> store_at r (slot - 1) None;
                     Some (s\<lparr>rl_kill_ring := Some r\<rparr>, slot - 1)
                   }
                 else
                   do {
                     let slot = slot + 1;
                     r \<leftarrow> store_at (resize (\<lambda>_. None) (nat slot) r) (slot - 1) None;
                     Some (s\<lparr>rl_kill_ring_length := slot, rl_kill_ring := Some r\<rparr>, slot - 1)
                   }))
      else Some (s, rl_kill_ring_length s - 1))"

definition copy_to_kill_ring :: "string \<Rightarrow> bool \<Rightarrow> editor \<Rightarrow> editor option" where
  "copy_to_kill_ring text1 append1 s =
     do {
       (s, slot) \<leftarrow> kill_slot s;
       r \<leftarrow> rl_kill_ring s;
       new \<leftarrow> (if last_command_was_kill s \<noteq> 0 \<and> \<not> vi_mode s then
                 do {
                   p \<leftarrow> load_at r slot;
                   old \<leftarrow> p;
                   Some (if append1 then old @ text1 else text1 @ old)
                 }
               else Some text1);
       r \<leftarrow> store_at r slot (Some new);
       Some (s\<lparr>rl_kill_ring := Some r, rl_kill_index := slot\<rparr>)
     }"

definition count_kill :: "editor \<Rightarrow> editor" where
  "count_kill s = s\<lparr>last_command_was_kill := last_command_was_kill s + 1\<rparr>"

definition rl_kill_text :: "int \<Rightarrow> int \<Rightarrow> editor \<Rightarrow> editor option" where
  "rl_kill_text from to s =
     (if from = to then Some (count_kill s)
      else
        do {
          text1 \<leftarrow> rl_copy_text from to s;
          (s, _) \<leftarrow> rl_delete_text from to s;
          s \<leftarrow> copy_to_kill_ring text1 (from < to) s;
          Some (count_kill s)
        })"

text \<open>\<^verbatim>\<open>if (rl_editing_mode == emacs_mode) rl_mark = rl_point\<close>\<close>

definition emacs_mark :: "editor \<Rightarrow> editor" where
  "emacs_mark s = (if vi_mode s then s else s\<lparr>rl_mark := rl_point s\<rparr>)"

definition kill_forward :: "int \<Rightarrow> editor \<Rightarrow> editor option" where
  "kill_forward orig_point s =
     do {
       s \<leftarrow> (if rl_point s \<noteq> orig_point then rl_kill_text orig_point (rl_point s) s else Some s);
       Some (emacs_mark (s\<lparr>rl_point := orig_point\<rparr>))
     }"

definition kill_backward :: "int \<Rightarrow> editor \<Rightarrow> editor option" where
  "kill_backward orig_point s =
     do {
       s \<leftarrow> (if rl_point s \<noteq> orig_point then rl_kill_text orig_point (rl_point s) s else Some s);
       Some (emacs_mark s)
     }"

definition rl_kill_word :: "int \<Rightarrow> editor \<Rightarrow> editor option" where
  "rl_kill_word count s =
     (if count < 0 then do { s' \<leftarrow> rl_backward_word (- count) s; kill_backward (rl_point s) s' }
      else do { s' \<leftarrow> rl_forward_word count s; kill_forward (rl_point s) s' })"

definition rl_backward_kill_word :: "int \<Rightarrow> editor \<Rightarrow> editor option" where
  "rl_backward_kill_word count s =
     (if count < 0 then rl_kill_word (- count) s
      else do { s' \<leftarrow> rl_backward_word count s; kill_backward (rl_point s) s' })"

definition kill_to_start :: "editor \<Rightarrow> editor option" where
  "kill_to_start s = (if rl_point s = 0 then Some s else kill_backward (rl_point s) (rl_beg_of_line s))"

definition rl_kill_line :: "int \<Rightarrow> editor \<Rightarrow> editor option" where
  "rl_kill_line direction s =
     (if direction < 0 then kill_to_start s else kill_forward (rl_point s) (rl_end_of_line s))"

definition rl_backward_kill_line :: "int \<Rightarrow> editor \<Rightarrow> editor option" where
  "rl_backward_kill_line direction s = (if direction < 0 then rl_kill_line 1 s else kill_to_start s)"

definition rl_kill_full_line :: "editor \<Rightarrow> editor option" where
  "rl_kill_full_line s =
     do {
       let s = rl_begin_undo_group s;
       s \<leftarrow> rl_kill_text 0 (rl_end s) (s\<lparr>rl_point := 0\<rparr>);
       Some (rl_end_undo_group (s\<lparr>rl_mark := 0\<rparr>))
     }"

definition rl_whitespace :: "char \<Rightarrow> bool" where
  "rl_whitespace c \<longleftrightarrow> c = CHR '' '' \<or> c = CHR 0x09"

fun rubout_words :: "nat \<Rightarrow> editor \<Rightarrow> editor option" where
  "rubout_words 0 s = Some s"
| "rubout_words (Suc count) s =
     do {
       s \<leftarrow> backward_scan (\<lambda>c. \<not> rl_whitespace c) s;
       s \<leftarrow> backward_scan rl_whitespace s;
       rubout_words count s
     }"

definition rl_unix_word_rubout :: "int \<Rightarrow> editor \<Rightarrow> editor option" where
  "rl_unix_word_rubout count s =
     (if rl_point s = 0 then Some s
      else
        do {
          s' \<leftarrow> rubout_words (nat (if count \<le> 0 then 1 else count)) s;
          s' \<leftarrow> rl_kill_text (rl_point s) (rl_point s') s';
          Some (emacs_mark s')
        })"

text \<open>\<^verbatim>\<open>while (rl_point && P (c)) { rl_point--; c = rl_line_buffer[rl_point - 1]; }\<close> also reads the byte
  before the block when \<^verbatim>\<open>rl_point\<close> becomes 0.\<close>

fun filename_scan :: "(char \<Rightarrow> bool) \<Rightarrow> nat \<Rightarrow> int \<Rightarrow> char \<Rightarrow> string \<Rightarrow> (int \<times> char) option" where
  "filename_scan P 0 i c b = (if i < 0 then None else Some (i, c))"
| "filename_scan P (Suc k) i c b =
     (if P c then do { c \<leftarrow> load_at b (i - 1 - 1); filename_scan P k (i - 1) c b } else Some (i, c))"

fun rubout_filenames :: "nat \<Rightarrow> editor \<Rightarrow> editor option" where
  "rubout_filenames 0 s = Some s"
| "rubout_filenames (Suc count) s =
     do {
       c \<leftarrow> load_at (rl_line_buffer s) (rl_point s - 1);
       (p, c) \<leftarrow> filename_scan (\<lambda>c. rl_whitespace c \<or> c = CHR ''/'') (nat (rl_point s)) (rl_point s) c (rl_line_buffer s);
       (p, c) \<leftarrow> filename_scan (\<lambda>c. \<not> rl_whitespace c \<and> c \<noteq> CHR ''/'') (nat p) p c (rl_line_buffer s);
       rubout_filenames count (s\<lparr>rl_point := p\<rparr>)
     }"

definition rl_unix_filename_rubout :: "int \<Rightarrow> editor \<Rightarrow> editor option" where
  "rl_unix_filename_rubout count s =
     (if rl_point s = 0 then Some s
      else
        do {
          s' \<leftarrow> rubout_filenames (nat (if count \<le> 0 then 1 else count)) s;
          s' \<leftarrow> rl_kill_text (rl_point s) (rl_point s') s';
          Some (emacs_mark s')
        })"

definition rl_unix_line_discard :: "editor \<Rightarrow> editor option" where
  "rl_unix_line_discard s =
     (if rl_point s = 0 then Some s
      else do { s \<leftarrow> rl_kill_text (rl_point s) 0 s; Some (emacs_mark (s\<lparr>rl_point := 0\<rparr>)) })"

definition region_kill_internal :: "bool \<Rightarrow> editor \<Rightarrow> editor option" where
  "region_kill_internal delete s =
     (if rl_mark s \<noteq> rl_point s then
        do {
          text1 \<leftarrow> rl_copy_text (rl_point s) (rl_mark s) s;
          (s, _) \<leftarrow> (if delete then rl_delete_text (rl_point s) (rl_mark s) s else Some (s, 0));
          s \<leftarrow> copy_to_kill_ring text1 (rl_point s < rl_mark s) s;
          Some (count_kill s)
        }
      else Some (count_kill s))"

definition rl_kill_region :: "editor \<Rightarrow> editor option" where
  "rl_kill_region s =
     (let npoint = (if rl_point s < rl_mark s then rl_point s else rl_mark s)
      in do { s \<leftarrow> region_kill_internal True s; Some ((rl_fix_point True s)\<lparr>rl_point := npoint\<rparr>) })"

definition copy_word_as_kill :: "int \<Rightarrow> int \<Rightarrow> editor \<Rightarrow> editor option" where
  "copy_word_as_kill count dir s0 =
     do {
       s \<leftarrow> (if dir > 0 then rl_forward_word count s0 else rl_backward_word count s0);
       let s = s\<lparr>rl_mark := rl_point s\<rparr>;
       s \<leftarrow> (if dir > 0 then rl_backward_word count s else rl_forward_word count s);
       s \<leftarrow> region_kill_internal False s;
       Some (s\<lparr>rl_mark := rl_mark s0, rl_point := rl_point s0\<rparr>)
     }"

definition rl_copy_forward_word :: "int \<Rightarrow> editor \<Rightarrow> editor option" where
  "rl_copy_forward_word count s =
     (if count < 0 then copy_word_as_kill (- count) (-1) s else copy_word_as_kill count 1 s)"

definition rl_copy_backward_word :: "int \<Rightarrow> editor \<Rightarrow> editor option" where
  "rl_copy_backward_word count s =
     (if count < 0 then copy_word_as_kill (- count) 1 s else copy_word_as_kill count (-1) s)"

subsection \<open>Yanking and the mark\<close>

definition set_mark_at_pos :: "int \<Rightarrow> editor \<Rightarrow> editor \<times> int" where
  "set_mark_at_pos position s = (if position > rl_end s then (s, -1) else (s\<lparr>rl_mark := position\<rparr>, 0))"

definition rl_set_mark :: "int \<Rightarrow> editor \<Rightarrow> editor \<times> int" where
  "rl_set_mark count s = set_mark_at_pos (if rl_explicit_arg s then count else rl_point s) s"

definition rl_exchange_point_and_mark :: "editor \<Rightarrow> editor \<times> int" where
  "rl_exchange_point_and_mark s =
     (let s = (if rl_mark s > rl_end s then s\<lparr>rl_mark := -1\<rparr> else s)
      in if rl_mark s = -1 then (s, -1) else (s\<lparr>rl_point := rl_mark s, rl_mark := rl_point s\<rparr>, 0))"

definition abort_internal :: "editor \<Rightarrow> editor" where
  "abort_internal s = s\<lparr>rl_explicit_arg := False, macro_input := False, rl_last_func := None, aborted := True\<rparr>"

definition current_kill :: "editor \<Rightarrow> string option" where
  "current_kill s = do { r \<leftarrow> rl_kill_ring s; p \<leftarrow> load_at r (rl_kill_index s); p }"

definition rl_yank :: "editor \<Rightarrow> edit_result" where
  "rl_yank s =
     (if rl_kill_ring s = None then Some (abort_internal s, -1)
      else
        do {
          let s = fst (set_mark_at_pos (rl_point s) s);
          str \<leftarrow> current_kill s;
          (s, _) \<leftarrow> rl_insert_text str s;
          Some (s, 0)
        })"

definition rl_yank_pop :: "editor \<Rightarrow> edit_result" where
  "rl_yank_pop s =
     (if (rl_last_func s \<noteq> Some Yank_pop \<and> rl_last_func s \<noteq> Some Yank) \<or> rl_kill_ring s = None
      then Some (abort_internal s, -1)
      else
        do {
          str \<leftarrow> current_kill s;
          let n = rl_point s - int (length str);
          same \<leftarrow> (if n \<ge> 0 then map_option (\<lambda>t. t = str) (copy_bytes (rl_line_buffer s) n (int (length str)))
                  else Some False);
          (if same then
             do {
               (s, _) \<leftarrow> rl_delete_text n (rl_point s) s;
               let i = rl_kill_index s - 1;
               rl_yank (s\<lparr>rl_point := n, rl_kill_index := (if i < 0 then rl_kill_ring_length s - 1 else i)\<rparr>)
             }
           else Some (abort_internal s, -1))
        })"

subsection \<open>Text commands\<close>

definition TEXT_COUNT_MAX :: nat where [cdefs]: "TEXT_COUNT_MAX = 1024"

definition cstr :: "string \<Rightarrow> string" where
  "cstr b = takeWhile (\<lambda>c. c \<noteq> NUL) b"

definition insert_typein :: "char \<Rightarrow> editor \<Rightarrow> editor option" where
  "insert_typein c s =
     do {
       let string = c # takeWhile (self_insert s) (pushed_input s);
       let s = s\<lparr>pushed_input := dropWhile (self_insert s) (pushed_input s)\<rparr>;
       (s, _) \<leftarrow> rl_insert_text (cstr string) s;
       Some s
     }"

function insert_chunks :: "nat \<Rightarrow> char \<Rightarrow> editor \<Rightarrow> editor option" where
  "insert_chunks count c s =
     (if count = 0 then Some s
      else
        let decreaser = (if count > TEXT_COUNT_MAX then TEXT_COUNT_MAX else count)
        in do {
          (s, _) \<leftarrow> rl_insert_text (cstr (replicate decreaser c)) s;
          insert_chunks (count - decreaser) c s
        })"
  by pat_completeness auto
termination by (relation "measure fst") (auto simp: TEXT_COUNT_MAX_def)

declare insert_chunks.simps [simp del]

definition rl_insert_char :: "int \<Rightarrow> char \<Rightarrow> editor \<Rightarrow> editor option" where
  "rl_insert_char count c s =
     (if count \<le> 0 then Some s
      else if count > 1 \<and> count \<le> int TEXT_COUNT_MAX then
        do { (s, _) \<leftarrow> rl_insert_text (cstr (replicate (nat count) c)) s; Some s }
      else if count > int TEXT_COUNT_MAX then insert_chunks (nat count) c s
      else if \<not> macro_input s \<and> pushed_input s \<noteq> [] then insert_typein c s
      else do { (s, _) \<leftarrow> rl_insert_text (cstr [c]) s; Some s })"

definition delete_forward :: "int \<Rightarrow> editor \<Rightarrow> edit_result" where
  "delete_forward count s =
     (if rl_point s = rl_end s then Some (s, -1)
      else if count > 1 \<or> rl_explicit_arg s then
        do {
          let xpoint = rl_point s;
          let s = rl_forward_byte count s;
          s \<leftarrow> rl_kill_text xpoint (rl_point s) s;
          Some (s\<lparr>rl_point := xpoint\<rparr>, 0)
        }
      else do { (s, _) \<leftarrow> rl_delete_text (rl_point s) (rl_point s + 1) s; Some (s, 0) })"

definition rubout_char :: "int \<Rightarrow> editor \<Rightarrow> edit_result" where
  "rubout_char count s =
     (if count < 0 then delete_forward (- count) s
      else if rl_point s = 0 then Some (s, -1)
      else
        let orig_point = rl_point s
        in if count > 1 \<or> rl_explicit_arg s then
             do {
               let s = rl_backward_byte count s;
               s \<leftarrow> rl_kill_text orig_point (rl_point s) s;
               Some (s, 0)
             }
           else
             do {
               let s = s\<lparr>rl_point := rl_point s - 1\<rparr>;
               _ \<leftarrow> load_at (rl_line_buffer s) (rl_point s);
               (s, _) \<leftarrow> rl_delete_text (rl_point s) orig_point s;
               Some (s, 0)
             })"

definition rl_delete :: "int \<Rightarrow> editor \<Rightarrow> edit_result" where
  "rl_delete count s = (if count < 0 then rubout_char (- count) s else delete_forward count s)"

fun overwrite_loop :: "nat \<Rightarrow> char \<Rightarrow> editor \<Rightarrow> editor option" where
  "overwrite_loop 0 c s = Some s"
| "overwrite_loop (Suc count) c s =
     do {
       s \<leftarrow> rl_insert_char 1 c s;
       (s, _) \<leftarrow> (if rl_point s < rl_end s then rl_delete 1 s else Some (s, 0));
       overwrite_loop count c s
     }"

definition rl_overwrite_char :: "int \<Rightarrow> char \<Rightarrow> editor \<Rightarrow> editor option" where
  "rl_overwrite_char count c s =
     do { s \<leftarrow> overwrite_loop (nat count) c (rl_begin_undo_group s); Some (rl_end_undo_group s) }"

definition rl_insert :: "int \<Rightarrow> char \<Rightarrow> editor \<Rightarrow> editor option" where
  "rl_insert count c s = (if rl_insert_mode s then rl_insert_char count c s else rl_overwrite_char count c s)"

definition rl_character_len :: "bool \<Rightarrow> char \<Rightarrow> int \<Rightarrow> int" where
  "rl_character_len omc c pos =
     (if uchar c > 127 then (if \<not> omc then 4 else 1)
      else if uchar c = 9 then (pos OR 7) + 1 - pos
      else if uchar c < 32 \<or> uchar c = 127 then 2
      else 1)"

fun rubout_width :: "nat \<Rightarrow> int \<Rightarrow> editor \<Rightarrow> (editor \<times> int) option" where
  "rubout_width 0 l s = Some (s, l)"
| "rubout_width (Suc count) l s =
     do {
       let s = rl_backward_byte 1 s;
       c \<leftarrow> load_at (rl_line_buffer s) (rl_point s);
       rubout_width count (l + rl_character_len (output_meta_chars s) c (rl_point s)) s
     }"

definition overwrite_rubout :: "int \<Rightarrow> editor \<Rightarrow> edit_result" where
  "overwrite_rubout count s =
     (if rl_point s = 0 then Some (s, 1)
      else
        do {
          let opoint = rl_point s;
          (s, l) \<leftarrow> rubout_width (nat count) 0 s;
          let s = rl_begin_undo_group s;
          s \<leftarrow> (if count > 1 \<or> rl_explicit_arg s then rl_kill_text opoint (rl_point s) s
                else map_option fst (rl_delete_text opoint (rl_point s) s));
          s \<leftarrow> (if rl_point s < rl_end s then
                  do { s' \<leftarrow> rl_insert_char l (CHR '' '') s; Some (s'\<lparr>rl_point := rl_point s\<rparr>) }
                else Some s);
          Some (rl_end_undo_group s, 0)
        })"

definition rl_rubout :: "int \<Rightarrow> editor \<Rightarrow> edit_result" where
  "rl_rubout count s =
     (if count < 0 then rl_delete (- count) s
      else if rl_point s = 0 then Some (s, -1)
      else if \<not> rl_insert_mode s then overwrite_rubout count s
      else rubout_char count s)"

definition rl_rubout_or_delete :: "int \<Rightarrow> editor \<Rightarrow> edit_result" where
  "rl_rubout_or_delete count s =
     (if rl_end s \<noteq> 0 \<and> rl_point s = rl_end s then rubout_char count s else rl_delete count s)"

definition rl_delete_horizontal_space :: "editor \<Rightarrow> editor option" where
  "rl_delete_horizontal_space s =
     do {
       s \<leftarrow> backward_scan (\<lambda>c. \<not> rl_whitespace c) s;
       let start = rl_point s;
       s \<leftarrow> forward_scan (\<lambda>c. \<not> rl_whitespace c) s;
       s \<leftarrow> (if start \<noteq> rl_point s then
               do { (s, _) \<leftarrow> rl_delete_text start (rl_point s) s; Some (s\<lparr>rl_point := start\<rparr>) }
             else Some s);
       Some (if rl_point s < 0 then s\<lparr>rl_point := 0\<rparr> else s)
     }"

datatype case_op = UpCase | DownCase | CapCase

definition to_upper :: "char \<Rightarrow> char" where
  "to_upper c = (if 97 \<le> uchar c \<and> uchar c \<le> 122 then char_of (of_char c - 32 :: nat) else c)"

definition to_lower :: "char \<Rightarrow> char" where
  "to_lower c = (if 65 \<le> uchar c \<and> uchar c \<le> 90 then char_of (of_char c + 32 :: nat) else c)"

fun case_loop :: "(char \<Rightarrow> bool) \<Rightarrow> case_op \<Rightarrow> nat \<Rightarrow> bool \<Rightarrow> int \<Rightarrow> string \<Rightarrow> string option" where
  "case_loop alpha op 0 inword start b = Some b"
| "case_loop alpha op (Suc k) inword start b =
     do {
       c \<leftarrow> load_at b start;
       (if \<not> alpha c then case_loop alpha op k False (start + 1) b
        else
          do {
            let nop = (if op = CapCase then (if inword then DownCase else UpCase) else op);
            b \<leftarrow> store_at b start (if nop = UpCase then to_upper c else to_lower c);
            case_loop alpha op k (if op = CapCase then True else inword) (start + 1) b
          })
     }"

definition rl_change_case :: "int \<Rightarrow> case_op \<Rightarrow> editor \<Rightarrow> editor option" where
  "rl_change_case count op s0 =
     do {
       s \<leftarrow> rl_forward_word count s0;
       let (start, end1) = (if count < 0 then (rl_point s, rl_point s0) else (rl_point s0, rl_point s));
       s \<leftarrow> rl_modifying start end1 s;
       b \<leftarrow> case_loop (walphabetic s) op (nat (end1 - start)) False start (rl_line_buffer s);
       Some (s\<lparr>rl_line_buffer := b, rl_point := end1\<rparr>)
     }"

text \<open>The changes between \<^verbatim>\<open>rl_begin_undo_group\<close> and \<^verbatim>\<open>rl_end_undo_group\<close> of the two transpositions.\<close>

definition swap_words :: "int \<Rightarrow> int \<Rightarrow> int \<Rightarrow> int \<Rightarrow> string \<Rightarrow> string \<Rightarrow> editor \<Rightarrow> editor option" where
  "swap_words w1_beg w1_end w2_beg w2_end word1 word2 s =
     do {
       let s = s\<lparr>rl_point := w2_beg\<rparr>;
       (s, _) \<leftarrow> rl_delete_text w2_beg w2_end s;
       (s, _) \<leftarrow> rl_insert_text word1 s;
       let s = s\<lparr>rl_point := w1_beg\<rparr>;
       (s, _) \<leftarrow> rl_delete_text w1_beg w1_end s;
       (s, _) \<leftarrow> rl_insert_text word2 s;
       Some (s\<lparr>rl_point := w2_end\<rparr>)
     }"

definition rl_transpose_words :: "int \<Rightarrow> editor \<Rightarrow> edit_result" where
  "rl_transpose_words count s0 =
     (if count = 0 then Some (s0, 0)
      else
        do {
          s \<leftarrow> rl_forward_word count s0;
          let w2_end = rl_point s;
          s \<leftarrow> rl_backward_word 1 s;
          let w2_beg = rl_point s;
          s \<leftarrow> rl_backward_word count s;
          let w1_beg = rl_point s;
          s \<leftarrow> rl_forward_word 1 s;
          let w1_end = rl_point s;
          (if w1_beg = w2_beg \<or> w2_beg < w1_end then Some (s\<lparr>rl_point := rl_point s0\<rparr>, -1)
           else
             do {
               word1 \<leftarrow> rl_copy_text w1_beg w1_end s;
               word2 \<leftarrow> rl_copy_text w2_beg w2_end s;
               s \<leftarrow> swap_words w1_beg w1_end w2_beg w2_end word1 word2 (rl_begin_undo_group s);
               Some (rl_end_undo_group s, 0)
             })
        })"

definition swap_chars :: "int \<Rightarrow> editor \<Rightarrow> editor option" where
  "swap_chars count s =
     do {
       let (prev_point, count) = (if rl_point s = rl_end s then (rl_point s - 1, 1) else (rl_point s, count));
       let s = s\<lparr>rl_point := prev_point - 1\<rparr>;
       dummy \<leftarrow> load_at (rl_line_buffer s) (rl_point s);
       (s, _) \<leftarrow> rl_delete_text (rl_point s) (rl_point s + 1) s;
       p \<leftarrow> find_next_mbchar (rl_line_buffer s) (rl_point s) count;
       let s = rl_fix_point False (s\<lparr>rl_point := p\<rparr>);
       (s, _) \<leftarrow> rl_insert_text (cstr [dummy]) s;
       Some s
     }"

definition rl_transpose_chars :: "int \<Rightarrow> editor \<Rightarrow> edit_result" where
  "rl_transpose_chars count s =
     (if count = 0 then Some (s, 0)
      else if rl_point s = 0 \<or> rl_end s < 2 then Some (s, -1)
      else
        do {
          s \<leftarrow> swap_chars count (rl_begin_undo_group s);
          Some (rl_end_undo_group s, 0)
        })"

subsection \<open>The command loop\<close>

definition just :: "editor option \<Rightarrow> edit_result" where
  "just r = map_option (\<lambda>s. (s, 0)) r"

fun command :: "edit_func \<Rightarrow> int \<Rightarrow> editor \<Rightarrow> edit_result" where
  "command Forward_byte n s = just (Some (rl_forward_byte n s))"
| "command Backward_byte n s = just (Some (rl_backward_byte n s))"
| "command Beg_of_line n s = just (Some (rl_beg_of_line s))"
| "command End_of_line n s = just (Some (rl_end_of_line s))"
| "command Forward_word n s = just (rl_forward_word n s)"
| "command Backward_word n s = just (rl_backward_word n s)"
| "command (Insert c) n s = just (rl_insert n c s)"
| "command Rubout n s = rl_rubout n s"
| "command Delete n s = rl_delete n s"
| "command Rubout_or_delete n s = rl_rubout_or_delete n s"
| "command Delete_horizontal_space n s = just (rl_delete_horizontal_space s)"
| "command Upcase_word n s = just (rl_change_case n UpCase s)"
| "command Downcase_word n s = just (rl_change_case n DownCase s)"
| "command Capitalize_word n s = just (rl_change_case n CapCase s)"
| "command Transpose_words n s = rl_transpose_words n s"
| "command Transpose_chars n s = rl_transpose_chars n s"
| "command Set_mark n s = Some (rl_set_mark n s)"
| "command Exchange_point_and_mark n s = Some (rl_exchange_point_and_mark s)"
| "command Kill_word n s = just (rl_kill_word n s)"
| "command Backward_kill_word n s = just (rl_backward_kill_word n s)"
| "command Kill_line n s = just (rl_kill_line n s)"
| "command Backward_kill_line n s = just (rl_backward_kill_line n s)"
| "command Kill_full_line n s = just (rl_kill_full_line s)"
| "command Unix_word_rubout n s = just (rl_unix_word_rubout n s)"
| "command Unix_filename_rubout n s = just (rl_unix_filename_rubout n s)"
| "command Unix_line_discard n s = just (rl_unix_line_discard s)"
| "command Copy_region_to_kill n s = just (region_kill_internal False s)"
| "command Kill_region n s = just (rl_kill_region s)"
| "command Copy_forward_word n s = just (rl_copy_forward_word n s)"
| "command Copy_backward_word n s = just (rl_copy_backward_word n s)"
| "command Yank n s = rl_yank s"
| "command Yank_pop n s = rl_yank_pop s"
| "command Undo_command n s = rl_undo_command n s"
| "command Revert_line n s = rl_revert_line s"

text \<open>One round of the loop of \<^verbatim>\<open>readline_internal_charloop\<close> with no input pending: the numeric argument
  is given with whether it was typed. After an abort control is back at the top of the loop.\<close>

definition run_command :: "edit_func \<times> int \<times> bool \<Rightarrow> editor \<Rightarrow> editor option" where
  "run_command k s0 =
     (case k of (f, n, explicit) \<Rightarrow>
        do {
          (s, _) \<leftarrow> command f n (s0\<lparr>rl_explicit_arg := explicit\<rparr>);
          (if aborted s then Some (s\<lparr>aborted := False\<rparr>)
           else
             do {
               let s = s\<lparr>rl_last_func := Some f\<rparr>;
               Some (if last_command_was_kill s = last_command_was_kill s0 then s\<lparr>last_command_was_kill := 0\<rparr> else s)
             })
        })"

fun run_commands :: "(edit_func \<times> int \<times> bool) list \<Rightarrow> editor \<Rightarrow> editor option" where
  "run_commands [] s = Some s"
| "run_commands (k # ks) s = do { s \<leftarrow> run_command k s; run_commands ks s }"

end
