(* ===== verification/EditSpec.thy ===== *)
theory EditSpec
  imports LineEdit
begin

text \<open>
  Correctness of the line editor of \<open>LineEdit\<close>: the primitive changes keep the buffer terminated and
  do on it what they do on a list of bytes; every command that is not in one of the situations that
  \<open>safe_command\<close> excludes returns and keeps the undo list such that undoing all of it gives the line
  the editing started with; a group of changes is undone at once.
\<close>

subsection \<open>Blocks\<close>

lemma put_bytes_append:
  "length x = length y \<Longrightarrow> n = length a \<Longrightarrow> put_bytes (a @ y @ c) (int n) x = Some (a @ x @ c)"
  by (simp add: put_bytes_def)

lemma put_at_append [simp]: "store_at (a @ y # c) (int (length a)) x = Some (a @ x # c)"
  by (simp add: store_at_def)

lemma get_at_append [simp]: "load_at (a @ x # c) (int (length a)) = Some x"
  by (simp add: load_at_def)

lemma get_at_nth [simp]: "n < length b \<Longrightarrow> load_at b (int n) = Some (b ! n)"
  by (simp add: load_at_def)

text \<open>Moving the end of a text up by \<open>l\<close> leaves \<open>l\<close> bytes that are then overwritten.\<close>

lemma move_up_eq:
  assumes "l \<le> length rest"
  shows "move_up (length m) (int (length a + length m) - 1) (int l) (a @ m @ rest) =
    Some (take (length a + l) (a @ m @ rest) @ m @ drop l rest)"
  using assms
proof (induction m arbitrary: rest rule: rev_induct)
  case (snoc x m)
  let ?b = "a @ (m @ [x]) @ rest"
  have g: "load_at ?b (int (length a + length m)) = Some x"
    using get_at_append [of "a @ m" x rest] by simp
  let ?b' = "?b[length a + length m + l := x]"
  have p: "store_at ?b (int (length a + length m) + int l) x = Some ?b'"
    using snoc.prems by (simp add: store_at_def nat_add_distrib)
  show ?case
  proof (cases l)
    case 0
    then have "?b' = a @ m @ (x # rest)" by (simp add: list_update_append)
    then show ?thesis using snoc.IH [of "x # rest"] g p 0 by simp
  next
    case (Suc k)
    then have b': "?b' = a @ m @ (x # rest[k := x])" by (simp add: list_update_append)
    have IH: "move_up (length m) (int (length a + length m) - 1) (int l) ?b' =
        Some (take (length a + l) ?b' @ m @ drop l (x # rest[k := x]))"
      unfolding b' using snoc.prems by (intro snoc.IH) simp_all
    have "drop l (x # rest[k := x]) = drop k (rest[k := x])" using Suc by simp
    also have "\<dots> = x # drop (Suc k) rest"
      using snoc.prems Suc by (simp add: Cons_nth_drop_Suc [symmetric])
    finally have d: "drop l (x # rest[k := x]) = x # drop l rest" using Suc by simp
    have t: "take (length a + l) ?b' = take (length a + l) ?b" by simp
    have i: "int (length a + length (m @ [x])) - 1 = int (length a + length m)" by simp
    have "move_up (length (m @ [x])) (int (length a + length (m @ [x])) - 1) (int l) ?b =
        move_up (length m) (int (length a + length m) - 1) (int l) ?b'"
      unfolding i length_append using g p by simp
    then show ?thesis unfolding IH d t by simp
  qed
qed simp

lemma move_down_eq:
  "length d = k \<Longrightarrow> \<exists>c. length c = k \<and>
     move_down (length m) (int (length a)) (int k) (a @ d @ m @ rest) = Some (a @ m @ c @ rest)"
proof (induction m arbitrary: a d)
  case Nil
  then show ?case by (intro exI [of _ d]) simp
next
  case (Cons x m)
  let ?b = "a @ d @ (x # m) @ rest"
  have g: "load_at ?b (int (length a) + int k) = Some x"
    using get_at_append [of "a @ d" x "m @ rest"] Cons.prems by simp
  show ?case
  proof (cases d)
    case Nil
    then have p: "store_at ?b (int (length a)) x = Some ((a @ [x]) @ [] @ m @ rest)" by simp
    from Cons.IH [of "[]" "a @ [x]"] g p Nil Cons.prems show ?thesis by (auto simp: algebra_simps)
  next
    case (Cons e d')
    then have p: "store_at ?b (int (length a)) x = Some ((a @ [x]) @ (d' @ [x]) @ m @ rest)" by simp
    from Cons.IH [of "d' @ [x]" "a @ [x]"] Cons.prems Cons
    show ?thesis using g p by (auto simp: algebra_simps)
  qed
qed

subsection \<open>The line in the buffer\<close>

text \<open>The buffer holds the text \<open>t\<close> with its terminator, and the cursor is at \<open>p\<close>.\<close>

definition line_holds :: "editor \<Rightarrow> string \<Rightarrow> nat \<Rightarrow> bool" where
  "line_holds s t p \<longleftrightarrow>
     (\<exists>junk. rl_line_buffer s = t @ NUL # junk) \<and> rl_line_buffer_len s = int (length (rl_line_buffer s)) \<and>
     rl_end s = int (length t) \<and> rl_point s = int p \<and> p \<le> length t \<and> c_string t"

definition edit_line :: "editor \<Rightarrow> string" where
  "edit_line s = take (nat (rl_end s)) (rl_line_buffer s)"

lemma holds_line: "line_holds s t p \<Longrightarrow> edit_line s = t"
  by (auto simp: line_holds_def edit_line_def)

lemma holds_point: "line_holds s t p \<Longrightarrow> rl_point s = int p"
  and holds_end: "line_holds s t p \<Longrightarrow> rl_end s = int (length t)"
  and holds_le: "line_holds s t p \<Longrightarrow> p \<le> length t"
  and holds_c_string: "line_holds s t p \<Longrightarrow> c_string t"
  by (simp_all add: line_holds_def)

lemma holds_move: "line_holds s t p \<Longrightarrow> q \<le> length t \<Longrightarrow> line_holds (s\<lparr>rl_point := int q\<rparr>) t q"
  by (auto simp: line_holds_def)

lemma takeWhile_c_string: "c_string t \<Longrightarrow> takeWhile (\<lambda>c. c \<noteq> NUL) (t @ r) = t @ takeWhile (\<lambda>c. c \<noteq> NUL) r"
  by (rule takeWhile_append2) (auto simp: c_string_def)

lemma c_string_take [simp]: "c_string t \<Longrightarrow> c_string (take n t)"
  and c_string_drop [simp]: "c_string t \<Longrightarrow> c_string (drop n t)"
  by (auto simp: c_string_def dest: in_set_takeD in_set_dropD)

lemma holds_c_str:
  assumes "line_holds s t p" and "q \<le> length t"
  shows "c_str (rl_line_buffer s) (int q) = Some (drop q t)"
proof -
  from assms obtain junk where "drop q (rl_line_buffer s) = drop q t @ NUL # junk" by (auto simp: line_holds_def)
  moreover have "c_string (drop q t)" using assms by (simp add: line_holds_def)
  ultimately show ?thesis by (simp add: c_str_def takeWhile_c_string)
qed

text \<open>Copying may ask for more than the line has: it ends at the terminator.\<close>

lemma copy_bytes_line:
  assumes "line_holds s t p" and "a \<le> length t"
  shows "copy_bytes (rl_line_buffer s) (int a) (int n) = Some (take n (drop a t))"
proof -
  from assms obtain junk where b: "drop a (rl_line_buffer s) = drop a t @ NUL # junk"
    "length (rl_line_buffer s) = length t + 1 + length junk" by (auto simp: line_holds_def)
  have c: "c_string (take n (drop a t))" using assms by (simp add: line_holds_def)
  have "takeWhile (\<lambda>c. c \<noteq> NUL) (take n (drop a (rl_line_buffer s))) = take n (drop a t)"
    unfolding b(1) take_append takeWhile_c_string [OF c] using assms(2) by (simp add: take_Cons')
  then show ?thesis unfolding copy_bytes_def using assms(2) b(2) by (auto simp: Let_def)
qed

lemma copy_text_line:
  assumes "line_holds s t p" and "a \<le> e" and "a \<le> length t"
  shows "rl_copy_text (int a) (int e) s = Some (take (e - a) (drop a t))"
    and "rl_copy_text (int e) (int a) s = Some (take (e - a) (drop a t))"
  using copy_bytes_line [OF assms(1,3), of "e - a"] assms(2) by (auto simp: rl_copy_text_def of_nat_diff)

subsection \<open>The primitive changes\<close>

lemma extend_loop_keeps:
  "n = int (length b) \<Longrightarrow>
   \<exists>junk. extend_loop fresh len n b = (int (length (b @ junk)), b @ junk) \<and> len < int (length (b @ junk))"
proof (induction fresh len n b rule: extend_loop.induct)
  case (1 fresh len n b)
  show ?case
  proof (cases "len \<ge> n")
    case True
    let ?m = "nat (n + DEFAULT_BUFFER_SIZE)" and ?f = "map fresh [length b..<nat (n + DEFAULT_BUFFER_SIZE)]"
    have r: "resize fresh ?m b = b @ ?f" using 1(2) by (simp add: resize_def cdefs)
    have "n + DEFAULT_BUFFER_SIZE = int (length (resize fresh ?m b))" unfolding r using 1(2) by (simp add: cdefs)
    from 1(1) [OF True this] obtain junk where
      "extend_loop fresh len (n + DEFAULT_BUFFER_SIZE) (resize fresh ?m b) =
        (int (length (b @ (?f @ junk))), b @ (?f @ junk))" "len < int (length (b @ (?f @ junk)))"
      unfolding r by auto
    with True show ?thesis by (subst extend_loop.simps) (simp only: if_True, blast)
  next
    case False
    with 1(2) show ?thesis by (subst extend_loop.simps) (auto intro: exI [of _ "[]"])
  qed
qed

text \<open>What a primitive change leaves alone.\<close>

definition kept :: "editor \<Rightarrow> editor \<Rightarrow> bool" where
  "kept s s' \<longleftrightarrow>
     rl_mark s' = rl_mark s \<and> doing_an_undo s' = doing_an_undo s \<and> rl_kill_ring s' = rl_kill_ring s \<and>
     rl_kill_index s' = rl_kill_index s \<and> rl_kill_ring_length s' = rl_kill_ring_length s \<and>
     last_command_was_kill s' = last_command_was_kill s \<and> rl_explicit_arg s' = rl_explicit_arg s \<and>
     rl_last_func s' = rl_last_func s \<and> vi_mode s' = vi_mode s \<and> hist s' = hist s \<and>
     rl_insert_mode s' = rl_insert_mode s \<and> aborted s' = aborted s"

lemma kept_refl [simp]: "kept s s"
  by (simp add: kept_def)

lemma kept_trans [trans]: "kept s s' \<Longrightarrow> kept s' s'' \<Longrightarrow> kept s s''"
  by (simp add: kept_def)

lemma remember_insert_fields:
  "remember_insert l s = s\<lparr>rl_undo_list := rl_undo_list (remember_insert l s),
     next_address := next_address (remember_insert l s)\<rparr>"
  by (auto simp: remember_insert_def rl_add_undo_def split: list.splits)

lemma room_for:
  fixes s s1 :: editor and l :: nat
  assumes "line_holds s t p"
  defines "s1 \<equiv> if rl_end s + int l \<ge> rl_line_buffer_len s then rl_extend_line_buffer (rl_end s + int l) s else s"
  obtains junk where "rl_line_buffer s1 = t @ NUL # junk" "l \<le> length junk"
    "s1 = s\<lparr>rl_line_buffer := t @ NUL # junk, rl_line_buffer_len := int (length (t @ NUL # junk))\<rparr>"
proof -
  from assms(1) obtain junk where b: "rl_line_buffer s = t @ NUL # junk" and e: "rl_end s = int (length t)"
    and n: "rl_line_buffer_len s = int (length (rl_line_buffer s))" by (auto simp: line_holds_def)
  show ?thesis
  proof (cases "rl_end s + int l \<ge> rl_line_buffer_len s")
    case True
    from extend_loop_keeps [OF n, of "fresh_bytes s" "rl_end s + int l"] obtain j2 where
      x: "extend_loop (fresh_bytes s) (rl_end s + int l) (rl_line_buffer_len s) (rl_line_buffer s) =
        (int (length (rl_line_buffer s @ j2)), rl_line_buffer s @ j2)"
      "rl_end s + int l < int (length (rl_line_buffer s @ j2))" by auto
    show ?thesis
    proof (rule that [of "junk @ j2"])
      show "s1 = s\<lparr>rl_line_buffer := t @ NUL # (junk @ j2), rl_line_buffer_len := int (length (t @ NUL # (junk @ j2)))\<rparr>"
        unfolding s1_def rl_extend_line_buffer_def x(1) using True b by simp
      then show "rl_line_buffer s1 = t @ NUL # (junk @ j2)" by simp
      show "l \<le> length (junk @ j2)" using x(2) b e by simp
    qed
  next
    case False
    show ?thesis by (rule that [of junk]) (use False b e n in \<open>auto simp: s1_def\<close>)
  qed
qed

lemma insert_text_line:
  assumes "line_holds s t p" and "c_string x" and "x \<noteq> []"
  shows "\<exists>s'. rl_insert_text x s = Some (s', int (length x)) \<and>
    line_holds s' (take p t @ x @ drop p t) (p + length x) \<and> kept s s' \<and>
    rl_undo_list s' = rl_undo_list (if doing_an_undo s then s else remember_insert (int (length x)) s)"
proof -
  let ?l = "length x" and ?t = "take p t @ x @ drop p t"
  let ?s1 = "if rl_end s + int ?l \<ge> rl_line_buffer_len s then rl_extend_line_buffer (rl_end s + int ?l) s else s"
  obtain junk where b: "rl_line_buffer ?s1 = t @ NUL # junk" and l: "?l \<le> length junk"
    and s1: "?s1 = s\<lparr>rl_line_buffer := t @ NUL # junk, rl_line_buffer_len := int (length (t @ NUL # junk))\<rparr>"
    using room_for [OF assms(1)] by blast
  define s1 where "s1 = ?s1"
  have f: "rl_end s1 = int (length t)" "rl_point s1 = int p" "doing_an_undo s1 = doing_an_undo s"
    "rl_undo_list s1 = rl_undo_list s" "next_address s1 = next_address s" "rl_line_buffer s1 = t @ NUL # junk"
    "rl_line_buffer_len s1 = int (length (t @ NUL # junk))" "kept s s1"
    using assms(1) unfolding s1_def s1 by (simp_all add: line_holds_def kept_def)
  have p: "p \<le> length t" using assms(1) by (rule holds_le)
  let ?m = "drop p t @ [NUL]"
  have k: "nat (int (length t) - int p + 1) = length ?m" using p by simp
  have e: "int (length t) = int (length (take p t) + length ?m) - 1" using p by simp
  have tb: "t @ NUL # junk = take p t @ ?m @ junk" by simp
  let ?b = "take (p + ?l) (t @ NUL # junk) @ ?m @ drop ?l junk"
  have up: "move_up (length ?m) (int (length t)) (int ?l) (t @ NUL # junk) = Some ?b"
    using move_up_eq [OF l, of ?m "take p t"] p unfolding tb e by (simp add: min_absorb2)
  have "?b = take p t @ take ?l (drop p (t @ NUL # junk)) @ ?m @ drop ?l junk"
    using p by (simp add: take_add add.commute)
  then have pb: "put_bytes ?b (int p) x = Some (take p t @ x @ ?m @ drop ?l junk)"
    using put_bytes_append [of x "take ?l (drop p (t @ NUL # junk))" p "take p t" "?m @ drop ?l junk"] p l by simp
  have pn: "store_at (take p t @ x @ ?m @ drop ?l junk) (int (length t) + int ?l) NUL = Some (?t @ NUL # drop ?l junk)"
    using put_at_append [of ?t NUL "drop ?l junk" NUL] p by (simp add: ac_simps)
  let ?s2 = "if doing_an_undo s1 then s1 else remember_insert (int ?l) s1"
  have "\<exists>us a. ?s2 = s1\<lparr>rl_undo_list := us, next_address := a\<rparr>"
    using remember_insert_fields [of "int ?l" s1]
    by (intro exI [of _ "rl_undo_list ?s2"] exI [of _ "next_address ?s2"]) simp
  then obtain us a where s2: "?s2 = s1\<lparr>rl_undo_list := us, next_address := a\<rparr>" by blast
  have us: "us = rl_undo_list (if doing_an_undo s then s else remember_insert (int ?l) s)"
  proof -
    have "us = rl_undo_list ?s2" unfolding s2 by simp
    also have "\<dots> = rl_undo_list (if doing_an_undo s then s else remember_insert (int ?l) s)"
      using f assms(1) by (auto simp: remember_insert_def rl_add_undo_def line_holds_def split: list.splits)
    finally show ?thesis .
  qed
  have "rl_insert_text x s = Some (s1\<lparr>rl_undo_list := us, next_address := a, rl_line_buffer := ?t @ NUL # drop ?l junk,
      rl_point := int p + int ?l, rl_end := int (length t) + int ?l\<rparr>, int ?l)"
    unfolding rl_insert_text_def Let_def s1_def [symmetric] s2
    using assms(3) f up pb pn k by simp
  then show ?thesis
    using f assms(2) p us l assms(1) by (auto simp: line_holds_def kept_def)
qed

lemma delete_bounds_line:
  assumes "rl_end s = int (length t)"
  shows "delete_bounds (int a) (int e) s = (int (min (min a e) (length t)), int (min (max a e) (length t)))"
  using assms by (auto simp: delete_bounds_def min_def max_def Let_def)

lemma delete_text_line:
  fixes a e :: nat
  assumes "line_holds s t p"
  defines "i \<equiv> min (min a e) (length t)" and "j \<equiv> min (max a e) (length t)"
  shows "\<exists>s'. rl_delete_text (int a) (int e) s = Some (s', int (j - i)) \<and>
    (\<exists>junk. rl_line_buffer s' = (take i t @ drop j t) @ NUL # junk) \<and>
    rl_line_buffer_len s' = int (length (rl_line_buffer s')) \<and>
    rl_end s' = int (length t - (j - i)) \<and> rl_point s' = rl_point s \<and> kept s s' \<and>
    rl_undo_list s' =
      (if doing_an_undo s then rl_undo_list s
       else rl_undo_list (rl_add_undo UNDO_DELETE (int i) (int j) (Some (take (j - i) (drop i t))) s))"
proof -
  from assms(1) obtain junk where b: "rl_line_buffer s = t @ NUL # junk" and e: "rl_end s = int (length t)"
    and n: "rl_line_buffer_len s = int (length (rl_line_buffer s))" by (auto simp: line_holds_def)
  have ij: "i \<le> j" "j \<le> length t" by (auto simp: i_def j_def)
  have db: "delete_bounds (int a) (int e) s = (int i, int j)"
    unfolding i_def j_def by (rule delete_bounds_line [OF e])
  have cp: "rl_copy_text (int i) (int j) s = Some (take (j - i) (drop i t))"
    using copy_text_line(1) [OF assms(1) ij(1)] ij by simp
  let ?d = "take (j - i) (drop i t)" and ?m = "drop j t"
  have tb: "t @ NUL # junk = take i t @ ?d @ ?m @ NUL # junk"
    using ij by (metis append.assoc append_take_drop_id drop_drop le_add_diff_inverse2)
  have k: "nat (rl_end s - (int j - int i) - int i) = length ?m" using e ij by simp
  have "length ?d = j - i" using ij by simp
  from move_down_eq [OF this, of ?m "take i t" "NUL # junk"] obtain c where c: "length c = j - i"
    "move_down (length ?m) (int i) (int (j - i)) (t @ NUL # junk) = Some (take i t @ ?m @ c @ NUL # junk)"
    unfolding tb [symmetric] using ij by (auto simp: min_absorb2)
  let ?t = "take i t @ ?m"
  have lt: "length ?t = length t - (j - i)" using ij by simp
  obtain y r where yr: "c @ NUL # junk = y # r" by (cases c) auto
  have pn: "store_at (take i t @ ?m @ c @ NUL # junk) (int (length t) - (int j - int i)) NUL = Some (?t @ NUL # r)"
  proof -
    have "int (length t) - (int j - int i) = int (length ?t)" using lt ij by simp
    then show ?thesis using put_at_append [of ?t y r NUL] yr by simp
  qed
  have lr: "length r = length c + length junk" using arg_cong [OF yr, of length] by simp
  let ?s1 = "if doing_an_undo s then s else rl_add_undo UNDO_DELETE (int i) (int j) (Some ?d) s"
  have "rl_delete_text (int a) (int e) s =
      Some (?s1\<lparr>rl_line_buffer := ?t @ NUL # r, rl_end := rl_end s - (int j - int i)\<rparr>, int j - int i)"
    unfolding rl_delete_text_def db Let_def prod.case cp k
    using c(2) pn e ij by (simp add: b of_nat_diff rl_add_undo_def)
  then show ?thesis
    using e ij n b lr c(1) lt by (auto simp: kept_def rl_add_undo_def of_nat_diff)
qed

text \<open>With the cursor inside what is left, or moved there, the buffer holds the shorter line.\<close>

lemma delete_text_holds:
  assumes "line_holds s t p" and "i \<le> j" and "j \<le> length t" and "a = i \<and> e = j \<or> a = j \<and> e = i"
  shows "\<exists>s'. rl_delete_text (int a) (int e) s = Some (s', int (j - i)) \<and>
    (\<forall>q \<le> length t - (j - i). line_holds (s'\<lparr>rl_point := int q\<rparr>) (take i t @ drop j t) q) \<and> rl_point s' = int p \<and> kept s s' \<and>
    rl_undo_list s' =
      (if doing_an_undo s then rl_undo_list s
       else rl_undo_list (rl_add_undo UNDO_DELETE (int i) (int j) (Some (take (j - i) (drop i t))) s))"
proof -
  have ij: "min (min a e) (length t) = i" "min (max a e) (length t) = j" using assms by auto
  have "c_string (take i t @ drop j t)" using assms(1) by (simp add: line_holds_def)
  moreover have "rl_point s = int p" using assms(1) by (rule holds_point)
  moreover have "length (take i t @ drop j t) = length t - (j - i)" using assms by simp
  ultimately show ?thesis
    using delete_text_line [OF assms(1), of a e, unfolded ij] assms(2,3) unfolding line_holds_def by auto
qed

subsection \<open>What the undo list undoes\<close>

text \<open>The line that undoing the entries gives, when every entry lies inside the line it applies to.\<close>

fun replay :: "undo_entry list \<Rightarrow> string \<Rightarrow> string option" where
  "replay [] t = Some t"
| "replay (u # us) t =
     (case what u of
        UNDO_DELETE \<Rightarrow>
          (case utext u of
             None \<Rightarrow> None
           | Some x \<Rightarrow>
               if 0 \<le> ustart u \<and> ustart u \<le> int (length t) \<and> c_string x
               then replay us (take (nat (ustart u)) t @ x @ drop (nat (ustart u)) t) else None)
      | UNDO_INSERT \<Rightarrow>
          if 0 \<le> ustart u \<and> ustart u \<le> uend u \<and> uend u \<le> int (length t)
          then replay us (take (nat (ustart u)) t @ drop (nat (uend u)) t) else None
      | _ \<Rightarrow> replay us t)"

definition change :: "undo_entry \<Rightarrow> bool" where
  "change u \<longleftrightarrow> what u = UNDO_DELETE \<or> what u = UNDO_INSERT"

text \<open>Undoing the list down to \<open>us0\<close> gives the line \<open>base\<close>; with \<open>grp\<close> there are only changes above
  \<open>us0\<close>. No further insertion is merged into an entry of \<open>us0\<close>.\<close>

definition undoes :: "bool \<Rightarrow> undo_entry list \<Rightarrow> string \<Rightarrow> undo_entry list \<Rightarrow> string \<Rightarrow> bool" where
  "undoes grp us0 base l t \<longleftrightarrow>
     (\<exists>us. l = us @ us0 \<and> (us = [] \<longrightarrow> us0 = [] \<or> what (hd us0) \<noteq> UNDO_INSERT) \<and> (grp \<longrightarrow> list_all change us) \<and>
           replay us t = Some base)"

lemma undoes_Cons:
  assumes "undoes grp us0 base l t" and "grp \<Longrightarrow> change u" and "\<And>us. replay us t = Some base \<Longrightarrow> replay (u # us) t' = Some base"
  shows "undoes grp us0 base (u # l) t'"
proof -
  from assms(1) obtain us where us: "l = us @ us0" "grp \<longrightarrow> list_all change us" "replay us t = Some base"
    by (auto simp: undoes_def)
  have r: "replay (u # us) t' = Some base" by (rule assms(3) [OF us(3)])
  show ?thesis
    unfolding undoes_def by (rule exI [of _ "u # us"]) (use us(1,2) assms(2) r in \<open>simp del: replay.simps\<close>)
qed

lemma undoes_insert:
  assumes "undoes grp us0 base (rl_undo_list s) t" and "rl_point s = int p" and "p \<le> length t"
  shows "undoes grp us0 base (rl_undo_list (remember_insert (int (length x)) s)) (take p t @ x @ drop p t)"
proof (cases "rl_undo_list (remember_insert (int (length x)) s) =
    rl_undo_list (rl_add_undo UNDO_INSERT (int p) (int p + int (length x)) None s)")
  case True
  show ?thesis
    unfolding True rl_add_undo_def editor.simps editor.ext_inject
    using assms by (auto intro!: undoes_Cons [OF assms(1)] simp: change_def)
next
  case False
  with assms(2) obtain u l where l: "rl_undo_list s = u # l" "length x = 1" "what u = UNDO_INSERT" "uend u = int p"
    "rl_undo_list (remember_insert (int (length x)) s) = u\<lparr>uend := int p + 1\<rparr> # l"
    by (auto simp: remember_insert_def split: list.splits if_splits)
  from assms(1) obtain us where us: "u # l = us @ us0" "us = [] \<longrightarrow> us0 = [] \<or> what (hd us0) \<noteq> UNDO_INSERT"
    "grp \<longrightarrow> list_all change us" "replay us t = Some base" by (auto simp: undoes_def l(1))
  have "us \<noteq> []" using us(1,2) l(3) by auto
  then obtain us' where us': "us = u # us'" using us(1) by (cases us) auto
  let ?u = "u\<lparr>uend := int p + 1\<rparr>"
  have n: "nat (int p + 1) = Suc p" by simp
  have "replay (?u # us') (take p t @ x @ drop p t) = Some base"
    using us(4) l assms(3) unfolding us' by (auto simp: n min_def split: if_splits)
  then show ?thesis
    unfolding undoes_def l(5)
    by (intro exI [of _ "?u # us'"]) (use us us' l in \<open>simp del: replay.simps add: change_def\<close>)
qed

lemma undoes_delete:
  assumes "undoes grp us0 base (rl_undo_list s) t" and "i \<le> j" and "j \<le> length t" and "c_string t"
  shows "undoes grp us0 base
    (rl_undo_list (rl_add_undo UNDO_DELETE (int i) (int j) (Some (take (j - i) (drop i t))) s)) (take i t @ drop j t)"
proof -
  have "t = take i t @ take (j - i) (drop i t) @ drop j t"
    using assms(2) by (metis append_take_drop_id drop_drop le_add_diff_inverse2)
  moreover have "length (take i t) = i" using assms by simp
  ultimately show ?thesis
    unfolding rl_add_undo_def editor.simps editor.ext_inject
    using assms by (auto intro!: undoes_Cons [OF assms(1)] simp: change_def)
qed

subsection \<open>The state between commands\<close>

definition hist_ok :: "history \<Rightarrow> bool" where
  "hist_ok h \<longleftrightarrow>
     (\<exists>es. hist_rep h es \<and> 0 \<le> history_offset h \<and> history_offset h \<le> int (length es) \<and>
           (\<forall>e \<in> set es. timestamp e \<noteq> None))"

definition ring_inv :: "string option list option \<Rightarrow> int \<Rightarrow> int \<Rightarrow> bool" where
  "ring_inv ring i n \<longleftrightarrow>
     (case ring of
        None \<Rightarrow> True
      | Some r \<Rightarrow>
          0 \<le> i \<and> i < n \<and> n \<le> int (length r) \<and> list_all (\<lambda>x. \<exists>y. x = Some y \<and> c_string y) (take (nat n) r))"

definition ring_ok :: "editor \<Rightarrow> bool" where
  "ring_ok s \<longleftrightarrow> 0 \<le> last_command_was_kill s \<and> ring_inv (rl_kill_ring s) (rl_kill_index s) (rl_kill_ring_length s)"

definition okay :: "bool \<Rightarrow> undo_entry list \<Rightarrow> string \<Rightarrow> string \<Rightarrow> nat \<Rightarrow> editor \<Rightarrow> bool" where
  "okay grp us0 base t p s \<longleftrightarrow>
     line_holds s t p \<and> undoes grp us0 base (rl_undo_list s) t \<and> \<not> doing_an_undo s \<and> hist_ok (hist s) \<and> ring_ok s"

lemma okayD:
  assumes "okay grp us0 base t p s"
  shows "line_holds s t p" "undoes grp us0 base (rl_undo_list s) t" "\<not> doing_an_undo s" "hist_ok (hist s)" "ring_ok s"
    "rl_point s = int p" "rl_end s = int (length t)" "p \<le> length t" "c_string t"
  using assms by (auto simp: okay_def line_holds_def)

lemma okay_move: "okay grp us0 base t p s \<Longrightarrow> q \<le> length t \<Longrightarrow> okay grp us0 base t q (s\<lparr>rl_point := int q\<rparr>)"
  by (auto simp: okay_def ring_ok_def holds_move)

lemma kept_ring_ok: "kept s s' \<Longrightarrow> ring_ok s' = ring_ok s"
  by (simp add: kept_def ring_ok_def)

lemma okay_insert:
  assumes "okay grp us0 base t p s" and "c_string x"
  shows "\<exists>s'. rl_insert_text x s = Some (s', int (length x)) \<and>
    okay grp us0 base (take p t @ x @ drop p t) (p + length x) s' \<and> kept s s'"
proof (cases "x = []")
  case True
  with assms show ?thesis by (auto simp: rl_insert_text_def)
next
  case False
  note s = okayD [OF assms(1)]
  from insert_text_line [OF s(1) assms(2) False] obtain s' where s':
    "rl_insert_text x s = Some (s', int (length x))" "line_holds s' (take p t @ x @ drop p t) (p + length x)" "kept s s'"
    "rl_undo_list s' = rl_undo_list (remember_insert (int (length x)) s)" using s(3) by auto
  have "hist s' = hist s" "doing_an_undo s' = doing_an_undo s" using s'(3) by (simp_all add: kept_def)
  with s' show ?thesis
    using undoes_insert [OF s(2,6,8), of x] s kept_ring_ok [OF s'(3)] by (auto simp: okay_def)
qed

lemma okay_delete:
  assumes "okay grp us0 base t p s" and "i \<le> j" and "j \<le> length t" and "a = i \<and> e = j \<or> a = j \<and> e = i"
  shows "\<exists>s'. rl_delete_text (int a) (int e) s = Some (s', int (j - i)) \<and>
    (\<forall>q \<le> length t - (j - i). okay grp us0 base (take i t @ drop j t) q (s'\<lparr>rl_point := int q\<rparr>)) \<and>
    rl_point s' = int p \<and> kept s s'"
proof -
  note s = okayD [OF assms(1)]
  from delete_text_holds [OF s(1) assms(2-4)] obtain s' where s':
    "rl_delete_text (int a) (int e) s = Some (s', int (j - i))"
    "\<forall>q \<le> length t - (j - i). line_holds (s'\<lparr>rl_point := int q\<rparr>) (take i t @ drop j t) q" "rl_point s' = int p" "kept s s'"
    "rl_undo_list s' = rl_undo_list (rl_add_undo UNDO_DELETE (int i) (int j) (Some (take (j - i) (drop i t))) s)"
    using s(3) by auto
  have "hist s' = hist s" "doing_an_undo s' = doing_an_undo s" using s'(4) by (simp_all add: kept_def)
  moreover have "ring_ok (s'\<lparr>rl_point := q\<rparr>)" for q using kept_ring_ok [OF s'(4)] s(5) by (simp add: ring_ok_def)
  ultimately show ?thesis
    using s' undoes_delete [OF s(2) assms(2,3) s(9)] s(3,4) by (auto simp: okay_def)
qed

lemma okay_delete_at:
  assumes "okay grp us0 base t p s" and "i \<le> j" and "j \<le> length t" and "a = i \<and> e = j \<or> a = j \<and> e = i"
    and "p \<le> length t - (j - i)"
  shows "\<exists>s'. rl_delete_text (int a) (int e) s = Some (s', int (j - i)) \<and>
    okay grp us0 base (take i t @ drop j t) p s' \<and> kept s s'"
proof -
  from okay_delete [OF assms(1-4)] obtain s' where s': "rl_delete_text (int a) (int e) s = Some (s', int (j - i))"
    "okay grp us0 base (take i t @ drop j t) p (s'\<lparr>rl_point := int p\<rparr>)" "rl_point s' = int p" "kept s s'"
    using assms(5) by auto
  moreover have "s'\<lparr>rl_point := int p\<rparr> = s'" using s'(3) by simp
  ultimately show ?thesis by metis
qed

lemma okay_group_mark:
  assumes "okay grp us0 base t p s" and "\<not> grp"
  shows "okay grp us0 base t p (rl_begin_undo_group s)" "okay grp us0 base t p (rl_end_undo_group s)"
    "kept s (rl_begin_undo_group s)" "kept s (rl_end_undo_group s)"
proof -
  have "undoes grp us0 base (u # rl_undo_list s) t" if "what u = UNDO_BEGIN \<or> what u = UNDO_END" for u
    by (rule undoes_Cons [OF okayD(2) [OF assms(1)]]) (use assms(2) that in auto)
  then show "okay grp us0 base t p (rl_begin_undo_group s)" "okay grp us0 base t p (rl_end_undo_group s)"
    "kept s (rl_begin_undo_group s)" "kept s (rl_end_undo_group s)"
    using assms(1)
    by (simp_all add: okay_def line_holds_def ring_ok_def kept_def rl_begin_undo_group_def rl_end_undo_group_def rl_add_undo_def)
qed

subsection \<open>The history entry being edited\<close>

lemma current_history_rep:
  assumes "hist_rep h es" and "0 \<le> history_offset h" and "history_offset h \<le> int (length es)"
  shows "current_history h =
    Some (if nat (history_offset h) < length es then HEntry (es ! nat (history_offset h)) else HNull)"
proof (cases "nat (history_offset h) < length es")
  case True
  with assms obtain rest where b: "the_history h = map HEntry es @ HNull # rest" by (auto simp: hist_rep_def)
  have l: "history_length h = int (length es)" using assms(1) by (simp add: hist_rep_def)
  show ?thesis using read_entry [OF b True] assms(2) True l by (auto simp: current_history_def b)
next
  case False
  with assms show ?thesis by (auto simp: current_history_def hist_rep_def)
qed

lemma replace_history_entry_rep:
  assumes "hist_rep h es" and "w < length es" and "timestamp (es ! w) = Some ts"
  shows "\<exists>h'. replace_history_entry (int w) ln d h = Some (h', Some (es ! w)) \<and>
    hist_rep h' (es[w := \<lparr>line = Some ln, timestamp = Some ts, hdata = d\<rparr>]) \<and> history_offset h' = history_offset h"
proof -
  let ?e = "\<lparr>line = Some ln, timestamp = Some ts, hdata = d\<rparr>"
  from assms obtain rest where b: "the_history h = map HEntry es @ HNull # rest" by (auto simp: hist_rep_def)
  have l: "history_length h = int (length es)" using assms(1) by (simp add: hist_rep_def)
  have "write_slot (the_history h) (int w) (HEntry ?e) = Some (map HEntry (es[w := ?e]) @ HNull # rest)"
    using assms(2) by (simp add: write_slot_def b list_update_append map_update)
  then have "replace_history_entry (int w) ln d h =
      Some (h\<lparr>the_history := map HEntry (es[w := ?e]) @ HNull # rest\<rparr>, Some (es ! w))"
    using read_entry [OF b assms(2)] assms(2,3) l by (simp add: replace_history_entry_def)
  with assms(1) b show ?thesis by (auto simp: hist_rep_def)
qed

lemma replace_history_data_rep:
  assumes "hist_rep h es"
  shows "hist_rep (replace_history_data (-1) old new h) (map (\<lambda>e. if hdata e = old then e\<lparr>hdata := new\<rparr> else e) es) \<and>
    history_offset (replace_history_data (-1) old new h) = history_offset h"
proof (cases "es = []")
  case True
  with assms show ?thesis by (auto simp: replace_history_data_def hist_rep_def)
next
  case False
  let ?f = "\<lambda>e. if hdata e = old then e\<lparr>hdata := new\<rparr> else e"
  from assms False obtain rest where b: "the_history h = map HEntry es @ HNull # rest" by (auto simp: hist_rep_def)
  have l: "history_length h = int (length es)" using assms(1) by (simp add: hist_rep_def)
  have "map (set_data old new) (map HEntry es) = map HEntry (map ?f es)" by (simp add: set_data_def)
  then have "replace_history_data (-1) old new h = h\<lparr>the_history := map HEntry (map ?f es) @ HNull # rest\<rparr>"
    using l False by (simp add: replace_history_data_def b Let_def)
  with assms b show ?thesis by (auto simp: hist_rep_def)
qed

lemma undo_history_rep:
  assumes "hist_rep h es" and "0 \<le> history_offset h" and "history_offset h \<le> int (length es)"
    and "\<forall>e \<in> set es. timestamp e \<noteq> None" and "c_str b 0 = Some ln"
  defines "o1 \<equiv> nat (history_offset h)"
  shows "\<exists>h' es'. undo_history u us b h = Some h' \<and> hist_rep h' es' \<and> history_offset h' = history_offset h \<and>
    length es' = length es \<and> (\<forall>e \<in> set es'. timestamp e \<noteq> None) \<and>
    (o1 < length es \<and> hdata (es ! o1) \<noteq> 0 \<and> hdata (es ! o1) = uaddr u \<longrightarrow>
       line (es' ! o1) = Some ln \<and> hdata (es' ! o1) = undo_ptr us)"
proof -
  let ?f = "\<lambda>e. if hdata e = uaddr u then e\<lparr>hdata := undo_ptr us\<rparr> else e"
  note cur = current_history_rep [OF assms(1-3), folded o1_def]
  have off: "where_history h = int o1" using assms(2) by (simp add: where_history_def o1_def)
  show ?thesis
  proof (cases "o1 < length es \<and> hdata (es ! o1) \<noteq> 0 \<and> hdata (es ! o1) = uaddr u")
    case True
    with assms(4) obtain ts where ts: "timestamp (es ! o1) = Some ts" by (metis not_None_eq nth_mem)
    let ?e = "\<lparr>line = Some ln, timestamp = Some ts, hdata = undo_ptr us\<rparr>"
    from replace_history_entry_rep [OF assms(1) _ ts] True obtain h1 where h1:
      "replace_history_entry (int o1) ln (undo_ptr us) h = Some (h1, Some (es ! o1))" "hist_rep h1 (es[o1 := ?e])"
      "history_offset h1 = history_offset h" by blast
    let ?es = "map ?f (es[o1 := ?e])"
    have "undo_history u us b h = Some (replace_history_data (-1) (uaddr u) (undo_ptr us) h1)"
      using True cur off assms(5) h1(1) by (simp add: undo_history_def)
    moreover have "\<forall>e \<in> set ?es. timestamp e \<noteq> None"
      using assms(4) by (auto dest!: set_update_subset_insert [THEN subsetD])
    moreover have "line (?es ! o1) = Some ln" "hdata (?es ! o1) = undo_ptr us" using True by simp_all
    ultimately show ?thesis
      using replace_history_data_rep [OF h1(2), of "uaddr u" "undo_ptr us"] h1(3)
      by (intro exI [of _ "replace_history_data (-1) (uaddr u) (undo_ptr us) h1"] exI [of _ ?es]) simp
  next
    case False
    then have "undo_history u us b h = Some (replace_history_data (-1) (uaddr u) (undo_ptr us) h)"
      using cur by (auto simp: undo_history_def)
    moreover have "\<forall>e \<in> set (map ?f es). timestamp e \<noteq> None" using assms(4) by auto
    ultimately show ?thesis
      using replace_history_data_rep [OF assms(1), of "uaddr u" "undo_ptr us"] False
      by (intro exI [of _ "replace_history_data (-1) (uaddr u) (undo_ptr us) h"] exI [of _ "map ?f es"]) auto
  qed
qed

lemma undo_history_ok:
  "hist_ok h \<Longrightarrow> c_str b 0 = Some ln \<Longrightarrow> \<exists>h'. undo_history u us b h = Some h' \<and> hist_ok h'"
  unfolding hist_ok_def by (metis undo_history_rep)

subsection \<open>Undoing\<close>

text \<open>One entry: the text it gives is the one \<open>replay\<close> continues with.\<close>

lemma undo_change_line:
  assumes "line_holds s t p" and "doing_an_undo s" and "replay (u # us) t = Some base"
  shows "\<exists>s' w' t' p'. undo_change u w s = Some (s', w') \<and> line_holds s' t' p' \<and> replay us t' = Some base \<and>
    (change u \<longrightarrow> w' = w) \<and> (what u = UNDO_BEGIN \<longrightarrow> w' = w - 1) \<and> (what u = UNDO_END \<longrightarrow> w' = w + 1) \<and>
    kept s s' \<and> rl_undo_list s' = rl_undo_list s"
proof (cases "what u")
  case UNDO_DELETE
  with assms(3) obtain x a where u: "utext u = Some x" "ustart u = int a" "a \<le> length t" "c_string x"
    "replay us (take a t @ x @ drop a t) = Some base"
    by (auto split: option.splits if_splits elim!: nonneg_int_cases)
  let ?s = "s\<lparr>rl_point := int a\<rparr>"
  have h: "line_holds ?s t a" using holds_move [OF assms(1) u(3)] .
  have k: "kept s ?s" by (simp add: kept_def)
  have tr: "TRANS (ustart u) s = int a" by (simp add: TRANS_def u(2))
  show ?thesis
  proof (cases "x = []")
    case True
    then have "undo_change u w s = Some (?s, w)" by (simp add: undo_change_def UNDO_DELETE u(1) tr rl_insert_text_def)
    with h k u(5) True UNDO_DELETE show ?thesis
      by (intro exI [of _ ?s] exI [of _ w] exI [of _ t] exI [of _ a]) simp
  next
    case False
    from insert_text_line [OF h u(4) False] obtain s' where s': "rl_insert_text x ?s = Some (s', int (length x))"
      "line_holds s' (take a t @ x @ drop a t) (a + length x)" "kept ?s s'" "rl_undo_list s' = rl_undo_list s"
      using assms(2) by auto
    then have "undo_change u w s = Some (s', w)" by (simp add: undo_change_def UNDO_DELETE u(1) tr)
    with s' u(5) kept_trans [OF k s'(3)] UNDO_DELETE show ?thesis
      by (intro exI [of _ s'] exI [of _ w] exI [of _ "take a t @ x @ drop a t"] exI [of _ "a + length x"]) simp
  qed
next
  case UNDO_INSERT
  define a e where "a = nat (ustart u)" and "e = nat (uend u)"
  with assms(3) UNDO_INSERT have u: "ustart u = int a" "uend u = int e" "a \<le> e" "e \<le> length t"
    "replay us (take a t @ drop e t) = Some base"
    by (auto split: if_splits)
  have tr: "TRANS (ustart u) s = int a" "TRANS (uend u) s = int e" by (simp_all add: TRANS_def u)
  from delete_text_holds [OF assms(1) u(3,4), of a e] obtain s' where s':
    "rl_delete_text (int a) (int e) s = Some (s', int (e - a))"
    "\<forall>q \<le> length t - (e - a). line_holds (s'\<lparr>rl_point := int q\<rparr>) (take a t @ drop e t) q" "kept s s'"
    "rl_undo_list s' = rl_undo_list s" using assms(2) by auto
  have "undo_change u w s = Some (s'\<lparr>rl_point := int a\<rparr>, w)" by (simp add: undo_change_def UNDO_INSERT tr s'(1))
  moreover have "line_holds (s'\<lparr>rl_point := int a\<rparr>) (take a t @ drop e t) a" using s'(2) u(3,4) by simp
  moreover have "kept s (s'\<lparr>rl_point := int a\<rparr>)" using s'(3) by (simp add: kept_def)
  ultimately show ?thesis using u(5) s'(4) UNDO_INSERT
    by (intro exI [of _ "s'\<lparr>rl_point := int a\<rparr>"] exI [of _ w] exI [of _ "take a t @ drop e t"] exI [of _ a]) simp
qed (use assms in \<open>auto simp: undo_change_def change_def\<close>)

text \<open>One round of \<^verbatim>\<open>rl_do_undo\<close>.\<close>

definition idle :: "editor \<Rightarrow> string \<Rightarrow> nat \<Rightarrow> bool" where
  "idle s t p \<longleftrightarrow> line_holds s t p \<and> \<not> doing_an_undo s \<and> hist_ok (hist s) \<and> ring_ok s"

lemma undo_round:
  assumes "idle s t p" and "replay [u] t = Some t'"
  shows "\<exists>s' w' p'. undo_loop (u # us) w s = (if w' \<noteq> 0 then undo_loop us w' s' else Some (s', 1)) \<and>
    idle s' t' p' \<and> rl_undo_list s' = us \<and>
    (change u \<longrightarrow> w' = w) \<and> (what u = UNDO_BEGIN \<longrightarrow> w' = w - 1) \<and> (what u = UNDO_END \<longrightarrow> w' = w + 1) \<and>
    last_command_was_kill s' = last_command_was_kill s"
proof -
  let ?s = "s\<lparr>doing_an_undo := True\<rparr>"
  have s: "line_holds ?s t p" using assms(1) by (simp add: idle_def line_holds_def)
  have "doing_an_undo ?s" by simp
  from undo_change_line [OF s this assms(2), of w] obtain s1 w' p' where
    s1: "undo_change u w ?s = Some (s1, w')" "line_holds s1 t' p'" "change u \<longrightarrow> w' = w"
    "what u = UNDO_BEGIN \<longrightarrow> w' = w - 1" "what u = UNDO_END \<longrightarrow> w' = w + 1" "kept ?s s1"
    by auto
  have k: "hist s1 = hist s" "ring_ok s1" using s1(6) kept_ring_ok [OF s1(6)] assms(1)
    by (simp_all add: kept_def idle_def ring_ok_def)
  have c: "c_str (rl_line_buffer s1) 0 = Some t'" using holds_c_str [OF s1(2), of 0] by simp
  from undo_history_ok [OF _ c, of "hist s1" u us] obtain h where
    h: "undo_history u us (rl_line_buffer s1) (hist s1) = Some h" "hist_ok h" using k assms(1) by (auto simp: idle_def)
  let ?s2 = "s1\<lparr>doing_an_undo := False, rl_undo_list := us, hist := h\<rparr>"
  have "undo_loop (u # us) w s = (if w' \<noteq> 0 then undo_loop us w' ?s2 else Some (?s2, 1))"
    using s1(1) h(1) by simp
  moreover have "idle ?s2 t' p'" using s1(2) h(2) k(2) by (simp add: idle_def line_holds_def ring_ok_def)
  moreover have "last_command_was_kill ?s2 = last_command_was_kill s" using s1(6) by (simp add: kept_def)
  ultimately show ?thesis using s1(3-5)
    by (intro exI [of _ ?s2] exI [of _ w'] exI [of _ p']) simp
qed

lemma replay_Cons: "replay (u # us) t = Option.bind (replay [u] t) (replay us)"
  by (cases "what u") (auto split: option.splits)

declare replay.simps(2) [simp del]

lemma undo_loop_returns:
  assumes "idle s t p" and "rl_undo_list s = us" and "replay us t = Some base"
  shows "\<exists>s' r t' p'. undo_loop us w s = Some (s', r) \<and> idle s' t' p' \<and> replay (rl_undo_list s') t' = Some base \<and>
    length (rl_undo_list s') \<le> length us - 1 \<and> last_command_was_kill s' = last_command_was_kill s"
  using assms
proof (induction us arbitrary: s t p w)
  case Nil
  then show ?case by auto
next
  case (Cons u us)
  from Cons.prems(3) obtain t1 where t1: "replay [u] t = Some t1" "replay us t1 = Some base"
    unfolding replay_Cons [of u us] by (auto simp: bind_eq_Some_conv)
  from undo_round [OF Cons.prems(1) t1(1), of us w] obtain s1 w1 p1 where
    s1: "undo_loop (u # us) w s = (if w1 \<noteq> 0 then undo_loop us w1 s1 else Some (s1, 1))"
    "idle s1 t1 p1" "rl_undo_list s1 = us" "last_command_was_kill s1 = last_command_was_kill s" by blast
  show ?case
  proof (cases "w1 = 0")
    case True
    with s1 t1 show ?thesis by (intro exI [of _ s1] exI [of _ 1] exI [of _ t1] exI [of _ p1]) simp
  next
    case False
    from Cons.IH [OF s1(2,3) t1(2), of w1] False s1(1,4) show ?thesis by fastforce
  qed
qed

lemma undo_changes:
  assumes "idle s t p" and "replay us t = Some base" and "list_all change us" and "what b = UNDO_BEGIN"
  shows "\<exists>s' p'. undo_loop (us @ b # us0) 1 s = Some (s', 1) \<and> idle s' base p' \<and> rl_undo_list s' = us0"
  using assms
proof (induction us arbitrary: s t p)
  case Nil
  have "replay [b] t = Some base" using Nil.prems(2,4) by (simp add: replay.simps)
  from undo_round [OF Nil.prems(1) this, of us0 1] Nil.prems(4) show ?case by (auto simp del: undo_loop.simps)
next
  case (Cons u us)
  from Cons.prems(2) obtain t1 where t1: "replay [u] t = Some t1" "replay us t1 = Some base"
    unfolding replay_Cons [of u us] by (auto simp: bind_eq_Some_conv)
  from undo_round [OF Cons.prems(1) t1(1), of "us @ b # us0" 1] Cons.prems(3) obtain s1 p1 where
    "undo_loop ((u # us) @ b # us0) 1 s = undo_loop (us @ b # us0) 1 s1" "idle s1 t1 p1"
    by (auto simp del: undo_loop.simps)
  with Cons.IH [of s1 t1 p1] t1(2) Cons.prems(3,4) show ?case by (auto simp del: undo_loop.simps)
qed

lemma undo_group:
  assumes "idle s t p" and "rl_undo_list s = e # us @ b # us0" and "replay us t = Some base"
    and "list_all change us" and "what e = UNDO_END" and "what b = UNDO_BEGIN"
  shows "\<exists>s' p'. rl_do_undo s = Some (s', 1) \<and> idle s' base p' \<and> rl_undo_list s' = us0"
proof -
  have "replay [e] t = Some t" using assms(5) by (simp add: replay.simps)
  from undo_round [OF assms(1) this, of "us @ b # us0" 0] assms(5) obtain s1 p1 where
    "rl_do_undo s = undo_loop (us @ b # us0) 1 s1" "idle s1 t p1"
    unfolding rl_do_undo_def assms(2) by (auto simp del: undo_loop.simps)
  with undo_changes [of s1 t p1 us base b us0] assms(3,4,6) show ?thesis by auto
qed

lemma okay_idle: "okay False [] base t p s \<longleftrightarrow> idle s t p \<and> replay (rl_undo_list s) t = Some base"
  by (auto simp: okay_def idle_def undoes_def)

lemma do_undo_okay:
  assumes "okay False [] base t p s"
  shows "\<exists>s' r t' p'. rl_do_undo s = Some (s', r) \<and> okay False [] base t' p' s' \<and>
    length (rl_undo_list s') \<le> length (rl_undo_list s) - 1 \<and> last_command_was_kill s' = last_command_was_kill s"
  using undo_loop_returns [of s t p "rl_undo_list s" base 0] assms unfolding okay_idle rl_do_undo_def by blast

lemma revert_loop_okay:
  assumes "okay False [] base t p s" and "length (rl_undo_list s) \<le> k"
  shows "\<exists>s' p'. revert_loop k s = Some s' \<and> okay False [] base base p' s' \<and> rl_undo_list s' = [] \<and>
    last_command_was_kill s' = last_command_was_kill s"
  using assms
proof (induction k arbitrary: s t p)
  case 0
  then show ?case by (auto simp: okay_idle)
next
  case (Suc k)
  show ?case
  proof (cases "rl_undo_list s = []")
    case True
    with Suc.prems show ?thesis by (auto simp: okay_idle)
  next
    case False
    from do_undo_okay [OF Suc.prems(1)] obtain s1 r t1 p1 where
      s1: "rl_do_undo s = Some (s1, r)" "okay False [] base t1 p1 s1" "length (rl_undo_list s1) \<le> length (rl_undo_list s) - 1"
      "last_command_was_kill s1 = last_command_was_kill s" by blast
    with Suc.IH [OF s1(2)] Suc.prems(2) False show ?thesis by fastforce
  qed
qed

lemma revert_line_okay:
  assumes "okay False [] base t p s"
  shows "\<exists>s' p'. rl_revert_line s = Some (s', 0) \<and> okay False [] base base p' s' \<and> rl_undo_list s' = [] \<and>
    last_command_was_kill s' = last_command_was_kill s"
proof (cases "rl_undo_list s = []")
  case True
  with assms show ?thesis by (auto simp: okay_idle rl_revert_line_def)
next
  case False
  from revert_loop_okay [OF assms order_refl] obtain s1 p1 where s1: "revert_loop (length (rl_undo_list s)) s = Some s1"
    "okay False [] base base p1 s1" "rl_undo_list s1 = []" "last_command_was_kill s1 = last_command_was_kill s" by blast
  have "okay False [] base base 0 (s1\<lparr>rl_point := 0, rl_mark := 0\<rparr>)"
    using s1(2) by (auto simp: okay_def line_holds_def ring_ok_def)
  with s1 False show ?thesis by (auto simp: rl_revert_line_def)
qed

lemma undo_times_okay:
  assumes "okay False [] base t p s"
  shows "\<exists>s' t' p'. undo_times n s = Some s' \<and> okay False [] base t' p' s' \<and>
    last_command_was_kill s' = last_command_was_kill s"
  using assms
proof (induction n arbitrary: s t p)
  case (Suc n)
  from do_undo_okay [OF Suc.prems] obtain s1 r t1 p1 where s1: "rl_do_undo s = Some (s1, r)"
    "okay False [] base t1 p1 s1" "last_command_was_kill s1 = last_command_was_kill s" by blast
  with Suc.IH [OF s1(2)] show ?case by fastforce
qed auto

end
