(* ===== verification/EditCommands.thy ===== *)
theory EditCommands
  imports EditSpec
begin

text \<open>
  The commands of the line editor. \<open>yields\<close> is the weakest precondition of a computation that may read
  outside its memory: it returns, and the value it returns has the property. The rules for the
  primitive changes carry the proofs of the commands.
\<close>

subsection \<open>Computations that return\<close>

definition yields :: "'a option \<Rightarrow> ('a \<Rightarrow> bool) \<Rightarrow> bool" where
  "yields r Q \<longleftrightarrow> (\<exists>x. r = Some x \<and> Q x)"

lemma yields_Some [simp]: "yields (Some x) Q \<longleftrightarrow> Q x"
  and yields_None [simp]: "\<not> yields None Q"
  by (simp_all add: yields_def)

lemma yields_bind [simp]: "yields (Option.bind r f) Q \<longleftrightarrow> yields r (\<lambda>x. yields (f x) Q)"
  by (cases r) simp_all

lemma yields_map [simp]: "yields (map_option f r) Q \<longleftrightarrow> yields r (\<lambda>x. Q (f x))"
  by (cases r) simp_all

lemma yields_mono: "yields r P \<Longrightarrow> (\<And>x. P x \<Longrightarrow> Q x) \<Longrightarrow> yields r Q"
  by (auto simp: yields_def)

subsection \<open>What an invariant state does not depend on\<close>

lemma okay_frame [simp]:
  "okay g us0 base t p (s\<lparr>rl_mark := m\<rparr>) = okay g us0 base t p s"
  "okay g us0 base t p (s\<lparr>rl_explicit_arg := x\<rparr>) = okay g us0 base t p s"
  "okay g us0 base t p (s\<lparr>rl_last_func := f\<rparr>) = okay g us0 base t p s"
  "okay g us0 base t p (s\<lparr>aborted := a\<rparr>) = okay g us0 base t p s"
  "okay g us0 base t p (s\<lparr>macro_input := a\<rparr>) = okay g us0 base t p s"
  "okay g us0 base t p (s\<lparr>pushed_input := i\<rparr>) = okay g us0 base t p s"
  by (simp_all add: okay_def line_holds_def ring_ok_def)

lemma okay_kill_count:
  "okay g us0 base t p s \<Longrightarrow> okay g us0 base t p (count_kill s)"
  "okay g us0 base t p s \<Longrightarrow> okay g us0 base t p (s\<lparr>last_command_was_kill := 0\<rparr>)"
  by (auto simp: okay_def line_holds_def ring_ok_def count_kill_def)

lemma okay_emacs_mark [simp]: "okay g us0 base t p (emacs_mark s) = okay g us0 base t p s"
  by (simp add: emacs_mark_def)

lemma okay_abort [simp]: "okay g us0 base t p (abort_internal s) = okay g us0 base t p s"
  by (simp add: abort_internal_def okay_def line_holds_def ring_ok_def)

lemma okay_ring:
  "okay g us0 base t p s \<Longrightarrow> ring_inv r i n \<Longrightarrow>
   okay g us0 base t p (s\<lparr>rl_kill_ring := r, rl_kill_index := i, rl_kill_ring_length := n\<rparr>)"
  by (simp add: okay_def line_holds_def ring_ok_def)

lemma kept_frame [simp]:
  "kept (s\<lparr>pushed_input := i\<rparr>) s' = kept s s'" "kept (s\<lparr>rl_point := p\<rparr>) s' = kept s s'"
  "kept s (s'\<lparr>rl_point := p\<rparr>) = kept s s'"
  by (simp_all add: kept_def)

text \<open>The state after a command: the editor holds some line, and undoing still gives \<open>base\<close>.\<close>

definition undoable :: "bool \<Rightarrow> undo_entry list \<Rightarrow> string \<Rightarrow> editor \<Rightarrow> bool" where
  "undoable g us0 base s \<longleftrightarrow> (\<exists>t p. okay g us0 base t p s)"

lemma undoableI: "okay g us0 base t p s \<Longrightarrow> undoable g us0 base s"
  by (auto simp: undoable_def)

lemma undoable_frame [simp]:
  "undoable g us0 base (s\<lparr>rl_mark := m\<rparr>) = undoable g us0 base s"
  "undoable g us0 base (emacs_mark s) = undoable g us0 base s"
  "undoable g us0 base (abort_internal s) = undoable g us0 base s"
  by (simp_all add: undoable_def)

subsection \<open>Rules for the primitive changes\<close>

lemma insert_yields:
  assumes "okay g us0 base t p s" and "c_string x"
  shows "yields (rl_insert_text x s) (\<lambda>(s', n). okay g us0 base (take p t @ x @ drop p t) (p + length x) s' \<and> kept s s')"
  using okay_insert [OF assms] by (auto simp: yields_def)

lemma delete_yields:
  assumes "okay g us0 base t p s" and "a \<le> length t" and "e \<le> length t"
  shows "yields (rl_delete_text (int a) (int e) s) (\<lambda>(s', n).
    (\<forall>q \<le> length t - (max a e - min a e). okay g us0 base (take (min a e) t @ drop (max a e) t) q (s'\<lparr>rl_point := int q\<rparr>)) \<and>
    rl_point s' = int p \<and> kept s s')"
proof -
  have "a = min a e \<and> e = max a e \<or> a = max a e \<and> e = min a e" "min a e \<le> max a e" by auto
  from okay_delete [OF assms(1) this(2) _ this(1)] assms show ?thesis by (auto simp: yields_def)
qed

lemma delete_at_yields:
  assumes "okay g us0 base t p s" and "a \<le> length t" and "e \<le> length t" and "p \<le> length t - (max a e - min a e)"
  shows "yields (rl_delete_text (int a) (int e) s) (\<lambda>(s', n).
    okay g us0 base (take (min a e) t @ drop (max a e) t) p s' \<and> kept s s')"
proof -
  have "a = min a e \<and> e = max a e \<or> a = max a e \<and> e = min a e" "min a e \<le> max a e" by auto
  from okay_delete_at [OF assms(1) this(2) _ this(1) assms(4)] assms(2,3) show ?thesis by (auto simp: yields_def)
qed

lemma delete_then_move:
  assumes "okay g us0 base t p s" and "a \<le> length t" and "e \<le> length t" and "q \<le> length t - (max a e - min a e)"
  shows "yields (rl_delete_text (int a) (int e) s) (\<lambda>x. undoable g us0 base ((fst x)\<lparr>rl_point := int q\<rparr>))"
  by (rule yields_mono [OF delete_yields [OF assms(1-3)]])
    (use assms(4) in \<open>simp only: case_prod_beta, blast intro: undoableI\<close>)

lemma delete_ready:
  assumes "okay g us0 base t p s" and "a \<le> length t" and "e \<le> length t" and "p \<le> length t - (max a e - min a e)"
  shows "yields (rl_delete_text (int a) (int e) s) (\<lambda>x. undoable g us0 base (fst x) \<and> kept s (fst x))"
  by (rule yields_mono [OF delete_at_yields [OF assms]]) (auto intro: undoableI)

text \<open>A kill works unless the ring is full, or the last command counted as a kill without a ring.\<close>

definition may_kill :: "editor \<Rightarrow> bool" where
  "may_kill s \<longleftrightarrow>
     (if last_command_was_kill s = 0 then rl_kill_ring s = None \<or> rl_kill_ring_length s \<noteq> DEFAULT_MAX_KILLS
      else rl_kill_ring s \<noteq> None)"

lemma kept_may_kill: "kept s s' \<Longrightarrow> may_kill s' = may_kill s"
  by (simp add: kept_def may_kill_def)

definition text_slot :: "string option \<Rightarrow> bool" where
  "text_slot x \<longleftrightarrow> (case x of None \<Rightarrow> False | Some y \<Rightarrow> c_string y)"

lemma text_slot_simps [simp]: "text_slot (Some y) = c_string y" "\<not> text_slot None"
  by (simp_all add: text_slot_def)

lemma ring_inv_Some:
  "ring_inv (Some r) i n \<longleftrightarrow> 0 \<le> i \<and> i < n \<and> n \<le> int (length r) \<and> list_all text_slot (take (nat n) r)"
proof -
  have "(\<lambda>x. \<exists>y. x = Some y \<and> c_string y) = text_slot" by (auto simp: text_slot_def fun_eq_iff split: option.splits)
  then show ?thesis by (simp add: ring_inv_def)
qed

lemma kill_slot_yields:
  assumes "ring_ok s" and "may_kill s"
  shows "yields (kill_slot s) (\<lambda>(s', slot). \<exists>r k. slot = int k \<and> k < length r \<and> list_all text_slot (take k r) \<and>
    (last_command_was_kill s \<noteq> 0 \<longrightarrow> text_slot (r ! k)) \<and>
    s' = s\<lparr>rl_kill_ring := Some r, rl_kill_ring_length := int k + 1\<rparr>)"
proof (cases "rl_kill_ring s")
  case None
  with assms(2) have "kill_slot s = Some (s\<lparr>rl_kill_ring_length := 1, rl_kill_ring := Some [None, None]\<rparr>, 0)"
    and "last_command_was_kill s = 0" by (auto simp: kill_slot_def may_kill_def split: if_splits)
  then show ?thesis by (intro yields_def [THEN iffD2] exI conjI) (auto intro!: exI [of _ "[None, None]"])
next
  case (Some r)
  define k where "k = nat (rl_kill_ring_length s - 1)"
  have r: "rl_kill_ring_length s = int k + 1" "k < length r" "list_all text_slot (take (Suc k) r)"
    using assms(1) Some by (auto simp: ring_ok_def ring_inv_Some k_def nat_diff_distrib Suc_nat_eq_nat_zadd1)
  have last: "list_all text_slot (take k r)" "text_slot (r ! k)"
    using r(2,3) by (simp_all add: take_Suc_conv_app_nth)
  show ?thesis
  proof (cases "last_command_was_kill s = 0")
    case True
    with assms(2) Some have m: "rl_kill_ring_length s \<noteq> DEFAULT_MAX_KILLS" by (simp add: may_kill_def)
    let ?r = "resize (\<lambda>_. None) (Suc (Suc k)) r"
    have len: "length ?r = Suc (Suc k)" and tk: "take (Suc k) ?r = take (Suc k) r"
      using r(2) by (auto simp: resize_def min_def)
    have "store_at ?r (1 + int k) None = Some (?r[Suc k := None])"
      using len by (simp add: store_at_def nat_add_distrib)
    moreover have "nat (int k + 1 + 1) = Suc (Suc k)" by simp
    ultimately have "kill_slot s =
        Some (s\<lparr>rl_kill_ring_length := int k + 1 + 1, rl_kill_ring := Some (?r[Suc k := None])\<rparr>, int k + 1)"
      using True Some m unfolding kill_slot_def Let_def r(1) by simp
    then show ?thesis using r(3) len tk True
      by (intro yields_def [THEN iffD2] exI conjI) (auto intro!: exI [of _ "?r[Suc k := None]"] exI [of _ "Suc k"])
  next
    case False
    then have "kill_slot s = Some (s, int k)" by (simp add: kill_slot_def r(1))
    with last r Some show ?thesis by (auto intro!: exI [of _ r])
  qed
qed

lemma fill_slot:
  assumes "k < length r" and "c_string z" and "list_all text_slot (take k r)"
  shows "yields (store_at r (int k) (Some z)) (\<lambda>r'. ring_inv (Some r') (int k) (int k + 1))"
proof -
  have "take (Suc k) (r[k := Some z]) = take k r @ [Some z]" using assms(1) by (simp add: take_Suc_conv_app_nth)
  with assms show ?thesis by (simp add: store_at_def ring_inv_Some nat_add_distrib)
qed

lemma copy_to_kill_ring_yields:
  assumes "ring_ok s" and "may_kill s" and "c_string x"
  shows "yields (copy_to_kill_ring x a s) (\<lambda>s'. \<exists>r i n. ring_inv (Some r) i n \<and>
    s' = s\<lparr>rl_kill_ring := Some r, rl_kill_index := i, rl_kill_ring_length := n\<rparr>)"
proof -
  from kill_slot_yields [OF assms(1,2)] obtain r k where
    ks: "kill_slot s = Some (s\<lparr>rl_kill_ring := Some r, rl_kill_ring_length := int k + 1\<rparr>, int k)"
    and k: "k < length r" "list_all text_slot (take k r)" "last_command_was_kill s \<noteq> 0 \<longrightarrow> text_slot (r ! k)"
    by (auto simp: yields_def)
  have "\<exists>z. c_string z \<and> (if last_command_was_kill s \<noteq> 0 \<and> \<not> vi_mode s then
      do { p \<leftarrow> load_at r (int k); old \<leftarrow> p; Some (if a then old @ x else x @ old) } else Some x) = Some z"
    using k assms(3) by (auto simp: text_slot_def split: option.splits)
  then obtain z where z: "c_string z" "(if last_command_was_kill s \<noteq> 0 \<and> \<not> vi_mode s then
      do { p \<leftarrow> load_at r (int k); old \<leftarrow> p; Some (if a then old @ x else x @ old) } else Some x) = Some z" by blast
  from fill_slot [OF k(1) z(1) k(2)] obtain r' where
    r': "store_at r (int k) (Some z) = Some r'" "ring_inv (Some r') (int k) (int k + 1)" by (auto simp: yields_def)
  have "copy_to_kill_ring x a s =
      Some (s\<lparr>rl_kill_ring := Some r', rl_kill_index := int k, rl_kill_ring_length := int k + 1\<rparr>)"
    using z(2) r'(1) by (simp add: copy_to_kill_ring_def ks)
  with r'(2) show ?thesis by (auto simp: yields_def)
qed

text \<open>Killing text: the rest of the line is left, and the cursor may be put anywhere in it.\<close>

lemma okay_kill_ring:
  assumes "\<forall>q \<le> m. okay g us0 base t q (s\<lparr>rl_point := int q\<rparr>)" and "ring_inv (Some r) i n"
    and "s' = s\<lparr>rl_kill_ring := Some r, rl_kill_index := i, rl_kill_ring_length := n\<rparr>"
  shows "\<forall>q \<le> m. okay g us0 base t q ((count_kill s')\<lparr>rl_point := int q\<rparr>)"
proof (intro allI impI)
  fix q assume "q \<le> m"
  with assms(1) have "okay g us0 base t q (s\<lparr>rl_point := int q\<rparr>)" by blast
  from okay_kill_count(1) [OF okay_ring [OF this assms(2)]]
  show "okay g us0 base t q ((count_kill s')\<lparr>rl_point := int q\<rparr>)" unfolding assms(3) count_kill_def
    by (simp add: okay_def line_holds_def ring_ok_def)
qed

lemma kill_text_yields:
  assumes "okay g us0 base t p s" and "a \<le> length t" and "e \<le> length t" and "may_kill s"
  shows "yields (rl_kill_text (int a) (int e) s) (\<lambda>s'.
    (\<forall>q \<le> length t - (max a e - min a e). okay g us0 base (take (min a e) t @ drop (max a e) t) q (s'\<lparr>rl_point := int q\<rparr>)) \<and>
    rl_point s' = int p)"
proof (cases "a = e")
  case True
  have "okay g us0 base t q ((count_kill s)\<lparr>rl_point := int q\<rparr>)" if "q \<le> length t" for q
    using okay_kill_count(1) [OF okay_move [OF assms(1) that]] by (simp add: count_kill_def okay_def line_holds_def ring_ok_def)
  with True okayD(6) [OF assms(1)] show ?thesis by (simp add: rl_kill_text_def count_kill_def)
next
  case False
  let ?x = "take (max a e - min a e) (drop (min a e) t)"
  have cp: "rl_copy_text (int a) (int e) s = Some ?x"
    using copy_text_line [OF okayD(1) [OF assms(1)], of "min a e" "max a e"] assms(2,3) by (auto simp: max_def min_def)
  from delete_yields [OF assms(1-3)] obtain s1 d where s1: "rl_delete_text (int a) (int e) s = Some (s1, d)"
    "\<forall>q \<le> length t - (max a e - min a e). okay g us0 base (take (min a e) t @ drop (max a e) t) q (s1\<lparr>rl_point := int q\<rparr>)"
    "rl_point s1 = int p" "kept s s1" by (auto simp: yields_def)
  have "c_string ?x" using okayD(9) [OF assms(1)] by simp
  from copy_to_kill_ring_yields [OF _ _ this, of s1 "int a < int e"] obtain r i n s2 where
    s2: "copy_to_kill_ring ?x (int a < int e) s1 = Some s2" "ring_inv (Some r) i n"
      "s2 = s1\<lparr>rl_kill_ring := Some r, rl_kill_index := i, rl_kill_ring_length := n\<rparr>"
    using okayD(5) [OF assms(1)] assms(4) s1(4) kept_ring_ok kept_may_kill by (auto simp: yields_def)
  have "rl_kill_text (int a) (int e) s = Some (count_kill s2)"
    using False cp s1(1) s2(1) by (simp add: rl_kill_text_def)
  then show ?thesis using okay_kill_ring [OF s1(2) s2(2,3)] s1(3) s2(3) by (simp add: yields_def count_kill_def)
qed

lemma kill_then_move:
  assumes "okay g us0 base t p s" and "a \<le> length t" and "e \<le> length t" and "may_kill s"
    and "q \<le> length t - (max a e - min a e)"
  shows "yields (rl_kill_text (int a) (int e) s) (\<lambda>s'. undoable g us0 base (s'\<lparr>rl_point := int q\<rparr>))"
  by (rule yields_mono [OF kill_text_yields [OF assms(1-4)]]) (use assms(5) in \<open>auto intro: undoableI\<close>)

lemma kill_at:
  assumes "okay g us0 base t p s" and "a \<le> length t" and "e \<le> length t" and "may_kill s"
    and "p \<le> length t - (max a e - min a e)"
  shows "yields (rl_kill_text (int a) (int e) s) (undoable g us0 base)"
proof (rule yields_mono [OF kill_text_yields [OF assms(1-4)]], elim conjE)
  fix s' assume q: "\<forall>q \<le> length t - (max a e - min a e).
      okay g us0 base (take (min a e) t @ drop (max a e) t) q (s'\<lparr>rl_point := int q\<rparr>)" and p: "rl_point s' = int p"
  have "s'\<lparr>rl_point := int p\<rparr> = s'" using p by simp
  with q assms(5) show "undoable g us0 base s'" by (metis undoableI)
qed

subsection \<open>Moving\<close>

lemma scan_forward_line:
  "i + k \<le> length b \<Longrightarrow> \<exists>j. i \<le> j \<and> j \<le> i + k \<and> scan_forward P k (int i) b = Some (int j)"
proof (induction k arbitrary: i)
  case (Suc k)
  show ?case
  proof (cases "P (b ! i)")
    case True
    with Suc.prems show ?thesis by (intro exI [of _ i]) simp
  next
    case False
    from Suc.IH [of "Suc i"] Suc.prems obtain j where "Suc i \<le> j" "j \<le> Suc i + k" "scan_forward P k (int (Suc i)) b = Some (int j)"
      by auto
    with False Suc.prems show ?thesis by (intro exI [of _ j]) (simp add: add.commute)
  qed
qed auto

lemma scan_backward_line:
  "i \<le> length b \<Longrightarrow> \<exists>j. j \<le> i \<and> scan_backward P i (int i) b = Some (int j)"
proof (induction i)
  case (Suc i)
  show ?case
  proof (cases "P (b ! i)")
    case True
    with Suc.prems show ?thesis by (intro exI [of _ "Suc i"]) simp
  next
    case False
    with Suc show ?thesis by (auto intro: le_SucI)
  qed
qed auto

lemma forward_scan_yields:
  assumes "line_holds s t p"
  shows "yields (forward_scan P s) (\<lambda>s'. \<exists>q. p \<le> q \<and> q \<le> length t \<and> s' = s\<lparr>rl_point := int q\<rparr>)"
proof -
  have b: "rl_point s = int p" "nat (rl_end s - int p) = length t - p" "p + (length t - p) \<le> length (rl_line_buffer s)"
    using assms by (auto simp: line_holds_def)
  from scan_forward_line [OF b(3), of P] obtain j where
    "p \<le> j" "j \<le> length t" "scan_forward P (length t - p) (int p) (rl_line_buffer s) = Some (int j)"
    using holds_le [OF assms] by auto
  then show ?thesis unfolding forward_scan_def b(1) b(2) by auto
qed

lemma backward_scan_yields:
  assumes "line_holds s t p"
  shows "yields (backward_scan P s) (\<lambda>s'. \<exists>q \<le> p. s' = s\<lparr>rl_point := int q\<rparr>)"
proof -
  have b: "rl_point s = int p" "p \<le> length (rl_line_buffer s)" using assms by (auto simp: line_holds_def)
  from scan_backward_line [OF b(2), of P] show ?thesis unfolding backward_scan_def b(1) by auto
qed

lemma holds_get_at: "line_holds s t p \<Longrightarrow> q \<le> length t \<Longrightarrow> \<exists>c. load_at (rl_line_buffer s) (int q) = Some c"
  by (auto simp: line_holds_def load_at_def)

text \<open>Moving by words changes the cursor only.\<close>

lemma forward_words_yields:
  assumes "line_holds s t p"
  shows "yields (forward_words n s) (\<lambda>s'. \<exists>q. p \<le> q \<and> q \<le> length t \<and> s' = s\<lparr>rl_point := int q\<rparr>)"
  using assms
proof (induction n arbitrary: s p)
  case 0
  then show ?case using holds_point holds_le by (fastforce intro: exI [of _ p])
next
  case (Suc n)
  note pe = holds_point [OF Suc.prems] holds_end [OF Suc.prems] holds_le [OF Suc.prems]
  show ?case
  proof (cases "p = length t")
    case True
    with pe show ?thesis by (auto intro!: exI [of _ p])
  next
    case False
    obtain c where c: "load_at (rl_line_buffer s) (int p) = Some c" using holds_get_at [OF Suc.prems pe(3)] by blast
    have next_byte: "yields (forward_scan P (s\<lparr>rl_point := int q + 1\<rparr>)) (\<lambda>s'. \<exists>q'. q \<le> q' \<and> q' \<le> length t \<and> s' = s\<lparr>rl_point := int q'\<rparr>)"
      if "q < length t" for P q
      using forward_scan_yields [OF holds_move [OF Suc.prems, of "Suc q"], of P] that
      by (simp add: add.commute) (blast intro: yields_mono dest: Suc_leD)
    have "yields (if \<not> walphabetic s c then forward_scan (walphabetic s) (s\<lparr>rl_point := rl_point s + 1\<rparr>) else Some s)
        (\<lambda>s'. \<exists>q. p \<le> q \<and> q \<le> length t \<and> s' = s\<lparr>rl_point := int q\<rparr>)"
      using next_byte [of p] False pe by (auto intro!: exI [of _ p])
    then obtain q where q: "p \<le> q" "q \<le> length t"
      "(if \<not> walphabetic s c then forward_scan (walphabetic s) (s\<lparr>rl_point := rl_point s + 1\<rparr>) else Some s) =
        Some (s\<lparr>rl_point := int q\<rparr>)" by (auto simp: yields_def)
    have wa: "walphabetic (s\<lparr>rl_point := x\<rparr>) = walphabetic s" for x by (simp add: walphabetic_def fun_eq_iff)
    show ?thesis
    proof (cases "q = length t")
      case True
      then show ?thesis using pe False c q by (auto simp: yields_def)
    next
      case qn: False
      from next_byte [of q "\<lambda>c. \<not> walphabetic s c"] qn q(2) obtain q' where q':
        "forward_scan (\<lambda>c. \<not> walphabetic s c) (s\<lparr>rl_point := int q + 1\<rparr>) = Some (s\<lparr>rl_point := int q'\<rparr>)"
        "q \<le> q'" "q' \<le> length t" by (auto simp: yields_def)
      have "forward_words (Suc n) s = forward_words n (s\<lparr>rl_point := int q'\<rparr>)"
        using pe False c q qn q' by (simp add: wa)
      with Suc.IH [OF holds_move [OF Suc.prems q'(3)]] q(1) q'(2) show ?thesis
        by simp (blast intro: yields_mono order_trans)
    qed
  qed
qed

lemma backward_words_yields:
  assumes "line_holds s t p"
  shows "yields (backward_words n s) (\<lambda>s'. \<exists>q \<le> p. s' = s\<lparr>rl_point := int q\<rparr>)"
  using assms
proof (induction n arbitrary: s p)
  case 0
  then show ?case using holds_point by (fastforce intro: exI [of _ p])
next
  case (Suc n)
  note pe = holds_point [OF Suc.prems] holds_end [OF Suc.prems] holds_le [OF Suc.prems]
  show ?case
  proof (cases p)
    case 0
    with pe show ?thesis by (auto intro!: exI [of _ p])
  next
    case p: (Suc p')
    have i: "int (Suc p') - 1 = int p'" by simp
    obtain c where c: "load_at (rl_line_buffer s) (int p') = Some c" using holds_get_at [OF Suc.prems, of p'] pe p by auto
    have wa: "walphabetic (s\<lparr>rl_point := x\<rparr>) = walphabetic s" for x by (simp add: walphabetic_def fun_eq_iff)
    have scan_back: "yields (backward_scan P (s\<lparr>rl_point := int q\<rparr>)) (\<lambda>s'. \<exists>q' \<le> q. s' = s\<lparr>rl_point := int q'\<rparr>)"
      if "q \<le> p" for P q
      using backward_scan_yields [OF holds_move [OF Suc.prems, of q], of P] that pe(3) by simp
    have first: "yields (backward_scan P (s\<lparr>rl_point := int p'\<rparr>)) (\<lambda>s'. \<exists>q \<le> p. s' = s\<lparr>rl_point := int q\<rparr>)" for P
      by (rule yields_mono [OF scan_back]) (use p in \<open>blast intro: le_SucI\<close>)+
    have "yields (if \<not> walphabetic s c then backward_scan (walphabetic s) (s\<lparr>rl_point := int p'\<rparr>) else Some s)
        (\<lambda>s'. \<exists>q \<le> p. s' = s\<lparr>rl_point := int q\<rparr>)"
      using first p pe by (auto intro!: exI [of _ p])
    then obtain q where q: "q \<le> p"
      "(if \<not> walphabetic s c then backward_scan (walphabetic s) (s\<lparr>rl_point := int p'\<rparr>) else Some s) =
        Some (s\<lparr>rl_point := int q\<rparr>)" by (auto simp: yields_def)
    from scan_back [OF q(1), of "\<lambda>c. \<not> walphabetic s c"] obtain q' where q': "q' \<le> q"
      "backward_scan (\<lambda>c. \<not> walphabetic s c) (s\<lparr>rl_point := int q\<rparr>) = Some (s\<lparr>rl_point := int q'\<rparr>)"
      by (auto simp: yields_def)
    have "backward_words (Suc n) s = backward_words n (s\<lparr>rl_point := int q'\<rparr>)"
      using pe c q q' p i by (simp add: wa)
    with Suc.IH [OF holds_move [OF Suc.prems, of q']] q(1) q'(1) pe(3) show ?thesis
      by simp (blast intro: yields_mono order_trans)
  qed
qed

lemma word_moves_yield:
  assumes "line_holds s t p"
  shows "yields (rl_forward_word n s) (\<lambda>s'. \<exists>q \<le> length t. (if n < 0 then q \<le> p else p \<le> q) \<and> s' = s\<lparr>rl_point := int q\<rparr>)"
    and "yields (rl_backward_word n s) (\<lambda>s'. \<exists>q \<le> length t. (if n < 0 then p \<le> q else q \<le> p) \<and> s' = s\<lparr>rl_point := int q\<rparr>)"
proof -
  have f: "yields (forward_words m s) (\<lambda>s'. \<exists>q \<le> length t. p \<le> q \<and> s' = s\<lparr>rl_point := int q\<rparr>)" for m
    by (rule yields_mono [OF forward_words_yields [OF assms]]) blast
  have b: "yields (backward_words m s) (\<lambda>s'. \<exists>q \<le> length t. q \<le> p \<and> s' = s\<lparr>rl_point := int q\<rparr>)" for m
    by (rule yields_mono [OF backward_words_yields [OF assms]]) (use holds_le [OF assms] in \<open>blast intro: order_trans\<close>)
  show "yields (rl_forward_word n s) (\<lambda>s'. \<exists>q \<le> length t. (if n < 0 then q \<le> p else p \<le> q) \<and> s' = s\<lparr>rl_point := int q\<rparr>)"
    and "yields (rl_backward_word n s) (\<lambda>s'. \<exists>q \<le> length t. (if n < 0 then p \<le> q else q \<le> p) \<and> s' = s\<lparr>rl_point := int q\<rparr>)"
    using f b by (simp_all add: rl_forward_word_def rl_backward_word_def)
qed

lemma byte_moves:
  assumes "line_holds s t p"
  shows "\<exists>q \<le> length t. rl_forward_byte n s = s\<lparr>rl_point := int q\<rparr> \<and> (0 \<le> n \<longrightarrow> p < length t \<longrightarrow> p \<le> q)"
    and "\<exists>q \<le> length t. rl_backward_byte n s = s\<lparr>rl_point := int q\<rparr> \<and> (0 \<le> n \<longrightarrow> q \<le> p)"
proof -
  note pe = holds_point [OF assms] holds_end [OF assms] holds_le [OF assms]
  have f: "\<exists>q \<le> length t. rl_forward_byte m s = s\<lparr>rl_point := int q\<rparr> \<and> (0 \<le> m \<longrightarrow> p < length t \<longrightarrow> p \<le> q)" for m
  proof -
    have "\<exists>q. rl_point (rl_forward_byte m s) = int q \<and> q \<le> length t \<and> (0 \<le> m \<longrightarrow> p < length t \<longrightarrow> p \<le> q)"
      using pe by (intro exI [of _ "nat (rl_point (rl_forward_byte m s))"])
        (auto simp: rl_forward_byte_def forward_to_def backward_to_def Let_def Suc_le_eq)
    moreover have "rl_forward_byte m s = s\<lparr>rl_point := rl_point (rl_forward_byte m s)\<rparr>"
      using pe by (auto simp: rl_forward_byte_def forward_to_def backward_to_def Let_def)
    ultimately show ?thesis by metis
  qed
  have b: "\<exists>q. rl_backward_byte n s = s\<lparr>rl_point := int q\<rparr> \<and> q \<le> p" if "0 \<le> n"
  proof -
    have "rl_backward_byte n s = s\<lparr>rl_point := rl_point (rl_backward_byte n s)\<rparr>"
      using pe that by (auto simp: rl_backward_byte_def backward_to_def Let_def)
    moreover have "\<exists>q. rl_point (rl_backward_byte n s) = int q \<and> q \<le> p"
      using pe that by (intro exI [of _ "nat (rl_point (rl_backward_byte n s))"])
        (auto simp: rl_backward_byte_def backward_to_def Let_def)
    ultimately show ?thesis by metis
  qed
  show "\<exists>q \<le> length t. rl_forward_byte n s = s\<lparr>rl_point := int q\<rparr> \<and> (0 \<le> n \<longrightarrow> p < length t \<longrightarrow> p \<le> q)" by (rule f)
  show "\<exists>q \<le> length t. rl_backward_byte n s = s\<lparr>rl_point := int q\<rparr> \<and> (0 \<le> n \<longrightarrow> q \<le> p)"
  proof (cases "n < 0")
    case True
    then have "rl_backward_byte n s = rl_forward_byte (- n) s" by (simp add: rl_backward_byte_def)
    with f [of "- n"] True show ?thesis by auto
  next
    case False
    with b pe(3) show ?thesis by (metis linorder_not_less order_trans)
  qed
qed

subsection \<open>Inserting and deleting characters\<close>

lemma c_string_cstr [simp]: "c_string (cstr x)"
  by (auto simp: cstr_def c_string_def dest: set_takeWhileD)

definition grown :: "bool \<Rightarrow> undo_entry list \<Rightarrow> string \<Rightarrow> string \<Rightarrow> editor \<Rightarrow> editor \<Rightarrow> bool" where
  "grown g us0 base t s s' \<longleftrightarrow> (\<exists>t' p'. okay g us0 base t' p' s' \<and> length t \<le> length t') \<and> kept s s'"

lemma insert_grown:
  assumes "okay g us0 base t p s"
  shows "yields (rl_insert_text (cstr x) s) (\<lambda>(s', n). grown g us0 base t s s')"
  by (rule yields_mono [OF insert_yields [OF assms c_string_cstr]])
    (auto simp: grown_def intro!: exI [of _ "take p t @ cstr x @ drop p t"])

lemma grown_trans: "grown g us0 base t s s' \<Longrightarrow> okay g us0 base t' p' s' \<Longrightarrow> length t \<le> length t' \<Longrightarrow>
    grown g us0 base t' s' s'' \<Longrightarrow> grown g us0 base t s s''"
  unfolding grown_def by (meson kept_trans order_trans)

lemma insert_chunks_yields:
  assumes "okay g us0 base t p s"
  shows "yields (insert_chunks n c s) (grown g us0 base t s)"
  using assms
proof (induction n c s arbitrary: t p rule: insert_chunks.induct)
  case (1 n c s)
  show ?case
  proof (cases "n = 0")
    case True
    with 1(2) show ?thesis by (subst insert_chunks.simps) (auto simp: grown_def)
  next
    case False
    let ?d = "if n > TEXT_COUNT_MAX then TEXT_COUNT_MAX else n"
    from insert_grown [OF 1(2), of "replicate ?d c"] obtain s1 m where
      s1: "rl_insert_text (cstr (replicate ?d c)) s = Some (s1, m)" "grown g us0 base t s s1" by (auto simp: yields_def)
    then obtain t1 p1 where t1: "okay g us0 base t1 p1 s1" "length t \<le> length t1" by (auto simp: grown_def)
    have "yields (insert_chunks (n - ?d) c s1) (grown g us0 base t1 s1)"
      by (rule 1(1) [OF False refl s1(1) refl t1(1)])
    then have "yields (insert_chunks (n - ?d) c s1) (grown g us0 base t s)"
      by (rule yields_mono) (rule grown_trans [OF s1(2) t1])
    moreover have "insert_chunks n c s = insert_chunks (n - ?d) c s1"
      by (subst insert_chunks.simps) (use False s1(1) in \<open>simp add: Let_def\<close>)
    ultimately show ?thesis by simp
  qed
qed

lemma insert_char_yields:
  assumes "okay g us0 base t p s"
  shows "yields (rl_insert_char n c s) (grown g us0 base t s)"
proof -
  have one: "yields (do { (s', _) \<leftarrow> rl_insert_text (cstr x) s; Some s' }) (grown g us0 base t s)" for x
    using insert_grown [OF assms, of x] by (auto elim!: yields_mono)
  have o: "okay g us0 base t p (s\<lparr>pushed_input := i\<rparr>)" for i using assms by simp
  have typein: "yields (insert_typein c s) (grown g us0 base t s)"
    unfolding insert_typein_def Let_def yields_bind
    by (rule yields_mono [OF insert_grown [OF o]]) (clarsimp simp: grown_def, blast)
  have "grown g us0 base t s s" using assms by (auto simp: grown_def)
  with one typein insert_chunks_yields [OF assms] show ?thesis by (auto simp: rl_insert_char_def)
qed

lemma delete_forward_yields:
  assumes "okay g us0 base t p s" and "0 \<le> n" and "n > 1 \<or> rl_explicit_arg s \<Longrightarrow> may_kill s"
  shows "yields (delete_forward n s)
    (\<lambda>(s', r). undoable g us0 base s' \<and> (\<not> (n > 1 \<or> rl_explicit_arg s) \<longrightarrow> kept s s'))"
proof -
  note s = okayD [OF assms(1)]
  show ?thesis
  proof (cases "p = length t")
    case True
    with s assms(1) show ?thesis by (auto simp: delete_forward_def intro: undoableI)
  next
    case False
    with s have p: "p < length t" by simp
    show ?thesis
    proof (cases "n > 1 \<or> rl_explicit_arg s")
      case True
      from byte_moves(1) [OF s(1), of n] obtain q where q: "rl_forward_byte n s = s\<lparr>rl_point := int q\<rparr>" "p \<le> q" "q \<le> length t"
        using p assms(2) by auto
      have "may_kill (s\<lparr>rl_point := int q\<rparr>)" using assms(3) True by (simp add: may_kill_def)
      from kill_then_move [OF okay_move [OF assms(1) q(3)] s(8) q(3) this, of p] q(2,3)
      have "yields (rl_kill_text (int p) (int q) (s\<lparr>rl_point := int q\<rparr>)) (\<lambda>s'. undoable g us0 base (s'\<lparr>rl_point := int p\<rparr>))"
        by simp
      then show ?thesis using True p s by (simp add: delete_forward_def q(1) Let_def)
    next
      case False
      have i: "rl_point s + 1 = int (Suc p)" using s(6) by simp
      have "yields (rl_delete_text (int p) (int (Suc p)) s) (\<lambda>(s', n). undoable g us0 base s' \<and> kept s s')"
        by (rule yields_mono [OF delete_at_yields [OF assms(1)]]) (use p in \<open>auto intro: undoableI\<close>)
      then show ?thesis using False p s unfolding delete_forward_def i by (auto elim!: yields_mono)
    qed
  qed
qed

lemma rubout_char_yields:
  assumes "okay g us0 base t p s" and "n > 1 \<or> n < -1 \<or> rl_explicit_arg s \<Longrightarrow> may_kill s"
  shows "yields (rubout_char n s) (\<lambda>(s', r). undoable g us0 base s')"
proof -
  note s = okayD [OF assms(1)]
  consider "n < 0" | "0 \<le> n" "p = 0" | "0 \<le> n" "p \<noteq> 0" "n > 1 \<or> rl_explicit_arg s" | "0 \<le> n" "p \<noteq> 0" "\<not> (n > 1 \<or> rl_explicit_arg s)"
    by linarith
  then show ?thesis
  proof cases
    case 1
    with delete_forward_yields [OF assms(1), of "- n"] assms(2) show ?thesis
      by (auto simp: rubout_char_def elim!: yields_mono)
  next
    case 2
    with s assms(1) show ?thesis by (auto simp: rubout_char_def intro: undoableI)
  next
    case 3
    from byte_moves(2) [OF s(1), of n] obtain q where q: "rl_backward_byte n s = s\<lparr>rl_point := int q\<rparr>" "q \<le> p" "q \<le> length t"
      using 3 by auto
    have "may_kill (s\<lparr>rl_point := int q\<rparr>)" using assms(2) 3 by (auto simp: may_kill_def)
    from kill_at [OF okay_move [OF assms(1) q(3)] s(8) q(3) this] q(2) s(8)
    have "yields (rl_kill_text (int p) (int q) (s\<lparr>rl_point := int q\<rparr>)) (undoable g us0 base)" by simp
    then show ?thesis using 3 s by (simp add: rubout_char_def q(1) Let_def)
  next
    case 4
    then obtain q where q: "p = Suc q" by (cases p) auto
    have i: "int (Suc q) - 1 = int q" by simp
    let ?s = "s\<lparr>rl_point := int q\<rparr>"
    have o: "okay g us0 base t q ?s" using okay_move [OF assms(1), of q] s(8) q by simp
    obtain c where c: "load_at (rl_line_buffer s) (int q) = Some c" using holds_get_at [OF s(1), of q] s(8) q by auto
    have "yields (rl_delete_text (int q) (int (Suc q)) ?s) (\<lambda>(s', n). undoable g us0 base s')"
      by (rule yields_mono [OF delete_at_yields [OF o]]) (use s(8) q in \<open>auto intro: undoableI\<close>)
    then show ?thesis using 4 s c q i unfolding rubout_char_def Let_def by (auto elim!: yields_mono)
  qed
qed

lemma delete_command_yields:
  assumes "okay g us0 base t p s" and "n > 1 \<or> n < -1 \<or> rl_explicit_arg s \<Longrightarrow> may_kill s"
  shows "yields (rl_delete n s) (\<lambda>(s', r). undoable g us0 base s')"
  using delete_forward_yields [OF assms(1), of n] rubout_char_yields [OF assms(1), of "- n"] assms(2)
  by (auto simp: rl_delete_def elim!: yields_mono)

lemmas okay_marks = okay_group_mark [where grp = False, simplified]

lemma ready_group_mark:
  assumes "undoable False us0 base s"
  shows "undoable False us0 base (rl_begin_undo_group s)" "undoable False us0 base (rl_end_undo_group s)"
  using assms unfolding undoable_def by (blast intro: okay_marks)+

lemma overwrite_loop_yields:
  assumes "undoable g us0 base s" and "\<not> rl_explicit_arg s"
  shows "yields (overwrite_loop n c s) (undoable g us0 base)"
  using assms
proof (induction n arbitrary: s)
  case (Suc n)
  from Suc.prems(1) obtain t p where o: "okay g us0 base t p s" by (auto simp: undoable_def)
  from insert_char_yields [OF o, of 1 c] obtain s1 t1 p1 where s1: "rl_insert_char 1 c s = Some s1"
    "okay g us0 base t1 p1 s1" "kept s s1" by (auto simp: yields_def grown_def)
  have e1: "\<not> rl_explicit_arg s1" using s1(3) Suc.prems(2) by (simp add: kept_def)
  have "yields (if rl_point s1 < rl_end s1 then rl_delete 1 s1 else Some (s1, 0))
      (\<lambda>(s', r). undoable g us0 base s' \<and> \<not> rl_explicit_arg s')"
    using delete_forward_yields [OF s1(2), of 1] e1 undoableI [OF s1(2)]
    by (auto simp: rl_delete_def kept_def elim!: yields_mono)
  then obtain s2 r where "(if rl_point s1 < rl_end s1 then rl_delete 1 s1 else Some (s1, 0)) = Some (s2, r)"
    "undoable g us0 base s2" "\<not> rl_explicit_arg s2" by (auto simp: yields_def)
  with Suc.IH [of s2] s1(1) show ?case by simp
qed simp

lemma insert_command_yields:
  assumes "okay False us0 base t p s" and "rl_insert_mode s \<or> \<not> rl_explicit_arg s"
  shows "yields (rl_insert n c s) (undoable False us0 base)"
proof (cases "rl_insert_mode s")
  case True
  then show ?thesis unfolding rl_insert_def
    by simp (rule yields_mono [OF insert_char_yields [OF assms(1)]], auto simp: grown_def intro: undoableI)
next
  case False
  let ?s = "rl_begin_undo_group s"
  have "undoable False us0 base ?s" by (rule ready_group_mark [OF undoableI [OF assms(1)]])
  moreover have "\<not> rl_explicit_arg ?s" using assms(2) False by (simp add: rl_begin_undo_group_def rl_add_undo_def)
  ultimately have "yields (overwrite_loop (nat n) c ?s) (undoable False us0 base)" by (rule overwrite_loop_yields)
  with False show ?thesis
    by (auto simp: rl_insert_def rl_overwrite_char_def elim!: yields_mono intro: ready_group_mark)
qed

lemma rubout_width_yields:
  assumes "line_holds s t p"
  shows "yields (rubout_width n l s) (\<lambda>(s', l'). \<exists>q \<le> p. s' = s\<lparr>rl_point := int q\<rparr>)"
  using assms
proof (induction n arbitrary: s p l)
  case 0
  then show ?case using holds_point by (fastforce intro: exI [of _ p])
next
  case (Suc n)
  from byte_moves(2) [OF Suc.prems, of 1] obtain q where q: "rl_backward_byte 1 s = s\<lparr>rl_point := int q\<rparr>" "q \<le> p" "q \<le> length t"
    by auto
  have h: "line_holds (s\<lparr>rl_point := int q\<rparr>) t q" by (rule holds_move [OF Suc.prems q(3)])
  obtain c where "load_at (rl_line_buffer s) (int q) = Some c" using holds_get_at [OF Suc.prems q(3)] by blast
  then have eq: "rubout_width (Suc n) l s =
      rubout_width n (l + rl_character_len (output_meta_chars s) c (int q)) (s\<lparr>rl_point := int q\<rparr>)"
    by (simp add: q(1) Let_def)
  show ?case unfolding eq
    by (rule yields_mono [OF Suc.IH [OF h]]) (use q(2) in \<open>clarsimp, blast intro: order_trans\<close>)
qed

lemma overwrite_rubout_yields:
  assumes "okay False us0 base t p s" and "n > 1 \<or> rl_explicit_arg s \<Longrightarrow> may_kill s"
  shows "yields (overwrite_rubout n s) (\<lambda>(s', r). undoable False us0 base s')"
proof (cases "p = 0")
  case True
  with okayD(6) [OF assms(1)] assms(1) show ?thesis by (auto simp: overwrite_rubout_def intro: undoableI)
next
  case False
  note s = okayD [OF assms(1)]
  from rubout_width_yields [OF s(1), of "nat n" 0] obtain q l where
    q: "rubout_width (nat n) 0 s = Some (s\<lparr>rl_point := int q\<rparr>, l)" "q \<le> p" by (auto simp: yields_def)
  let ?s = "rl_begin_undo_group (s\<lparr>rl_point := int q\<rparr>)"
  have o: "okay False us0 base t q ?s" "kept (s\<lparr>rl_point := int q\<rparr>) ?s"
    using okay_marks [OF okay_move [OF assms(1), of q]] q(2) s(8) by simp_all
  have e: "rl_explicit_arg ?s = rl_explicit_arg s" "may_kill ?s = may_kill s" "rl_point ?s = int q"
    using o(2) okayD(6) [OF o(1)] by (simp_all add: kept_def may_kill_def)
  have "yields (if n > 1 \<or> rl_explicit_arg s then rl_kill_text (int p) (int q) ?s
      else map_option fst (rl_delete_text (int p) (int q) ?s)) (undoable False us0 base)"
  proof (cases "n > 1 \<or> rl_explicit_arg s")
    case True
    with kill_at [OF o(1) s(8), of q] assms(2) e(2) q(2) s(8) show ?thesis by simp
  next
    case False
    have "yields (rl_delete_text (int p) (int q) ?s) (\<lambda>x. undoable False us0 base (fst x) \<and> kept ?s (fst x))"
      by (rule delete_ready [OF o(1) s(8)]) (use q(2) s(8) in simp_all)
    then have "yields (rl_delete_text (int p) (int q) ?s) (\<lambda>x. undoable False us0 base (fst x))"
      by (rule yields_mono) simp
    with False show ?thesis by simp
  qed
  then obtain s1 t1 p1 where s1: "(if n > 1 \<or> rl_explicit_arg s then rl_kill_text (int p) (int q) ?s
      else map_option fst (rl_delete_text (int p) (int q) ?s)) = Some s1" "okay False us0 base t1 p1 s1"
    by (auto simp: yields_def undoable_def)
  note o1 = okayD [OF s1(2)]
  have "yields (do { s' \<leftarrow> rl_insert_char l (CHR '' '') s1; Some (s'\<lparr>rl_point := int p1\<rparr>) }) (undoable False us0 base)"
    unfolding yields_bind yields_Some
    by (rule yields_mono [OF insert_char_yields [OF s1(2)]])
      (use o1(8) in \<open>unfold grown_def, blast intro: undoableI okay_move order_trans\<close>)
  then have "yields (if rl_point s1 < rl_end s1 then
      do { s' \<leftarrow> rl_insert_char l (CHR '' '') s1; Some (s'\<lparr>rl_point := rl_point s1\<rparr>) } else Some s1) (undoable False us0 base)"
    using undoableI [OF s1(2)] o1(6) by simp
  then show ?thesis
    using False s q s1(1) e
    by (auto simp: overwrite_rubout_def Let_def elim!: yields_mono intro!: ready_group_mark)
qed

lemma rubout_yields:
  assumes "okay False us0 base t p s" and "n > 1 \<or> n < -1 \<or> rl_explicit_arg s \<Longrightarrow> may_kill s"
  shows "yields (rl_rubout n s) (\<lambda>(s', r). undoable False us0 base s')"
  using delete_command_yields [OF assms(1), of "- n"] overwrite_rubout_yields [OF assms(1), of n]
    rubout_char_yields [OF assms(1), of n] assms(2) undoableI [OF assms(1)]
  by (auto simp: rl_rubout_def)

lemma delete_horizontal_space_yields:
  assumes "okay g us0 base t p s"
  shows "yields (rl_delete_horizontal_space s) (undoable g us0 base)"
proof -
  note s = okayD [OF assms]
  from backward_scan_yields [OF s(1), of "\<lambda>c. \<not> rl_whitespace c"] obtain q where
    q: "backward_scan (\<lambda>c. \<not> rl_whitespace c) s = Some (s\<lparr>rl_point := int q\<rparr>)" "q \<le> p" by (auto simp: yields_def)
  have h: "line_holds (s\<lparr>rl_point := int q\<rparr>) t q" by (rule holds_move [OF s(1)]) (use q s in simp)
  from forward_scan_yields [OF h, of "\<lambda>c. \<not> rl_whitespace c"] obtain e where
    e: "forward_scan (\<lambda>c. \<not> rl_whitespace c) (s\<lparr>rl_point := int q\<rparr>) = Some (s\<lparr>rl_point := int e\<rparr>)" "q \<le> e" "e \<le> length t"
    by (auto simp: yields_def)
  have o: "okay g us0 base t e (s\<lparr>rl_point := int e\<rparr>)" by (rule okay_move [OF assms e(3)])
  have "yields (rl_delete_text (int q) (int e) (s\<lparr>rl_point := int e\<rparr>)) (\<lambda>x. undoable g us0 base ((fst x)\<lparr>rl_point := int q\<rparr>))"
    by (rule delete_then_move [OF o]) (use e in simp_all)
  then show ?thesis using q e undoableI [OF o]
    by (auto simp: rl_delete_horizontal_space_def Let_def case_prod_beta elim!: yields_mono)
qed

subsection \<open>Killing\<close>

lemma may_kill_frame [simp]:
  "may_kill (s\<lparr>rl_point := p\<rparr>) = may_kill s" "may_kill (s\<lparr>rl_mark := m\<rparr>) = may_kill s"
  "may_kill (s\<lparr>rl_explicit_arg := x\<rparr>) = may_kill s"
  by (simp_all add: may_kill_def)

lemma kill_forward_yields:
  assumes "okay g us0 base t p s" and "may_kill s" and "p \<le> q" and "q \<le> length t"
  shows "yields (kill_forward (int p) (s\<lparr>rl_point := int q\<rparr>)) (undoable g us0 base)"
proof -
  have o: "okay g us0 base t q (s\<lparr>rl_point := int q\<rparr>)" by (rule okay_move [OF assms(1,4)])
  have "yields (rl_kill_text (int p) (int q) (s\<lparr>rl_point := int q\<rparr>)) (\<lambda>s'. undoable g us0 base (s'\<lparr>rl_point := int p\<rparr>))"
    by (rule kill_then_move [OF o]) (use assms in simp_all)
  moreover have "undoable g us0 base (s\<lparr>rl_point := int p\<rparr>)" by (rule undoableI [OF okay_move [OF assms(1)]]) (use assms in simp)
  ultimately show ?thesis by (simp add: kill_forward_def)
qed

lemma kill_backward_yields:
  assumes "okay g us0 base t p s" and "may_kill s" and "q \<le> p"
  shows "yields (kill_backward (int p) (s\<lparr>rl_point := int q\<rparr>)) (undoable g us0 base)"
proof -
  note p = okayD(8) [OF assms(1)]
  have o: "okay g us0 base t q (s\<lparr>rl_point := int q\<rparr>)" by (rule okay_move [OF assms(1)]) (use assms p in simp)
  have "yields (rl_kill_text (int p) (int q) (s\<lparr>rl_point := int q\<rparr>)) (undoable g us0 base)"
    by (rule kill_at [OF o]) (use assms p in simp_all)
  with undoableI [OF o] show ?thesis by (auto simp: kill_backward_def)
qed

lemma kill_word_yields:
  assumes "okay g us0 base t p s" and "may_kill s"
  shows "yields (rl_kill_word n s) (undoable g us0 base)" "yields (rl_backward_kill_word n s) (undoable g us0 base)"
proof -
  note s = okayD [OF assms(1)]
  have f: "yields (do { s' \<leftarrow> rl_forward_word m s; kill_forward (rl_point s) s' }) (undoable g us0 base)" if "0 \<le> m" for m
    unfolding yields_bind
    by (rule yields_mono [OF word_moves_yield(1) [OF s(1), of m]])
      (use that s(6) in \<open>auto intro: kill_forward_yields [OF assms]\<close>)
  have b: "yields (do { s' \<leftarrow> rl_backward_word m s; kill_backward (rl_point s) s' }) (undoable g us0 base)" if "0 \<le> m" for m
    unfolding yields_bind
    by (rule yields_mono [OF word_moves_yield(2) [OF s(1), of m]])
      (use that s(6) in \<open>auto intro: kill_backward_yields [OF assms]\<close>)
  show k: "yields (rl_kill_word n s) (undoable g us0 base)" for n
    using f [of n] b [of "- n"] by (simp add: rl_kill_word_def)
  show "yields (rl_backward_kill_word n s) (undoable g us0 base)"
    using k [of "- n"] b [of n] by (simp add: rl_backward_kill_word_def)
qed

lemma kill_line_yields:
  assumes "okay g us0 base t p s" and "may_kill s"
  shows "yields (rl_kill_line n s) (undoable g us0 base)" "yields (rl_backward_kill_line n s) (undoable g us0 base)"
proof -
  note s = okayD [OF assms(1)]
  have f: "yields (kill_forward (rl_point s) (rl_end_of_line s)) (undoable g us0 base)"
    using kill_forward_yields [OF assms s(8) order_refl] s(6,7) by (simp add: rl_end_of_line_def)
  have "yields (kill_backward (rl_point s) (rl_beg_of_line s)) (undoable g us0 base)"
    using kill_backward_yields [OF assms, of 0] s(6) by (simp add: rl_beg_of_line_def)
  then have b: "yields (kill_to_start s) (undoable g us0 base)" using undoableI [OF assms(1)] by (simp add: kill_to_start_def)
  show "yields (rl_kill_line n s) (undoable g us0 base)" "yields (rl_backward_kill_line n s) (undoable g us0 base)"
    using f b by (simp_all add: rl_kill_line_def rl_backward_kill_line_def)
qed

lemma kill_full_line_yields:
  assumes "okay False us0 base t p s" and "may_kill s"
  shows "yields (rl_kill_full_line s) (undoable False us0 base)"
proof -
  let ?s = "(rl_begin_undo_group s)\<lparr>rl_point := 0\<rparr>"
  have o: "okay False us0 base t 0 ?s" using okay_move [OF okay_marks(1) [OF assms(1)], of 0] by simp
  have k: "may_kill ?s" using assms(2) kept_may_kill [OF okay_marks(3) [OF assms(1)]] by simp
  have "yields (rl_kill_text (int 0) (int (length t)) ?s) (undoable False us0 base)"
    by (rule kill_at [OF o _ _ k]) simp_all
  moreover have "rl_end (rl_begin_undo_group s) = int (length t)" using okayD(7) [OF okay_marks(1) [OF assms(1)]] .
  ultimately show ?thesis
    by (auto simp: rl_kill_full_line_def Let_def elim!: yields_mono intro!: ready_group_mark)
qed

lemma rubout_words_yields:
  assumes "line_holds s t p"
  shows "yields (rubout_words n s) (\<lambda>s'. \<exists>q \<le> p. s' = s\<lparr>rl_point := int q\<rparr>)"
  using assms
proof (induction n arbitrary: s p)
  case 0
  then show ?case using holds_point by (fastforce intro: exI [of _ p])
next
  case (Suc n)
  note p = holds_le [OF Suc.prems]
  from backward_scan_yields [OF Suc.prems, of "\<lambda>c. \<not> rl_whitespace c"] obtain q1 where
    q1: "backward_scan (\<lambda>c. \<not> rl_whitespace c) s = Some (s\<lparr>rl_point := int q1\<rparr>)" "q1 \<le> p" by (auto simp: yields_def)
  have h1: "line_holds (s\<lparr>rl_point := int q1\<rparr>) t q1" by (rule holds_move [OF Suc.prems]) (use p q1 in simp)
  from backward_scan_yields [OF h1, of rl_whitespace] obtain q2 where
    q2: "backward_scan rl_whitespace (s\<lparr>rl_point := int q1\<rparr>) = Some (s\<lparr>rl_point := int q2\<rparr>)" "q2 \<le> q1" by (auto simp: yields_def)
  have h2: "line_holds (s\<lparr>rl_point := int q2\<rparr>) t q2" by (rule holds_move [OF Suc.prems]) (use p q1 q2 in simp)
  have eq: "rubout_words (Suc n) s = rubout_words n (s\<lparr>rl_point := int q2\<rparr>)" using q1 q2 by simp
  show ?case unfolding eq
    by (rule yields_mono [OF Suc.IH [OF h2]]) (use q1(2) q2(2) in \<open>clarsimp, blast intro: order_trans\<close>)
qed

lemma kill_back_to:
  assumes "okay g us0 base t p s" and "may_kill s" and "q \<le> p"
  shows "yields (rl_kill_text (int p) (int q) (s\<lparr>rl_point := int q\<rparr>)) (undoable g us0 base)"
proof -
  note p = okayD(8) [OF assms(1)]
  have o: "okay g us0 base t q (s\<lparr>rl_point := int q\<rparr>)" by (rule okay_move [OF assms(1)]) (use assms p in simp)
  show ?thesis by (rule kill_at [OF o]) (use assms p in simp_all)
qed

lemma unix_word_rubout_yields:
  assumes "okay g us0 base t p s" and "may_kill s"
  shows "yields (rl_unix_word_rubout n s) (undoable g us0 base)"
proof (cases "rl_point s = 0")
  case True
  with undoableI [OF assms(1)] show ?thesis by (simp add: rl_unix_word_rubout_def)
next
  case False
  note s = okayD [OF assms(1)]
  from rubout_words_yields [OF s(1), of "nat (if n \<le> 0 then 1 else n)"] obtain q where
    "rubout_words (nat (if n \<le> 0 then 1 else n)) s = Some (s\<lparr>rl_point := int q\<rparr>)" "q \<le> p" by (auto simp: yields_def)
  with kill_back_to [OF assms] False s(6) show ?thesis by (simp add: rl_unix_word_rubout_def)
qed

lemma filename_scan_back:
  "filename_scan P k (int i) c b = Some (j, d) \<Longrightarrow> k \<le> i \<Longrightarrow> \<exists>q \<le> i. j = int q"
proof (induction k arbitrary: i c)
  case (Suc k)
  then obtain i' where i: "i = Suc i'" by (cases i) auto
  from Suc show ?case
    by (auto simp: i bind_eq_Some_conv split: if_splits) (metis le_SucI)
qed (auto split: if_splits)

lemma rubout_filenames_back:
  assumes "line_holds s t p" and "rubout_filenames n s = Some s'"
  shows "\<exists>q \<le> p. s' = s\<lparr>rl_point := int q\<rparr>"
  using assms
proof (induction n arbitrary: s p)
  case 0
  then show ?case using holds_point by (fastforce intro: exI [of _ p])
next
  case (Suc n)
  note p = holds_point [OF Suc.prems(1)] holds_le [OF Suc.prems(1)]
  from Suc.prems(2) p obtain c j1 c1 j2 c2 where
    j1: "filename_scan (\<lambda>c. rl_whitespace c \<or> c = CHR ''/'') p (int p) c (rl_line_buffer s) = Some (j1, c1)" and
    j2: "filename_scan (\<lambda>c. \<not> rl_whitespace c \<and> c \<noteq> CHR ''/'') (nat j1) j1 c1 (rl_line_buffer s) = Some (j2, c2)" and
    r: "rubout_filenames n (s\<lparr>rl_point := j2\<rparr>) = Some s'"
    by (auto simp: bind_eq_Some_conv)
  obtain q1 where q1: "q1 \<le> p" "j1 = int q1" using filename_scan_back [OF j1] by auto
  obtain q2 where q2: "q2 \<le> q1" "j2 = int q2" 
    using filename_scan_back [OF j2 [unfolded q1(2) nat_int] order_refl] by blast
  have "line_holds (s\<lparr>rl_point := int q2\<rparr>) t q2" by (rule holds_move [OF Suc.prems(1)]) (use p q1 q2 in simp)
  from Suc.IH [OF this] r q1 q2 show ?case by (auto intro: order_trans)
qed

lemma unix_filename_rubout_yields:
  assumes "okay g us0 base t p s" and "may_kill s"
    and "rl_point s = 0 \<or> rubout_filenames (nat (if n \<le> 0 then 1 else n)) s \<noteq> None"
  shows "yields (rl_unix_filename_rubout n s) (undoable g us0 base)"
proof (cases "rl_point s = 0")
  case True
  with undoableI [OF assms(1)] show ?thesis by (simp add: rl_unix_filename_rubout_def)
next
  case False
  note s = okayD [OF assms(1)]
  from False assms(3) obtain s' where s': "rubout_filenames (nat (if n \<le> 0 then 1 else n)) s = Some s'" by blast
  with rubout_filenames_back [OF s(1)] obtain q where "s' = s\<lparr>rl_point := int q\<rparr>" "q \<le> p" by blast
  with kill_back_to [OF assms(1,2)] False s(6) s' show ?thesis by (simp add: rl_unix_filename_rubout_def)
qed

lemma unix_line_discard_yields:
  assumes "okay g us0 base t p s" and "may_kill s"
  shows "yields (rl_unix_line_discard s) (undoable g us0 base)"
proof -
  note s = okayD [OF assms(1)]
  have "yields (rl_kill_text (int p) (int 0) s) (\<lambda>s'. undoable g us0 base (s'\<lparr>rl_point := int 0\<rparr>))"
    by (rule kill_then_move [OF assms(1) s(8) _ assms(2)]) simp_all
  with undoableI [OF assms(1)] s(6) show ?thesis by (simp add: rl_unix_line_discard_def)
qed

subsection \<open>The region and the words copied\<close>

text \<open>A mark behind the end of the line acts like a mark at the end.\<close>

lemma delete_text_clip:
  assumes "line_holds s t q"
  shows "rl_delete_text (int p) (int e) s = rl_delete_text (int (min p (length t))) (int (min e (length t))) s"
proof -
  have "min (min (min p (length t)) (min e (length t))) (length t) = min (min p e) (length t)"
    "min (max (min p (length t)) (min e (length t))) (length t) = min (max p e) (length t)" by auto
  then show ?thesis unfolding rl_delete_text_def delete_bounds_line [OF holds_end [OF assms]] by (simp only:)
qed

lemma region_copy_yields:
  assumes "okay g us0 base t p s" and "may_kill s" and "0 \<le> rl_mark s"
  shows "yields (region_kill_internal False s) (okay g us0 base t p)"
proof (cases "rl_mark s = rl_point s")
  case True
  with okay_kill_count(1) [OF assms(1)] show ?thesis by (simp add: region_kill_internal_def)
next
  case False
  note s = okayD [OF assms(1)]
  from assms(3) obtain e where e: "rl_mark s = int e" by (auto elim: nonneg_int_cases)
  let ?x = "take (max p e - min p e) (drop (min p e) t)"
  have cp: "rl_copy_text (int p) (int e) s = Some ?x"
    using copy_text_line [OF s(1), of "min p e" "max p e"] s(8) by (auto simp: max_def min_def)
  have "c_string ?x" using s(9) by simp
  from copy_to_kill_ring_yields [OF s(5) assms(2) this, of "int p < int e"] obtain r i n s2 where
    s2: "copy_to_kill_ring ?x (int p < int e) s = Some s2" "ring_inv (Some r) i n"
      "s2 = s\<lparr>rl_kill_ring := Some r, rl_kill_index := i, rl_kill_ring_length := n\<rparr>" by (auto simp: yields_def)
  then show ?thesis using False s(6) e cp okay_kill_count(1) [OF okay_ring [OF assms(1) s2(2)]]
    by (simp add: region_kill_internal_def)
qed

lemma okay_fix_point:
  "okay g us0 base t q ((rl_fix_point b s)\<lparr>rl_point := int q\<rparr>) = okay g us0 base t q (s\<lparr>rl_point := int q\<rparr>)"
  by (simp add: rl_fix_point_def Let_def okay_def line_holds_def ring_ok_def)

lemma kill_region_yields:
  assumes "okay g us0 base t p s" and "may_kill s" and "0 \<le> rl_mark s"
  shows "yields (rl_kill_region s) (undoable g us0 base)"
proof -
  note s = okayD [OF assms(1)]
  from assms(3) obtain e where e: "rl_mark s = int e" by (auto elim: nonneg_int_cases)
  have np: "(if rl_point s < rl_mark s then rl_point s else rl_mark s) = int (min p e)" using s(6) e by (simp add: min_def)
  have "yields (region_kill_internal True s) (\<lambda>s'. undoable g us0 base (s'\<lparr>rl_point := int (min p e)\<rparr>))"
  proof (cases "e = p")
    case True
    have "okay g us0 base t p ((count_kill s)\<lparr>rl_point := int p\<rparr>)"
      using okay_move [OF okay_kill_count(1) [OF assms(1)] s(8)] .
    then show ?thesis using True e s(6) by (auto simp: region_kill_internal_def intro: undoableI)
  next
    case False
    let ?e = "min e (length t)" and ?x = "take (max p e - min p e) (drop (min p e) t)"
    have cp: "rl_copy_text (int p) (int e) s = Some ?x"
      using copy_text_line [OF s(1), of "min p e" "max p e"] s(8) by (auto simp: max_def min_def)
    from delete_yields [OF assms(1) s(8), of ?e] obtain s1 d where s1: "rl_delete_text (int p) (int ?e) s = Some (s1, d)"
      "\<forall>q \<le> length t - (max p ?e - min p ?e). okay g us0 base (take (min p ?e) t @ drop (max p ?e) t) q (s1\<lparr>rl_point := int q\<rparr>)"
      "rl_point s1 = int p" "kept s s1" by (auto simp: yields_def)
    have dl: "rl_delete_text (int p) (int e) s = Some (s1, d)"
      unfolding delete_text_clip [OF s(1), of p e] using s1(1) s(8) by (simp add: min_absorb1)
    have "c_string ?x" using s(9) by simp
    from copy_to_kill_ring_yields [OF _ _ this, of s1 "rl_point s1 < rl_mark s1"] obtain r i n s2 where
      s2: "copy_to_kill_ring ?x (rl_point s1 < rl_mark s1) s1 = Some s2" "ring_inv (Some r) i n"
        "s2 = s1\<lparr>rl_kill_ring := Some r, rl_kill_index := i, rl_kill_ring_length := n\<rparr>"
      using s(5) assms(2) s1(4) kept_ring_ok kept_may_kill by (auto simp: yields_def)
    have "region_kill_internal True s = Some (count_kill s2)"
      using False s(6) e cp dl s2(1) by (simp add: region_kill_internal_def)
    moreover have "min p e \<le> length t - (max p ?e - min p ?e)" using s(8) by auto
    ultimately show ?thesis
      using okay_kill_ring [OF s1(2) s2(2,3)] unfolding yields_def by (blast intro: undoableI)
  qed
  then show ?thesis
    unfolding rl_kill_region_def np Let_def yields_bind yields_Some undoable_def okay_fix_point
    by (rule yields_mono) (unfold undoable_def rl_fix_point_def, auto simp: Let_def okay_def line_holds_def ring_ok_def)
qed

lemma copy_word_yields:
  assumes "okay g us0 base t p s" and "may_kill s"
  shows "yields (copy_word_as_kill n d s) (undoable g us0 base)"
proof -
  note s = okayD [OF assms(1)]
  have "yields (if d > 0 then rl_forward_word n s else rl_backward_word n s) (\<lambda>s'. \<exists>q \<le> length t. s' = s\<lparr>rl_point := int q\<rparr>)"
    using word_moves_yield [OF s(1), of n] by (auto elim!: yields_mono)
  then obtain q1 where q1: "(if d > 0 then rl_forward_word n s else rl_backward_word n s) = Some (s\<lparr>rl_point := int q1\<rparr>)" "q1 \<le> length t"
    by (auto simp: yields_def)
  let ?s = "s\<lparr>rl_point := int q1, rl_mark := int q1\<rparr>"
  have o: "okay g us0 base t q1 ?s" using okay_move [OF assms(1) q1(2)] by simp
  have "yields (if d > 0 then rl_backward_word n ?s else rl_forward_word n ?s) (\<lambda>s'. \<exists>q \<le> length t. s' = ?s\<lparr>rl_point := int q\<rparr>)"
    using word_moves_yield [OF okayD(1) [OF o], of n] by (auto elim!: yields_mono)
  then obtain q2 where q2: "(if d > 0 then rl_backward_word n ?s else rl_forward_word n ?s) = Some (?s\<lparr>rl_point := int q2\<rparr>)" "q2 \<le> length t"
    by (auto simp: yields_def)
  have "yields (region_kill_internal False (?s\<lparr>rl_point := int q2\<rparr>)) (okay g us0 base t q2)"
    by (rule region_copy_yields [OF okay_move [OF o q2(2)]]) (use assms(2) in simp_all)
  then have "yields (region_kill_internal False (?s\<lparr>rl_point := int q2\<rparr>))
      (\<lambda>s'. undoable g us0 base (s'\<lparr>rl_mark := rl_mark s, rl_point := rl_point s\<rparr>))"
  proof (rule yields_mono)
    fix s' assume "okay g us0 base t q2 s'"
    then have "okay g us0 base t q2 (s'\<lparr>rl_mark := rl_mark s\<rparr>)" by simp
    from okay_move [OF this s(8)] show "undoable g us0 base (s'\<lparr>rl_mark := rl_mark s, rl_point := rl_point s\<rparr>)"
      unfolding s(6) by (rule undoableI)
  qed
  then show ?thesis using q1(1) q2(1) by (cases "0 < d") (simp_all add: copy_word_as_kill_def Let_def)
qed

subsection \<open>Yanking\<close>

lemma current_kill_text:
  assumes "ring_ok s" and "rl_kill_ring s \<noteq> None"
  shows "\<exists>x. current_kill s = Some x \<and> c_string x"
proof -
  from assms obtain r where r: "rl_kill_ring s = Some r" "0 \<le> rl_kill_index s" "rl_kill_index s < rl_kill_ring_length s"
    "rl_kill_ring_length s \<le> int (length r)" "list_all text_slot (take (nat (rl_kill_ring_length s)) r)"
    by (auto simp: ring_ok_def ring_inv_Some)
  then have "text_slot (r ! nat (rl_kill_index s))" by (simp add: list_all_length)
  with r show ?thesis by (auto simp: current_kill_def load_at_def text_slot_def split: option.splits)
qed

lemma yank_yields:
  assumes "okay g us0 base t p s"
  shows "yields (rl_yank s) (\<lambda>x. undoable g us0 base (fst x))"
proof (cases "rl_kill_ring s = None")
  case True
  with undoableI [OF assms] show ?thesis by (simp add: rl_yank_def)
next
  case False
  let ?s = "fst (set_mark_at_pos (rl_point s) s)"
  have o: "okay g us0 base t p ?s" and r: "rl_kill_ring ?s = rl_kill_ring s"
    using assms by (simp_all add: set_mark_at_pos_def)
  from current_kill_text [OF okayD(5) [OF o]] False r obtain x where x: "current_kill ?s = Some x" "c_string x" by auto
  have "yields (rl_insert_text x ?s) (\<lambda>y. undoable g us0 base (fst y))"
    by (rule yields_mono [OF insert_yields [OF o x(2)]]) (auto intro: undoableI)
  then show ?thesis using False x(1) by (auto simp: rl_yank_def Let_def case_prod_beta)
qed

lemma yank_pop_yields:
  assumes "okay g us0 base t p s"
  shows "yields (rl_yank_pop s) (\<lambda>x. undoable g us0 base (fst x))"
proof (cases "(rl_last_func s \<noteq> Some Yank_pop \<and> rl_last_func s \<noteq> Some Yank) \<or> rl_kill_ring s = None")
  case True
  with undoableI [OF assms] show ?thesis by (simp add: rl_yank_pop_def)
next
  case False
  note s = okayD [OF assms]
  from current_kill_text [OF s(5)] False obtain x where x: "current_kill s = Some x" "c_string x" by auto
  show ?thesis
  proof (cases "length x \<le> p")
    case True
    define n where "n = p - length x"
    have n: "rl_point s - int (length x) = int n" "n \<le> p" using True s(6) by (simp_all add: n_def of_nat_diff)
    have cb: "copy_bytes (rl_line_buffer s) (int n) (int (length x)) = Some (take (length x) (drop n t))"
      by (rule copy_bytes_line [OF s(1)]) (use n(2) s(8) in simp)
    from delete_yields [OF assms _ s(8), of n] n(2) s(8) obtain s1 d where
      s1: "rl_delete_text (int n) (int p) s = Some (s1, d)"
      "\<forall>q \<le> length t - (p - n). okay g us0 base (take n t @ drop p t) q (s1\<lparr>rl_point := int q\<rparr>)" "kept s s1"
      by (auto simp: yields_def)
    let ?i = "if rl_kill_index s1 - 1 < 0 then rl_kill_ring_length s1 - 1 else rl_kill_index s1 - 1"
    let ?s = "s1\<lparr>rl_point := int n, rl_kill_index := ?i\<rparr>"
    have "okay g us0 base (take n t @ drop p t) n (s1\<lparr>rl_point := int n\<rparr>)" using s1(2) n(2) s(8) by simp
    moreover have "ring_inv (rl_kill_ring s1) ?i (rl_kill_ring_length s1)"
      using s(5) s1(3) False by (auto simp: ring_ok_def kept_def ring_inv_Some)
    ultimately have o: "okay g us0 base (take n t @ drop p t) n ?s" by (simp add: okay_def line_holds_def ring_ok_def)
    have sp: "rl_point s = int p" by (rule s(6))
    show ?thesis
      unfolding rl_yank_pop_def if_not_P [OF False] x(1) Let_def
      using yank_yields [OF o] undoableI [OF assms] s1(1) n(1) cb sp by simp
  next
    case n: False
    then have "rl_point s - int (length x) < 0" using s(6) by simp
    then show ?thesis
      unfolding rl_yank_pop_def if_not_P [OF False] x(1) Let_def
      using undoableI [OF assms] by simp
  qed
qed

subsection \<open>Changing case\<close>

lemma case_not_NUL:
  assumes "c \<noteq> NUL"
  shows "to_upper c \<noteq> NUL" and "to_lower c \<noteq> NUL"
proof -
  have n: "char_of n \<noteq> NUL" if "0 < n" "n < 256" for n :: nat
  proof
    assume "char_of n = NUL"
    then have "(of_char (char_of n :: char) :: nat) = 0" by simp
    with that show False by simp
  qed
  show "to_upper c \<noteq> NUL"
  proof (cases "97 \<le> uchar c \<and> uchar c \<le> 122")
    case True
    then have "0 < of_char c - (32::nat)" "of_char c - 32 < (256::nat)" by (auto simp: uchar_def)
    from n [OF this] True show ?thesis by (simp add: to_upper_def)
  qed (use assms in \<open>auto simp: to_upper_def\<close>)
  show "to_lower c \<noteq> NUL"
    using assms n [of "of_char c + 32"] by (auto simp: to_lower_def uchar_def)
qed

lemma case_loop_line:
  "c_string (take k (drop a b)) \<Longrightarrow> a + k \<le> length b \<Longrightarrow>
   \<exists>x. length x = k \<and> c_string x \<and> case_loop alpha op k inword (int a) b = Some (take a b @ x @ drop (a + k) b)"
proof (induction k arbitrary: a b inword)
  case (Suc k)
  let ?c = "b ! a"
  have d: "drop a b = ?c # drop (Suc a) b" using Suc.prems(2) by (simp add: Cons_nth_drop_Suc)
  have c: "?c \<noteq> NUL" "c_string (take k (drop (Suc a) b))" using Suc.prems(1) unfolding d by simp_all
  define alpha_c where "alpha_c = alpha ?c"
  define up where "up = (op = UpCase \<or> op = CapCase \<and> \<not> inword)"
  let ?v = "if \<not> alpha_c then ?c else if up then to_upper ?c else to_lower ?c"
  let ?b = "b[a := ?v]"
  have v: "?v \<noteq> NUL" using case_not_NUL [OF c(1)] c(1) by simp
  obtain inw where step: "case_loop alpha op (Suc k) inword (int a) b = case_loop alpha op k inw (int (Suc a)) ?b"
  proof (cases alpha_c)
    case True
    then have "case_loop alpha op (Suc k) inword (int a) b =
        case_loop alpha op k (if op = CapCase then True else inword) (int (Suc a)) ?b"
      using Suc.prems(2) by (cases op) (auto simp: alpha_c_def up_def store_at_def Let_def add.commute)
    then show ?thesis by (rule that)
  next
    case False
    then have "case_loop alpha op (Suc k) inword (int a) b = case_loop alpha op k False (int (Suc a)) ?b"
      using Suc.prems(2) by (simp add: alpha_c_def add.commute)
    then show ?thesis by (rule that)
  qed
  have "drop (Suc a) ?b = drop (Suc a) b" "take (Suc a) ?b = take a b @ [?v]" "drop (Suc a + k) ?b = drop (a + Suc k) b"
    using Suc.prems(2) by (simp_all add: take_Suc_conv_app_nth)
  with Suc.IH [of "Suc a" ?b inw] c(2) Suc.prems(2) obtain x where
    "length x = k" "c_string x" "case_loop alpha op k inw (int (Suc a)) ?b = Some ((take a b @ [?v]) @ x @ drop (a + Suc k) b)"
    by auto
  with v step show ?case by (intro exI [of _ "?v # x"]) simp
qed auto

text \<open>The entries \<^verbatim>\<open>rl_modifying\<close> leaves undo every change of the text between its bounds.\<close>

lemma replay_modified:
  assumes "a \<le> e" and "e \<le> length t" and "c_string t" and "length x = e - a"
    and "what i = UNDO_INSERT" "ustart i = int a" "uend i = int e"
    and "what d = UNDO_DELETE" "ustart d = int a" "utext d = Some (take (e - a) (drop a t))"
  shows "replay (i # d # us) (take a t @ x @ drop e t) = replay us t"
proof -
  have "t = take a t @ take (e - a) (drop a t) @ drop e t"
    using assms(1) by (metis append_take_drop_id drop_drop le_add_diff_inverse2)
  then show ?thesis using assms by (simp add: replay.simps)
qed

definition modified_by :: "int \<Rightarrow> int \<Rightarrow> string \<Rightarrow> editor \<Rightarrow> editor" where
  "modified_by a e x s =
     rl_end_undo_group (rl_add_undo UNDO_INSERT a e None (rl_add_undo UNDO_DELETE a e (Some x) (rl_begin_undo_group s)))"

lemma modified_by_undo:
  "\<exists>u i d v. rl_undo_list (modified_by a e x s) = u # i # d # v # rl_undo_list s \<and> what u = UNDO_END \<and> what v = UNDO_BEGIN \<and>
     what i = UNDO_INSERT \<and> ustart i = a \<and> uend i = e \<and> what d = UNDO_DELETE \<and> ustart d = a \<and> utext d = Some x"
  by (simp add: modified_by_def rl_begin_undo_group_def rl_end_undo_group_def rl_add_undo_def)

lemma modified_by_frame:
  "kept s (modified_by a e x s)" "rl_line_buffer_len (modified_by a e x s) = rl_line_buffer_len s"
  "rl_end (modified_by a e x s) = rl_end s" "rl_line_buffer (modified_by a e x s) = rl_line_buffer s"
  by (simp_all add: modified_by_def rl_begin_undo_group_def rl_end_undo_group_def rl_add_undo_def kept_def)

lemma modifying_line:
  assumes "line_holds s t p" and "a < e" and "e \<le> length t"
  shows "rl_modifying (int a) (int e) s = Some (modified_by (int a) (int e) (take (e - a) (drop a t)) s)"
  using copy_text_line(1) [OF assms(1), of a e] assms(2,3) by (simp add: rl_modifying_def modified_by_def)

lemma change_case_line:
  assumes "line_holds s t p"
  shows "\<exists>a e s1 x b. a \<le> e \<and> e \<le> length t \<and> length x = e - a \<and> c_string x \<and>
    (s1 = (if a = e then s else modified_by (int a) (int e) (take (e - a) (drop a t)) s)) \<and>
    line_holds (s\<lparr>rl_line_buffer := b, rl_point := int e\<rparr>) (take a t @ x @ drop e t) e \<and>
    rl_change_case n op s = Some (s1\<lparr>rl_line_buffer := b, rl_point := int e\<rparr>)"
proof -
  from word_moves_yield(1) [OF assms, of n] obtain q where q: "rl_forward_word n s = Some (s\<lparr>rl_point := int q\<rparr>)" "q \<le> length t"
    "if n < 0 then q \<le> p else p \<le> q" by (auto simp: yields_def)
  define a e where "a = (if n < 0 then q else p)" and "e = (if n < 0 then p else q)"
  have ae: "a \<le> e" "e \<le> length t" using q(2,3) holds_le [OF assms] by (auto simp: a_def e_def)
  have pr: "(if n < 0 then (int q, int p) else (int p, int q)) = (int a, int e)" by (simp add: a_def e_def)
  let ?s = "s\<lparr>rl_point := int q\<rparr>"
  have h: "line_holds ?s t q" by (rule holds_move [OF assms q(2)])
  let ?s1 = "if a = e then ?s else modified_by (int a) (int e) (take (e - a) (drop a t)) ?s"
  have m: "rl_modifying (int a) (int e) ?s = Some ?s1"
    using modifying_line [OF h _ ae(2), of a] ae(1) by (cases "a = e") (auto simp: rl_modifying_def)
  from assms obtain junk where b: "rl_line_buffer s = t @ NUL # junk" by (auto simp: line_holds_def)
  have b1: "rl_line_buffer ?s1 = rl_line_buffer s"
    by (simp add: modified_by_frame)
  have "c_string (take (e - a) (drop a (t @ NUL # junk)))" using ae holds_c_string [OF assms] by simp
  from case_loop_line [OF this, of "walphabetic ?s1" op False] ae obtain x where x: "length x = e - a" "c_string x"
    "case_loop (walphabetic ?s1) op (e - a) False (int a) (rl_line_buffer s) =
      Some (take a t @ x @ drop e t @ NUL # junk)" unfolding b by auto
  let ?b = "take a t @ x @ drop e t @ NUL # junk"
  have na: "nat (int e - int a) = e - a" and rp: "rl_point ?s = int q" using ae(1) by simp_all
  have "rl_change_case n op s = Some (?s1\<lparr>rl_line_buffer := ?b, rl_point := int e\<rparr>)"
    unfolding rl_change_case_def q(1) Option.bind.bind_lunit Let_def holds_point [OF assms] rp pr prod.case m b1 na x(3)
    by (rule refl)
  also have "?s1\<lparr>rl_line_buffer := ?b, rl_point := int e\<rparr> =
      (if a = e then s else modified_by (int a) (int e) (take (e - a) (drop a t)) s)\<lparr>rl_line_buffer := ?b, rl_point := int e\<rparr>"
    by (simp add: modified_by_def rl_begin_undo_group_def rl_end_undo_group_def rl_add_undo_def)
  finally have r: "rl_change_case n op s = Some ((if a = e then s else modified_by (int a) (int e) (take (e - a) (drop a t)) s)
      \<lparr>rl_line_buffer := ?b, rl_point := int e\<rparr>)" .
  have "line_holds (s\<lparr>rl_line_buffer := ?b, rl_point := int e\<rparr>) (take a t @ x @ drop e t) e"
    using assms ae x b by (auto simp: line_holds_def)
  with r ae x(1,2) show ?thesis by blast
qed

lemma change_case_yields:
  assumes "okay False us0 base t p s"
  shows "yields (rl_change_case n op s) (undoable False us0 base)"
proof -
  note s = okayD [OF assms]
  from change_case_line [OF s(1), of n op] obtain a e s1 x b where
    c: "a \<le> e" "e \<le> length t" "length x = e - a" "s1 = (if a = e then s else modified_by (int a) (int e) (take (e - a) (drop a t)) s)"
    "line_holds (s\<lparr>rl_line_buffer := b, rl_point := int e\<rparr>) (take a t @ x @ drop e t) e"
    "rl_change_case n op s = Some (s1\<lparr>rl_line_buffer := b, rl_point := int e\<rparr>)" by blast
  have u: "undoes False us0 base (rl_undo_list s1) (take a t @ x @ drop e t)"
  proof (cases "a = e")
    case True
    with c s(2) show ?thesis by simp
  next
    case False
    from s(2) obtain us where us: "rl_undo_list s = us @ us0" "replay us t = Some base" by (auto simp: undoes_def)
    from modified_by_undo [of "int a" "int e" "take (e - a) (drop a t)" s] obtain u i d v where
      l: "rl_undo_list s1 = (u # i # d # v # us) @ us0" "what u = UNDO_END" "what v = UNDO_BEGIN"
      "what i = UNDO_INSERT" "ustart i = int a" "uend i = int e"
      "what d = UNDO_DELETE" "ustart d = int a" "utext d = Some (take (e - a) (drop a t))"
      unfolding c(4) us(1) using False us(1) by fastforce
    have "replay (u # i # d # v # us) (take a t @ x @ drop e t) = replay (i # d # v # us) (take a t @ x @ drop e t)"
      using l(2) by (simp add: replay.simps(2) [of u])
    also have "\<dots> = replay (v # us) t"
      by (rule replay_modified [OF c(1,2) s(9) c(3) l(4-9)])
    also have "\<dots> = Some base" using l(3) us(2) by (simp add: replay.simps(2))
    finally show ?thesis unfolding undoes_def by (intro exI [of _ "u # i # d # v # us"]) (use l(1) in simp)
  qed
  have "kept s s1" "rl_line_buffer_len s1 = rl_line_buffer_len s" "rl_end s1 = rl_end s"
    unfolding c(4) by (auto simp: modified_by_frame)
  then have "okay False us0 base (take a t @ x @ drop e t) e (s1\<lparr>rl_line_buffer := b, rl_point := int e\<rparr>)"
    using c(5) u s(3-5) by (simp add: okay_def line_holds_def ring_ok_def kept_def)
  then show ?thesis using c(6) by (auto simp: yields_def intro: undoableI)
qed

subsection \<open>Transposing\<close>

lemma length_spliced: "length (take p t @ x @ drop p t) = length t + length x"
  by simp

lemma length_cut: "a \<le> b \<Longrightarrow> b \<le> length t \<Longrightarrow> length (take a t @ drop b t) = length t - (b - a)"
  by simp

lemma delete_from_point:
  assumes "okay g us0 base t p s" and "p \<le> e" and "e \<le> length t"
  obtains s' n where "rl_delete_text (int p) (int e) s = Some (s', n)" "okay g us0 base (take p t @ drop e t) p s'"
proof -
  have "yields (rl_delete_text (int p) (int e) s)
      (\<lambda>(s', n). okay g us0 base (take (min p e) t @ drop (max p e) t) p s' \<and> kept s s')"
    by (rule delete_at_yields [OF assms(1)]) (use assms(2,3) in linarith)+
  with that show ?thesis using assms(2) by (auto simp: yields_def min_absorb1 max_absorb2)
qed

lemma insert_at_point:
  assumes "okay g us0 base t p s" and "c_string x"
  obtains s' n where "rl_insert_text x s = Some (s', n)" "okay g us0 base (take p t @ x @ drop p t) (p + length x) s'"
  using okay_insert [OF assms] by blast

lemma swap_words_yields:
  assumes "okay g us0 base t p s" and "a \<le> b" "b \<le> c" "c \<le> d" "d \<le> length t"
    and "w1 = take (b - a) (drop a t)" and "w2 = take (d - c) (drop c t)"
  shows "yields (swap_words (int a) (int b) (int c) (int d) w1 w2 s) (undoable g us0 base)"
proof -
  note s = okayD [OF assms(1)]
  have w: "c_string w1" "c_string w2" "length w1 = b - a" "length w2 = d - c" using s(9) assms(2-7) by simp_all
  have o1: "okay g us0 base t c (s\<lparr>rl_point := int c\<rparr>)" by (rule okay_move [OF assms(1)]) (use assms in simp)
  let ?t2 = "take c t @ drop d t"
  from delete_from_point [OF o1 assms(4,5)] obtain s2 n2 where s2:
    "rl_delete_text (int c) (int d) (s\<lparr>rl_point := int c\<rparr>) = Some (s2, n2)" "okay g us0 base ?t2 c s2" .
  let ?t3 = "take c ?t2 @ w1 @ drop c ?t2"
  from insert_at_point [OF s2(2) w(1)] obtain s3 n3 where s3: "rl_insert_text w1 s2 = Some (s3, n3)"
    "okay g us0 base ?t3 (c + length w1) s3" .
  have l2: "length ?t2 = length t - (d - c)" using assms(4,5) by simp
  have l3: "length ?t3 = length t - (d - c) + (b - a)" using length_spliced [of c ?t2 w1] l2 w(3) by (simp only:)
  then have b3: "b \<le> length ?t3" using assms(2-5) by linarith
  have o4: "okay g us0 base ?t3 a (s3\<lparr>rl_point := int a\<rparr>)" by (rule okay_move [OF s3(2)]) (use assms(2) b3 in linarith)
  let ?t5 = "take a ?t3 @ drop b ?t3"
  from delete_from_point [OF o4 assms(2) b3] obtain s5 n5 where s5:
    "rl_delete_text (int a) (int b) (s3\<lparr>rl_point := int a\<rparr>) = Some (s5, n5)" "okay g us0 base ?t5 a s5" .
  let ?t6 = "take a ?t5 @ w2 @ drop a ?t5"
  from insert_at_point [OF s5(2) w(2)] obtain s6 n6 where s6: "rl_insert_text w2 s5 = Some (s6, n6)"
    "okay g us0 base ?t6 (a + length w2) s6" .
  have "length ?t5 = length ?t3 - (b - a)" using length_cut [OF assms(2) b3] .
  then have "length ?t6 = length t" using length_spliced [of a ?t5 w2] l3 w(4) assms(4,5) by linarith
  then have "okay g us0 base ?t6 d (s6\<lparr>rl_point := int d\<rparr>)" by (intro okay_move [OF s6(2)]) (use assms(5) in \<open>simp only:\<close>)
  then have "undoable g us0 base (s6\<lparr>rl_point := int d\<rparr>)" by (rule undoableI)
  then show ?thesis using s2(1) s3(1) s5(1) s6(1) by (simp add: swap_words_def Let_def)
qed

text \<open>The words found: either the command gives up, or it swaps two separate stretches of the line.\<close>

lemma transpose_words_cases:
  assumes "line_holds s t p"
  shows "(\<exists>q r. rl_transpose_words n s = Some (s\<lparr>rl_point := int q\<rparr>, r) \<and> q \<le> length t) \<or>
    (\<exists>a b c d. a \<le> b \<and> b \<le> c \<and> c \<le> d \<and> d \<le> length t \<and>
       rl_transpose_words n s =
         do { s' \<leftarrow> swap_words (int a) (int b) (int c) (int d) (take (b - a) (drop a t)) (take (d - c) (drop c t))
                      (rl_begin_undo_group (s\<lparr>rl_point := int b\<rparr>));
              Some (rl_end_undo_group s', 0) })"
proof (cases "n = 0")
  case True
  have "s = s\<lparr>rl_point := int p\<rparr>" using holds_point [OF assms] by simp
  with True holds_le [OF assms] show ?thesis unfolding rl_transpose_words_def by auto
next
  case False
  have h: "line_holds (s\<lparr>rl_point := int q\<rparr>) t q" if "q \<le> length t" for q by (rule holds_move [OF assms that])
  from word_moves_yield(1) [OF assms, of n] obtain d where
    d: "rl_forward_word n s = Some (s\<lparr>rl_point := int d\<rparr>)" "d \<le> length t" by (auto simp: yields_def)
  from word_moves_yield(2) [OF h [OF d(2)], of 1] obtain c where
    c: "rl_backward_word 1 (s\<lparr>rl_point := int d\<rparr>) = Some (s\<lparr>rl_point := int c\<rparr>)" "c \<le> length t" "c \<le> d" by (auto simp: yields_def)
  from word_moves_yield(2) [OF h [OF c(2)], of n] obtain a where
    a: "rl_backward_word n (s\<lparr>rl_point := int c\<rparr>) = Some (s\<lparr>rl_point := int a\<rparr>)" "a \<le> length t" by (auto simp: yields_def)
  from word_moves_yield(1) [OF h [OF a(2)], of 1] obtain b where
    b: "rl_forward_word 1 (s\<lparr>rl_point := int a\<rparr>) = Some (s\<lparr>rl_point := int b\<rparr>)" "b \<le> length t" "a \<le> b" by (auto simp: yields_def)
  show ?thesis
  proof (cases "a = c \<or> c < b")
    case True
    then have "rl_transpose_words n s = Some (s\<lparr>rl_point := int p\<rparr>, -1)"
      using False d(1) c(1) a(1) b(1) holds_point [OF assms] by (simp add: rl_transpose_words_def Let_def)
    with holds_le [OF assms] show ?thesis by blast
  next
    case ok: False
    have "rl_copy_text (int a) (int b) (s\<lparr>rl_point := int b\<rparr>) = Some (take (b - a) (drop a t))"
      "rl_copy_text (int c) (int d) (s\<lparr>rl_point := int b\<rparr>) = Some (take (d - c) (drop c t))"
      using copy_text_line(1) [OF h [OF b(2)]] a(2) b(3) c(2,3) by simp_all
    then have "rl_transpose_words n s =
        do { s' \<leftarrow> swap_words (int a) (int b) (int c) (int d) (take (b - a) (drop a t)) (take (d - c) (drop c t))
                     (rl_begin_undo_group (s\<lparr>rl_point := int b\<rparr>));
             Some (rl_end_undo_group s', 0) }"
      using False ok d(1) c(1) a(1) b(1) by (simp add: rl_transpose_words_def Let_def)
    moreover have "b \<le> c" using ok by simp
    ultimately show ?thesis using b(3) c(3) d(2) by blast
  qed
qed

lemma transpose_words_yields:
  assumes "okay False us0 base t p s"
  shows "yields (rl_transpose_words n s) (\<lambda>x. undoable False us0 base (fst x))"
  using transpose_words_cases [OF okayD(1) [OF assms], of n]
proof (elim disjE exE conjE)
  fix q r assume "rl_transpose_words n s = Some (s\<lparr>rl_point := int q\<rparr>, r)" "q \<le> length t"
  with okay_move [OF assms] show ?thesis by (auto intro: undoableI)
next
  fix a b c d
  assume w: "a \<le> b" "b \<le> c" "c \<le> d" "d \<le> length t" and eq: "rl_transpose_words n s =
         do { s' \<leftarrow> swap_words (int a) (int b) (int c) (int d) (take (b - a) (drop a t)) (take (d - c) (drop c t))
                      (rl_begin_undo_group (s\<lparr>rl_point := int b\<rparr>));
              Some (rl_end_undo_group s', 0) }"
  have "okay False us0 base t b (rl_begin_undo_group (s\<lparr>rl_point := int b\<rparr>))"
    by (rule okay_marks(1) [OF okay_move [OF assms]]) (use w in simp)
  from swap_words_yields [OF this w refl refl] show ?thesis
    unfolding eq by (auto elim!: yields_mono intro: ready_group_mark)
qed

lemma find_next_mbchar_line:
  assumes "line_holds s t p" and "q \<le> length t"
  shows "\<exists>j \<le> length t. find_next_mbchar (rl_line_buffer s) (int q) n = Some (int j)"
proof (cases "n \<le> 0")
  case True
  with assms(2) show ?thesis by (auto simp: find_next_mbchar_def)
next
  case False
  then obtain m where m: "n = int m" by (metis linorder_linear nonneg_int_cases)
  have "c_str (rl_line_buffer s) 0 = Some t" "c_str (rl_line_buffer s) (int q) = Some (drop q t)"
    using holds_c_str [OF assms(1), of 0] holds_c_str [OF assms] by simp_all
  then have "find_next_mbchar (rl_line_buffer s) (int q) n = Some (int (q + min m (length t - q)))"
    using False assms(2) m by (simp add: find_next_mbchar_def Let_def)
  then show ?thesis using assms(2) by (intro exI [of _ "q + min m (length t - q)"]) simp
qed

lemma swap_chars_yields:
  assumes "okay g us0 base t p s" and "0 < p" and "2 \<le> length t"
  shows "yields (swap_chars n s) (undoable g us0 base)"
proof -
  note s = okayD [OF assms(1)]
  define pp m where "pp = (if p = length t then p - 1 else p)" and "m = (if p = length t then 1 else n)"
  have pp: "0 < pp" "pp < length t" using assms(2,3) s(8) by (auto simp: pp_def)
  have e: "(if rl_point s = rl_end s then (rl_point s - 1, 1) else (rl_point s, n)) = (int pp, m)"
    using s(6,7) assms(2) by (simp add: pp_def m_def of_nat_diff)
  obtain q where q: "pp = Suc q" using pp(1) by (cases pp) auto
  let ?s = "s\<lparr>rl_point := int q\<rparr>"
  have o: "okay g us0 base t q ?s" by (rule okay_move [OF assms(1)]) (use pp q in simp)
  obtain x where x: "load_at (rl_line_buffer s) (int q) = Some x" using holds_get_at [OF s(1), of q] pp q by auto
  let ?t = "take q t @ drop (Suc q) t"
  obtain s1 d where s1: "rl_delete_text (int q) (int (Suc q)) ?s = Some (s1, d)" "okay g us0 base ?t q s1"
    by (rule delete_from_point [OF o, of "Suc q"]) (use pp q in simp_all)
  note s1' = okayD [OF s1(2)]
  from find_next_mbchar_line [OF s1'(1,8), of m] obtain j where
    j: "find_next_mbchar (rl_line_buffer s1) (int q) m = Some (int j)" "j \<le> length ?t" by blast
  have fx: "rl_fix_point False (s1\<lparr>rl_point := int j\<rparr>) = s1\<lparr>rl_point := int j\<rparr>"
    using j(2) s1'(7) by (simp add: rl_fix_point_def fix_pos_def)
  have "yields (rl_insert_text (cstr [x]) (s1\<lparr>rl_point := int j\<rparr>)) (\<lambda>y. undoable g us0 base (fst y))"
    by (rule yields_mono [OF insert_yields [OF okay_move [OF s1(2) j(2)]]]) (auto intro: undoableI)
  moreover have "int (Suc q) - 1 = int q" "int q + 1 = int (Suc q)" by simp_all
  ultimately show ?thesis
    unfolding swap_chars_def e Let_def prod.case q
    using x s1(1) s1'(6) j(1) fx by (simp add: case_prod_beta add.commute)
qed

lemma transpose_chars_yields:
  assumes "okay False us0 base t p s"
  shows "yields (rl_transpose_chars n s) (\<lambda>x. undoable False us0 base (fst x))"
proof -
  note s = okayD [OF assms]
  have "yields (swap_chars n (rl_begin_undo_group s)) (undoable False us0 base)" if "0 < p" "2 \<le> length t"
    by (rule swap_chars_yields [OF okay_marks(1) [OF assms] that])
  with undoableI [OF assms] s(6,7) show ?thesis
    by (auto simp: rl_transpose_chars_def elim!: yields_mono intro: ready_group_mark)
qed

subsection \<open>All commands\<close>

text \<open>
  The situations in which a command stays inside its memory: kills need a ring that can take them, the
  region commands a mark that is not negative, exchanging point and mark a mark that is at least \<^verbatim>\<open>-1\<close>,
  and \<^verbatim>\<open>unix-filename-rubout\<close> must not reach the start of the line. Overwriting with a numeric argument,
  which kills one byte after the other, is left out.
\<close>

fun safe_command :: "edit_func \<times> int \<times> bool \<Rightarrow> editor \<Rightarrow> bool" where
  "safe_command (Insert c, n, explicit) s \<longleftrightarrow> rl_insert_mode s \<or> \<not> explicit"
| "safe_command (Rubout, n, explicit) s \<longleftrightarrow> (n > 1 \<or> n < -1 \<or> explicit \<longrightarrow> may_kill s)"
| "safe_command (Delete, n, explicit) s \<longleftrightarrow> (n > 1 \<or> n < -1 \<or> explicit \<longrightarrow> may_kill s)"
| "safe_command (Rubout_or_delete, n, explicit) s \<longleftrightarrow> (n > 1 \<or> n < -1 \<or> explicit \<longrightarrow> may_kill s)"
| "safe_command (Exchange_point_and_mark, n, explicit) s \<longleftrightarrow> -1 \<le> rl_mark s"
| "safe_command (Unix_filename_rubout, n, explicit) s \<longleftrightarrow>
     may_kill s \<and> (rl_point s = 0 \<or> rubout_filenames (nat (if n \<le> 0 then 1 else n)) s \<noteq> None)"
| "safe_command (Copy_region_to_kill, n, explicit) s \<longleftrightarrow> may_kill s \<and> 0 \<le> rl_mark s"
| "safe_command (Kill_region, n, explicit) s \<longleftrightarrow> may_kill s \<and> 0 \<le> rl_mark s"
| "safe_command (f, n, explicit) s \<longleftrightarrow>
     (f \<in> {Kill_word, Backward_kill_word, Kill_line, Backward_kill_line, Kill_full_line, Unix_word_rubout,
             Unix_line_discard, Copy_forward_word, Copy_backward_word} \<longrightarrow> may_kill s)"

lemma exchange_ready:
  assumes "okay g us0 base t p s" and "-1 \<le> rl_mark s"
  shows "undoable g us0 base (fst (rl_exchange_point_and_mark s))"
proof -
  note s = okayD [OF assms(1)]
  show ?thesis
  proof (cases "rl_mark s > rl_end s \<or> rl_mark s = -1")
    case True
    then have "fst (rl_exchange_point_and_mark s) = s\<lparr>rl_mark := -1\<rparr>"
      by (auto simp: rl_exchange_point_and_mark_def Let_def)
    then show ?thesis using undoableI [OF assms(1)] by simp
  next
    case False
    with assms(2) s(7) obtain e where e: "rl_mark s = int e" "e \<le> length t"
      by (metis linorder_not_less nonneg_int_cases of_nat_le_iff order_le_less zle_add1_eq_le add.commute
          add.right_inverse)
    then have "fst (rl_exchange_point_and_mark s) = s\<lparr>rl_point := int e, rl_mark := rl_point s\<rparr>"
      using False s(7) by (auto simp: rl_exchange_point_and_mark_def Let_def)
    then show ?thesis using undoableI [OF okay_move [OF assms(1) e(2)]] by simp
  qed
qed

lemma just_yields [simp]: "yields (just r) Q \<longleftrightarrow> yields r (\<lambda>s. Q (s, 0))"
  by (simp add: just_def)

lemma yields_pair: "yields r (\<lambda>(s, n). P s) \<Longrightarrow> yields r (\<lambda>x. P (fst x))"
  by (auto simp: yields_def)

lemma command_ready:
  assumes "okay False [] base t p s" and "rl_explicit_arg s = explicit" and "safe_command (f, n, explicit) s"
  shows "yields (command f n s) (\<lambda>x. undoable False [] base (fst x))"
proof -
  note s = okayD [OF assms(1)]
  have moved: "undoable False [] base (s\<lparr>rl_point := int q\<rparr>)" if "q \<le> length t" for q
    by (rule undoableI [OF okay_move [OF assms(1) that]])
  have words: "yields (rl_forward_word n s) (undoable False [] base)" "yields (rl_backward_word n s) (undoable False [] base)"
    by (rule yields_mono [OF word_moves_yield(1) [OF s(1)]], use moved in blast)
      (rule yields_mono [OF word_moves_yield(2) [OF s(1)]], use moved in blast)
  have bytes: "undoable False [] base (rl_forward_byte n s)" "undoable False [] base (rl_backward_byte n s)"
    using byte_moves [OF s(1), of n] moved by auto
  note deletes = delete_command_yields [OF assms(1), of n, THEN yields_pair]
    rubout_yields [OF assms(1), of n, THEN yields_pair] rubout_char_yields [OF assms(1), of n, THEN yields_pair]
  have undo: "yields (rl_undo_command n s) (\<lambda>x. undoable False [] base (fst x))"
    using undo_times_okay [OF assms(1), of "nat n"] undoableI [OF assms(1)]
    by (fastforce simp: rl_undo_command_def yields_def undoable_def)
  have revert: "yields (rl_revert_line s) (\<lambda>x. undoable False [] base (fst x))"
    using revert_line_okay [OF assms(1)] by (auto simp: yields_def undoable_def)
  have region: "yields (region_kill_internal False s) (undoable False [] base)" if "may_kill s" "0 \<le> rl_mark s"
    by (rule yields_mono [OF region_copy_yields [OF assms(1) that]]) (rule undoableI)
  show ?thesis
  proof (cases f)
    case Set_mark
    with undoableI [OF assms(1)] show ?thesis by (simp add: rl_set_mark_def set_mark_at_pos_def)
  next
    case Beg_of_line
    with moved [of 0] show ?thesis by (simp add: rl_beg_of_line_def)
  next
    case End_of_line
    with moved [of "length t"] s(7) show ?thesis by (simp add: rl_end_of_line_def)
  qed (use assms s words bytes deletes undo revert region exchange_ready [OF assms(1)]
      insert_command_yields [OF assms(1)] delete_horizontal_space_yields [OF assms(1)] change_case_yields [OF assms(1)]
      transpose_words_yields [OF assms(1)] transpose_chars_yields [OF assms(1)] yank_yields [OF assms(1)]
      yank_pop_yields [OF assms(1)] kill_word_yields [OF assms(1)] kill_line_yields [OF assms(1)]
      kill_full_line_yields [OF assms(1)] unix_word_rubout_yields [OF assms(1)] unix_filename_rubout_yields [OF assms(1)]
      unix_line_discard_yields [OF assms(1)] kill_region_yields [OF assms(1)] copy_word_yields [OF assms(1)]
      in \<open>auto simp: rl_rubout_or_delete_def rl_copy_forward_word_def rl_copy_backward_word_def\<close>)
qed

end
