(* ===== verification/EditProps.thy ===== *)
theory EditProps
  imports EditCommands
begin

text \<open>
  The properties of the line editor: sequences of commands and the undo list, groups of changes,
  the history entry being edited; and the situations in which a command leaves its memory.
\<close>

subsection \<open>Sequences of commands\<close>

definition editor_ok :: "editor \<Rightarrow> bool" where
  "editor_ok s \<longleftrightarrow> (\<exists>t p. idle s t p)"

fun safe_run :: "(edit_func \<times> int \<times> bool) list \<Rightarrow> editor \<Rightarrow> bool" where
  "safe_run [] s \<longleftrightarrow> True"
| "safe_run (k # ks) s \<longleftrightarrow>
     safe_command k (s\<lparr>rl_explicit_arg := snd (snd k)\<rparr>) \<and>
     (case run_command k s of None \<Rightarrow> True | Some s' \<Rightarrow> safe_run ks s')"

lemma run_command_ready:
  assumes "undoable False [] base s" and "safe_command k (s\<lparr>rl_explicit_arg := snd (snd k)\<rparr>)"
  shows "yields (run_command k s) (undoable False [] base)"
proof -
  obtain f n x where k: "k = (f, n, x)" by (cases k) auto
  from assms(1) obtain t p where o: "okay False [] base t p s" by (auto simp: undoable_def)
  let ?s = "s\<lparr>rl_explicit_arg := x\<rparr>"
  have "yields (command f n ?s) (\<lambda>y. undoable False [] base (fst y))"
    by (rule command_ready [of base t p ?s x]) (use o assms(2) k in simp_all)
  then obtain s' r where s': "command f n ?s = Some (s', r)" "undoable False [] base s'" by (auto simp: yields_def)
  from s'(2) obtain t' p' where o': "okay False [] base t' p' s'" by (auto simp: undoable_def)
  then have "okay False [] base t' p' (s'\<lparr>rl_last_func := Some f, last_command_was_kill := 0\<rparr>)"
    using okay_kill_count(2) [of False "[]" base t' p' "s'\<lparr>rl_last_func := Some f\<rparr>"] by simp
  with o' show ?thesis by (auto simp: run_command_def k s'(1) Let_def intro: undoableI)
qed

lemma run_commands_ready:
  "undoable False [] base s \<Longrightarrow> safe_run ks s \<Longrightarrow> yields (run_commands ks s) (undoable False [] base)"
proof (induction ks arbitrary: s)
  case (Cons k ks)
  then have "yields (run_command k s) (undoable False [] base)" by (intro run_command_ready) simp_all
  then obtain s' where "run_command k s = Some s'" "undoable False [] base s'" by (auto simp: yields_def)
  with Cons show ?case by simp
qed simp

lemma ready_ok: "undoable False [] base s \<Longrightarrow> editor_ok s"
  by (auto simp: undoable_def editor_ok_def okay_idle)

lemma idle_line: "idle s t p \<Longrightarrow> edit_line s = t"
  by (auto simp: idle_def dest: holds_line)

subsection \<open>Groups of changes\<close>

lemma begin_group:
  assumes "idle s t p"
  shows "\<exists>b. what b = UNDO_BEGIN \<and> okay True (b # rl_undo_list s) t t p (rl_begin_undo_group s)"
proof -
  let ?b = "\<lparr>uaddr = next_address s, what = UNDO_BEGIN, ustart = 0, uend = 0, utext = None\<rparr>"
  have "okay True (?b # rl_undo_list s) t t p (rl_begin_undo_group s)"
    using assms by (auto simp: okay_def idle_def undoes_def line_holds_def ring_ok_def rl_begin_undo_group_def rl_add_undo_def)
  then show ?thesis by (intro exI [of _ ?b]) simp
qed

lemma end_group:
  assumes "undoable True (b # us0) base s" and "what b = UNDO_BEGIN"
  shows "\<exists>s'. rl_do_undo (rl_end_undo_group s) = Some (s', 1) \<and> editor_ok s' \<and> edit_line s' = base \<and> rl_undo_list s' = us0"
proof -
  from assms(1) obtain t p where o: "okay True (b # us0) base t p s" by (auto simp: undoable_def)
  then obtain us where us: "rl_undo_list s = us @ b # us0" "list_all change us" "replay us t = Some base"
    by (auto simp: okay_def undoes_def)
  let ?e = "\<lparr>uaddr = next_address s, what = UNDO_END, ustart = 0, uend = 0, utext = None\<rparr>"
  have "idle (rl_end_undo_group s) t p" "rl_undo_list (rl_end_undo_group s) = ?e # us @ b # us0"
    using o us(1) by (auto simp: okay_def idle_def line_holds_def ring_ok_def rl_end_undo_group_def rl_add_undo_def)
  from undo_group [OF this us(3,2) _ assms(2)] show ?thesis by (auto simp: editor_ok_def dest: idle_line)
qed

lemma replace_body_yields:
  assumes "okay g us0 base t p s" and "c_string x" and "a \<le> length t"
  shows "yields (do {
      (s, _) \<leftarrow> (if int a \<le> int e then rl_delete_text (int a) (int e + 1) s else Some (s, 0));
      let s = s\<lparr>rl_point := int a\<rparr>;
      (s, _) \<leftarrow> (if x \<noteq> [] then rl_insert_text x s else Some (s, 0));
      Some s }) (undoable g us0 base)"
proof -
  note s = okayD [OF assms(1)]
  have "yields (if int a \<le> int e then rl_delete_text (int a) (int e + 1) s else Some (s, 0))
      (\<lambda>y. \<exists>t'. okay g us0 base t' a ((fst y)\<lparr>rl_point := int a\<rparr>))"
  proof (cases "a \<le> e")
    case True
    have i: "int e + 1 = int (Suc e)" by simp
    let ?e = "min (Suc e) (length t)"
    have ae: "a \<le> ?e" "?e \<le> length t" using True assms(3) by auto
    have "rl_delete_text (int a) (int e + 1) s = rl_delete_text (int a) (int ?e) s"
      unfolding i using delete_text_clip [OF s(1), of a "Suc e"] assms(3) by (simp add: min_absorb1)
    moreover from delete_yields [OF assms(1,3) ae(2)]
    have "yields (rl_delete_text (int a) (int ?e) s) (\<lambda>y. \<exists>t'. okay g us0 base t' a ((fst y)\<lparr>rl_point := int a\<rparr>))"
    proof (rule yields_mono)
      fix y assume "case y of (s', n) \<Rightarrow>
          (\<forall>q \<le> length t - (max a ?e - min a ?e).
             okay g us0 base (take (min a ?e) t @ drop (max a ?e) t) q (s'\<lparr>rl_point := int q\<rparr>)) \<and>
          rl_point s' = int p \<and> kept s s'"
      moreover have "a \<le> length t - (max a ?e - min a ?e)" using ae by linarith
      ultimately show "\<exists>t'. okay g us0 base t' a ((fst y)\<lparr>rl_point := int a\<rparr>)"
        by (cases y) auto
    qed
    ultimately show ?thesis using True by simp
  next
    case False
    with okay_move [OF assms(1,3)] show ?thesis by auto
  qed
  then obtain s1 n1 t1 where s1: "(if int a \<le> int e then rl_delete_text (int a) (int e + 1) s else Some (s, 0)) = Some (s1, n1)"
    "okay g us0 base t1 a (s1\<lparr>rl_point := int a\<rparr>)" by (auto simp: yields_def)
  have "yields (rl_insert_text x (s1\<lparr>rl_point := int a\<rparr>)) (\<lambda>y. undoable g us0 base (fst y))"
    by (rule yields_mono [OF insert_yields [OF s1(2) assms(2)]]) (auto intro: undoableI)
  then show ?thesis using s1(1) undoableI [OF s1(2)] by (simp add: Let_def case_prod_beta)
qed

text \<open>What \<^verbatim>\<open>rl_do_undo\<close> gives after a change that was made as a group, or was none.\<close>

definition undone_at_once :: "editor \<Rightarrow> editor \<Rightarrow> bool" where
  "undone_at_once s s' \<longleftrightarrow>
     rl_undo_list s' = rl_undo_list s \<and> edit_line s' = edit_line s \<or>
     (\<exists>s''. rl_do_undo s' = Some (s'', 1) \<and> editor_ok s'' \<and> edit_line s'' = edit_line s \<and> rl_undo_list s'' = rl_undo_list s)"

lemma group_undone:
  assumes "idle s t p"
    and "\<And>us0 base. okay True us0 base t p (rl_begin_undo_group s) \<Longrightarrow> yields (body (rl_begin_undo_group s)) (undoable True us0 base)"
  shows "yields (body (rl_begin_undo_group s)) (\<lambda>s'. undone_at_once s (rl_end_undo_group s'))"
proof -
  from begin_group [OF assms(1)] obtain b where b: "what b = UNDO_BEGIN"
    "okay True (b # rl_undo_list s) t t p (rl_begin_undo_group s)" by blast
  show ?thesis
    by (rule yields_mono [OF assms(2) [OF b(2)]])
      (use end_group [OF _ b(1)] idle_line [OF assms(1)] in \<open>auto simp: undone_at_once_def\<close>)
qed

lemma change_case_undone:
  assumes "idle s t p"
  shows "yields (rl_change_case n op s) (undone_at_once s)"
proof -
  have h: "line_holds s t p" and l: "edit_line s = t" using assms idle_line by (auto simp: idle_def)
  from change_case_line [OF h, of n op] obtain a e s1 x b where
    c: "a \<le> e" "e \<le> length t" "length x = e - a" "s1 = (if a = e then s else modified_by (int a) (int e) (take (e - a) (drop a t)) s)"
    "line_holds (s\<lparr>rl_line_buffer := b, rl_point := int e\<rparr>) (take a t @ x @ drop e t) e"
    "rl_change_case n op s = Some (s1\<lparr>rl_line_buffer := b, rl_point := int e\<rparr>)" by blast
  let ?s = "s1\<lparr>rl_line_buffer := b, rl_point := int e\<rparr>"
  show ?thesis
  proof (cases "a = e")
    case True
    with c(4) have "s1 = s" by simp
    moreover have "take a t @ x @ drop e t = t" using True c(3) by simp
    ultimately have "edit_line ?s = t" using holds_line [OF c(5)] by (simp add: edit_line_def)
    with c(6) l \<open>s1 = s\<close> show ?thesis by (auto simp: undone_at_once_def)
  next
    case False
    let ?m = "modified_by (int a) (int e) (take (e - a) (drop a t)) s"
    have s1: "s1 = ?m" using False c(4) by simp
    from modified_by_undo [of "int a" "int e" "take (e - a) (drop a t)" s] obtain u i d v where
      m: "rl_undo_list ?m = u # i # d # v # rl_undo_list s" "what u = UNDO_END" "what v = UNDO_BEGIN"
      "what i = UNDO_INSERT" "ustart i = int a" "uend i = int e"
      "what d = UNDO_DELETE" "ustart d = int a" "utext d = Some (take (e - a) (drop a t))" by blast
    have "kept s s1" "rl_line_buffer_len s1 = rl_line_buffer_len s" "rl_end s1 = rl_end s"
      "\<not> doing_an_undo s" "hist_ok (hist s)" "ring_ok s"
      using assms by (simp_all add: s1 modified_by_frame idle_def)
    then have "idle ?s (take a t @ x @ drop e t) e"
      using c(5) by (simp add: idle_def line_holds_def ring_ok_def kept_def)
    moreover have "rl_undo_list ?s = u # [i, d] @ v # rl_undo_list s" using m(1) s1 by simp
    moreover have "replay [i, d] (take a t @ x @ drop e t) = Some t"
      using replay_modified [OF c(1,2) holds_c_string [OF h] c(3) m(4-9), of "[]"] by simp
    moreover have "list_all change [i, d]" using m(4,7) by (simp add: change_def)
    ultimately have "\<exists>s' p'. rl_do_undo ?s = Some (s', 1) \<and> idle s' t p' \<and> rl_undo_list s' = rl_undo_list s"
      using m(2,3) by (rule undo_group)
    then show ?thesis using c(6) l idle_line by (auto simp: undone_at_once_def editor_ok_def)
  qed
qed

lemma transpositions_undone:
  assumes "idle s t p"
  shows "yields (rl_transpose_words n s) (\<lambda>y. undone_at_once s (fst y))"
    and "yields (rl_transpose_chars n s) (\<lambda>y. undone_at_once s (fst y))"
proof -
  have h: "line_holds s t p" and l: "edit_line s = t" using assms idle_line by (auto simp: idle_def)
  have stay: "undone_at_once s (s\<lparr>rl_point := q\<rparr>)" for q by (simp add: undone_at_once_def edit_line_def)
  show "yields (rl_transpose_words n s) (\<lambda>y. undone_at_once s (fst y))"
    using transpose_words_cases [OF h, of n]
  proof (elim disjE exE conjE)
    fix q r assume "rl_transpose_words n s = Some (s\<lparr>rl_point := int q\<rparr>, r)"
    with stay show ?thesis by simp
  next
    fix a b c d
    assume w: "a \<le> b" "b \<le> c" "c \<le> d" "d \<le> length t" and eq: "rl_transpose_words n s =
         do { s' \<leftarrow> swap_words (int a) (int b) (int c) (int d) (take (b - a) (drop a t)) (take (d - c) (drop c t))
                      (rl_begin_undo_group (s\<lparr>rl_point := int b\<rparr>));
              Some (rl_end_undo_group s', 0) }"
    let ?s = "s\<lparr>rl_point := int b\<rparr>"
    have "idle ?s t b" using assms w holds_move [OF h, of b] by (simp add: idle_def ring_ok_def)
    from group_undone [OF this, of "swap_words (int a) (int b) (int c) (int d) (take (b - a) (drop a t)) (take (d - c) (drop c t))"]
    have "yields (swap_words (int a) (int b) (int c) (int d) (take (b - a) (drop a t)) (take (d - c) (drop c t))
        (rl_begin_undo_group ?s)) (\<lambda>s'. undone_at_once ?s (rl_end_undo_group s'))"
      using swap_words_yields [OF _ w refl refl] by blast
    moreover have "undone_at_once ?s = undone_at_once s" by (simp add: undone_at_once_def edit_line_def fun_eq_iff)
    ultimately show ?thesis unfolding eq by simp
  qed
  show "yields (rl_transpose_chars n s) (\<lambda>y. undone_at_once s (fst y))"
  proof (cases "n = 0 \<or> rl_point s = 0 \<or> rl_end s < 2")
    case True
    with stay [of "rl_point s"] show ?thesis by (auto simp: rl_transpose_chars_def)
  next
    case False
    then have "0 < p" "2 \<le> length t" using holds_point [OF h] holds_end [OF h] by auto
    then have "yields (swap_chars n (rl_begin_undo_group s)) (\<lambda>s'. undone_at_once s (rl_end_undo_group s'))"
      by (intro group_undone [OF assms] swap_chars_yields)
    with False show ?thesis by (simp add: rl_transpose_chars_def)
  qed
qed

lemma replacement_undone:
  assumes "idle s t p" and "c_string x" and "a \<le> length t"
  shows "yields (rl_replace_text x (int a) (int e) s) (\<lambda>y. undone_at_once s (fst y))"
proof -
  let ?body = "\<lambda>s. do {
      (s, _) \<leftarrow> (if int a \<le> int e then rl_delete_text (int a) (int e + 1) s else Some (s, 0));
      let s = s\<lparr>rl_point := int a\<rparr>;
      (s, _) \<leftarrow> (if x \<noteq> [] then rl_insert_text x s else Some (s, 0));
      Some s }"
  have "yields (?body (rl_begin_undo_group s)) (\<lambda>s'. undone_at_once s (rl_end_undo_group s'))"
    by (rule group_undone [OF assms(1)]) (rule replace_body_yields [OF _ assms(2,3)])
  then show ?thesis by (simp add: rl_replace_text_def Let_def case_prod_beta)
qed

subsection \<open>The editor with a line\<close>

lemma init_line_state_ok:
  assumes "rl_line_buffer_len s = int (length (rl_line_buffer s))" and "0 < rl_line_buffer_len s"
    and "\<not> doing_an_undo s" and "hist_ok (hist s)" and "ring_ok s"
  shows "yields (init_line_state s) (\<lambda>s'. editor_ok s' \<and> edit_line s' = [])"
proof -
  obtain c b where b: "rl_line_buffer s = c # b" using assms(1,2) by (cases "rl_line_buffer s") auto
  then have "init_line_state s = Some (s\<lparr>rl_point := 0, rl_end := 0, rl_mark := 0, rl_line_buffer := NUL # b\<rparr>)"
    by (simp add: init_line_state_def store_at_def)
  moreover have "idle (s\<lparr>rl_point := 0, rl_end := 0, rl_mark := 0, rl_line_buffer := NUL # b\<rparr>) [] 0"
    using assms b by (simp add: idle_def line_holds_def ring_ok_def)
  ultimately show ?thesis by (auto simp: editor_ok_def edit_line_def)
qed

text \<open>A small editor state for examples: a line, the cursor, no history and no kill ring.\<close>

definition editor_with :: "string \<Rightarrow> nat \<Rightarrow> editor" where
  "editor_with t p =
     \<lparr>rl_line_buffer = t @ [NUL], rl_line_buffer_len = int (length t) + 1, rl_point = int p, rl_end = int (length t),
      rl_mark = 0, rl_undo_list = [], doing_an_undo = False, undo_group_level = 0, next_address = 1,
      rl_kill_ring = None, rl_kill_index = 0, rl_kill_ring_length = 0, last_command_was_kill = 0,
      rl_explicit_arg = False, rl_last_func = None, vi_mode = False, vi_movement_keymap = False,
      rl_insert_mode = True, allow_pathname_alphabetic_chars = False, output_meta_chars = False, macro_input = False,
      pushed_input = [], self_insert = (\<lambda>_. False), aborted = False, hist = history_init, fresh_bytes = (\<lambda>_. NUL)\<rparr>"

lemma editor_with_idle: "c_string t \<Longrightarrow> p \<le> length t \<Longrightarrow> idle (editor_with t p) t p"
  by (simp add: idle_def line_holds_def editor_with_def ring_ok_def ring_inv_def hist_ok_def hist_rep_def history_init_def)

lemma editor_with_ok: "c_string t \<Longrightarrow> p \<le> length t \<Longrightarrow> editor_ok (editor_with t p)"
  unfolding editor_ok_def by (blast intro: editor_with_idle)

subsection \<open>Properties\<close>

text \<open>
  C1. Whatever sequence of editing commands is typed, starting from a well-formed line with an empty
  undo list and outside the situations \<open>safe_command\<close> excludes: every command returns without a read or
  write outside the line buffer and the kill ring, the state stays well formed, and \<^verbatim>\<open>rl_revert_line\<close> then
  returns, empties the undo list and restores the line exactly, although insertions are merged, groups
  are nested in the list, and undo commands may have been among those typed.\<close>

theorem editing_is_reverted:
  assumes "editor_ok s" and "rl_undo_list s = []" and "safe_run ks s"
  shows "\<exists>s' s''. run_commands ks s = Some s' \<and> editor_ok s' \<and> rl_revert_line s' = Some (s'', 0) \<and>
    editor_ok s'' \<and> edit_line s'' = edit_line s \<and> rl_undo_list s'' = []"
proof -
  from assms(1) obtain t p where i: "idle s t p" by (auto simp: editor_ok_def)
  then have "undoable False [] t s" using assms(2) by (auto simp: undoable_def okay_idle)
  from run_commands_ready [OF this assms(3)] obtain s' where s': "run_commands ks s = Some s'" "undoable False [] t s'"
    by (auto simp: yields_def)
  from s'(2) obtain t' p' where "okay False [] t t' p' s'" by (auto simp: undoable_def)
  from revert_line_okay [OF this] obtain s'' q where
    "rl_revert_line s' = Some (s'', 0)" "idle s'' t q" "rl_undo_list s'' = []" by (auto simp: okay_idle)
  with s' ready_ok [OF s'(2)] idle_line [OF i] idle_line show ?thesis by (auto simp: editor_ok_def)
qed

theorem editing_is_reverted_witness:
  "\<exists>s' s''. run_commands [(Insert CHR ''x'', 1, False), (Insert CHR ''y'', 1, False), (Backward_kill_word, 1, False),
       (Yank, 1, False), (Transpose_chars, 1, False), (Undo_command, 1, False), (Upcase_word, -1, True)]
      (editor_with ''ab cd'' 5) = Some s' \<and> editor_ok s' \<and> rl_revert_line s' = Some (s'', 0) \<and>
    editor_ok s'' \<and> edit_line s'' = ''ab cd'' \<and> rl_undo_list s'' = []"
proof -
  have "editor_ok (editor_with ''ab cd'' 5)" by (rule editor_with_ok) simp_all
  moreover have "rl_undo_list (editor_with ''ab cd'' 5) = []" "edit_line (editor_with ''ab cd'' 5) = ''ab cd''"
    by (simp_all add: editor_with_def edit_line_def)
  moreover have "safe_run [(Insert CHR ''x'', 1, False), (Insert CHR ''y'', 1, False), (Backward_kill_word, 1, False),
      (Yank, 1, False), (Transpose_chars, 1, False), (Undo_command, 1, False), (Upcase_word, -1, True)] (editor_with ''ab cd'' 5)"
    by code_simp
  ultimately show ?thesis using editing_is_reverted [of "editor_with ''ab cd'' 5"] by metis
qed

text \<open>
  C11. A transposition, a change of case or a replacement of text (which completion and history expansion
  use) returns, and one \<^verbatim>\<open>rl_do_undo\<close> takes it back as a whole: it gives the line from before and the undo
  list from before, however many entries the change needed; a command that found nothing to do changed neither.\<close>

theorem grouped_changes_undone_at_once:
  assumes "editor_ok s"
    and "r \<in> {rl_transpose_words n s, rl_transpose_chars n s, map_option (\<lambda>s. (s, 0)) (rl_change_case n op s)} \<or>
      c_string x \<and> a \<le> length (edit_line s) \<and> r = rl_replace_text x (int a) (int e) s"
  shows "\<exists>s' m. r = Some (s', m) \<and>
    (rl_undo_list s' = rl_undo_list s \<and> edit_line s' = edit_line s \<or>
     (\<exists>s''. rl_do_undo s' = Some (s'', 1) \<and> editor_ok s'' \<and> edit_line s'' = edit_line s \<and> rl_undo_list s'' = rl_undo_list s))"
proof -
  from assms(1) obtain t p where i: "idle s t p" by (auto simp: editor_ok_def)
  have "yields r (\<lambda>y. undone_at_once s (fst y))"
    using assms(2) transpositions_undone [OF i] change_case_undone [OF i] replacement_undone [OF i] idle_line [OF i] by auto
  then show ?thesis by (auto simp: yields_def undone_at_once_def)
qed

theorem grouped_changes_undone_at_once_witness:
  "\<exists>s' m. rl_transpose_words 1 (editor_with ''ab cd'' 5) = Some (s', m) \<and>
    (rl_undo_list s' = [] \<and> edit_line s' = ''ab cd'' \<or>
     (\<exists>s''. rl_do_undo s' = Some (s'', 1) \<and> editor_ok s'' \<and> edit_line s'' = ''ab cd'' \<and> rl_undo_list s'' = []))"
proof -
  have "editor_ok (editor_with ''ab cd'' 5)" by (rule editor_with_ok) simp_all
  moreover have "rl_undo_list (editor_with ''ab cd'' 5) = []" "edit_line (editor_with ''ab cd'' 5) = ''ab cd''"
    by (simp_all add: editor_with_def edit_line_def)
  ultimately show ?thesis
    using grouped_changes_undone_at_once [of "editor_with ''ab cd'' 5" "rl_transpose_words 1 (editor_with ''ab cd'' 5)" 1 UpCase "[]" 0 0]
    by auto
qed

text \<open>
  C40. While a history entry is edited its data points to the undo list. Undoing a change then returns,
  puts the line that results into the history entry and lets the entry point to the rest of the undo
  list; the position in the history does not move.\<close>

theorem undo_updates_history_entry:
  assumes "editor_ok s" and "rl_undo_list s = u # us" and "change u" and "replay [u] (edit_line s) = Some t'"
    and "current_history (hist s) = Some (HEntry e)" and "hdata e = uaddr u" and "uaddr u \<noteq> 0"
  shows "\<exists>s' e'. rl_do_undo s = Some (s', 1) \<and> edit_line s' = t' \<and> rl_undo_list s' = us \<and>
    where_history (hist s') = where_history (hist s) \<and> current_history (hist s') = Some (HEntry e') \<and>
    line e' = Some t' \<and> hdata e' = undo_ptr us"
proof -
  from assms(1) obtain t p where i: "idle s t p" by (auto simp: editor_ok_def)
  let ?s = "s\<lparr>doing_an_undo := True\<rparr>"
  have h: "line_holds ?s t p" "doing_an_undo ?s" using i by (simp_all add: idle_def line_holds_def)
  have "replay [u] t = Some t'" using assms(4) idle_line [OF i] by simp
  from undo_change_line [OF h this, of 0] assms(3) obtain s1 p' where
    s1: "undo_change u 0 ?s = Some (s1, 0)" "line_holds s1 t' p'" "kept ?s s1" by auto
  have hs: "hist s1 = hist s" using s1(3) by (simp add: kept_def)
  have c: "c_str (rl_line_buffer s1) 0 = Some t'" using holds_c_str [OF s1(2), of 0] by simp
  from i obtain es where es: "hist_rep (hist s) es" "0 \<le> history_offset (hist s)"
    "history_offset (hist s) \<le> int (length es)" "\<forall>e \<in> set es. timestamp e \<noteq> None" by (auto simp: idle_def hist_ok_def)
  let ?o = "nat (history_offset (hist s))"
  have o: "?o < length es" "es ! ?o = e"
    using assms(5) current_history_rep [OF es(1-3)] by (auto split: if_splits)
  from undo_history_rep [OF es c, of u us] o assms(6,7) obtain h' es' where
    h': "undo_history u us (rl_line_buffer s1) (hist s) = Some h'" "hist_rep h' es'"
    "history_offset h' = history_offset (hist s)" "length es' = length es" "line (es' ! ?o) = Some t'"
    "hdata (es' ! ?o) = undo_ptr us" by auto
  let ?s2 = "s1\<lparr>doing_an_undo := False, rl_undo_list := us, hist := h'\<rparr>"
  have "rl_do_undo s = Some (?s2, 1)" using s1(1) h'(1) hs by (simp add: rl_do_undo_def assms(2))
  moreover have "edit_line ?s2 = t'" using holds_line [OF s1(2)] by (simp add: edit_line_def)
  moreover have "current_history h' = Some (HEntry (es' ! ?o))"
    using current_history_rep [OF h'(2)] h'(3,4) es(2,3) o(1) by simp
  ultimately show ?thesis using h'(3,5,6) by (auto simp: where_history_def)
qed

definition edited_history :: history where
  "edited_history = \<lparr>the_history = [HEntry \<lparr>line = Some ''abc'', timestamp = Some ''#1'', hdata = 1\<rparr>, HNull],
     history_stifled = False, history_size = 2, history_max_entries = 0, history_offset = 0, history_length = 1, history_base = 1\<rparr>"

definition edited_entry :: editor where
  "edited_entry = (editor_with ''abc'' 3)\<lparr>hist := edited_history,
     rl_undo_list := [\<lparr>uaddr = 1, what = UNDO_INSERT, ustart = 2, uend = 3, utext = None\<rparr>], next_address := 2\<rparr>"

theorem undo_updates_history_entry_witness:
  "\<exists>s' e'. rl_do_undo edited_entry = Some (s', 1) \<and> edit_line s' = ''ab'' \<and> rl_undo_list s' = [] \<and>
    where_history (hist s') = where_history (hist edited_entry) \<and> current_history (hist s') = Some (HEntry e') \<and>
    line e' = Some ''ab'' \<and> hdata e' = undo_ptr []"
proof (rule undo_updates_history_entry [where e = "\<lparr>line = Some ''abc'', timestamp = Some ''#1'', hdata = 1\<rparr>"
      and u = "\<lparr>uaddr = 1, what = UNDO_INSERT, ustart = 2, uend = 3, utext = None\<rparr>"])
  show "editor_ok edited_entry"
  proof -
    have "hist_rep edited_history [\<lparr>line = Some ''abc'', timestamp = Some ''#1'', hdata = 1\<rparr>]"
      by (simp add: hist_rep_def edited_history_def)
    then have "hist_ok edited_history" unfolding hist_ok_def
      by (intro exI [of _ "[\<lparr>line = Some ''abc'', timestamp = Some ''#1'', hdata = 1\<rparr>]"]) (simp add: edited_history_def)
    then have "idle edited_entry ''abc'' 3"
      using editor_with_idle [of "''abc''" 3] by (simp add: edited_entry_def idle_def line_holds_def ring_ok_def)
    then show ?thesis by (auto simp: editor_ok_def)
  qed
qed (simp_all add: edited_entry_def editor_with_def edited_history_def change_def edit_line_def current_history_def read_slot_def
    replay.simps)

subsection \<open>Where commands leave their memory\<close>

text \<open>The eleventh kill reads \<^verbatim>\<open>rl_kill_ring[10]\<close>, behind the block of ten slots.\<close>

lemma full_ring_read:
  "copy_to_kill_ring ''x'' True ((editor_with ''ab'' 0)
     \<lparr>rl_kill_ring := Some (replicate 10 (Some ''a'')), rl_kill_ring_length := 10\<rparr>) = None"
  by code_simp

text \<open>Deleting no character with a numeric argument counts as a kill without making a ring: the kill that
  follows uses \<^verbatim>\<open>rl_kill_ring[-1]\<close> of a null ring.\<close>

lemma empty_kill_then_kill:
  "run_commands [(Delete, 0, True), (Kill_line, 1, False)] (editor_with ''ab'' 0) = None"
  by code_simp

text \<open>A negative numeric argument of \<^verbatim>\<open>set-mark\<close> is stored, and exchanging point and mark puts the cursor there.\<close>

lemma negative_mark_writes_before_line:
  "run_commands [(Set_mark, -5, True), (Exchange_point_and_mark, 1, False), (Insert CHR ''x'', 1, False)]
     (editor_with ''ab'' 0) = None"
  by code_simp

text \<open>A mark left behind the end is set to \<^verbatim>\<open>-1\<close>, and \<^verbatim>\<open>kill-region\<close> then copies from before the buffer.\<close>

lemma stale_mark_read:
  "run_commands [(Set_mark, 1, False), (Rubout, 1, False), (Exchange_point_and_mark, 1, False), (Kill_region, 1, False)]
     (editor_with ''ab'' 2) = None"
  by code_simp

text \<open>\<^verbatim>\<open>unix-filename-rubout\<close> reads the byte before the buffer when it reaches the start of the line.\<close>

lemma filename_rubout_read:
  "run_commands [(Unix_filename_rubout, 1, False)] (editor_with ''ab'' 2) = None"
  by code_simp

text \<open>\<^verbatim>\<open>yank-pop\<close> makes two changes outside a group, so one undo only removes the text it yanked.\<close>

lemma yank_pop_undone_halfway:
  "map_option edit_line (run_commands [(Kill_word, 1, False), (Beg_of_line, 1, False), (Yank, 1, False), (Yank_pop, 1, False),
     (Undo_command, 1, False)] (editor_with ''ab'' 0)) = Some ''''"
  by code_simp

end
