(* ===== verification/Spec2Isabelle.thy ===== *)
theory Spec2Isabelle
  imports Stringlist Numconv Assoc Array WordSplit Unwind History PatSub BraceSpec ExprCorrect TestSpec CompleteSpec EditProps
begin

text \<open>
  A verification library for the command shell of openconfigd, \<^verbatim>\<open>src/cli\<close>.

  \<^bold>\<open>The program.\<close> openconfigd is a configuration daemon written in Go with a command line written in
  C. The command line is GNU Bash 4.3.30 with the programmable completion changed so that, when the
  environment has \<^verbatim>\<open>CLI_MODE\<close>, every line is completed by the completion function the daemon
  installs. What the shell does with a command line is carried by a few layers of data structures
  and string functions: words and word lists, a chained hash table under every associative store,
  sparse indexed arrays, the internal quoting that keeps quoted characters apart from unquoted ones
  while a word is expanded, the splitting of expanded words into fields, conversions between numbers
  and strings, the stack of protections that undoes temporary changes when a command is interrupted,
  the history list the line editor moves in, and the line it edits. These layers are what the library models.

  \<^bold>\<open>Theories.\<close> Each names the files under \<^verbatim>\<open>src/cli\<close> it follows; definitions keep the names of the C
  functions, and a loop of a function is a definition named after it.
  \<^item> \<^verbatim>\<open>Prelude\<close>: characters of a terminated string (\<open>char_at\<close>), signed and unsigned characters,
    limits of the integer types, facts about lists that several components use.
  \<^item> \<^verbatim>\<open>Dictionary\<close>: the locale \<open>dictionary\<close>, the contract of a store with lookup, update, removal
    and clearing, and the simulation of any sequence of operations by a map. Associative arrays
    (\<open>adict\<close>) and indexed arrays (\<open>xdict\<close>) are its interpretations.
  \<^item> \<^verbatim>\<open>Hashlib\<close> (\<^verbatim>\<open>hashlib.c\<close>): buckets as lists of entries with cached 32-bit hashes. Invariant
    \<open>hash_wf\<close>, abstractions \<open>hash_abs\<close> to a map and \<open>hash_hits\<close> to the counts of hits, 32-bit words; search, insertion, removal,
    copy, flush and walk.
  \<^item> \<^verbatim>\<open>WordList\<close> (\<^verbatim>\<open>list.c\<close>, \<^verbatim>\<open>make_cmd.c\<close>, \<^verbatim>\<open>lib/sh/stringvec.c\<close>) and \<^verbatim>\<open>Stringlist\<close>
    (\<^verbatim>\<open>lib/sh/stringlist.c\<close>): words with their flags, null-terminated vectors, and growable lists of
    strings, whose slots can be undefined; every access is checked against the block.
  \<^item> \<^verbatim>\<open>Numconv\<close> (\<^verbatim>\<open>lib/sh/fmtulong.c\<close>, \<^verbatim>\<open>itos.c\<close>, \<^verbatim>\<open>strtol.c\<close>, \<^verbatim>\<open>general.c\<close>): 64-bit words to
    digits and back, with the overflow tests of the code; formatting into a buffer that is too short has no value.
  \<^item> \<^verbatim>\<open>Syntaxtab\<close> (\<^verbatim>\<open>mksyntax.c\<close>, \<^verbatim>\<open>syntax.h\<close>) and \<^verbatim>\<open>Quoting\<close> (\<^verbatim>\<open>lib/sh/shquote.c\<close>,
    \<^verbatim>\<open>string_quote_removal\<close> of \<^verbatim>\<open>subst.c\<close>): the table of character classes as the generator builds
    it, and the functions that quote a string so that the parser reads it back.
  \<^item> \<^verbatim>\<open>CtlQuote\<close> and \<^verbatim>\<open>WordSplit\<close> (\<^verbatim>\<open>subst.c\<close>): the marker characters \<open>CTLESC\<close> and \<open>CTLNUL\<close>, the
    state kept about \<^verbatim>\<open>IFS\<close>, joining of words, and \<open>list_string\<close> and \<open>get_word_from_string\<close>,
    compared with the splitting of POSIX stated as the function \<open>fields\<close>.
  \<^item> \<^verbatim>\<open>Assoc\<close> (\<^verbatim>\<open>assoc.c\<close>) and \<^verbatim>\<open>Array\<close> (\<^verbatim>\<open>array.c\<close>): the two kinds of arrays. An element of an
    indexed array has an address, so that the remembered element \<open>lastref\<close> is a pointer that can
    dangle; following it then has no value. The shifts convert indices to \<^verbatim>\<open>intmax_t\<close>.
  \<^item> \<^verbatim>\<open>Unwind\<close> (\<^verbatim>\<open>unwind_prot.c\<close>): the stack of frame tags, cleanups and saved variables over a memory
    of bytes; \<open>scoped\<close> is the relation of what code inside a frame may do.
  \<^item> \<^verbatim>\<open>History\<close> (\<^verbatim>\<open>lib/readline/history.c\<close>): the block of entries and the position in it; \<open>hist_op\<close> has every operation
    that changes them, and \<open>hist_plan\<close> the same operations on a list with a position.
  \<^item> \<^verbatim>\<open>Glob\<close> (\<^verbatim>\<open>lib/glob/sm_loop.c\<close>, \<^verbatim>\<open>smatch.c\<close>, \<^verbatim>\<open>strmatch.c\<close>, \<^verbatim>\<open>gmisc.c\<close>): the pattern matcher, with
    pointers as indices into the whole pattern. \<^verbatim>\<open>GlobSpec\<close> has pattern trees, their spelling and
    their languages, and \<^verbatim>\<open>GlobMatch\<close> the proof that the matcher decides the language.
  \<^item> \<^verbatim>\<open>PatSub\<close> (\<^verbatim>\<open>subst.c\<close>): removal of prefixes and suffixes, the search for a pattern and its
    replacement, on top of the matcher.
  \<^item> \<^verbatim>\<open>Braces\<close> (\<^verbatim>\<open>braces.c\<close>): brace expansion, with the reader of command substitutions as a
    parameter; the sizes of its vectors are computed in \<^verbatim>\<open>int\<close>, and words that do not fit have no value (\<open>store_words\<close>).
    \<^verbatim>\<open>BraceSpec\<close> has expression trees with their words, and the comparison.
  \<^item> \<^verbatim>\<open>Cint\<close>: conversions to \<^verbatim>\<open>intmax_t\<close> and \<^verbatim>\<open>int\<close>, division, remainder and shifts of C.
  \<^item> \<^verbatim>\<open>Expr\<close> (\<^verbatim>\<open>expr.c\<close>, parts of \<^verbatim>\<open>variables.c\<close>): arithmetic evaluation. The static variables of the
    file are a record, each function and each loop is a definition over the calls it makes
    (\<open>caller\<close>), and \<open>run\<close> closes the cycle with a bound on the depth of calls; a \<^verbatim>\<open>longjmp\<close> is the
    result \<open>Stop\<close>. \<^verbatim>\<open>ExprInv\<close> has the contract of the evaluator as the locale \<open>evaluator\<close>, kept by
    \<open>run\<close> at every depth, and from it termination, restoration of the context and the safety of
    suppressed evaluation; \<^verbatim>\<open>ExprLex\<close> the analyser on spelled tokens and the values of numbers;
    \<^verbatim>\<open>ExprSem\<close> expression trees with their reference semantics; \<^verbatim>\<open>ExprCorrect\<close> the comparison.
  \<^item> \<^verbatim>\<open>TestCmd\<close> (\<^verbatim>\<open>test.c\<close>): the \<^verbatim>\<open>test\<close> and \<^verbatim>\<open>[\<close> commands; what the system, the options and the
    variables answer is the record \<open>services\<close>. \<^verbatim>\<open>TestPrim\<close> specifies the primaries without the code's
    functions, \<^verbatim>\<open>TestSpec\<close> has expression trees and their words.
  \<^item> \<^verbatim>\<open>Complete\<close> (\<^verbatim>\<open>cli.c\<close>, \<^verbatim>\<open>bashline.c\<close>, \<^verbatim>\<open>lib/readline/complete.c\<close>): the completion driver with
    command-line mode on one side and the collection of matches in readline on the other, with the variables
    they share as a record; the rest of the shell that the driver asks is the record \<open>completer\<close>.
    \<^verbatim>\<open>CompleteSpec\<close> shows what is offered in command-line mode.
  \<^item> \<^verbatim>\<open>LineEdit\<close> (\<^verbatim>\<open>lib/readline/text.c\<close>, \<^verbatim>\<open>undo.c\<close>, \<^verbatim>\<open>kill.c\<close>, parts of \<^verbatim>\<open>util.c\<close> and \<^verbatim>\<open>readline.c\<close>): the line
    buffer as the allocated block, the undo list, the kill ring and the editing commands over the record
    \<open>editor\<close>, which includes the state of \<^verbatim>\<open>History\<close>. \<^verbatim>\<open>EditSpec\<close> has the primitive changes on the line and what
    the undo list undoes (\<open>replay\<close>), \<^verbatim>\<open>EditCommands\<close> a weakest precondition (\<open>yields\<close>) and a rule for every command,
    \<^verbatim>\<open>EditProps\<close> the properties.

  \<^bold>\<open>What is shown.\<close> The stores keep their invariants and simulate maps or lists over any sequence of
  operations (\<open>hash_search_refines\<close>, \<open>assoc_run_refines\<close>, \<open>array_run_refines\<close>,
  \<open>history_refines_list\<close>, \<open>strlist_operations_refine\<close>); the cache of indexed arrays is transparent
  and never dangles; conversions and quotings are inverse to each other and fit the blocks they
  allocate; splitting computes the POSIX fields and, with the joining of \<^verbatim>\<open>"$@"\<close>, gives back the
  positional parameters; a frame of protections is a transaction on memory; the matcher decides the
  language of a pattern (\<open>strmatch_decides\<close>), and removal, search and replacement are stated over
  that language; brace expansion gives the product of the choices (\<open>brace_expand_correct\<close>);
  arithmetic evaluation always ends (\<open>evalexp_returns\<close>) and computes the reference semantics
  (\<open>evalexp_correct\<close>) for integer variables where skipped operands have literal exponents; \<^verbatim>\<open>test\<close> ends with the status of its expression (\<open>test_command_correct\<close>); in
  command-line mode completion asks about the whole line and offers only the answers
  (\<open>cli_completion_asks_whole_line\<close>, \<open>cli_completion_offers_answers_only\<close>); editing a line stays inside its
  memory and is taken back exactly by undoing (\<open>editing_is_reverted\<close>, \<open>grouped_changes_undone_at_once\<close>,
  \<open>undo_updates_history_entry\<close>). Where the code does
  something else than it means to, the exact behaviour is the theorem: the numbering of history
  entries after \<open>stifle_history\<close>, the words \<open>word_list_split\<close> loses, the length zero of
  \<open>assoc_subrange\<close>, the block of \<open>sh_mkdoublequoted\<close>, the star before an optional group
  (\<open>star_optional_matches_all\<close>), the search for a pattern that ends in a literal star
  (\<open>literal_star_missed\<close>), the vector of a long sequence (\<open>mkseq_overruns\<close>), the product of long lists of words (\<open>array_concat_overruns\<close>), indices shifted
  beyond \<^verbatim>\<open>intmax_t\<close> (\<open>array_rshift_wraps\<close>), the position behind a history that shrank (\<open>stale_position_read\<close>), the eleventh kill (\<open>full_ring_read\<close>) and negative marks
  (\<open>negative_mark_writes_before_line\<close>).

  \<^bold>\<open>Conventions.\<close> A C string is the list of its characters without the terminator. A read or write
  outside a block, a null dereference and the use of an undefined slot are the value \<open>None\<close>, so that
  a theorem giving \<open>Some\<close> excludes them; a null pointer that the code returns is an inner \<open>None\<close>.
  Hash values, counts of hits and the numbers formatted are words of their width; the values of arithmetic, shifted indices and the sizes of
  brace expansion wrap as written in the definitions; other lengths, counters and array
  indices are unbounded integers, which stands for the assumption that they stay within
  \<^verbatim>\<open>int\<close> and \<^verbatim>\<open>intmax_t\<close>. Plain \<^verbatim>\<open>char\<close> is signed where the code promotes it. Strings are read in a
  single-byte locale. All loops of the code are total functions with their measures; only the parser of \<^verbatim>\<open>test\<close> and the evaluator of
  expressions have fuel that matters. For \<^verbatim>\<open>test\<close> it is four for every word and four more, as each word is read through four levels. For the evaluator it is the depth of
  its calls, and \<open>1024 * 64 * (M + 2)\<close> is enough when \<open>M\<close> bounds the
  lengths of the expression and of the values of variables: 1024 contexts, in each of which every
  64 nested calls read a character. (\<open>revert_loop\<close> counts the entries of the undo list, and each round
  removes one.) Allocation succeeds, as \<^verbatim>\<open>xmalloc\<close> does not return otherwise.

  \<^bold>\<open>Not modelled.\<close> The parser, the execution of commands, jobs, signals and traps, redirections,
  key bindings, vi mode and the display of the line editor, the builtins and the Go daemon; they are input and output, processes, or
  generated code, or need the layers here first. In arithmetic evaluation a subscript ends
  the modelled run, and dynamic variables, namerefs, function scopes and the hooks of special variables are left out.
\<close>

end
